(* ===== verification/Flecsi_Prelude.thy ===== *)
theory Flecsi_Prelude
  imports Main "HOL-Library.Word"
begin

text \<open>
  Shared vocabulary of the FleCSI development: the outcome type that stands for the ways an
  operation of the library can fail, its sequencing combinator, the theorem collections that
  the component theories extend, and generic facts on lists and machine words.

  \<^item> A failed \<open>assert\<close> is \<open>Assert_failed\<close>, a \<open>clog_fatal\<close> is \<open>Clog_fatal\<close>, the two
    standard exceptions the headers throw are \<open>Length_error\<close> and \<open>Out_of_range\<close>, and
    what C++ or MPI leaves undefined is \<open>Undefined\<close>: an access outside an allocation, a shift beyond the
    width of a word, a count MPI cannot take, a receive that no message matches.
    \<open>Out_of_fuel\<close> is no behaviour of the program: it ends a recursion whose fuel was chosen too small.
\<close>

datatype failure = Assert_failed | Clog_fatal | Length_error | Out_of_range | Undefined | Out_of_fuel

type_synonym 'a outcome = "failure + 'a"

abbreviation ok :: "'a \<Rightarrow> 'a outcome" where
  "ok \<equiv> Inr"

abbreviation fail :: "failure \<Rightarrow> 'a outcome" where
  "fail \<equiv> Inl"

fun and_then :: "'a outcome \<Rightarrow> ('a \<Rightarrow> 'b outcome) \<Rightarrow> 'b outcome" where
  "and_then (Inl e) f = Inl e"
| "and_then (Inr x) f = f x"

definition require :: "bool \<Rightarrow> 'a outcome \<Rightarrow> 'a outcome" where
  "require b k = (if b then k else fail Assert_failed)"

named_theorems packing "round trips and frame facts of packed words"
named_theorems outcome_intro "facts about successful operations"

lemma require_ok [simp]: "require b k = ok y \<longleftrightarrow> b \<and> k = ok y"
  by (simp add: require_def)

lemma require_True [simp]: "require True k = k"
  by (simp add: require_def)

lemma require_False [simp]: "require False k = fail Assert_failed"
  by (simp add: require_def)

lemma and_then_ok [simp]: "and_then m f = ok y \<longleftrightarrow> (\<exists>x. m = ok x \<and> f x = ok y)"
  by (cases m) auto

lemma and_then_Inr [simp]: "and_then m Inr = m"
  by (cases m) auto

lemma and_then_assoc: "and_then (and_then m f) g = and_then m (\<lambda>x. and_then (f x) g)"
  by (cases m) auto

lemma and_then_cong [fundef_cong]:
  "m = m' \<Longrightarrow> (\<And>x. m' = ok x \<Longrightarrow> f x = g x) \<Longrightarrow> and_then m f = and_then m' g"
  by (cases m') auto

lemma and_then_fail: "and_then m f = fail e \<longleftrightarrow> m = fail e \<or> (\<exists>x. m = ok x \<and> f x = fail e)"
  by (cases m) auto

text \<open>A C++ loop over a container whose body may fail.\<close>

fun fold_outcome :: "('x \<Rightarrow> 's \<Rightarrow> 's outcome) \<Rightarrow> 'x list \<Rightarrow> 's \<Rightarrow> 's outcome" where
  "fold_outcome f [] s = ok s"
| "fold_outcome f (x # xs) s = and_then (f x s) (fold_outcome f xs)"

lemma fold_outcome_Nil [simp]: "fold_outcome f [] = ok"
  by (rule ext) simp

lemma fold_outcome_append [simp]:
  "fold_outcome f (xs @ ys) s = and_then (fold_outcome f xs s) (fold_outcome f ys)"
proof (induction xs arbitrary: s)
  case (Cons x xs)
  then show ?case by (cases "f x s") auto
qed simp

lemma fold_outcome_invariant:
  assumes "fold_outcome f xs s = ok s'" "P s" "\<And>x s s'. x \<in> set xs \<Longrightarrow> P s \<Longrightarrow> f x s = ok s' \<Longrightarrow> P s'"
  shows "P s'"
  using assms
proof (induction xs arbitrary: s)
  case (Cons x xs)
  then obtain t where t: "f x s = ok t" "fold_outcome f xs t = ok s'" by auto
  have "P t" using Cons.prems t(1) by (meson list.set_intros(1))
  then show ?case using Cons.IH[OF t(2)] Cons.prems(3) by (meson list.set_intros(2))
qed simp

lemma fold_outcome_cong [fundef_cong]:
  "xs = ys \<Longrightarrow> s = t \<Longrightarrow> (\<And>x s. x \<in> set ys \<Longrightarrow> f x s = g x s) \<Longrightarrow> fold_outcome f xs s = fold_outcome g ys t"
proof (induction ys arbitrary: xs s t)
  case (Cons y ys)
  have "fold_outcome f ys u = fold_outcome g ys u" for u
    using Cons.prems(3) by (intro Cons.IH) auto
  then have "fold_outcome f ys = fold_outcome g ys" by (rule ext)
  then show ?case using Cons.prems by simp
qed simp

text \<open>A loop nest is one loop over the pairs it visits.\<close>

lemma fold_outcome_nested:
  "fold_outcome (\<lambda>x. fold_outcome (g x) (h x)) xs s
   = fold_outcome (\<lambda>(x, y). g x y) (concat (map (\<lambda>x. map (Pair x) (h x)) xs)) s"
proof (induction xs arbitrary: s)
  case (Cons x xs)
  have "fold_outcome (\<lambda>(x, y). g x y) (map (Pair x) ys) t = fold_outcome (g x) ys t" for ys t
  proof (induction ys arbitrary: t)
    case (Cons y ys)
    then have "fold_outcome (\<lambda>(x, y). g x y) (map (Pair x) ys) = fold_outcome (g x) ys" by (rule ext)
    then show ?case by simp
  qed simp
  moreover have "fold_outcome (\<lambda>x. fold_outcome (g x) (h x)) xs
      = fold_outcome (\<lambda>(x, y). g x y) (concat (map (\<lambda>x. map (Pair x) (h x)) xs))"
    by (rule ext) (rule Cons.IH)
  ultimately show ?case by simp
qed simp

lemma fold_outcome_concat:
  "fold_outcome (\<lambda>x. fold_outcome f (h x)) xs s = fold_outcome f (concat (map h xs)) s"
proof (induction xs arbitrary: s)
  case (Cons x xs)
  then have "fold_outcome (\<lambda>x. fold_outcome f (h x)) xs = fold_outcome f (concat (map h xs))" by (rule ext)
  then show ?case by simp
qed simp

text \<open>Evaluating an operation on every element, stopping at the first failure.\<close>

fun traverse :: "('a \<Rightarrow> 'b outcome) \<Rightarrow> 'a list \<Rightarrow> 'b list outcome" where
  "traverse f [] = ok []"
| "traverse f (x # xs) = and_then (f x) (\<lambda>y. and_then (traverse f xs) (\<lambda>ys. ok (y # ys)))"

lemma traverse_ok: "(\<And>x. x \<in> set xs \<Longrightarrow> f x = ok (g x)) \<Longrightarrow> traverse f xs = ok (map g xs)"
  by (induction xs) auto

lemma traverse_cong [fundef_cong]:
  "xs = ys \<Longrightarrow> (\<And>x. x \<in> set ys \<Longrightarrow> f x = g x) \<Longrightarrow> traverse f xs = traverse g ys"
  by (induction ys arbitrary: xs) auto

lemma traverse_map: "traverse f (map g xs) = traverse (\<lambda>x. f (g x)) xs"
  by (induction xs) auto

text \<open>Every rank, or every index, does its part.\<close>

lemma traverse_choice:
  assumes "\<And>i. i < n \<Longrightarrow> \<exists>x. f i = ok x \<and> P i x"
  shows "\<exists>xs. traverse f [0..<n] = ok xs \<and> length xs = n \<and> (\<forall>i<n. f i = ok (xs ! i) \<and> P i (xs ! i))"
proof -
  obtain g where g: "\<forall>i<n. f i = ok (g i) \<and> P i (g i)" using assms by metis
  then have "traverse f [0..<n] = ok (map g [0..<n])" by (intro traverse_ok) simp
  then show ?thesis using g by (intro exI[of _ "map g [0..<n]"]) simp
qed

section \<open>Lists\<close>

lemma sorted_list_nonempty: "finite A \<Longrightarrow> A \<noteq> {} \<Longrightarrow> sorted_list_of_set A \<noteq> []" for A :: "'a::linorder set"
  by (metis sorted_list_of_set_eq_Nil_iff)

lemma set_remove1_insert: "x \<in> set xs \<Longrightarrow> set xs = insert x (set (remove1 x xs))"
  by (induction xs) auto

end
