(* ===== verification/Packed_Words.thy ===== *)
theory Packed_Words
  imports Flecsi_Prelude
begin

unbundle bit_operations_syntax

text \<open>
  The bit-packed identifiers of \<open>flecsi/utils\<close>: \<open>offset_u\<close> (offset.h), the global entity
  identifier \<open>id_\<close> (id.h), the hash keys of hash.h and the de Bruijn bit index (debruijn.h).
  \<open>uint64_t\<close> and \<open>std::size_t\<close> are \<^typ>\<open>64 word\<close>, \<open>uint32_t\<close> is \<^typ>\<open>32 word\<close>; the template
  arguments that are bit counts are arguments of type \<^typ>\<open>nat\<close>.
\<close>

type_synonym u64 = "64 word"
type_synonym u32 = "32 word"

section \<open>Bit facts the packings share\<close>

lemma fits_iff_uint: "take_bit n w = w \<longleftrightarrow> uint (w :: 'a::len word) < 2 ^ n"
proof -
  have "take_bit n w = w \<longleftrightarrow> take_bit n (uint w) = uint w"
    by (metis unsigned_take_bit_eq word_uint_eq_iff)
  then show ?thesis by (simp add: take_bit_int_eq_self_iff)
qed

lemma mask_shift: "push_bit n 1 - 1 = (mask n :: 'a::len word)"
  by (simp add: mask_eq_exp_minus_1 push_bit_eq_mult)

lemma le_mask_bits: "w \<le> (mask n :: 'a::len word) \<longleftrightarrow> take_bit n w = w"
proof -
  have "uint w < 2 ^ LENGTH('a)" by simp
  then have eq: "uint w < 2 ^ n \<longleftrightarrow> uint w < 2 ^ min (LENGTH('a)) n"
    by (auto simp add: min_def intro: less_le_trans)
  have "w \<le> mask n \<longleftrightarrow> uint w \<le> mask (min (LENGTH('a)) n)"
    by (simp only: word_le_def uint_mask_eq)
  also have "\<dots> \<longleftrightarrow> uint w < 2 ^ min (LENGTH('a)) n"
    by (simp add: mask_eq_exp_minus_1)
  finally show ?thesis using eq fits_iff_uint by blast
qed

lemma fits_iff_less_exp:
  assumes "n < LENGTH('a)" shows "(w :: 'a::len word) < push_bit n 1 \<longleftrightarrow> take_bit n w = w"
proof -
  have "uint (push_bit n 1 :: 'a word) = 2 ^ n"
    using assms by (intro bit_eqI) (auto simp add: push_bit_eq_mult bit_simps)
  then show ?thesis by (simp add: fits_iff_uint word_less_def)
qed

lemma fits_bit: "take_bit n w = w \<Longrightarrow> n \<le> k \<Longrightarrow> \<not> bit (w :: 'a::len word) k"
  by (metis bit_take_bit_iff leD)

lemma pack_uint:
  fixes a b :: "'a::len word"
  assumes a: "take_bit n a = a" and b: "take_bit m b = b" and nm: "n + m \<le> LENGTH('a)"
  shows "uint (a OR push_bit n b) = uint a + 2 ^ n * uint b"
proof -
  have "uint b < 2 ^ m" and ua: "take_bit n (uint a) = uint a"
    using a b by (simp_all add: fits_iff_uint take_bit_int_eq_self_iff)
  then have "push_bit n (uint b) < 2 ^ (n + m)"
    by (simp add: push_bit_eq_mult power_add)
  also have "(2::int) ^ (n + m) \<le> 2 ^ LENGTH('a)"
    using nm by simp
  finally have "take_bit LENGTH('a) (push_bit n (uint b)) = push_bit n (uint b)"
    by (simp add: take_bit_int_eq_self)
  then have "uint (a OR push_bit n b) = concat_bit n (uint a) (uint b)"
    by (simp add: unsigned_or_eq unsigned_push_bit_eq concat_bit_def ua)
  then show ?thesis by (simp add: concat_bit_eq ua push_bit_eq_mult)
qed

lemma pack_fits [packing]:
  assumes "take_bit n a = (a :: 'a::len word)" and "take_bit m b = b" and "n + m \<le> LENGTH('a)"
  shows "take_bit (n + m) (a OR push_bit n b) = a OR push_bit n b"
proof -
  have "uint a < 2 ^ n" and "uint b + 1 \<le> 2 ^ m"
    using assms(1,2) by (simp_all add: fits_iff_uint)
  then have "uint a + 2 ^ n * uint b < 2 ^ n * (uint b + 1)"
    by (simp add: algebra_simps)
  also have "\<dots> \<le> 2 ^ n * 2 ^ m"
    using \<open>uint b + 1 \<le> 2 ^ m\<close> by (rule mult_left_mono) simp
  finally have "uint (a OR push_bit n b) < 2 ^ (n + m)"
    by (simp add: pack_uint [OF assms] power_add)
  then show ?thesis by (simp only: fits_iff_uint)
qed

lemma digits_less:
  fixes x x' y y' B :: int
  assumes "x < B" and "0 \<le> x'" and "y < y'" and "0 \<le> x"
  shows "x + B * y < x' + B * y'"
proof -
  have "B * (y + 1) \<le> B * y'" using assms by (intro mult_left_mono) auto
  then show ?thesis using assms by (simp add: algebra_simps)
qed

lemma lex_digits:
  fixes x x' y y' B :: int
  assumes "0 \<le> x" "x < B" "0 \<le> x'" "x' < B"
  shows "x + B * y < x' + B * y' \<longleftrightarrow> y < y' \<or> y = y' \<and> x < x'"
proof (cases y y' rule: linorder_cases)
  case less
  with digits_less [of x B x' y y'] assms show ?thesis by simp
next
  case equal
  then show ?thesis by simp
next
  case greater
  with digits_less [of x' B x y' y] assms show ?thesis by simp
qed

lemma pack_less [packing]:
  assumes "take_bit n a = (a :: 'a::len word)" "take_bit m b = b" "take_bit n a' = a'" "take_bit m b' = b'"
    and "n + m \<le> LENGTH('a)"
  shows "a OR push_bit n b < a' OR push_bit n b' \<longleftrightarrow> b < b' \<or> b = b' \<and> a < a'"
proof -
  have "uint a < 2 ^ n" "uint a' < 2 ^ n"
    using assms(1,3) by (simp_all only: fits_iff_uint)
  then show ?thesis
    using lex_digits [of "uint a" "2 ^ n" "uint a'" "uint b" "uint b'"]
    by (simp add: word_less_def pack_uint [OF assms(1,2,5)] pack_uint [OF assms(3,4,5)] word_uint_eq_iff)
qed

lemma pack_eq [packing]:
  assumes "take_bit n a = (a :: 'a::len word)" "take_bit m b = b" "take_bit n a' = a'" "take_bit m b' = b'"
    and "n + m \<le> LENGTH('a)"
  shows "a OR push_bit n b = a' OR push_bit n b' \<longleftrightarrow> a = a' \<and> b = b'"
  using pack_less [OF assms] pack_less [OF assms(3,4,1,2,5)]
  by (metis less_irrefl linorder_neqE)

section \<open>The interface of a word that packs two fields\<close>

text \<open>
  A packed word has two fields, each with a getter, a setter and a validity condition on the
  values that fit; a setter stores what the getter returns and leaves the other field alone.
\<close>

locale packed_pair =
  fixes get1 :: "'s \<Rightarrow> 'a" and put1 :: "'a \<Rightarrow> 's \<Rightarrow> 's outcome" and fits1 :: "'a \<Rightarrow> bool"
    and get2 :: "'s \<Rightarrow> 'b" and put2 :: "'b \<Rightarrow> 's \<Rightarrow> 's outcome" and fits2 :: "'b \<Rightarrow> bool"
  assumes put1_ok: "fits1 x \<Longrightarrow> \<exists>t. put1 x s = ok t \<and> get1 t = x \<and> get2 t = get2 s"
    and put1_fail: "\<not> fits1 x \<Longrightarrow> put1 x s = fail Assert_failed"
    and put2_ok: "fits2 y \<Longrightarrow> \<exists>t. put2 y s = ok t \<and> get2 t = y \<and> get1 t = get1 s"
    and put2_fail: "\<not> fits2 y \<Longrightarrow> put2 y s = fail Assert_failed"
begin

lemma put1_iff: "(\<exists>t. put1 x s = ok t) \<longleftrightarrow> fits1 x"
  using put1_ok put1_fail by fastforce

lemma put2_iff: "(\<exists>t. put2 y s = ok t) \<longleftrightarrow> fits2 y"
  using put2_ok put2_fail by fastforce

lemma put1_frame: "put1 x s = ok t \<Longrightarrow> get1 t = x \<and> get2 t = get2 s"
  using put1_ok [of x s] put1_iff [of x s] by auto

lemma put2_frame: "put2 y s = ok t \<Longrightarrow> get2 t = y \<and> get1 t = get1 s"
  using put2_ok [of y s] put2_iff [of y s] by auto

lemma put_both:
  assumes "and_then (put1 x s) (put2 y) = ok t"
  shows "get1 t = x \<and> get2 t = y"
  using assms put1_frame put2_frame by fastforce

end

section \<open>offset_u: a start index and a count in one word\<close>

definition offset_count_mask :: "nat \<Rightarrow> u64" where
  "offset_count_mask c = push_bit c 1 - 1"

definition offset_start_max :: "nat \<Rightarrow> u64" where
  "offset_start_max c = push_bit (64 - c) 1 - 1"

definition offset_make :: "nat \<Rightarrow> u64 \<Rightarrow> u32 \<Rightarrow> u64 outcome" where
  "offset_make c start count =
     (let w = push_bit c start OR ucast count
      in require (ucast count \<le> offset_count_mask c)
          (require (start \<le> offset_start_max c) (ok w)))"

definition offset_start :: "nat \<Rightarrow> u64 \<Rightarrow> u64" where
  "offset_start c ofs = drop_bit c ofs"

definition offset_count :: "nat \<Rightarrow> u64 \<Rightarrow> u32" where
  "offset_count c ofs = ucast (ofs AND offset_count_mask c)"

definition offset_end :: "nat \<Rightarrow> u64 \<Rightarrow> u64" where
  "offset_end c ofs = offset_start c ofs + ucast (offset_count c ofs)"

definition offset_next :: "nat \<Rightarrow> u64 \<Rightarrow> u32 \<Rightarrow> u64 outcome" where
  "offset_next c prev count = offset_make c (offset_end c prev) count"

definition offset_set_count :: "nat \<Rightarrow> u32 \<Rightarrow> u64 \<Rightarrow> u64 outcome" where
  "offset_set_count c count ofs =
     require (ucast count \<le> offset_count_mask c)
       (ok ((ofs AND NOT (offset_count_mask c)) OR ucast count))"

definition offset_set_offset :: "nat \<Rightarrow> u64 \<Rightarrow> u64 \<Rightarrow> u64 outcome" where
  "offset_set_offset c start ofs =
     require (start \<le> offset_start_max c)
       (ok ((ofs AND offset_count_mask c) OR push_bit c start))"

definition offset_range :: "nat \<Rightarrow> u64 \<Rightarrow> u64 \<times> u64" where
  "offset_range c ofs = (let s = offset_start c ofs in (s, s + ucast (offset_count c ofs)))"

lemma offset_masks [simp]:
  "offset_count_mask c = mask c" "offset_start_max c = mask (64 - c)"
  by (simp_all add: offset_count_mask_def offset_start_max_def mask_eq_exp_minus_1 push_bit_eq_mult)

lemmas offset_defs = offset_make_def offset_start_def offset_count_def offset_set_count_def
  offset_set_offset_def le_mask_bits

lemma fits_count_bit:
  assumes "take_bit c (ucast count :: u64) = ucast (count :: u32)" and "c \<le> k"
  shows "\<not> bit count k"
proof
  assume bit: "bit count k"
  then have "k < 32" using bit_imp_le_length [of count k] by simp
  then have "bit (ucast count :: u64) k" using bit by (simp add: bit_simps)
  then show False using fits_bit [OF assms] by simp
qed

lemma offset_parts:
  fixes start :: u64 and count :: u32
  assumes "c \<le> 32" and count: "take_bit c (ucast count :: u64) = ucast count"
    and start: "take_bit (64 - c) start = start"
  shows "drop_bit c (push_bit c start OR ucast count) = start"
    and "ucast ((push_bit c start OR ucast count) AND mask c) = count"
proof -
  show "drop_bit c (push_bit c start OR ucast count) = start"
  proof (rule bit_eqI)
    fix k assume "possible_bit TYPE(64 word) k"
    then show "bit (drop_bit c (push_bit c start OR ucast count)) k = bit start k"
      using fits_count_bit [OF count, of "c + k"] fits_bit [OF start, of k] assms(1)
      by (cases "c + k < 64") (simp_all add: bit_simps less_diff_conv)
  qed
  show "ucast ((push_bit c start OR ucast count) AND mask c) = count"
  proof (rule bit_eqI)
    fix k assume "possible_bit TYPE(32 word) k"
    then show "bit (ucast ((push_bit c start OR ucast count) AND mask c) :: u32) k = bit count k"
      using fits_count_bit [OF count, of k] assms(1)
      by (cases "k < c") (simp_all add: bit_simps)
  qed
qed

lemma offset_make_ok:
  "offset_make c start count = ok w \<longleftrightarrow>
    take_bit c (ucast count :: u64) = ucast count \<and> take_bit (64 - c) start = start \<and>
    w = (push_bit c start OR ucast count)"
  by (auto simp: offset_defs Let_def)

lemma offset_set_count_parts:
  fixes w :: u64 and count :: u32
  assumes "c \<le> 32" and count: "take_bit c (ucast count :: u64) = ucast count"
  shows "ucast (((w AND NOT (mask c)) OR ucast count) AND mask c) = count"
    and "drop_bit c ((w AND NOT (mask c)) OR ucast count) = drop_bit c w"
proof -
  show "ucast (((w AND NOT (mask c)) OR ucast count) AND mask c) = count"
  proof (rule bit_eqI)
    fix k assume "possible_bit TYPE(32 word) k"
    then show "bit (ucast (((w AND NOT (mask c)) OR ucast count) AND mask c) :: u32) k = bit count k"
      using fits_count_bit [OF count, of k] assms(1)
      by (cases "k < c") (simp_all add: bit_simps)
  qed
  show "drop_bit c ((w AND NOT (mask c)) OR ucast count) = drop_bit c w"
  proof (rule bit_eqI)
    fix k assume "possible_bit TYPE(64 word) k"
    then show "bit (drop_bit c ((w AND NOT (mask c)) OR ucast count)) k = bit (drop_bit c w) k"
      using fits_count_bit [OF count, of "c + k"] bit_imp_le_length [of w "c + k"]
      by (auto simp add: bit_simps)
  qed
qed

lemma offset_set_offset_parts:
  fixes w start :: u64
  assumes "c \<le> 32" and start: "take_bit (64 - c) start = start"
  shows "ucast (((w AND mask c) OR push_bit c start) AND mask c) = (ucast (w AND mask c) :: u32)"
    and "drop_bit c ((w AND mask c) OR push_bit c start) = start"
proof -
  show "ucast (((w AND mask c) OR push_bit c start) AND mask c) = (ucast (w AND mask c) :: u32)"
    by (rule bit_eqI) (auto simp add: bit_simps)
  show "drop_bit c ((w AND mask c) OR push_bit c start) = start"
  proof (rule bit_eqI)
    fix k assume "possible_bit TYPE(64 word) k"
    then show "bit (drop_bit c ((w AND mask c) OR push_bit c start)) k = bit start k"
      using fits_bit [OF start, of k] by (cases "c + k < 64") (simp_all add: bit_simps)
  qed
qed

text \<open>
  Both setters of an \<open>offset_u\<close> satisfy the interface; the \<open>static_assert\<close> on
  \<open>COUNT_BITS\<close> is the hypothesis of the interpretation's two-field view.
\<close>

definition offset_fits_start :: "nat \<Rightarrow> u64 \<Rightarrow> bool" where
  "offset_fits_start c start \<longleftrightarrow> start \<le> offset_start_max c"

definition offset_fits_count :: "nat \<Rightarrow> u32 \<Rightarrow> bool" where
  "offset_fits_count c count \<longleftrightarrow> ucast count \<le> offset_count_mask c"

lemma offset_packed_pair:
  assumes "c \<le> 32"
  shows "packed_pair (offset_start c) (offset_set_offset c) (offset_fits_start c)
           (offset_count c) (offset_set_count c) (offset_fits_count c)"
  using assms by unfold_locales
    (auto simp: offset_defs offset_fits_start_def offset_fits_count_def require_def
      offset_set_count_parts offset_set_offset_parts simp del: drop_bit_and drop_bit_or)

interpretation offset16: packed_pair "offset_start 16" "offset_set_offset 16" "offset_fits_start 16"
  "offset_count 16" "offset_set_count 16" "offset_fits_count 16"
  by (rule offset_packed_pair) simp

text \<open>
  an offset range is constructed exactly when its start index and its count fit their bit
  fields (otherwise an assertion fails); it then returns that start and count, ends one past
  its last element, and the offset built after it begins at that end.
\<close>

theorem offset_roundtrip:
  assumes "c \<le> 32"
  shows "((\<exists>w. offset_make c start count = ok w) \<longleftrightarrow>
        offset_fits_count c count \<and> offset_fits_start c start) \<and>
    (\<forall>w. offset_make c start count = ok w \<longrightarrow>
        offset_start c w = start \<and> offset_count c w = count \<and>
        offset_range c w = (start, start + ucast count) \<and>
        (\<forall>n v. offset_next c w n = ok v \<longrightarrow>
          offset_start c v = offset_end c w \<and> offset_end c w = start + ucast count \<and> offset_count c v = n))"
  using offset_parts [OF assms]
  by (auto simp: offset_make_ok offset_start_def offset_count_def offset_end_def offset_range_def
      offset_next_def offset_fits_start_def offset_fits_count_def le_mask_bits
      simp del: drop_bit_and drop_bit_or)

theorem offset_roundtrip_witness:
  "\<exists>w. offset_make 16 1000 24 = ok w \<and> offset_start 16 w = 1000 \<and> offset_count 16 w = 24 \<and>
     offset_make 16 1000 65536 = fail Assert_failed"
proof -
  have c: "(16::nat) \<le> 32" by simp
  have "offset_make 16 1000 24 = ok 65536024" and "offset_make 16 1000 65536 = fail Assert_failed"
    by (simp_all add: offset_make_def require_def offset_count_mask_def offset_start_max_def del: offset_masks)
  then show ?thesis using offset_roundtrip [OF c, of 1000 24] by blast
qed

section \<open>id_: the global entity identifier\<close>

text \<open>
  The template arguments (\<open>PBITS\<close>, \<open>EBITS\<close>, \<open>FBITS\<close>, \<open>GBITS\<close>) are a record of widths;
  assignment to a bit field of width \<open>n\<close> keeps the low \<open>n\<close> bits.
\<close>

record id_widths =
  pbits :: nat
  ebits :: nat
  fbits :: nat
  gbits :: nat

record gid =
  id_dimension :: u64
  id_domain :: u64
  id_partition :: u64
  id_entity :: u64
  id_flags :: u64
  id_global :: u64

definition common_widths :: id_widths where
  "common_widths = \<lparr>pbits = 20, ebits = 40, fbits = 4, gbits = 60\<rparr>"

definition id_local :: "id_widths \<Rightarrow> u64 \<Rightarrow> gid" where
  "id_local W local_id = \<lparr>id_dimension = 0, id_domain = 0, id_partition = 0,
     id_entity = take_bit (ebits W) local_id, id_flags = 0, id_global = 0\<rparr>"

definition id_make :: "id_widths \<Rightarrow> u64 \<Rightarrow> u64 \<Rightarrow> u64 \<Rightarrow> u64 \<Rightarrow> u64 \<Rightarrow> u64 \<Rightarrow> gid" where
  "id_make W D M local_id partition_id global flags =
     \<lparr>id_dimension = take_bit 2 D, id_domain = take_bit 2 M,
      id_partition = take_bit (pbits W) partition_id, id_entity = take_bit (ebits W) local_id,
      id_flags = take_bit (fbits W) flags, id_global = take_bit (gbits W) global\<rparr>"

definition id_set_partition :: "id_widths \<Rightarrow> u64 \<Rightarrow> gid \<Rightarrow> gid" where
  "id_set_partition W p i = i\<lparr>id_partition := take_bit (pbits W) p\<rparr>"

definition id_set_flags :: "id_widths \<Rightarrow> u64 \<Rightarrow> gid \<Rightarrow> gid outcome" where
  "id_set_flags W f i = require (f < push_bit (fbits W) 1) (ok (i\<lparr>id_flags := take_bit (fbits W) f\<rparr>))"

definition id_set_global :: "id_widths \<Rightarrow> u64 \<Rightarrow> gid \<Rightarrow> gid" where
  "id_set_global W g i = i\<lparr>id_global := take_bit (gbits W) g\<rparr>"

definition id_set_local :: "id_widths \<Rightarrow> u64 \<Rightarrow> gid \<Rightarrow> gid" where
  "id_set_local W l i = i\<lparr>id_entity := take_bit (ebits W) l\<rparr>"

definition local_id :: "id_widths \<Rightarrow> gid \<Rightarrow> u64" where
  "local_id W i =
     (let r = id_dimension i;
          r = r OR push_bit 2 (id_domain i);
          r = r OR push_bit 4 (id_partition i)
      in r OR push_bit (4 + pbits W) (id_entity i))"

definition id_less :: "id_widths \<Rightarrow> gid \<Rightarrow> gid \<Rightarrow> bool" where
  "id_less W i j \<longleftrightarrow> local_id W i < local_id W j"

definition id_equal :: "id_widths \<Rightarrow> gid \<Rightarrow> gid \<Rightarrow> bool" where
  "id_equal W i j \<longleftrightarrow> local_id W i = local_id W j"

text \<open>The bit-field invariant, kept by every constructor and setter.\<close>

definition id_wf :: "id_widths \<Rightarrow> gid \<Rightarrow> bool" where
  "id_wf W i \<longleftrightarrow> take_bit 2 (id_dimension i) = id_dimension i \<and> take_bit 2 (id_domain i) = id_domain i \<and>
     take_bit (pbits W) (id_partition i) = id_partition i \<and> take_bit (ebits W) (id_entity i) = id_entity i \<and>
     take_bit (fbits W) (id_flags i) = id_flags i \<and> take_bit (gbits W) (id_global i) = id_global i"

lemma id_wf_operations:
  "id_wf W (id_local W l)" "id_wf W (id_make W D M l p g f)"
  "id_wf W i \<Longrightarrow> id_wf W (id_set_partition W p i)"
  "id_wf W i \<Longrightarrow> id_wf W (id_set_global W g i)"
  "id_wf W i \<Longrightarrow> id_wf W (id_set_local W l i)"
  "id_wf W i \<Longrightarrow> id_set_flags W f i = ok i' \<Longrightarrow> id_wf W i'"
  by (auto simp: id_wf_def id_local_def id_make_def id_set_partition_def id_set_global_def
      id_set_local_def id_set_flags_def)

lemma id_low_digits:
  assumes "id_wf W i"
  defines "low \<equiv> id_dimension i OR push_bit 2 (id_domain i)"
  shows "take_bit 4 low = low"
    and "pbits W \<le> 60 \<Longrightarrow> take_bit (4 + pbits W) (low OR push_bit 4 (id_partition i)) = low OR push_bit 4 (id_partition i)"
proof -
  show low: "take_bit 4 low = low"
    using pack_fits [of 2 "id_dimension i" 2 "id_domain i"] assms by (simp add: id_wf_def)
  show "take_bit (4 + pbits W) (low OR push_bit 4 (id_partition i)) = low OR push_bit 4 (id_partition i)"
    if "pbits W \<le> 60"
    using pack_fits [OF low, of "pbits W" "id_partition i"] that assms(1) by (simp add: id_wf_def)
qed


text \<open>
  global identifiers compare as their (entity, partition, domain, dimension) fields in
  lexicographic order, whatever their flags and global parts are: \<open>operator<\<close> on the reversed
  concatenation \<open>local_id()\<close> is exactly that order and \<open>operator==\<close> is equality of those fields.
\<close>

theorem id_order_lexicographic:
  assumes "pbits W + ebits W \<le> 60" and "id_wf W i" and "id_wf W j"
  shows "(id_less W i j \<longleftrightarrow>
      id_entity i < id_entity j \<or> id_entity i = id_entity j \<and>
      (id_partition i < id_partition j \<or> id_partition i = id_partition j \<and>
      (id_domain i < id_domain j \<or> id_domain i = id_domain j \<and> id_dimension i < id_dimension j)))
    \<and> (id_equal W i j \<longleftrightarrow> id_entity i = id_entity j \<and> id_partition i = id_partition j \<and>
      id_domain i = id_domain j \<and> id_dimension i = id_dimension j)"
proof -
  let ?low = "\<lambda>i. id_dimension i OR push_bit 2 (id_domain i)"
  let ?mid = "\<lambda>i. ?low i OR push_bit 4 (id_partition i)"
  have p: "pbits W \<le> 60" using assms(1) by simp
  note wf = assms(2,3) [unfolded id_wf_def]
  note low = id_low_digits(1) [OF assms(2)] id_low_digits(1) [OF assms(3)]
  note mid = id_low_digits(2) [OF assms(2) p] id_low_digits(2) [OF assms(3) p]
  have dd: "(?low i < ?low j \<longleftrightarrow> id_domain i < id_domain j \<or> id_domain i = id_domain j \<and> id_dimension i < id_dimension j)
      \<and> (?low i = ?low j \<longleftrightarrow> id_domain i = id_domain j \<and> id_dimension i = id_dimension j)"
    using pack_less [of 2 "id_dimension i" 2 "id_domain i" "id_dimension j" "id_domain j"]
      pack_eq [of 2 "id_dimension i" 2 "id_domain i" "id_dimension j" "id_domain j"] wf by auto
  have pd: "(?mid i < ?mid j \<longleftrightarrow> id_partition i < id_partition j \<or> id_partition i = id_partition j \<and> ?low i < ?low j)
      \<and> (?mid i = ?mid j \<longleftrightarrow> id_partition i = id_partition j \<and> ?low i = ?low j)"
    using pack_less [OF low(1) _ low(2), of "pbits W" "id_partition i" "id_partition j"]
      pack_eq [OF low(1) _ low(2), of "pbits W" "id_partition i" "id_partition j"] wf p by auto
  have "(local_id W i < local_id W j \<longleftrightarrow> id_entity i < id_entity j \<or> id_entity i = id_entity j \<and> ?mid i < ?mid j)
      \<and> (local_id W i = local_id W j \<longleftrightarrow> id_entity i = id_entity j \<and> ?mid i = ?mid j)"
    using pack_less [OF mid(1) _ mid(2), of "ebits W" "id_entity i" "id_entity j"]
      pack_eq [OF mid(1) _ mid(2), of "ebits W" "id_entity i" "id_entity j"] wf assms(1)
    by (auto simp: local_id_def Let_def)
  with dd pd show ?thesis by (auto simp: id_less_def id_equal_def)
qed

theorem id_order_lexicographic_witness:
  "id_less common_widths (id_make common_widths 3 1 7 9 5 0) (id_make common_widths 0 0 8 2 0 1) \<and>
   id_equal common_widths (id_make common_widths 2 1 7 9 5 0) (id_make common_widths 2 1 7 9 0 3)"
proof -
  have w: "pbits common_widths + ebits common_widths \<le> 60"
    by (simp add: common_widths_def)
  show ?thesis
    using id_order_lexicographic [OF w id_wf_operations(2) id_wf_operations(2), of 3 1 7 9 5 0 0 0 8 2 0 1]
      id_order_lexicographic [OF w id_wf_operations(2) id_wf_operations(2), of 2 1 7 9 5 0 2 1 7 9 0 3]
    by (simp add: id_make_def common_widths_def)
qed

end
