(* ===== verification/Hash_Keys.thy ===== *)
theory Hash_Keys
  imports Packed_Words
begin

text \<open>
  The registry keys of \<open>flecsi/utils/hash.h\<close> (namespace \<open>hash\<close> and \<open>string_hash\<close>) and the
  de Bruijn lookup of \<open>flecsi/utils/debruijn.h\<close>. \<open>size_t\<close> keys are \<^typ>\<open>u64\<close>; the template
  overloads and the run-time overloads of a hash compute the same expression and share one
  definition.
\<close>

definition bit_range :: "u64 \<Rightarrow> nat \<Rightarrow> u64 \<Rightarrow> u64" where
  "bit_range msk shift key = drop_bit shift key AND msk"

definition client_hash :: "u64 \<Rightarrow> u64 \<Rightarrow> u64" where
  "client_hash nspace name = nspace XOR name"

definition field_hash :: "u64 \<Rightarrow> u64 \<Rightarrow> u64 \<Rightarrow> u64" where
  "field_hash nspace name version =
     (push_bit 3 (nspace XOR name) OR version) AND NOT (push_bit 63 1)"

definition field_hash_version :: "u64 \<Rightarrow> u64" where
  "field_hash_version key = bit_range (push_bit 3 1 - 1) 0 key"

definition is_internal :: "u64 \<Rightarrow> bool" where
  "is_internal key \<longleftrightarrow> key AND push_bit 63 1 \<noteq> 0"

definition client_entity_hash :: "u64 \<Rightarrow> u64 \<Rightarrow> u64 \<Rightarrow> u64 \<Rightarrow> u64 \<Rightarrow> u64" where
  "client_entity_hash nspace name index domn dim =
     push_bit 12 (nspace XOR name) OR push_bit 4 index OR push_bit 2 domn OR dim"

definition client_entity_index :: "u64 \<Rightarrow> u64" where
  "client_entity_index key = bit_range 0xff 4 key"

definition client_entity_domain :: "u64 \<Rightarrow> u64" where
  "client_entity_domain key = bit_range 0x03 2 key"

definition client_entity_dimension :: "u64 \<Rightarrow> u64" where
  "client_entity_dimension key = bit_range 0x03 0 key"

definition client_adjacency_hash ::
  "u64 \<Rightarrow> u64 \<Rightarrow> u64 \<Rightarrow> u64 \<Rightarrow> u64 \<Rightarrow> u64 \<Rightarrow> u64 \<Rightarrow> u64" where
  "client_adjacency_hash nspace name index from_dom to_dom from_dim to_dim =
     push_bit 16 (nspace XOR name) OR push_bit 8 index OR push_bit 6 from_dom OR
     push_bit 4 to_dom OR push_bit 2 from_dim OR to_dim"

definition client_index_subspace_hash :: "u64 \<Rightarrow> u64 \<Rightarrow> u64 \<Rightarrow> u64 \<Rightarrow> u64" where
  "client_index_subspace_hash nspace name index index_subspace =
     push_bit 16 (nspace XOR name) OR push_bit 8 index OR index_subspace"

definition client_adjacency_index :: "u64 \<Rightarrow> u64" where
  "client_adjacency_index key = bit_range 0xff 8 key"

definition client_adjacency_from_domain :: "u64 \<Rightarrow> u64" where
  "client_adjacency_from_domain key = bit_range 0x03 6 key"

definition client_adjacency_to_domain :: "u64 \<Rightarrow> u64" where
  "client_adjacency_to_domain key = bit_range 0x03 4 key"

definition client_adjacency_from_dimension :: "u64 \<Rightarrow> u64" where
  "client_adjacency_from_dimension key = bit_range 0x03 2 key"

definition client_adjacency_to_dimension :: "u64 \<Rightarrow> u64" where
  "client_adjacency_to_dimension key = bit_range 0x03 0 key"

definition client_internal_field_hash :: "u64 \<Rightarrow> u64 \<Rightarrow> u64 \<Rightarrow> u64 \<Rightarrow> u64" where
  "client_internal_field_hash label nspace name index_space =
     (push_bit 8 (label XOR (nspace XOR name)) OR index_space) OR push_bit 63 1"

definition client_internal_field_index_space :: "u64 \<Rightarrow> u64" where
  "client_internal_field_index_space key = bit_range 0xff 8 key"

definition intermediate_hash :: "u64 \<Rightarrow> u64 \<Rightarrow> u64" where
  "intermediate_hash dim domn = push_bit 32 dim XOR domn"

definition reduction_hash :: "u64 \<Rightarrow> u64 \<Rightarrow> u64" where
  "reduction_hash operator_hash data_hash = push_bit 32 operator_hash XOR data_hash"

text \<open>
  \<open>str[i] * Q\<close> promotes the (signed) \<open>char\<close> to \<open>int\<close> and converts it to the hash type, here
  \<open>size_t\<close>: a sign extension.
\<close>

definition hash_char :: "8 word \<Rightarrow> u64" where
  "hash_char ch = signed ch"

fun string_hash_loop :: "u64 \<Rightarrow> 8 word list \<Rightarrow> u64" where
  "string_hash_loop h [] = h"
| "string_hash_loop h (ch # str) = string_hash_loop ((h * 3145739) XOR (hash_char ch * 6291469)) str"

definition string_hash :: "8 word list \<Rightarrow> u64" where
  "string_hash str = (if length str = 0 then 0 else string_hash_loop 37 str)"

section \<open>Extractors recover what the keys pack\<close>

lemma masks_numeral: "(0xff :: u64) = mask 8" "(0x03 :: u64) = mask 2" "(0x07 :: u64) = mask 3"
  by (simp_all add: mask_eq_exp_minus_1)

lemma small_bit:
  "(w :: u64) < 256 \<Longrightarrow> 8 \<le> k \<Longrightarrow> \<not> bit w k"
  "(w :: u64) < 8 \<Longrightarrow> 3 \<le> k \<Longrightarrow> \<not> bit w k"
  "(w :: u64) < 4 \<Longrightarrow> 2 \<le> k \<Longrightarrow> \<not> bit w k"
  using fits_bit [of 8 w k] fits_bit [of 3 w k] fits_bit [of 2 w k]
    fits_iff_less_exp [of 8 w] fits_iff_less_exp [of 3 w] fits_iff_less_exp [of 2 w] by simp_all

lemma small_bit_less:
  "bit (w :: u64) k \<Longrightarrow> w < 256 \<Longrightarrow> k < 8"
  "bit (w :: u64) k \<Longrightarrow> w < 8 \<Longrightarrow> k < 3"
  "bit (w :: u64) k \<Longrightarrow> w < 4 \<Longrightarrow> k < 2"
  using small_bit [of w k] by (auto simp: not_less [symmetric])

lemma msb_bit [simp]:
  "bit (9223372036854775808 :: int) k \<longleftrightarrow> k = 63" "bit (36028797018963968 :: int) k \<longleftrightarrow> k = 55"
proof -
  have "(9223372036854775808 :: int) = 2 ^ 63" and "(36028797018963968 :: int) = 2 ^ 55"
    by simp_all
  then show "bit (9223372036854775808 :: int) k \<longleftrightarrow> k = 63" "bit (36028797018963968 :: int) k \<longleftrightarrow> k = 55"
    by (simp_all only: bit_exp_iff) auto
qed

lemmas key_defs = bit_range_def field_hash_def field_hash_version_def client_entity_hash_def
  client_entity_index_def client_entity_domain_def client_entity_dimension_def
  client_adjacency_hash_def client_adjacency_index_def client_adjacency_from_domain_def
  client_adjacency_to_domain_def client_adjacency_from_dimension_def client_adjacency_to_dimension_def
  client_internal_field_hash_def client_internal_field_index_space_def

lemma client_entity_parts:
  assumes "index < 256" and "domn < 4" and "dim < 4"
  shows "client_entity_index (client_entity_hash nspace name index domn dim) = index"
    and "client_entity_domain (client_entity_hash nspace name index domn dim) = domn"
    and "client_entity_dimension (client_entity_hash nspace name index domn dim) = dim"
  using assms
  by (auto intro!: bit_eqI simp: key_defs masks_numeral bit_simps small_bit dest: small_bit_less)

lemma client_adjacency_parts:
  fixes nspace name index fdom tdom fdim tdim
  assumes "index < 256" and "fdom < 4" and "tdom < 4" and "fdim < 4" and "tdim < 4"
  defines "key \<equiv> client_adjacency_hash nspace name index fdom tdom fdim tdim"
  shows "client_adjacency_index key = index" and "client_adjacency_from_domain key = fdom"
    and "client_adjacency_to_domain key = tdom" and "client_adjacency_from_dimension key = fdim"
    and "client_adjacency_to_dimension key = tdim"
  using assms(1-5) unfolding key_def
  by (auto intro!: bit_eqI simp: key_defs masks_numeral bit_simps small_bit dest: small_bit_less)

lemma is_internal_bit: "is_internal key \<longleftrightarrow> bit key 63"
proof -
  have "key AND push_bit 63 1 = (if bit key 63 then push_bit 63 1 else 0)"
    by (rule bit_eqI) (auto simp: bit_simps)
  then show ?thesis by (simp add: is_internal_def)
qed

lemma field_hash_version_field_hash:
  assumes "version < 8"
  shows "field_hash_version (field_hash nspace name version) = version"
  using assms by (auto intro!: bit_eqI simp: key_defs masks_numeral bit_simps small_bit dest: small_bit_less)

lemma internal_field_bits:
  "index_space < 256 \<Longrightarrow>
    client_internal_field_index_space (client_internal_field_hash label nspace name index_space) =
    (label XOR (nspace XOR name)) AND 0xff"
  by (auto intro!: bit_eqI simp: key_defs masks_numeral bit_simps small_bit dest: small_bit_less)

text \<open>
  the client keys are decodable: for an index space below 256 and domains and dimensions
  below 4, every extractor returns the component packed into an entity or adjacency key; a field
  key returns its version (below 8) and is never mistaken for an internal key.
\<close>

theorem client_keys_roundtrip:
  assumes "index < 256" and "fdom < 4" and "tdom < 4" and "fdim < 4" and "tdim < 4" and "version < 8"
  shows "client_entity_index (client_entity_hash nspace name index fdom fdim) = index \<and>
    client_entity_domain (client_entity_hash nspace name index fdom fdim) = fdom \<and>
    client_entity_dimension (client_entity_hash nspace name index fdom fdim) = fdim \<and>
    (let key = client_adjacency_hash nspace name index fdom tdom fdim tdim
     in client_adjacency_index key = index \<and> client_adjacency_from_domain key = fdom \<and>
        client_adjacency_to_domain key = tdom \<and> client_adjacency_from_dimension key = fdim \<and>
        client_adjacency_to_dimension key = tdim) \<and>
    field_hash_version (field_hash nspace name version) = version \<and>
    \<not> is_internal (field_hash nspace name version)"
proof -
  have "\<not> is_internal (field_hash nspace name version)"
    by (simp add: is_internal_bit field_hash_def bit_simps)
  then show ?thesis
    using assms by (simp add: client_entity_parts client_adjacency_parts field_hash_version_field_hash Let_def)
qed

theorem client_keys_roundtrip_witness:
  "client_adjacency_to_domain (client_adjacency_hash 77 1234 200 0 1 3 2) = 1 \<and>
   field_hash_version (field_hash 77 1234 5) = 5"
  using client_keys_roundtrip [of 200 0 1 3 2 5 77 1234] by (simp add: Let_def)

text \<open>
  internal field keys carry the internal bit, but \<open>client_internal_field_index_space\<close> does
  not return the index space that was packed: the hash stores it in the low byte (shift 0) while
  the extractor reads the byte above, which holds bits of the label and name hashes.
\<close>

theorem internal_key_index_space:
  assumes "index_space < 256"
  shows "is_internal (client_internal_field_hash label nspace name index_space) \<and>
    bit_range 0xff 0 (client_internal_field_hash label nspace name index_space) = index_space \<and>
    client_internal_field_index_space (client_internal_field_hash label nspace name index_space) =
      (label XOR (nspace XOR name)) AND 0xff"
proof -
  have "bit_range 0xff 0 (client_internal_field_hash label nspace name index_space) = index_space"
    using assms by (auto intro!: bit_eqI simp: key_defs masks_numeral bit_simps small_bit dest: small_bit_less)
  moreover have "is_internal (client_internal_field_hash label nspace name index_space)"
    by (simp add: is_internal_bit client_internal_field_hash_def bit_simps)
  ultimately show ?thesis
    using internal_field_bits [OF assms] by blast
qed

theorem internal_key_index_space_witness:
  "client_internal_field_index_space (client_internal_field_hash 1 0 0 3) = 1"
  using internal_key_index_space [of 3 1 0 0] by simp

section \<open>string_hash separates single-character changes\<close>

lemma mult_unit_cancel:
  assumes "u * v = (1 :: u64)" and "a * u = b * u" shows "a = b"
proof -
  have "a * (u * v) = b * (u * v)"
    using assms(2) by (simp only: mult.assoc [symmetric])
  then show ?thesis by (simp add: assms(1))
qed

lemma hash_mult_inj:
  "h * 3145739 = h' * 3145739 \<longleftrightarrow> h = (h' :: u64)"
  "c * 6291469 = c' * 6291469 \<longleftrightarrow> c = (c' :: u64)"
proof -
  have "3145739 * 16075935547628882851 = (1 :: u64)" and "6291469 * 3245182805676412613 = (1 :: u64)"
    by simp_all
  then show "h * 3145739 = h' * 3145739 \<longleftrightarrow> h = h'" and "c * 6291469 = c' * 6291469 \<longleftrightarrow> c = c'"
    using mult_unit_cancel by blast+
qed

lemma xor_cancel: "a XOR c = b XOR c \<longleftrightarrow> a = (b :: u64)"
  by (metis bit.xor_left_self xor.commute)

lemma hash_char_inj: "hash_char c = hash_char d \<longleftrightarrow> c = d"
proof
  assume eq: "hash_char c = hash_char d"
  show "c = d"
  proof (rule bit_eqI)
    fix k assume "possible_bit TYPE(8 word) k"
    then have "bit (hash_char c) k = bit c k" and "bit (hash_char d) k = bit d k"
      by (simp_all add: hash_char_def bit_simps)
    with eq show "bit c k = bit d k" by simp
  qed
qed simp

lemma string_hash_loop_append:
  "string_hash_loop h (xs @ ys) = string_hash_loop (string_hash_loop h xs) ys"
  by (induction xs arbitrary: h) auto

lemma string_hash_loop_inj: "string_hash_loop h xs = string_hash_loop h' xs \<longleftrightarrow> h = h'"
  by (induction xs arbitrary: h h') (auto simp: xor_cancel hash_mult_inj)

text \<open>
  two strings of the same length that differ in exactly one character never collide under
  \<open>string_hash\<close>: both multipliers are odd, so each step of the loop is injective in the running
  hash and in the character.
\<close>

theorem string_hash_one_character:
  "string_hash (xs @ c # ys) = string_hash (xs @ d # ys) \<longleftrightarrow> c = d"
proof -
  define h where "h = string_hash_loop 37 xs"
  have "string_hash (xs @ c # ys) = string_hash (xs @ d # ys) \<longleftrightarrow>
      (h * 3145739) XOR (hash_char c * 6291469) = (h * 3145739) XOR (hash_char d * 6291469)"
    by (simp add: string_hash_def string_hash_loop_append string_hash_loop_inj h_def)
  also have "\<dots> \<longleftrightarrow> c = d"
    by (metis xor_cancel xor.commute hash_mult_inj(2) hash_char_inj)
  finally show ?thesis .
qed

section \<open>debruijn32_t: the index of the right-most set bit\<close>

definition debruijn_seq :: u32 where
  "debruijn_seq = 0x077cb531"

definition debruijn_table :: "nat list" where
  "debruijn_table = [0, 1, 28, 2, 29, 14, 24, 3, 30, 22, 20, 15, 25, 17, 4, 8, 31, 27, 13, 23, 21,
     19, 16, 7, 26, 12, 18, 6, 11, 5, 10, 9]"

definition debruijn_index :: "u32 \<Rightarrow> nat" where
  "debruijn_index b = debruijn_table ! unat (drop_bit 27 ((b AND - b) * debruijn_seq))"

lemma odd_and_minus:
  assumes "odd (c :: 'a::len word)" shows "c AND - c = 1"
proof -
  have "take_bit 1 c = 1"
    using assms by (simp add: take_bit_Suc mod_2_eq_odd)
  then have minus: "c - 1 = push_bit 1 (drop_bit 1 c)"
    using bits_ident [of 1 c] by (metis add_diff_cancel_right')
  have "c AND NOT (push_bit 1 (drop_bit 1 c)) = 1"
  proof (rule bit_eqI)
    fix k assume "possible_bit TYPE('a word) k"
    then show "bit (c AND NOT (push_bit 1 (drop_bit 1 c))) k = bit 1 k"
      using assms bit_0 [of c]
      by (cases k) (simp_all only: bit_and_iff bit_not_iff bit_push_bit_iff bit_drop_bit_eq bit_1_iff, auto)
  qed
  then show ?thesis by (simp only: minus_eq_not_minus_1 minus)
qed

lemma lowest_bit_isolated:
  assumes "bit b k" and "\<And>j. j < k \<Longrightarrow> \<not> bit (b :: 'a::len word) j"
  shows "b AND - b = push_bit k 1"
proof -
  define c where "c = drop_bit k b"
  have "take_bit k b = 0"
    by (rule bit_eqI) (auto simp: bit_simps assms(2))
  then have b: "b = push_bit k c"
    using bits_ident [of k b] by (simp add: c_def)
  have "odd c" using assms(1) by (simp add: c_def bit_iff_odd_drop_bit)
  then have "c AND - c = 1" by (rule odd_and_minus)
  then show ?thesis
    by (simp add: b push_bit_and [symmetric] push_bit_minus [symmetric] del: push_bit_and)
qed

lemma debruijn_power:
  "k < 32 \<Longrightarrow> debruijn_table ! unat (drop_bit 27 (push_bit k 1 * debruijn_seq)) = k"
proof -
  assume "k < 32"
  then have "k \<in> set [0..<32]" by simp
  moreover have "\<forall>k \<in> set [0..<32]. debruijn_table ! unat (drop_bit 27 (push_bit k 1 * debruijn_seq)) = k"
    by code_simp
  ultimately show ?thesis by blast
qed

text \<open>
  for every non-zero 32-bit field the de Bruijn lookup returns the position of its
  right-most set bit: the multiplication and the table agree with the bit definition.
\<close>

theorem debruijn_rightmost_bit:
  assumes "b \<noteq> 0"
  shows "bit b (debruijn_index b) \<and> debruijn_index b < 32 \<and> (\<forall>j < debruijn_index b. \<not> bit b j)"
proof -
  obtain i where "bit b i" using assms by (metis bit_eq_iff bit_0_eq bot_apply bot_bool_def)
  define k where "k = (LEAST i. bit b i)"
  have k: "bit b k" unfolding k_def using \<open>bit b i\<close> by (rule LeastI)
  have low: "\<not> bit b j" if "j < k" for j
    using that unfolding k_def by (rule not_less_Least)
  have "k < 32" using bit_imp_le_length [OF k] by simp
  moreover have "b AND - b = push_bit k 1"
    using k low by (rule lowest_bit_isolated)
  ultimately have "debruijn_index b = k"
    by (simp only: debruijn_index_def debruijn_power)
  then show ?thesis using k low \<open>k < 32\<close> by simp
qed

theorem debruijn_rightmost_bit_witness: "debruijn_index 40 = 3 \<and> bit (40 :: u32) 3"
proof -
  have "debruijn_index 40 = 3" by code_simp
  then show ?thesis using debruijn_rightmost_bit [of 40] by simp
qed

end
