(* ===== verification/Std_Map.thy ===== *)
theory Std_Map
  imports Flecsi_Prelude
begin

text \<open>
  \<open>std::map\<close> as the sources use it: an association list in ascending key order, so that a loop
  over the map visits the keys in the order the C++ iterator does. \<open>m[k] = v\<close> is \<open>std_put\<close>,
  \<open>m.emplace(k, v)\<close> is \<open>std_emplace\<close>, \<open>m[k]\<close> used as an lvalue (default constructing the
  value) is \<open>std_modify\<close>, \<open>m.at(k)\<close> and \<open>m.find(k)\<close> are \<^const>\<open>map_of\<close>.
\<close>

type_synonym ('k, 'v) std_map = "('k \<times> 'v) list"

fun std_put :: "'k::linorder \<Rightarrow> 'v \<Rightarrow> ('k, 'v) std_map \<Rightarrow> ('k, 'v) std_map" where
  "std_put k v [] = [(k, v)]"
| "std_put k v ((k', v') # m) =
     (if k < k' then (k, v) # (k', v') # m
      else if k = k' then (k, v) # m
      else (k', v') # std_put k v m)"

definition std_emplace :: "'k::linorder \<Rightarrow> 'v \<Rightarrow> ('k, 'v) std_map \<Rightarrow> ('k, 'v) std_map" where
  "std_emplace k v m = (case map_of m k of None \<Rightarrow> std_put k v m | Some _ \<Rightarrow> m)"

definition std_modify :: "'v \<Rightarrow> 'k::linorder \<Rightarrow> ('v \<Rightarrow> 'v) \<Rightarrow> ('k, 'v) std_map \<Rightarrow> ('k, 'v) std_map" where
  "std_modify d k f m = std_put k (f (case map_of m k of None \<Rightarrow> d | Some v \<Rightarrow> v)) m"

definition std_at :: "('k, 'v) std_map \<Rightarrow> 'k \<Rightarrow> 'v outcome" where
  "std_at m k = (case map_of m k of None \<Rightarrow> fail Out_of_range | Some v \<Rightarrow> ok v)"

abbreviation keys :: "('k, 'v) std_map \<Rightarrow> 'k list" where
  "keys m \<equiv> map fst m"

definition std_wf :: "('k::linorder, 'v) std_map \<Rightarrow> bool" where
  "std_wf m \<longleftrightarrow> sorted_wrt (<) (keys m)"

section \<open>The interface: a keyed store\<close>

text \<open>
  What the clients of a map-like container rely on: a lookup sees the last value stored under
  its key and nothing else changes.
\<close>

locale keyed_store =
  fixes look :: "'s \<Rightarrow> 'k \<Rightarrow> 'v option" and put :: "'k \<Rightarrow> 'v \<Rightarrow> 's \<Rightarrow> 's" and good :: "'s \<Rightarrow> bool"
  assumes look_put: "good s \<Longrightarrow> look (put k v s) k' = (if k' = k then Some v else look s k')"
    and good_put: "good s \<Longrightarrow> good (put k v s)"
begin

definition put_all :: "('k \<times> 'v) list \<Rightarrow> 's \<Rightarrow> 's" where
  "put_all kvs s = foldl (\<lambda>s (k, v). put k v s) s kvs"

lemma good_put_all: "good s \<Longrightarrow> good (put_all kvs s)"
  unfolding put_all_def by (induction kvs arbitrary: s) (auto simp: good_put)

lemma look_put_all:
  "good s \<Longrightarrow> look (put_all kvs s) k = (case map_of (rev kvs) k of None \<Rightarrow> look s k | Some v \<Rightarrow> Some v)"
proof (induction kvs arbitrary: s)
  case Nil
  then show ?case by (simp add: put_all_def)
next
  case (Cons kv kvs)
  obtain a b where kv: "kv = (a, b)" by (cases kv)
  have "look (put_all (kv # kvs) s) k = look (put_all kvs (put a b s)) k"
    by (simp add: put_all_def kv)
  also have "\<dots> = (case map_of (rev kvs) k of None \<Rightarrow> look (put a b s) k | Some v \<Rightarrow> Some v)"
    using Cons by (simp add: good_put)
  finally show ?case
    using Cons.prems by (auto simp: kv look_put map_add_def split: option.splits)
qed

lemma put_order_irrelevant:
  assumes "good s" and "k \<noteq> k'"
  shows "look (put k v (put k' v' s)) = look (put k' v' (put k v s))"
  using assms by (auto simp: look_put good_put)

end

lemma map_of_std_put [simp]: "map_of (std_put k v m) = (map_of m)(k \<mapsto> v)"
  by (induction k v m rule: std_put.induct) auto

lemma set_keys_std_put [simp]: "fst ` set (std_put k v m) = insert k (fst ` set m)"
  by (induction k v m rule: std_put.induct) auto

lemma std_wf_Nil [simp]: "std_wf []"
  by (simp add: std_wf_def)

lemma std_wf_put [simp]: "std_wf m \<Longrightarrow> std_wf (std_put k v m)"
proof (induction k v m rule: std_put.induct)
  case (2 k v k' v' m)
  then show ?case
    by (auto simp: std_wf_def)
qed (simp add: std_wf_def)

lemma std_wf_distinct: "std_wf m \<Longrightarrow> distinct (keys m)"
  unfolding std_wf_def using strict_sorted_iff by blast

interpretation std: keyed_store map_of std_put std_wf
  by unfold_locales auto

lemma std_wf_emplace [simp]: "std_wf m \<Longrightarrow> std_wf (std_emplace k v m)"
  by (simp add: std_emplace_def split: option.split)

lemma map_of_std_emplace:
  "map_of (std_emplace k v m) = (if k \<in> dom (map_of m) then map_of m else (map_of m)(k \<mapsto> v))"
  by (auto simp: std_emplace_def split: option.split)

lemma std_wf_modify [simp]: "std_wf m \<Longrightarrow> std_wf (std_modify d k f m)"
  by (simp add: std_modify_def)

lemma map_of_std_modify:
  "map_of (std_modify d k f m) = (map_of m)(k \<mapsto> f (case map_of m k of None \<Rightarrow> d | Some v \<Rightarrow> v))"
  by (simp add: std_modify_def)

lemma set_keys_std_emplace [simp]: "fst ` set (std_emplace k v m) = insert k (fst ` set m)"
proof (cases "map_of m k")
  case None
  then show ?thesis by (simp add: std_emplace_def)
next
  case (Some v')
  then have "k \<in> fst ` set m" by (metis domI dom_map_of_conv_image_fst)
  with Some show ?thesis by (auto simp: std_emplace_def)
qed

lemma set_keys_std_modify [simp]: "fst ` set (std_modify d k f m) = insert k (fst ` set m)"
  by (simp add: std_modify_def)

end
