(* ===== verification/Task_Dag.thy ===== *)
theory Task_Dag
  imports Std_Map "HOL-Library.Multiset"
begin

text \<open>
  \<open>flecsi/utils/dag.h\<close>: the node type \<open>dag_node_u\<close>, the graph \<open>dag_u\<close> (a \<open>std::map\<close> from hashes
  to nodes whose edge lists name the nodes they depend on) and its topological sort. The node
  policy is a type parameter: \<open>policy_init\<close> stands for \<open>NODE_POLICY::initialize\<close> and is an
  argument of \<open>dag_node_initialize\<close>.
\<close>

record 'p dag_node =
  node_hash :: nat
  node_label :: string
  node_edges :: "nat list"
  node_policy :: 'p

record 'p dag =
  dag_label :: string
  dag_nodes :: "(nat, 'p dag_node) std_map"

definition dag_node_default :: "'p \<Rightarrow> 'p dag_node" where
  "dag_node_default p0 = \<lparr>node_hash = 0, node_label = '''', node_edges = [], node_policy = p0\<rparr>"

definition dag_node_make :: "nat \<Rightarrow> string \<Rightarrow> 'p \<Rightarrow> 'p dag_node" where
  "dag_node_make h l p = \<lparr>node_hash = h, node_label = l, node_edges = [], node_policy = p\<rparr>"

definition dag_node_initialize ::
  "('p \<Rightarrow> 'p \<Rightarrow> 'p) \<Rightarrow> 'p dag_node \<Rightarrow> 'p dag_node \<Rightarrow> 'p dag_node" where
  "dag_node_initialize policy_init this node =
     this\<lparr>node_hash := node_hash node, node_label := node_label node,
          node_policy := policy_init (node_policy this) (node_policy node)\<rparr>"

text \<open>\<open>node(hash)\<close> is \<open>nodes_[hash]\<close>: it creates a default node when the hash is new.\<close>

definition dag_node_at :: "'p \<Rightarrow> 'p dag \<Rightarrow> nat \<Rightarrow> 'p dag \<times> 'p dag_node" where
  "dag_node_at p0 g h =
     (case map_of (dag_nodes g) h of
        Some n \<Rightarrow> (g, n)
      | None \<Rightarrow> (g\<lparr>dag_nodes := std_put h (dag_node_default p0) (dag_nodes g)\<rparr>, dag_node_default p0))"

definition dag_initialize_node ::
  "'p \<Rightarrow> ('p \<Rightarrow> 'p \<Rightarrow> 'p) \<Rightarrow> 'p dag_node \<Rightarrow> 'p dag \<Rightarrow> 'p dag" where
  "dag_initialize_node p0 policy_init node g =
     g\<lparr>dag_nodes := std_modify (dag_node_default p0) (node_hash node)
         (\<lambda>this. dag_node_initialize policy_init this node) (dag_nodes g)\<rparr>"

definition dag_touch :: "'p \<Rightarrow> nat \<Rightarrow> (nat, 'p dag_node) std_map \<Rightarrow> (nat, 'p dag_node) std_map" where
  "dag_touch p0 h m =
     (case map_of m h of
        Some _ \<Rightarrow> m
      | None \<Rightarrow> std_put h ((dag_node_default p0)\<lparr>node_hash := h\<rparr>) m)"

definition dag_add_edge :: "'p \<Rightarrow> nat \<Rightarrow> nat \<Rightarrow> 'p dag \<Rightarrow> 'p dag" where
  "dag_add_edge p0 to from g =
     (let m = dag_touch p0 to (dag_nodes g);
          m = dag_touch p0 from m
      in g\<lparr>dag_nodes := std_modify (dag_node_default p0) to
             (\<lambda>n. n\<lparr>node_edges := node_edges n @ [from]\<rparr>) m\<rparr>)"

section \<open>Kahn's algorithm\<close>

text \<open>
  The first loop moves the nodes without dependencies to the queue. In the main loop the inner
  iteration looks at a node again after erasing one occurrence of the root's hash (the iterator
  is only advanced when the hash is not found or the node left the list): that is \<open>dag_relax\<close>.
\<close>

fun dag_split :: "'p dag_node list \<Rightarrow> 'p dag_node list \<times> 'p dag_node list" where
  "dag_split [] = ([], [])"
| "dag_split (n # ns) =
     (let (q, rest) = dag_split ns
      in if length (node_edges n) = 0 then (n # q, rest) else (q, n # rest))"

function dag_relax :: "nat \<Rightarrow> 'p dag_node \<Rightarrow> 'p dag_node + 'p dag_node" where
  "dag_relax h n =
     (if h \<in> set (node_edges n)
      then (let n' = n\<lparr>node_edges := remove1 h (node_edges n)\<rparr>
            in if length (node_edges n') = 0 then Inl n' else dag_relax h n')
      else Inr n)"
  by pat_completeness auto
termination
  by (relation "measure (\<lambda>(h, n). length (node_edges n))")
    (auto simp: length_remove1 dest: length_pos_if_in_set)

declare dag_relax.simps [simp del]

fun dag_relax_all :: "nat \<Rightarrow> 'p dag_node list \<Rightarrow> 'p dag_node list \<times> 'p dag_node list" where
  "dag_relax_all h [] = ([], [])"
| "dag_relax_all h (n # ns) =
     (let (pushed, rest) = dag_relax_all h ns
      in case dag_relax h n of
           Inl n' \<Rightarrow> (n' # pushed, rest)
         | Inr n' \<Rightarrow> (pushed, n' # rest))"

lemma dag_relax_all_length: "dag_relax_all h ns = (pushed, rest) \<Longrightarrow> length pushed + length rest = length ns"
  by (induction ns arbitrary: pushed rest) (auto split: prod.splits sum.splits)

function dag_sort_loop ::
  "'p dag_node list \<Rightarrow> 'p dag_node list \<Rightarrow> 'p dag_node list \<Rightarrow> nat \<Rightarrow> 'p dag_node list \<times> nat" where
  "dag_sort_loop [] nodes out cnt = (out, cnt)"
| "dag_sort_loop (root # q) nodes out cnt =
     dag_sort_loop (q @ fst (dag_relax_all (node_hash root) nodes))
       (snd (dag_relax_all (node_hash root) nodes)) (out @ [root]) (Suc cnt)"
  by pat_completeness auto
termination
proof (relation "measure (\<lambda>(q, nodes, out, cnt). length q + length nodes)")
  fix root :: "'p dag_node" and q nodes out :: "'p dag_node list" and cnt :: nat
  have "length (fst (dag_relax_all (node_hash root) nodes)) + length (snd (dag_relax_all (node_hash root) nodes))
      = length nodes"
    by (rule dag_relax_all_length) (rule prod.collapse [symmetric])
  then show "((q @ fst (dag_relax_all (node_hash root) nodes), snd (dag_relax_all (node_hash root) nodes),
      out @ [root], Suc cnt), (root # q, nodes, out, cnt))
      \<in> measure (\<lambda>(q, nodes, out, cnt). length q + length nodes)"
    by simp
qed simp

definition dag_sort :: "'p dag \<Rightarrow> 'p dag_node list outcome" where
  "dag_sort g =
     (let nodes = map snd (dag_nodes g);
          (q, rest) = dag_split nodes;
          (out, cnt) = dag_sort_loop q rest [] 0
      in if cnt \<noteq> length (dag_nodes g) then fail Clog_fatal else ok out)"


section \<open>Graph invariant\<close>

text \<open>
  Every key is its node's hash, and every dependency names a node: what \<open>add_edge\<close> and
  \<open>initialize_node\<close> keep. \<open>depends g\<close> relates a node to the nodes it depends on.
\<close>

definition dag_wf :: "'p dag \<Rightarrow> bool" where
  "dag_wf g \<longleftrightarrow> std_wf (dag_nodes g) \<and>
     (\<forall>(k, n) \<in> set (dag_nodes g). node_hash n = k \<and> set (node_edges n) \<subseteq> fst ` set (dag_nodes g))"

definition depends :: "'p dag \<Rightarrow> (nat \<times> nat) set" where
  "depends g = {(u, v). \<exists>n. map_of (dag_nodes g) u = Some n \<and> v \<in> set (node_edges n)}"

definition deps_of :: "'p dag \<Rightarrow> nat \<Rightarrow> nat set" where
  "deps_of g u = {v. (u, v) \<in> depends g}"

lemma std_wf_map_of: "std_wf m \<Longrightarrow> map_of m k = Some v \<longleftrightarrow> (k, v) \<in> set m"
  by (simp add: std_wf_distinct)

lemma dag_wf_iff:
  "dag_wf g \<longleftrightarrow> std_wf (dag_nodes g) \<and>
     (\<forall>k n. map_of (dag_nodes g) k = Some n \<longrightarrow>
        node_hash n = k \<and> set (node_edges n) \<subseteq> dom (map_of (dag_nodes g)))"
  by (auto simp: dag_wf_def dom_map_of_conv_image_fst) (fastforce simp: std_wf_distinct)+

lemma dag_wf_touch:
  "dag_wf g \<Longrightarrow> dag_wf (g\<lparr>dag_nodes := dag_touch p0 h (dag_nodes g)\<rparr>)"
  by (auto simp: dag_wf_iff dag_touch_def dag_node_default_def split: option.splits if_splits)

lemma dag_touch_dom: "h \<in> dom (map_of (dag_touch p0 h m))" "dom (map_of m) \<subseteq> dom (map_of (dag_touch p0 h m))"
  by (auto simp: dag_touch_def split: option.splits)

lemma dag_wf_add_edge: "dag_wf g \<Longrightarrow> dag_wf (dag_add_edge p0 t f g)"
proof -
  assume "dag_wf g"
  define m where "m = dag_touch p0 f (dag_touch p0 t (dag_nodes g))"
  have wf: "dag_wf (g\<lparr>dag_nodes := m\<rparr>)"
    using dag_wf_touch [OF dag_wf_touch [OF \<open>dag_wf g\<close>, of p0 t], of p0 f] by (simp add: m_def)
  have "f \<in> dom (map_of m)"
    unfolding m_def by (rule dag_touch_dom(1))
  moreover have "t \<in> dom (map_of m)"
    unfolding m_def using dag_touch_dom(1) by (rule subsetD [OF dag_touch_dom(2)])
  ultimately obtain n n' where "map_of m t = Some n" "map_of m f = Some n'" by blast
  then show ?thesis
    using wf by (auto simp: dag_wf_iff dag_add_edge_def m_def [symmetric] Let_def map_of_std_modify)
qed

lemma dag_wf_initialize_node: "dag_wf g \<Longrightarrow> dag_wf (dag_initialize_node p0 pinit node g)"
  by (auto simp: dag_wf_iff dag_initialize_node_def map_of_std_modify dag_node_initialize_def
      dag_node_default_def split: option.splits if_splits)


section \<open>Correctness of the sort\<close>

definition dep_ordered :: "'p dag \<Rightarrow> nat list \<Rightarrow> bool" where
  "dep_ordered g hs \<longleftrightarrow> (\<forall>i < length hs. deps_of g (hs ! i) \<subseteq> set (take i hs))"

abbreviation hashes :: "'p dag_node list \<Rightarrow> nat list" where
  "hashes ns \<equiv> map node_hash ns"

lemma dep_ordered_snoc: "dep_ordered g (hs @ [h]) \<longleftrightarrow> dep_ordered g hs \<and> deps_of g h \<subseteq> set hs"
  by (auto simp: dep_ordered_def nth_append less_Suc_eq)

lemma dag_relax_cases:
  "dag_relax h n = r \<Longrightarrow>
    (case r of
      Inl n' \<Rightarrow> h \<in> set (node_edges n) \<and> set (node_edges n) \<subseteq> {h} \<and> node_hash n' = node_hash n
    | Inr n' \<Rightarrow> node_hash n' = node_hash n \<and> set (node_edges n') = set (node_edges n) - {h} \<and>
        (node_edges n \<noteq> [] \<longrightarrow> node_edges n' \<noteq> []))"
proof (induction h n arbitrary: r rule: dag_relax.induct)
  case (1 h n)
  define n' where "n' = n\<lparr>node_edges := remove1 h (node_edges n)\<rparr>"
  show ?case
  proof (cases "h \<in> set (node_edges n)")
    case False
    then show ?thesis using "1.prems" by (auto simp: dag_relax.simps [of h n])
  next
    case True
    then have eq: "set (node_edges n) = insert h (set (node_edges n'))"
      using set_remove1_insert [of h "node_edges n"] by (simp add: n'_def)
    show ?thesis
    proof (cases "node_edges n' = []")
      case True
      then show ?thesis using \<open>h \<in> set (node_edges n)\<close> "1.prems" eq
        by (auto simp: dag_relax.simps [of h n] n'_def)
    next
      case False
      then have "dag_relax h n' = r"
        using \<open>h \<in> set (node_edges n)\<close> "1.prems" by (simp add: dag_relax.simps [of h n] n'_def)
      then have "case r of
          Inl m \<Rightarrow> h \<in> set (node_edges n') \<and> set (node_edges n') \<subseteq> {h} \<and> node_hash m = node_hash n'
        | Inr m \<Rightarrow> node_hash m = node_hash n' \<and> set (node_edges m) = set (node_edges n') - {h} \<and>
            (node_edges n' \<noteq> [] \<longrightarrow> node_edges m \<noteq> [])"
        using "1.IH" [OF \<open>h \<in> set (node_edges n)\<close> n'_def] False by (simp add: n'_def)
      then show ?thesis using eq False by (cases r) (auto simp: n'_def)
    qed
  qed
qed

lemma dag_relax_all_spec:
  assumes "dag_relax_all h ns = (pushed, rest)" and "\<forall>n \<in> set ns. node_edges n \<noteq> []"
  shows "(\<forall>m \<in> set rest. \<exists>n \<in> set ns. node_hash m = node_hash n \<and> node_edges m \<noteq> [] \<and>
            set (node_edges m) = set (node_edges n) - {h})
    \<and> (\<forall>m \<in> set pushed. \<exists>n \<in> set ns. node_hash m = node_hash n \<and> set (node_edges n) = {h})
    \<and> mset (hashes pushed) + mset (hashes rest) = mset (hashes ns)"
  using assms
proof (induction ns arbitrary: pushed rest)
  case Nil
  then show ?case by simp
next
  case (Cons n ns)
  obtain pu re where rec: "dag_relax_all h ns = (pu, re)" by (cases "dag_relax_all h ns")
  show ?case
  proof (cases "dag_relax h n")
    case (Inl m)
    with Cons.prems rec have "pushed = m # pu" "rest = re" by auto
    then show ?thesis
      using dag_relax_cases [OF Inl] Cons.IH [OF rec] Cons.prems(2) by auto
  next
    case (Inr m)
    with Cons.prems rec have "pushed = pu" "rest = m # re" by auto
    then show ?thesis
      using dag_relax_cases [OF Inr] Cons.IH [OF rec] Cons.prems(2) by auto
  qed
qed

text \<open>
  The invariant of the main loop: the three lists hold every node once, a waiting node has lost
  exactly the dependencies already emitted and still has one, a queued node has lost them all,
  and what is emitted is in dependency order.
\<close>

definition kahn_inv ::
  "'p dag \<Rightarrow> 'p dag_node list \<Rightarrow> 'p dag_node list \<Rightarrow> 'p dag_node list \<Rightarrow> bool" where
  "kahn_inv g q ns out \<longleftrightarrow>
     distinct (hashes (out @ q @ ns)) \<and> set (hashes (out @ q @ ns)) = dom (map_of (dag_nodes g)) \<and>
     (\<forall>n \<in> set ns. node_edges n \<noteq> [] \<and>
        set (node_edges n) = deps_of g (node_hash n) - set (hashes out)) \<and>
     (\<forall>n \<in> set q. deps_of g (node_hash n) \<subseteq> set (hashes out)) \<and>
     dep_ordered g (hashes out)"

lemma distinct_perm_hashes:
  assumes "mset (hashes pushed) + mset (hashes rest) = mset (hashes ns)"
  shows "distinct (hashes (out @ q @ ns)) \<longleftrightarrow> distinct (hashes (out @ (q @ pushed) @ rest))"
    and "set (hashes ns) = set (hashes pushed) \<union> set (hashes rest)"
proof -
  have perm: "mset (hashes (out @ q @ ns)) = mset (hashes (out @ (q @ pushed) @ rest))"
    using assms by simp
  show "distinct (hashes (out @ q @ ns)) \<longleftrightarrow> distinct (hashes (out @ (q @ pushed) @ rest))"
    using perm by (metis mset_eq_imp_distinct_iff)
  show "set (hashes ns) = set (hashes pushed) \<union> set (hashes rest)"
    using assms by (metis set_mset_mset set_mset_union)
qed

lemma kahn_inv_step:
  assumes inv: "kahn_inv g (root # q) ns out"
    and relax: "dag_relax_all (node_hash root) ns = (pushed, rest)"
  shows "kahn_inv g (q @ pushed) rest (out @ [root])"
proof -
  have "\<forall>n \<in> set ns. node_edges n \<noteq> []"
    using inv by (simp add: kahn_inv_def)
  note spec = dag_relax_all_spec [OF relax this]
  note perm = distinct_perm_hashes [OF conjunct2 [OF conjunct2 [OF spec]]]
  have "distinct (hashes (out @ (root # q) @ ns))"
    using inv unfolding kahn_inv_def by blast
  then have "distinct (hashes ((out @ [root]) @ (q @ pushed) @ rest))"
    using perm(1) [of out "root # q"] by simp
  moreover have "set (hashes ((out @ [root]) @ (q @ pushed) @ rest)) = dom (map_of (dag_nodes g))"
    using inv perm(2) unfolding kahn_inv_def by auto
  moreover have "\<forall>m \<in> set rest. node_edges m \<noteq> [] \<and>
      set (node_edges m) = deps_of g (node_hash m) - set (hashes (out @ [root]))"
  proof
    fix m assume "m \<in> set rest"
    with spec obtain n where n: "n \<in> set ns" "node_hash m = node_hash n" "node_edges m \<noteq> []"
      "set (node_edges m) = set (node_edges n) - {node_hash root}" by blast
    have "set (node_edges n) = deps_of g (node_hash n) - set (hashes out)"
      using n(1) inv unfolding kahn_inv_def by blast
    with n show "node_edges m \<noteq> [] \<and>
        set (node_edges m) = deps_of g (node_hash m) - set (hashes (out @ [root]))" by auto
  qed
  moreover have "\<forall>m \<in> set (q @ pushed). deps_of g (node_hash m) \<subseteq> set (hashes (out @ [root]))"
  proof
    fix m assume "m \<in> set (q @ pushed)"
    then consider "m \<in> set q" | "m \<in> set pushed" by auto
    then show "deps_of g (node_hash m) \<subseteq> set (hashes (out @ [root]))"
    proof cases
      case 1
      then show ?thesis using inv unfolding kahn_inv_def by auto
    next
      case 2
      with spec obtain n where n: "n \<in> set ns" "node_hash m = node_hash n" "set (node_edges n) = {node_hash root}"
        by blast
      have "set (node_edges n) = deps_of g (node_hash n) - set (hashes out)"
        using n(1) inv unfolding kahn_inv_def by blast
      with n show ?thesis by auto
    qed
  qed
  moreover have "dep_ordered g (hashes (out @ [root]))"
    using inv unfolding kahn_inv_def by (simp add: dep_ordered_snoc)
  ultimately show ?thesis
    unfolding kahn_inv_def by blast
qed

lemma dag_sort_loop_inv:
  "kahn_inv g q ns out \<Longrightarrow> cnt = length out \<Longrightarrow> dag_sort_loop q ns out cnt = (out', cnt') \<Longrightarrow>
    \<exists>rest. kahn_inv g [] rest out' \<and> cnt' = length out'"
proof (induction q ns out cnt rule: dag_sort_loop.induct)
  case (1 ns out cnt)
  then show ?case by auto
next
  case (2 root q ns out cnt)
  have "kahn_inv g (q @ fst (dag_relax_all (node_hash root) ns)) (snd (dag_relax_all (node_hash root) ns)) (out @ [root])"
    using "2.prems"(1) by (rule kahn_inv_step) simp
  then show ?case using "2.IH" "2.prems" by simp
qed

lemma dag_split_spec:
  "dag_split ns = (q, rest) \<Longrightarrow>
    (\<forall>n \<in> set q. n \<in> set ns \<and> node_edges n = []) \<and> (\<forall>n \<in> set rest. n \<in> set ns \<and> node_edges n \<noteq> []) \<and>
    mset (hashes q) + mset (hashes rest) = mset (hashes ns)"
  by (induction ns arbitrary: q rest) (auto split: prod.splits if_splits)

lemma dag_nodes_hashes: "dag_wf g \<Longrightarrow> hashes (map snd (dag_nodes g)) = keys (dag_nodes g)"
  by (auto simp: dag_wf_def)

lemma kahn_inv_init:
  assumes wf: "dag_wf g" and split: "dag_split (map snd (dag_nodes g)) = (q, rest)"
  shows "kahn_inv g q rest []"
proof -
  have deps: "deps_of g (node_hash n) = set (node_edges n)" if "n \<in> snd ` set (dag_nodes g)" for n
  proof -
    from that obtain k where "(k, n) \<in> set (dag_nodes g)" by auto
    then have "map_of (dag_nodes g) (node_hash n) = Some n"
      using wf std_wf_map_of [of "dag_nodes g"] by (auto simp: dag_wf_def)
    then show ?thesis by (simp add: deps_of_def depends_def)
  qed
  note spec = dag_split_spec [OF split]
  have "distinct (hashes (map snd (dag_nodes g)))"
    using wf by (simp add: dag_nodes_hashes std_wf_distinct dag_wf_def del: map_map)
  moreover have "set (hashes (map snd (dag_nodes g))) = dom (map_of (dag_nodes g))"
    using dag_nodes_hashes [OF wf] by (simp add: dom_map_of_conv_image_fst del: map_map)
  moreover note distinct_perm_hashes(1) [OF conjunct2 [OF conjunct2 [OF spec]], of "[]" "[]"]
    distinct_perm_hashes(2) [OF conjunct2 [OF conjunct2 [OF spec]]]
  ultimately show ?thesis
    using spec deps unfolding kahn_inv_def by (auto simp: dep_ordered_def)
qed

definition position :: "nat list \<Rightarrow> nat \<Rightarrow> nat" where
  "position hs u = length (takeWhile (\<lambda>x. x \<noteq> u) hs)"

lemma position_nth:
  assumes "distinct hs" and "i < length hs" shows "position hs (hs ! i) = i"
proof -
  have "takeWhile (\<lambda>x. x \<noteq> hs ! i) hs = take i hs"
    by (rule takeWhile_eq_take_P_nth) (use assms in \<open>auto simp: nth_eq_iff_index_eq\<close>)
  then show ?thesis using assms by (simp add: position_def)
qed

lemma dep_ordered_position:
  assumes "dep_ordered g hs" and "distinct hs" and "u \<in> set hs" and "(u, v) \<in> depends g"
  shows "v \<in> set hs \<and> position hs v < position hs u"
proof -
  obtain i where i: "i < length hs" "u = hs ! i" using assms(3) by (auto simp: in_set_conv_nth)
  then have "v \<in> set (take i hs)" using assms(1,4) by (auto simp: dep_ordered_def deps_of_def)
  then obtain j where "j < i" "v = hs ! j" by (auto simp: in_set_conv_nth)
  then show ?thesis using i position_nth [OF assms(2)] by simp
qed

lemma dep_ordered_acyclic:
  assumes "dep_ordered g hs" and "distinct hs" and "set hs = dom (map_of (dag_nodes g))"
  shows "acyclic (depends g)"
proof -
  have "depends g \<subseteq> (measure (position hs))\<inverse>"
  proof clarify
    fix u v assume uv: "(u, v) \<in> depends g"
    then have "u \<in> set hs" using assms(3) by (auto simp: depends_def)
    with uv show "(v, u) \<in> measure (position hs)"
      using dep_ordered_position [OF assms(1,2)] by simp
  qed
  then show ?thesis
    using wf_acyclic [OF wf_measure] by (blast intro: acyclic_subset acyclic_converse [THEN iffD2])
qed

lemma finite_depends: "finite (depends g)"
proof -
  have "depends g \<subseteq> (\<Union>(k, n) \<in> set (dag_nodes g). {k} \<times> set (node_edges n))"
    by (auto simp: depends_def dest: map_of_SomeD)
  then show ?thesis by (rule finite_subset) auto
qed

lemma stuck_not_acyclic:
  assumes "S \<noteq> {}" and "\<And>u. u \<in> S \<Longrightarrow> \<exists>v \<in> S. (u, v) \<in> depends g"
  shows "\<not> acyclic (depends g)"
proof
  assume "acyclic (depends g)"
  then have "wf ((depends g)\<inverse>)" by (rule finite_acyclic_wf_converse [OF finite_depends])
  then obtain z where "z \<in> S" "\<forall>y. (y, z) \<in> (depends g)\<inverse> \<longrightarrow> y \<notin> S"
    using assms(1) by (metis wfE_min ex_in_conv)
  then show False using assms(2) by blast
qed

lemma kahn_inv_final:
  assumes wf: "dag_wf g" and inv: "kahn_inv g [] rest out"
  shows "rest = [] \<longleftrightarrow> length out = length (dag_nodes g)"
    and "rest = [] \<longleftrightarrow> acyclic (depends g)"
proof -
  have dist: "distinct (hashes (out @ rest))"
    and all: "set (hashes (out @ rest)) = dom (map_of (dag_nodes g))"
    using inv by (auto simp: kahn_inv_def)
  have "length out + length rest = card (set (hashes (out @ rest)))"
    using distinct_card [OF dist] by simp
  also have "\<dots> = length (dag_nodes g)"
    using wf distinct_card [of "keys (dag_nodes g)"] all
    by (simp add: dag_wf_def std_wf_distinct dom_map_of_conv_image_fst)
  finally show len: "rest = [] \<longleftrightarrow> length out = length (dag_nodes g)" by auto
  show "rest = [] \<longleftrightarrow> acyclic (depends g)"
  proof
    assume "rest = []"
    then show "acyclic (depends g)"
      using inv dist all dep_ordered_acyclic [of g "hashes out"] by (simp add: kahn_inv_def)
  next
    assume acyclic: "acyclic (depends g)"
    show "rest = []"
    proof (rule ccontr)
      assume "rest \<noteq> []"
      moreover have "\<exists>v \<in> set (hashes rest). (u, v) \<in> depends g" if "u \<in> set (hashes rest)" for u
      proof -
        from that obtain n where n: "n \<in> set rest" "node_hash n = u" by auto
        then have "node_edges n \<noteq> []" "set (node_edges n) = deps_of g u - set (hashes out)"
          using inv by (auto simp: kahn_inv_def)
        then obtain v where v: "(u, v) \<in> depends g" "v \<notin> set (hashes out)"
          by (auto simp: deps_of_def) (metis (no_types, lifting) Diff_iff list.set_intros(1) mem_Collect_eq neq_Nil_conv)
        then have "v \<in> dom (map_of (dag_nodes g))"
          using wf unfolding depends_def dag_wf_iff by blast
        with v all show ?thesis by auto
      qed
      ultimately show False
        using stuck_not_acyclic [of "set (hashes rest)" g] acyclic by auto
    qed
  qed
qed

text \<open>
  C4: on a graph built by the registration operations, the sort returns every node exactly once
  with each node after all the nodes it depends on, if and only if the dependencies have no
  cycle; on a cyclic graph it always ends in the \<open>clog_fatal\<close> branch.
\<close>

theorem dag_sort_correct:
  assumes "dag_wf g"
  shows "(acyclic (depends g) \<longrightarrow>
      (\<exists>out. dag_sort g = ok out \<and> distinct (hashes out) \<and> set (hashes out) = set (keys (dag_nodes g)) \<and>
        (\<forall>(u, v) \<in> depends g. position (hashes out) v < position (hashes out) u)))
    \<and> (\<not> acyclic (depends g) \<longrightarrow> dag_sort g = fail Clog_fatal)"
proof -
  obtain q rest where split: "dag_split (map snd (dag_nodes g)) = (q, rest)" by fastforce
  obtain out cnt where loop: "dag_sort_loop q rest [] 0 = (out, cnt)" by fastforce
  obtain ns where inv: "kahn_inv g [] ns out" and cnt: "cnt = length out"
    using dag_sort_loop_inv [OF kahn_inv_init [OF assms split] _ loop] by auto
  note final = kahn_inv_final [OF assms inv]
  have sort: "dag_sort g = (if acyclic (depends g) then ok out else fail Clog_fatal)"
    using final by (auto simp: dag_sort_def split loop cnt)
  show ?thesis
  proof (cases "acyclic (depends g)")
    case True
    then have "ns = []" using final by simp
    then have out: "distinct (hashes out)" "set (hashes out) = dom (map_of (dag_nodes g))"
      "dep_ordered g (hashes out)"
      using inv by (auto simp: kahn_inv_def)
    have "\<forall>(u, v) \<in> depends g. position (hashes out) v < position (hashes out) u"
    proof clarify
      fix u v assume uv: "(u, v) \<in> depends g"
      then have "u \<in> set (hashes out)" using out(2) by (auto simp: depends_def)
      with uv show "position (hashes out) v < position (hashes out) u"
        using dep_ordered_position [OF out(3,1)] by blast
    qed
    then show ?thesis
      using sort True out(1,2) by (simp add: dom_map_of_conv_image_fst)
  qed (simp add: sort)
qed

definition example_dag :: "unit dag" where
  "example_dag = dag_add_edge () 3 2 (dag_add_edge () 3 1 (dag_add_edge () 2 1
     \<lparr>dag_label = ''phases'', dag_nodes = []\<rparr>))"

definition example_cycle :: "unit dag" where
  "example_cycle = dag_add_edge () 1 3 example_dag"

lemma dag_wf_empty: "dag_wf \<lparr>dag_label = l, dag_nodes = []\<rparr>"
  by (simp add: dag_wf_def)

theorem dag_sort_correct_witness:
  "acyclic (depends example_dag) \<and> \<not> acyclic (depends example_cycle) \<and>
   (\<exists>out. dag_sort example_dag = ok out \<and> set (hashes out) = {1, 2, 3})"
proof -
  have wf: "dag_wf example_dag" and wf': "dag_wf example_cycle"
    unfolding example_dag_def example_cycle_def by (intro dag_wf_add_edge dag_wf_empty)+
  have "map_sum id hashes (dag_sort example_dag) = ok [1, 2, 3]" by code_simp
  then have run: "dag_sort example_dag \<noteq> fail Clog_fatal" by auto
  have "map_sum id hashes (dag_sort example_cycle) = fail Clog_fatal" by code_simp
  then have cyc: "\<nexists>out. dag_sort example_cycle = ok out" by auto
  have keys: "keys (dag_nodes example_dag) = [1, 2, 3]" by code_simp
  have "acyclic (depends example_dag)"
    using dag_sort_correct [OF wf] run by blast
  moreover have "\<not> acyclic (depends example_cycle)"
    using dag_sort_correct [OF wf'] cyc by blast
  ultimately show ?thesis
    using dag_sort_correct [OF wf] by (auto simp: keys)
qed

end
