(* ===== verification/Raw_Memory.thy ===== *)
theory Raw_Memory
  imports Flecsi_Prelude
begin

text \<open>
  Contiguous storage, as the containers of FleCSI use it: a block of cells, each holding a value
  or nothing (raw storage, or an element left default-initialised). The standard algorithms that
  shift elements inside one block are written out element by element, in the direction the
  standard gives them, because the source and the target ranges overlap in their uses;
  \<open>moved\<close> is the reference they are compared with: every element of the source range, as it was
  before the call, arrives in the target range.
\<close>

type_synonym 'a cells = "'a option list"

definition cell_write :: "nat \<Rightarrow> 'a option \<Rightarrow> 'a cells \<Rightarrow> 'a cells outcome" where
  "cell_write i x m = (if i < length m then ok (m[i := x]) else fail Undefined)"

text \<open>\<open>std::copy\<close>, \<open>std::move\<close>, \<open>std::uninitialized_move_n\<close> inside one block: ascending.\<close>

function copy_fwd :: "nat \<Rightarrow> nat \<Rightarrow> nat \<Rightarrow> 'a cells \<Rightarrow> 'a cells outcome" where
  "copy_fwd first stop dst m =
     (if first = stop then ok m
      else if stop < first \<or> length m < stop then fail Undefined
      else and_then (cell_write dst (m ! first) m) (copy_fwd (Suc first) stop (Suc dst)))"
  by pat_completeness auto
termination
  by (relation "measure (\<lambda>(first, stop, dst, m). stop - first)") auto

declare copy_fwd.simps [simp del]

text \<open>\<open>std::copy_backward\<close>, \<open>std::move_backward\<close>: descending, \<open>dst\<close> is the end of the target.\<close>

function copy_bwd :: "nat \<Rightarrow> nat \<Rightarrow> nat \<Rightarrow> 'a cells \<Rightarrow> 'a cells outcome" where
  "copy_bwd first stop dst m =
     (if first = stop then ok m
      else if stop < first \<or> length m < stop \<or> dst = 0 then fail Undefined
      else and_then (cell_write (dst - 1) (m ! (stop - 1)) m) (copy_bwd first (stop - 1) (dst - 1)))"
  by pat_completeness auto
termination
  by (relation "measure (\<lambda>(first, stop, dst, m). stop - first)") auto

declare copy_bwd.simps [simp del]

text \<open>\<open>std::copy\<close> from another container, \<open>std::fill_n\<close>, construction of a run of elements.\<close>

fun write_run :: "nat \<Rightarrow> 'a option list \<Rightarrow> 'a cells \<Rightarrow> 'a cells outcome" where
  "write_run i [] m = ok m"
| "write_run i (x # xs) m = and_then (cell_write i x m) (write_run (Suc i) xs)"

lemma write_run_Nil [simp]: "write_run i [] = ok"
  by (rule ext) simp

section \<open>What the algorithms compute\<close>

definition moved :: "nat \<Rightarrow> nat \<Rightarrow> nat \<Rightarrow> 'a cells \<Rightarrow> 'a cells" where
  "moved first n dst m =
     map (\<lambda>i. if dst \<le> i \<and> i < dst + n then m ! (first + (i - dst)) else m ! i) [0..<length m]"

lemma length_moved [simp]: "length (moved first n dst m) = length m"
  by (simp add: moved_def)

lemma nth_moved [simp]:
  "i < length m \<Longrightarrow>
   moved first n dst m ! i = (if dst \<le> i \<and> i < dst + n then m ! (first + (i - dst)) else m ! i)"
  by (simp add: moved_def)

lemma moved_0 [simp]: "moved first 0 dst m = m"
  by (rule nth_equalityI) auto

lemma copy_fwd_moved:
  assumes "first \<le> stop" "stop \<le> length m" "dst + (stop - first) \<le> length m"
    and "dst \<le> first \<or> stop \<le> dst"
  shows "copy_fwd first stop dst m = ok (moved first (stop - first) dst m)"
  using assms
proof (induction first stop dst m rule: copy_fwd.induct)
  case (1 first stop dst m)
  show ?case
  proof (cases "first = stop")
    case True
    then show ?thesis by (simp add: copy_fwd.simps)
  next
    case False
    then have lt: "first < stop" using "1.prems" by simp
    let ?m = "m[dst := m ! first]"
    have w: "cell_write dst (m ! first) m = ok ?m"
      using "1.prems" lt by (simp add: cell_write_def)
    have "copy_fwd (Suc first) stop (Suc dst) ?m = ok (moved (Suc first) (stop - Suc first) (Suc dst) ?m)"
      using "1.prems" lt w by (intro "1.IH") auto
    moreover have "moved (Suc first) (stop - Suc first) (Suc dst) ?m = moved first (stop - first) dst m"
    proof (rule nth_equalityI)
      fix i assume "i < length (moved (Suc first) (stop - Suc first) (Suc dst) ?m)"
      then have i: "i < length m" by simp
      show "moved (Suc first) (stop - Suc first) (Suc dst) ?m ! i = moved first (stop - first) dst m ! i"
        using i lt "1.prems" by (cases "i = dst") (auto simp: nth_list_update Suc_diff_Suc)
    qed simp
    ultimately show ?thesis
      using lt "1.prems" w by (simp add: copy_fwd.simps[of first])
  qed
qed

lemma copy_bwd_moved:
  assumes "first \<le> stop" "stop \<le> dst" "dst \<le> length m"
  shows "copy_bwd first stop dst m = ok (moved first (stop - first) (dst - (stop - first)) m)"
  using assms
proof (induction first stop dst m rule: copy_bwd.induct)
  case (1 first stop dst m)
  show ?case
  proof (cases "first = stop")
    case True
    then show ?thesis by (simp add: copy_bwd.simps)
  next
    case False
    then have lt: "first < stop" using "1.prems" by simp
    let ?m = "m[dst - 1 := m ! (stop - 1)]"
    have w: "cell_write (dst - 1) (m ! (stop - 1)) m = ok ?m"
      using "1.prems" lt by (simp add: cell_write_def)
    have "copy_bwd first (stop - 1) (dst - 1) ?m
        = ok (moved first (stop - 1 - first) (dst - 1 - (stop - 1 - first)) ?m)"
      using "1.prems" lt w by (intro "1.IH") auto
    moreover have "moved first (stop - 1 - first) (dst - 1 - (stop - 1 - first)) ?m
        = moved first (stop - first) (dst - (stop - first)) m"
    proof (rule nth_equalityI)
      fix i assume "i < length (moved first (stop - 1 - first) (dst - 1 - (stop - 1 - first)) ?m)"
      then have i: "i < length m" by simp
      have d: "dst - 1 - (stop - 1 - first) = dst - (stop - first)" using "1.prems" lt by simp
      show "moved first (stop - 1 - first) (dst - 1 - (stop - 1 - first)) ?m ! i
          = moved first (stop - first) (dst - (stop - first)) m ! i"
        unfolding d using i lt "1.prems"
        by (cases "i = dst - 1") (auto simp: nth_list_update)
    qed simp
    ultimately show ?thesis
      using lt "1.prems" w by (simp add: copy_bwd.simps[of first])
  qed
qed

lemma write_run_blit:
  "i + length xs \<le> length m \<Longrightarrow> write_run i xs m = ok (take i m @ xs @ drop (i + length xs) m)"
proof (induction i xs m rule: write_run.induct)
  case (2 i x xs m)
  then have i: "i < length m" by simp
  then have "write_run (Suc i) xs (m[i := x])
      = ok (take (Suc i) (m[i := x]) @ xs @ drop (Suc i + length xs) (m[i := x]))"
    using 2 by (intro "2.IH") (auto simp: cell_write_def)
  moreover have "take (Suc i) (m[i := x]) = take i m @ [x]"
    using i by (simp add: take_Suc_conv_app_nth)
  ultimately show ?case using i by (simp add: cell_write_def)
qed simp

lemma write_run_length: "write_run i xs m = ok m' \<Longrightarrow> length m' = length m"
  by (induction i xs m rule: write_run.induct) (auto simp: cell_write_def split: if_splits)

text \<open>Opening a gap of \<open>n\<close> cells at \<open>i\<close> among the first \<open>e\<close> cells, and closing one.\<close>

lemma take_moved_gap:
  assumes "i \<le> e" "e + n \<le> length m" "length xs = n"
  shows "take (e + n) (take i (moved i (e - i) (i + n) m) @ xs @ drop (i + n) (moved i (e - i) (i + n) m))
    = take i m @ xs @ drop i (take e m)"
proof (rule nth_equalityI)
  let ?l = "take (e + n) (take i (moved i (e - i) (i + n) m) @ xs @ drop (i + n) (moved i (e - i) (i + n) m))"
  show "length ?l = length (take i m @ xs @ drop i (take e m))" using assms by simp
  fix j assume "j < length ?l"
  then show "?l ! j = (take i m @ xs @ drop i (take e m)) ! j"
    using assms by (auto simp: nth_append)
qed

lemma take_moved_close:
  assumes "i \<le> j" "j \<le> e" "e \<le> length m"
  shows "take (e - (j - i)) (moved j (e - j) i m) = take i m @ drop j (take e m)"
proof (rule nth_equalityI)
  show "length (take (e - (j - i)) (moved j (e - j) i m)) = length (take i m @ drop j (take e m))"
    using assms by simp
  fix k assume "k < length (take (e - (j - i)) (moved j (e - j) i m))"
  then show "take (e - (j - i)) (moved j (e - j) i m) ! k = (take i m @ drop j (take e m)) ! k"
    using assms by (auto simp: nth_append)
qed

end
