(* ===== verification/Array_Views.thy ===== *)
theory Array_Views
  imports Raw_Memory
begin

text \<open>
  The two fixed-capacity sequences of the library: \<open>vector_ref\<close> (array\_ref.h), a vector
  interface over storage owned by somebody else, and \<open>fixed_vector\<close> (fixed\_vector.h), a vector
  with an inline array of \<open>MAX_ENTRIES\<close> elements. Pointers into the storage are indices; the
  standard exceptions and failed assertions are values of \<^typ>\<open>failure\<close>. Elements are
  values whose moved-from state is their old value.
\<close>

section \<open>vector\_ref\<close>

record 'a vref =
  slots :: "'a cells"
  used :: nat

definition vref_view :: "'a cells \<Rightarrow> nat \<Rightarrow> 'a vref" where
  "vref_view s sz = \<lparr>slots = s, used = sz\<rparr>"

definition vref_wf :: "'a vref \<Rightarrow> bool" where
  "vref_wf v \<longleftrightarrow> used v \<le> length (slots v)"

definition vref_capacity :: "'a vref \<Rightarrow> nat" where
  "vref_capacity v = length (slots v)"

text \<open>What the view denotes: the sequence of its first \<open>used\<close> cells.\<close>

definition vref_elems :: "'a vref \<Rightarrow> 'a option list" where
  "vref_elems v = take (used v) (slots v)"

definition vref_at :: "'a vref \<Rightarrow> nat \<Rightarrow> 'a option outcome" where
  "vref_at v i = (if used v \<le> i then fail Out_of_range else ok (slots v ! i))"

definition vref_reserve :: "nat \<Rightarrow> 'a vref \<Rightarrow> 'a vref outcome" where
  "vref_reserve n v = (if vref_capacity v < n then fail Length_error else ok v)"

definition vref_append :: "'a option \<Rightarrow> 'a vref \<Rightarrow> 'a vref outcome" where
  "vref_append x v =
     (if used v = length (slots v) then fail Length_error
      else and_then (cell_write (used v) x (slots v)) (\<lambda>m. ok \<lparr>slots = m, used = used v + 1\<rparr>))"

definition vref_pop_back :: "'a vref \<Rightarrow> 'a vref outcome" where
  "vref_pop_back v =
     (if used v = 0 then fail Undefined
      else and_then (cell_write (used v - 1) None (slots v)) (\<lambda>m. ok \<lparr>slots = m, used = used v - 1\<rparr>))"

function vref_clear :: "'a vref \<Rightarrow> 'a vref outcome" where
  "vref_clear v = (if used v = 0 then ok v else and_then (vref_pop_back v) vref_clear)"
  by pat_completeness auto
termination
  by (relation "measure used") (auto simp: vref_pop_back_def)

declare vref_clear.simps [simp del]

definition vref_assign :: "nat \<Rightarrow> 'a \<Rightarrow> 'a vref \<Rightarrow> 'a vref outcome" where
  "vref_assign n x v =
     and_then (vref_reserve n v) (\<lambda>v. and_then (vref_clear v)
       (fold_outcome (\<lambda>_. vref_append (Some x)) [0..<n]))"

definition vref_assign_range :: "'a list \<Rightarrow> 'a vref \<Rightarrow> 'a vref outcome" where
  "vref_assign_range xs v = and_then (vref_clear v) (fold_outcome (\<lambda>x. vref_append (Some x)) xs)"

definition vref_slide :: "nat \<Rightarrow> nat \<Rightarrow> 'a vref \<Rightarrow> 'a vref outcome" where
  "vref_slide i n v =
     (if n = 0 then ok v
      else let mv = used v - i; nun = min n mv; um = used v - nun in
        and_then (copy_fwd um (um + nun) (um + n) (slots v)) (\<lambda>m.
        and_then (copy_bwd i um (um + n) m) (\<lambda>m.
        ok \<lparr>slots = m, used = used v + n\<rparr>)))"

definition vref_put :: "nat \<Rightarrow> 'a \<Rightarrow> 'a vref \<Rightarrow> 'a vref outcome" where
  "vref_put i x v =
     (if i = used v then vref_append (Some x) v
      else and_then (vref_reserve (used v + 1) v) (\<lambda>v.
           and_then (vref_slide i 1 v) (\<lambda>v.
           and_then (cell_write i (Some x) (slots v)) (\<lambda>m. ok (v\<lparr>slots := m\<rparr>)))))"

definition vref_insert_fill :: "nat \<Rightarrow> nat \<Rightarrow> 'a \<Rightarrow> 'a vref \<Rightarrow> 'a vref outcome" where
  "vref_insert_fill i n x v =
     and_then (vref_reserve (used v + n) v) (\<lambda>v.
       let mv = used v - i; nf = min n mv in
       and_then (write_run (used v) (replicate (n - nf) (Some x)) (slots v)) (\<lambda>m.
       and_then (vref_slide i n (v\<lparr>slots := m\<rparr>)) (\<lambda>v.
       and_then (write_run i (replicate nf (Some x)) (slots v)) (\<lambda>m. ok (v\<lparr>slots := m\<rparr>)))))"

definition vref_insert_forward :: "nat \<Rightarrow> 'a list \<Rightarrow> 'a vref \<Rightarrow> 'a vref outcome" where
  "vref_insert_forward i xs v =
     (let n = length xs in
      and_then (vref_reserve (used v + n) v) (\<lambda>v.
        let mid = min (used v - i) n in
        and_then (write_run (used v) (map Some (drop mid xs)) (slots v)) (\<lambda>m.
        and_then (vref_slide i n (v\<lparr>slots := m\<rparr>)) (\<lambda>v.
        and_then (write_run i (map Some (take mid xs)) (slots v)) (\<lambda>m. ok (v\<lparr>slots := m\<rparr>))))))"

definition vref_insert_input :: "nat \<Rightarrow> 'a list \<Rightarrow> 'a vref \<Rightarrow> 'a vref outcome" where
  "vref_insert_input i xs v = fold_outcome (\<lambda>x. vref_put i x) xs v"

definition vref_resize :: "'a \<Rightarrow> nat \<Rightarrow> 'a vref \<Rightarrow> 'a vref outcome" where
  "vref_resize d n v =
     and_then (vref_reserve n v) (\<lambda>v.
       and_then (fold_outcome (\<lambda>_. vref_pop_back) [n..<used v] v) (\<lambda>v.
         fold_outcome (\<lambda>_. vref_append (Some d)) [used v..<n] v))"

section \<open>Lemmas on vector\_ref\<close>

lemma vref_slide_moved:
  assumes "vref_wf v" "i \<le> used v" "used v + n \<le> length (slots v)"
  shows "vref_slide i n v = ok \<lparr>slots = moved i (used v - i) (i + n) (slots v), used = used v + n\<rparr>"
proof (cases "n = 0")
  case True
  then show ?thesis
    using assms by (cases v) (auto simp: vref_slide_def intro!: nth_equalityI)
next
  case False
  define nun where "nun = min n (used v - i)"
  define um where "um = used v - nun"
  have le: "i \<le> um" "um + nun = used v" "nun \<le> n" "nun = n \<or> um = i"
    using assms(2) by (auto simp: um_def nun_def)
  have e: "used v - um = nun" using le(2) by simp
  have f: "copy_fwd um (um + nun) (um + n) (slots v) = ok (moved um nun (um + n) (slots v))"
    using copy_fwd_moved[of um "um + nun" "slots v" "um + n"] le assms by (simp add: e)
  have d: "um + n - (um - i) = i + n" using le(1) by simp
  have b: "copy_bwd i um (um + n) (moved um nun (um + n) (slots v))
      = ok (moved i (um - i) (i + n) (moved um nun (um + n) (slots v)))"
    using copy_bwd_moved[of i um "um + n" "moved um nun (um + n) (slots v)"] le assms by (simp add: d)
  have "moved i (um - i) (i + n) (moved um nun (um + n) (slots v)) = moved i (used v - i) (i + n) (slots v)"
    using le assms(2,3) by (intro nth_equalityI) auto
  moreover have "used v - i - (used v - i - nun) = nun" using le by (simp add: um_def)
  ultimately show ?thesis
    using f b False unfolding vref_slide_def Let_def nun_def[symmetric] um_def[symmetric]
    by simp
qed

text \<open>One lemma for the insertions: the tail of the new run is built behind the end, the elements
  behind the position slide, the head of the run overwrites the gap.\<close>

lemma vref_insert_run:
  assumes "vref_wf v" "i \<le> used v" "used v + length xs \<le> length (slots v)"
    and "mid = min (used v - i) (length xs)"
    and "and_then (write_run (used v) (drop mid xs) (slots v)) (\<lambda>m.
        and_then (vref_slide i (length xs) (v\<lparr>slots := m\<rparr>)) (\<lambda>v.
        and_then (write_run i (take mid xs) (slots v)) (\<lambda>m. ok (v\<lparr>slots := m\<rparr>)))) = r"
  shows "\<exists>v'. r = ok v' \<and> vref_wf v' \<and> vref_capacity v' = vref_capacity v \<and>
    vref_elems v' = take i (vref_elems v) @ xs @ drop i (vref_elems v)"
proof -
  define n where "n = length xs"
  define m1 where "m1 = take (used v) (slots v) @ drop mid xs @ drop (used v + (n - mid)) (slots v)"
  define m2 where "m2 = moved i (used v - i) (i + n) m1"
  define m3 where "m3 = take i m2 @ take mid xs @ drop (i + mid) m2"
  have mid: "mid \<le> n" "i + mid \<le> used v" "mid = n \<or> i + mid = used v"
    using assms(2,4) by (auto simp: n_def)
  have len: "length m1 = length (slots v)" "length m2 = length (slots v)"
    using assms(3) mid by (auto simp: m1_def m2_def n_def)
  have 1: "write_run (used v) (drop mid xs) (slots v) = ok m1"
    using assms(3) mid by (subst write_run_blit) (auto simp: m1_def n_def)
  have 2: "vref_slide i (length xs) (v\<lparr>slots := m1\<rparr>) = ok \<lparr>slots = m2, used = used v + n\<rparr>"
    using assms(1-3) len by (subst vref_slide_moved) (auto simp: vref_wf_def m2_def n_def)
  have 3: "write_run i (take mid xs) m2 = ok m3"
    using assms(3) mid len by (subst write_run_blit) (auto simp: m3_def n_def min_def)
  have r: "r = ok \<lparr>slots = m3, used = used v + n\<rparr>"
    using assms(5) by (simp add: 1 2 3)
  have l3: "length m3 = length (slots v)"
    using mid len assms(3) by (auto simp: m3_def n_def min_def)
  have "take (used v + n) m3 = take i (slots v) @ xs @ drop i (take (used v) (slots v))"
  proof (rule nth_equalityI)
    show "length (take (used v + n) m3) = length (take i (slots v) @ xs @ drop i (take (used v) (slots v)))"
      using assms(2,3) l3 by (auto simp: n_def)
    fix j assume "j < length (take (used v + n) m3)"
    then have j: "j < used v + n" using l3 assms(3) by (auto simp: n_def)
    have m3: "m3 ! j = (if i \<le> j \<and> j < i + mid then xs ! (j - i) else m2 ! j)"
      using j mid len assms(2,3) by (auto simp: m3_def nth_append n_def min_def)
    have m2: "m2 ! j = (if i + n \<le> j then m1 ! (j - n) else m1 ! j)"
      using j mid len assms(2,3) by (auto simp: m2_def n_def)
    have m1: "m1 ! k = (if k < used v then slots v ! k else xs ! (mid + (k - used v)))"
      if "k < used v + (n - mid)" for k
      using that mid assms(2,3) by (auto simp: m1_def nth_append n_def min_def)
    show "take (used v + n) m3 ! j = (take i (slots v) @ xs @ drop i (take (used v) (slots v))) ! j"
      using j mid assms(2,3) by (auto simp: m3 m2 m1 nth_append n_def min_def intro: arg_cong[of _ _ "(!) xs"])
  qed
  then show ?thesis
    using r l3 assms(2,3) by (auto simp: vref_wf_def vref_capacity_def vref_elems_def n_def min_def)
qed


lemma vref_reserve_cases:
  "vref_reserve n v = (if n \<le> length (slots v) then ok v else fail Length_error)"
  by (simp add: vref_reserve_def vref_capacity_def)

definition spliced :: "nat \<Rightarrow> 'a list \<Rightarrow> 'a vref \<Rightarrow> 'a vref outcome \<Rightarrow> bool" where
  "spliced i xs v r \<longleftrightarrow>
     (if used v + length xs \<le> vref_capacity v
      then \<exists>v'. r = ok v' \<and> vref_wf v' \<and> vref_capacity v' = vref_capacity v \<and>
             vref_elems v' = take i (vref_elems v) @ map Some xs @ drop i (vref_elems v)
      else r = fail Length_error)"

lemma vref_append_spliced:
  assumes "vref_wf v"
  shows "spliced (used v) [x] v (vref_append (Some x) v)"
proof (cases "used v = length (slots v)")
  case True
  then show ?thesis by (simp add: spliced_def vref_append_def vref_capacity_def)
next
  case False
  then have lt: "used v < length (slots v)" using assms by (simp add: vref_wf_def)
  then show ?thesis
    by (auto simp: spliced_def vref_append_def cell_write_def vref_wf_def vref_capacity_def
        vref_elems_def take_Suc_conv_app_nth)
qed

lemma vref_insert_forward_spliced:
  assumes "vref_wf v" "i \<le> used v"
  shows "spliced i xs v (vref_insert_forward i xs v)"
proof (cases "used v + length xs \<le> length (slots v)")
  case True
  then show ?thesis
    using vref_insert_run[of v i "map Some xs", OF assms _ refl refl]
    by (simp add: spliced_def vref_capacity_def vref_insert_forward_def vref_reserve_cases
        drop_map take_map Let_def)
next
  case False
  then show ?thesis
    by (simp add: spliced_def vref_capacity_def vref_insert_forward_def vref_reserve_cases)
qed

lemma vref_insert_fill_spliced:
  assumes "vref_wf v" "i \<le> used v"
  shows "spliced i (replicate n x) v (vref_insert_fill i n x v)"
proof (cases "used v + n \<le> length (slots v)")
  case True
  then show ?thesis
    using vref_insert_run[of v i "replicate n (Some x)", OF assms _ refl refl]
    by (simp add: spliced_def vref_capacity_def vref_insert_fill_def vref_reserve_cases Let_def
        min.commute[of n])
next
  case False
  then show ?thesis
    by (simp add: spliced_def vref_capacity_def vref_insert_fill_def vref_reserve_cases)
qed

lemma vref_put_spliced:
  assumes "vref_wf v" "i \<le> used v"
  shows "spliced i [x] v (vref_put i x v)"
proof (cases "i = used v")
  case True
  then show ?thesis using vref_append_spliced[OF assms(1)] by (simp add: vref_put_def)
next
  case False
  have one: "min (used v - i) (Suc 0) = Suc 0" using False assms(2) by simp
  have "vref_put i x v = vref_insert_forward i [x] v"
    using False one by (simp add: vref_put_def vref_insert_forward_def Let_def vref_reserve_cases)
  then show ?thesis using vref_insert_forward_spliced[OF assms] by simp
qed


lemma vref_clear_ok:
  "vref_wf v \<Longrightarrow> \<exists>m. vref_clear v = ok \<lparr>slots = m, used = 0\<rparr> \<and> length m = length (slots v)"
proof (induction v rule: vref_clear.induct)
  case (1 v)
  show ?case
  proof (cases "used v = 0")
    case True
    then show ?thesis by (cases v) (simp add: vref_clear.simps)
  next
    case False
    let ?v = "\<lparr>slots = (slots v)[used v - 1 := None], used = used v - 1\<rparr>"
    have p: "vref_pop_back v = ok ?v"
      using False "1.prems" by (simp add: vref_pop_back_def cell_write_def vref_wf_def)
    then show ?thesis
      using "1.IH"[OF False p] False "1.prems" by (simp add: vref_clear.simps[of v] vref_wf_def)
  qed
qed

lemma vref_append_all:
  assumes "vref_wf v"
  shows "spliced (used v) xs v (fold_outcome (\<lambda>x. vref_append (Some x)) xs v)"
  using assms
proof (induction xs arbitrary: v)
  case Nil
  then show ?case by (simp add: spliced_def vref_capacity_def vref_wf_def vref_elems_def)
next
  case (Cons x xs)
  show ?case
  proof (cases "used v = length (slots v)")
    case True
    then show ?thesis by (simp add: spliced_def vref_append_def vref_capacity_def)
  next
    case False
    then have lt: "used v < length (slots v)" using Cons.prems by (simp add: vref_wf_def)
    let ?v = "\<lparr>slots = (slots v)[used v := Some x], used = used v + 1\<rparr>"
    have a: "vref_append (Some x) v = ok ?v" using lt by (simp add: vref_append_def cell_write_def)
    have "spliced (used ?v) xs ?v (fold_outcome (\<lambda>x. vref_append (Some x)) xs ?v)"
      using lt by (intro Cons.IH) (simp add: vref_wf_def)
    then show ?thesis
      using lt by (auto simp: a spliced_def vref_capacity_def vref_elems_def take_Suc_conv_app_nth)
  qed
qed

lemma fold_outcome_const: "fold_outcome (\<lambda>_. f) xs s = fold_outcome (\<lambda>_. f) (replicate (length xs) x) s"
  by (induction xs arbitrary: s) (auto intro!: arg_cong2[of _ _ _ _ and_then])

lemma vref_append_replicate:
  "fold_outcome (\<lambda>_. vref_append (Some x)) ns = fold_outcome (\<lambda>x. vref_append (Some x)) (replicate (length ns) x)"
proof
  show "fold_outcome (\<lambda>_. vref_append (Some x)) ns v
      = fold_outcome (\<lambda>x. vref_append (Some x)) (replicate (length ns) x) v" for v
    by (induction ns arbitrary: v) (auto intro!: arg_cong2[of _ _ _ _ and_then])
qed

lemma vref_assign_range_elems:
  assumes "vref_wf v"
  shows "if length xs \<le> vref_capacity v
    then \<exists>v'. vref_assign_range xs v = ok v' \<and> vref_capacity v' = vref_capacity v \<and> vref_elems v' = map Some xs
    else vref_assign_range xs v = fail Length_error"
proof -
  obtain m where m: "vref_clear v = ok \<lparr>slots = m, used = 0\<rparr>" "length m = length (slots v)"
    using vref_clear_ok[OF assms] by blast
  let ?v = "\<lparr>slots = m, used = 0\<rparr>"
  have "spliced (used ?v) xs ?v (fold_outcome (\<lambda>x. vref_append (Some x)) xs ?v)"
    by (rule vref_append_all) (simp add: vref_wf_def)
  then show ?thesis
    using m by (auto simp: vref_assign_range_def spliced_def vref_capacity_def vref_elems_def split: if_splits)
qed

lemma vref_assign_elems:
  assumes "vref_wf v"
  shows "if n \<le> vref_capacity v
    then \<exists>v'. vref_assign n x v = ok v' \<and> vref_capacity v' = vref_capacity v \<and> vref_elems v' = replicate n (Some x)
    else vref_assign n x v = fail Length_error"
proof -
  have "vref_assign n x v = (if n \<le> vref_capacity v then vref_assign_range (replicate n x) v else fail Length_error)"
    by (simp add: vref_assign_def vref_reserve_cases vref_assign_range_def vref_capacity_def
        vref_append_replicate)
  then show ?thesis using vref_assign_range_elems[OF assms, of "replicate n x"] by auto
qed

lemma vref_pop_all:
  "vref_wf v \<Longrightarrow> k \<le> used v \<Longrightarrow>
   \<exists>m. fold_outcome (\<lambda>_. vref_pop_back) (replicate k ()) v = ok \<lparr>slots = m, used = used v - k\<rparr> \<and>
     length m = length (slots v) \<and> take (used v - k) m = take (used v - k) (slots v)"
proof (induction k arbitrary: v)
  case 0
  then show ?case by (cases v) auto
next
  case (Suc k)
  let ?v = "\<lparr>slots = (slots v)[used v - 1 := None], used = used v - 1\<rparr>"
  have p: "vref_pop_back v = ok ?v"
    using Suc.prems by (simp add: vref_pop_back_def cell_write_def vref_wf_def)
  show ?case
    using Suc.IH[of ?v] Suc.prems by (auto simp: p vref_wf_def)
qed

lemma vref_resize_elems:
  assumes "vref_wf v"
  shows "if n \<le> vref_capacity v
    then \<exists>v'. vref_resize d n v = ok v' \<and> vref_capacity v' = vref_capacity v \<and>
           vref_elems v' = take n (vref_elems v) @ replicate (n - used v) (Some d)
    else vref_resize d n v = fail Length_error"
proof (cases "n \<le> length (slots v)")
  case True
  have min: "used v - (used v - n) = min n (used v)" by simp
  obtain m where m: "fold_outcome (\<lambda>_. vref_pop_back) [n..<used v] v = ok \<lparr>slots = m, used = min n (used v)\<rparr>"
    "length m = length (slots v)" "take (min n (used v)) m = take (min n (used v)) (slots v)"
    using vref_pop_all[OF assms, of "used v - n"] min
    by (auto simp: fold_outcome_const[where x = "()" and xs = "[n..<used v]"])
  let ?v = "\<lparr>slots = m, used = min n (used v)\<rparr>"
  have "spliced (used ?v) (replicate (n - used v) d) ?v
      (fold_outcome (\<lambda>x. vref_append (Some x)) (replicate (n - used v) d) ?v)"
    using True m(2) assms by (intro vref_append_all) (simp add: vref_wf_def)
  then show ?thesis
    using True m assms
    by (auto simp: vref_resize_def vref_reserve_cases vref_append_replicate spliced_def vref_capacity_def
        vref_elems_def vref_wf_def min_def split: if_splits)
next
  case False
  then show ?thesis by (simp add: vref_resize_def vref_reserve_cases vref_capacity_def)
qed


section \<open>Properties of vector\_ref\<close>

text \<open>
  the insertions of \<open>vector_ref\<close> at a valid position splice the new elements into the
  sequence the view denotes, in order and without touching the capacity, and raise
  \<open>length_error\<close> exactly when the result does not fit: for one element, for \<open>n\<close> copies
  and for a range given by forward iterators.
\<close>

theorem vref_insert_splices:
  assumes "vref_wf v" "i \<le> used v"
  shows "spliced i [x] v (vref_put i x v) \<and>
    spliced i (replicate n x) v (vref_insert_fill i n x v) \<and>
    spliced i xs v (vref_insert_forward i xs v)"
  using assms by (simp add: vref_put_spliced vref_insert_fill_spliced vref_insert_forward_spliced)

lemma vref_insert_splices_witness:
  "spliced 1 [7] \<lparr>slots = [Some 1, Some 2, None, None, None], used = 2\<rparr>
     (vref_put 1 (7::int) \<lparr>slots = [Some 1, Some 2, None, None, None], used = 2\<rparr>) \<and>
   spliced 1 (replicate 2 7) \<lparr>slots = [Some 1, Some 2, None, None, None], used = 2\<rparr>
     (vref_insert_fill 1 2 (7::int) \<lparr>slots = [Some 1, Some 2, None, None, None], used = 2\<rparr>) \<and>
   spliced 1 [7, 8, 9] \<lparr>slots = [Some 1, Some 2, None, None, None], used = 2\<rparr>
     (vref_insert_forward 1 [7, 8, 9::int] \<lparr>slots = [Some 1, Some 2, None, None, None], used = 2\<rparr>)"
  by (rule vref_insert_splices) (simp_all add: vref_wf_def)

text \<open>
  \<open>vector_ref::insert\<close> of a range given by input iterators inserts every element at the same
  position, so the range arrives in reverse order.
\<close>

theorem vref_insert_input_reverses:
  assumes "vref_wf v" "i \<le> used v" "used v + length xs \<le> vref_capacity v"
  shows "\<exists>v'. vref_insert_input i xs v = ok v' \<and>
    vref_elems v' = take i (vref_elems v) @ map Some (rev xs) @ drop i (vref_elems v)"
  using assms
proof (induction xs arbitrary: v)
  case Nil
  then show ?case by (simp add: vref_insert_input_def)
next
  case (Cons x xs)
  obtain v1 where v1: "vref_put i x v = ok v1" "vref_wf v1" "vref_capacity v1 = vref_capacity v"
      "vref_elems v1 = take i (vref_elems v) @ [Some x] @ drop i (vref_elems v)"
    using vref_put_spliced[OF Cons.prems(1,2), of x] Cons.prems(3) by (auto simp: spliced_def)
  have "length (vref_elems v1) = used v1" "length (vref_elems v) = used v"
    using v1(2) Cons.prems(1) by (auto simp: vref_elems_def vref_wf_def)
  then have "used v1 = Suc (used v)" using v1(4) Cons.prems(2) by simp
  moreover have "take i (vref_elems v1) = take i (vref_elems v)"
    "drop i (vref_elems v1) = Some x # drop i (vref_elems v)"
    using Cons.prems(1,2) v1(4) by (auto simp: vref_elems_def vref_wf_def)
  ultimately show ?case
    using Cons.IH[of v1] Cons.prems v1 by (auto simp: vref_insert_input_def)
qed

lemma vref_insert_input_reverses_witness:
  "\<exists>v'. vref_insert_input 1 [8, 9::int] \<lparr>slots = [Some 1, Some 2, None, None], used = 2\<rparr> = ok v' \<and>
    vref_elems v' = [Some 1, Some 9, Some 8, Some 2]"
  using vref_insert_input_reverses[of "\<lparr>slots = [Some 1, Some 2, None, None], used = 2\<rparr>" 1 "[8, 9]"]
  by (simp add: vref_wf_def vref_capacity_def vref_elems_def)

section \<open>fixed\_vector\<close>

record 'a fvec =
  fdata :: "'a cells"
  flen :: nat

definition fvec_wf :: "nat \<Rightarrow> 'a fvec \<Rightarrow> bool" where
  "fvec_wf cap f \<longleftrightarrow> length (fdata f) = cap \<and> flen f \<le> cap"

definition fvec_elems :: "'a fvec \<Rightarrow> 'a option list" where
  "fvec_elems f = take (flen f) (fdata f)"

abbreviation fvec_capacity :: "'a fvec \<Rightarrow> nat" where
  "fvec_capacity f \<equiv> length (fdata f)"

definition fvec_empty :: "nat \<Rightarrow> 'a fvec" where
  "fvec_empty cap = \<lparr>fdata = replicate cap None, flen = 0\<rparr>"

text \<open>\<open>std::copy\<close> and \<open>std::move\<close> require that the target does not begin inside the source
  range; outside that contract the call is undefined.\<close>

definition std_copy :: "nat \<Rightarrow> nat \<Rightarrow> nat \<Rightarrow> 'a cells \<Rightarrow> 'a cells outcome" where
  "std_copy first stop dst m =
     (if first \<le> dst \<and> dst < stop then fail Undefined else copy_fwd first stop dst m)"

definition fvec_position :: "nat \<Rightarrow> 'a fvec \<Rightarrow> nat outcome" where
  "fvec_position pos f = require (pos \<le> flen f) (ok pos)"

definition fvec_assign :: "nat \<Rightarrow> 'a \<Rightarrow> 'a fvec \<Rightarrow> 'a fvec outcome" where
  "fvec_assign n x f =
     require (n \<le> fvec_capacity f)
       (and_then (write_run 0 (replicate n (Some x)) (fdata f)) (\<lambda>m. ok \<lparr>fdata = m, flen = n\<rparr>))"

definition fvec_assign_range :: "'a list \<Rightarrow> 'a fvec \<Rightarrow> 'a fvec outcome" where
  "fvec_assign_range xs f =
     require (length xs \<le> fvec_capacity f)
       (and_then (write_run 0 (map Some xs) (fdata f)) (\<lambda>m. ok \<lparr>fdata = m, flen = length xs\<rparr>))"

definition fvec_insert :: "nat \<Rightarrow> 'a \<Rightarrow> 'a fvec \<Rightarrow> (nat \<times> 'a fvec) outcome" where
  "fvec_insert pos x f =
     require (flen f < fvec_capacity f)
       (and_then (fvec_position pos f) (\<lambda>d.
        and_then (std_copy d (flen f) (d + 1) (fdata f)) (\<lambda>m.
        and_then (cell_write d (Some x) m) (\<lambda>m. ok (d, \<lparr>fdata = m, flen = flen f + 1\<rparr>)))))"

definition fvec_insert_fill :: "nat \<Rightarrow> nat \<Rightarrow> 'a \<Rightarrow> 'a fvec \<Rightarrow> (nat \<times> 'a fvec) outcome" where
  "fvec_insert_fill pos n x f =
     require (flen f + n \<le> fvec_capacity f)
       (and_then (fvec_position pos f) (\<lambda>d.
        if n = 0 then ok (d, f)
        else and_then (std_copy d (flen f) (d + n) (fdata f)) (\<lambda>m.
             and_then (write_run d (replicate n (Some x)) m) (\<lambda>m.
             ok (d, \<lparr>fdata = m, flen = flen f + n\<rparr>)))))"

definition fvec_insert_range :: "nat \<Rightarrow> 'a list \<Rightarrow> 'a fvec \<Rightarrow> (nat \<times> 'a fvec) outcome" where
  "fvec_insert_range pos xs f =
     require (flen f + length xs \<le> fvec_capacity f)
       (and_then (fvec_position pos f) (\<lambda>d.
        if xs = [] then ok (d, f)
        else and_then (std_copy d (flen f) (d + length xs) (fdata f)) (\<lambda>m.
             and_then (write_run d (map Some xs) m) (\<lambda>m.
             ok (d, \<lparr>fdata = m, flen = flen f + length xs\<rparr>)))))"

definition fvec_erase :: "nat \<Rightarrow> 'a fvec \<Rightarrow> (nat \<times> 'a fvec) outcome" where
  "fvec_erase pos f =
     (if flen f = 0 then ok (flen f, f)
      else and_then (fvec_position pos f) (\<lambda>d.
           and_then (if d + 1 \<noteq> flen f then std_copy (d + 1) (flen f) d (fdata f) else ok (fdata f)) (\<lambda>m.
           ok (d, \<lparr>fdata = m, flen = flen f - 1\<rparr>))))"

definition fvec_erase_range :: "nat \<Rightarrow> nat \<Rightarrow> 'a fvec \<Rightarrow> (nat \<times> 'a fvec) outcome" where
  "fvec_erase_range first stop f =
     (if flen f = 0 then ok (flen f, f)
      else if first = stop then ok (0, f)
      else and_then (fvec_position first f) (\<lambda>a.
           and_then (fvec_position stop f) (\<lambda>b.
           and_then (if stop \<noteq> flen f then std_copy b (flen f) a (fdata f) else ok (fdata f)) (\<lambda>m.
           ok (a, \<lparr>fdata = m, flen = flen f - (stop - first)\<rparr>)))))"

definition fvec_push_back :: "'a \<Rightarrow> 'a fvec \<Rightarrow> 'a fvec outcome" where
  "fvec_push_back x f =
     require (flen f < fvec_capacity f)
       (and_then (cell_write (flen f) (Some x) (fdata f)) (\<lambda>m. ok \<lparr>fdata = m, flen = flen f + 1\<rparr>))"

definition fvec_pop_back :: "'a fvec \<Rightarrow> 'a fvec" where
  "fvec_pop_back f = (if flen f = 0 then f else f\<lparr>flen := flen f - 1\<rparr>)"

definition fvec_resize :: "nat \<Rightarrow> 'a fvec \<Rightarrow> 'a fvec outcome" where
  "fvec_resize n f = require (n \<le> fvec_capacity f) (ok (f\<lparr>flen := n\<rparr>))"

definition fvec_resize_fill :: "nat \<Rightarrow> 'a \<Rightarrow> 'a fvec \<Rightarrow> 'a fvec outcome" where
  "fvec_resize_fill n x f =
     require (n \<le> fvec_capacity f)
       (and_then (write_run (flen f) (replicate (n - flen f) (Some x)) (fdata f)) (\<lambda>m.
        ok \<lparr>fdata = m, flen = n\<rparr>))"

text \<open>\<open>std::equal\<close> over the left range, reading as many cells of the right array; comparing
  an uninitialised cell is undefined.\<close>

fun cells_equal :: "'a cells \<Rightarrow> 'a cells \<Rightarrow> bool outcome" where
  "cells_equal [] ys = ok True"
| "cells_equal (Some x # xs) (Some y # ys) = (if x = y then cells_equal xs ys else ok False)"
| "cells_equal _ _ = fail Undefined"

definition fvec_equal :: "'a fvec \<Rightarrow> 'a fvec \<Rightarrow> bool outcome" where
  "fvec_equal f g = cells_equal (fvec_elems f) (fdata g)"

lemmas fvec_defs = fvec_wf_def fvec_elems_def fvec_position_def std_copy_def


lemma fvec_insert_is_range: "fvec_insert pos x f = fvec_insert_range pos [x] f"
  by (simp add: fvec_insert_def fvec_insert_range_def require_def)

lemma fvec_insert_fill_is_range: "fvec_insert_fill pos n x f = fvec_insert_range pos (replicate n x) f"
  by (cases "n = 0") (simp_all add: fvec_insert_fill_def fvec_insert_range_def)

text \<open>
  an insertion into a \<open>fixed_vector\<close> splices the new elements in when at least as many
  elements are inserted as follow the position; otherwise the elements behind the position are
  shifted with a forward \<open>std::copy\<close> / \<open>std::move\<close> onto an overlapping range, which is
  undefined.
\<close>

theorem fvec_insert_defined_iff:
  assumes "fvec_wf cap f" "pos \<le> flen f" "flen f + length xs \<le> cap"
  shows "if xs \<noteq> [] \<and> pos + length xs < flen f then fvec_insert_range pos xs f = fail Undefined
    else \<exists>f'. fvec_insert_range pos xs f = ok (pos, f') \<and> fvec_wf cap f' \<and>
           fvec_elems f' = take pos (fvec_elems f) @ map Some xs @ drop pos (fvec_elems f)"
proof (cases "xs = [] \<or> pos + length xs < flen f")
  case True
  have "take (flen f) (fdata f) = take pos (fdata f) @ drop pos (take (flen f) (fdata f))"
    using assms(2) append_take_drop_id[of pos "take (flen f) (fdata f)"] by (simp add: min_def)
  then show ?thesis using True assms by (auto simp: fvec_insert_range_def fvec_defs min_def)
next
  case False
  define n where "n = length xs"
  let ?m = "moved pos (flen f - pos) (pos + n) (fdata f)"
  have c: "copy_fwd pos (flen f) (pos + n) (fdata f) = ok ?m"
    using False assms by (intro copy_fwd_moved) (auto simp: fvec_wf_def n_def)
  have w: "write_run pos (map Some xs) ?m = ok (take pos ?m @ map Some xs @ drop (pos + n) ?m)"
    using assms by (subst write_run_blit) (auto simp: fvec_wf_def n_def)
  have g: "take (flen f + n) (take pos ?m @ map Some xs @ drop (pos + n) ?m)
      = take pos (fdata f) @ map Some xs @ drop pos (take (flen f) (fdata f))"
    using assms by (intro take_moved_gap) (auto simp: fvec_wf_def n_def)
  have "fvec_insert_range pos xs f =
      ok (pos, \<lparr>fdata = take pos ?m @ map Some xs @ drop (pos + n) ?m, flen = flen f + n\<rparr>)"
    using False assms c w by (simp add: fvec_insert_range_def fvec_defs n_def)
  then show ?thesis
    using g False assms by (auto simp: fvec_defs n_def min_def)
qed

lemma fvec_insert_defined_iff_witness:
  "fvec_insert_range 0 [9::int] \<lparr>fdata = [Some 1, Some 2, None], flen = 2\<rparr> = fail Undefined"
  using fvec_insert_defined_iff[of 3 "\<lparr>fdata = [Some 1, Some 2, None], flen = 2\<rparr>" 0 "[9]"]
  by (simp add: fvec_wf_def)

lemma fvec_erase_is_range:
  "pos < flen f \<Longrightarrow> fvec_erase pos f = fvec_erase_range pos (pos + 1) f"
  by (simp add: fvec_erase_def fvec_erase_range_def fvec_position_def)

text \<open>
  erasing a non-empty range of a \<open>fixed_vector\<close> removes exactly the elements of the range
  and returns its position.
\<close>

theorem fvec_erase_range_removes:
  assumes "fvec_wf cap f" "first < stop" "stop \<le> flen f"
  shows "\<exists>f'. fvec_erase_range first stop f = ok (first, f') \<and> fvec_wf cap f' \<and>
    fvec_elems f' = take first (fvec_elems f) @ drop stop (fvec_elems f)"
proof -
  let ?m = "if stop \<noteq> flen f then moved stop (flen f - stop) first (fdata f) else fdata f"
  have c: "stop \<noteq> flen f \<Longrightarrow> copy_fwd stop (flen f) first (fdata f) = ok ?m"
    using assms by (subst copy_fwd_moved) (auto simp: fvec_wf_def)
  have "fvec_erase_range first stop f = ok (first, \<lparr>fdata = ?m, flen = flen f - (stop - first)\<rparr>)"
    using assms c by (auto simp: fvec_erase_range_def fvec_defs)
  moreover have "take (flen f - (stop - first)) ?m = take first (fdata f) @ drop stop (take (flen f) (fdata f))"
  proof (cases "stop = flen f")
    case True
    then show ?thesis using assms by simp
  next
    case False
    then show ?thesis using assms take_moved_close[of first stop "flen f" "fdata f"] by (simp add: fvec_wf_def)
  qed
  ultimately show ?thesis
    using assms by (auto simp: fvec_wf_def fvec_elems_def min_def)
qed

lemma fvec_erase_range_removes_witness:
  "\<exists>f'. fvec_erase_range 1 2 \<lparr>fdata = [Some 1, Some 2, Some (3::int)], flen = 3\<rparr> = ok (1, f') \<and>
    fvec_wf 3 f' \<and> fvec_elems f' = [Some 1, Some 3]"
  using fvec_erase_range_removes[of 3 "\<lparr>fdata = [Some 1, Some 2, Some 3], flen = 3\<rparr>" 1 2]
  by (simp add: fvec_wf_def fvec_elems_def)

lemma cells_equal_prefix: "cells_equal (map Some xs) (map Some (xs @ zs) @ ms) = ok True"
  by (induction xs) auto

text \<open>
  \<open>operator==\<close> of \<open>fixed_vector\<close> compares as many elements as the left operand has, so it
  holds whenever the left elements are a prefix of the right ones, whatever the sizes.
\<close>

theorem fvec_equal_prefix:
  assumes "fvec_elems f = map Some xs" "fvec_elems g = map Some (xs @ zs)"
  shows "fvec_equal f g = ok True"
proof -
  have "fdata g = map Some (xs @ zs) @ drop (flen g) (fdata g)"
    using assms(2) append_take_drop_id[of "flen g" "fdata g"] by (simp add: fvec_elems_def)
  then show ?thesis using assms(1) cells_equal_prefix unfolding fvec_equal_def by metis
qed

lemma fvec_equal_prefix_witness:
  "fvec_equal \<lparr>fdata = [Some (1::int), None], flen = 1\<rparr> \<lparr>fdata = [Some 1, Some 2], flen = 2\<rparr> = ok True"
  using fvec_equal_prefix[of "\<lparr>fdata = [Some (1::int), None], flen = 1\<rparr>" "[1]"
      "\<lparr>fdata = [Some 1, Some 2], flen = 2\<rparr>" "[2]"]
  by (simp add: fvec_elems_def)

end
