(* ===== verification/Row_Vector.thy ===== *)
theory Row_Vector
  imports Raw_Memory Packed_Words
begin

text \<open>
  \<open>row_vector_u\<close> (row\_vector.h), the growable row of the ragged and sparse storage classes: a heap
  array \<open>datap\<close> of \<open>capacity\<close> elements of which the first \<open>count\<close> are in use. Both counters are
  32-bit, so they are words here; an iterator is its distance from \<open>datap\<close>.
\<close>

record 'a row =
  row_count :: u32
  row_capacity :: u32
  row_data :: "'a cells"

definition row_wf :: "'a row \<Rightarrow> bool" where
  "row_wf r \<longleftrightarrow> row_count r \<le> row_capacity r \<and> length (row_data r) = unat (row_capacity r)"

definition row_elems :: "'a row \<Rightarrow> 'a option list" where
  "row_elems r = take (unat (row_count r)) (row_data r)"

definition row_new :: "'a row" where
  "row_new = \<lparr>row_count = 0, row_capacity = 0, row_data = []\<rparr>"

definition row_init :: "u32 \<Rightarrow> 'a row" where
  "row_init n = \<lparr>row_count = n, row_capacity = n, row_data = replicate (unat n) None\<rparr>"

definition row_clear :: "'a row \<Rightarrow> 'a row" where
  "row_clear r = \<lparr>row_count = 0, row_capacity = 0, row_data = []\<rparr>"

definition row_index :: "u32 \<Rightarrow> 'a row \<Rightarrow> 'a option outcome" where
  "row_index i r = require (i < row_count r) (ok (row_data r ! unat i))"

definition row_update :: "u32 \<Rightarrow> 'a \<Rightarrow> 'a row \<Rightarrow> 'a row outcome" where
  "row_update i x r = require (i < row_count r)
     (and_then (cell_write (unat i) (Some x) (row_data r)) (\<lambda>m. ok (r\<lparr>row_data := m\<rparr>)))"

definition row_reserve :: "u32 \<Rightarrow> 'a row \<Rightarrow> 'a row" where
  "row_reserve new_cap r =
     (if new_cap \<le> row_capacity r then r
      else r\<lparr>row_capacity := new_cap,
             row_data := take (unat (row_count r)) (row_data r) @
               replicate (unat new_cap - unat (row_count r)) None\<rparr>)"

definition row_resize :: "u32 \<Rightarrow> 'a row \<Rightarrow> 'a row" where
  "row_resize n r = (row_reserve n r)\<lparr>row_count := n\<rparr>"

definition row_assign :: "'a option list \<Rightarrow> 'a row \<Rightarrow> 'a row outcome" where
  "row_assign xs r =
     (let r = row_resize (of_nat (length xs)) r in
      and_then (write_run 0 xs (row_data r)) (\<lambda>m. ok (r\<lparr>row_data := m\<rparr>)))"

definition row_copy :: "'a row \<Rightarrow> 'a row outcome" where
  "row_copy rhs = row_assign (row_elems rhs) row_new"

definition row_grow :: "'a row \<Rightarrow> 'a row" where
  "row_grow r = (if row_count r = row_capacity r then row_reserve (row_count r + 5) r else r)"

definition row_push_back :: "'a \<Rightarrow> 'a row \<Rightarrow> 'a row outcome" where
  "row_push_back x r =
     (let r = row_grow r in
      and_then (cell_write (unat (row_count r)) (Some x) (row_data r)) (\<lambda>m.
      ok (r\<lparr>row_data := m, row_count := row_count r + 1\<rparr>)))"

text \<open>\<open>push_back(v[j])\<close>: the argument is a reference into the row, which a reallocation frees
  before it is read.\<close>

definition row_push_back_own :: "nat \<Rightarrow> 'a row \<Rightarrow> 'a row outcome" where
  "row_push_back_own j r =
     (if row_count r = row_capacity r \<and> row_count r + 5 > row_capacity r then fail Undefined
      else and_then (cell_write (unat (row_count r)) (row_data r ! j) (row_data r)) (\<lambda>m.
           ok (r\<lparr>row_data := m, row_count := row_count r + 1\<rparr>)))"

definition row_erase :: "nat \<Rightarrow> 'a row \<Rightarrow> 'a row outcome" where
  "row_erase idx r =
     require (idx < unat (row_count r))
       (and_then (copy_fwd (idx + 1) (unat (row_count r)) idx (row_data r)) (\<lambda>m.
        ok (r\<lparr>row_data := m, row_count := row_count r - 1\<rparr>)))"

definition row_insert :: "nat \<Rightarrow> 'a \<Rightarrow> 'a row \<Rightarrow> (nat \<times> 'a row) outcome" where
  "row_insert idx x r =
     require (idx \<le> unat (row_count r))
       (let r = row_grow r; e = unat (row_count r) in
        and_then (copy_bwd idx e (e + 1) (row_data r)) (\<lambda>m.
        and_then (cell_write idx (Some x) m) (\<lambda>m.
        ok (idx, r\<lparr>row_data := m, row_count := row_count r + 1\<rparr>))))"

section \<open>Capacity\<close>

text \<open>Growing by five elements is the only arithmetic that can wrap: \<open>row_room\<close> is how many
  elements fit before it does.\<close>

definition row_room :: "'a row \<Rightarrow> nat" where
  "row_room r = 2 ^ 32 - 5 - unat (row_count r)"

lemma unat_u32_less: "unat (w::u32) < 2 ^ 32"
  using unsigned_less[of w] by simp

lemma unat_add_u32: "unat (a::u32) + k < 2 ^ 32 \<Longrightarrow> unat (a + of_nat k) = unat a + k"
  by (simp add: unat_word_ariths unat_of_nat)

lemma unat_add5: "unat (a::u32) + 5 < 2 ^ 32 \<Longrightarrow> unat (a + 5) = unat a + 5"
  using unat_add_u32[of a 5] by simp

lemma unat_add1: "unat (a::u32) + 1 < 2 ^ 32 \<Longrightarrow> unat (a + 1) = unat a + 1"
  using unat_add_u32[of a 1] by simp

lemma unat_sub1: "0 < unat (a::u32) \<Longrightarrow> unat (a - 1) = unat a - 1"
  by (metis One_nat_def measure_unat unat_gt_0 unat_minus_one)

lemma row_wf_new [simp]: "row_wf row_new"
  by (simp add: row_wf_def row_new_def)

lemma row_reserve_wf: "row_wf r \<Longrightarrow> row_wf (row_reserve n r)"
  by (auto simp: row_wf_def row_reserve_def word_le_nat_alt min_def)

lemma row_reserve_elems: "row_wf r \<Longrightarrow> row_elems (row_reserve n r) = row_elems r"
  by (auto simp: row_wf_def row_reserve_def row_elems_def word_le_nat_alt)

lemma row_reserve_count [simp]: "row_count (row_reserve n r) = row_count r"
  by (simp add: row_reserve_def)

lemma row_grow_props:
  assumes "row_wf r" "0 < row_room r"
  shows "row_wf (row_grow r) \<and> row_elems (row_grow r) = row_elems r \<and>
    row_count (row_grow r) = row_count r \<and> unat (row_count r) < length (row_data (row_grow r))"
proof (cases "row_count r = row_capacity r")
  case True
  have "unat (row_count r + 5) = unat (row_count r) + 5"
    using assms(2) by (intro unat_add5) (simp add: row_room_def)
  then have "unat (row_count r) < length (row_data (row_grow r))"
    using True assms(1) by (auto simp: row_grow_def row_reserve_def row_wf_def word_le_nat_alt)
  then show ?thesis
    using True row_reserve_wf[OF assms(1)] row_reserve_elems[OF assms(1)] by (auto simp: row_grow_def)
next
  case False
  then have "row_count r < row_capacity r" using assms(1) by (simp add: row_wf_def order_less_le)
  then show ?thesis using assms(1) False by (simp add: row_grow_def row_wf_def word_less_nat_alt)
qed


section \<open>Operations\<close>

lemma row_push_back_elems:
  assumes "row_wf r" "0 < row_room r"
  shows "\<exists>r'. row_push_back x r = ok r' \<and> row_wf r' \<and> row_elems r' = row_elems r @ [Some x] \<and>
    row_count r' = row_count r + 1"
proof -
  define g where "g = row_grow r"
  have g: "row_wf g" "row_elems g = row_elems r" "row_count g = row_count r"
    "unat (row_count r) < length (row_data g)"
    using row_grow_props[OF assms] by (auto simp: g_def)
  have u: "unat (row_count r + 1) = unat (row_count r) + 1"
    using assms(2) by (intro unat_add1) (simp add: row_room_def)
  show ?thesis
    using g u by (auto simp: row_push_back_def g_def[symmetric] Let_def cell_write_def row_wf_def row_elems_def
        word_le_nat_alt take_Suc_conv_app_nth)
qed

lemma row_insert_elems:
  assumes "row_wf r" "0 < row_room r" "idx \<le> unat (row_count r)"
  shows "\<exists>r'. row_insert idx x r = ok (idx, r') \<and> row_wf r' \<and>
    row_elems r' = take idx (row_elems r) @ [Some x] @ drop idx (row_elems r) \<and> row_count r' = row_count r + 1"
proof -
  define g where "g = row_grow r"
  define e where "e = unat (row_count r)"
  have g: "row_wf g" "row_elems g = row_elems r" "row_count g = row_count r" "e < length (row_data g)"
    using row_grow_props[OF assms(1,2)] by (auto simp: g_def e_def)
  have u: "unat (row_count r + 1) = e + 1"
    using assms(2) unfolding e_def by (intro unat_add1) (simp add: row_room_def)
  let ?m = "moved idx (e - idx) (idx + 1) (row_data g)"
  have d: "e + 1 - (e - idx) = idx + 1" using assms(3) by (simp add: e_def)
  have b: "copy_bwd idx e (e + 1) (row_data g) = ok ?m"
    using copy_bwd_moved[of idx e "e + 1" "row_data g"] assms(3) g(4) d by (simp add: e_def)
  have w: "cell_write idx (Some x) ?m = ok (?m[idx := Some x])"
    using assms(3) g(4) by (simp add: cell_write_def e_def)
  have "?m[idx := Some x] = take idx ?m @ [Some x] @ drop (idx + 1) ?m"
    using assms(3) g(4) by (simp add: upd_conv_take_nth_drop e_def)
  then have t: "take (e + 1) (?m[idx := Some x]) = take idx (row_data g) @ [Some x] @ drop idx (take e (row_data g))"
    using take_moved_gap[of idx e 1 "row_data g" "[Some x]"] assms(3) g(4) by (simp add: e_def)
  have r: "row_insert idx x r = ok (idx, g\<lparr>row_data := ?m[idx := Some x], row_count := row_count r + 1\<rparr>)"
    using assms(3) b w g(3) by (simp add: row_insert_def g_def[symmetric] Let_def e_def)
  have "row_wf (g\<lparr>row_data := ?m[idx := Some x], row_count := row_count r + 1\<rparr>)"
    using g u by (simp add: row_wf_def word_le_nat_alt)
  moreover have h: "take idx (row_data g) = take idx (take (unat (row_count r)) (row_data r))"
    using g(2,3) assms(3) unfolding row_elems_def by (metis min.absorb1 take_take)
  moreover have "row_elems (g\<lparr>row_data := ?m[idx := Some x], row_count := row_count r + 1\<rparr>)
      = take idx (row_elems r) @ [Some x] @ drop idx (row_elems r)"
    using t u h g(2,3) by (simp add: row_elems_def e_def min_def)
  ultimately show ?thesis unfolding r by auto
qed

lemma row_erase_elems:
  assumes "row_wf r" "idx < unat (row_count r)"
  shows "\<exists>r'. row_erase idx r = ok r' \<and> row_wf r' \<and>
    row_elems r' = take idx (row_elems r) @ drop (idx + 1) (row_elems r) \<and> row_count r' = row_count r - 1"
proof -
  define e where "e = unat (row_count r)"
  have l: "e \<le> length (row_data r)" "idx < e"
    using assms by (auto simp: row_wf_def word_le_nat_alt e_def)
  let ?m = "moved (idx + 1) (e - (idx + 1)) idx (row_data r)"
  have c: "copy_fwd (idx + 1) e idx (row_data r) = ok ?m"
    using l by (intro copy_fwd_moved) auto
  have u: "unat (row_count r - 1) = e - 1"
    using l(2) unfolding e_def by (intro unat_sub1) simp
  have r: "row_erase idx r = ok (r\<lparr>row_data := ?m, row_count := row_count r - 1\<rparr>)"
    using assms(2) c by (simp add: row_erase_def e_def)
  have "row_wf (r\<lparr>row_data := ?m, row_count := row_count r - 1\<rparr>)"
    using assms(1) u l by (simp add: row_wf_def word_le_nat_alt)
  moreover have "row_elems (r\<lparr>row_data := ?m, row_count := row_count r - 1\<rparr>)
      = take idx (row_elems r) @ drop (idx + 1) (row_elems r)"
    using take_moved_close[of idx "idx + 1" e "row_data r"] l u by (simp add: row_elems_def e_def min_def)
  ultimately show ?thesis unfolding r by auto
qed

lemma row_resize_elems:
  assumes "row_wf r"
  shows "row_wf (row_resize n r) \<and> row_count (row_resize n r) = n \<and>
    take (unat (row_count r)) (row_elems (row_resize n r)) = take (unat n) (row_elems r)"
  using assms
  by (auto simp: row_resize_def row_reserve_def row_wf_def row_elems_def word_le_nat_alt min_def)

lemma row_assign_elems:
  assumes "row_wf r" "length xs < 2 ^ 32"
  shows "\<exists>r'. row_assign xs r = ok r' \<and> row_wf r' \<and> row_elems r' = xs"
proof -
  have u: "unat (of_nat (length xs) :: u32) = length xs"
    using assms(2) by (simp add: unat_of_nat)
  let ?r = "row_resize (of_nat (length xs)) r"
  have w: "row_wf ?r" "row_count ?r = of_nat (length xs)"
    using row_resize_elems[OF assms(1), of "of_nat (length xs)"] by auto
  then have l: "length xs \<le> length (row_data ?r)" using u by (simp add: row_wf_def word_le_nat_alt)
  have "row_assign xs r = ok (?r\<lparr>row_data := xs @ drop (length xs) (row_data ?r)\<rparr>)"
    using l by (simp add: row_assign_def Let_def write_run_blit)
  then show ?thesis using w l u by (auto simp: row_wf_def row_elems_def)
qed

text \<open>
  C25: on a row with room for the five-element growth step, \<open>push_back\<close>, \<open>insert\<close> and
  \<open>erase\<close> act on the sequence of the row as on a list, and keep count, capacity and
  allocation consistent.
\<close>

theorem row_operations_refine_list:
  assumes "row_wf r" "0 < row_room r" "idx \<le> unat (row_count r)"
  shows "(\<exists>r'. row_push_back x r = ok r' \<and> row_wf r' \<and> row_elems r' = row_elems r @ [Some x]) \<and>
    (\<exists>r'. row_insert idx x r = ok (idx, r') \<and> row_wf r' \<and>
       row_elems r' = take idx (row_elems r) @ [Some x] @ drop idx (row_elems r)) \<and>
    (if idx < unat (row_count r)
     then \<exists>r'. row_erase idx r = ok r' \<and> row_wf r' \<and>
            row_elems r' = take idx (row_elems r) @ drop (idx + 1) (row_elems r)
     else row_erase idx r = fail Assert_failed)"
  using row_push_back_elems[OF assms(1,2)] row_insert_elems[OF assms] row_erase_elems[OF assms(1), of idx]
  by (auto simp: row_erase_def)

lemma row_init_2:
  "row_wf (row_init 2)" "row_elems (row_init 2 :: int row) = [None, None]" "0 < row_room (row_init 2)"
  "unat (row_count (row_init 2)) = 2"
proof -
  show u: "unat (row_count (row_init 2)) = 2" by (simp add: row_init_def)
  show "row_wf (row_init 2)" by (simp add: row_wf_def row_init_def)
  show "row_elems (row_init 2 :: int row) = [None, None]"
    by (simp add: row_elems_def row_init_def numeral_2_eq_2 [symmetric]) (simp add: numeral_2_eq_2)
  show "0 < row_room (row_init 2)" unfolding row_room_def u by simp
qed

lemma row_operations_refine_list_witness:
  "(\<exists>r'. row_push_back (7::int) (row_init 2) = ok r' \<and> row_wf r' \<and> row_elems r' = [None, None, Some 7]) \<and>
   (\<exists>r'. row_insert 1 (7::int) (row_init 2) = ok (1, r') \<and> row_wf r' \<and> row_elems r' = [None, Some 7, None])"
  using row_operations_refine_list[of "row_init 2" 1 "7::int"] by (simp add: row_init_2)

end
