(* ===== verification/Sparse_Data.thy ===== *)
theory Sparse_Data
  imports Row_Vector
begin

text \<open>
  Ragged and sparse fields: the handle of sparse\_data\_handle.h (one row per index of the index
  space), the ragged accessor and mutator (ragged\_accessor.h, ragged\_mutator.h) and the sparse
  ones built on them (sparse\_accessor.h, sparse\_mutator.h), which keep each row sorted by entry
  and search it with \<open>std::lower_bound\<close>. A reference returned by an operator is the position of
  the element; an iterator is its distance from the beginning of the row.
\<close>

section \<open>The handle\<close>

record 'a handle =
  num_exclusive :: nat
  num_shared :: nat
  num_ghost :: nat
  num_total :: nat
  max_entries_per_index :: nat
  handle_rows :: "'a row list option"

definition handle_make :: "nat \<Rightarrow> 'a handle" where
  "handle_make max_epi = \<lparr>num_exclusive = 0, num_shared = 0, num_ghost = 0, num_total = 0,
     max_entries_per_index = max_epi, handle_rows = None\<rparr>"

definition handle_init :: "nat \<Rightarrow> nat \<Rightarrow> nat \<Rightarrow> 'a handle \<Rightarrow> 'a handle" where
  "handle_init e s g h =
     h\<lparr>num_exclusive := e, num_shared := s, num_ghost := g, num_total := e + s + g\<rparr>"

definition rows_at :: "nat \<Rightarrow> 'a handle \<Rightarrow> 'a row outcome" where
  "rows_at i h = (case handle_rows h of None \<Rightarrow> fail Undefined
     | Some rs \<Rightarrow> if i < length rs then ok (rs ! i) else fail Undefined)"

definition handle_row :: "nat \<Rightarrow> 'a handle \<Rightarrow> 'a row outcome" where
  "handle_row i h = require (handle_rows h \<noteq> None) (require (i < num_total h) (rows_at i h))"

definition handle_put :: "nat \<Rightarrow> 'a row \<Rightarrow> 'a handle \<Rightarrow> 'a handle" where
  "handle_put i r h = h\<lparr>handle_rows := map_option (\<lambda>rs. rs[i := r]) (handle_rows h)\<rparr>"

section \<open>Ragged access\<close>

definition ragged_size :: "'a handle \<Rightarrow> nat outcome" where
  "ragged_size h = fold_outcome (\<lambda>i m. and_then (rows_at i h) (\<lambda>r. ok (max m (unat (row_count r)))))
     [0..<num_total h] 0"

definition ragged_size_at :: "nat \<Rightarrow> 'a handle \<Rightarrow> nat outcome" where
  "ragged_size_at i h = (if \<not> i < num_total h then fail Clog_fatal
     else and_then (rows_at i h) (\<lambda>r. ok (unat (row_count r))))"

definition iota :: "nat \<Rightarrow> nat list" where
  "iota n = fold (\<lambda>i ret. ret @ [i]) [0..<n] []"

definition ragged_entries_at :: "nat \<Rightarrow> 'a handle \<Rightarrow> nat list outcome" where
  "ragged_entries_at i h = and_then (ragged_size_at i h) (\<lambda>n. ok (iota n))"

definition ragged_get :: "nat \<Rightarrow> nat \<Rightarrow> 'a handle \<Rightarrow> 'a option outcome" where
  "ragged_get i j h = and_then (rows_at i h) (\<lambda>r.
     require (j < unat (row_count r)) (row_index (of_nat j) r))"

definition ragged_mutate :: "nat \<Rightarrow> nat \<Rightarrow> 'a \<Rightarrow> 'a handle \<Rightarrow> 'a handle outcome" where
  "ragged_mutate i j x h = and_then (handle_row i h) (\<lambda>r.
     and_then (row_update (of_nat j) x r) (\<lambda>r. ok (handle_put i r h)))"

definition ragged_resize :: "nat \<Rightarrow> nat \<Rightarrow> 'a handle \<Rightarrow> 'a handle outcome" where
  "ragged_resize i n h = and_then (handle_row i h) (\<lambda>r. ok (handle_put i (row_resize (of_nat n) r) h))"

definition ragged_erase :: "nat \<Rightarrow> nat \<Rightarrow> 'a handle \<Rightarrow> 'a handle outcome" where
  "ragged_erase i j h = and_then (handle_row i h) (\<lambda>r.
     and_then (row_erase j r) (\<lambda>r. ok (handle_put i r h)))"

definition ragged_push_back :: "nat \<Rightarrow> 'a \<Rightarrow> 'a handle \<Rightarrow> 'a handle outcome" where
  "ragged_push_back i x h = and_then (handle_row i h) (\<lambda>r.
     and_then (row_push_back x r) (\<lambda>r. ok (handle_put i r h)))"

definition ragged_insert :: "nat \<Rightarrow> nat \<Rightarrow> 'a \<Rightarrow> 'a handle \<Rightarrow> (nat \<times> 'a handle) outcome" where
  "ragged_insert i j x h = and_then (handle_row i h) (\<lambda>r.
     require (j \<le> unat (row_count r))
       (and_then (row_insert j x r) (\<lambda>(p, r). ok (p, handle_put i r h))))"

section \<open>Sparse rows\<close>

record 'v sparse_entry =
  entry :: u64
  "value" :: 'v

text \<open>\<open>std::lower_bound\<close>: the halving search over \<open>len\<close> cells from \<open>first\<close>.\<close>

function lower_bound_loop :: "u64 \<Rightarrow> 'v sparse_entry cells \<Rightarrow> nat \<Rightarrow> nat \<Rightarrow> nat outcome" where
  "lower_bound_loop key m first len =
     (if len = 0 then ok first
      else let half = len div 2; mid = first + half in
        (case m ! mid of
           None \<Rightarrow> fail Undefined
         | Some e \<Rightarrow> if entry e < key then lower_bound_loop key m (mid + 1) (len - half - 1)
                     else lower_bound_loop key m first half))"
  by pat_completeness auto
termination
  by (relation "measure (\<lambda>(key, m, first, len). len)") auto

declare lower_bound_loop.simps [simp del]

definition sparse_lower_bound :: "u64 \<Rightarrow> 'v sparse_entry row \<Rightarrow> nat outcome" where
  "sparse_lower_bound key r = lower_bound_loop key (row_data r) 0 (unat (row_count r))"

text \<open>\<open>itr != r.end() && itr->entry == entry\<close>.\<close>

definition sparse_found :: "u64 \<Rightarrow> 'v sparse_entry row \<Rightarrow> nat \<Rightarrow> bool" where
  "sparse_found key r p \<longleftrightarrow> p \<noteq> unat (row_count r) \<and>
     (case row_data r ! p of None \<Rightarrow> False | Some e \<Rightarrow> entry e = key)"

definition sparse_row_contains :: "u64 \<Rightarrow> 'v sparse_entry row \<Rightarrow> bool outcome" where
  "sparse_row_contains key r = and_then (sparse_lower_bound key r) (\<lambda>p. ok (sparse_found key r p))"

definition sparse_row_ref :: "'v \<Rightarrow> u64 \<Rightarrow> 'v sparse_entry row \<Rightarrow> (nat \<times> 'v sparse_entry row) outcome" where
  "sparse_row_ref d key r = and_then (sparse_lower_bound key r) (\<lambda>p.
     if sparse_found key r p then ok (p, r)
     else row_insert p \<lparr>entry = key, value = d\<rparr> r)"

definition sparse_row_erase :: "u64 \<Rightarrow> 'v sparse_entry row \<Rightarrow> 'v sparse_entry row outcome" where
  "sparse_row_erase key r = and_then (sparse_lower_bound key r) (\<lambda>p.
     if \<not> sparse_found key r p then ok r else row_erase p r)"

text \<open>The assignment \<open>row(entry) = v\<close> through the reference, and the checked lookup.\<close>

definition sparse_row_store :: "'v \<Rightarrow> u64 \<Rightarrow> 'v \<Rightarrow> 'v sparse_entry row \<Rightarrow> 'v sparse_entry row outcome" where
  "sparse_row_store d key v r = and_then (sparse_row_ref d key r) (\<lambda>(p, r).
     case row_data r ! p of None \<Rightarrow> fail Undefined
     | Some e \<Rightarrow> ok (r\<lparr>row_data := (row_data r)[p := Some (e\<lparr>value := v\<rparr>)]\<rparr>))"

definition sparse_row_at :: "u64 \<Rightarrow> 'v sparse_entry row \<Rightarrow> 'v option outcome" where
  "sparse_row_at key r = and_then (sparse_lower_bound key r) (\<lambda>p.
     ok (if sparse_found key r p then map_option value (row_data r ! p) else None))"

section \<open>Sparse access\<close>

definition sparse_contains :: "nat \<Rightarrow> u64 \<Rightarrow> 'v sparse_entry handle \<Rightarrow> bool outcome" where
  "sparse_contains i key h = and_then (handle_row i h) (sparse_row_contains key)"

fun collect_entries :: "'v sparse_entry cells \<Rightarrow> u64 list \<Rightarrow> u64 list outcome" where
  "collect_entries [] acc = ok acc"
| "collect_entries (None # es) acc = fail Undefined"
| "collect_entries (Some e # es) acc =
     collect_entries es (if entry e \<in> set acc then acc else acc @ [entry e])"

definition sparse_entries :: "'v sparse_entry handle \<Rightarrow> u64 list outcome" where
  "sparse_entries h = fold_outcome (\<lambda>i acc. and_then (rows_at i h) (\<lambda>r. collect_entries (row_elems r) acc))
     [0..<num_total h] []"

definition sparse_entries_at :: "nat \<Rightarrow> 'v sparse_entry handle \<Rightarrow> u64 list outcome" where
  "sparse_entries_at i h = (if \<not> i < num_total h then fail Clog_fatal
     else and_then (rows_at i h) (\<lambda>r.
       fold_outcome (\<lambda>c acc. case c of None \<Rightarrow> fail Undefined | Some e \<Rightarrow> ok (acc @ [entry e])) (row_elems r) []))"

definition sparse_indices :: "'v sparse_entry handle \<Rightarrow> nat list outcome" where
  "sparse_indices h = fold_outcome (\<lambda>i acc. and_then (rows_at i h) (\<lambda>r.
     ok (if row_count r \<noteq> 0 then acc @ [i] else acc))) [0..<num_total h] []"

definition sparse_indices_of :: "u64 \<Rightarrow> 'v sparse_entry handle \<Rightarrow> nat list outcome" where
  "sparse_indices_of key h = fold_outcome (\<lambda>i acc. and_then (handle_row i h) (\<lambda>r.
     and_then (sparse_row_contains key r) (\<lambda>b. ok (if b then acc @ [i] else acc)))) [0..<num_total h] []"

definition sparse_get :: "nat \<Rightarrow> u64 \<Rightarrow> 'v sparse_entry handle \<Rightarrow> 'v outcome" where
  "sparse_get i key h = and_then (handle_row i h) (\<lambda>r. and_then (sparse_row_at key r)
     (\<lambda>v. case v of None \<Rightarrow> fail Assert_failed | Some v \<Rightarrow> ok v))"

definition sparse_at :: "nat \<Rightarrow> u64 \<Rightarrow> 'v sparse_entry handle \<Rightarrow> 'v option outcome" where
  "sparse_at i key h = and_then (handle_row i h) (sparse_row_at key)"

definition sparse_store :: "'v \<Rightarrow> nat \<Rightarrow> u64 \<Rightarrow> 'v \<Rightarrow> 'v sparse_entry handle \<Rightarrow> 'v sparse_entry handle outcome" where
  "sparse_store d i key v h = and_then (handle_row i h) (\<lambda>r.
     and_then (sparse_row_store d key v r) (\<lambda>r. ok (handle_put i r h)))"

definition sparse_erase :: "nat \<Rightarrow> u64 \<Rightarrow> 'v sparse_entry handle \<Rightarrow> 'v sparse_entry handle outcome" where
  "sparse_erase i key h = and_then (handle_row i h) (\<lambda>r.
     and_then (sparse_row_erase key r) (\<lambda>r. ok (handle_put i r h)))"

section \<open>The search\<close>

definition sparse_list :: "'v sparse_entry row \<Rightarrow> 'v sparse_entry list" where
  "sparse_list r = map the (row_elems r)"

definition sparse_row_wf :: "'v sparse_entry row \<Rightarrow> bool" where
  "sparse_row_wf r \<longleftrightarrow> row_wf r \<and> None \<notin> set (row_elems r) \<and> sorted_wrt (<) (map entry (sparse_list r))"

definition entry_pairs :: "'v sparse_entry list \<Rightarrow> (u64 \<times> 'v) list" where
  "entry_pairs es = map (\<lambda>e. (entry e, value e)) es"

definition sparse_row_map :: "'v sparse_entry row \<Rightarrow> u64 \<rightharpoonup> 'v" where
  "sparse_row_map r = map_of (entry_pairs (sparse_list r))"

definition is_lower_bound :: "u64 \<Rightarrow> 'v sparse_entry list \<Rightarrow> nat \<Rightarrow> bool" where
  "is_lower_bound key es p \<longleftrightarrow> p \<le> length es \<and> (\<forall>i<p. entry (es ! i) < key) \<and>
     (\<forall>i. p \<le> i \<longrightarrow> i < length es \<longrightarrow> key \<le> entry (es ! i))"

lemma lower_bound_loop_correct:
  assumes "first + len \<le> length es" "take (length es) m = map Some es" "sorted_wrt (<) (map entry es)"
    and "\<forall>i<first. entry (es ! i) < key"
    and "\<forall>i. first + len \<le> i \<longrightarrow> i < length es \<longrightarrow> key \<le> entry (es ! i)"
  shows "\<exists>p. lower_bound_loop key m first len = ok p \<and> is_lower_bound key es p"
  using assms
proof (induction key m first len rule: lower_bound_loop.induct)
  case (1 key m first len)
  show ?case
  proof (cases "len = 0")
    case True
    then show ?thesis using "1.prems" by (auto simp: lower_bound_loop.simps is_lower_bound_def)
  next
    case False
    let ?mid = "first + len div 2"
    have mid: "?mid < length es" using False "1.prems"(1) by linarith
    have m: "m ! ?mid = Some (es ! ?mid)"
      using "1.prems"(2) mid by (metis nth_map nth_take)
    have mono: "entry (es ! i) \<le> entry (es ! j)" if "i \<le> j" "j < length es" for i j
      using "1.prems"(3) that
      by (cases "i = j") (auto simp: sorted_wrt_iff_nth_less intro: less_imp_le)
    show ?thesis
    proof (cases "entry (es ! ?mid) < key")
      case True
      have "\<exists>p. lower_bound_loop key m (?mid + 1) (len - len div 2 - 1) = ok p \<and> is_lower_bound key es p"
      proof (rule "1.IH"(1)[OF False refl refl m True])
        show "?mid + 1 + (len - len div 2 - 1) \<le> length es" using "1.prems"(1) False by linarith
        show "\<forall>i<?mid + 1. entry (es ! i) < key"
          using order.strict_trans1[OF mono[of _ ?mid] True] mid by simp
        have "?mid + 1 + (len - len div 2 - 1) = first + len" using False by linarith
        then show "\<forall>i. ?mid + 1 + (len - len div 2 - 1) \<le> i \<longrightarrow> i < length es \<longrightarrow> key \<le> entry (es ! i)"
          using "1.prems"(5) by simp
      qed (use "1.prems" in auto)
      then show ?thesis using False m True by (simp add: lower_bound_loop.simps[of key m first] Let_def)
    next
      case nless: False
      have "\<exists>p. lower_bound_loop key m first (len div 2) = ok p \<and> is_lower_bound key es p"
      proof (rule "1.IH"(2)[OF False refl refl m nless])
        show "first + len div 2 \<le> length es" using "1.prems"(1) by linarith
        show "\<forall>i. first + len div 2 \<le> i \<longrightarrow> i < length es \<longrightarrow> key \<le> entry (es ! i)"
          using order.trans[OF leI[OF nless] mono[of ?mid]] by simp
      qed (use "1.prems" in auto)
      then show ?thesis using False m nless by (simp add: lower_bound_loop.simps[of key m first] Let_def)
    qed
  qed
qed


lemma row_elems_list:
  assumes "sparse_row_wf r"
  shows "row_elems r = map Some (sparse_list r)"
proof -
  have "Some (the x) = x" if "x \<in> set (row_elems r)" for x
    using assms that by (cases x) (auto simp: sparse_row_wf_def)
  then show ?thesis unfolding sparse_list_def map_map by (intro map_idI[symmetric]) simp
qed

lemma length_sparse_list [simp]: "row_wf r \<Longrightarrow> length (sparse_list r) = unat (row_count r)"
  by (auto simp: sparse_list_def row_elems_def row_wf_def word_le_nat_alt)

lemma row_data_nth:
  assumes "sparse_row_wf r" "p < unat (row_count r)"
  shows "row_data r ! p = Some (sparse_list r ! p)"
proof -
  have "row_data r ! p = row_elems r ! p" using assms(2) by (simp add: row_elems_def)
  then show ?thesis using row_elems_list[OF assms(1)] assms by (simp add: sparse_row_wf_def)
qed

lemma sparse_lower_bound_correct:
  assumes "sparse_row_wf r"
  shows "\<exists>p. sparse_lower_bound key r = ok p \<and> is_lower_bound key (sparse_list r) p \<and>
    (sparse_found key r p \<longleftrightarrow> p < length (sparse_list r) \<and> entry (sparse_list r ! p) = key)"
proof -
  have wf: "row_wf r" using assms by (simp add: sparse_row_wf_def)
  have "take (length (sparse_list r)) (row_data r) = map Some (sparse_list r)"
    using row_elems_list[OF assms] wf by (simp add: row_elems_def)
  then obtain p where p: "sparse_lower_bound key r = ok p" "is_lower_bound key (sparse_list r) p"
    using lower_bound_loop_correct[of 0 "unat (row_count r)" "sparse_list r" "row_data r" key] assms wf
    by (auto simp: sparse_lower_bound_def sparse_row_wf_def)
  moreover have "sparse_found key r p \<longleftrightarrow> p < length (sparse_list r) \<and> entry (sparse_list r ! p) = key"
    using p(2) wf row_data_nth[OF assms, of p] by (auto simp: sparse_found_def is_lower_bound_def)
  ultimately show ?thesis by blast
qed

section \<open>Sorted entries as a map\<close>

lemma entry_pairs_fst [simp]: "map fst (entry_pairs es) = map entry es"
  by (simp add: entry_pairs_def)

lemma entry_pairs_nth: "i < length es \<Longrightarrow> entry_pairs es ! i = (entry (es ! i), value (es ! i))"
  by (simp add: entry_pairs_def)

lemma entry_pairs_append [simp]: "entry_pairs (xs @ ys) = entry_pairs xs @ entry_pairs ys"
  by (simp add: entry_pairs_def)

lemma map_of_entries_None: "map_of (entry_pairs es) k = None \<longleftrightarrow> k \<notin> entry ` set es"
  by (auto simp: map_of_eq_None_iff entry_pairs_def image_image)

lemma distinct_entries: "sorted_wrt (<) (map entry es) \<Longrightarrow> distinct (map fst (entry_pairs es))"
  by (simp only: entry_pairs_fst strict_sorted_iff)

lemma lower_bound_lookup:
  assumes "sorted_wrt (<) (map entry es)" "is_lower_bound key es p"
  shows "map_of (entry_pairs es) key =
    (if p < length es \<and> entry (es ! p) = key then Some (value (es ! p)) else None)"
proof (cases "p < length es \<and> entry (es ! p) = key")
  case True
  then have "(key, value (es ! p)) \<in> set (entry_pairs es)"
    by (auto simp: entry_pairs_def intro!: image_eqI[of _ _ "es ! p"])
  then show ?thesis using True distinct_entries[OF assms(1)] by simp
next
  case False
  have "key \<notin> entry ` set es"
  proof
    assume "key \<in> entry ` set es"
    then obtain i where i: "i < length es" "entry (es ! i) = key" by (auto simp: in_set_conv_nth)
    then have "p \<le> i" using assms(2) by (auto simp: is_lower_bound_def not_less[symmetric])
    then have "p < length es" "key \<le> entry (es ! p)" using i assms(2) by (auto simp: is_lower_bound_def)
    moreover have "entry (es ! p) \<le> entry (es ! i)"
      using assms(1) \<open>p \<le> i\<close> i by (cases "p = i") (auto simp: sorted_wrt_iff_nth_less intro: less_imp_le)
    ultimately show False using False i by auto
  qed
  then show ?thesis using False map_of_entries_None[of es key] by simp
qed

lemma lower_bound_insert:
  assumes "sorted_wrt (<) (map entry es)" "is_lower_bound key es p" "\<not> (p < length es \<and> entry (es ! p) = key)"
    and "entry e = key"
  shows "sorted_wrt (<) (map entry (take p es @ [e] @ drop p es)) \<and>
    map_of (entry_pairs (take p es @ [e] @ drop p es)) = (map_of (entry_pairs es))(key \<mapsto> value e)"
proof -
  have tk: "entry x < key" if "x \<in> set (take p es)" for x
    using that assms(2) by (auto simp: in_set_conv_nth is_lower_bound_def)
  have dr: "key < entry x" if x: "x \<in> set (drop p es)" for x
  proof -
    obtain i where i: "x = es ! (p + i)" "p + i < length es"
      using x by (auto simp: in_set_conv_nth)
    have "key \<le> entry (es ! p)" "entry (es ! p) \<noteq> key"
      using assms(2,3) i(2) by (auto simp: is_lower_bound_def)
    moreover have "entry (es ! p) \<le> entry (es ! (p + i))"
      using assms(1) i(2) by (cases "i = 0") (auto simp: sorted_wrt_iff_nth_less intro: less_imp_le)
    ultimately show ?thesis using i(1) by simp
  qed
  have st: "sorted_wrt (<) (map entry (take p es))" "sorted_wrt (<) (map entry (drop p es))"
    using assms(1) by (simp_all add: take_map[symmetric] drop_map[symmetric] sorted_wrt_take sorted_wrt_drop)
  have 1: "sorted_wrt (<) (map entry (take p es @ [e] @ drop p es))"
    using st tk dr assms(4) by (auto simp: sorted_wrt_append intro: less_trans)
  have split: "entry_pairs es = entry_pairs (take p es) @ entry_pairs (drop p es)"
    by (simp only: entry_pairs_append[symmetric] append_take_drop_id)
  have n: "map_of (entry_pairs (take p es)) key = None"
    using tk by (auto simp: map_of_entries_None)
  have "map_of (entry_pairs (take p es @ [e] @ drop p es)) k = ((map_of (entry_pairs es))(key \<mapsto> value e)) k" for k
    unfolding split using n assms(4) by (auto simp: map_add_def entry_pairs_def split: option.splits)
  with 1 show ?thesis by auto
qed

lemma lower_bound_remove:
  assumes "sorted_wrt (<) (map entry es)" "p < length es" "entry (es ! p) = key"
  shows "sorted_wrt (<) (map entry (take p es @ drop (p + 1) es)) \<and>
    map_of (entry_pairs (take p es @ drop (p + 1) es)) = (map_of (entry_pairs es))(key := None)"
proof -
  have es: "es = take p es @ es ! p # drop (p + 1) es"
    using assms(2) by (simp add: id_take_nth_drop)
  have s: "sorted_wrt (<) (map entry (take p es @ es ! p # drop (p + 1) es))"
    using assms(1) es by simp
  then have 1: "sorted_wrt (<) (map entry (take p es @ drop (p + 1) es))"
    by (auto simp: sorted_wrt_append)
  have n: "map_of (entry_pairs (take p es)) key = None" "map_of (entry_pairs (drop (p + 1) es)) key = None"
    using s assms(3) by (fastforce simp: map_of_entries_None sorted_wrt_append)+
  have split: "entry_pairs es = entry_pairs (take p es) @ (key, value (es ! p)) # entry_pairs (drop (p + 1) es)"
    using assms(3) by (subst es) (simp add: entry_pairs_def)
  have "map_of (entry_pairs (take p es @ drop (p + 1) es)) k = ((map_of (entry_pairs es))(key := None)) k" for k
    unfolding split using n by (auto simp: map_add_def split: option.splits)
  with 1 show ?thesis by auto
qed

lemma lower_bound_update:
  assumes "sorted_wrt (<) (map entry es)" "p < length es" "entry (es ! p) = key" "entry e = key"
  shows "sorted_wrt (<) (map entry (es[p := e])) \<and>
    map_of (entry_pairs (es[p := e])) = (map_of (entry_pairs es))(key \<mapsto> value e)"
proof -
  have me: "map entry (es[p := e]) = map entry es"
    using assms(2,3,4) by (metis list_update_id map_update nth_map)
  have es: "es = take p es @ es ! p # drop (p + 1) es"
    using assms(2) by (simp add: id_take_nth_drop)
  have s: "sorted_wrt (<) (map entry (take p es @ es ! p # drop (p + 1) es))"
    using assms(1) es by simp
  have n: "map_of (entry_pairs (take p es)) key = None" "map_of (entry_pairs (drop (p + 1) es)) key = None"
    using s assms(3) by (fastforce simp: map_of_entries_None sorted_wrt_append)+
  have split: "entry_pairs es = entry_pairs (take p es) @ (key, value (es ! p)) # entry_pairs (drop (p + 1) es)"
    using assms(3) by (subst es) (simp add: entry_pairs_def)
  have split': "entry_pairs (es[p := e]) = entry_pairs (take p es) @ (key, value e) # entry_pairs (drop (p + 1) es)"
    using assms(2,4) by (simp add: upd_conv_take_nth_drop entry_pairs_def)
  have "map_of (entry_pairs (es[p := e])) k = ((map_of (entry_pairs es))(key \<mapsto> value e)) k" for k
    unfolding split split' using n by (auto simp: map_add_def split: option.splits)
  with me show ?thesis using assms(1) by (simp add: ext)
qed


section \<open>The interface of a row\<close>

text \<open>
  What the mutators rely on: a row is a finite map that accepts a store while it has room, and a
  removal at any time. \<open>run_ops\<close> runs a client's sequence of operations.
\<close>

datatype ('k, 'v) store_op = Store 'k 'v | Delete 'k

fun apply_op :: "('k, 'v) store_op \<Rightarrow> ('k \<rightharpoonup> 'v) \<Rightarrow> ('k \<rightharpoonup> 'v)" where
  "apply_op (Store k v) m = m(k \<mapsto> v)"
| "apply_op (Delete k) m = m(k := None)"

locale growing_store =
  fixes look :: "'s \<Rightarrow> 'k \<rightharpoonup> 'v" and store :: "'k \<Rightarrow> 'v \<Rightarrow> 's \<Rightarrow> 's outcome"
    and del :: "'k \<Rightarrow> 's \<Rightarrow> 's outcome" and good :: "'s \<Rightarrow> bool" and room :: "'s \<Rightarrow> nat"
  assumes store_law: "good s \<Longrightarrow> 0 < room s \<Longrightarrow>
      \<exists>s'. store k v s = ok s' \<and> good s' \<and> look s' = (look s)(k \<mapsto> v) \<and> room s \<le> Suc (room s')"
    and del_law: "good s \<Longrightarrow>
      \<exists>s'. del k s = ok s' \<and> good s' \<and> look s' = (look s)(k := None) \<and> room s \<le> room s'"
begin

fun run_op :: "('k, 'v) store_op \<Rightarrow> 's \<Rightarrow> 's outcome" where
  "run_op (Store k v) s = store k v s"
| "run_op (Delete k) s = del k s"

lemma run_op_law:
  assumes "good s" "0 < room s"
  shows "\<exists>s'. run_op c s = ok s' \<and> good s' \<and> look s' = apply_op c (look s) \<and> room s \<le> Suc (room s')"
proof (cases c)
  case (Store k v)
  then show ?thesis using store_law[OF assms, of k v] by simp
next
  case (Delete k)
  then show ?thesis using del_law[OF assms(1), of k] by fastforce
qed

lemma run_ops_refine:
  "good s \<Longrightarrow> length cs \<le> room s \<Longrightarrow>
   \<exists>s'. fold_outcome run_op cs s = ok s' \<and> good s' \<and> look s' = fold apply_op cs (look s)"
proof (induction cs arbitrary: s)
  case (Cons c cs)
  then have "0 < room s" by auto
  then obtain t where t: "run_op c s = ok t" "good t" "look t = apply_op c (look s)" "room s \<le> Suc (room t)"
    using run_op_law[OF Cons.prems(1)] by blast
  then have "length cs \<le> room t" using Cons.prems(2) by simp
  then show ?case using Cons.IH[OF t(2)] t by auto
qed simp

end

lemma sparse_row_at_map:
  assumes "sparse_row_wf r"
  shows "sparse_row_at key r = ok (sparse_row_map r key)"
proof -
  obtain p where p: "sparse_lower_bound key r = ok p" "is_lower_bound key (sparse_list r) p"
    "sparse_found key r p \<longleftrightarrow> p < length (sparse_list r) \<and> entry (sparse_list r ! p) = key"
    using sparse_lower_bound_correct[OF assms] by blast
  have "sparse_row_map r key = (if sparse_found key r p then Some (value (sparse_list r ! p)) else None)"
    using lower_bound_lookup[OF _ p(2)] assms p(3) by (simp add: sparse_row_map_def sparse_row_wf_def)
  then show ?thesis
    using p(1,3) row_data_nth[OF assms, of p] assms by (auto simp: sparse_row_at_def sparse_row_wf_def)
qed

lemma sparse_row_wfI:
  assumes "row_wf r" "row_elems r = map Some es" "sorted_wrt (<) (map entry es)"
  shows "sparse_row_wf r \<and> sparse_list r = es"
  using assms by (auto simp: sparse_row_wf_def sparse_list_def comp_def)

lemma sparse_row_ref_correct:
  assumes "sparse_row_wf r" "0 < row_room r"
  shows "\<exists>p r'. sparse_row_ref d key r = ok (p, r') \<and> sparse_row_wf r' \<and> p < length (sparse_list r') \<and>
    entry (sparse_list r' ! p) = key \<and> row_room r \<le> Suc (row_room r') \<and>
    sparse_row_map r' = (if key \<in> dom (sparse_row_map r) then sparse_row_map r else (sparse_row_map r)(key \<mapsto> d))"
proof -
  have wf: "row_wf r" "sorted_wrt (<) (map entry (sparse_list r))" using assms(1) by (simp_all add: sparse_row_wf_def)
  obtain p where p: "sparse_lower_bound key r = ok p" "is_lower_bound key (sparse_list r) p"
    "sparse_found key r p \<longleftrightarrow> p < length (sparse_list r) \<and> entry (sparse_list r ! p) = key"
    using sparse_lower_bound_correct[OF assms(1)] by blast
  have dm: "key \<in> dom (sparse_row_map r) \<longleftrightarrow> sparse_found key r p"
    using lower_bound_lookup[OF wf(2) p(2)] p(3) by (auto simp: sparse_row_map_def domIff)
  show ?thesis
  proof (cases "sparse_found key r p")
    case True
    then show ?thesis using p assms(1) dm by (auto simp: sparse_row_ref_def)
  next
    case False
    let ?e = "\<lparr>entry = key, value = d\<rparr>" and ?es = "sparse_list r"
    have pl: "p \<le> unat (row_count r)" using p(2) wf(1) by (simp add: is_lower_bound_def)
    obtain r' where r': "row_insert p ?e r = ok (p, r')" "row_wf r'" "row_count r' = row_count r + 1"
      "row_elems r' = take p (row_elems r) @ [Some ?e] @ drop p (row_elems r)"
      using row_insert_elems[OF wf(1) assms(2) pl, of ?e] by blast
    have l: "row_elems r' = map Some (take p ?es @ [?e] @ drop p ?es)"
      using r'(4) row_elems_list[OF assms(1)] by (simp add: take_map drop_map)
    have ins: "sorted_wrt (<) (map entry (take p ?es @ [?e] @ drop p ?es)) \<and>
        map_of (entry_pairs (take p ?es @ [?e] @ drop p ?es)) = (map_of (entry_pairs ?es))(key \<mapsto> d)"
      using lower_bound_insert[OF wf(2) p(2), of ?e] False p(3) by simp
    have w: "sparse_row_wf r' \<and> sparse_list r' = take p ?es @ [?e] @ drop p ?es"
      using sparse_row_wfI[OF r'(2) l] ins by simp
    have "unat (row_count r + 1) = unat (row_count r) + 1"
      using assms(2) by (intro unat_add1) (simp add: row_room_def)
    then have "row_room r \<le> Suc (row_room r')" using r'(3) by (simp add: row_room_def)
    moreover have "p < length (sparse_list r')" "entry (sparse_list r' ! p) = key"
      using w p(2) by (simp_all add: is_lower_bound_def nth_append)
    ultimately show ?thesis
      using w ins False dm r'(1) p(1) by (simp add: sparse_row_ref_def sparse_row_map_def)
  qed
qed

lemma sparse_row_store_law:
  assumes "sparse_row_wf r" "0 < row_room r"
  shows "\<exists>r'. sparse_row_store d key v r = ok r' \<and> sparse_row_wf r' \<and>
    sparse_row_map r' = (sparse_row_map r)(key \<mapsto> v) \<and> row_room r \<le> Suc (row_room r')"
proof -
  obtain p r1 where r1: "sparse_row_ref d key r = ok (p, r1)" "sparse_row_wf r1" "p < length (sparse_list r1)"
    "entry (sparse_list r1 ! p) = key" "row_room r \<le> Suc (row_room r1)"
    "sparse_row_map r1 = (if key \<in> dom (sparse_row_map r) then sparse_row_map r else (sparse_row_map r)(key \<mapsto> d))"
    using sparse_row_ref_correct[OF assms] by blast
  let ?es = "sparse_list r1" and ?e = "(sparse_list r1 ! p)\<lparr>value := v\<rparr>"
  let ?r = "r1\<lparr>row_data := (row_data r1)[p := Some ?e]\<rparr>"
  have wf: "row_wf r1" "sorted_wrt (<) (map entry ?es)" using r1(2) by (simp_all add: sparse_row_wf_def)
  have p: "p < unat (row_count r1)" using r1(3) wf(1) by simp
  have s: "sparse_row_store d key v r = ok ?r"
    using r1(1) row_data_nth[OF r1(2) p] by (simp add: sparse_row_store_def)
  have "row_elems ?r = (row_elems r1)[p := Some ?e]" using p by (simp add: row_elems_def take_update_swap)
  then have l: "row_elems ?r = map Some (?es[p := ?e])"
    using row_elems_list[OF r1(2)] by (simp add: map_update)
  have u: "sorted_wrt (<) (map entry (?es[p := ?e])) \<and>
      map_of (entry_pairs (?es[p := ?e])) = (map_of (entry_pairs ?es))(key \<mapsto> v)"
    using lower_bound_update[OF wf(2) r1(3,4), of ?e] r1(4) by simp
  have "row_wf ?r" using wf(1) by (simp add: row_wf_def)
  then have w: "sparse_row_wf ?r \<and> sparse_list ?r = ?es[p := ?e]"
    using sparse_row_wfI[OF _ l] u by simp
  have "sparse_row_map ?r = (sparse_row_map r1)(key \<mapsto> v)"
    using w u by (simp add: sparse_row_map_def)
  also have "\<dots> = (sparse_row_map r)(key \<mapsto> v)" using r1(6) by simp
  finally have m: "sparse_row_map ?r = (sparse_row_map r)(key \<mapsto> v)" .
  have "row_room ?r = row_room r1" by (simp add: row_room_def)
  then show ?thesis using s w m r1(5) by simp
qed

lemma sparse_row_erase_law:
  assumes "sparse_row_wf r"
  shows "\<exists>r'. sparse_row_erase key r = ok r' \<and> sparse_row_wf r' \<and>
    sparse_row_map r' = (sparse_row_map r)(key := None) \<and> row_room r \<le> row_room r'"
proof -
  have wf: "row_wf r" "sorted_wrt (<) (map entry (sparse_list r))" using assms(1) by (simp_all add: sparse_row_wf_def)
  obtain p where p: "sparse_lower_bound key r = ok p" "is_lower_bound key (sparse_list r) p"
    "sparse_found key r p \<longleftrightarrow> p < length (sparse_list r) \<and> entry (sparse_list r ! p) = key"
    using sparse_lower_bound_correct[OF assms(1)] by blast
  show ?thesis
  proof (cases "sparse_found key r p")
    case False
    then have "sparse_row_map r key = None"
      using lower_bound_lookup[OF wf(2) p(2)] p(3) by (auto simp: sparse_row_map_def)
    then show ?thesis using False p(1) assms by (simp add: sparse_row_erase_def fun_upd_idem)
  next
    case True
    let ?es = "sparse_list r"
    have pl: "p < length ?es" "entry (?es ! p) = key" "p < unat (row_count r)" using True p(3) wf(1) by auto
    obtain r' where r': "row_erase p r = ok r'" "row_wf r'" "row_count r' = row_count r - 1"
      "row_elems r' = take p (row_elems r) @ drop (p + 1) (row_elems r)"
      using row_erase_elems[OF wf(1) pl(3)] by blast
    have l: "row_elems r' = map Some (take p ?es @ drop (p + 1) ?es)"
      using r'(4) row_elems_list[OF assms(1)] by (simp add: take_map drop_map)
    have rem: "sorted_wrt (<) (map entry (take p ?es @ drop (p + 1) ?es)) \<and>
        map_of (entry_pairs (take p ?es @ drop (p + 1) ?es)) = (map_of (entry_pairs ?es))(key := None)"
      by (rule lower_bound_remove[OF wf(2) pl(1,2)])
    have w: "sparse_row_wf r' \<and> sparse_list r' = take p ?es @ drop (p + 1) ?es"
      using sparse_row_wfI[OF r'(2) l] rem by simp
    have "unat (row_count r - 1) = unat (row_count r) - 1" using pl(3) by (intro unat_sub1) simp
    then have "row_room r \<le> row_room r'" using r'(3) by (simp add: row_room_def)
    then show ?thesis
      using w rem True r'(1) p(1) by (simp add: sparse_row_erase_def sparse_row_map_def)
  qed
qed

interpretation sparse_row: growing_store sparse_row_map "sparse_row_store d" sparse_row_erase sparse_row_wf row_room for d
  by unfold_locales (rule sparse_row_store_law sparse_row_erase_law; assumption)+


section \<open>Sparse fields\<close>

definition the_rows :: "'a handle \<Rightarrow> 'a row list" where
  "the_rows h = (case handle_rows h of None \<Rightarrow> [] | Some rs \<Rightarrow> rs)"

definition sparse_ok :: "'v sparse_entry handle \<Rightarrow> bool" where
  "sparse_ok h \<longleftrightarrow> handle_rows h \<noteq> None \<and> length (the_rows h) = num_total h \<and>
     list_all sparse_row_wf (the_rows h)"

definition sparse_map :: "'v sparse_entry handle \<Rightarrow> nat \<Rightarrow> u64 \<rightharpoonup> 'v" where
  "sparse_map h i = sparse_row_map (the_rows h ! i)"

fun sparse_run :: "'v \<Rightarrow> nat \<times> (u64, 'v) store_op \<Rightarrow> 'v sparse_entry handle \<Rightarrow> 'v sparse_entry handle outcome" where
  "sparse_run d (i, Store k v) h = sparse_store d i k v h"
| "sparse_run d (i, Delete k) h = sparse_erase i k h"

lemma rows_at_ok: "sparse_ok h \<Longrightarrow> i < num_total h \<Longrightarrow> rows_at i h = ok (the_rows h ! i)"
  by (auto simp: sparse_ok_def rows_at_def the_rows_def)

lemma handle_row_ok: "sparse_ok h \<Longrightarrow> i < num_total h \<Longrightarrow> handle_row i h = ok (the_rows h ! i)"
  using rows_at_ok by (auto simp: handle_row_def sparse_ok_def)

lemma the_rows_put [simp]: "the_rows (handle_put i r h) = (the_rows h)[i := r]"
  by (simp add: the_rows_def handle_put_def split: option.split)

lemma num_total_put [simp]: "num_total (handle_put i r h) = num_total h"
  by (simp add: handle_put_def)

lemma sparse_ok_row: "sparse_ok h \<Longrightarrow> i < num_total h \<Longrightarrow> sparse_row_wf (the_rows h ! i)"
  by (simp add: sparse_ok_def list_all_length)

lemma sparse_ok_put: "sparse_ok h \<Longrightarrow> sparse_row_wf r \<Longrightarrow> sparse_ok (handle_put i r h)"
  by (auto simp: sparse_ok_def list_all_iff handle_put_def the_rows_def
      dest: set_update_subset_insert[THEN subsetD] split: option.splits)

lemma sparse_run_law:
  assumes "sparse_ok h" "i < num_total h" "0 < row_room (the_rows h ! i)"
  shows "\<exists>r'. sparse_run d (i, c) h = ok (handle_put i r' h) \<and> sparse_row_wf r' \<and>
    sparse_row_map r' = apply_op c (sparse_map h i) \<and> row_room (the_rows h ! i) \<le> Suc (row_room r')"
  using sparse_row.run_op_law[OF sparse_ok_row[OF assms(1,2)] assms(3), of d c] handle_row_ok[OF assms(1,2)]
  by (cases c) (auto simp: sparse_store_def sparse_erase_def sparse_map_def)

lemma sparse_at_map: "sparse_ok h \<Longrightarrow> i < num_total h \<Longrightarrow> sparse_at i k h = ok (sparse_map h i k)"
  by (simp add: sparse_at_def handle_row_ok sparse_row_at_map sparse_ok_row sparse_map_def)

text \<open>
  C3: any sequence of mutations of a sparse field (assignments through the mutator and erasures,
  to any rows in any order) is followed by lookups that return, for every index and entry, exactly
  what the same sequence leaves in a map; no other row is disturbed and the rows stay sorted.
\<close>

theorem sparse_mutations_refine_map:
  assumes "sparse_ok h" "list_all (\<lambda>(i, c). i < num_total h) ops"
    and "list_all (\<lambda>r. length ops \<le> row_room r) (the_rows h)"
  shows "\<exists>h'. fold_outcome (sparse_run d) ops h = ok h' \<and> sparse_ok h' \<and> num_total h' = num_total h \<and>
    (\<forall>i<num_total h. \<forall>k. sparse_at i k h' =
       ok (fold apply_op (map snd (filter (\<lambda>(j, c). j = i) ops)) (sparse_map h i) k))"
  using assms
proof (induction ops arbitrary: h)
  case Nil
  then show ?case by (simp add: sparse_at_map)
next
  case (Cons op ops)
  obtain i c where op: "op = (i, c)" by (cases op)
  have i: "i < num_total h" "i < length (the_rows h)" using Cons.prems op by (simp_all add: sparse_ok_def)
  have "0 < row_room (the_rows h ! i)" using Cons.prems(3) i(2) by (fastforce simp: list_all_length)
  then obtain r' where r': "sparse_run d (i, c) h = ok (handle_put i r' h)" "sparse_row_wf r'"
    "sparse_row_map r' = apply_op c (sparse_map h i)" "row_room (the_rows h ! i) \<le> Suc (row_room r')"
    using sparse_run_law[OF Cons.prems(1) i(1)] by blast
  let ?h = "handle_put i r' h"
  have "length ops \<le> row_room r'" using Cons.prems(3) i(2) r'(4) by (fastforce simp: list_all_length)
  then have room: "list_all (\<lambda>r. length ops \<le> row_room r) (the_rows ?h)"
    using Cons.prems(3) by (fastforce simp: list_all_iff dest: set_update_subset_insert[THEN subsetD])
  have map: "sparse_map ?h j = (if j = i then apply_op c (sparse_map h i) else sparse_map h j)"
    if "j < num_total h" for j
    using r'(3) i(2) by (simp add: sparse_map_def)
  have "list_all (\<lambda>(j, c). j < num_total ?h) ops" using Cons.prems(2) by simp
  from Cons.IH[OF sparse_ok_put[OF Cons.prems(1) r'(2)] this room] obtain h' where
    "fold_outcome (sparse_run d) ops ?h = ok h'" "sparse_ok h'" "num_total h' = num_total h"
    "\<forall>j<num_total h. \<forall>k. sparse_at j k h' =
       ok (fold apply_op (map snd (filter (\<lambda>(j', c). j' = j) ops)) (sparse_map ?h j) k)"
    by auto
  then show ?case using op r'(1) map by auto
qed

definition two_rows :: "int sparse_entry handle" where
  "two_rows = (handle_init 1 1 0 (handle_make 4))\<lparr>handle_rows := Some [row_new, row_new]\<rparr>"

lemma two_rows_ok:
  "sparse_ok two_rows" "num_total two_rows = 2" "the_rows two_rows = [row_new, row_new]"
  "row_room (row_new :: int sparse_entry row) = 2 ^ 32 - 5"
  by (simp_all add: two_rows_def sparse_ok_def the_rows_def handle_init_def handle_make_def sparse_row_wf_def
      sparse_list_def row_elems_def row_room_def row_new_def row_wf_def)

lemma sparse_mutations_refine_map_witness:
  "\<exists>h'. fold_outcome (sparse_run 0) [(1, Store 7 70), (0, Store 3 30), (1, Store 5 50), (1, Delete 7)] two_rows = ok h' \<and>
     sparse_at 1 5 h' = ok (Some 50) \<and> sparse_at 1 7 h' = ok None"
proof -
  have m: "sparse_map two_rows 1 = (\<lambda>_. None)"
    by (simp add: sparse_map_def two_rows_ok sparse_row_map_def sparse_list_def row_elems_def row_new_def entry_pairs_def)
  show ?thesis
    using sparse_mutations_refine_map[of two_rows "[(1, Store 7 70), (0, Store 3 30), (1, Store 5 50), (1, Delete 7)]" 0]
    by (auto simp: two_rows_ok m)
qed

section \<open>Enumeration\<close>

lemma sparse_row_contains_dom:
  assumes "sparse_row_wf r"
  shows "sparse_row_contains key r = ok (key \<in> dom (sparse_row_map r))"
proof -
  obtain p where p: "sparse_lower_bound key r = ok p" "is_lower_bound key (sparse_list r) p"
    "sparse_found key r p \<longleftrightarrow> p < length (sparse_list r) \<and> entry (sparse_list r ! p) = key"
    using sparse_lower_bound_correct[OF assms(1)] by blast
  then show ?thesis
    using lower_bound_lookup[OF _ p(2)] assms
    by (auto simp: sparse_row_contains_def sparse_row_map_def sparse_row_wf_def domIff)
qed

lemma row_map_dom: "dom (sparse_row_map r) = entry ` set (sparse_list r)"
  by (simp add: sparse_row_map_def dom_map_of_conv_image_fst entry_pairs_def image_image)

lemma fold_outcome_filter:
  assumes "\<And>i. i \<in> set xs \<Longrightarrow> \<forall>acc. f i acc = ok (if P i then acc @ [i] else acc)"
  shows "fold_outcome f xs acc = ok (acc @ filter P xs)"
  using assms by (induction xs arbitrary: acc) auto

lemma fold_outcome_snoc:
  "fold_outcome (\<lambda>c acc. case c of None \<Rightarrow> fail Undefined | Some e \<Rightarrow> ok (acc @ [g e])) (map Some es) acc = ok (acc @ map g es)"
  by (induction es arbitrary: acc) auto

lemma collect_entries_ok:
  "\<exists>acc'. collect_entries (map Some es) acc = ok acc' \<and> set acc' = set acc \<union> entry ` set es \<and>
     (distinct acc \<longrightarrow> distinct acc')"
proof (induction es arbitrary: acc)
  case (Cons e es)
  let ?acc = "if entry e \<in> set acc then acc else acc @ [entry e]"
  obtain acc' where "collect_entries (map Some es) ?acc = ok acc'" "set acc' = set ?acc \<union> entry ` set es"
    "distinct ?acc \<longrightarrow> distinct acc'"
    using Cons[of ?acc] by blast
  then show ?case by (intro exI[of _ acc']) (auto split: if_splits)
qed simp

lemma sparse_entries_ok:
  assumes "sparse_ok h"
  shows "\<exists>es. sparse_entries h = ok es \<and> distinct es \<and> set es = (\<Union>i<num_total h. dom (sparse_map h i))"
proof -
  have "\<exists>es. fold_outcome (\<lambda>i acc. and_then (rows_at i h) (\<lambda>r. collect_entries (row_elems r) acc)) [0..<n] [] = ok es \<and>
      distinct es \<and> set es = (\<Union>i<n. dom (sparse_map h i))" if "n \<le> num_total h" for n
    using that
  proof (induction n)
    case (Suc n)
    then obtain es where es: "fold_outcome (\<lambda>i acc. and_then (rows_at i h) (\<lambda>r. collect_entries (row_elems r) acc)) [0..<n] [] = ok es"
      "distinct es" "set es = (\<Union>i<n. dom (sparse_map h i))" by auto
    have n: "n < num_total h" using Suc.prems by simp
    have "row_elems (the_rows h ! n) = map Some (sparse_list (the_rows h ! n))"
      by (rule row_elems_list[OF sparse_ok_row[OF assms n]])
    then show ?case
      using es rows_at_ok[OF assms n] collect_entries_ok[of "sparse_list (the_rows h ! n)" es]
      by (auto simp: row_map_dom sparse_map_def lessThan_Suc)
  qed simp
  then show ?thesis by (auto simp: sparse_entries_def)
qed

text \<open>
  C33: the queries of a sparse field agree with the map it denotes: \<open>contains\<close> decides membership,
  \<open>entries(i)\<close> is the ascending list of the entries of row \<open>i\<close>, \<open>indices(e)\<close> the ascending list
  of the rows that hold \<open>e\<close>, \<open>indices()\<close> of the rows that hold anything, and \<open>entries()\<close> lists
  every entry of the field once.
\<close>

theorem sparse_queries_correct:
  assumes "sparse_ok h" "i < num_total h"
  shows "sparse_contains i key h = ok (key \<in> dom (sparse_map h i)) \<and>
    (\<exists>es. sparse_entries_at i h = ok es \<and> sorted_wrt (<) es \<and> set es = dom (sparse_map h i)) \<and>
    sparse_indices_of key h = ok (filter (\<lambda>j. key \<in> dom (sparse_map h j)) [0..<num_total h]) \<and>
    sparse_indices h = ok (filter (\<lambda>j. dom (sparse_map h j) \<noteq> {}) [0..<num_total h]) \<and>
    (\<exists>es. sparse_entries h = ok es \<and> distinct es \<and> set es = (\<Union>j<num_total h. dom (sparse_map h j)))"
proof (intro conjI)
  let ?r = "the_rows h ! i"
  show "sparse_contains i key h = ok (key \<in> dom (sparse_map h i))"
    using assms by (simp add: sparse_contains_def handle_row_ok sparse_row_contains_dom sparse_ok_row sparse_map_def)
  have "sparse_entries_at i h = ok (map entry (sparse_list ?r))"
    using assms fold_outcome_snoc[of entry "sparse_list ?r" "[]"]
    by (simp add: sparse_entries_at_def rows_at_ok row_elems_list[OF sparse_ok_row])
  moreover have "sorted_wrt (<) (map entry (sparse_list ?r))"
    using sparse_ok_row[OF assms] by (simp add: sparse_row_wf_def)
  ultimately show "\<exists>es. sparse_entries_at i h = ok es \<and> sorted_wrt (<) es \<and> set es = dom (sparse_map h i)"
    by (simp add: sparse_map_def row_map_dom)
  show "sparse_indices_of key h = ok (filter (\<lambda>j. key \<in> dom (sparse_map h j)) [0..<num_total h])"
    unfolding sparse_indices_of_def
    by (subst fold_outcome_filter[where P = "\<lambda>j. key \<in> dom (sparse_map h j)"])
      (auto simp: handle_row_ok[OF assms(1)] sparse_row_contains_dom sparse_ok_row[OF assms(1)] sparse_map_def)
  have e: "row_count (the_rows h ! j) \<noteq> 0 \<longleftrightarrow> dom (sparse_map h j) \<noteq> {}" if "j < num_total h" for j
  proof -
    have "row_wf (the_rows h ! j)" using sparse_ok_row[OF assms(1) that] by (simp add: sparse_row_wf_def)
    then have "row_count (the_rows h ! j) \<noteq> 0 \<longleftrightarrow> sparse_list (the_rows h ! j) \<noteq> []"
      using length_sparse_list[of "the_rows h ! j"] by (metis length_0_conv unat_eq_0)
    then show ?thesis by (simp add: sparse_map_def row_map_dom)
  qed
  show "sparse_indices h = ok (filter (\<lambda>j. dom (sparse_map h j) \<noteq> {}) [0..<num_total h])"
    unfolding sparse_indices_def
    by (subst fold_outcome_filter[where P = "\<lambda>j. dom (sparse_map h j) \<noteq> {}"])
      (auto simp: rows_at_ok[OF assms(1)] e)
qed (rule sparse_entries_ok[OF assms(1)])

lemma sparse_queries_correct_witness:
  "sparse_contains 1 3 two_rows = ok False \<and> sparse_indices two_rows = ok []"
proof -
  have "sparse_map two_rows j = (\<lambda>_. None)" if "j < 2" for j
    using that less_2_cases[OF that]
    by (auto simp: sparse_map_def two_rows_ok sparse_row_map_def sparse_list_def row_elems_def row_new_def entry_pairs_def)
  then show ?thesis
    using sparse_queries_correct[of two_rows 1 3] by (simp add: two_rows_ok)
qed

end
