(* ===== verification/Reorder.thy ===== *)
theory Reorder
  imports Flecsi_Prelude
begin

text \<open>
  The in-place permutations of reorder.h and the sorted-range test of set\_intersection.h. The
  loops of \<open>reorder\<close> follow the cycles of the order array and need not end on an array that is not
  a permutation, so they are partial functions: \<open>None\<close> stands for a run that never returns or
  leaves the arrays. \<open>index_t(-1)\<close>, the mark of \<open>reorder_destructive\<close>, is \<open>None\<close> in the order
  array.
\<close>

section \<open>The loops\<close>

text \<open>\<open>for(d = order[s]; d > s; d = order[d]);\<close>\<close>

partial_function (option) find_not_above :: "nat list \<Rightarrow> nat \<Rightarrow> nat \<Rightarrow> nat option" where
  "find_not_above order s d =
     (if s < d then (if d < length order then find_not_above order s (order ! d) else None) else Some d)"

text \<open>\<open>while(d = order[d], d != s)\<close> with the swap of its body.\<close>

partial_function (option) rotate_cycle ::
    "nat list \<Rightarrow> nat \<Rightarrow> nat \<Rightarrow> 'a \<Rightarrow> 'a list \<Rightarrow> int \<Rightarrow> ('a list \<times> int) option" where
  "rotate_cycle order s d temp v rem =
     (if d < length order then
        let d' = order ! d in
        if d' = s then Some (v[s := temp], rem)
        else if d' < length v then rotate_cycle order s d' (v ! d') (v[d' := temp]) (rem - 1)
        else None
      else None)"

partial_function (option) reorder_loop :: "nat list \<Rightarrow> nat \<Rightarrow> int \<Rightarrow> 'a list \<Rightarrow> 'a list option" where
  "reorder_loop order s rem v =
     (if 0 < rem then
        if s < length order \<and> s < length v then
          case find_not_above order s (order ! s) of None \<Rightarrow> None
          | Some d \<Rightarrow>
             if d = s then
               case rotate_cycle order s d (v ! s) v (rem - 1) of None \<Rightarrow> None
               | Some (v, rem) \<Rightarrow> reorder_loop order (s + 1) rem v
             else reorder_loop order (s + 1) rem v
        else None
      else Some v)"

definition reorder :: "nat list \<Rightarrow> 'a list \<Rightarrow> 'a list option" where
  "reorder order v = reorder_loop order 0 (int (length order) - 1) v"

text \<open>\<open>for(index_t d2; d != s; d = d2)\<close> of \<open>reorder_destructive\<close>: the visited entries are marked.\<close>

partial_function (option) rotate_marking ::
    "nat option list \<Rightarrow> nat \<Rightarrow> nat \<Rightarrow> 'a \<Rightarrow> 'a list \<Rightarrow> int \<Rightarrow> (nat option list \<times> 'a list \<times> int) option" where
  "rotate_marking order s d temp v rem =
     (if d = s then Some (order, v[s := temp], rem)
      else if d < length order \<and> d < length v then
        case order ! d of None \<Rightarrow> None
        | Some d2 \<Rightarrow> rotate_marking (order[d := None]) s d2 (v ! d) (v[d := temp]) (rem - 1)
      else None)"

partial_function (option) reorder_destructive_loop ::
    "nat option list \<Rightarrow> nat \<Rightarrow> int \<Rightarrow> 'a list \<Rightarrow> 'a list option" where
  "reorder_destructive_loop order s rem v =
     (if 0 < rem then
        if s < length order \<and> s < length v then
          case order ! s of None \<Rightarrow> reorder_destructive_loop order (s + 1) rem v
          | Some d \<Rightarrow>
             (case rotate_marking order s d (v ! s) v (rem - 1) of None \<Rightarrow> None
              | Some (order, v, rem) \<Rightarrow> reorder_destructive_loop order (s + 1) rem v)
        else None
      else Some v)"

definition reorder_destructive :: "nat list \<Rightarrow> 'a list \<Rightarrow> 'a list option" where
  "reorder_destructive order v = reorder_destructive_loop (map Some order) 0 (int (length order) - 1) v"

text \<open>\<open>intersects\<close>: two pointers into ascending ranges.\<close>

fun intersects :: "'a::linorder list \<Rightarrow> 'a list \<Rightarrow> bool" where
  "intersects [] ys = False"
| "intersects xs [] = False"
| "intersects (x # xs) (y # ys) =
     (if x < y then intersects xs (y # ys)
      else if y < x then intersects (x # xs) ys
      else True)"

section \<open>Cycles of a permutation\<close>

definition perm_list :: "nat list \<Rightarrow> bool" where
  "perm_list order \<longleftrightarrow> distinct order \<and> list_all (\<lambda>i. i < length order) order"

definition iter :: "nat list \<Rightarrow> nat \<Rightarrow> nat \<Rightarrow> nat" where
  "iter order k s = ((!) order ^^ k) s"

definition orbit :: "nat list \<Rightarrow> nat \<Rightarrow> nat set" where
  "orbit order s = range (\<lambda>k. iter order k s)"

definition period :: "nat list \<Rightarrow> nat \<Rightarrow> nat" where
  "period order s = (LEAST k. 0 < k \<and> iter order k s = s)"

lemma iter_0 [simp]: "iter order 0 s = s"
  by (simp add: iter_def)

lemma iter_Suc: "iter order (Suc k) s = order ! iter order k s"
  by (simp add: iter_def)

lemma iter_add: "iter order (j + k) s = iter order j (iter order k s)"
  by (simp add: iter_def funpow_add)

lemma perm_nth_less: "perm_list order \<Longrightarrow> i < length order \<Longrightarrow> order ! i < length order"
  by (simp add: perm_list_def list_all_length)

lemma iter_less: "perm_list order \<Longrightarrow> s < length order \<Longrightarrow> iter order k s < length order"
  by (induction k) (auto simp: iter_Suc perm_nth_less)

lemma iter_inj:
  assumes "perm_list order" "s < length order" "t < length order" "iter order k s = iter order k t"
  shows "s = t"
  using assms(4)
proof (induction k)
  case (Suc k)
  then have "order ! iter order k s = order ! iter order k t" by (simp add: iter_Suc)
  then have "iter order k s = iter order k t"
    using assms(1) iter_less[OF assms(1)] assms(2,3) by (auto simp: perm_list_def nth_eq_iff_index_eq)
  then show ?case by (rule Suc.IH)
qed simp

lemma iter_cycle:
  assumes "perm_list order" "s < length order" "iter order i s = iter order j s" "i \<le> j"
  shows "iter order (j - i) s = s"
proof -
  have "iter order i (iter order (j - i) s) = iter order i s"
    using assms(3,4) by (simp add: iter_add[symmetric])
  then show ?thesis using iter_inj[OF assms(1) iter_less[OF assms(1,2)] assms(2)] by blast
qed

lemma period_exists:
  assumes "perm_list order" "s < length order"
  shows "\<exists>k>0. iter order k s = s"
proof -
  have "\<not> inj_on (\<lambda>k. iter order k s) {..length order}"
  proof (rule pigeonhole)
    have "(\<lambda>k. iter order k s) ` {..length order} \<subseteq> {..<length order}"
      using iter_less[OF assms] by auto
    then have "card ((\<lambda>k. iter order k s) ` {..length order}) \<le> card {..<length order}"
      by (intro card_mono) auto
    then show "card ((\<lambda>k. iter order k s) ` {..length order}) < card {..length order}" by simp
  qed
  then obtain i j where "i < j" "iter order i s = iter order j s"
    unfolding inj_on_def by (metis nat_neq_iff)
  then show ?thesis using iter_cycle[OF assms, of i j] by (intro exI[of _ "j - i"]) auto
qed

lemma period_props:
  assumes "perm_list order" "s < length order"
  shows "0 < period order s" "iter order (period order s) s = s"
    "\<And>k. 0 < k \<Longrightarrow> k < period order s \<Longrightarrow> iter order k s \<noteq> s"
proof -
  have "0 < period order s \<and> iter order (period order s) s = s"
    unfolding period_def by (rule LeastI_ex[OF period_exists[OF assms, simplified]])
  then show "0 < period order s" "iter order (period order s) s = s" by auto
  show "iter order k s \<noteq> s" if "0 < k" "k < period order s" for k
    using that not_less_Least unfolding period_def by blast
qed

lemma iter_distinct:
  assumes "perm_list order" "s < length order" "i < period order s" "j < period order s"
    and "iter order i s = iter order j s"
  shows "i = j"
proof (rule ccontr)
  assume "i \<noteq> j"
  have A: False if "i < j" "j < period order s" "iter order i s = iter order j s" for i j
    using iter_cycle[OF assms(1,2) that(3)] that(1,2) period_props(3)[OF assms(1,2), of "j - i"] by simp
  then show False using A[of i j] A[of j i] assms(3-5) \<open>i \<noteq> j\<close> by (cases "i < j") auto
qed

lemma iter_multiple: "iter order c s = s \<Longrightarrow> iter order (m * c) s = s"
  by (induction m) (simp_all add: iter_add)

lemma iter_mod:
  assumes "iter order c s = s"
  shows "iter order k s = iter order (k mod c) s"
proof -
  have "iter order k s = iter order (k mod c + k div c * c) s" by simp
  also have "\<dots> = iter order (k mod c) s" using iter_multiple[OF assms] by (simp only: iter_add)
  finally show ?thesis .
qed

lemma orbit_image:
  assumes "iter order c s = s" "0 < c"
  shows "orbit order s = (\<lambda>k. iter order k s) ` {..<c}"
proof -
  have "iter order k s \<in> (\<lambda>k. iter order k s) ` {..<c}" for k
    using iter_mod[OF assms(1), of k] assms(2) by (intro image_eqI[of _ _ "k mod c"]) auto
  then show ?thesis by (auto simp: orbit_def)
qed

lemma card_orbit:
  assumes "perm_list order" "s < length order"
  shows "card (orbit order s) = period order s"
proof -
  have "inj_on (\<lambda>k. iter order k s) {..<period order s}"
    using iter_distinct[OF assms] by (auto simp: inj_on_def)
  then show ?thesis
    using orbit_image[OF period_props(2,1)[OF assms]] by (simp add: card_image)
qed

lemma orbit_self [simp]: "s \<in> orbit order s"
  unfolding orbit_def by (rule range_eqI[of _ _ 0]) simp

lemma orbit_step: "t \<in> orbit order s \<Longrightarrow> order ! t \<in> orbit order s"
  by (auto simp: orbit_def iter_Suc[symmetric])

lemma orbit_less: "perm_list order \<Longrightarrow> s < length order \<Longrightarrow> t \<in> orbit order s \<Longrightarrow> t < length order"
  by (auto simp: orbit_def iter_less)

lemma orbit_sym:
  assumes "perm_list order" "s < length order" "t \<in> orbit order s"
  shows "s \<in> orbit order t"
proof -
  obtain k where k: "k < period order s" "t = iter order k s"
    using assms(3) orbit_image[OF period_props(2,1)[OF assms(1,2)]] by auto
  have "iter order (period order s - k) t = s"
    using k period_props(2)[OF assms(1,2)] by (simp add: iter_add[symmetric])
  then show ?thesis by (metis orbit_def rangeI)
qed

lemma orbit_trans: "t \<in> orbit order s \<Longrightarrow> u \<in> orbit order t \<Longrightarrow> u \<in> orbit order s"
  by (auto simp: orbit_def iter_add[symmetric])

lemma orbit_preimage:
  assumes "perm_list order" "i < length order" "order ! i \<in> orbit order s" "s < length order"
  shows "i \<in> orbit order s"
proof -
  have "order ! i \<in> orbit order i" by (rule orbit_step) simp
  then have "i \<in> orbit order (order ! i)" by (rule orbit_sym[OF assms(1,2)])
  then show ?thesis using orbit_trans assms(3) by blast
qed


section \<open>The inner loops\<close>

lemma find_not_above_stops:
  assumes "perm_list order" "s < length order" "0 < k" "k \<le> j"
    and "\<And>i. k \<le> i \<Longrightarrow> i < j \<Longrightarrow> s < iter order i s" and "iter order j s \<le> s"
  shows "find_not_above order s (iter order k s) = Some (iter order j s)"
  using assms(3-6)
proof (induction "j - k" arbitrary: k)
  case 0
  then show ?case by (simp add: find_not_above.simps)
next
  case (Suc m)
  then have "k < j" by simp
  then have "s < iter order k s" using Suc.prems by blast
  moreover have "find_not_above order s (iter order (Suc k) s) = Some (iter order j s)"
    using Suc \<open>k < j\<close> by (intro Suc.hyps) auto
  ultimately show ?case
    using iter_less[OF assms(1,2), of k] by (simp add: find_not_above.simps iter_Suc)
qed

lemma find_not_above_min:
  assumes "perm_list order" "s < length order"
  shows "\<exists>d. find_not_above order s (order ! s) = Some d \<and> d \<in> orbit order s \<and>
    (d = s \<longleftrightarrow> (\<forall>t\<in>orbit order s. s \<le> t))"
proof -
  define j where "j = (LEAST k. 0 < k \<and> iter order k s \<le> s)"
  have ex: "0 < period order s \<and> iter order (period order s) s \<le> s"
    using period_props(1,2)[OF assms] by simp
  have j: "0 < j" "iter order j s \<le> s"
    using LeastI[of "\<lambda>k. 0 < k \<and> iter order k s \<le> s", OF ex] by (auto simp: j_def)
  have above: "s < iter order k s" if "0 < k" "k < j" for k
    using not_less_Least[of k "\<lambda>k. 0 < k \<and> iter order k s \<le> s"] that by (auto simp: j_def)
  have "find_not_above order s (iter order 1 s) = Some (iter order j s)"
    using j above by (intro find_not_above_stops[OF assms]) auto
  moreover have "iter order j s = s \<longleftrightarrow> (\<forall>t\<in>orbit order s. s \<le> t)"
  proof
    assume js: "iter order j s = s"
    have "s \<le> iter order k s" if "k < j" for k
      using that above by (cases "k = 0") (auto intro: less_imp_le)
    then show "\<forall>t\<in>orbit order s. s \<le> t" using orbit_image[OF js j(1)] by auto
  next
    assume "\<forall>t\<in>orbit order s. s \<le> t"
    then have "s \<le> iter order j s" by (simp add: orbit_def)
    then show "iter order j s = s" using j(2) by simp
  qed
  ultimately show ?thesis by (auto simp: iter_Suc orbit_def)
qed

text \<open>What one rotation does: along the cycle of \<open>s\<close>, every value moves one step, the carried
  value \<open>temp\<close> arriving first.\<close>

definition rotated :: "nat list \<Rightarrow> nat \<Rightarrow> nat \<Rightarrow> 'a \<Rightarrow> 'a list \<Rightarrow> 'a list \<Rightarrow> bool" where
  "rotated order s k temp v v' \<longleftrightarrow> length v' = length v \<and> v' ! iter order (Suc k) s = temp \<and>
     (\<forall>i. k < i \<longrightarrow> i < period order s \<longrightarrow> v' ! iter order (Suc i) s = v ! iter order i s) \<and>
     (\<forall>t<length v. t \<notin> (\<lambda>i. iter order (Suc i) s) ` {k..<period order s} \<longrightarrow> v' ! t = v ! t)"

lemma rotated_last:
  assumes "Suc k = period order s" "iter order (Suc k) s = s" "s < length v"
  shows "rotated order s k temp v (v[s := temp])"
proof -
  have "s \<in> (\<lambda>i. iter order (Suc i) s) ` {k..<period order s}"
    using assms(1,2) by (intro image_eqI[of _ _ k]) auto
  then show ?thesis using assms by (auto simp: rotated_def nth_list_update)
qed

lemma rotated_step:
  assumes p: "perm_list order" "s < length order" and k: "Suc k < period order s"
    and d: "d = iter order (Suc k) s" "d < length v"
    and r: "rotated order s (Suc k) (v ! d) (v[d := temp]) v'"
  shows "rotated order s k temp v v'"
  unfolding rotated_def
proof (intro conjI allI impI)
  have fresh: "iter order i s \<noteq> d" if "Suc k < i" "i \<le> period order s" for i
  proof (cases "i = period order s")
    case True
    then show ?thesis using period_props(2)[OF p] period_props(3)[OF p, of "Suc k"] k d(1) by auto
  next
    case False
    then show ?thesis using iter_distinct[OF p, of i "Suc k"] that k d(1) by auto
  qed
  show "length v' = length v" using r by (simp add: rotated_def)
  have d_out: "d \<notin> (\<lambda>i. iter order (Suc i) s) ` {Suc k..<period order s}"
  proof
    assume "d \<in> (\<lambda>i. iter order (Suc i) s) ` {Suc k..<period order s}"
    then obtain i where "i \<in> {Suc k..<period order s}" "d = iter order (Suc i) s" by blast
    then show False using fresh[of "Suc i"] by auto
  qed
  then show "v' ! iter order (Suc k) s = temp"
    using r d by (simp add: rotated_def)
  show "v' ! iter order (Suc i) s = v ! iter order i s" if "k < i" "i < period order s" for i
  proof (cases "i = Suc k")
    case True
    then show ?thesis using r d by (simp add: rotated_def)
  next
    case False
    then have "v' ! iter order (Suc i) s = v[d := temp] ! iter order i s"
      using r that by (simp add: rotated_def)
    then show ?thesis using fresh[of i] False that by simp
  qed
  show "v' ! t = v ! t" if "t < length v" "t \<notin> (\<lambda>i. iter order (Suc i) s) ` {k..<period order s}" for t
  proof -
    have "t \<noteq> d" using that(2) d(1) k by auto
    moreover have "t \<notin> (\<lambda>i. iter order (Suc i) s) ` {Suc k..<period order s}" using that(2) by auto
    ultimately show ?thesis using r that(1) by (auto simp: rotated_def)
  qed
qed

lemma rotate_cycle_rotated:
  assumes "perm_list order" "s < length order"
  shows "length v = length order \<Longrightarrow> k < period order s \<Longrightarrow>
    \<exists>v'. rotate_cycle order s (iter order k s) temp v rem
        = Some (v', rem - (int (period order s) - int k - 1)) \<and> rotated order s k temp v v'"
proof (induction "period order s - k" arbitrary: k temp v rem)
  case (Suc m)
  let ?d = "iter order (Suc k) s"
  have dl: "iter order k s < length order" "?d < length v"
    using iter_less[OF assms] Suc.prems(1) by auto
  show ?case
  proof (cases "Suc k = period order s")
    case True
    then have "?d = s" using period_props(2)[OF assms] by simp
    then show ?thesis
      using dl rotated_last[OF True, of v temp] assms(2) Suc.prems(1) True[symmetric]
      by (simp add: rotate_cycle.simps[of order s "iter order k s"] iter_Suc)
  next
    case False
    then have lt: "Suc k < period order s" using Suc.prems(2) by simp
    have m: "m = period order s - Suc k" using Suc.hyps(2) by simp
    have ne: "?d \<noteq> s" using period_props(3)[OF assms, of "Suc k"] lt by simp
    obtain v' where v': "rotate_cycle order s ?d (v ! ?d) (v[?d := temp]) (rem - 1)
        = Some (v', rem - 1 - (int (period order s) - int (Suc k) - 1))"
      "rotated order s (Suc k) (v ! ?d) (v[?d := temp]) v'"
      using Suc.hyps(1)[OF m, of "v[?d := temp]" "v ! ?d" "rem - 1"] Suc.prems(1) lt by auto
    have "rotated order s k temp v v'"
      by (rule rotated_step[OF assms lt refl dl(2) v'(2)])
    then show ?thesis
      using v'(1) dl ne
      by (simp add: rotate_cycle.simps[of order s "iter order k s"] iter_Suc[symmetric])
  qed
qed simp

section \<open>The outer loop\<close>

definition visited :: "nat list \<Rightarrow> nat \<Rightarrow> nat set" where
  "visited order s = (\<Union>t\<in>{..<s}. orbit order t)"

text \<open>After \<open>s\<close> turns exactly the elements of the cycles met so far are in place.\<close>

definition placed :: "nat list \<Rightarrow> 'a list \<Rightarrow> nat set \<Rightarrow> 'a list \<Rightarrow> bool" where
  "placed order v0 D v \<longleftrightarrow> length v = length order \<and>
     (\<forall>i<length order. if i \<in> D then v ! (order ! i) = v0 ! i else v ! i = v0 ! i)"

lemma visited_Suc: "visited order (Suc s) = visited order s \<union> orbit order s"
  by (auto simp: visited_def lessThan_Suc)

lemma visited_less: "t < s \<Longrightarrow> t \<in> visited order s"
  by (auto simp: visited_def intro!: bexI[of _ t])

lemma visited_orbit:
  assumes "perm_list order" "s < length order"
  shows "s \<in> visited order s \<Longrightarrow> orbit order s \<subseteq> visited order s"
    and "s \<notin> visited order s \<Longrightarrow> orbit order s \<inter> visited order s = {}"
    and "s \<in> visited order s \<longleftrightarrow> (\<exists>t\<in>orbit order s. t < s)"
proof -
  show "orbit order s \<subseteq> visited order s" if "s \<in> visited order s"
    using that orbit_trans by (fastforce simp: visited_def)
  show "orbit order s \<inter> visited order s = {}" if "s \<notin> visited order s"
  proof (rule ccontr)
    assume "orbit order s \<inter> visited order s \<noteq> {}"
    then obtain u t where ut: "u \<in> orbit order s" "t < s" "u \<in> orbit order t" by (auto simp: visited_def)
    then have "s \<in> orbit order t" using orbit_trans[OF _ orbit_sym[OF assms ut(1)]] by blast
    then show False using that ut(2) by (auto simp: visited_def)
  qed
  show "s \<in> visited order s \<longleftrightarrow> (\<exists>t\<in>orbit order s. t < s)"
  proof
    assume "s \<in> visited order s"
    then obtain t where t: "t < s" "s \<in> orbit order t" by (auto simp: visited_def)
    then show "\<exists>t\<in>orbit order s. t < s" using orbit_sym[OF assms(1) _ t(2)] assms(2) by auto
  next
    assume "\<exists>t\<in>orbit order s. t < s"
    then show "s \<in> visited order s" using orbit_sym[OF assms] by (auto simp: visited_def)
  qed
qed

lemma visited_subset:
  assumes "perm_list order" "s \<le> length order"
  shows "visited order s \<subseteq> {..<length order}"
proof -
  have "t < length order" if "u < s" "t \<in> orbit order u" for t u
    using orbit_less[OF assms(1) _ that(2)] that(1) assms(2) by simp
  then show ?thesis by (auto simp: visited_def)
qed

lemma card_visited_Suc:
  assumes "perm_list order" "s < length order" "s \<notin> visited order s"
  shows "card (visited order (Suc s)) = card (visited order s) + period order s"
proof -
  have "finite (visited order s)" "finite (orbit order s)"
    using visited_subset[OF assms(1), of s] assms(2) orbit_less[OF assms(1,2)]
      finite_subset[of "visited order s" "{..<length order}"] finite_subset[of "orbit order s" "{..<length order}"]
    by auto
  then show ?thesis
    using visited_orbit(2)[OF assms] card_orbit[OF assms(1,2)]
    by (simp add: visited_Suc card_Un_disjoint Int_commute)
qed

lemma placed_rotated:
  assumes "perm_list order" "s < length order" "s \<notin> visited order s"
    and "placed order v0 (visited order s) v" "rotated order s 0 (v ! s) v v'"
  shows "placed order v0 (visited order (Suc s)) v'"
  unfolding placed_def
proof (intro conjI allI impI)
  let ?c = "period order s"
  have orb: "orbit order s = (\<lambda>i. iter order (Suc i) s) ` {0..<?c}"
  proof -
    have "iter order (Suc i) s \<in> orbit order s" for i by (auto simp: orbit_def)
    moreover have "t \<in> (\<lambda>i. iter order (Suc i) s) ` {0..<?c}" if t: "t \<in> orbit order s" for t
    proof -
      obtain k where k: "k < ?c" "t = iter order k s"
        using t orbit_image[OF period_props(2,1)[OF assms(1,2)]] by auto
      show ?thesis
      proof (cases k)
        case 0
        then show ?thesis
          using k period_props(1,2)[OF assms(1,2)] by (intro image_eqI[of _ _ "?c - 1"]) auto
      next
        case (Suc j)
        then show ?thesis using k by (intro image_eqI[of _ _ j]) auto
      qed
    qed
    ultimately show ?thesis by auto
  qed
  have len: "length v = length order" using assms(4) by (simp add: placed_def)
  show "length v' = length order" using assms(5) len by (simp add: rotated_def)
  fix i assume i: "i < length order"
  have v: "if i \<in> visited order s then v ! (order ! i) = v0 ! i else v ! i = v0 ! i"
    using assms(4) i by (simp add: placed_def)
  have same: "v' ! t = v ! t" if "t < length order" "t \<notin> orbit order s" for t
    using assms(5) that len orb by (simp add: rotated_def)
  show "if i \<in> visited order (Suc s) then v' ! (order ! i) = v0 ! i else v' ! i = v0 ! i"
  proof (cases "i \<in> orbit order s")
    case True
    then obtain k where k: "k < ?c" "i = iter order k s"
      using orbit_image[OF period_props(2,1)[OF assms(1,2)]] by auto
    have "v' ! iter order (Suc k) s = v ! iter order k s"
      using assms(5) k(1) by (cases "k = 0") (auto simp: rotated_def)
    moreover have "i \<notin> visited order s" using visited_orbit(2)[OF assms(1-3)] True by auto
    ultimately show ?thesis using True v k(2) by (simp add: visited_Suc iter_Suc)
  next
    case False
    then have "order ! i \<notin> orbit order s"
      using orbit_preimage[OF assms(1) i _ assms(2)] by blast
    then show ?thesis
      using False v same[OF i] same[OF perm_nth_less[OF assms(1) i]] by (simp add: visited_Suc)
  qed
qed

lemma placed_all:
  assumes "perm_list order" "placed order v0 D v" "D \<subseteq> {..<length order}"
    and "length order \<le> card D + 1" and "\<And>i. i < length order \<Longrightarrow> i \<notin> D \<Longrightarrow> order ! i \<notin> D"
  shows "\<forall>i<length order. v ! (order ! i) = v0 ! i"
proof (intro allI impI)
  fix i assume i: "i < length order"
  show "v ! (order ! i) = v0 ! i"
  proof (cases "i \<in> D")
    case True
    then show ?thesis using assms(2) i by (simp add: placed_def)
  next
    case False
    have "order ! i = i"
    proof (rule ccontr)
      assume ne: "order ! i \<noteq> i"
      have "D \<subseteq> {..<length order} - {i, order ! i}" using assms(3,5) i False by blast
      then have "card D \<le> card ({..<length order} - {i, order ! i})" by (intro card_mono) auto
      also have "\<dots> = length order - 2"
        using i ne perm_nth_less[OF assms(1) i] by (subst card_Diff_subset) auto
      finally show False using assms(4) i ne perm_nth_less[OF assms(1) i] by linarith
    qed
    then show ?thesis using assms(2) i False by (simp add: placed_def)
  qed
qed


lemma visited_closed:
  assumes "perm_list order" "s \<le> length order" "i < length order" "order ! i \<in> visited order s"
  shows "i \<in> visited order s"
proof -
  obtain t where t: "t < s" "order ! i \<in> orbit order t" using assms(4) by (auto simp: visited_def)
  then have "i \<in> orbit order t" using orbit_preimage[OF assms(1,3) t(2)] assms(2) by simp
  then show ?thesis using t(1) by (auto simp: visited_def)
qed

lemma visited_unfinished:
  assumes "perm_list order" "s \<le> length order" "card (visited order s) + 1 < length order"
  shows "s < length order"
proof (rule ccontr)
  assume "\<not> s < length order"
  then have "visited order s = {..<length order}"
    using visited_subset[OF assms(1,2)] visited_less[of _ s order] by auto
  then show False using assms(3) by simp
qed

lemma visited_finished:
  assumes "perm_list order" "s \<le> length order" "length order \<le> card (visited order s) + 1"
    and "placed order v0 (visited order s) v"
  shows "length v = length order \<and> (\<forall>i<length order. v ! (order ! i) = v0 ! i)"
proof -
  have "\<forall>i<length order. v ! (order ! i) = v0 ! i"
    by (rule placed_all[OF assms(1,4) visited_subset[OF assms(1,2)] assms(3)])
      (use visited_closed[OF assms(1,2)] in blast)
  then show ?thesis using assms(4) by (simp add: placed_def)
qed

lemma reorder_loop_correct:
  assumes "perm_list order"
  shows "s \<le> length order \<Longrightarrow> placed order v0 (visited order s) v \<Longrightarrow>
    rem = int (length order) - 1 - int (card (visited order s)) \<Longrightarrow>
    \<exists>v'. reorder_loop order s rem v = Some v' \<and> length v' = length order \<and>
      (\<forall>i<length order. v' ! (order ! i) = v0 ! i)"
proof (induction "length order - s" arbitrary: s rem v rule: less_induct)
  case less
  show ?case
  proof (cases "0 < rem")
    case False
    then have "length order \<le> card (visited order s) + 1" using less.prems(3) by linarith
    then show ?thesis
      using visited_finished[OF assms less.prems(1) _ less.prems(2)] False
      by (simp add: reorder_loop.simps)
  next
    case True
    then have "card (visited order s) + 1 < length order" using less.prems(3) by linarith
    then have s: "s < length order" by (rule visited_unfinished[OF assms less.prems(1)])
    have sv: "s < length v" using s less.prems(2) by (simp add: placed_def)
    have IH: "placed order v0 (visited order (Suc s)) v' \<Longrightarrow>
        rem' = int (length order) - 1 - int (card (visited order (Suc s))) \<Longrightarrow>
        \<exists>w. reorder_loop order (Suc s) rem' v' = Some w \<and> length w = length order \<and>
          (\<forall>i<length order. w ! (order ! i) = v0 ! i)" for rem' v'
      using s by (intro less.hyps) auto
    obtain d where d: "find_not_above order s (order ! s) = Some d"
      "d = s \<longleftrightarrow> (\<forall>t\<in>orbit order s. s \<le> t)"
      using find_not_above_min[OF assms s] by blast
    show ?thesis
    proof (cases "s \<in> visited order s")
      case True
      then have "visited order (Suc s) = visited order s"
        using visited_orbit(1)[OF assms s] by (auto simp: visited_Suc)
      moreover have "d \<noteq> s" using d(2) visited_orbit(3)[OF assms s] True by (auto simp: not_le)
      ultimately show ?thesis
        using IH less.prems(2,3) d(1) s sv \<open>0 < rem\<close>
        by (simp add: reorder_loop.simps[of order s])
    next
      case False
      then have ds: "d = s" using d(2) visited_orbit(3)[OF assms s] by (auto simp: not_less)
      have "length v = length order" using less.prems(2) by (simp add: placed_def)
      then obtain v' where v': "rotate_cycle order s s (v ! s) v (rem - 1) = Some (v', rem - int (period order s))"
        "rotated order s 0 (v ! s) v v'"
        using rotate_cycle_rotated[OF assms s, of v 0 "v ! s" "rem - 1"] period_props(1)[OF assms s] by auto
      have "placed order v0 (visited order (Suc s)) v'"
        by (rule placed_rotated[OF assms s False less.prems(2) v'(2)])
      moreover have "rem - int (period order s) = int (length order) - 1 - int (card (visited order (Suc s)))"
        using card_visited_Suc[OF assms s False] less.prems(3) by simp
      ultimately show ?thesis
        using IH v'(1) d(1) ds s sv \<open>0 < rem\<close> by (simp add: reorder_loop.simps[of order s])
    qed
  qed
qed

text \<open>
  C29: on every permutation, \<open>reorder\<close> returns, and it moves the value at position \<open>i\<close> to position
  \<open>order[i]\<close>.
\<close>

theorem reorder_permutes:
  assumes "perm_list order" "length v = length order"
  shows "\<exists>v'. reorder order v = Some v' \<and> length v' = length v \<and>
    (\<forall>i<length v. v' ! (order ! i) = v ! i)"
proof -
  have "placed order v (visited order 0) v" "visited order 0 = {}"
    using assms(2) by (simp_all add: placed_def visited_def)
  then show ?thesis
    using reorder_loop_correct[OF assms(1), of 0 v v "int (length order) - 1"] assms(2)
    by (simp add: reorder_def)
qed

lemma reorder_permutes_witness:
  "\<exists>v'. reorder [2, 0, 1, 3] ''abcd'' = Some v' \<and> v' = ''bcad''"
proof -
  obtain v' where v': "reorder [2, 0, 1, 3] ''abcd'' = Some v'" "length v' = 4"
    "\<forall>i<4. v' ! ([2, 0, 1, 3] ! i) = ''abcd'' ! i"
    using reorder_permutes[of "[2, 0, 1, 3]" "''abcd''"] by (auto simp: perm_list_def)
  have "v' ! 2 = CHR ''a''" "v' ! 0 = CHR ''b''" "v' ! 1 = CHR ''c''" "v' ! 3 = CHR ''d''"
    using v'(3)[rule_format, of 0] v'(3)[rule_format, of 1] v'(3)[rule_format, of 2] v'(3)[rule_format, of 3]
    by (simp_all add: numeral_2_eq_2 numeral_3_eq_3)
  then have "v' = ''bcad''"
    using v'(2) by (intro nth_equalityI) (auto simp: less_Suc_eq numeral_2_eq_2 numeral_3_eq_3 eval_nat_numeral)
  then show ?thesis using v'(1) by blast
qed

section \<open>The destructive variant\<close>

definition marks :: "nat list \<Rightarrow> nat \<Rightarrow> nat set \<Rightarrow> nat option list \<Rightarrow> bool" where
  "marks order s D mo \<longleftrightarrow> length mo = length order \<and>
     (\<forall>i<length order. s \<le> i \<longrightarrow> mo ! i = (if i \<in> D then None else Some (order ! i)))"

lemma rotate_marking_rotated:
  assumes "perm_list order" "s < length order" "s \<notin> D" "orbit order s \<inter> D = {}" "\<forall>t\<in>orbit order s. s \<le> t"
  shows "length v = length order \<Longrightarrow> k < period order s \<Longrightarrow>
    marks order (Suc s) (D \<union> (\<lambda>i. iter order i s) ` {0<..k}) mo \<Longrightarrow>
    \<exists>mo' v'. rotate_marking mo s (iter order (Suc k) s) temp v rem
        = Some (mo', v', rem - (int (period order s) - int k - 1)) \<and>
      rotated order s k temp v v' \<and> marks order (Suc s) (D \<union> orbit order s) mo'"
proof (induction "period order s - k" arbitrary: k temp v rem mo)
  case (Suc m)
  let ?d = "iter order (Suc k) s"
  have dl: "?d < length order" "?d < length v"
    using iter_less[OF assms(1,2)] Suc.prems(1) by auto
  show ?case
  proof (cases "Suc k = period order s")
    case True
    then have "?d = s" using period_props(2)[OF assms(1,2)] by simp
    moreover have "marks order (Suc s) (D \<union> orbit order s) mo"
    proof -
      have "t \<in> D \<union> orbit order s \<longleftrightarrow> t \<in> D \<union> (\<lambda>i. iter order i s) ` {0<..k}" if "Suc s \<le> t" for t
      proof -
        have "{..<period order s} = insert 0 {0<..k}" using True by auto
        then have "orbit order s = insert s ((\<lambda>i. iter order i s) ` {0<..k})"
          using orbit_image[OF period_props(2,1)[OF assms(1,2)]] by simp
        then show ?thesis using that by auto
      qed
      then show ?thesis using Suc.prems(3) by (auto simp: marks_def)
    qed
    ultimately show ?thesis
      using rotated_last[OF True, of v temp] assms(2) Suc.prems(1) True[symmetric]
      by (simp add: rotate_marking.simps[of mo s])
  next
    case False
    then have lt: "Suc k < period order s" using Suc.prems(2) by simp
    have ne: "?d \<noteq> s" using period_props(3)[OF assms(1,2), of "Suc k"] lt by simp
    have m: "m = period order s - Suc k" using Suc.hyps(2) by simp
    have orb: "?d \<in> orbit order s" unfolding orbit_def by (rule rangeI)
    have "s < ?d" using bspec[OF assms(5) orb] ne by simp
    moreover have "?d \<notin> D" using assms(4) orb by auto
    moreover have "?d \<notin> (\<lambda>i. iter order i s) ` {0<..k}"
    proof
      assume "?d \<in> (\<lambda>i. iter order i s) ` {0<..k}"
      then obtain i where "i \<le> k" "?d = iter order i s" by auto
      then show False using iter_distinct[OF assms(1,2), of "Suc k" i] lt by simp
    qed
    ultimately have mo: "mo ! ?d = Some (iter order (Suc (Suc k)) s)"
      using Suc.prems(3) dl(1) by (simp add: marks_def iter_Suc)
    have mk: "marks order (Suc s) (D \<union> (\<lambda>i. iter order i s) ` {0<..Suc k}) (mo[?d := None])"
    proof -
      have "{0<..Suc k} = insert (Suc k) {0<..k}" by auto
      then show ?thesis using Suc.prems(3) dl(1) by (auto simp: marks_def nth_list_update)
    qed
    obtain mo' v' where v': "rotate_marking (mo[?d := None]) s (iter order (Suc (Suc k)) s) (v ! ?d) (v[?d := temp]) (rem - 1)
        = Some (mo', v', rem - 1 - (int (period order s) - int (Suc k) - 1))"
      "rotated order s (Suc k) (v ! ?d) (v[?d := temp]) v'" "marks order (Suc s) (D \<union> orbit order s) mo'"
      using Suc.hyps(1)[OF m _ lt mk, of "v[?d := temp]" "v ! ?d" "rem - 1"] Suc.prems(1) by auto
    have "rotated order s k temp v v'"
      by (rule rotated_step[OF assms(1,2) lt refl dl(2) v'(2)])
    moreover have "length mo = length order" using Suc.prems(3) by (simp add: marks_def)
    ultimately show ?thesis
      using v'(1,3) dl ne mo by (simp add: rotate_marking.simps[of mo s])
  qed
qed simp

lemma reorder_destructive_loop_correct:
  assumes "perm_list order"
  shows "s \<le> length order \<Longrightarrow> placed order v0 (visited order s) v \<Longrightarrow> marks order s (visited order s) mo \<Longrightarrow>
    rem = int (length order) - 1 - int (card (visited order s)) \<Longrightarrow>
    \<exists>v'. reorder_destructive_loop mo s rem v = Some v' \<and> length v' = length order \<and>
      (\<forall>i<length order. v' ! (order ! i) = v0 ! i)"
proof (induction "length order - s" arbitrary: s rem v mo rule: less_induct)
  case less
  show ?case
  proof (cases "0 < rem")
    case False
    then have "length order \<le> card (visited order s) + 1" using less.prems(4) by linarith
    then show ?thesis
      using visited_finished[OF assms less.prems(1) _ less.prems(2)] False
      by (simp add: reorder_destructive_loop.simps)
  next
    case True
    then have "card (visited order s) + 1 < length order" using less.prems(4) by linarith
    then have s: "s < length order" by (rule visited_unfinished[OF assms less.prems(1)])
    have sv: "s < length v" "s < length mo" "length v = length order"
      using s less.prems(2,3) by (simp_all add: placed_def marks_def)
    have IH: "placed order v0 (visited order (Suc s)) v' \<Longrightarrow> marks order (Suc s) (visited order (Suc s)) mo' \<Longrightarrow>
        rem' = int (length order) - 1 - int (card (visited order (Suc s))) \<Longrightarrow>
        \<exists>w. reorder_destructive_loop mo' (Suc s) rem' v' = Some w \<and> length w = length order \<and>
          (\<forall>i<length order. w ! (order ! i) = v0 ! i)" for rem' v' mo'
      using s by (intro less.hyps) auto
    have mo: "mo ! s = (if s \<in> visited order s then None else Some (order ! s))"
      using less.prems(3) s by (simp add: marks_def)
    show ?thesis
    proof (cases "s \<in> visited order s")
      case True
      then have eq: "visited order (Suc s) = visited order s"
        using visited_orbit(1)[OF assms s] by (auto simp: visited_Suc)
      moreover have "marks order (Suc s) (visited order (Suc s)) mo"
        using less.prems(3) eq by (simp add: marks_def)
      ultimately show ?thesis
        using IH less.prems(2,4) mo s sv True \<open>0 < rem\<close>
        by (simp add: reorder_destructive_loop.simps[of mo s])
    next
      case False
      have min: "\<forall>t\<in>orbit order s. s \<le> t"
        using visited_orbit(3)[OF assms s] False by (auto simp: not_less)
      have mk: "marks order (Suc s) (visited order s \<union> (\<lambda>i. iter order i s) ` {0<..0}) mo"
        using less.prems(3) by (simp add: marks_def)
      have one: "iter order (Suc 0) s = order ! s" by (simp add: iter_Suc)
      obtain mo' v' where v': "rotate_marking mo s (order ! s) (v ! s) v (rem - 1) = Some (mo', v', rem - int (period order s))"
        "rotated order s 0 (v ! s) v v'" "marks order (Suc s) (visited order s \<union> orbit order s) mo'"
        using rotate_marking_rotated[OF assms s False visited_orbit(2)[OF assms s False] min sv(3)
            period_props(1)[OF assms s] mk, of "v ! s" "rem - 1"] one by auto
      have "placed order v0 (visited order (Suc s)) v'"
        by (rule placed_rotated[OF assms s False less.prems(2) v'(2)])
      moreover have "rem - int (period order s) = int (length order) - 1 - int (card (visited order (Suc s)))"
        using card_visited_Suc[OF assms s False] less.prems(4) by simp
      ultimately show ?thesis
        using IH[of v' mo'] v'(1,3) mo False s sv \<open>0 < rem\<close>
        by (simp add: reorder_destructive_loop.simps[of mo s] visited_Suc)
    qed
  qed
qed

lemma reorder_destructive_places:
  assumes "perm_list order" "length v = length order"
  shows "\<exists>v'. reorder_destructive order v = Some v' \<and> length v' = length v \<and> (\<forall>i<length v. v' ! (order ! i) = v ! i)"
proof -
  have "placed order v (visited order 0) v" "visited order 0 = {}" "marks order 0 (visited order 0) (map Some order)"
    using assms(2) by (simp_all add: placed_def visited_def marks_def)
  then show ?thesis
    using reorder_destructive_loop_correct[OF assms(1), of 0 v v "map Some order" "int (length order) - 1"] assms(2)
    by (simp add: reorder_destructive_def)
qed

text \<open>
  C30: \<open>reorder_destructive\<close> returns on every permutation and computes the same arrangement as
  \<open>reorder\<close>, the value at position \<open>i\<close> moving to \<open>order[i]\<close>.
\<close>

theorem reorder_destructive_permutes:
  assumes "perm_list order" "length v = length order"
  shows "\<exists>v'. reorder_destructive order v = Some v' \<and> length v' = length v \<and>
    (\<forall>i<length v. v' ! (order ! i) = v ! i)"
  by (rule reorder_destructive_places[OF assms])

lemma reorder_destructive_permutes_witness:
  "\<exists>v'. reorder_destructive [1, 0] [10, 20::int] = Some v' \<and> v' ! 1 = 10 \<and> v' ! 0 = 20"
  using reorder_destructive_permutes[of "[1, 0]" "[10, 20::int]"]
  by (fastforce simp: perm_list_def less_Suc_eq numeral_2_eq_2)

section \<open>Intersecting ranges\<close>

lemma intersects_iff:
  assumes "sorted xs" "sorted ys"
  shows "intersects xs ys \<longleftrightarrow> set xs \<inter> set ys \<noteq> {}"
  using assms
proof (induction xs ys rule: intersects.induct)
  case (3 x xs y ys)
  consider "x < y" | "y < x" | "x = y" by fastforce
  then show ?case
  proof cases
    case 1
    then have "x \<notin> set (y # ys)" using 3 by auto
    then show ?thesis using 1 3 by auto
  next
    case 2
    then have "y \<notin> set (x # xs)" using 3 by auto
    then show ?thesis using 2 3 by auto
  qed auto
qed auto

text \<open>
  on ascending ranges \<open>intersects\<close> returns true exactly when they have a common element.
\<close>

theorem intersects_common:
  assumes "sorted xs" "sorted ys"
  shows "intersects xs ys \<longleftrightarrow> set xs \<inter> set ys \<noteq> {}"
  using assms by (rule intersects_iff)

lemma intersects_common_witness:
  "intersects [1, 4, 6::nat] [2, 6, 9] \<longleftrightarrow> set [1, 4, 6::nat] \<inter> set [2, 6, 9] \<noteq> {}"
  by (rule intersects_common) simp_all

end
