(* ===== verification/Connectivity.thy ===== *)
theory Connectivity
  imports Reorder
begin

text \<open>
  The adjacency storage of the mesh topologies: \<open>offset_storage_\<close> (topology/common/entity\_storage.h),
  the list of 32-bit row boundaries, and \<open>connectivity_t\<close> (connectivity.h), a flat list of target
  ids cut into rows by those boundaries. The 32-bit counters are naturals with the reduction
  modulo \<open>2 ^ 32\<close> written out. \<open>conn_of\<close> is the representation of a list of rows; each
  operation is shown to be the corresponding operation on rows.
\<close>

section \<open>offset\_storage\_\<close>

type_synonym offsets = "nat list"

definition u32_wrap :: "nat \<Rightarrow> nat" where
  "u32_wrap n = n mod 2 ^ 32"

definition offs_add_count :: "nat \<Rightarrow> offsets \<Rightarrow> offsets" where
  "offs_add_count n s = (let s = (if s = [] then [0] else s) in s @ [u32_wrap (last s + u32_wrap n)])"

definition offs_add_end :: "nat \<Rightarrow> offsets \<Rightarrow> offsets outcome" where
  "offs_add_end e s = (if s = [] then fail Undefined
     else require (last s < e) (ok (offs_add_count (e - last s) s)))"

definition offs_range :: "nat \<Rightarrow> offsets \<Rightarrow> (nat \<times> nat) outcome" where
  "offs_range i s = (if Suc i < length s then ok (s ! i, s ! (i + 1)) else fail Undefined)"

section \<open>connectivity\_t\<close>

record conn =
  conn_ids :: "nat list"
  conn_offsets :: offsets

definition conn_new :: conn where
  "conn_new = \<lparr>conn_ids = [], conn_offsets = []\<rparr>"

definition conn_clear :: "conn \<Rightarrow> conn" where
  "conn_clear c = \<lparr>conn_ids = [], conn_offsets = []\<rparr>"

definition conn_push :: "nat \<Rightarrow> conn \<Rightarrow> conn" where
  "conn_push i c = c\<lparr>conn_ids := conn_ids c @ [i]\<rparr>"

definition conn_add_count :: "nat \<Rightarrow> conn \<Rightarrow> conn" where
  "conn_add_count n c = c\<lparr>conn_offsets := offs_add_count n (conn_offsets c)\<rparr>"

definition conn_end_from :: "conn \<Rightarrow> conn outcome" where
  "conn_end_from c = and_then (offs_add_end (length (conn_ids c)) (conn_offsets c))
     (\<lambda>s. ok (c\<lparr>conn_offsets := s\<rparr>))"

definition conn_init :: "nat list list \<Rightarrow> conn \<Rightarrow> conn" where
  "conn_init cv c = fold (\<lambda>iv c. conn_add_count (length iv) (fold conn_push iv c)) cv (conn_clear c)"

definition conn_resize :: "nat list \<Rightarrow> conn \<Rightarrow> conn" where
  "conn_resize num_conns c =
     (let (c, size) = fold (\<lambda>n (c, size). (conn_add_count n c, size + u32_wrap n)) num_conns (conn_clear c, 0)
      in c\<lparr>conn_ids := replicate size 0\<rparr>)"

definition conn_set_conns :: "('e \<Rightarrow> nat) \<Rightarrow> 'e list \<Rightarrow> nat list list \<Rightarrow> conn \<Rightarrow> conn" where
  "conn_set_conns global_id ev conns c =
     (let c = fold (\<lambda>conn. conn_add_count (length conn)) conns (conn_clear c)
      in fold (\<lambda>conn. fold (\<lambda>j. conn_push (global_id (ev ! j))) conn) conns c)"

text \<open>The private \<open>get\<close>: the span of row \<open>index\<close>. With no offsets, \<open>size() - 1\<close> wraps and the
  assertion lets the access to \<open>offsets_[0]\<close> through.\<close>

definition conn_get :: "nat \<Rightarrow> conn \<Rightarrow> nat list outcome" where
  "conn_get i c =
     (let s = conn_offsets c in
      if s = [] then fail Undefined
      else require (i < length s - 1)
        (let start = s ! i; count = u32_wrap (s ! (i + 1) + 2 ^ 32 - start) in
         if start + count \<le> length (conn_ids c) then ok (take count (drop start (conn_ids c)))
         else fail Undefined))"

definition put_slice :: "nat \<Rightarrow> 'a list \<Rightarrow> 'a list \<Rightarrow> 'a list" where
  "put_slice i ys xs = take i xs @ ys @ drop (i + length ys) xs"

definition conn_reverse_entities :: "nat \<Rightarrow> conn \<Rightarrow> conn outcome" where
  "conn_reverse_entities i c =
     and_then (conn_get i c) (\<lambda>row.
       ok (c\<lparr>conn_ids := put_slice (conn_offsets c ! i) (rev row) (conn_ids c)\<rparr>))"

definition conn_reorder_entities :: "nat \<Rightarrow> nat list \<Rightarrow> conn \<Rightarrow> conn outcome" where
  "conn_reorder_entities i order c =
     and_then (conn_get i c) (\<lambda>row. require (length order = length row)
       (case reorder order row of None \<Rightarrow> fail Undefined
        | Some row \<Rightarrow> ok (c\<lparr>conn_ids := put_slice (conn_offsets c ! i) row (conn_ids c)\<rparr>)))"

definition conn_set :: "nat \<Rightarrow> nat \<Rightarrow> nat \<Rightarrow> conn \<Rightarrow> conn outcome" where
  "conn_set from_id to_id pos c =
     (if from_id < length (conn_offsets c) \<and> conn_offsets c ! from_id + pos < length (conn_ids c)
      then ok (c\<lparr>conn_ids := (conn_ids c)[conn_offsets c ! from_id + pos := to_id]\<rparr>)
      else fail Undefined)"

definition conn_is_empty :: "conn \<Rightarrow> bool" where
  "conn_is_empty c \<longleftrightarrow> conn_ids c = []"

definition conn_from_size :: "conn \<Rightarrow> nat" where
  "conn_from_size c = (let sz = length (conn_offsets c) in if sz \<noteq> 0 then sz - 1 else 0)"

definition conn_to_size :: "conn \<Rightarrow> nat" where
  "conn_to_size c = length (conn_ids c)"

section \<open>Representing a list of rows\<close>

definition offsets_of :: "nat list list \<Rightarrow> offsets" where
  "offsets_of cv = map (\<lambda>i. length (concat (take i cv))) [0..<Suc (length cv)]"

definition conn_of :: "nat list list \<Rightarrow> conn" where
  "conn_of cv = \<lparr>conn_ids = concat cv, conn_offsets = (if cv = [] then [] else offsets_of cv)\<rparr>"

definition fits_u32 :: "nat list list \<Rightarrow> bool" where
  "fits_u32 cv \<longleftrightarrow> length (concat cv) < 2 ^ 32"

lemma length_offsets_of [simp]: "length (offsets_of cv) = Suc (length cv)"
  by (simp add: offsets_of_def)

lemma offsets_of_not_Nil [simp]: "offsets_of cv \<noteq> []"
  by (simp add: offsets_of_def)

lemma offsets_of_nth: "i \<le> length cv \<Longrightarrow> offsets_of cv ! i = length (concat (take i cv))"
  by (simp add: offsets_of_def del: upt_Suc)

lemma offsets_of_snoc: "offsets_of (cv @ [iv]) = offsets_of cv @ [length (concat cv) + length iv]"
  by (rule nth_equalityI) (auto simp: offsets_of_nth nth_append less_Suc_eq)

lemma last_offsets_of: "last (offsets_of cv) = length (concat cv)"
  by (simp add: offsets_of_def)

lemma conn_of_Nil: "conn_of [] = conn_new"
  by (simp add: conn_of_def conn_new_def)

lemma fits_u32_snoc: "fits_u32 (cv @ [iv]) \<Longrightarrow> fits_u32 cv"
  by (simp add: fits_u32_def)

lemma add_count_conn_of:
  assumes "fits_u32 (cv @ [iv])"
  shows "offs_add_count (length iv) (conn_offsets (conn_of cv)) = conn_offsets (conn_of (cv @ [iv]))"
proof (cases "cv = []")
  case True
  then show ?thesis
    using assms by (simp add: conn_of_def offs_add_count_def offsets_of_def fits_u32_def u32_wrap_def)
next
  case False
  then show ?thesis
    using assms
    by (simp add: conn_of_def offs_add_count_def offsets_of_snoc last_offsets_of fits_u32_def u32_wrap_def Let_def)
qed

lemma fold_conn_push: "fold conn_push iv c = c\<lparr>conn_ids := conn_ids c @ iv\<rparr>"
  by (induction iv arbitrary: c) (simp_all add: conn_push_def)

lemma conn_append_row:
  assumes "fits_u32 (cv @ [iv])"
  shows "conn_add_count (length iv) (fold conn_push iv (conn_of cv)) = conn_of (cv @ [iv])"
  using add_count_conn_of[OF assms]
  by (simp add: fold_conn_push conn_add_count_def) (simp add: conn_of_def)

lemma conn_init_rows:
  assumes "fits_u32 cv"
  shows "conn_init cv c = conn_of cv"
proof -
  have "fold (\<lambda>iv c. conn_add_count (length iv) (fold conn_push iv c)) cv (conn_clear c) = conn_of cv"
    using assms
  proof (induction cv rule: rev_induct)
    case Nil
    then show ?case by (simp add: conn_clear_def conn_of_def)
  next
    case (snoc iv cv)
    then show ?case by (simp add: conn_append_row fits_u32_snoc)
  qed
  then show ?thesis by (simp add: conn_init_def)
qed

lemma conn_resize_rows:
  assumes "sum_list ns < 2 ^ 32"
  shows "conn_resize ns c = conn_of (map (\<lambda>n. replicate n 0) ns)"
proof -
  have "fold (\<lambda>n (c, size). (conn_add_count n c, size + u32_wrap n)) ns (conn_clear c, 0)
      = (\<lparr>conn_ids = [], conn_offsets = conn_offsets (conn_of (map (\<lambda>n. replicate n 0) ns))\<rparr>, sum_list ns)"
    using assms
  proof (induction ns rule: rev_induct)
    case Nil
    then show ?case by (simp add: conn_clear_def conn_of_def)
  next
    case (snoc n ns)
    have "fits_u32 (map (\<lambda>n. replicate n 0) ns @ [replicate n 0])"
      using snoc.prems by (simp add: fits_u32_def length_concat comp_def)
    from add_count_conn_of[OF this] show ?case
      using snoc by (simp add: conn_add_count_def u32_wrap_def)
  qed
  moreover have "concat (map (\<lambda>n. replicate n (0::nat)) ns) = replicate (sum_list ns) 0"
    by (induction ns) (simp_all add: replicate_add)
  ultimately show ?thesis unfolding conn_resize_def by (simp only: Let_def prod.case) (simp add: conn_of_def)
qed

lemma concat_split:
  "i < length cv \<Longrightarrow> concat cv = concat (take i cv) @ cv ! i @ concat (drop (Suc i) cv)"
  by (metis concat.simps(2) concat_append id_take_nth_drop)

lemma conn_get_rows:
  assumes "fits_u32 cv" "cv \<noteq> []"
  shows "conn_get i (conn_of cv) = (if i < length cv then ok (cv ! i) else fail Assert_failed)"
proof (cases "i < length cv")
  case True
  have o: "offsets_of cv ! i = length (concat (take i cv))"
    "offsets_of cv ! Suc i = length (concat (take i cv)) + length (cv ! i)"
    using True by (simp_all add: offsets_of_nth take_Suc_conv_app_nth)
  have c: "concat cv = concat (take i cv) @ cv ! i @ concat (drop (Suc i) cv)"
    by (rule concat_split[OF True])
  have l: "length (cv ! i) < 2 ^ 32" using assms(1) by (subst (asm) fits_u32_def, subst (asm) c) simp
  then have w: "u32_wrap (length (concat (take i cv)) + length (cv ! i) + 2 ^ 32 - length (concat (take i cv))) = length (cv ! i)"
    by (simp add: u32_wrap_def)
  have sl: "take (length (cv ! i)) (drop (length (concat (take i cv))) (concat cv)) = cv ! i"
    using arg_cong[OF c, of "\<lambda>xs. take (length (cv ! i)) (drop (length (concat (take i cv))) xs)"] by simp
  have le: "length (concat (take i cv)) + length (cv ! i) \<le> length (concat cv)"
    using arg_cong[OF c, of length] by simp
  show ?thesis
    using True assms(2) o w sl le by (simp add: conn_get_def conn_of_def Let_def)
next
  case False
  then show ?thesis using assms(2) by (simp add: conn_get_def conn_of_def Let_def require_def)
qed

lemma put_slice_rows:
  assumes "i < length cv" "length row = length (cv ! i)"
  shows "put_slice (offsets_of cv ! i) row (concat cv) = concat (cv[i := row])"
proof -
  have c: "concat cv = concat (take i cv) @ cv ! i @ concat (drop (Suc i) cv)"
    by (rule concat_split[OF assms(1)])
  have "concat (cv[i := row]) = concat (take i cv) @ row @ concat (drop (Suc i) cv)"
    using assms(1) by (simp add: upd_conv_take_nth_drop)
  moreover have "put_slice (length (concat (take i cv))) row (concat cv)
      = concat (take i cv) @ row @ concat (drop (Suc i) cv)"
    unfolding put_slice_def by (subst (1 2) c) (simp add: assms(2))
  ultimately show ?thesis using assms(1) by (simp add: offsets_of_nth)
qed

lemma offsets_of_update:
  assumes "length row = length (cv ! i)"
  shows "offsets_of (cv[i := row]) = offsets_of cv"
proof (rule nth_equalityI)
  fix j assume "j < length (offsets_of (cv[i := row]))"
  moreover have "map length (take j (cv[i := row])) = map length (take j cv)"
  proof -
    have "map length (cv[i := row]) = map length cv"
      using assms by (metis list_update_beyond list_update_id map_update not_less nth_map)
    then show ?thesis by (metis take_map)
  qed
  ultimately show "offsets_of (cv[i := row]) ! j = offsets_of cv ! j"
    by (simp add: offsets_of_nth length_concat)
qed simp

lemma conn_of_update:
  assumes "i < length cv" "length row = length (cv ! i)"
  shows "(conn_of cv)\<lparr>conn_ids := put_slice (conn_offsets (conn_of cv) ! i) row (conn_ids (conn_of cv))\<rparr>
    = conn_of (cv[i := row])"
  using put_slice_rows[OF assms] offsets_of_update[OF assms(2)] assms(1)
  by (auto simp: conn_of_def)

lemma conn_set_rows:
  assumes "i < length cv" "pos < length (cv ! i)"
  shows "conn_set i t pos (conn_of cv) = ok (conn_of (cv[i := (cv ! i)[pos := t]]))"
proof -
  let ?o = "length (concat (take i cv))"
  have c: "concat cv = concat (take i cv) @ cv ! i @ concat (drop (Suc i) cv)"
    by (rule concat_split[OF assms(1)])
  have "(concat cv)[?o + pos := t] = concat (cv[i := (cv ! i)[pos := t]])"
    using assms by (subst c) (simp add: list_update_append upd_conv_take_nth_drop)
  moreover have "?o + pos < length (concat cv)" using assms(2) by (subst c) simp
  ultimately show ?thesis
    using assms offsets_of_update[of "(cv ! i)[pos := t]" cv i]
    by (auto simp: conn_set_def conn_of_def offsets_of_nth)
qed


lemma conn_reverse_rows:
  assumes "fits_u32 cv" "i < length cv"
  shows "conn_reverse_entities i (conn_of cv) = ok (conn_of (cv[i := rev (cv ! i)]))"
proof -
  have "cv \<noteq> []" using assms(2) by auto
  then show ?thesis
    using assms conn_of_update[of i cv "rev (cv ! i)"] by (simp add: conn_reverse_entities_def conn_get_rows)
qed

lemma conn_reorder_rows:
  assumes "fits_u32 cv" "i < length cv" "perm_list order" "length order = length (cv ! i)"
  shows "\<exists>row. conn_reorder_entities i order (conn_of cv) = ok (conn_of (cv[i := row])) \<and>
    length row = length (cv ! i) \<and> (\<forall>j<length row. row ! (order ! j) = cv ! i ! j)"
proof -
  have "\<exists>v'. reorder order (cv ! i) = Some v' \<and> length v' = length order \<and>
      (\<forall>j<length order. v' ! (order ! j) = (cv ! i) ! j)"
    using reorder_loop_correct[OF assms(3), of 0 "cv ! i" "cv ! i" "int (length order) - 1"] assms(4)
    by (simp add: reorder_def placed_def visited_def)
  then obtain row where row: "reorder order (cv ! i) = Some row" "length row = length (cv ! i)"
    "\<forall>j<length row. row ! (order ! j) = cv ! i ! j"
    using assms(4) by auto
  have "cv \<noteq> []" using assms(2) by auto
  then have "conn_reorder_entities i order (conn_of cv) = ok (conn_of (cv[i := row]))"
    using assms row conn_of_update[of i cv row] by (simp add: conn_reorder_entities_def conn_get_rows)
  then show ?thesis using row by blast
qed

section \<open>Properties\<close>

text \<open>
  C28: \<open>connectivity_t\<close> represents a list of rows: \<open>init\<close> builds the representation of the rows it
  is given, \<open>get_entities\<close> returns a row, \<open>reverse_entities\<close> and \<open>reorder_entities\<close> change
  that row only, and the size queries count the rows and the ids.
\<close>

theorem conn_represents_rows:
  assumes "fits_u32 cv" "i < length cv" "perm_list order" "length order = length (cv ! i)"
  shows "conn_init cv c = conn_of cv \<and>
    conn_get i (conn_of cv) = ok (cv ! i) \<and>
    conn_reverse_entities i (conn_of cv) = ok (conn_of (cv[i := rev (cv ! i)])) \<and>
    (\<exists>row. conn_reorder_entities i order (conn_of cv) = ok (conn_of (cv[i := row])) \<and>
       length row = length (cv ! i) \<and> (\<forall>j<length row. row ! (order ! j) = cv ! i ! j)) \<and>
    conn_from_size (conn_of cv) = length cv \<and> conn_to_size (conn_of cv) = sum_list (map length cv)"
proof -
  have "cv \<noteq> []" using assms(2) by auto
  then show ?thesis
    using conn_init_rows[OF assms(1)] conn_get_rows[OF assms(1)] assms(2)
      conn_reverse_rows[OF assms(1,2)] conn_reorder_rows[OF assms]
    by (simp add: conn_from_size_def conn_to_size_def conn_of_def length_concat)
qed

lemma conn_represents_rows_witness:
  "conn_get 1 (conn_init [[5, 6], [7, 8, 9]] conn_new) = ok [7, 8, 9] \<and>
   (\<exists>row. conn_reorder_entities 1 [2, 0, 1] (conn_of [[5, 6], [7, 8, 9]]) = ok (conn_of [[5, 6], row]) \<and>
     row ! 2 = 7 \<and> row ! 0 = 8)"
proof -
  have "fits_u32 [[5, 6], [7, 8, 9]]" by (simp add: fits_u32_def)
  moreover have "perm_list [2, 0, 1]" by (simp add: perm_list_def)
  ultimately obtain row where
    g: "conn_init [[5, 6], [7, 8, 9]] conn_new = conn_of [[5, 6], [7, 8, 9]]"
       "conn_get 1 (conn_of [[5, 6], [7, 8, 9]]) = ok [7, 8, 9]"
    and r: "conn_reorder_entities 1 [2, 0, 1] (conn_of [[5, 6], [7, 8, 9]]) = ok (conn_of [[5, 6], row])"
    and l: "length row = 3" and n: "\<forall>j<length row. row ! ([2, 0, 1] ! j) = [7, 8, 9] ! j"
    using conn_represents_rows[of "[[5, 6], [7, 8, 9]]" 1 "[2, 0, 1]" conn_new] by auto
  have "row ! 2 = 7 \<and> row ! 0 = 8"
    using n[rule_format, of 0] n[rule_format, of 1] l by simp
  then show ?thesis using g r by auto
qed

text \<open>
  \<open>end_from\<close> closes a non-empty group of ids pushed after at least one closed group, but it
  asserts on an empty group, and on the first group of a connectivity it reads \<open>back()\<close> of an empty
  offset list.
\<close>

theorem conn_end_from_groups:
  assumes "fits_u32 (cv @ [iv])" "cv \<noteq> []" "iv \<noteq> []"
  shows "conn_end_from (fold conn_push iv (conn_of cv)) = ok (conn_of (cv @ [iv])) \<and>
    conn_end_from (conn_of cv) = fail Assert_failed \<and>
    conn_end_from (fold conn_push iv conn_new) = fail Undefined"
proof -
  have l: "last (conn_offsets (conn_of cv)) = length (concat cv)" "conn_offsets (conn_of cv) \<noteq> []"
    using assms(2) by (simp_all add: conn_of_def last_offsets_of)
  have "conn_end_from (fold conn_push iv (conn_of cv)) = ok (conn_of (cv @ [iv]))"
    using l assms(3) add_count_conn_of[OF assms(1)]
    by (simp add: conn_end_from_def fold_conn_push offs_add_end_def) (simp add: conn_of_def)
  moreover have "conn_end_from (conn_of cv) = fail Assert_failed"
    using l by (simp add: conn_end_from_def offs_add_end_def) (simp add: conn_of_def)
  moreover have "conn_end_from (fold conn_push iv conn_new) = fail Undefined"
    by (simp add: conn_end_from_def fold_conn_push offs_add_end_def conn_new_def)
  ultimately show ?thesis by blast
qed

lemma conn_end_from_groups_witness:
  "conn_end_from (fold conn_push [4, 5] (conn_of [[1]])) = ok (conn_of [[1], [4, 5]]) \<and>
   conn_end_from (conn_of [[1]]) = fail Assert_failed \<and>
   conn_end_from (fold conn_push [4, 5] conn_new) = fail Undefined"
  using conn_end_from_groups[of "[[1]]" "[4, 5]"] by (simp add: fits_u32_def)

end
