(* ===== verification/Mesh_Topology.thy ===== *)
theory Mesh_Topology
  imports Connectivity "HOL-Library.Multiset"
begin

text \<open>
  The computations of mesh\_topology.h that derive one adjacency of a mesh from others:
  \<open>transpose\<close> (invert a connectivity and order each row by global id), \<open>intersect\<close> (compose two
  connectivities and keep the related targets) and \<open>build_connectivity\<close> (enumerate the edges or
  faces of the cells, giving entities with the same vertices one id).

  A mesh is the list of entity ids of each (domain, dimension) and the table of connectivities
  indexed by (from domain, to domain, from dimension, to dimension). The context's index maps, the
  policy's \<open>create_entities\<close> and \<open>create_entity\<close> are parameters.
\<close>

type_synonym conn_key = "nat \<times> nat \<times> nat \<times> nat"

record mesh =
  mesh_ents :: "nat \<times> nat \<Rightarrow> nat list"
  mesh_conn :: "conn_key \<Rightarrow> conn"

definition put_conn :: "conn_key \<Rightarrow> conn \<Rightarrow> mesh \<Rightarrow> mesh" where
  "put_conn key c m = m\<lparr>mesh_conn := (mesh_conn m)(key := c)\<rparr>"

text \<open>\<open>entity_ids(e)\<close>: the ids of the row of entity \<open>e\<close>; the connectivity must not be empty.\<close>

definition entity_ids :: "conn \<Rightarrow> nat \<Rightarrow> nat list outcome" where
  "entity_ids c e = require (\<not> conn_is_empty c)
     (and_then (offs_range e (conn_offsets c)) (\<lambda>(b, e).
        if b \<le> e \<and> e \<le> length (conn_ids c) then ok (take (e - b) (drop b (conn_ids c)))
        else fail Undefined))"

text \<open>\<open>init_entity\<close>: appends the row of the next entity of a connectivity.\<close>

definition mesh_init_entity :: "conn_key \<Rightarrow> nat \<Rightarrow> nat list \<Rightarrow> mesh \<Rightarrow> mesh outcome" where
  "mesh_init_entity key super_id subs m =
     (let c = mesh_conn m key in
      require (super_id = conn_from_size c)
        (ok (put_conn key (conn_add_count (length subs) (fold conn_push subs c)) m)))"

lemma mesh_init_entity_row:
  assumes "mesh_conn m key = conn_of cv" "fits_u32 (cv @ [subs])"
  shows "mesh_init_entity key e subs m =
    (if e = length cv then ok (put_conn key (conn_of (cv @ [subs])) m) else fail Assert_failed)"
  using assms conn_append_row[OF assms(2)]
  by (auto simp: mesh_init_entity_def Let_def conn_from_size_def conn_of_def require_def)

section \<open>transpose\<close>

definition bump :: "nat \<Rightarrow> nat list \<Rightarrow> nat list outcome" where
  "bump f pos = (if f < length pos then ok (pos[f := pos ! f + 1]) else fail Undefined)"

definition transpose_count :: "conn \<Rightarrow> nat list \<Rightarrow> nat list \<Rightarrow> nat list outcome" where
  "transpose_count c to_entities pos =
     fold_outcome (\<lambda>t pos. and_then (entity_ids c t) (\<lambda>fs. fold_outcome bump fs pos)) to_entities pos"

definition transpose_place :: "nat \<Rightarrow> nat \<Rightarrow> conn \<times> nat list \<Rightarrow> (conn \<times> nat list) outcome" where
  "transpose_place t f = (\<lambda>(out, pos).
     if f < length pos
     then and_then (conn_set f t (pos ! f) out) (\<lambda>out. ok (out, pos[f := pos ! f + 1]))
     else fail Undefined)"

definition transpose_fill :: "conn \<Rightarrow> nat list \<Rightarrow> conn \<times> nat list \<Rightarrow> (conn \<times> nat list) outcome" where
  "transpose_fill c to_entities s =
     fold_outcome (\<lambda>t s. and_then (entity_ids c t) (\<lambda>fs. fold_outcome (transpose_place t) fs s)) to_entities s"

text \<open>The last loop: each row is sorted by the global id the index map gives its elements.\<close>

definition transpose_sort_row :: "(nat \<rightharpoonup> nat) \<Rightarrow> nat list \<Rightarrow> nat \<Rightarrow> conn \<Rightarrow> conn outcome" where
  "transpose_sort_row to_cis_to_gis to_ids from_id out =
     and_then (conn_get from_id out) (\<lambda>row.
     and_then (traverse (\<lambda>i. if i < length to_ids
         then (case to_cis_to_gis i of None \<Rightarrow> fail Out_of_range | Some g \<Rightarrow> ok (g, to_ids ! i))
         else fail Undefined) row) (\<lambda>gids.
     ok (out\<lparr>conn_ids := put_slice (conn_offsets out ! from_id) (map snd (sort_key fst gids)) (conn_ids out)\<rparr>)))"

definition mesh_transpose :: "(nat \<rightharpoonup> nat) \<Rightarrow> conn_key \<Rightarrow> mesh \<Rightarrow> mesh outcome" where
  "mesh_transpose to_cis_to_gis key m =
     (case key of (from_dom, to_dom, from_dim, to_dim) \<Rightarrow>
      if \<not> conn_is_empty (mesh_conn m key) then ok m
      else
        let to_entities = mesh_ents m (to_dom, to_dim);
            from_entities = mesh_ents m (from_dom, from_dim);
            bwd = mesh_conn m (to_dom, from_dom, to_dim, from_dim);
            pos = replicate (length from_entities) 0
        in and_then (transpose_count bwd to_entities pos) (\<lambda>pos.
           and_then (transpose_fill bwd to_entities
               (conn_resize pos (mesh_conn m key), replicate (length pos) 0)) (\<lambda>(out, pos).
           and_then (fold_outcome (transpose_sort_row to_cis_to_gis to_entities) from_entities out) (\<lambda>out.
           ok (put_conn key out m)))))"

subsection \<open>What transpose computes\<close>

lemma entity_ids_rows:
  assumes "concat cv \<noteq> []" "e < length cv"
  shows "entity_ids (conn_of cv) e = ok (cv ! e)"
proof -
  have c: "concat cv = concat (take e cv) @ cv ! e @ concat (drop (Suc e) cv)"
    by (rule concat_split[OF assms(2)])
  have o: "offsets_of cv ! e = length (concat (take e cv))"
    "offsets_of cv ! Suc e = length (concat (take e cv)) + length (cv ! e)"
    using assms(2) by (simp_all add: offsets_of_nth take_Suc_conv_app_nth)
  have "length (concat (take e cv)) + length (cv ! e) \<le> length (concat cv)"
    using arg_cong[OF c, of length] by simp
  moreover have "take (length (cv ! e)) (drop (length (concat (take e cv))) (concat cv)) = cv ! e"
    using arg_cong[OF c, of "\<lambda>xs. take (length (cv ! e)) (drop (length (concat (take e cv))) xs)"] by simp
  moreover have "cv \<noteq> []" using assms(2) by auto
  ultimately show ?thesis
    using assms o by (simp add: entity_ids_def conn_is_empty_def conn_of_def offs_range_def)
qed

text \<open>The pairs (target, source) in the order the loops visit them, and the row they leave.\<close>

definition edges :: "nat list list \<Rightarrow> (nat \<times> nat) list" where
  "edges cv = concat (map (\<lambda>t. map (Pair t) (cv ! t)) [0..<length cv])"

definition incident :: "(nat \<times> nat) list \<Rightarrow> nat \<Rightarrow> nat list" where
  "incident es f = map fst (filter (\<lambda>(t, g). g = f) es)"

lemma incident_snoc [simp]: "incident (es @ [(t, f)]) g = incident es g @ (if g = f then [t] else [])"
  by (simp add: incident_def)

lemma count_incident: "count_list (incident es f) t = count_list es (t, f)"
  by (induction es) (auto simp: incident_def)

lemma count_list_append [simp]: "count_list (xs @ ys) x = count_list xs x + count_list ys x"
  by (induction xs) auto

lemma count_list_Pair: "count_list (map (Pair s) xs) (t, f) = (if s = t then count_list xs f else 0)"
  by (induction xs) auto

lemma count_edges: "count_list (edges cv) (t, f) = (if t < length cv then count_list (cv ! t) f else 0)"
proof -
  have "count_list (concat (map (\<lambda>t. map (Pair t) (cv ! t)) [0..<n])) (t, f)
      = (if t < n then count_list (cv ! t) f else 0)" for n
    by (induction n) (auto simp: count_list_Pair less_Suc_eq)
  then show ?thesis by (simp add: edges_def)
qed

lemma set_edges: "(t, f) \<in> set (edges cv) \<longleftrightarrow> t < length cv \<and> f \<in> set (cv ! t)"
  by (auto simp: edges_def)

lemma transpose_count_correct:
  assumes "concat cv \<noteq> []" "\<forall>f\<in>set (concat cv). f < nf"
  shows "transpose_count (conn_of cv) [0..<length cv] (replicate nf 0)
    = ok (map (\<lambda>f. length (incident (edges cv) f)) [0..<nf])"
proof -
  have "transpose_count (conn_of cv) [0..<length cv] (replicate nf 0)
      = fold_outcome (\<lambda>t. fold_outcome ((\<lambda>t. bump) t) (cv ! t)) [0..<length cv] (replicate nf 0)"
    unfolding transpose_count_def
    by (rule fold_outcome_cong) (auto simp: entity_ids_rows[OF assms(1)])
  also have "\<dots> = fold_outcome (\<lambda>(t, f). bump f) (edges cv) (replicate nf 0)"
    unfolding edges_def by (rule fold_outcome_nested)
  also have "\<dots> = ok (map (\<lambda>f. length (incident (edges cv) f)) [0..<nf])"
  proof -
    have bound: "\<forall>(t, f)\<in>set (edges cv). f < nf"
      using assms(2) by (auto simp: set_edges) (metis nth_mem)
    have "fold_outcome (\<lambda>(t, f). bump f) es (replicate nf 0)
        = ok (map (\<lambda>f. length (incident es f)) [0..<nf])" if "\<forall>(t, f)\<in>set es. f < nf" for es
      using that
    proof (induction es rule: rev_induct)
      case Nil
      show ?case by (simp add: incident_def map_replicate_const)
    next
      case (snoc e es)
      obtain t f where e: "e = (t, f)" by (cases e)
      have f: "f < nf" using snoc.prems e by simp
      have "(map (\<lambda>g. length (incident es g)) [0..<nf])[f := length (incident es f) + 1]
          = map (\<lambda>g. length (incident (es @ [e]) g)) [0..<nf]"
        using f e by (intro nth_equalityI) (auto simp: nth_list_update)
      then show ?case using snoc f e by (simp add: bump_def)
    qed
    from this[OF bound] show ?thesis .
  qed
  finally show ?thesis .
qed

text \<open>While the rows are being filled, row \<open>f\<close> holds the targets seen so far and zeros.\<close>

definition part_rows :: "nat \<Rightarrow> (nat \<times> nat) list \<Rightarrow> (nat \<times> nat) list \<Rightarrow> nat list list" where
  "part_rows nf all es = map (\<lambda>f. incident es f @
     replicate (length (incident all f) - length (incident es f)) 0) [0..<nf]"

lemma transpose_place_step:
  assumes "f < nf" "length (incident es f) < length (incident all f)"
  shows "transpose_place t f (conn_of (part_rows nf all es), map (\<lambda>f. length (incident es f)) [0..<nf])
    = ok (conn_of (part_rows nf all (es @ [(t, f)])), map (\<lambda>g. length (incident (es @ [(t, f)]) g)) [0..<nf])"
proof -
  let ?cv = "part_rows nf all es" and ?pos = "length (incident es f)"
  have len: "?pos < length (?cv ! f)" "f < length ?cv" using assms by (simp_all add: part_rows_def)
  have "?cv[f := (?cv ! f)[?pos := t]] = part_rows nf all (es @ [(t, f)])"
  proof (rule nth_equalityI)
    fix g assume "g < length (?cv[f := (?cv ! f)[?pos := t]])"
    then have g: "g < nf" by (simp add: part_rows_def)
    have "length (incident all f) - length (incident es f) = Suc (length (incident all f) - Suc (length (incident es f)))"
      using assms(2) by simp
    then show "?cv[f := (?cv ! f)[?pos := t]] ! g = part_rows nf all (es @ [(t, f)]) ! g"
      using g assms(1) by (auto simp: part_rows_def nth_list_update list_update_append)
  qed (simp add: part_rows_def)
  moreover have "(map (\<lambda>g. length (incident es g)) [0..<nf])[f := ?pos + 1]
      = map (\<lambda>g. length (incident (es @ [(t, f)]) g)) [0..<nf]"
    using assms(1) by (intro nth_equalityI) (auto simp: nth_list_update)
  ultimately show ?thesis
    using assms(1) conn_set_rows[OF len(2,1), of t] by (simp add: transpose_place_def)
qed

lemma transpose_fill_correct:
  assumes "concat cv \<noteq> []" "\<forall>f\<in>set (concat cv). f < nf"
  shows "transpose_fill (conn_of cv) [0..<length cv] (conn_of (part_rows nf (edges cv) []), replicate nf 0)
    = ok (conn_of (map (incident (edges cv)) [0..<nf]), map (\<lambda>f. length (incident (edges cv) f)) [0..<nf])"
proof -
  let ?s = "(conn_of (part_rows nf (edges cv) []), replicate nf 0)"
  have bound: "\<forall>(t, f)\<in>set (edges cv). f < nf"
    using assms(2) by (auto simp: set_edges) (metis nth_mem)
  have "transpose_fill (conn_of cv) [0..<length cv] ?s
      = fold_outcome (\<lambda>t. fold_outcome (transpose_place t) (cv ! t)) [0..<length cv] ?s"
    unfolding transpose_fill_def
    by (rule fold_outcome_cong) (auto simp: entity_ids_rows[OF assms(1)])
  also have "\<dots> = fold_outcome (\<lambda>(t, f). transpose_place t f) (edges cv) ?s"
    unfolding edges_def by (rule fold_outcome_nested)
  also have "\<dots> = ok (conn_of (part_rows nf (edges cv) (edges cv)), map (\<lambda>f. length (incident (edges cv) f)) [0..<nf])"
  proof -
    have "fold_outcome (\<lambda>(t, f). transpose_place t f) es ?s
        = ok (conn_of (part_rows nf (edges cv) es), map (\<lambda>f. length (incident es f)) [0..<nf])"
      if "es @ rest = edges cv" for es rest
      using that
    proof (induction es arbitrary: rest rule: rev_induct)
      case Nil
      show ?case by (simp add: incident_def map_replicate_const)
    next
      case (snoc e es)
      obtain t f where e: "e = (t, f)" by (cases e)
      have all: "es @ (t, f) # rest = edges cv" using snoc.prems e by simp
      have f: "f < nf" using bound e snoc.prems by (metis (mono_tags, lifting) all case_prodD in_set_conv_decomp)
      have "length (incident es f) < length (incident (edges cv) f)"
        unfolding all[symmetric] by (simp add: incident_def)
      from transpose_place_step[OF f this] show ?case
        using snoc.IH[OF all] e by simp
    qed
    from this[of "edges cv" "[]"] show ?thesis by simp
  qed
  also have "part_rows nf (edges cv) (edges cv) = map (incident (edges cv)) [0..<nf]"
    by (simp add: part_rows_def)
  finally show ?thesis .
qed


text \<open>Sorting the rows; the map assigns a global id to every target.\<close>

lemma transpose_sort_row_correct:
  assumes "fits_u32 rows" "f < length rows" "\<forall>t\<in>set (rows ! f). t < nt \<and> gis t \<noteq> None"
  shows "transpose_sort_row gis [0..<nt] f (conn_of rows)
    = ok (conn_of (rows[f := sort_key (\<lambda>t. the (gis t)) (rows ! f)]))"
proof -
  have ne: "rows \<noteq> []" using assms(2) by auto
  have t: "traverse (\<lambda>i. if i < length [0..<nt]
      then (case gis i of None \<Rightarrow> fail Out_of_range | Some g \<Rightarrow> ok (g, [0..<nt] ! i))
      else fail Undefined) (rows ! f) = ok (map (\<lambda>t. (the (gis t), t)) (rows ! f))"
    using assms(3) by (intro traverse_ok) auto
  have "map snd (sort_key fst (map (\<lambda>t. (the (gis t), t)) xs)) = sort_key (\<lambda>t. the (gis t)) xs" for xs
  proof -
    have "sort_key fst (map (\<lambda>t. (the (gis t), t)) xs) = map (\<lambda>t. (the (gis t), t)) (sort_key (\<lambda>t. the (gis t)) xs)"
    proof (rule properties_for_sort_key)
      show "mset (map (\<lambda>t. (the (gis t), t)) (sort_key (\<lambda>t. the (gis t)) xs)) = mset (map (\<lambda>t. (the (gis t), t)) xs)"
        by simp
      show "sorted (map fst (map (\<lambda>t. (the (gis t), t)) (sort_key (\<lambda>t. the (gis t)) xs)))"
        by (simp add: comp_def)
      show "filter (\<lambda>x. fst k = fst x) (map (\<lambda>t. (the (gis t), t)) (sort_key (\<lambda>t. the (gis t)) xs))
          = filter (\<lambda>x. fst k = fst x) (map (\<lambda>t. (the (gis t), t)) xs)" for k
        using sort_key_stable[of "\<lambda>t. the (gis t)" "fst k" xs]
        by (simp add: filter_map comp_def eq_commute)
    qed
    then show ?thesis by (simp add: comp_def)
  qed
  moreover have "length (sort_key (\<lambda>t. the (gis t)) (rows ! f)) = length (rows ! f)" by simp
  ultimately show ?thesis
    using assms(1,2) ne t conn_of_update[OF assms(2), of "sort_key (\<lambda>t. the (gis t)) (rows ! f)"]
    by (simp add: transpose_sort_row_def conn_get_rows)
qed

lemma transpose_sort_correct:
  assumes "fits_u32 rows" "\<forall>row\<in>set rows. \<forall>t\<in>set row. t < nt \<and> gis t \<noteq> None"
  shows "fold_outcome (transpose_sort_row gis [0..<nt]) [0..<length rows] (conn_of rows)
    = ok (conn_of (map (sort_key (\<lambda>t. the (gis t))) rows))"
proof -
  let ?s = "sort_key (\<lambda>t. the (gis t))"
  have "fold_outcome (transpose_sort_row gis [0..<nt]) [0..<k] (conn_of rows)
      = ok (conn_of (map ?s (take k rows) @ drop k rows))" if "k \<le> length rows" for k
    using that
  proof (induction k)
    case (Suc k)
    let ?r = "map ?s (take k rows) @ drop k rows"
    have k: "k < length rows" "?r ! k = rows ! k" using Suc.prems by (simp_all add: nth_append)
    have "map length ?r = map length rows"
      using append_take_drop_id[of k "map length rows"] by (simp add: take_map drop_map comp_def)
    then have fits: "fits_u32 ?r" using assms(1) unfolding fits_u32_def length_concat by (simp only:)
    have "transpose_sort_row gis [0..<nt] k (conn_of ?r) = ok (conn_of (?r[k := ?s (?r ! k)]))"
      using k assms(2) by (intro transpose_sort_row_correct[OF fits]) auto
    moreover have "?r[k := ?s (?r ! k)] = map ?s (take (Suc k) rows) @ drop (Suc k) rows"
    proof -
      have "drop k rows = rows ! k # drop (Suc k) rows" using k(1) by (simp add: Cons_nth_drop_Suc)
      then show ?thesis using k by (simp add: list_update_append take_Suc_conv_app_nth)
    qed
    ultimately show ?case using Suc by simp
  qed simp
  from this[of "length rows"] show ?thesis by simp
qed

lemma sum_incident:
  assumes "\<forall>(t, f)\<in>set es. f < nf"
  shows "(\<Sum>f\<leftarrow>[0..<nf]. length (incident es f)) = length es"
  using assms
proof (induction es rule: rev_induct)
  case Nil
  show ?case by (simp add: incident_def)
next
  case (snoc e es)
  obtain t f where e: "e = (t, f)" by (cases e)
  have "(\<Sum>g\<leftarrow>[0..<nf]. length (incident (es @ [(t, f)]) g))
      = (\<Sum>g\<leftarrow>[0..<nf]. length (incident es g) + (if g = f then 1 else 0))"
    by (intro arg_cong[of _ _ sum_list] map_cong) auto
  also have "\<dots> = (\<Sum>g\<leftarrow>[0..<nf]. length (incident es g)) + (\<Sum>g\<leftarrow>[0..<nf]. if g = f then 1 else 0)"
    by (rule sum_list_addf)
  also have "(\<Sum>g\<leftarrow>[0..<nf]. if g = f then 1 else 0) = (1::nat)"
    using snoc.prems e by (simp add: interv_sum_list_conv_sum_set_nat atLeast0LessThan)
  finally show ?case using snoc e by simp
qed

lemma length_edges: "length (edges cv) = length (concat cv)"
proof -
  have "length (edges cv) = sum_list (map (\<lambda>t. length (cv ! t)) [0..<length cv])"
    by (simp add: edges_def length_concat comp_def)
  also have "map (\<lambda>t. length (cv ! t)) [0..<length cv] = map length cv"
    by (rule nth_equalityI) auto
  finally show ?thesis by (simp add: length_concat)
qed

lemma transpose_rows:
  assumes key: "key = (from_dom, to_dom, from_dim, to_dim)" and empty: "conn_is_empty (mesh_conn m key)"
    and bwd: "mesh_conn m (to_dom, from_dom, to_dim, from_dim) = conn_of cv"
    and cv: "fits_u32 cv" "concat cv \<noteq> []" "\<forall>f\<in>set (concat cv). f < nf"
    and ents: "mesh_ents m (to_dom, to_dim) = [0..<length cv]" "mesh_ents m (from_dom, from_dim) = [0..<nf]"
    and gis: "\<forall>t<length cv. gis t \<noteq> None"
  shows "\<exists>rows. mesh_transpose gis key m = ok (put_conn key (conn_of rows) m) \<and> length rows = nf \<and> fits_u32 rows \<and>
      (\<forall>f<nf. sorted (map (\<lambda>t. the (gis t)) (rows ! f)) \<and>
        (\<forall>t. count_list (rows ! f) t = (if t < length cv then count_list (cv ! t) f else 0)))"
proof -
  let ?inc = "incident (edges cv)"
  let ?rows = "map ?inc [0..<nf]"
  have bound: "\<forall>(t, f)\<in>set (edges cv). f < nf"
    using cv(3) by (auto simp: set_edges) (metis nth_mem)
  have sum: "(\<Sum>f\<leftarrow>[0..<nf]. length (?inc f)) = length (concat cv)"
    using sum_incident[OF bound] length_edges by simp
  have fits: "fits_u32 ?rows" using sum cv(1) by (simp add: fits_u32_def length_concat comp_def)
  have resize: "conn_resize (map (\<lambda>f. length (?inc f)) [0..<nf]) c = conn_of (part_rows nf (edges cv) [])" for c
    using conn_resize_rows[of "map (\<lambda>f. length (?inc f)) [0..<nf]" c] sum cv(1)
    by (simp add: fits_u32_def part_rows_def comp_def incident_def)
  have el: "t < length cv" if "t \<in> set (?inc f)" for t f
    using that by (auto simp: incident_def set_edges)
  have "fold_outcome (transpose_sort_row gis [0..<length cv]) [0..<nf] (conn_of ?rows)
      = ok (conn_of (map (sort_key (\<lambda>t. the (gis t))) ?rows))"
    using transpose_sort_correct[OF fits, of "length cv" gis] el gis by auto
  then have "mesh_transpose gis key m = ok (put_conn key (conn_of (map (sort_key (\<lambda>t. the (gis t))) ?rows)) m)"
    using empty bwd ents transpose_count_correct[OF cv(2,3)] transpose_fill_correct[OF cv(2,3)]
    by (simp add: mesh_transpose_def key Let_def resize map_replicate_const)
  moreover have "fits_u32 (map (sort_key (\<lambda>t. the (gis t))) ?rows)"
    using fits by (simp add: fits_u32_def length_concat comp_def)
  moreover have "count_list (sort_key k xs) x = count_list xs x" for k :: "nat \<Rightarrow> nat" and xs x
    by (metis count_mset mset_sort)
  ultimately show ?thesis
    by (intro exI[of _ "map (sort_key (\<lambda>t. the (gis t))) ?rows"]) (auto simp: count_incident count_edges)
qed

text \<open>
  C21: \<open>transpose\<close> inverts a connectivity: in the row of entity \<open>f\<close> of the result, every entity \<open>t\<close>
  occurs as often as \<open>f\<close> occurs in the row of \<open>t\<close> of the given connectivity, and the row is
  ascending in the global ids. Nothing else in the mesh changes, and a connectivity that is already
  there is left alone.
\<close>

theorem transpose_inverts:
  assumes key: "key = (from_dom, to_dom, from_dim, to_dim)"
    and bwd: "mesh_conn m (to_dom, from_dom, to_dim, from_dim) = conn_of cv"
    and cv: "fits_u32 cv" "concat cv \<noteq> []" "\<forall>f\<in>set (concat cv). f < nf"
    and ents: "mesh_ents m (to_dom, to_dim) = [0..<length cv]" "mesh_ents m (from_dom, from_dim) = [0..<nf]"
    and gis: "\<forall>t<length cv. gis t \<noteq> None"
  shows "if conn_is_empty (mesh_conn m key)
    then \<exists>rows. mesh_transpose gis key m = ok (put_conn key (conn_of rows) m) \<and> length rows = nf \<and>
      (\<forall>f<nf. sorted (map (\<lambda>t. the (gis t)) (rows ! f)) \<and>
        (\<forall>t. count_list (rows ! f) t = (if t < length cv then count_list (cv ! t) f else 0)))
    else mesh_transpose gis key m = ok m"
proof (cases "conn_is_empty (mesh_conn m key)")
  case False
  then show ?thesis by (simp add: mesh_transpose_def key)
next
  case True
  from transpose_rows[OF key this bwd cv ents gis] show ?thesis using True by auto
qed


definition two_cells :: mesh where
  "two_cells = \<lparr>mesh_ents = (\<lambda>_. [])((0, 2) := [0, 1], (0, 0) := [0, 1, 2]),
     mesh_conn = (\<lambda>_. conn_new)((0, 0, 2, 0) := conn_of [[0, 1], [1, 2]])\<rparr>"

lemma transpose_inverts_witness:
  "\<exists>rows. mesh_transpose Some (0, 0, 0, 2) two_cells = ok (put_conn (0, 0, 0, 2) (conn_of rows) two_cells) \<and>
    count_list (rows ! 1) 0 = 1 \<and> count_list (rows ! 1) 1 = 1 \<and> count_list (rows ! 2) 0 = 0"
proof -
  have "conn_is_empty (mesh_conn two_cells (0, 0, 0, 2))"
    by (simp add: two_cells_def conn_is_empty_def conn_new_def)
  then obtain rows where
    r: "mesh_transpose Some (0, 0, 0, 2) two_cells = ok (put_conn (0, 0, 0, 2) (conn_of rows) two_cells)"
    and n: "\<forall>f<3. \<forall>t. count_list (rows ! f) t = (if t < 2 then count_list ([[0, 1], [1, 2]] ! t) f else 0)"
    using transpose_inverts[of "(0, 0, 0, 2)" 0 0 0 2 two_cells "[[0, 1], [1, 2]]" 3 Some]
    by (auto simp: two_cells_def fits_u32_def upt_rec)
  show ?thesis
    using r n[rule_format, of 1] n[rule_format, of 2] by (intro exI[of _ rows]) auto
qed

section \<open>intersect\<close>

text \<open>\<open>std::std_includes\<close> on ascending ranges.\<close>

fun std_includes :: "'a::linorder list \<Rightarrow> 'a list \<Rightarrow> bool" where
  "std_includes xs [] = True"
| "std_includes [] (y # ys) = False"
| "std_includes (x # xs) (y # ys) =
     (if y < x then False else if x < y then std_includes xs (y # ys) else std_includes xs ys)"

definition mark :: "bool \<Rightarrow> nat \<Rightarrow> bool list \<Rightarrow> bool list outcome" where
  "mark b t seen = (if t < length seen then ok (seen[t := b]) else fail Undefined)"

text \<open>The test on one unvisited target.\<close>

definition intersect_related :: "nat \<Rightarrow> nat \<Rightarrow> nat \<Rightarrow> nat \<Rightarrow> nat list \<Rightarrow> conn \<Rightarrow> nat \<Rightarrow> bool outcome" where
  "intersect_related from_dim to_dim dim from_id from_verts c2 to_id =
     (if from_dim = to_dim then ok (from_id \<noteq> to_id)
      else and_then (conn_get to_id c2) (\<lambda>to_verts.
        let to_verts = sort to_verts in
        ok (if dim < to_dim then std_includes from_verts to_verts else intersects from_verts to_verts)))"

definition intersect_visit ::
    "(nat \<Rightarrow> bool outcome) \<Rightarrow> nat \<Rightarrow> bool list \<times> nat list \<Rightarrow> (bool list \<times> nat list) outcome" where
  "intersect_visit related to_id = (\<lambda>(seen, ents).
     if \<not> to_id < length seen then fail Undefined
     else if seen ! to_id then ok (seen, ents)
     else and_then (mark True to_id seen) (\<lambda>seen.
          and_then (related to_id) (\<lambda>b. ok (seen, if b then ents @ [to_id] else ents))))"

definition intersect_row ::
    "nat \<Rightarrow> nat \<Rightarrow> nat \<Rightarrow> conn \<Rightarrow> conn \<Rightarrow> conn \<Rightarrow> nat \<Rightarrow> bool list \<times> nat list list \<Rightarrow>
     (bool list \<times> nat list list) outcome" where
  "intersect_row from_dim to_dim dim c c2 through from_id = (\<lambda>(seen, conns).
     if \<not> from_id < length conns then fail Undefined
     else
       and_then (conn_get from_id c) (\<lambda>from_verts.
       let from_verts = sort from_verts in
       and_then (entity_ids c from_id) (\<lambda>es.
       and_then (fold_outcome (\<lambda>e v. and_then (entity_ids through e) (\<lambda>ts. fold_outcome (mark False) ts v)) es seen) (\<lambda>seen.
       and_then (fold_outcome (\<lambda>e s. and_then (entity_ids through e) (\<lambda>ts.
           fold_outcome (intersect_visit (intersect_related from_dim to_dim dim from_id from_verts c2)) ts s))
         es (seen, conns ! from_id)) (\<lambda>(seen, ents).
       ok (seen, conns[from_id := ents]))))))"

definition mesh_intersect :: "conn_key \<Rightarrow> nat \<Rightarrow> mesh \<Rightarrow> mesh outcome" where
  "mesh_intersect key dim m =
     (case key of (from_dom, to_dom, from_dim, to_dim) \<Rightarrow>
      if \<not> conn_is_empty (mesh_conn m key) then ok m
      else
        let num_from = length (mesh_ents m (from_dom, from_dim));
            num_to = length (mesh_ents m (from_dom, to_dim));
            c = mesh_conn m (from_dom, from_dom, from_dim, dim);
            c2 = mesh_conn m (to_dom, to_dom, to_dim, dim);
            through = mesh_conn m (to_dom, to_dom, dim, to_dim)
        in require (\<not> conn_is_empty c) (require (\<not> conn_is_empty c2)
          (and_then (fold_outcome (intersect_row from_dim to_dim dim c c2 through)
               (mesh_ents m (from_dom, from_dim)) (replicate num_to False, replicate num_from []))
             (\<lambda>(seen, conns). ok (put_conn key (conn_init conns (mesh_conn m key)) m)))))"

subsection \<open>What intersect computes\<close>

lemma includes_mset:
  "sorted xs \<Longrightarrow> sorted ys \<Longrightarrow> std_includes xs ys \<longleftrightarrow> mset ys \<subseteq># mset xs"
proof (induction xs ys rule: std_includes.induct)
  case (3 x xs y ys)
  consider "y < x" | "x < y" | "x = y" by fastforce
  then show ?case
  proof cases
    case 1
    then have "y \<notin> set (x # xs)" using 3(3) by auto
    then have "\<not> mset (y # ys) \<subseteq># mset (x # xs)"
      by (metis list.set_intros(1) mset_subset_eqD set_mset_mset)
    then show ?thesis using 1 by simp
  next
    case 2
    then have "x \<notin> set (y # ys)" using 3(4) by auto
    then have "mset (y # ys) \<subseteq># mset (x # xs) \<longleftrightarrow> mset (y # ys) \<subseteq># mset xs"
      using subset_eq_diff_conv[of "mset (y # ys)" "{#x#}" "mset xs"]
        diff_single_trivial[of x "mset (y # ys)"] by simp
    then show ?thesis using 2 3 by auto
  next
    case 3
    then show ?thesis using "3.IH" "3.prems" by auto
  qed
qed auto


definition related_sets :: "nat \<Rightarrow> nat \<Rightarrow> nat \<Rightarrow> nat list list \<Rightarrow> nat list list \<Rightarrow> nat \<Rightarrow> nat \<Rightarrow> bool" where
  "related_sets from_dim to_dim dim A C f t \<longleftrightarrow>
     (if from_dim = to_dim then f \<noteq> t
      else if dim < to_dim then mset (C ! t) \<subseteq># mset (A ! f)
      else set (A ! f) \<inter> set (C ! t) \<noteq> {})"

lemma intersect_related_correct:
  assumes "fits_u32 C" "t < length C"
  shows "intersect_related from_dim to_dim dim f (sort (A ! f)) (conn_of C) t
    = ok (related_sets from_dim to_dim dim A C f t)"
proof -
  have "C \<noteq> []" using assms(2) by auto
  then show ?thesis
    using assms by (simp add: intersect_related_def related_sets_def conn_get_rows Let_def includes_mset
        intersects_iff)
qed

lemma mark_all:
  assumes "\<forall>t\<in>set ts. t < length seen"
  shows "\<exists>seen'. fold_outcome (mark b) ts seen = ok seen' \<and> length seen' = length seen \<and>
    (\<forall>t<length seen. seen' ! t = (if t \<in> set ts then b else seen ! t))"
  using assms
proof (induction ts arbitrary: seen)
  case (Cons t ts)
  then show ?case using Cons.IH[of "seen[t := b]"] by (auto simp: mark_def nth_list_update)
qed simp

lemma visit_all:
  assumes "\<forall>t\<in>set ts. t < length seen \<and> \<not> seen ! t \<and> related t = ok (R t)"
  shows "\<exists>seen' ents. fold_outcome (intersect_visit related) ts (seen, []) = ok (seen', ents) \<and>
    length seen' = length seen \<and> distinct ents \<and> set ents = {t \<in> set ts. R t}"
proof -
  have "\<exists>seen' ents. fold_outcome (intersect_visit related) us (seen, []) = ok (seen', ents) \<and>
      length seen' = length seen \<and> distinct ents \<and> set ents = {t \<in> set us. R t} \<and>
      (\<forall>t\<in>set ts. seen' ! t \<longleftrightarrow> t \<in> set us)" if "set us \<subseteq> set ts" for us
    using that
  proof (induction us rule: rev_induct)
    case Nil
    then show ?case using assms by auto
  next
    case (snoc u us)
    then obtain seen' ents where s: "fold_outcome (intersect_visit related) us (seen, []) = ok (seen', ents)"
      "length seen' = length seen" "distinct ents" "set ents = {t \<in> set us. R t}"
      "\<forall>t\<in>set ts. seen' ! t \<longleftrightarrow> t \<in> set us" by auto
    have u: "u \<in> set ts" "u < length seen'" "related u = ok (R u)" using snoc.prems assms s(2) by auto
    show ?case
    proof (cases "u \<in> set us")
      case True
      then have "intersect_visit related u (seen', ents) = ok (seen', ents)"
        using s(5) u(1,2) by (simp add: intersect_visit_def)
      then show ?thesis using s u True by auto
    next
      case False
      then have "intersect_visit related u (seen', ents)
          = ok (seen'[u := True], if R u then ents @ [u] else ents)"
        using s(5) u by (simp add: intersect_visit_def mark_def)
      then show ?thesis using s u False by (auto simp: nth_list_update)
    qed
  qed
  from this[of ts] show ?thesis by blast
qed

lemma intersect_row_correct:
  assumes A: "fits_u32 A" "concat A \<noteq> []" "\<forall>e\<in>set (concat A). e < length B" "f < length A"
    and B: "concat B \<noteq> []" "\<forall>t\<in>set (concat B). t < nt" and C: "fits_u32 C" "length C = nt"
    and s: "length seen = nt" "f < length conns" "conns ! f = []"
  shows "\<exists>seen' ents. intersect_row from_dim to_dim dim (conn_of A) (conn_of C) (conn_of B) f (seen, conns)
      = ok (seen', conns[f := ents]) \<and> length seen' = nt \<and> distinct ents \<and>
    set ents = {t. (\<exists>e\<in>set (A ! f). t \<in> set (B ! e)) \<and> related_sets from_dim to_dim dim A C f t}"
proof -
  let ?ts = "concat (map ((!) B) (A ! f))"
  let ?R = "related_sets from_dim to_dim dim A C f"
  let ?rel = "intersect_related from_dim to_dim dim f (sort (A ! f)) (conn_of C)"
  have eB: "e < length B" if "e \<in> set (A ! f)" for e using A(3) nth_mem[OF A(4)] that by auto
  have tn: "\<forall>t\<in>set ?ts. t < nt" using B(2) eB by auto
  have through: "fold_outcome (\<lambda>e v. and_then (entity_ids (conn_of B) e) (\<lambda>ts. fold_outcome g ts v)) (A ! f) v
      = fold_outcome g ?ts v" for g :: "nat \<Rightarrow> 's \<Rightarrow> 's outcome" and v
  proof -
    have "fold_outcome (\<lambda>e v. and_then (entity_ids (conn_of B) e) (\<lambda>ts. fold_outcome g ts v)) (A ! f) v
        = fold_outcome (\<lambda>e. fold_outcome g (B ! e)) (A ! f) v"
      by (rule fold_outcome_cong) (auto simp: entity_ids_rows[OF B(1)] eB)
    then show ?thesis by (simp add: fold_outcome_concat)
  qed
  obtain seen1 where s1: "fold_outcome (mark False) ?ts seen = ok seen1" "length seen1 = nt"
    "\<forall>t<nt. seen1 ! t = (if t \<in> set ?ts then False else seen ! t)"
    using mark_all[of ?ts seen False] tn s(1) by auto
  have "\<forall>t\<in>set ?ts. t < length seen1 \<and> \<not> seen1 ! t \<and> ?rel t = ok (?R t)"
    using s1 tn intersect_related_correct[OF C(1)] C(2) by auto
  then obtain seen2 ents where s2: "fold_outcome (intersect_visit ?rel) ?ts (seen1, []) = ok (seen2, ents)"
    "length seen2 = nt" "distinct ents" "set ents = {t \<in> set ?ts. ?R t}"
    using visit_all[of ?ts seen1 ?rel ?R] s1(2) by auto
  have "A \<noteq> []" using A(2) by auto
  then have "intersect_row from_dim to_dim dim (conn_of A) (conn_of C) (conn_of B) f (seen, conns)
      = ok (seen2, conns[f := ents])"
    using s s1 s2 A(1,4) by (simp add: intersect_row_def conn_get_rows Let_def entity_ids_rows[OF A(2,4)] through)
  then show ?thesis using s2 by auto
qed

lemma length_distinct_bounded:
  assumes "distinct xs" "\<forall>x\<in>set xs. x < (n::nat)"
  shows "length xs \<le> n"
proof -
  have "card (set xs) \<le> card {..<n}" using assms(2) by (intro card_mono) auto
  then show ?thesis using assms(1) by (simp add: distinct_card)
qed

lemma intersect_rows:
  assumes key: "key = (from_dom, to_dom, from_dim, to_dim)" "conn_is_empty (mesh_conn m key)"
    and A: "mesh_conn m (from_dom, from_dom, from_dim, dim) = conn_of A" "fits_u32 A" "concat A \<noteq> []"
      "\<forall>e\<in>set (concat A). e < length B"
    and B: "mesh_conn m (to_dom, to_dom, dim, to_dim) = conn_of B" "concat B \<noteq> []" "\<forall>t\<in>set (concat B). t < length C"
    and C: "mesh_conn m (to_dom, to_dom, to_dim, dim) = conn_of C" "fits_u32 C" "concat C \<noteq> []"
    and ents: "mesh_ents m (from_dom, from_dim) = [0..<length A]" "length (mesh_ents m (from_dom, to_dim)) = length C"
    and small: "length A * length C < 2 ^ 32"
  shows "\<exists>rows. mesh_intersect key dim m = ok (put_conn key (conn_of rows) m) \<and> length rows = length A \<and> fits_u32 rows \<and>
    (\<forall>f<length A. distinct (rows ! f) \<and> set (rows ! f) =
       {t. (\<exists>e\<in>set (A ! f). t \<in> set (B ! e)) \<and> related_sets from_dim to_dim dim A C f t})"
proof -
  let ?nt = "length C" and ?n = "length A"
  let ?row = "intersect_row from_dim to_dim dim (conn_of A) (conn_of C) (conn_of B)"
  let ?S = "\<lambda>f. {t. (\<exists>e\<in>set (A ! f). t \<in> set (B ! e)) \<and> related_sets from_dim to_dim dim A C f t}"
  have "\<exists>seen conns. fold_outcome ?row [0..<k] (replicate ?nt False, replicate ?n []) = ok (seen, conns) \<and>
      length seen = ?nt \<and> length conns = ?n \<and>
      (\<forall>f<?n. if f < k then distinct (conns ! f) \<and> set (conns ! f) = ?S f else conns ! f = [])"
    if "k \<le> ?n" for k
    using that
  proof (induction k)
    case (Suc k)
    then obtain seen conns where s: "fold_outcome ?row [0..<k] (replicate ?nt False, replicate ?n []) = ok (seen, conns)"
      "length seen = ?nt" "length conns = ?n"
      "\<forall>f<?n. if f < k then distinct (conns ! f) \<and> set (conns ! f) = ?S f else conns ! f = []" by auto
    have k: "k < ?n" "k < length conns" "conns ! k = []" using Suc.prems s(3,4) by auto
    obtain seen' ents where "?row k (seen, conns) = ok (seen', conns[k := ents])" "length seen' = ?nt"
      "distinct ents" "set ents = ?S k"
      using intersect_row_correct[OF A(2,3,4) k(1) B(2,3) C(2) refl s(2) k(2,3)] by blast
    then show ?case using s k by (auto simp: nth_list_update less_Suc_eq)
  qed simp
  from this[of ?n] obtain seen conns where
    s: "fold_outcome ?row [0..<?n] (replicate ?nt False, replicate ?n []) = ok (seen, conns)" "length conns = ?n"
      "\<forall>f<?n. distinct (conns ! f) \<and> set (conns ! f) = ?S f"
    by auto
  have len: "length row \<le> ?nt" if row: "row \<in> set conns" for row
  proof -
    obtain f where f: "f < ?n" "row = conns ! f" using row s(2) by (auto simp: in_set_conv_nth)
    have "t < ?nt" if t: "t \<in> ?S f" for t
    proof -
      obtain e where e: "e \<in> set (A ! f)" "t \<in> set (B ! e)" using t by auto
      then have "e < length B" using A(4) nth_mem[OF f(1)] by auto
      then show ?thesis using B(3) e(2) by auto
    qed
    then show ?thesis using s(3) f by (intro length_distinct_bounded) auto
  qed
  have "sum_list (map length conns) \<le> length conns * ?nt"
    using len by (induction conns) (auto simp: add_mono)
  then have "fits_u32 conns" using small s(2) by (simp add: fits_u32_def length_concat)
  note fits = this
  moreover have "\<not> conn_is_empty (conn_of A)" "\<not> conn_is_empty (conn_of C)"
    using A(3) C(3) by (simp_all add: conn_is_empty_def conn_of_def)
  ultimately have "mesh_intersect key dim m = ok (put_conn key (conn_of conns) m)"
    using key A(1) B(1) C(1) ents s(1) by (simp add: mesh_intersect_def Let_def conn_init_rows)
  then show ?thesis using s(2,3) fits by blast
qed


text \<open>
  \<open>intersect\<close> relates every entity of the first dimension, without duplicates, to exactly the
  entities that can be reached through one entity of the intermediate dimension and satisfy the
  test of the code: another entity when the dimensions agree, an entity all of whose intermediates
  are shared when it is of higher dimension than the intermediates, one that shares some otherwise.
\<close>

theorem intersect_relates:
  assumes key: "key = (from_dom, to_dom, from_dim, to_dim)" "conn_is_empty (mesh_conn m key)"
    and A: "mesh_conn m (from_dom, from_dom, from_dim, dim) = conn_of A" "fits_u32 A" "concat A \<noteq> []"
      "\<forall>e\<in>set (concat A). e < length B"
    and B: "mesh_conn m (to_dom, to_dom, dim, to_dim) = conn_of B" "concat B \<noteq> []" "\<forall>t\<in>set (concat B). t < length C"
    and C: "mesh_conn m (to_dom, to_dom, to_dim, dim) = conn_of C" "fits_u32 C" "concat C \<noteq> []"
    and ents: "mesh_ents m (from_dom, from_dim) = [0..<length A]" "length (mesh_ents m (from_dom, to_dim)) = length C"
    and small: "length A * length C < 2 ^ 32"
  shows "\<exists>rows. mesh_intersect key dim m = ok (put_conn key (conn_of rows) m) \<and> length rows = length A \<and>
    (\<forall>f<length A. distinct (rows ! f) \<and> set (rows ! f) =
       {t. (\<exists>e\<in>set (A ! f). t \<in> set (B ! e)) \<and> related_sets from_dim to_dim dim A C f t})"
proof -
  from intersect_rows[OF key A B C ents small] show ?thesis by (elim exE conjE) (intro exI conjI)
qed


lemma intersect_relates_witness:
  "\<exists>rows. mesh_intersect (0, 0, 2, 2) 0 (put_conn (0, 0, 0, 2) (conn_of [[0], [0, 1], [1]]) two_cells)
      = ok (put_conn (0, 0, 2, 2) (conn_of rows) (put_conn (0, 0, 0, 2) (conn_of [[0], [0, 1], [1]]) two_cells)) \<and>
    distinct (rows ! 0) \<and> set (rows ! 0) = {1}"
proof -
  let ?m = "put_conn (0, 0, 0, 2) (conn_of [[0], [0, 1], [1]]) two_cells"
  have e: "conn_is_empty (mesh_conn ?m (0, 0, 2, 2))"
    by (simp add: put_conn_def two_cells_def conn_is_empty_def conn_new_def)
  have "\<exists>rows. mesh_intersect (0, 0, 2, 2) 0 ?m = ok (put_conn (0, 0, 2, 2) (conn_of rows) ?m) \<and>
      length rows = length [[0, 1], [1, 2::nat]] \<and>
      (\<forall>f<length [[0, 1], [1, 2::nat]]. distinct (rows ! f) \<and> set (rows ! f) =
        {t. (\<exists>e\<in>set ([[0, 1], [1, 2]] ! f). t \<in> set ([[0], [0, 1], [1]] ! e)) \<and>
          related_sets 2 2 0 [[0, 1], [1, 2]] [[0, 1], [1, 2]] f t})"
    by (rule intersect_relates[OF refl e])
      (simp_all add: put_conn_def two_cells_def fits_u32_def upt_rec)
  then obtain rows where r: "mesh_intersect (0, 0, 2, 2) 0 ?m = ok (put_conn (0, 0, 2, 2) (conn_of rows) ?m)"
    and s: "\<forall>f<2. distinct (rows ! f) \<and> set (rows ! f) =
        {t. (\<exists>e\<in>set ([[0, 1], [1, 2]] ! f). t \<in> set ([[0], [0, 1], [1]] ! e)) \<and>
          related_sets 2 2 0 [[0, 1], [1, 2]] [[0, 1], [1, 2]] f t}"
    by auto
  have "{t. (\<exists>e\<in>set ([[0, 1], [1, 2]] ! 0). t \<in> set ([[0], [0, 1], [1]] ! e)) \<and>
      related_sets 2 2 0 [[0, 1], [1, 2]] [[0, 1], [1, 2]] 0 t} = {1::nat}"
    by (auto simp: related_sets_def)
  then show ?thesis using r s[rule_format, of 0] by (intro exI[of _ rows]) auto
qed

section \<open>build\_connectivity\<close>

text \<open>
  The state of the enumeration: the map from sorted vertex lists to ids (\<open>entity_vertices_map\<close>),
  the vertex lists and ids of the entities in creation order, and the row of each cell. The
  parameters: \<open>creates c\<close> is what the policy's \<open>create_entities\<close> returns for cell \<open>c\<close>, one vertex
  list per entity, \<open>vertex_map\<close> the index map of the vertices, \<open>intermediate\<close> the reverse
  intermediate map (with the empty map standing for none) and \<open>entity_map\<close> the reverse index map of
  the entities.
\<close>

record build_state =
  vertices_map :: "(nat list \<times> nat) list"
  entity_vertex_conn :: "nat list list"
  created_ids :: "nat list"
  cell_entity_conn :: "nat list list"

definition build_entity_id ::
    "(nat \<rightharpoonup> nat) \<Rightarrow> (nat list \<times> nat) list \<Rightarrow> (nat \<rightharpoonup> nat) \<Rightarrow> nat list \<Rightarrow> nat \<Rightarrow> nat outcome" where
  "build_entity_id vertex_map intermediate entity_map a counter =
     (if intermediate \<noteq> [] then
        let mis = sort (map (\<lambda>v. case vertex_map v of None \<Rightarrow> 0 | Some i \<Rightarrow> i) a) in
        (case map_of intermediate mis of None \<Rightarrow> fail Out_of_range
         | Some i \<Rightarrow> (case entity_map i of None \<Rightarrow> fail Out_of_range | Some e \<Rightarrow> ok e))
      else ok counter)"

definition build_entity ::
    "(nat \<rightharpoonup> nat) \<Rightarrow> (nat list \<times> nat) list \<Rightarrow> (nat \<rightharpoonup> nat) \<Rightarrow> nat \<Rightarrow> nat list \<Rightarrow> build_state \<Rightarrow> build_state outcome" where
  "build_entity vertex_map intermediate entity_map c a s =
     (let ev = sort a in
      and_then (build_entity_id vertex_map intermediate entity_map a (length (created_ids s))) (\<lambda>entity_id.
      case map_of (vertices_map s) ev of
        Some i \<Rightarrow> ok (s\<lparr>cell_entity_conn := (cell_entity_conn s)[c := cell_entity_conn s ! c @ [i]]\<rparr>)
      | None \<Rightarrow> ok (s\<lparr>vertices_map := vertices_map s @ [(ev, entity_id)],
            cell_entity_conn := (cell_entity_conn s)[c := cell_entity_conn s ! c @ [entity_id]],
            entity_vertex_conn := entity_vertex_conn s @ [a],
            created_ids := created_ids s @ [entity_id]\<rparr>)))"

definition build_cell ::
    "(nat \<rightharpoonup> nat) \<Rightarrow> (nat list \<times> nat) list \<Rightarrow> (nat \<rightharpoonup> nat) \<Rightarrow> (nat \<Rightarrow> nat list list) \<Rightarrow> nat \<Rightarrow>
     build_state \<Rightarrow> build_state outcome" where
  "build_cell vertex_map intermediate entity_map creates c s =
     (if \<not> c < length (cell_entity_conn s) then fail Undefined
      else fold_outcome (build_entity vertex_map intermediate entity_map c) (creates c) s)"

definition build_start :: "nat \<Rightarrow> build_state" where
  "build_start num_cells = \<lparr>vertices_map = [], entity_vertex_conn = [], created_ids = [],
     cell_entity_conn = replicate num_cells []\<rparr>"

text \<open>\<open>cells\<close> are the local ids of the cells in the order of their global ids.\<close>

definition mesh_build_connectivity ::
    "(nat \<rightharpoonup> nat) \<Rightarrow> (nat list \<times> nat) list \<Rightarrow> (nat \<rightharpoonup> nat) \<Rightarrow> (nat \<Rightarrow> nat list list) \<Rightarrow> nat list \<Rightarrow>
     (nat \<Rightarrow> mesh \<Rightarrow> mesh) \<Rightarrow> nat \<Rightarrow> nat \<Rightarrow> nat \<Rightarrow> mesh \<Rightarrow> mesh outcome" where
  "mesh_build_connectivity vertex_map intermediate entity_map creates cells create_entity domn dim_build dim_using m =
     require (\<not> conn_is_empty (mesh_conn m (domn, domn, dim_using, 0)))
       (and_then (fold_outcome (build_cell vertex_map intermediate entity_map creates) cells
            (build_start (length (mesh_ents m (domn, dim_using))))) (\<lambda>s.
        let m = fold create_entity (created_ids s) m in
        and_then (if intermediate \<noteq> []
            then (case reorder_destructive (created_ids s) (entity_vertex_conn s) of
                    None \<Rightarrow> fail Undefined | Some evc \<Rightarrow> ok evc)
            else ok (entity_vertex_conn s)) (\<lambda>evc.
        let m = put_conn (domn, domn, dim_build, 0) (conn_init evc (mesh_conn m (domn, domn, dim_build, 0))) m in
        ok (put_conn (domn, domn, dim_using, dim_build)
              (conn_init (cell_entity_conn s) (mesh_conn m (domn, domn, dim_using, dim_build))) m))))"


subsection \<open>What the enumeration computes\<close>

definition cell_pairs :: "(nat \<Rightarrow> nat list list) \<Rightarrow> nat list \<Rightarrow> (nat \<times> nat list) list" where
  "cell_pairs creates cells = concat (map (\<lambda>c. map (Pair c) (creates c)) cells)"

definition names :: "nat list list \<Rightarrow> nat \<Rightarrow> nat list \<Rightarrow> bool" where
  "names evc i a \<longleftrightarrow> i < length evc \<and> sort (evc ! i) = sort a"

text \<open>The first of the lists with the vertices of \<open>a\<close>.\<close>

definition first_with :: "nat list list \<Rightarrow> nat list \<Rightarrow> nat list option" where
  "first_with as a = find (\<lambda>b. sort b = sort a) as"

text \<open>What an intermediate map has to promise: it numbers the vertex sets of the entities without gaps.\<close>

definition numbers_given ::
    "(nat \<rightharpoonup> nat) \<Rightarrow> (nat list \<times> nat) list \<Rightarrow> (nat \<rightharpoonup> nat) \<Rightarrow> nat list set \<Rightarrow> bool" where
  "numbers_given vm im em entities \<longleftrightarrow>
     (\<forall>a\<in>entities. \<exists>i<card (sort ` entities). build_entity_id vm im em a 0 = ok i) \<and>
     (\<forall>a\<in>entities. \<forall>b\<in>entities. build_entity_id vm im em a 0 = build_entity_id vm im em b 0 \<longrightarrow> sort a = sort b)"

text \<open>The id an entity gets when it is the \<open>k\<close>-th one created, and the invariant of the enumeration.\<close>

definition assigned :: "(nat \<rightharpoonup> nat) \<Rightarrow> (nat list \<times> nat) list \<Rightarrow> (nat \<rightharpoonup> nat) \<Rightarrow> nat \<Rightarrow> nat list \<Rightarrow> nat" where
  "assigned vm im em k a = (case build_entity_id vm im em a k of Inl _ \<Rightarrow> 0 | Inr i \<Rightarrow> i)"

definition build_inv :: "(nat \<Rightarrow> nat list \<Rightarrow> nat) \<Rightarrow> nat \<Rightarrow> (nat \<times> nat list) list \<Rightarrow> build_state \<Rightarrow> bool" where
  "build_inv h n ps s \<longleftrightarrow>
     length (cell_entity_conn s) = n \<and>
     created_ids s = map (\<lambda>k. h k (entity_vertex_conn s ! k)) [0..<length (entity_vertex_conn s)] \<and>
     vertices_map s = zip (map sort (entity_vertex_conn s)) (created_ids s) \<and>
     distinct (map sort (entity_vertex_conn s)) \<and>
     sort ` set (entity_vertex_conn s) = sort ` snd ` set ps \<and>
     (\<forall>a\<in>set (entity_vertex_conn s). first_with (map snd ps) a = Some a) \<and>
     length (concat (entity_vertex_conn s)) \<le> sum_list (map (length \<circ> snd) ps) \<and>
     (\<forall>c<n. list_all2 (\<lambda>i a. map_of (vertices_map s) (sort a) = Some i) (cell_entity_conn s ! c)
       (map snd (filter (\<lambda>(c', a). c' = c) ps)))"

lemma names_append: "names evc i a \<Longrightarrow> names (evc @ xs) i a"
  by (simp add: names_def nth_append)

lemma first_with_append: "first_with (as @ bs) a = (case first_with as a of None \<Rightarrow> first_with bs a | Some b \<Rightarrow> Some b)"
  unfolding first_with_def by (induction as) auto

lemma first_with_None: "first_with as a = None \<longleftrightarrow> sort a \<notin> sort ` set as"
  unfolding first_with_def find_None_iff image_iff by (auto dest: sym)

lemma build_entity_id_sorted: "im \<noteq> [] \<Longrightarrow> build_entity_id vm im em (sort a) k = build_entity_id vm im em a k'"
proof -
  have "sort (map f (sort a)) = sort (map f a)" for f :: "nat \<Rightarrow> nat"
  proof -
    have "mset (map f (sort a)) = mset (map f a)" by simp
    then have "sorted_list_of_multiset (mset (map f (sort a))) = sorted_list_of_multiset (mset (map f a))" by (rule arg_cong)
    then show ?thesis unfolding sorted_list_of_multiset_mset .
  qed
  then show "im \<noteq> [] \<Longrightarrow> build_entity_id vm im em (sort a) k = build_entity_id vm im em a k'"
    by (simp add: build_entity_id_def Let_def)
qed

text \<open>An entity that is already known keeps the state but for the row of its cell.\<close>

lemma build_entity_inv:
  assumes inv: "build_inv (assigned vm im em) n ps s" and c: "c < n"
    and num: "\<And>k. build_entity_id vm im em a k = ok (assigned vm im em k a)"
  shows "\<exists>s'. build_entity vm im em c a s = ok s' \<and> build_inv (assigned vm im em) n (ps @ [(c, a)]) s'"
proof -
  let ?evc = "entity_vertex_conn s" and ?h = "assigned vm im em"
  note i = inv[unfolded build_inv_def]
  have inv: "length (cell_entity_conn s) = n" "created_ids s = map (\<lambda>k. ?h k (?evc ! k)) [0..<length ?evc]"
    "vertices_map s = zip (map sort ?evc) (created_ids s)" "distinct (map sort ?evc)"
    "sort ` set ?evc = sort ` snd ` set ps" "\<forall>a\<in>set ?evc. first_with (map snd ps) a = Some a"
    "length (concat ?evc) \<le> sum_list (map (length \<circ> snd) ps)"
    and rows: "\<forall>c<n. list_all2 (\<lambda>i a. map_of (vertices_map s) (sort a) = Some i) (cell_entity_conn s ! c)
       (map snd (filter (\<lambda>(c', a). c' = c) ps))"
    using i by blast+
  have keep: "\<forall>b\<in>set ?evc. first_with (map snd (ps @ [(c, a)])) b = Some b"
    using inv(6) by (simp add: first_with_append)
  have known: "map_of (vertices_map s) (sort a) = None \<longleftrightarrow> sort a \<notin> sort ` set ?evc"
  proof -
    have "length (map sort ?evc) = length (created_ids s)" using inv(2) by simp
    then show ?thesis unfolding inv(3) by (simp add: map_of_zip_is_None)
  qed
  have row: "list_all2 (\<lambda>i a. map_of vmap (sort a) = Some i) ((cell_entity_conn s)[c := cell_entity_conn s ! c @ [e]] ! d)
        (map snd (filter (\<lambda>(c', a). c' = d) (ps @ [(c, a)])))"
    if "d < n" "map_of vmap (sort a) = Some e" "\<And>k i. map_of (vertices_map s) k = Some i \<Longrightarrow> map_of vmap k = Some i" for d vmap e
  proof -
    have "list_all2 (\<lambda>i a. map_of vmap (sort a) = Some i) (cell_entity_conn s ! d) (map snd (filter (\<lambda>(c', a). c' = d) ps))"
      using rows[THEN spec, THEN mp, OF that(1)] that(3) by (auto elim: list_all2_mono)
    then show ?thesis using that(1,2) inv(1) by (cases "d = c") (auto intro: list_all2_appendI)
  qed
  show ?thesis
  proof (cases "map_of (vertices_map s) (sort a)")
    case (Some e)
    then have "sort a \<in> sort ` snd ` set ps" using known inv(5) by auto
    moreover have "build_entity vm im em c a s = ok (s\<lparr>cell_entity_conn := (cell_entity_conn s)[c := cell_entity_conn s ! c @ [e]]\<rparr>)"
      using Some num by (simp add: build_entity_def Let_def)
    ultimately show ?thesis
      using inv(1-5,7) keep row[OF _ Some] by (simp add: build_inv_def insert_absorb trans_le_add1)
  next
    case None
    let ?e = "?h (length ?evc) a" and ?evc' = "?evc @ [a]"
    let ?vm' = "vertices_map s @ [(sort a, ?e)]"
    have new: "sort a \<notin> sort ` set ?evc" using None known by blast
    have ids: "created_ids s @ [?e] = map (\<lambda>k. ?h k (?evc' ! k)) [0..<length ?evc']"
      unfolding inv(2) by (simp add: nth_append)
    have map: "map_of ?vm' (sort a) = Some ?e" "\<And>k i. map_of (vertices_map s) k = Some i \<Longrightarrow> map_of ?vm' k = Some i"
      using None by (simp_all add: map_add_def)
    have "first_with (map snd (ps @ [(c, a)])) a = Some a"
    proof -
      have "first_with (map snd ps) a = None" unfolding first_with_None using new inv(5) by (simp add: image_image)
      then show ?thesis by (simp add: first_with_append) (simp add: first_with_def)
    qed
    moreover have "build_entity vm im em c a s = ok (s\<lparr>vertices_map := ?vm',
            cell_entity_conn := (cell_entity_conn s)[c := cell_entity_conn s ! c @ [?e]],
            entity_vertex_conn := ?evc', created_ids := created_ids s @ [?e]\<rparr>)"
      using None num inv(2) by (simp add: build_entity_def Let_def)
    moreover have "zip (map sort ?evc') (created_ids s @ [?e]) = ?vm'" using inv(2,3) by simp
    ultimately show ?thesis
      using inv(1,4,5,7) new keep ids row[OF _ map] by (simp add: build_inv_def)
  qed
qed

lemma build_all_inv:
  assumes "\<forall>(c, a)\<in>set ps. c < n \<and> (\<forall>k. build_entity_id vm im em a k = ok (assigned vm im em k a))"
  shows "\<exists>s. fold_outcome (\<lambda>(c, a). build_entity vm im em c a) ps (build_start n) = ok s \<and> build_inv (assigned vm im em) n ps s"
  using assms
proof (induction ps rule: rev_induct)
  case Nil
  show ?case by (simp add: build_inv_def build_start_def)
next
  case (snoc p ps)
  then obtain s where s: "fold_outcome (\<lambda>(c, a). build_entity vm im em c a) ps (build_start n) = ok s"
    "build_inv (assigned vm im em) n ps s" by auto
  obtain c a where p: "p = (c, a)" by (cases p)
  then have "c < n" "\<And>k. build_entity_id vm im em a k = ok (assigned vm im em k a)" using snoc.prems by simp_all
  from build_entity_inv[OF s(2) this] show ?case using s(1) p by auto
qed

lemma build_cells_pairs:
  assumes "\<forall>c\<in>set cells. c < n"
  shows "fold_outcome (build_cell vm im em creates) cells (build_start n)
    = fold_outcome (\<lambda>(c, a). build_entity vm im em c a) (cell_pairs creates cells) (build_start n)"
proof -
  have len: "length (cell_entity_conn t) = length (cell_entity_conn s)" if "build_entity vm im em c a s = ok t" for c a s t
    using that by (auto simp: build_entity_def build_entity_id_def Let_def split: option.splits)
  have len': "length (cell_entity_conn t) = length (cell_entity_conn s)"
    if "fold_outcome (build_entity vm im em c) as s = ok t" for c as s t
    using fold_outcome_invariant[OF that, of "\<lambda>t. length (cell_entity_conn t) = length (cell_entity_conn s)"] len
    by auto
  have "fold_outcome (build_cell vm im em creates) cs s
      = fold_outcome (\<lambda>c. fold_outcome (build_entity vm im em c) (creates c)) cs s"
    if "\<forall>c\<in>set cs. c < length (cell_entity_conn s)" for cs s
    using that
  proof (induction cs arbitrary: s)
    case (Cons c cs)
    show ?case
    proof (cases "fold_outcome (build_entity vm im em c) (creates c) s")
      case (Inr t)
      then show ?thesis using Cons.IH[of t] Cons.prems len'[OF Inr] by (simp add: build_cell_def)
    qed (use Cons.prems in \<open>simp add: build_cell_def\<close>)
  qed simp
  then show ?thesis
    using assms by (simp add: build_start_def fold_outcome_nested cell_pairs_def)
qed

lemma filter_cell_pairs:
  "distinct cells \<Longrightarrow> map snd (filter (\<lambda>(c', a). c' = c) (cell_pairs creates cells))
    = (if c \<in> set cells then creates c else [])"
proof (induction cells)
  case (Cons d cells)
  have "map snd (filter (\<lambda>(c', a). c' = c) (map (Pair d) (creates d))) = (if d = c then creates d else [])"
    by (induction "creates d") (auto simp: filter_map comp_def)
  then show ?case using Cons by (auto simp: cell_pairs_def)
qed (simp add: cell_pairs_def)

lemma numbers_givenD:
  assumes "numbers_given vm im em entities" and a: "a \<in> entities"
  shows "\<exists>i<card (sort ` entities). build_entity_id vm im em a 0 = ok i"
    and "b \<in> entities \<Longrightarrow> build_entity_id vm im em a 0 = build_entity_id vm im em b 0 \<Longrightarrow> sort a = sort b"
proof -
  note g = assms(1)[unfolded numbers_given_def]
  show "\<exists>i<card (sort ` entities). build_entity_id vm im em a 0 = ok i" by (rule conjunct1[OF g, rule_format, OF a])
  show "b \<in> entities \<Longrightarrow> build_entity_id vm im em a 0 = build_entity_id vm im em b 0 \<Longrightarrow> sort a = sort b"
    by (rule conjunct2[OF g, rule_format, OF a])
qed

text \<open>The ids an intermediate map gives are a permutation, and the vertex lists are brought into its order.\<close>

lemma given_order:
  assumes inv: "build_inv (assigned vm im em) n ps s" and im: "im \<noteq> []"
    and num: "numbers_given vm im em (snd ` set ps)"
  shows "\<exists>evc. reorder_destructive (created_ids s) (entity_vertex_conn s) = Some evc \<and> mset evc = mset (entity_vertex_conn s) \<and>
    mset (created_ids s) = mset [0..<length evc] \<and>
    (\<forall>a i. map_of (vertices_map s) (sort a) = Some i \<longrightarrow> names evc i a) \<and>
    (\<forall>a\<in>snd ` set ps. \<exists>i. build_entity_id vm im em a 0 = ok i \<and> names evc i a)"
proof -
  let ?evc = "entity_vertex_conn s" and ?ids = "created_ids s" and ?E = "snd ` set ps"
  have ids: "?ids = map (\<lambda>k. assigned vm im em k (?evc ! k)) [0..<length ?evc]" "vertices_map s = zip (map sort ?evc) ?ids"
    and dist: "distinct (map sort ?evc)" and cover: "sort ` set ?evc = sort ` ?E"
    using inv unfolding build_inv_def by blast+
  have same: "build_entity_id vm im em (sort a) 0 = build_entity_id vm im em a k" for a k
    by (rule build_entity_id_sorted[OF im])
  have rep: "\<exists>b\<in>?E. sort b = sort (?evc ! k) \<and> build_entity_id vm im em b 0 = ok (?ids ! k)" if k: "k < length ?evc" for k
  proof -
    have "sort (?evc ! k) \<in> sort ` ?E" unfolding cover[symmetric] using k by simp
    then obtain b where b: "b \<in> ?E" "sort b = sort (?evc ! k)" by (metis imageE)
    from numbers_givenD(1)[OF num b(1)] obtain i where i: "build_entity_id vm im em b 0 = ok i" by blast
    then have "build_entity_id vm im em (?evc ! k) k = ok i" using same[of b 0] same[of "?evc ! k" k] b(2) by simp
    then have "?ids ! k = i" using k unfolding ids(1) by (simp add: assigned_def)
    then show ?thesis using b i by blast
  qed
  have len: "length ?ids = length ?evc" unfolding ids(1) by simp
  have "card (sort ` ?E) = length ?evc"
    unfolding cover[symmetric] using distinct_card[OF dist] by simp
  note small = numbers_givenD(1)[OF num, unfolded this] and apart = numbers_givenD(2)[OF num]
  have bound: "?ids ! k < length ?evc" if k: "k < length ?evc" for k
  proof -
    obtain b where "b \<in> ?E" "build_entity_id vm im em b 0 = ok (?ids ! k)" using rep[OF k] by blast
    moreover from small[OF this(1)] obtain i where "i < length ?evc" "build_entity_id vm im em b 0 = ok i" by blast
    ultimately show ?thesis by simp
  qed
  have inj: "k = l" if kl: "k < length ?evc" "l < length ?evc" "?ids ! k = ?ids ! l" for k l
  proof -
    obtain a where a: "a \<in> ?E" "sort a = sort (?evc ! k)" "build_entity_id vm im em a 0 = ok (?ids ! k)" using rep[OF kl(1)] by blast
    obtain b where b: "b \<in> ?E" "sort b = sort (?evc ! l)" "build_entity_id vm im em b 0 = ok (?ids ! l)" using rep[OF kl(2)] by blast
    have "sort (?evc ! k) = sort (?evc ! l)" using apart[OF a(1) b(1)] a(2,3) b(2,3) kl(3) by simp
    then show ?thesis using dist kl(1,2) by (metis distinct_conv_nth length_map nth_map)
  qed
  have "distinct ?ids" unfolding distinct_conv_nth using inj len by metis
  moreover have "list_all (\<lambda>i. i < length ?ids) ?ids" unfolding list_all_length using bound len by simp
  ultimately have perm: "perm_list ?ids" by (simp add: perm_list_def)
  obtain evc where r: "reorder_destructive ?ids ?evc = Some evc" "length evc = length ?evc" "\<forall>k<length ?evc. evc ! (?ids ! k) = ?evc ! k"
    using reorder_destructive_places[OF perm, of ?evc] len by auto
  have "set ?ids \<subseteq> {0..<length ?ids}" "card (set ?ids) = card {0..<length ?ids}"
    using perm distinct_card[of ?ids] by (auto simp: perm_list_def list_all_iff)
  then have "set ?ids = {0..<length ?ids}" by (intro card_subset_eq) simp_all
  then have ids_mset: "mset ?ids = mset [0..<length evc]"
    using \<open>distinct ?ids\<close> r(2) len by (metis atLeast_upt distinct_upt set_eq_iff_mset_eq_distinct atLeast0LessThan)
  have "map ((!) evc) ?ids = ?evc" using r(2,3) len by (intro nth_equalityI) simp_all
  then have "mset ?evc = image_mset ((!) evc) (mset ?ids)" by (metis mset_map)
  also have "\<dots> = mset (map ((!) evc) [0..<length evc])" unfolding ids_mset by simp
  also have "map ((!) evc) [0..<length evc] = evc" by (rule map_nth)
  finally have "mset evc = mset ?evc" ..
  moreover have "names evc i a" if "map_of (vertices_map s) (sort a) = Some i" for a i
  proof -
    have "(sort a, i) \<in> set (zip (map sort ?evc) ?ids)" using that map_of_SomeD unfolding ids(2) by fast
    then obtain k where "k < length ?evc" "sort (?evc ! k) = sort a" "?ids ! k = i" by (auto simp: in_set_zip)
    then show ?thesis using r(2,3) bound[of k] by (auto simp: names_def)
  qed
  moreover have "\<exists>i. build_entity_id vm im em a 0 = ok i \<and> names evc i a" if a: "a \<in> ?E" for a
  proof -
    have "sort a \<in> sort ` set ?evc" unfolding cover using a by blast
    then obtain k where k: "k < length ?evc" "sort (?evc ! k) = sort a" by (metis imageE in_set_conv_nth)
    obtain b where "sort b = sort (?evc ! k)" "build_entity_id vm im em b 0 = ok (?ids ! k)" using rep[OF k(1)] by blast
    then have "build_entity_id vm im em a 0 = ok (?ids ! k)" using same[of a 0] same[of b 0] k(2) by simp
    moreover have "names evc (?ids ! k) a" using r(2,3) bound[OF k(1)] k by (simp add: names_def)
    ultimately show ?thesis by blast
  qed
  ultimately show ?thesis using r(1) ids_mset by blast
qed

lemma created_order:
  assumes inv: "build_inv (assigned vm [] em) n ps s"
  shows "created_ids s = [0..<length (entity_vertex_conn s)]"
    and "map_of (vertices_map s) (sort a) = Some i \<Longrightarrow> names (entity_vertex_conn s) i a"
proof -
  have ids: "created_ids s = map (\<lambda>k. assigned vm [] em k (entity_vertex_conn s ! k)) [0..<length (entity_vertex_conn s)]"
    "vertices_map s = zip (map sort (entity_vertex_conn s)) (created_ids s)"
    using inv unfolding build_inv_def by blast+
  show "created_ids s = [0..<length (entity_vertex_conn s)]" unfolding ids(1) by (simp add: assigned_def build_entity_id_def)
  then show "map_of (vertices_map s) (sort a) = Some i \<Longrightarrow> names (entity_vertex_conn s) i a"
    unfolding ids(2) by (auto dest!: map_of_SomeD simp: in_set_zip names_def)
qed

lemma fits_mset: "mset xs = mset ys \<Longrightarrow> fits_u32 xs \<longleftrightarrow> fits_u32 ys"
  unfolding fits_u32_def length_concat by (metis mset_map sum_mset_sum_list)

lemma built_sizes:
  assumes inv: "build_inv h n (cell_pairs creates cells) s" and cells: "distinct cells" "\<forall>c\<in>set cells. c < n"
    and small: "sum_list (map (\<lambda>c. length (concat (creates c))) cells) < 2 ^ 32"
      "sum_list (map (\<lambda>c. length (creates c)) cells) < 2 ^ 32"
  shows "fits_u32 (entity_vertex_conn s)" "fits_u32 (cell_entity_conn s)"
    "\<forall>c\<in>set cells. list_all2 (\<lambda>i a. map_of (vertices_map s) (sort a) = Some i) (cell_entity_conn s ! c) (creates c)"
proof -
  let ?ps = "cell_pairs creates cells" and ?evc = "entity_vertex_conn s" and ?rows = "cell_entity_conn s"
  have rows: "length ?rows = n" "\<And>c. c < n \<Longrightarrow> list_all2 (\<lambda>i a. map_of (vertices_map s) (sort a) = Some i) (?rows ! c)
      (if c \<in> set cells then creates c else [])"
    using inv filter_cell_pairs[OF cells(1)] by (auto simp: build_inv_def)
  then show "\<forall>c\<in>set cells. list_all2 (\<lambda>i a. map_of (vertices_map s) (sort a) = Some i) (?rows ! c) (creates c)"
    using cells(2) by fastforce
  have "sum_list (map (length \<circ> snd) ?ps) = sum_list (map (\<lambda>c. length (concat (creates c))) cells)"
    by (induction cells) (simp_all add: cell_pairs_def comp_def length_concat)
  then show "fits_u32 ?evc" using inv small(1) by (simp add: build_inv_def fits_u32_def)
  have "length (concat ?rows) = (\<Sum>c\<leftarrow>[0..<n]. length (?rows ! c))"
    unfolding length_concat rows(1)[symmetric] by (rule arg_cong[of _ _ sum_list], rule nth_equalityI) auto
  also have "\<dots> = (\<Sum>c\<leftarrow>[0..<n]. if c \<in> set cells then length (creates c) else 0)"
  proof (intro arg_cong[of _ _ sum_list] map_cong refl)
    fix c assume "c \<in> set [0..<n]"
    then show "length (?rows ! c) = (if c \<in> set cells then length (creates c) else 0)"
      using list_all2_lengthD[OF rows(2)[of c]] by auto
  qed
  also have "\<dots> = (\<Sum>c\<in>set cells. length (creates c))"
  proof -
    have "(\<Sum>c\<in>{0..<n}. if c \<in> set cells then length (creates c) else 0) = (\<Sum>c\<in>{0..<n} \<inter> set cells. length (creates c))"
      by (rule sum.inter_restrict[symmetric]) simp
    moreover have "{0..<n} \<inter> set cells = set cells" using cells(2) by auto
    ultimately show ?thesis by (simp add: interv_sum_list_conv_sum_set_nat)
  qed
  also have "\<dots> = sum_list (map (\<lambda>c. length (creates c)) cells)"
    using cells(1) by (simp add: sum_list_distinct_conv_sum_set)
  finally show "fits_u32 ?rows" using small(2) by (simp add: fits_u32_def)
qed

lemma build_rows:
  assumes cells: "distinct cells" "\<forall>c\<in>set cells. c < length (mesh_ents m (d, du))"
    and given: "\<not> conn_is_empty (mesh_conn m (d, d, du, 0))"
    and small: "sum_list (map (\<lambda>c. length (concat (creates c))) cells) < 2 ^ 32"
      "sum_list (map (\<lambda>c. length (creates c)) cells) < 2 ^ 32"
    and num: "im \<noteq> [] \<longrightarrow> numbers_given vm im em (\<Union>c\<in>set cells. set (creates c))"
  shows "\<exists>evc rows ids. mesh_build_connectivity vm im em creates cells create d db du m
      = ok (put_conn (d, d, du, db) (conn_of rows) (put_conn (d, d, db, 0) (conn_of evc) (fold create ids m))) \<and>
    mset ids = mset [0..<length evc] \<and> (im = [] \<longrightarrow> ids = [0..<length evc]) \<and>
    distinct (map sort evc) \<and> fits_u32 evc \<and> fits_u32 rows \<and>
    (\<forall>a\<in>set evc. first_with (concat (map creates cells)) a = Some a) \<and>
    length rows = length (mesh_ents m (d, du)) \<and>
    (\<forall>c\<in>set cells. list_all2 (names evc) (rows ! c) (creates c)) \<and>
    (im \<noteq> [] \<longrightarrow> (\<forall>c\<in>set cells. \<forall>a\<in>set (creates c). \<exists>i. build_entity_id vm im em a 0 = ok i \<and> names evc i a))"
proof -
  let ?n = "length (mesh_ents m (d, du))" and ?ps = "cell_pairs creates cells"
  have E: "snd ` set ?ps = (\<Union>c\<in>set cells. set (creates c))" by (force simp: cell_pairs_def)
  have snds: "map snd ?ps = concat (map creates cells)" by (simp add: cell_pairs_def map_concat comp_def)
  have all: "build_entity_id vm im em a k = ok (assigned vm im em k a)" if "a \<in> snd ` set ?ps" for a k
  proof (cases "im = []")
    case False
    then have "numbers_given vm im em (snd ` set ?ps)" using num unfolding E by blast
    from numbers_givenD(1)[OF this that] obtain i where "build_entity_id vm im em a 0 = ok i" by blast
    then have "build_entity_id vm im em a k = ok i"
      using build_entity_id_sorted[OF False, of vm em a 0 0] build_entity_id_sorted[OF False, of vm em a 0 k] by simp
    then show ?thesis by (simp add: assigned_def)
  qed (simp add: build_entity_id_def assigned_def)
  have "\<forall>(c, a)\<in>set ?ps. c < ?n \<and> (\<forall>k. build_entity_id vm im em a k = ok (assigned vm im em k a))"
    using cells(2) all by (force simp: cell_pairs_def)
  then obtain s where s: "fold_outcome (\<lambda>(c, a). build_entity vm im em c a) ?ps (build_start ?n) = ok s"
    "build_inv (assigned vm im em) ?n ?ps s" using build_all_inv by blast
  let ?evc = "entity_vertex_conn s" and ?rows = "cell_entity_conn s"
  note sizes = built_sizes[OF s(2) cells small]
  have facts: "distinct (map sort ?evc)" "\<forall>a\<in>set ?evc. first_with (concat (map creates cells)) a = Some a" "length ?rows = ?n"
    using s(2) unfolding build_inv_def snds by blast+
  obtain evc where e: "(if im \<noteq> [] then (case reorder_destructive (created_ids s) ?evc of None \<Rightarrow> fail Undefined | Some evc \<Rightarrow> ok evc)
      else ok ?evc) = ok evc" "mset evc = mset ?evc" "mset (created_ids s) = mset [0..<length evc]"
    "im = [] \<longrightarrow> created_ids s = [0..<length evc]"
    and nm: "\<And>a i. map_of (vertices_map s) (sort a) = Some i \<Longrightarrow> names evc i a"
      "im \<noteq> [] \<longrightarrow> (\<forall>a\<in>snd ` set ?ps. \<exists>i. build_entity_id vm im em a 0 = ok i \<and> names evc i a)"
  proof (cases "im = []")
    case True
    then show ?thesis using that[of ?evc] created_order s(2) by auto
  next
    case False
    then have "numbers_given vm im em (snd ` set ?ps)" using num unfolding E by blast
    from given_order[OF s(2) False this] obtain evc where
      g: "reorder_destructive (created_ids s) ?evc = Some evc" "mset evc = mset ?evc" "mset (created_ids s) = mset [0..<length evc]"
      "\<forall>a i. map_of (vertices_map s) (sort a) = Some i \<longrightarrow> names evc i a"
      "\<forall>a\<in>snd ` set ?ps. \<exists>i. build_entity_id vm im em a 0 = ok i \<and> names evc i a" by (elim exE conjE) (rule that)
    show ?thesis by (rule that[of evc]) (use g False in \<open>simp_all only: if_True not_False_eq_True option.simps, auto\<close>)
  qed
  have "mesh_build_connectivity vm im em creates cells create d db du m
      = ok (put_conn (d, d, du, db) (conn_of ?rows) (put_conn (d, d, db, 0) (conn_of evc) (fold create (created_ids s) m)))"
    using given s(1) build_cells_pairs[OF cells(2)] e(1) sizes(1,2) fits_mset[OF e(2)]
    by (simp add: mesh_build_connectivity_def conn_init_rows Let_def)
  moreover have "distinct (map sort evc)" using facts(1) e(2) by (metis mset_eq_imp_distinct_iff mset_map)
  moreover have "\<forall>a\<in>set evc. first_with (concat (map creates cells)) a = Some a" using facts(2) mset_eq_setD[OF e(2)] by blast
  moreover have rows: "\<forall>c\<in>set cells. list_all2 (names evc) (?rows ! c) (creates c)"
    using sizes(3) nm(1) by (fastforce elim: list_all2_mono)
  moreover have "\<exists>i. build_entity_id vm im em a 0 = ok i \<and> names evc i a" if "im \<noteq> []" "c \<in> set cells" "a \<in> set (creates c)" for c a
    using nm(2) that unfolding E by blast
  ultimately show ?thesis
    using e(3,4) sizes(2) fits_mset[OF e(2)] sizes(1) facts(3)
    by (intro exI[of _ evc] exI[of _ ?rows] exI[of _ "created_ids s"]) simp
qed

text \<open>
  C9: For distinct registered cells whose vertices are present, and fewer than 2 to the 32 entities and vertices in
  total, \<open>build_connectivity\<close> gives the entities of the cells one numbering: two entities get the same id exactly when
  they have the same vertices, every number is used, the row of a cell lists its entities in the order the cell creates
  them, and the vertices of a numbered entity are listed as the first cell to create it lists them.  Without an
  intermediate map the numbers follow the order of creation; with one that numbers the vertex sets without gaps,
  every entity has the number the map gives it, although the entities are created in another order.
\<close>

theorem build_connectivity_numbers:
  assumes cells: "distinct cells" "\<forall>c\<in>set cells. c < length (mesh_ents m (d, du))"
    and given: "\<not> conn_is_empty (mesh_conn m (d, d, du, 0))"
    and small: "sum_list (map (\<lambda>c. length (concat (creates c))) cells) < 2 ^ 32"
      "sum_list (map (\<lambda>c. length (creates c)) cells) < 2 ^ 32"
    and num: "im \<noteq> [] \<longrightarrow> numbers_given vm im em (\<Union>c\<in>set cells. set (creates c))"
  shows "\<exists>evc rows ids. mesh_build_connectivity vm im em creates cells create d db du m
      = ok (put_conn (d, d, du, db) (conn_of rows) (put_conn (d, d, db, 0) (conn_of evc) (fold create ids m))) \<and>
    mset ids = mset [0..<length evc] \<and> (im = [] \<longrightarrow> ids = [0..<length evc]) \<and>
    distinct (map sort evc) \<and>
    (\<forall>a\<in>set evc. first_with (concat (map creates cells)) a = Some a) \<and>
    length rows = length (mesh_ents m (d, du)) \<and>
    (\<forall>c\<in>set cells. list_all2 (names evc) (rows ! c) (creates c)) \<and>
    (im \<noteq> [] \<longrightarrow> (\<forall>c\<in>set cells. \<forall>a\<in>set (creates c). \<exists>i. build_entity_id vm im em a 0 = ok i \<and> names evc i a))"
proof -
  from build_rows[OF cells given small num, of create db] show ?thesis
    by (elim ex_forward) (elim conjE, intro conjI; assumption)
qed

text \<open>Two cells with a common edge; the map gives the three edges the numbers 2, 0, 1 of the vertices 0 to 3.\<close>

definition edge_map :: "(nat list \<times> nat) list" where
  "edge_map = [([0, 1], 2), ([1, 2], 0), ([2, 3], 1)]"

lemma build_connectivity_numbers_witness:
  "\<exists>evc rows. mesh_build_connectivity Some edge_map Some (\<lambda>c. if c = 0 then [[0, 1], [1, 2]] else [[2, 1], [2, 3]])
      [1, 0] (\<lambda>_ m. m) 0 1 2 two_cells
      = ok (put_conn (0, 0, 2, 1) (conn_of rows) (put_conn (0, 0, 1, 0) (conn_of evc) two_cells)) \<and>
    distinct (map sort evc) \<and> list_all2 (names evc) (rows ! 0) [[0, 1], [1, 2]] \<and> names evc 2 [0, 1] \<and> names evc 0 [1, 2]"
proof -
  let ?creates = "\<lambda>c::nat. if c = 0 then [[0, 1], [1, 2]] else [[2, 1], [2, 3::nat]]"
  have id: "fold (\<lambda>_ m. m) xs m = m" for xs :: "nat list" and m :: mesh by (induction xs) auto
  have E: "(\<Union>c\<in>set [1, 0]. set (?creates c)) = {[0, 1], [1, 2], [2, 1], [2, 3]}" by auto
  have "sort ` {[0, 1], [1, 2], [2, 1], [2, 3::nat]} = {[0, 1], [1, 2], [2, 3]}" by auto
  then have card: "card (sort ` {[0, 1], [1, 2], [2, 1], [2, 3::nat]}) = 3" by simp
  have num: "build_entity_id Some edge_map Some [0, 1] 0 = ok 2" "build_entity_id Some edge_map Some [1, 2] 0 = ok 0"
    "build_entity_id Some edge_map Some [2, 1] 0 = ok 0" "build_entity_id Some edge_map Some [2, 3] 0 = ok 1"
    by (simp_all add: build_entity_id_def edge_map_def)
  then have given: "numbers_given Some edge_map Some (\<Union>c\<in>set [1, 0]. set (?creates c))"
    unfolding E numbers_given_def card by (simp add: num)
  have "\<exists>evc rows ids. mesh_build_connectivity Some edge_map Some ?creates [1, 0] (\<lambda>_ m. m) 0 1 2 two_cells
      = ok (put_conn (0, 0, 2, 1) (conn_of rows) (put_conn (0, 0, 1, 0) (conn_of evc) (fold (\<lambda>_ m. m) ids two_cells))) \<and>
    mset ids = mset [0..<length evc] \<and> (edge_map = [] \<longrightarrow> ids = [0..<length evc]) \<and>
    distinct (map sort evc) \<and>
    (\<forall>a\<in>set evc. first_with (concat (map ?creates [1, 0])) a = Some a) \<and>
    length rows = length (mesh_ents two_cells (0, 2)) \<and>
    (\<forall>c\<in>set [1, 0]. list_all2 (names evc) (rows ! c) (?creates c)) \<and>
    (edge_map \<noteq> [] \<longrightarrow> (\<forall>c\<in>set [1, 0]. \<forall>a\<in>set (?creates c). \<exists>i. build_entity_id Some edge_map Some a 0 = ok i \<and> names evc i a))"
    by (rule build_connectivity_numbers[OF _ _ _ _ _ impI[OF given]]) (simp_all add: two_cells_def conn_is_empty_def conn_of_def)
  from this[unfolded id] obtain evc rows where r: "mesh_build_connectivity Some edge_map Some ?creates [1, 0] (\<lambda>_ m. m) 0 1 2 two_cells
      = ok (put_conn (0, 0, 2, 1) (conn_of rows) (put_conn (0, 0, 1, 0) (conn_of evc) two_cells))"
    "distinct (map sort evc)" "\<forall>c\<in>set [1, 0]. list_all2 (names evc) (rows ! c) (?creates c)"
    "edge_map \<noteq> [] \<longrightarrow> (\<forall>c\<in>set [1, 0]. \<forall>a\<in>set (?creates c). \<exists>i. build_entity_id Some edge_map Some a 0 = ok i \<and> names evc i a)"
    by (elim exE conjE) (rule that)
  have "edge_map \<noteq> []" by (simp add: edge_map_def)
  then have "names evc 2 [0, 1]" "names evc 0 [1, 2]" using r(4) num by auto
  moreover have "list_all2 (names evc) (rows ! 0) [[0, 1], [1, 2]]" using r(3) by simp
  ultimately show ?thesis using r(1,2) by blast
qed

end
