(* ===== verification/Mesh_Connectivity.thy ===== *)
theory Mesh_Connectivity
  imports Mesh_Topology
begin

text \<open>
  How a mesh derives its adjacencies: \<open>compute_connectivity\<close> of mesh\_topology.h decides which entities have
  to be built and which adjacencies to transpose or intersect, and calls itself for those it needs;
  \<open>compute_connectivity_u\<close> of mesh\_utils.h calls it for every adjacency a mesh type asks for, and \<open>make\<close> of
  mpi/storage\_policy.h registers the entities that are built.

  The mesh type's \<open>create_entities\<close> and \<open>create_entity\<close> and the index maps of the context are parameters.
  The recursion need not end: a call that never returns is \<open>Out_of_fuel\<close> at every depth.
\<close>

section \<open>The code\<close>

text \<open>\<open>creates u b conns c\<close> are the vertex lists \<open>create_entities\<close> returns for entity \<open>c\<close> of dimension \<open>u\<close> when
  asked for its entities of dimension \<open>b\<close>.\<close>

record mesh_context =
  index_map :: "nat \<Rightarrow> nat \<rightharpoonup> nat"
  reverse_index_map :: "nat \<Rightarrow> (nat \<times> nat) list"
  intermediate_map :: "nat \<Rightarrow> (nat list \<times> nat) list"
  creates :: "nat \<Rightarrow> nat \<Rightarrow> (conn_key \<Rightarrow> conn) \<Rightarrow> nat \<Rightarrow> nat list list"
  create_entity :: "nat \<Rightarrow> nat \<Rightarrow> mesh \<Rightarrow> mesh"

definition mesh_make :: "nat \<Rightarrow> nat \<Rightarrow> mesh \<Rightarrow> mesh" where
  "mesh_make domn dm m =
     (let i = length (mesh_ents m (domn, dm)) in
      m\<lparr>mesh_ents := (mesh_ents m)((domn, dm) := mesh_ents m (domn, dm) @ [i])\<rparr>)"

definition mesh_num_entities :: "mesh \<Rightarrow> nat \<Rightarrow> nat \<Rightarrow> nat" where
  "mesh_num_entities m dm domn = length (mesh_ents m (domn, dm))"

definition build_with :: "mesh_context \<Rightarrow> nat \<Rightarrow> nat \<Rightarrow> nat \<Rightarrow> nat \<Rightarrow> mesh \<Rightarrow> mesh outcome" where
  "build_with ctx D domn dim_build dim_using m =
     (if dim_using \<le> 1 \<or> D < dim_using then fail Assert_failed
      else mesh_build_connectivity (index_map ctx 0) (intermediate_map ctx dim_build)
        (map_of (reverse_index_map ctx dim_build)) (creates ctx dim_using dim_build (mesh_conn m))
        (map snd (reverse_index_map ctx dim_using)) (create_entity ctx dim_build) domn dim_build dim_using m)"

definition build_missing :: "mesh_context \<Rightarrow> nat \<Rightarrow> nat \<Rightarrow> nat \<Rightarrow> mesh \<Rightarrow> mesh outcome" where
  "build_missing ctx D domn dm m =
     (if mesh_num_entities m dm domn = 0
      then require (dm + 1 \<le> D)
        (if conn_is_empty (mesh_conn m (domn, domn, dm + 1, 0)) then build_with ctx D domn dm D m
         else build_with ctx D domn dm (dm + 1) m)
      else ok m)"

definition cells_from_faces :: "mesh_context \<Rightarrow> nat \<Rightarrow> nat \<Rightarrow> mesh \<Rightarrow> mesh outcome" where
  "cells_from_faces ctx D domn m =
     (if conn_is_empty (mesh_conn m (domn, domn, D, 0))
      then require (\<not> conn_is_empty (mesh_conn m (domn, domn, D - 1, 0)))
        (and_then (mesh_transpose (index_map ctx D) (domn, domn, D - 1, D) m) (\<lambda>m.
         and_then (mesh_transpose (index_map ctx (D - 1)) (domn, domn, 0, D - 1) m) (\<lambda>m.
         mesh_intersect (domn, domn, D, 0) (D - 1) m)))
      else ok m)"

fun compute_connectivity :: "nat \<Rightarrow> mesh_context \<Rightarrow> nat \<Rightarrow> nat \<Rightarrow> nat \<Rightarrow> nat \<Rightarrow> mesh \<Rightarrow> mesh outcome" where
  "compute_connectivity 0 ctx D domn f t m = fail Out_of_fuel"
| "compute_connectivity (Suc n) ctx D domn f t m =
     (if \<not> conn_is_empty (mesh_conn m (domn, domn, f, t)) then ok m
      else
        and_then (cells_from_faces ctx D domn m) (\<lambda>m.
        and_then (build_missing ctx D domn f m) (\<lambda>m.
        and_then (build_missing ctx D domn t m) (\<lambda>m.
        if mesh_num_entities m f domn = 0 \<and> mesh_num_entities m t domn = 0 then ok m
        else if f < t
        then and_then (compute_connectivity n ctx D domn t f m) (mesh_transpose (index_map ctx t) (domn, domn, f, t))
        else if f = 0 \<and> t = 0
        then and_then (compute_connectivity n ctx D domn f D m) (\<lambda>m.
             and_then (compute_connectivity n ctx D domn D t m) (mesh_intersect (domn, domn, f, t) D))
        else and_then (compute_connectivity n ctx D domn f 0 m) (\<lambda>m.
             and_then (compute_connectivity n ctx D domn 0 t m) (mesh_intersect (domn, domn, f, t) 0))))))"

text \<open>The connectivities of a mesh type, with their domains, are computed in order.\<close>

definition compute_connectivities ::
    "nat \<Rightarrow> mesh_context \<Rightarrow> nat \<Rightarrow> nat \<Rightarrow> (nat \<times> nat \<times> nat) list \<Rightarrow> mesh \<Rightarrow> mesh outcome" where
  "compute_connectivities fuel ctx D find_dom =
     fold_outcome (\<lambda>(d1, f, t) m. if d1 = find_dom then compute_connectivity fuel ctx D find_dom f t m else ok m)"

section \<open>The mesh between two steps\<close>

text \<open>\<open>V a\<close> are the vertex lists of the entities of dimension \<open>a\<close>, empty as long as they are not built; the vertices
  themselves are \<open>vertex_lists\<close>.  The adjacency the code promises: an entity and those contained in it or containing
  it, two entities with a common vertex, two vertices of one cell.\<close>

definition vertex_lists :: "nat \<Rightarrow> nat list list" where
  "vertex_lists n = map (\<lambda>i. [i]) [0..<n]"

definition adjacent :: "(nat \<Rightarrow> nat list list) \<Rightarrow> nat \<Rightarrow> nat \<Rightarrow> nat \<Rightarrow> nat \<Rightarrow> nat \<Rightarrow> bool" where
  "adjacent V D a b f t \<longleftrightarrow>
     (if a = b then t \<noteq> f \<and> (if a = 0 then \<exists>c<length (V D). f \<in> set (V D ! c) \<and> t \<in> set (V D ! c)
                        else set (V a ! f) \<inter> set (V a ! t) \<noteq> {})
      else if b < a then set (V b ! t) \<subseteq> set (V a ! f) else set (V a ! f) \<subseteq> set (V b ! t))"

definition adjacency_rows :: "(nat \<Rightarrow> nat list list) \<Rightarrow> nat \<Rightarrow> nat \<Rightarrow> nat \<Rightarrow> nat list list \<Rightarrow> bool" where
  "adjacency_rows V D a b rows \<longleftrightarrow> length rows = length (V a) \<and> fits_u32 rows \<and>
     (\<forall>f<length (V a). set (rows ! f) = {t. t < length (V b) \<and> adjacent V D a b f t})"

text \<open>What the mesh type and the context promise.  \<open>shape a\<close> are the possible vertex lists of an entity of
  dimension \<open>a\<close>, \<open>faces u b vs\<close> those of the entities of dimension \<open>b\<close> of an entity with the vertices \<open>vs\<close>, \<open>num a\<close>
  is the number of entities the coloring counts.\<close>

definition regular_shapes :: "nat \<Rightarrow> (nat \<Rightarrow> nat) \<Rightarrow> (nat \<Rightarrow> nat list set) \<Rightarrow> (nat \<Rightarrow> nat \<Rightarrow> nat list \<Rightarrow> nat list list) \<Rightarrow> bool" where
  "regular_shapes D num shape faces \<longleftrightarrow>
     (\<forall>a. 0 < a \<and> a \<le> D \<longrightarrow> finite (shape a) \<and> shape a \<noteq> {}) \<and>
     (\<forall>a vs. 0 < a \<and> a \<le> D \<and> vs \<in> shape a \<longrightarrow> vs \<noteq> [] \<and> distinct vs \<and> (\<forall>v\<in>set vs. v < num 0)) \<and>
     (\<forall>b u vs. 0 < b \<and> b < u \<and> u \<le> D \<and> vs \<in> shape u \<longrightarrow> (\<forall>a\<in>set (faces u b vs). a \<in> shape b \<and> set a \<subseteq> set vs)) \<and>
     (\<forall>b u vs a. 0 < b \<and> b < u \<and> u \<le> D \<and> vs \<in> shape u \<and> a \<in> shape b \<and> set a \<subseteq> set vs \<longrightarrow>
        (\<exists>a'\<in>set (faces u b vs). set a' = set a)) \<and>
     (\<forall>b u a. 0 < b \<and> b < u \<and> u \<le> D \<and> a \<in> shape b \<longrightarrow> (\<exists>vs\<in>shape u. set a \<subseteq> set vs)) \<and>
     (\<forall>a\<le>D. \<forall>b\<le>D. num a * num b < 2 ^ 32) \<and>
     (\<forall>b u vs. 0 < b \<and> b < u \<and> u \<le> D \<and> vs \<in> shape u \<longrightarrow> num u * length (concat (faces u b vs)) < 2 ^ 32)"

definition context_complete :: "nat \<Rightarrow> nat \<Rightarrow> (nat \<Rightarrow> nat) \<Rightarrow> (nat \<Rightarrow> nat list set) \<Rightarrow> (nat \<Rightarrow> nat \<Rightarrow> nat list \<Rightarrow> nat list list) \<Rightarrow> mesh_context \<Rightarrow> bool" where
  "context_complete D domn num shape faces ctx \<longleftrightarrow>
     (\<forall>a\<le>D. (\<forall>t<num a. index_map ctx a t \<noteq> None) \<and> distinct (map snd (reverse_index_map ctx a)) \<and>
        snd ` set (reverse_index_map ctx a) = {..<num a}) \<and>
     (\<forall>a. 0 < a \<and> a < D \<and> intermediate_map ctx a \<noteq> [] \<longrightarrow>
        numbers_given (index_map ctx 0) (intermediate_map ctx a) (map_of (reverse_index_map ctx a)) (shape a)) \<and>
     (\<forall>u b conns rows c. 0 < b \<and> b < u \<and> u \<le> D \<and> conns (domn, domn, u, 0) = conn_of rows \<and> fits_u32 rows \<and> c < length rows \<longrightarrow>
        creates ctx u b conns c = faces u b (rows ! c)) \<and>
     (\<forall>b i m. create_entity ctx b i m = mesh_make domn b m)"

definition mesh_inv ::
    "nat \<Rightarrow> nat \<Rightarrow> (nat \<Rightarrow> nat) \<Rightarrow> (nat \<Rightarrow> nat list set) \<Rightarrow> (nat \<Rightarrow> nat list list) \<Rightarrow> mesh \<Rightarrow> bool" where
  "mesh_inv D domn num shape V m \<longleftrightarrow>
     V 0 = vertex_lists (num 0) \<and> V D \<noteq> [] \<and>
     (\<forall>a\<le>D. mesh_ents m (domn, a) = [0..<length (V a)] \<and> (V a \<noteq> [] \<longrightarrow> length (V a) = num a) \<and>
        (V a = [] \<longrightarrow> num a = card (sort ` shape a))) \<and>
     (\<forall>a. 0 < a \<and> a \<le> D \<and> V a \<noteq> [] \<longrightarrow> mesh_conn m (domn, domn, a, 0) = conn_of (V a) \<and> fits_u32 (V a) \<and>
        set (V a) \<subseteq> shape a \<and> sort ` set (V a) = sort ` shape a) \<and>
     (\<forall>a\<le>D. \<forall>b\<le>D. \<not> conn_is_empty (mesh_conn m (domn, domn, a, b)) \<longrightarrow> V a \<noteq> [] \<and> V b \<noteq> [] \<and>
        (\<exists>rows. mesh_conn m (domn, domn, a, b) = conn_of rows \<and> adjacency_rows V D a b rows))"


definition adjacency_done :: "nat \<Rightarrow> nat \<Rightarrow> (nat \<Rightarrow> nat list list) \<Rightarrow> mesh \<Rightarrow> nat \<Rightarrow> nat \<Rightarrow> bool" where
  "adjacency_done D domn V m a b \<longleftrightarrow>
     (\<exists>rows. mesh_conn m (domn, domn, a, b) = conn_of rows \<and> adjacency_rows V D a b rows)"

text \<open>What a step keeps: entities, adjacencies that are present, and adjacencies that were computed (those may be
  present without any connection).\<close>

definition mesh_keeps :: "nat \<Rightarrow> nat \<Rightarrow> (nat \<Rightarrow> nat list list) \<Rightarrow> mesh \<Rightarrow> (nat \<Rightarrow> nat list list) \<Rightarrow> mesh \<Rightarrow> bool" where
  "mesh_keeps D domn V m V' m' \<longleftrightarrow>
     (\<forall>a\<le>D. V a \<noteq> [] \<longrightarrow> V' a = V a) \<and>
     (\<forall>k. \<not> conn_is_empty (mesh_conn m k) \<longrightarrow> mesh_conn m' k = mesh_conn m k) \<and>
     (\<forall>a\<le>D. \<forall>b\<le>D. V a \<noteq> [] \<and> V b \<noteq> [] \<and> adjacency_done D domn V m a b \<longrightarrow> adjacency_done D domn V' m' a b)"

lemma mesh_keeps_refl: "mesh_keeps D domn V m V m"
  by (simp add: mesh_keeps_def)

lemma mesh_keeps_trans:
  assumes "mesh_keeps D domn V m V' m'" "mesh_keeps D domn V' m' V'' m''"
  shows "mesh_keeps D domn V m V'' m''"
  using assms unfolding mesh_keeps_def by metis

lemma mesh_keepsD:
  assumes "mesh_keeps D domn V m V' m'"
  shows "a \<le> D \<Longrightarrow> V a \<noteq> [] \<Longrightarrow> V' a = V a"
    "\<not> conn_is_empty (mesh_conn m k) \<Longrightarrow> mesh_conn m' k = mesh_conn m k"
    "\<not> conn_is_empty (mesh_conn m k) \<Longrightarrow> \<not> conn_is_empty (mesh_conn m' k)"
  using assms unfolding mesh_keeps_def by metis+

lemma conn_of_empty [simp]: "conn_is_empty (conn_of rows) \<longleftrightarrow> concat rows = []"
  by (simp add: conn_is_empty_def conn_of_def)

lemma put_conn_simps [simp]:
  "mesh_conn (put_conn k c m) k' = (if k' = k then c else mesh_conn m k')"
  "mesh_ents (put_conn k c m) = mesh_ents m"
  by (simp_all add: put_conn_def)

lemma regularD:
  assumes "regular_shapes D num shape faces"
  shows "0 < a \<Longrightarrow> a \<le> D \<Longrightarrow> finite (shape a) \<and> shape a \<noteq> {}"
    "0 < a \<Longrightarrow> a \<le> D \<Longrightarrow> vs \<in> shape a \<Longrightarrow> vs \<noteq> [] \<and> distinct vs \<and> (\<forall>v\<in>set vs. v < num 0)"
    "0 < b \<Longrightarrow> b < u \<Longrightarrow> u \<le> D \<Longrightarrow> vs \<in> shape u \<Longrightarrow> x \<in> set (faces u b vs) \<Longrightarrow> x \<in> shape b \<and> set x \<subseteq> set vs"
    "0 < b \<Longrightarrow> b < u \<Longrightarrow> u \<le> D \<Longrightarrow> vs \<in> shape u \<Longrightarrow> x \<in> shape b \<Longrightarrow> set x \<subseteq> set vs \<Longrightarrow>
       \<exists>x'\<in>set (faces u b vs). set x' = set x"
    "0 < b \<Longrightarrow> b < u \<Longrightarrow> u \<le> D \<Longrightarrow> x \<in> shape b \<Longrightarrow> \<exists>vs\<in>shape u. set x \<subseteq> set vs"
    "a \<le> D \<Longrightarrow> b \<le> D \<Longrightarrow> num a * num b < 2 ^ 32"
    "0 < b \<Longrightarrow> b < u \<Longrightarrow> u \<le> D \<Longrightarrow> vs \<in> shape u \<Longrightarrow> num u * length (concat (faces u b vs)) < 2 ^ 32"
  using assms by (simp_all add: regular_shapes_def)

lemma contextD:
  assumes "context_complete D domn num shape faces ctx" "a \<le> D"
  shows "t < num a \<Longrightarrow> index_map ctx a t \<noteq> None" "distinct (map snd (reverse_index_map ctx a))"
    "snd ` set (reverse_index_map ctx a) = {..<num a}"
    "0 < a \<Longrightarrow> a < D \<Longrightarrow> intermediate_map ctx a \<noteq> [] \<Longrightarrow>
       numbers_given (index_map ctx 0) (intermediate_map ctx a) (map_of (reverse_index_map ctx a)) (shape a)"
    "0 < b \<Longrightarrow> b < a \<Longrightarrow> conns (domn, domn, a, 0) = conn_of rows \<Longrightarrow> fits_u32 rows \<Longrightarrow> c < length rows \<Longrightarrow>
       creates ctx a b conns c = faces a b (rows ! c)"
    "create_entity ctx b i = mesh_make domn b"
  using assms by (simp_all add: context_complete_def ext)

lemma invD:
  assumes "mesh_inv D domn num shape V m"
  shows "V 0 = vertex_lists (num 0)" "V D \<noteq> []"
    "a \<le> D \<Longrightarrow> mesh_ents m (domn, a) = [0..<length (V a)]"
    "a \<le> D \<Longrightarrow> V a \<noteq> [] \<Longrightarrow> length (V a) = num a"
    "a \<le> D \<Longrightarrow> V a = [] \<Longrightarrow> num a = card (sort ` shape a)"
    "0 < a \<Longrightarrow> a \<le> D \<Longrightarrow> V a \<noteq> [] \<Longrightarrow> mesh_conn m (domn, domn, a, 0) = conn_of (V a)"
    "0 < a \<Longrightarrow> a \<le> D \<Longrightarrow> V a \<noteq> [] \<Longrightarrow> fits_u32 (V a)"
    "0 < a \<Longrightarrow> a \<le> D \<Longrightarrow> V a \<noteq> [] \<Longrightarrow> set (V a) \<subseteq> shape a"
    "0 < a \<Longrightarrow> a \<le> D \<Longrightarrow> V a \<noteq> [] \<Longrightarrow> sort ` set (V a) = sort ` shape a"
    "a \<le> D \<Longrightarrow> b \<le> D \<Longrightarrow> \<not> conn_is_empty (mesh_conn m (domn, domn, a, b)) \<Longrightarrow>
       V a \<noteq> [] \<and> V b \<noteq> [] \<and> adjacency_done D domn V m a b"
  using assms by (simp_all add: mesh_inv_def adjacency_done_def)

text \<open>The vertices of an entity that is built.\<close>

lemma inv_vertices:
  assumes inv: "mesh_inv D domn num shape V m" and reg: "regular_shapes D num shape faces"
    and a: "0 < a" "a \<le> D" and f: "f < length (V a)"
  shows "V a ! f \<in> shape a" "V a ! f \<noteq> []" "distinct (V a ! f)" "v \<in> set (V a ! f) \<Longrightarrow> v < num 0"
proof -
  have "V a \<noteq> []" using f by auto
  from invD(8)[OF inv a this] show s: "V a ! f \<in> shape a" using nth_mem[OF f] by blast
  show "V a ! f \<noteq> []" "distinct (V a ! f)" "v \<in> set (V a ! f) \<Longrightarrow> v < num 0"
    using regularD(2)[OF reg a s] by blast+
qed

lemma vertex_lists_simps [simp]:
  "length (vertex_lists n) = n" "v < n \<Longrightarrow> vertex_lists n ! v = [v]" "vertex_lists n = [] \<longleftrightarrow> n = 0"
  by (simp_all add: vertex_lists_def)

lemma inv_has_vertices:
  assumes inv: "mesh_inv D domn num shape V m" and reg: "regular_shapes D num shape faces" and D: "0 < D"
  shows "0 < num 0" "V 0 \<noteq> []"
proof -
  have "0 < length (V D)" using invD(2)[OF inv] by simp
  from inv_vertices(2,4)[OF inv reg D order_refl this] have "\<exists>v. v < num 0" by (metis list.set_sel(1))
  then show "0 < num 0" "V 0 \<noteq> []" using invD(1)[OF inv] by (auto simp flip: length_0_conv)
qed

text \<open>The adjacency from an entity to its vertices is the list of its vertices.\<close>

lemma vertex_adjacency:
  assumes inv: "mesh_inv D domn num shape V m" and reg: "regular_shapes D num shape faces"
    and a: "0 < a" "a \<le> D" "V a \<noteq> []"
  shows "adjacency_rows V D a 0 (V a)" "concat (V a) \<noteq> []" "\<forall>v\<in>set (concat (V a)). v < num 0"
proof -
  have v: "v < num 0" if "f < length (V a)" "v \<in> set (V a ! f)" for f v using inv_vertices(4)[OF inv reg a(1,2) that] .
  have "set (V a ! f) = {t. t < length (V 0) \<and> adjacent V D a 0 f t}" if f: "f < length (V a)" for f
    using v[OF f] a(1) unfolding adjacent_def invD(1)[OF inv] by auto
  then show "adjacency_rows V D a 0 (V a)" using invD(7)[OF inv a] by (simp add: adjacency_rows_def)
  have z: "0 < length (V a)" using a(3) by simp
  have "V a ! 0 \<in> set (V a)" using nth_mem[OF z] .
  then show "concat (V a) \<noteq> []" using inv_vertices(2)[OF inv reg a(1,2) z] by auto
  show "\<forall>v\<in>set (concat (V a)). v < num 0" using v by (auto simp: in_set_conv_nth[of _ "V a"])
qed

text \<open>Two dimensions that are built are adjacent somewhere.\<close>

lemma contained_somewhere:
  assumes inv: "mesh_inv D domn num shape V m" and reg: "regular_shapes D num shape faces"
    and ab: "b < a" "a \<le> D" "V a \<noteq> []" "V b \<noteq> []"
  shows "\<exists>f t. f < length (V a) \<and> t < length (V b) \<and> set (V b ! t) \<subseteq> set (V a ! f)"
proof (cases "b = 0")
  case True
  have a0: "0 < a" using ab(1) by simp
  have f: "0 < length (V a)" using ab(3) by simp
  obtain v where v: "v \<in> set (V a ! 0)" using inv_vertices(2)[OF inv reg a0 ab(2) f] by (meson list.set_sel(1))
  have "v < num 0" by (rule inv_vertices(4)[OF inv reg a0 ab(2) f v])
  then show ?thesis using f v True invD(1)[OF inv] by (intro exI[of _ 0] exI[of _ v]) simp
next
  case False
  then have b0: "0 < b" and bD: "b \<le> D" and a0: "0 < a" using ab(1,2) by auto
  have t: "0 < length (V b)" using ab(4) by simp
  obtain vs where vs: "vs \<in> shape a" "set (V b ! 0) \<subseteq> set vs"
    using regularD(5)[OF reg b0 ab(1,2) inv_vertices(1)[OF inv reg b0 bD t]] by blast
  have "sort vs \<in> sort ` set (V a)" using vs(1) invD(9)[OF inv a0 ab(2,3)] by blast
  then obtain f where f: "f < length (V a)" "sort (V a ! f) = sort vs" by (auto simp: in_set_conv_nth)
  then have "set (V a ! f) = set vs" by (metis set_sort)
  then show ?thesis using f(1) t vs(2) by blast
qed

lemma done_nonempty:
  assumes inv: "mesh_inv D domn num shape V m" and reg: "regular_shapes D num shape faces"
    and ab: "a \<noteq> b" "a \<le> D" "b \<le> D" "V a \<noteq> []" "V b \<noteq> []" and rows: "adjacency_rows V D a b rows"
  shows "concat rows \<noteq> []"
proof -
  have "\<exists>f t. f < length (V a) \<and> t < length (V b) \<and> adjacent V D a b f t"
  proof (cases "b < a")
    case True
    then show ?thesis using contained_somewhere[OF inv reg True ab(2,4,5)] by (auto simp: adjacent_def)
  next
    case False
    then have "a < b" using ab(1) by simp
    from contained_somewhere[OF inv reg this ab(3,5,4)] show ?thesis using \<open>a < b\<close> by (auto simp: adjacent_def)
  qed
  then obtain f t where f: "f < length (V a)" and t: "t \<in> set (rows ! f)" using rows by (auto simp: adjacency_rows_def)
  have "rows ! f \<in> set rows" using f rows by (simp add: adjacency_rows_def)
  then show ?thesis using t by fastforce
qed

lemma done_present:
  assumes inv: "mesh_inv D domn num shape V m" and reg: "regular_shapes D num shape faces"
    and ab: "a \<noteq> b" "a \<le> D" "b \<le> D" "V a \<noteq> []" "V b \<noteq> []" and d: "adjacency_done D domn V m a b"
  shows "\<not> conn_is_empty (mesh_conn m (domn, domn, a, b))"
proof -
  obtain rows where r: "mesh_conn m (domn, domn, a, b) = conn_of rows" "adjacency_rows V D a b rows"
    using d unfolding adjacency_done_def by blast
  show ?thesis unfolding r(1) conn_of_empty by (rule done_nonempty[OF inv reg ab r(2)])
qed

text \<open>Entering a computed adjacency keeps the invariant.\<close>

lemma inv_put:
  assumes inv: "mesh_inv D domn num shape V m" and ab: "a \<le> D" "b \<le> D" "V a \<noteq> []" "V b \<noteq> []"
    and e: "conn_is_empty (mesh_conn m (domn, domn, a, b))" and rows: "adjacency_rows V D a b rows"
    and b0: "a = b \<or> b \<noteq> 0"
  shows "mesh_inv D domn num shape V (put_conn (domn, domn, a, b) (conn_of rows) m)"
    "mesh_keeps D domn V m V (put_conn (domn, domn, a, b) (conn_of rows) m)"
    "adjacency_done D domn V (put_conn (domn, domn, a, b) (conn_of rows) m) a b"
proof -
  let ?m = "put_conn (domn, domn, a, b) (conn_of rows) m"
  show d: "adjacency_done D domn V ?m a b" using rows unfolding adjacency_done_def by (intro exI[of _ rows]) simp
  then show "mesh_keeps D domn V m V ?m" using e unfolding mesh_keeps_def by (auto simp: adjacency_done_def)
  have c0: "mesh_conn ?m (domn, domn, x, 0) = mesh_conn m (domn, domn, x, 0)" if "0 < x" for x
    using b0 that by auto
  have "V x \<noteq> [] \<and> V y \<noteq> [] \<and> adjacency_done D domn V ?m x y"
    if xy: "x \<le> D" "y \<le> D" "\<not> conn_is_empty (mesh_conn ?m (domn, domn, x, y))" for x y
  proof (cases "x = a \<and> y = b")
    case True
    then show ?thesis using ab d by blast
  next
    case False
    then have "mesh_conn ?m (domn, domn, x, y) = mesh_conn m (domn, domn, x, y)" by auto
    then show ?thesis using invD(10)[OF inv xy(1,2)] xy(3) by (auto simp: adjacency_done_def)
  qed
  then show "mesh_inv D domn num shape V ?m"
    using inv c0 unfolding mesh_inv_def adjacency_done_def by simp
qed

section \<open>The steps\<close>

lemma transpose_adjacency:
  assumes inv: "mesh_inv D domn num shape V m" and reg: "regular_shapes D num shape faces"
    and cc: "context_complete D domn num shape faces ctx"
    and ft: "f < t" "t \<le> D" "V f \<noteq> []" "V t \<noteq> []" and given: "\<not> conn_is_empty (mesh_conn m (domn, domn, t, f))"
  shows "\<exists>m'. mesh_transpose (index_map ctx t) (domn, domn, f, t) m = ok m' \<and> mesh_inv D domn num shape V m' \<and>
    mesh_keeps D domn V m V m' \<and> \<not> conn_is_empty (mesh_conn m' (domn, domn, f, t))"
proof (cases "conn_is_empty (mesh_conn m (domn, domn, f, t))")
  case False
  then show ?thesis using inv mesh_keeps_refl by (auto simp: mesh_transpose_def)
next
  case True
  have fD: "f \<le> D" using ft(1,2) by simp
  obtain rows where r: "mesh_conn m (domn, domn, t, f) = conn_of rows" "adjacency_rows V D t f rows"
    using invD(10)[OF inv ft(2) fD given] by (auto simp: adjacency_done_def)
  have len: "length rows = length (V t)" "fits_u32 rows" using r(2) by (simp_all add: adjacency_rows_def)
  have ne: "concat rows \<noteq> []" using given r(1) by simp
  have bound: "\<forall>x\<in>set (concat rows). x < length (V f)"
    using r(2) by (auto simp: adjacency_rows_def in_set_conv_nth[of _ rows])
  have ents: "mesh_ents m (domn, t) = [0..<length rows]" "mesh_ents m (domn, f) = [0..<length (V f)]"
    using invD(3)[OF inv ft(2)] invD(3)[OF inv fD] len(1) by simp_all
  have gis: "\<forall>x<length rows. index_map ctx t x \<noteq> None"
    using contextD(1)[OF cc ft(2)] invD(4)[OF inv ft(2,4)] len(1) by simp
  obtain out where o: "mesh_transpose (index_map ctx t) (domn, domn, f, t) m = ok (put_conn (domn, domn, f, t) (conn_of out) m)"
    "length out = length (V f)" "fits_u32 out"
    "\<forall>x<length (V f). \<forall>y. count_list (out ! x) y = (if y < length rows then count_list (rows ! y) x else 0)"
    using transpose_rows[OF refl True r(1) len(2) ne bound ents gis] by (elim exE conjE) (rule that, assumption+, blast)
  have "set (out ! x) = {y. y < length (V t) \<and> adjacent V D f t x y}" if x: "x < length (V f)" for x
  proof -
    have "y \<in> set (out ! x) \<longleftrightarrow> y < length (V t) \<and> x \<in> set (rows ! y)" for y
    proof -
      have "count_list (out ! x) y = (if y < length (V t) then count_list (rows ! y) x else 0)"
        using o(4) x len(1) by simp
      then show ?thesis by (metis count_list_0_iff)
    qed
    then show ?thesis using r(2) x ft(1) by (auto simp: adjacency_rows_def adjacent_def)
  qed
  then have rows: "adjacency_rows V D f t out" using o(2,3) by (simp add: adjacency_rows_def)
  have "f = t \<or> t \<noteq> 0" using ft(1) by simp
  note put = inv_put[OF inv fD ft(2,3,4) True rows this]
  have "concat out \<noteq> []" using done_nonempty[OF inv reg _ fD ft(2,3,4) rows] ft(1) by simp
  then show ?thesis using o(1) put(1,2) by simp
qed

text \<open>The rows of \<open>intersect\<close> are the adjacency if its test is.\<close>

lemma intersect_adjacency:
  assumes inv: "mesh_inv D domn num shape V m" and reg: "regular_shapes D num shape faces"
    and ft: "f \<le> D" "t \<le> D" "V f \<noteq> []" "V t \<noteq> []"
    and A: "mesh_conn m (domn, domn, f, k) = conn_of A" "length A = length (V f)" "fits_u32 A" "concat A \<noteq> []"
      "\<forall>e\<in>set (concat A). e < length B"
    and B: "mesh_conn m (domn, domn, k, t) = conn_of B" "concat B \<noteq> []" "\<forall>x\<in>set (concat B). x < length C"
    and C: "mesh_conn m (domn, domn, t, k) = conn_of C" "length C = length (V t)" "fits_u32 C" "concat C \<noteq> []"
    and rel: "\<And>x y. x < length (V f) \<Longrightarrow> y < length (V t) \<Longrightarrow>
      (\<exists>e\<in>set (A ! x). y \<in> set (B ! e)) \<and> related_sets f t k A C x y \<longleftrightarrow> adjacent V D f t x y"
    and b0: "f = t \<or> t \<noteq> 0"
  shows "\<exists>m'. mesh_intersect (domn, domn, f, t) k m = ok m' \<and> mesh_inv D domn num shape V m' \<and>
    mesh_keeps D domn V m V m' \<and> adjacency_done D domn V m' f t"
proof (cases "conn_is_empty (mesh_conn m (domn, domn, f, t))")
  case False
  then show ?thesis using inv mesh_keeps_refl invD(10)[OF inv ft(1,2) False] by (auto simp: mesh_intersect_def)
next
  case True
  have ents: "mesh_ents m (domn, f) = [0..<length A]" "length (mesh_ents m (domn, t)) = length C"
    using invD(3)[OF inv ft(1)] invD(3)[OF inv ft(2)] A(2) C(2) by simp_all
  have small: "length A * length C < 2 ^ 32"
    using regularD(6)[OF reg ft(1,2)] invD(4)[OF inv ft(1,3)] invD(4)[OF inv ft(2,4)] A(2) C(2) by simp
  obtain rows where r: "mesh_intersect (domn, domn, f, t) k m = ok (put_conn (domn, domn, f, t) (conn_of rows) m)"
    "length rows = length A" "fits_u32 rows"
    "\<forall>x<length A. set (rows ! x) = {y. (\<exists>e\<in>set (A ! x). y \<in> set (B ! e)) \<and> related_sets f t k A C x y}"
    using intersect_rows[OF refl True A(1,3,4,5) B C(1,3,4) ents small] by (elim exE conjE) blast
  have "set (rows ! x) = {y. y < length (V t) \<and> adjacent V D f t x y}" if x: "x < length (V f)" for x
  proof -
    have b: "y < length (V t)" if "e \<in> set (A ! x)" "y \<in> set (B ! e)" for e y
    proof -
      have "A ! x \<in> set A" using x A(2) by simp
      then have "e < length B" using A(5) that(1) by auto
      then have "B ! e \<in> set B" by simp
      then show ?thesis using B(3) that(2) C(2) by auto
    qed
    have "set (rows ! x) = {y. (\<exists>e\<in>set (A ! x). y \<in> set (B ! e)) \<and> related_sets f t k A C x y}"
      using r(4) x A(2) by simp
    also have "\<dots> = {y. y < length (V t) \<and> adjacent V D f t x y}" using rel[OF x] b by blast
    finally show ?thesis .
  qed
  then have rows: "adjacency_rows V D f t rows" using r(2,3) A(2) by (simp add: adjacency_rows_def)
  show ?thesis using r(1) inv_put[OF inv ft True rows b0] by blast
qed

text \<open>Through the vertices.\<close>

lemma intersect_vertices:
  assumes inv: "mesh_inv D domn num shape V m" and reg: "regular_shapes D num shape faces"
    and ft: "0 < t" "t \<le> f" "f \<le> D" "V f \<noteq> []" "V t \<noteq> []"
    and given: "\<not> conn_is_empty (mesh_conn m (domn, domn, 0, t))"
  shows "\<exists>m'. mesh_intersect (domn, domn, f, t) 0 m = ok m' \<and> mesh_inv D domn num shape V m' \<and>
    mesh_keeps D domn V m V m' \<and> adjacency_done D domn V m' f t"
proof -
  have D: "0 < D" "t \<le> D" "0 < f" using ft by auto
  obtain B where B: "mesh_conn m (domn, domn, 0, t) = conn_of B" "adjacency_rows V D 0 t B"
    using invD(10)[OF inv _ D(2) given] by (auto simp: adjacency_done_def)
  have lenB: "length B = num 0" using B(2) invD(1)[OF inv] by (simp add: adjacency_rows_def)
  have rowB: "set (B ! v) = {y. y < length (V t) \<and> v \<in> set (V t ! y)}" if "v < num 0" for v
    using B(2) that ft(1) invD(1)[OF inv] by (auto simp: adjacency_rows_def adjacent_def)
  have neB: "concat B \<noteq> []" using given B(1) by simp
  have boundB: "\<forall>x\<in>set (concat B). x < length (V t)" using rowB lenB by (auto simp: in_set_conv_nth[of _ B])
  note vf = vertex_adjacency[OF inv reg D(3) ft(3,4)] and vt = vertex_adjacency[OF inv reg ft(1) D(2) ft(5)]
  show ?thesis
  proof (rule intersect_adjacency[OF inv reg ft(3) D(2) ft(4,5) invD(6)[OF inv D(3) ft(3,4)] refl
        invD(7)[OF inv D(3) ft(3,4)] vf(2) _ B(1) neB boundB invD(6)[OF inv ft(1) D(2) ft(5)] refl
        invD(7)[OF inv ft(1) D(2) ft(5)] vt(2)])
    show "\<forall>e\<in>set (concat (V f)). e < length B" using vf(3) lenB by simp
    show "f = t \<or> t \<noteq> 0" using ft(1) by simp
    fix x y assume x: "x < length (V f)" and y: "y < length (V t)"
    have bx: "v < num 0" if "v \<in> set (V f ! x)" for v using inv_vertices(4)[OF inv reg D(3) ft(3) x that] .
    have reach: "(\<exists>e\<in>set (V f ! x). y \<in> set (B ! e)) \<longleftrightarrow> set (V f ! x) \<inter> set (V t ! y) \<noteq> {}"
      using bx rowB y by blast
    have dy: "distinct (V t ! y)" "V t ! y \<noteq> []" using inv_vertices[OF inv reg ft(1) D(2) y] by blast+
    have dx: "distinct (V f ! x)" using inv_vertices[OF inv reg D(3) ft(3) x] by blast
    have "mset (V t ! y) = mset_set (set (V t ! y))" "mset (V f ! x) = mset_set (set (V f ! x))"
      using dx dy(1) by (simp_all add: mset_set_set)
    then have sub: "mset (V t ! y) \<subseteq># mset (V f ! x) \<longleftrightarrow> set (V t ! y) \<subseteq> set (V f ! x)"
      by (simp add: msubset_mset_set_iff)
    show "(\<exists>e\<in>set (V f ! x). y \<in> set (B ! e)) \<and> related_sets f t 0 (V f) (V t) x y \<longleftrightarrow> adjacent V D f t x y"
    proof (cases "f = t")
      case True
      then show ?thesis unfolding reach related_sets_def adjacent_def using ft(1) by auto
    next
      case False
      have "set (V f ! x) \<inter> set (V t ! y) \<noteq> {}" if "set (V t ! y) \<subseteq> set (V f ! x)" using that dy(2) by (metis inf.absorb2 set_empty)
      then show ?thesis unfolding reach related_sets_def adjacent_def sub using False ft(1,2) by auto
    qed
  qed
qed

text \<open>Through the cells.\<close>

lemma intersect_cells:
  assumes inv: "mesh_inv D domn num shape V m" and reg: "regular_shapes D num shape faces" and D: "0 < D"
    and given: "\<not> conn_is_empty (mesh_conn m (domn, domn, 0, D))"
  shows "\<exists>m'. mesh_intersect (domn, domn, 0, 0) D m = ok m' \<and> mesh_inv D domn num shape V m' \<and>
    mesh_keeps D domn V m V m' \<and> adjacency_done D domn V m' 0 0"
proof -
  obtain A where A: "mesh_conn m (domn, domn, 0, D) = conn_of A" "adjacency_rows V D 0 D A"
    using invD(10)[OF inv _ _ given] by (auto simp: adjacency_done_def)
  have VD: "V D \<noteq> []" and V0: "V 0 \<noteq> []" using invD(2)[OF inv] inv_has_vertices[OF inv reg D] by blast+
  have lenA: "length A = length (V 0)" "fits_u32 A" "length (V 0) = num 0"
    using A(2) invD(1)[OF inv] by (simp_all add: adjacency_rows_def)
  have rowA: "set (A ! v) = {c. c < length (V D) \<and> v \<in> set (V D ! c)}" if "v < num 0" for v
    using A(2) that D invD(1)[OF inv] by (auto simp: adjacency_rows_def adjacent_def)
  have neA: "concat A \<noteq> []" using given A(1) by simp
  have boundA: "\<forall>e\<in>set (concat A). e < length (V D)" using rowA lenA by (auto simp: in_set_conv_nth[of _ A])
  note vd = vertex_adjacency[OF inv reg D order_refl VD]
  show ?thesis
  proof (rule intersect_adjacency[OF inv reg _ _ V0 V0 A(1) lenA(1,2) neA boundA invD(6)[OF inv D order_refl VD]
        vd(2) _ A(1) lenA(1,2) neA])
    show "\<forall>x\<in>set (concat (V D)). x < length A" using vd(3) lenA by simp
    fix x y assume x: "x < length (V 0)" and y: "y < length (V 0)"
    have "(\<exists>e\<in>set (A ! x). y \<in> set (V D ! e)) \<longleftrightarrow> (\<exists>c<length (V D). x \<in> set (V D ! c) \<and> y \<in> set (V D ! c))"
      using rowA x lenA(3) by auto
    then show "(\<exists>e\<in>set (A ! x). y \<in> set (V D ! e)) \<and> related_sets 0 0 D A A x y \<longleftrightarrow> adjacent V D 0 0 x y"
      unfolding related_sets_def adjacent_def by auto
  qed simp_all
qed

section \<open>Building entities\<close>

lemma fold_mesh_make:
  "fold (\<lambda>_. mesh_make domn b) xs m = m\<lparr>mesh_ents := (mesh_ents m)((domn, b) :=
     mesh_ents m (domn, b) @ [length (mesh_ents m (domn, b))..<length (mesh_ents m (domn, b)) + length xs])\<rparr>"
proof (induction xs rule: rev_induct)
  case (snoc x xs)
  have eq: "fold (\<lambda>_. mesh_make domn b) (xs @ [x]) m = mesh_make domn b (fold (\<lambda>_. mesh_make domn b) xs m)" by simp
  show ?case unfolding eq snoc.IH by (rule mesh.equality) (simp_all add: mesh_make_def fun_eq_iff)
next
  case Nil
  show ?case by (rule mesh.equality) (simp_all add: fun_eq_iff)
qed

lemma adjacency_rows_cong:
  "V' a = V a \<Longrightarrow> V' b = V b \<Longrightarrow> V' D = V D \<Longrightarrow> adjacency_rows V' D a b rows = adjacency_rows V D a b rows"
  by (simp add: adjacency_rows_def adjacent_def)

lemma same_vertices: "distinct xs \<Longrightarrow> distinct ys \<Longrightarrow> sort xs = sort ys \<longleftrightarrow> set xs = set (ys :: nat list)"
  by (metis set_sort sorted_list_of_set_sort_remdups distinct_remdups_id)

lemma sum_list_le_max:
  fixes g :: "'a \<Rightarrow> nat"
  assumes "xs \<noteq> []"
  shows "\<exists>x\<in>set xs. sum_list (map g xs) \<le> length xs * g x"
proof -
  have "Max (g ` set xs) \<in> g ` set xs" using assms by (intro Max_in) auto
  then obtain x where "x \<in> set xs" "g x = Max (g ` set xs)" by auto
  then have x: "x \<in> set xs" "\<forall>y\<in>set xs. g y \<le> g x" by simp_all
  have "sum_list (map g ys) \<le> length ys * g x" if "set ys \<subseteq> set xs" for ys
    using that
  proof (induction ys)
    case (Cons y ys)
    then have "g y \<le> g x" "sum_list (map g ys) \<le> length ys * g x" using x(2) by auto
    then show ?case by simp
  qed simp
  then show ?thesis using x(1) by blast
qed

lemma length_le_concat: "\<forall>x\<in>set xs. x \<noteq> [] \<Longrightarrow> length xs \<le> length (concat xs)"
proof (induction xs)
  case (Cons x xs)
  have "1 \<le> length x" using Cons.prems by (cases x) auto
  moreover have "length xs \<le> length (concat xs)" using Cons by simp
  ultimately show ?case by (simp only: concat.simps length_append list.size)
qed simp

text \<open>The numbers of created entities fit.\<close>

lemma created_bounds:
  assumes inv: "mesh_inv D domn num shape V m" and reg: "regular_shapes D num shape faces"
    and bu: "0 < b" "b < u" "u \<le> D" "V u \<noteq> []"
    and cells: "distinct cells" "set cells = {..<length (V u)}" and cr: "\<forall>c\<in>set cells. cr c = faces u b (V u ! c)"
  shows "sum_list (map (\<lambda>c. length (concat (cr c))) cells) < 2 ^ 32" "sum_list (map (\<lambda>c. length (cr c)) cells) < 2 ^ 32"
proof -
  have u: "0 < u" using bu by simp
  have lc: "length cells = num u" using cells invD(4)[OF inv bu(3,4)] distinct_card[OF cells(1)] by simp
  then have "cells \<noteq> []" using cells(2) bu(4) by (metis length_greater_0_conv lessThan_empty_iff less_numeral_extra(3) list.set(1))
  then obtain c where c: "c \<in> set cells" "sum_list (map (\<lambda>c. length (concat (cr c))) cells) \<le> num u * length (concat (cr c))"
    using sum_list_le_max[of cells "\<lambda>c. length (concat (cr c))"] lc by auto
  have s: "V u ! x \<in> shape u" if "x \<in> set cells" for x using inv_vertices(1)[OF inv reg u bu(3)] that cells(2) by simp
  then show b: "sum_list (map (\<lambda>c. length (concat (cr c))) cells) < 2 ^ 32"
    using c(2) regularD(7)[OF reg bu(1,2,3) s[OF c(1)]] c(1) cr by simp
  have "length (cr x) \<le> length (concat (cr x))" if "x \<in> set cells" for x
  proof (rule length_le_concat, rule ballI)
    fix a assume "a \<in> set (cr x)"
    then have "a \<in> shape b" using regularD(3)[OF reg bu(1,2,3) s[OF that]] cr that by auto
    then show "a \<noteq> []" using regularD(2)[OF reg bu(1)] bu by auto
  qed
  then have "sum_list (map (\<lambda>c. length (cr c)) cells) \<le> sum_list (map (\<lambda>c. length (concat (cr c))) cells)"
    by (intro sum_list_mono) auto
  then show "sum_list (map (\<lambda>c. length (cr c)) cells) < 2 ^ 32" using b by simp
qed

text \<open>The built entities are those of the shapes, each once; the rows of the cells list the entities they contain.\<close>

lemma built_entities:
  assumes inv: "mesh_inv D domn num shape V m" and reg: "regular_shapes D num shape faces"
    and bu: "0 < b" "b < u" "u \<le> D" "V u \<noteq> []"
    and evc: "distinct (map sort evc)" "\<forall>a\<in>set evc. \<exists>c<length (V u). a \<in> set (faces u b (V u ! c))"
    and rows: "length rows = length (V u)" "fits_u32 rows"
      "\<forall>c<length (V u). list_all2 (names evc) (rows ! c) (faces u b (V u ! c))"
    and V': "V' = V(b := evc)"
  shows "set evc \<subseteq> shape b" "sort ` set evc = sort ` shape b" "length evc = card (sort ` shape b)"
    "adjacency_rows V' D u b rows"
proof -
  have u: "0 < u" "b \<le> D" using bu by auto
  have Vu: "V u ! c \<in> shape u" if "c < length (V u)" for c using inv_vertices(1)[OF inv reg u(1) bu(3) that] .
  show sub: "set evc \<subseteq> shape b" using evc(2) regularD(3)[OF reg bu(1,2,3) Vu] by blast
  have dist: "distinct a" if "a \<in> shape b" for a using regularD(2)[OF reg bu(1) u(2) that] by blast
  have named: "\<exists>i\<in>set (rows ! c). names evc i a" if "c < length (V u)" "a \<in> set (faces u b (V u ! c))" for c a
    using rows(3) that by (metis in_set_conv_nth list_all2_conv_all_nth)
  have found: "\<exists>i\<in>set (rows ! c). i < length evc \<and> set (evc ! i) = set a"
    if c: "c < length (V u)" and a: "a \<in> shape b" "set a \<subseteq> set (V u ! c)" for c a
  proof -
    obtain a' where a': "a' \<in> set (faces u b (V u ! c))" "set a' = set a"
      using regularD(4)[OF reg bu(1,2,3) Vu[OF c] a] by blast
    obtain i where i: "i \<in> set (rows ! c)" "names evc i a'" using named[OF c a'(1)] by blast
    have "set (evc ! i) = set a'" using i(2) unfolding names_def by (metis set_sort)
    then show ?thesis using i a'(2) unfolding names_def by blast
  qed
  show eq: "sort ` set evc = sort ` shape b"
  proof (intro equalityI subsetI)
    fix s assume "s \<in> sort ` shape b"
    then obtain a where a: "a \<in> shape b" "s = sort a" by blast
    obtain vs where vs: "vs \<in> shape u" "set a \<subseteq> set vs" using regularD(5)[OF reg bu(1,2,3) a(1)] by blast
    have "sort vs \<in> sort ` set (V u)" using vs(1) invD(9)[OF inv u(1) bu(3,4)] by blast
    then obtain c where c: "c < length (V u)" "sort (V u ! c) = sort vs" by (auto simp: in_set_conv_nth)
    then have "set a \<subseteq> set (V u ! c)" using vs(2) by (metis set_sort)
    from found[OF c(1) a(1) this] obtain i where i: "i < length evc" "set (evc ! i) = set a" by blast
    then have m: "evc ! i \<in> set evc" by simp
    then have "sort (evc ! i) = sort a" using i(2) same_vertices dist a(1) sub by blast
    then show "s \<in> sort ` set evc" using m a(2) by (metis image_eqI)
  qed (use sub in blast)
  show "length evc = card (sort ` shape b)"
    using distinct_card[OF evc(1)] unfolding eq[symmetric] by simp
  have row: "set (rows ! c) = {t. t < length evc \<and> set (evc ! t) \<subseteq> set (V u ! c)}" if c: "c < length (V u)" for c
  proof (intro equalityI subsetI)
    fix t assume "t \<in> set (rows ! c)"
    then obtain a where a: "a \<in> set (faces u b (V u ! c))" "names evc t a"
      using rows(3) c by (metis in_set_conv_nth list_all2_conv_all_nth)
    then have "t < length evc" "set (evc ! t) = set a" unfolding names_def by (simp, metis set_sort)
    then show "t \<in> {t. t < length evc \<and> set (evc ! t) \<subseteq> set (V u ! c)}"
      using regularD(3)[OF reg bu(1,2,3) Vu[OF c] a(1)] by simp
  next
    fix t assume "t \<in> {t. t < length evc \<and> set (evc ! t) \<subseteq> set (V u ! c)}"
    then have t: "t < length evc" "set (evc ! t) \<subseteq> set (V u ! c)" by auto
    then have m: "evc ! t \<in> shape b" using sub nth_mem[OF t(1)] by blast
    from found[OF c m t(2)] obtain i where i: "i \<in> set (rows ! c)" "i < length evc" "set (evc ! i) = set (evc ! t)" by blast
    have "evc ! i \<in> shape b" using sub nth_mem[OF i(2)] by blast
    then have "map sort evc ! i = map sort evc ! t" using same_vertices[OF dist dist] i m t(1) by simp
    then have "i = t" using nth_eq_iff_index_eq[OF evc(1)] i(2) t(1) by simp
    then show "t \<in> set (rows ! c)" using i(1) by simp
  qed
  then show "adjacency_rows V' D u b rows"
    using rows(1,2) bu(2) by (simp add: adjacency_rows_def adjacent_def V')
qed

text \<open>The entities of the cells are those of the shapes, so that a map which numbers the shapes numbers them.\<close>

lemma faces_cover:
  assumes inv: "mesh_inv D domn num shape V m" and reg: "regular_shapes D num shape faces"
    and bu: "0 < b" "b < u" "u \<le> D" "V u \<noteq> []"
  defines "E \<equiv> \<Union>c\<in>{..<length (V u)}. set (faces u b (V u ! c))"
  shows "E \<subseteq> shape b" "sort ` E = sort ` shape b"
proof -
  have u: "0 < u" "b \<le> D" using bu by auto
  have Vu: "V u ! c \<in> shape u" if "c < length (V u)" for c using inv_vertices(1)[OF inv reg u(1) bu(3) that] .
  show sub: "E \<subseteq> shape b" using regularD(3)[OF reg bu(1,2,3) Vu] unfolding E_def by blast
  have dist: "distinct a" if "a \<in> shape b" for a using regularD(2)[OF reg bu(1) u(2) that] by blast
  have "sort a \<in> sort ` E" if a: "a \<in> shape b" for a
  proof -
    obtain vs where vs: "vs \<in> shape u" "set a \<subseteq> set vs" using regularD(5)[OF reg bu(1,2,3) a] by blast
    have "sort vs \<in> sort ` set (V u)" using vs(1) invD(9)[OF inv u(1) bu(3,4)] by blast
    then obtain c where c: "c < length (V u)" "sort (V u ! c) = sort vs" by (auto simp: in_set_conv_nth)
    then have "set a \<subseteq> set (V u ! c)" using vs(2) by (metis set_sort)
    from regularD(4)[OF reg bu(1,2,3) Vu[OF c(1)] a this] obtain a' where
      a': "a' \<in> set (faces u b (V u ! c))" "set a' = set a" by blast
    then have "a' \<in> E" using c(1) unfolding E_def by blast
    then show ?thesis using same_vertices dist a a'(2) sub by (metis image_eqI subsetD)
  qed
  then show "sort ` E = sort ` shape b" using sub by blast
qed

lemma numbers_given_subset:
  assumes "numbers_given vm im em F" "E \<subseteq> F" "sort ` E = sort ` F"
  shows "numbers_given vm im em E"
  unfolding numbers_given_def assms(3)
proof (intro conjI ballI impI)
  fix a assume "a \<in> E"
  then have "a \<in> F" using assms(2) by blast
  from numbers_givenD(1)[OF assms(1) this] show "\<exists>i<card (sort ` F). build_entity_id vm im em a 0 = ok i" .
next
  fix a b assume "a \<in> E" "b \<in> E" and eq: "build_entity_id vm im em a 0 = build_entity_id vm im em b 0"
  then have "a \<in> F" "b \<in> F" using assms(2) by blast+
  from numbers_givenD(2)[OF assms(1) this eq] show "sort a = sort b" .
qed

lemma build_step:
  assumes inv: "mesh_inv D domn num shape V m" and reg: "regular_shapes D num shape faces"
    and cc: "context_complete D domn num shape faces ctx"
    and bu: "0 < b" "b < u" "u \<le> D" "V u \<noteq> []" and Vb: "V b = []"
  shows "\<exists>V' m'. build_with ctx D domn b u m = ok m' \<and> mesh_inv D domn num shape V' m' \<and>
    mesh_keeps D domn V m V' m' \<and> V' b \<noteq> []"
proof -
  have u: "0 < u" "b \<le> D" "1 < u" using bu by auto
  let ?cells = "map snd (reverse_index_map ctx u)" and ?cr = "creates ctx u b (mesh_conn m)"
  have N: "length (V u) = num u" by (rule invD(4)[OF inv bu(3,4)])
  have cells: "distinct ?cells" "set ?cells = {..<length (V u)}" using contextD(2,3)[OF cc bu(3)] N by auto
  have cu: "mesh_conn m (domn, domn, u, 0) = conn_of (V u)" by (rule invD(6)[OF inv u(1) bu(3,4)])
  have cr: "?cr c = faces u b (V u ! c)" if "c < length (V u)" for c
    using contextD(5)[OF cc bu(3,1,2), where conns = "mesh_conn m"] cu invD(7)[OF inv u(1) bu(3,4)] that by blast
  have given: "\<not> conn_is_empty (mesh_conn m (domn, domn, u, 0))"
    using cu vertex_adjacency(2)[OF inv reg u(1) bu(3,4)] by simp
  have eu: "mesh_ents m (domn, u) = [0..<length (V u)]" and eb: "mesh_ents m (domn, b) = []"
    using invD(3)[OF inv bu(3)] invD(3)[OF inv u(2)] Vb by simp_all
  have cr': "\<forall>c\<in>set ?cells. ?cr c = faces u b (V u ! c)" using cr unfolding cells(2) by blast
  have lt: "\<forall>c\<in>set ?cells. c < length (mesh_ents m (domn, u))" unfolding cells(2) eu by simp
  have cov: "(\<Union>c\<in>set ?cells. set (?cr c)) = (\<Union>c\<in>{..<length (V u)}. set (faces u b (V u ! c)))"
    using cr unfolding cells(2) by simp
  have "b < D" using bu by simp
  then have given_ids: "intermediate_map ctx b \<noteq> [] \<longrightarrow> numbers_given (index_map ctx 0) (intermediate_map ctx b)
      (map_of (reverse_index_map ctx b)) (\<Union>c\<in>set ?cells. set (?cr c))"
    unfolding cov using numbers_given_subset[OF contextD(4)[OF cc u(2) bu(1)] faces_cover[OF inv reg bu]] by blast
  obtain evc rows ids where r: "mesh_build_connectivity (index_map ctx 0) (intermediate_map ctx b) (map_of (reverse_index_map ctx b)) ?cr ?cells
        (create_entity ctx b) domn b u m = ok (put_conn (domn, domn, u, b) (conn_of rows)
          (put_conn (domn, domn, b, 0) (conn_of evc) (fold (create_entity ctx b) ids m)))"
      "mset ids = mset [0..<length evc]"
      "distinct (map sort evc)" "fits_u32 evc" "fits_u32 rows" "\<forall>a\<in>set evc. first_with (concat (map ?cr ?cells)) a = Some a"
      "length rows = length (V u)" "\<forall>c\<in>set ?cells. list_all2 (names evc) (rows ! c) (?cr c)"
    using build_rows[OF cells(1) lt given created_bounds[OF inv reg bu cells cr'] given_ids, of "create_entity ctx b" b]
    unfolding eu length_upt diff_zero
    by (elim exE conjE) (rule that)
  let ?V = "V(b := evc)"
  let ?m = "put_conn (domn, domn, u, b) (conn_of rows) (put_conn (domn, domn, b, 0) (conn_of evc)
      (m\<lparr>mesh_ents := (mesh_ents m)((domn, b) := [0..<length evc])\<rparr>))"
  have "fold (create_entity ctx b) ids m = m\<lparr>mesh_ents := (mesh_ents m)((domn, b) := [0..<length evc])\<rparr>"
  proof -
    have "create_entity ctx b = (\<lambda>_. mesh_make domn b)" using contextD(6)[OF cc u(2)] by (rule ext)
    moreover have "length ids = length evc" using mset_eq_length[OF r(2)] by simp
    ultimately show ?thesis by (simp only: fold_mesh_make eb) simp
  qed
  then have built: "build_with ctx D domn b u m = ok ?m"
    using r(1) u(3) bu(3) by (simp add: build_with_def)
  have mem: "\<forall>a\<in>set evc. \<exists>c<length (V u). a \<in> set (faces u b (V u ! c))"
  proof
    fix a assume "a \<in> set evc"
    then have "a \<in> set (concat (map ?cr ?cells))" using r(6) unfolding first_with_def by (metis find_Some_iff nth_mem)
    then have "a \<in> (\<Union>c\<in>set ?cells. set (?cr c))" by simp
    then show "\<exists>c<length (V u). a \<in> set (faces u b (V u ! c))" unfolding cov by blast
  qed
  have nam: "\<forall>c<length (V u). list_all2 (names evc) (rows ! c) (faces u b (V u ! c))"
    using r(8) cr unfolding cells(2) by (metis lessThan_iff)
  note be = built_entities[OF inv reg bu r(3) mem r(7,5) nam refl]
  have ne: "evc \<noteq> []"
  proof -
    have "finite (shape b)" "shape b \<noteq> {}" using regularD(1)[OF reg bu(1) u(2)] by blast+
    then have "0 < length evc" unfolding be(3) by (simp add: card_gt_0_iff)
    then show ?thesis by simp
  qed
  have Nb: "length evc = num b" using be(3) invD(5)[OF inv u(2) Vb] by simp
  have bne: "b \<noteq> u" "b \<noteq> 0" "b \<noteq> D" using bu by auto
  have old: "a \<noteq> b \<and> c \<noteq> b" if "a \<le> D" "c \<le> D" "\<not> conn_is_empty (mesh_conn m (domn, domn, a, c))" for a c
    using invD(10)[OF inv that] Vb by auto
  have fill: "conn_is_empty (mesh_conn m (domn, domn, b, 0))" "conn_is_empty (mesh_conn m (domn, domn, u, b))"
    using old[OF u(2), of 0] old[OF bu(3) u(2)] by auto
  have conn: "mesh_conn ?m (domn, domn, a, c) = mesh_conn m (domn, domn, a, c)" if "a \<noteq> b" "c \<noteq> b" for a c
    using that by auto
  have done': "adjacency_done D domn ?V ?m a c"
    if "a \<le> D" "c \<le> D" "a \<noteq> b" "c \<noteq> b" "adjacency_done D domn V m a c" for a c
    using that bne(3) conn[of a c] adjacency_rows_cong[of ?V a V c D] by (auto simp: adjacency_done_def)
  have keep: "mesh_keeps D domn V m ?V ?m"
  proof -
    have "mesh_conn ?m k = mesh_conn m k" if "\<not> conn_is_empty (mesh_conn m k)" for k
      using that fill by auto
    moreover have "adjacency_done D domn ?V ?m a c" if "a \<le> D" "c \<le> D" "V a \<noteq> []" "V c \<noteq> []" "adjacency_done D domn V m a c" for a c
      using done' that Vb by metis
    ultimately show ?thesis using Vb unfolding mesh_keeps_def by auto
  qed
  have rowsb: "adjacency_rows ?V D b 0 evc"
  proof -
    have "v < num 0" if "f < length evc" "v \<in> set (evc ! f)" for f v
      using regularD(2)[OF reg bu(1) u(2)] be(1) nth_mem[OF that(1)] that(2) by blast
    then have "set (evc ! f) = {t. t < length (?V 0) \<and> adjacent ?V D b 0 f t}" if "f < length evc" for f
      using that bne invD(1)[OF inv] bu(1) unfolding adjacent_def by auto
    then show ?thesis using r(4) by (simp add: adjacency_rows_def)
  qed
  have "mesh_inv D domn num shape ?V ?m"
  proof -
    have "?V a \<noteq> [] \<and> ?V c \<noteq> [] \<and> adjacency_done D domn ?V ?m a c"
      if ac: "a \<le> D" "c \<le> D" "\<not> conn_is_empty (mesh_conn ?m (domn, domn, a, c))" for a c
    proof (cases "(a = u \<and> c = b) \<or> (a = b \<and> c = 0)")
      case True
      then show ?thesis
      proof
        assume "a = u \<and> c = b"
        then show ?thesis using be(4) ne bu(4) bne unfolding adjacency_done_def by (auto intro: exI[of _ rows])
      next
        assume "a = b \<and> c = 0"
        then show ?thesis using rowsb ne bne inv_has_vertices(2)[OF inv reg] bu unfolding adjacency_done_def
          by (auto intro: exI[of _ evc])
      qed
    next
      case False
      then have e: "mesh_conn ?m (domn, domn, a, c) = mesh_conn m (domn, domn, a, c)" by auto
      from ac(3) have g: "\<not> conn_is_empty (mesh_conn m (domn, domn, a, c))" unfolding e .
      have n: "a \<noteq> b" "c \<noteq> b" using old[OF ac(1,2) g] by blast+
      show ?thesis using invD(10)[OF inv ac(1,2) g] done'[OF ac(1,2) n] n by simp
    qed
    moreover have "mesh_conn ?m (domn, domn, a, 0) = conn_of (?V a) \<and> fits_u32 (?V a) \<and> set (?V a) \<subseteq> shape a \<and>
        sort ` set (?V a) = sort ` shape a" if "0 < a" "a \<le> D" "?V a \<noteq> []" for a
      using that invD(6,7,8,9)[OF inv, of a] r(4) be(1,2) bne by (cases "a = b") auto
    moreover have "mesh_ents ?m (domn, a) = [0..<length (?V a)] \<and> (?V a \<noteq> [] \<longrightarrow> length (?V a) = num a) \<and>
        (?V a = [] \<longrightarrow> num a = card (sort ` shape a))" if "a \<le> D" for a
      using that invD(3,4,5)[OF inv, of a] ne Nb by (cases "a = b") auto
    ultimately show ?thesis
      using invD(1,2)[OF inv] bne unfolding mesh_inv_def adjacency_done_def by simp
  qed
  then show ?thesis using built keep ne by (intro exI[of _ ?V] exI[of _ ?m]) simp
qed

lemma build_missing_step:
  assumes inv: "mesh_inv D domn num shape V m" and reg: "regular_shapes D num shape faces"
    and cc: "context_complete D domn num shape faces ctx" and D: "0 < D" "b \<le> D"
  shows "\<exists>V' m'. build_missing ctx D domn b m = ok m' \<and> mesh_inv D domn num shape V' m' \<and>
    mesh_keeps D domn V m V' m' \<and> V' b \<noteq> [] \<and> mesh_num_entities m' b domn \<noteq> 0"
proof (cases "V b = []")
  case False
  then show ?thesis using inv mesh_keeps_refl invD(3)[OF inv D(2)] by (auto simp: build_missing_def mesh_num_entities_def)
next
  case True
  have b: "0 < b" "b < D"
    using True inv_has_vertices(2)[OF inv reg D(1)] invD(2)[OF inv] D(2) by (metis neq0_conv, metis le_neq_implies_less)
  have z: "mesh_num_entities m b domn = 0" using True invD(3)[OF inv D(2)] by (simp add: mesh_num_entities_def)
  let ?u = "if conn_is_empty (mesh_conn m (domn, domn, b + 1, 0)) then D else b + 1"
  have u: "b < ?u" "?u \<le> D" "V ?u \<noteq> []"
    using b invD(2)[OF inv] invD(10)[OF inv, of "b + 1" 0] by auto
  obtain V' m' where s: "build_with ctx D domn b ?u m = ok m'" "mesh_inv D domn num shape V' m'"
    "mesh_keeps D domn V m V' m'" "V' b \<noteq> []"
    using build_step[OF inv reg cc b(1) u True] by blast
  have "build_missing ctx D domn b m = ok m'" using s(1) z b by (simp add: build_missing_def split: if_splits)
  moreover have "mesh_num_entities m' b domn \<noteq> 0" using s(4) invD(3)[OF s(2) D(2)] by (simp add: mesh_num_entities_def)
  ultimately show ?thesis using s by blast
qed

section \<open>The recursion\<close>

definition conn_reaches ::
    "nat \<Rightarrow> mesh_context \<Rightarrow> nat \<Rightarrow> nat \<Rightarrow> (nat \<Rightarrow> nat) \<Rightarrow> (nat \<Rightarrow> nat list set) \<Rightarrow> (nat \<Rightarrow> nat list list) \<Rightarrow> mesh \<Rightarrow>
     nat \<Rightarrow> nat \<Rightarrow> bool" where
  "conn_reaches n ctx D domn num shape V m f t \<longleftrightarrow>
     (\<exists>V' m'. compute_connectivity n ctx D domn f t m = ok m' \<and> mesh_inv D domn num shape V' m' \<and>
        mesh_keeps D domn V m V' m' \<and> V' f \<noteq> [] \<and> V' t \<noteq> [] \<and> adjacency_done D domn V' m' f t)"

lemma conn_reachesI:
  assumes "compute_connectivity n ctx D domn f t m = ok m'" "mesh_inv D domn num shape V' m'"
    "mesh_keeps D domn V m V' m'" "V' f \<noteq> []" "V' t \<noteq> []" "adjacency_done D domn V' m' f t"
  shows "conn_reaches n ctx D domn num shape V m f t"
  using assms unfolding conn_reaches_def by blast

lemma compute_present: "\<not> conn_is_empty (mesh_conn m (domn, domn, f, t)) \<Longrightarrow> compute_connectivity (Suc n) ctx D domn f t m = ok m"
  by simp

lemma vertices_present:
  assumes inv: "mesh_inv D domn num shape V m" and reg: "regular_shapes D num shape faces"
    and a: "0 < a" "a \<le> D" "V a \<noteq> []"
  shows "\<not> conn_is_empty (mesh_conn m (domn, domn, a, 0))"
  using invD(6)[OF inv a] vertex_adjacency(2)[OF inv reg a] by simp

lemma conn_reaches_present:
  assumes inv: "mesh_inv D domn num shape V m" and ft: "f \<le> D" "t \<le> D"
    and given: "\<not> conn_is_empty (mesh_conn m (domn, domn, f, t))"
  shows "conn_reaches (Suc n) ctx D domn num shape V m f t"
  using invD(10)[OF inv ft given] given by (intro conn_reachesI[OF compute_present inv mesh_keeps_refl]) auto

text \<open>What is left of a call after the entities are built.\<close>

definition compute_rest :: "nat \<Rightarrow> mesh_context \<Rightarrow> nat \<Rightarrow> nat \<Rightarrow> nat \<Rightarrow> nat \<Rightarrow> mesh \<Rightarrow> mesh outcome" where
  "compute_rest n ctx D domn f t m =
     (if f < t
      then and_then (compute_connectivity n ctx D domn t f m) (mesh_transpose (index_map ctx t) (domn, domn, f, t))
      else if f = 0 \<and> t = 0
      then and_then (compute_connectivity n ctx D domn f D m) (\<lambda>m.
           and_then (compute_connectivity n ctx D domn D t m) (mesh_intersect (domn, domn, f, t) D))
      else and_then (compute_connectivity n ctx D domn f 0 m) (\<lambda>m.
           and_then (compute_connectivity n ctx D domn 0 t m) (mesh_intersect (domn, domn, f, t) 0)))"

lemma compute_entities:
  assumes inv: "mesh_inv D domn num shape V m" and reg: "regular_shapes D num shape faces"
    and cc: "context_complete D domn num shape faces ctx" and D: "0 < D" "f \<le> D" "t \<le> D"
    and empty: "conn_is_empty (mesh_conn m (domn, domn, f, t))"
  shows "\<exists>V' m'. compute_connectivity (Suc n) ctx D domn f t m = compute_rest n ctx D domn f t m' \<and>
    mesh_inv D domn num shape V' m' \<and> mesh_keeps D domn V m V' m' \<and> V' f \<noteq> [] \<and> V' t \<noteq> []"
proof -
  have cells: "cells_from_faces ctx D domn m = ok m"
    using vertices_present[OF inv reg D(1) order_refl invD(2)[OF inv]] by (simp add: cells_from_faces_def)
  obtain V1 m1 where s1: "build_missing ctx D domn f m = ok m1" "mesh_inv D domn num shape V1 m1"
    "mesh_keeps D domn V m V1 m1" "V1 f \<noteq> []" using build_missing_step[OF inv reg cc D(1,2)] by blast
  obtain V2 m2 where s2: "build_missing ctx D domn t m1 = ok m2" "mesh_inv D domn num shape V2 m2"
    "mesh_keeps D domn V1 m1 V2 m2" "V2 t \<noteq> []" "mesh_num_entities m2 t domn \<noteq> 0"
    using build_missing_step[OF s1(2) reg cc D(1,3)] by blast
  have "V2 f \<noteq> []" using mesh_keepsD(1)[OF s2(3) D(2) s1(4)] s1(4) by simp
  moreover have "compute_connectivity (Suc n) ctx D domn f t m = compute_rest n ctx D domn f t m2"
    using empty cells s1(1) s2(1,5) by (simp add: compute_rest_def)
  ultimately show ?thesis using mesh_keeps_trans[OF s1(3) s2(3)] s2(2,4) by blast
qed

lemma transpose_step:
  assumes inv: "mesh_inv D domn num shape V m" and reg: "regular_shapes D num shape faces"
    and cc: "context_complete D domn num shape faces ctx"
    and ft: "f < t" "t \<le> D" and r: "conn_reaches n ctx D domn num shape V m t f"
  shows "\<exists>V' m'. compute_rest n ctx D domn f t m = ok m' \<and> mesh_inv D domn num shape V' m' \<and>
    mesh_keeps D domn V m V' m' \<and> V' f \<noteq> [] \<and> V' t \<noteq> [] \<and> adjacency_done D domn V' m' f t"
proof -
  have fD: "f \<le> D" using ft by simp
  obtain V1 m1 where s: "compute_connectivity n ctx D domn t f m = ok m1" "mesh_inv D domn num shape V1 m1"
    "mesh_keeps D domn V m V1 m1" "V1 t \<noteq> []" "V1 f \<noteq> []" "adjacency_done D domn V1 m1 t f"
    using r unfolding conn_reaches_def by blast
  have "t \<noteq> f" using ft(1) by simp
  then have g: "\<not> conn_is_empty (mesh_conn m1 (domn, domn, t, f))"
    by (rule done_present[OF s(2) reg _ ft(2) fD s(4,5,6)])
  obtain m2 where t: "mesh_transpose (index_map ctx t) (domn, domn, f, t) m1 = ok m2" "mesh_inv D domn num shape V1 m2"
    "mesh_keeps D domn V1 m1 V1 m2" "\<not> conn_is_empty (mesh_conn m2 (domn, domn, f, t))"
    using transpose_adjacency[OF s(2) reg cc ft s(5,4) g] by blast
  show ?thesis
    using s(1,4,5) t(1,2) mesh_keeps_trans[OF s(3) t(3)] invD(10)[OF t(2) fD ft(2) t(4)] ft(1)
    by (intro exI[of _ V1] exI[of _ m2]) (simp add: compute_rest_def)
qed

text \<open>From the vertices to the entities of a dimension.\<close>

lemma conn_reaches_up:
  assumes inv: "mesh_inv D domn num shape V m" and reg: "regular_shapes D num shape faces"
    and cc: "context_complete D domn num shape faces ctx" and t: "0 < t" "t \<le> D"
  shows "conn_reaches (Suc (Suc n)) ctx D domn num shape V m 0 t"
proof (cases "conn_is_empty (mesh_conn m (domn, domn, 0, t))")
  case False
  then show ?thesis using conn_reaches_present[OF inv _ t(2)] by simp
next
  case True
  have D: "0 < D" using t by simp
  obtain V1 m1 where s: "compute_connectivity (Suc (Suc n)) ctx D domn 0 t m = compute_rest (Suc n) ctx D domn 0 t m1"
    "mesh_inv D domn num shape V1 m1" "mesh_keeps D domn V m V1 m1" "V1 t \<noteq> []"
    using compute_entities[OF inv reg cc D le0 t(2) True] by blast
  have r: "conn_reaches (Suc n) ctx D domn num shape V1 m1 t 0"
    using conn_reaches_present[OF s(2) t(2) le0 vertices_present[OF s(2) reg t s(4)]] .
  obtain V2 m2 where f: "compute_rest (Suc n) ctx D domn 0 t m1 = ok m2" "mesh_inv D domn num shape V2 m2"
    "mesh_keeps D domn V1 m1 V2 m2" "V2 0 \<noteq> []" "V2 t \<noteq> []" "adjacency_done D domn V2 m2 0 t"
    using transpose_step[OF s(2) reg cc t r] by blast
  show ?thesis
    using conn_reachesI[OF _ f(2) mesh_keeps_trans[OF s(3) f(3)] f(4,5,6)] s(1) f(1) by simp
qed

lemma conn_reaches_neighbours:
  assumes inv: "mesh_inv D domn num shape V m" and reg: "regular_shapes D num shape faces"
    and cc: "context_complete D domn num shape faces ctx" and D: "0 < D"
  shows "conn_reaches (Suc (Suc (Suc n))) ctx D domn num shape V m 0 0"
proof (cases "conn_is_empty (mesh_conn m (domn, domn, 0, 0))")
  case False
  then show ?thesis using conn_reaches_present[OF inv] by simp
next
  case True
  obtain V1 m1 where s: "compute_connectivity (Suc (Suc (Suc n))) ctx D domn 0 0 m = compute_rest (Suc (Suc n)) ctx D domn 0 0 m1"
    "mesh_inv D domn num shape V1 m1" "mesh_keeps D domn V m V1 m1"
    using compute_entities[OF inv reg cc D le0 le0 True] by blast
  obtain V2 m2 where u: "compute_connectivity (Suc (Suc n)) ctx D domn 0 D m1 = ok m2" "mesh_inv D domn num shape V2 m2"
    "mesh_keeps D domn V1 m1 V2 m2" "V2 0 \<noteq> []" "V2 D \<noteq> []" "adjacency_done D domn V2 m2 0 D"
    using conn_reaches_up[OF s(2) reg cc D order_refl] unfolding conn_reaches_def by blast
  have "0 \<noteq> D" using D by simp
  then have g: "\<not> conn_is_empty (mesh_conn m2 (domn, domn, 0, D))"
    by (rule done_present[OF u(2) reg _ le0 order_refl u(4,5,6)])
  obtain m3 where i: "mesh_intersect (domn, domn, 0, 0) D m2 = ok m3" "mesh_inv D domn num shape V2 m3"
    "mesh_keeps D domn V2 m2 V2 m3" "adjacency_done D domn V2 m3 0 0"
    using intersect_cells[OF u(2) reg D g] by blast
  have "compute_connectivity (Suc (Suc n)) ctx D domn D 0 m2 = ok m2"
    by (rule compute_present[OF vertices_present[OF u(2) reg D order_refl u(5)]])
  then have "compute_connectivity (Suc (Suc (Suc n))) ctx D domn 0 0 m = ok m3"
    unfolding s(1) compute_rest_def using u(1) i(1) by (simp del: compute_connectivity.simps)
  then show ?thesis
    by (rule conn_reachesI[OF _ i(2) mesh_keeps_trans[OF s(3) mesh_keeps_trans[OF u(3) i(3)]] u(4,4) i(4)])
qed

lemma conn_reaches_down:
  assumes inv: "mesh_inv D domn num shape V m" and reg: "regular_shapes D num shape faces"
    and cc: "context_complete D domn num shape faces ctx" and ft: "0 < t" "t \<le> f" "f \<le> D"
  shows "conn_reaches (Suc (Suc (Suc n))) ctx D domn num shape V m f t"
proof (cases "conn_is_empty (mesh_conn m (domn, domn, f, t))")
  case False
  then show ?thesis using conn_reaches_present[OF inv] ft by simp
next
  case True
  have D: "0 < D" "t \<le> D" "0 < f" using ft by auto
  obtain V1 m1 where s: "compute_connectivity (Suc (Suc (Suc n))) ctx D domn f t m = compute_rest (Suc (Suc n)) ctx D domn f t m1"
    "mesh_inv D domn num shape V1 m1" "mesh_keeps D domn V m V1 m1" "V1 f \<noteq> []"
    using compute_entities[OF inv reg cc D(1) ft(3) D(2) True] by blast
  have p: "compute_connectivity (Suc (Suc n)) ctx D domn f 0 m1 = ok m1"
    by (rule compute_present[OF vertices_present[OF s(2) reg D(3) ft(3) s(4)]])
  obtain V2 m2 where u: "compute_connectivity (Suc (Suc n)) ctx D domn 0 t m1 = ok m2" "mesh_inv D domn num shape V2 m2"
    "mesh_keeps D domn V1 m1 V2 m2" "V2 0 \<noteq> []" "V2 t \<noteq> []" "adjacency_done D domn V2 m2 0 t"
    using conn_reaches_up[OF s(2) reg cc ft(1) D(2)] unfolding conn_reaches_def by blast
  have "0 \<noteq> t" using ft(1) by simp
  then have g: "\<not> conn_is_empty (mesh_conn m2 (domn, domn, 0, t))"
    by (rule done_present[OF u(2) reg _ le0 D(2) u(4,5,6)])
  have Vf: "V2 f \<noteq> []" using mesh_keepsD(1)[OF u(3) ft(3) s(4)] s(4) by simp
  obtain m3 where i: "mesh_intersect (domn, domn, f, t) 0 m2 = ok m3" "mesh_inv D domn num shape V2 m3"
    "mesh_keeps D domn V2 m2 V2 m3" "adjacency_done D domn V2 m3 f t"
    using intersect_vertices[OF u(2) reg ft Vf u(5) g] by blast
  have "compute_connectivity (Suc (Suc (Suc n))) ctx D domn f t m = ok m3"
    unfolding s(1) compute_rest_def using p u(1) i(1) ft by (simp del: compute_connectivity.simps)
  then show ?thesis
    by (rule conn_reachesI[OF _ i(2) mesh_keeps_trans[OF s(3) mesh_keeps_trans[OF u(3) i(3)]] Vf u(5) i(4)])
qed

lemma conn_reaches_vertices:
  assumes inv: "mesh_inv D domn num shape V m" and reg: "regular_shapes D num shape faces"
    and cc: "context_complete D domn num shape faces ctx" and f: "0 < f" "f \<le> D"
  shows "conn_reaches (Suc (Suc (Suc (Suc n)))) ctx D domn num shape V m f 0"
proof (cases "conn_is_empty (mesh_conn m (domn, domn, f, 0))")
  case False
  then show ?thesis using conn_reaches_present[OF inv f(2)] by simp
next
  case True
  have D: "0 < D" using f by simp
  obtain V1 m1 where s: "compute_connectivity (Suc (Suc (Suc (Suc n)))) ctx D domn f 0 m = compute_rest (Suc (Suc (Suc n))) ctx D domn f 0 m1"
    "mesh_inv D domn num shape V1 m1" "mesh_keeps D domn V m V1 m1" "V1 f \<noteq> []"
    using compute_entities[OF inv reg cc D f(2) le0 True] by blast
  note g = vertices_present[OF s(2) reg f s(4)]
  obtain V2 m2 where u: "compute_connectivity (Suc (Suc (Suc n))) ctx D domn 0 0 m1 = ok m2" "mesh_inv D domn num shape V2 m2"
    "mesh_keeps D domn V1 m1 V2 m2" "V2 0 \<noteq> []"
    using conn_reaches_neighbours[OF s(2) reg cc D] unfolding conn_reaches_def by blast
  have g2: "\<not> conn_is_empty (mesh_conn m2 (domn, domn, f, 0))" by (rule mesh_keepsD(3)[OF u(3) g])
  have "compute_connectivity (Suc (Suc (Suc n))) ctx D domn f 0 m1 = ok m1" by (rule compute_present[OF g])
  then have "compute_connectivity (Suc (Suc (Suc (Suc n)))) ctx D domn f 0 m = ok m2"
    unfolding s(1) compute_rest_def using u(1) g2 f(1) by (simp add: mesh_intersect_def del: compute_connectivity.simps)
  then show ?thesis
    using invD(10)[OF u(2) f(2) le0 g2] by (intro conn_reachesI[OF _ u(2) mesh_keeps_trans[OF s(3) u(3)]]) auto
qed

text \<open>Four nested calls are enough for every adjacency.\<close>

lemma conn_reaches_all:
  assumes inv: "mesh_inv D domn num shape V m" and reg: "regular_shapes D num shape faces"
    and cc: "context_complete D domn num shape faces ctx" and D: "0 < D" "f \<le> D" "t \<le> D"
  shows "conn_reaches (Suc (Suc (Suc (Suc n)))) ctx D domn num shape V m f t"
proof (cases "f < t")
  case True
  show ?thesis
  proof (cases "f = 0 \<or> \<not> conn_is_empty (mesh_conn m (domn, domn, f, t))")
    case True
    then show ?thesis using conn_reaches_up[OF inv reg cc _ D(3)] conn_reaches_present[OF inv D(2,3)] \<open>f < t\<close> by auto
  next
    case False
    then obtain V1 m1 where s: "compute_connectivity (Suc (Suc (Suc (Suc n)))) ctx D domn f t m = compute_rest (Suc (Suc (Suc n))) ctx D domn f t m1"
      "mesh_inv D domn num shape V1 m1" "mesh_keeps D domn V m V1 m1"
      using compute_entities[OF inv reg cc D] by blast
    have r: "conn_reaches (Suc (Suc (Suc n))) ctx D domn num shape V1 m1 t f"
      using conn_reaches_down[OF s(2) reg cc _ _ D(3)] False True by simp
    obtain V2 m2 where g: "compute_rest (Suc (Suc (Suc n))) ctx D domn f t m1 = ok m2" "mesh_inv D domn num shape V2 m2"
      "mesh_keeps D domn V1 m1 V2 m2" "V2 f \<noteq> []" "V2 t \<noteq> []" "adjacency_done D domn V2 m2 f t"
      using transpose_step[OF s(2) reg cc True D(3) r] by blast
    show ?thesis using conn_reachesI[OF _ g(2) mesh_keeps_trans[OF s(3) g(3)] g(4,5,6)] s(1) g(1) by simp
  qed
next
  case False
  then show ?thesis
    using conn_reaches_neighbours[OF inv reg cc D(1)] conn_reaches_down[OF inv reg cc _ _ D(2)] conn_reaches_vertices[OF inv reg cc _ D(2)]
    by (cases "t = 0"; cases "f = 0") auto
qed

lemma compute_all:
  assumes inv: "mesh_inv D domn num shape V m" and reg: "regular_shapes D num shape faces"
    and cc: "context_complete D domn num shape faces ctx" and D: "0 < D" and fuel: "4 \<le> fuel"
    and reqs: "\<forall>(d, f, t)\<in>set reqs. d = domn \<longrightarrow> f \<le> D \<and> t \<le> D"
  shows "\<exists>V' m'. compute_connectivities fuel ctx D domn reqs m = ok m' \<and> mesh_inv D domn num shape V' m' \<and>
    mesh_keeps D domn V m V' m' \<and>
    (\<forall>(d, f, t)\<in>set reqs. d = domn \<longrightarrow> V' f \<noteq> [] \<and> V' t \<noteq> [] \<and> adjacency_done D domn V' m' f t)"
  using inv reqs
proof (induction reqs arbitrary: V m)
  case Nil
  then show ?case using mesh_keeps_refl by (auto simp: compute_connectivities_def)
next
  case (Cons r reqs)
  obtain d f t where r: "r = (d, f, t)" by (cases r)
  have rest: "\<forall>(d, f, t)\<in>set reqs. d = domn \<longrightarrow> f \<le> D \<and> t \<le> D" using Cons.prems(2) by simp
  show ?case
  proof (cases "d = domn")
    case False
    then have "compute_connectivities fuel ctx D domn (r # reqs) m = compute_connectivities fuel ctx D domn reqs m"
      by (simp add: compute_connectivities_def r)
    then show ?thesis using Cons.IH[OF Cons.prems(1) rest] False r by simp
  next
    case True
    have ft: "f \<le> D" "t \<le> D" using Cons.prems(2) True r by simp_all
    obtain n where n: "fuel = Suc (Suc (Suc (Suc n)))" using fuel by (metis Suc_le_D add_2_eq_Suc' numeral_Bit0 Suc_le_mono numeral_2_eq_2)
    obtain V1 m1 where s: "compute_connectivity fuel ctx D domn f t m = ok m1" "mesh_inv D domn num shape V1 m1"
      "mesh_keeps D domn V m V1 m1" "V1 f \<noteq> []" "V1 t \<noteq> []" "adjacency_done D domn V1 m1 f t"
      using conn_reaches_all[OF Cons.prems(1) reg cc D ft, of n] unfolding conn_reaches_def n by blast
    obtain V2 m2 where q: "compute_connectivities fuel ctx D domn reqs m1 = ok m2" "mesh_inv D domn num shape V2 m2"
      "mesh_keeps D domn V1 m1 V2 m2"
      "\<forall>(d, f, t)\<in>set reqs. d = domn \<longrightarrow> V2 f \<noteq> [] \<and> V2 t \<noteq> [] \<and> adjacency_done D domn V2 m2 f t"
      using Cons.IH[OF s(2) rest] by blast
    have c: "compute_connectivities fuel ctx D domn (r # reqs) m = ok m2"
      using s(1) q(1) True r by (simp add: compute_connectivities_def del: compute_connectivity.simps)
    have "V2 f = V1 f" "V2 t = V1 t" using mesh_keepsD(1)[OF q(3)] ft s(4,5) by blast+
    moreover have "adjacency_done D domn V2 m2 f t" using q(3) ft s(4,5,6) unfolding mesh_keeps_def by blast
    ultimately show ?thesis using c q(2,4) mesh_keeps_trans[OF s(3) q(3)] s(4,5) r by (intro exI[of _ V2] exI[of _ m2]) simp
  qed
qed


definition triangle_edges :: "nat \<Rightarrow> nat \<Rightarrow> nat list \<Rightarrow> nat list list" where
  "triangle_edges u b vs = [[vs ! 0, vs ! 1], [vs ! 1, vs ! 2], [vs ! 2, vs ! 0]]"

definition triangle_context :: mesh_context where
  "triangle_context = \<lparr>index_map = (\<lambda>_. Some), reverse_index_map = (\<lambda>a. map (\<lambda>i. (i, i)) [0..<[4, 5, 2] ! a]),
     intermediate_map = (\<lambda>_. []),
     creates = (\<lambda>u b conns c. case conn_get c (conns (0, 0, u, 0)) of Inr vs \<Rightarrow> triangle_edges u b vs | Inl _ \<Rightarrow> []),
     create_entity = (\<lambda>b _. mesh_make 0 b)\<rparr>"

definition two_triangles :: mesh where
  "two_triangles = \<lparr>mesh_ents = (\<lambda>_. [])((0, 2) := [0, 1], (0, 0) := [0, 1, 2, 3]),
     mesh_conn = (\<lambda>_. conn_new)((0, 0, 2, 0) := conn_of [[0, 1, 2], [1, 3, 2]])\<rparr>"

definition triangle_shapes :: "nat \<Rightarrow> nat list set" where
  "triangle_shapes a = (if a = 2 then {[0, 1, 2], [1, 3, 2]} else {[0, 1], [1, 2], [2, 0], [1, 3], [3, 2], [2, 1]})"

lemma triangles_regular: "regular_shapes 2 ((!) [4, 5, 2]) triangle_shapes triangle_edges"
proof -
  have a: "a = 1 \<or> a = 2" if "0 < a" "a \<le> 2" for a :: nat using that by auto
  have bu: "b = 1 \<and> u = 2" if "0 < b" "b < u" "u \<le> 2" for b u :: nat using that by auto
  have le: "a = 0 \<or> a = 1 \<or> a = 2" if "a \<le> 2" for a :: nat using that by auto
  show ?thesis
    unfolding regular_shapes_def
  proof (intro conjI allI impI; (elim conjE)?)
    fix a :: nat assume "0 < a" "a \<le> 2"
    then show "finite (triangle_shapes a)" "triangle_shapes a \<noteq> {}" by (auto simp: triangle_shapes_def)
  next
    fix a :: nat and vs assume "0 < a" "a \<le> 2" "vs \<in> triangle_shapes a"
    then show "vs \<noteq> []" "distinct vs" "\<forall>v\<in>set vs. v < [4, 5, 2] ! 0" by (auto simp: triangle_shapes_def split: if_splits)
  next
    fix b u :: nat and vs assume h: "0 < b" "b < u" "u \<le> 2" "vs \<in> triangle_shapes u"
    show "\<forall>a\<in>set (triangle_edges u b vs). a \<in> triangle_shapes b \<and> set a \<subseteq> set vs"
      using h(4) bu[OF h(1,2,3)] by (auto simp: triangle_shapes_def triangle_edges_def)
    show "[4, 5, 2] ! u * length (concat (triangle_edges u b vs)) < 2 ^ 32"
      using bu[OF h(1,2,3)] by (simp add: triangle_edges_def)
  next
    fix b u :: nat and vs e assume h: "0 < b" "b < u" "u \<le> 2" "vs \<in> triangle_shapes u" "e \<in> triangle_shapes b" "set e \<subseteq> set vs"
    show "\<exists>e'\<in>set (triangle_edges u b vs). set e' = set e"
      using h(4,5,6) bu[OF h(1,2,3)] by (auto simp: triangle_shapes_def triangle_edges_def)
  next
    fix b u :: nat and e assume h: "0 < b" "b < u" "u \<le> 2" "e \<in> triangle_shapes b"
    show "\<exists>vs\<in>triangle_shapes u. set e \<subseteq> set vs" using h(4) bu[OF h(1,2,3)] by (auto simp: triangle_shapes_def)
  next
    fix a b :: nat assume "a \<le> 2" "b \<le> 2"
    then show "[4, 5, 2] ! a * [4, 5, 2] ! b < (2::nat) ^ 32" using le[of a] le[of b] by auto
  qed
qed

lemma triangles_complete: "context_complete 2 0 ((!) [4, 5, 2]) triangle_shapes triangle_edges triangle_context"
proof -
  have "conn_get c (conn_of rows) = ok (rows ! c)" if "c < length rows" "fits_u32 rows" for c rows
    using that conn_get_rows by (metis list.size(3) not_less_zero)
  then show ?thesis
    by (auto simp: context_complete_def triangle_context_def comp_def image_image atLeast0LessThan)
qed


lemma triangles_inv:
  "mesh_inv 2 0 ((!) [4, 5, 2]) triangle_shapes (\<lambda>a. [vertex_lists 4, [], [[0, 1, 2], [1, 3, 2]]] ! a) two_triangles"
proof -
  let ?V = "\<lambda>a. [vertex_lists 4, [], [[0, 1, 2], [1, 3, 2]]] ! a :: nat list list"
  have le: "a = 0 \<or> a = 1 \<or> a = 2" if "a \<le> 2" for a :: nat using that by auto
  have "sort ` triangle_shapes 1 = {[0, 1], [1, 2], [0, 2], [1, 3], [2, 3]}" by (auto simp: triangle_shapes_def)
  then have c: "card (sort ` triangle_shapes 1) = 5" by simp
  have "fits_u32 [[0, 1, 2], [1, 3, 2]]" by (simp add: fits_u32_def)
  moreover have "adjacency_rows ?V 2 2 0 [[0, 1, 2], [1, 3, 2]]"
    by (auto simp: adjacency_rows_def adjacent_def less_Suc_eq fits_u32_def vertex_lists_def nth_Cons split: nat.splits)
  ultimately show ?thesis
    unfolding mesh_inv_def
    using c by (auto simp: two_triangles_def triangle_shapes_def conn_is_empty_def conn_new_def upt_rec le_Suc_eq numeral_2_eq_2)
qed



text \<open>
  C40: When entities of a dimension between the vertices and the cells are registered without their vertices,
  \<open>compute_connectivity\<close> to the vertices calls itself with the same arguments and never returns, however deep the
  stack is.
\<close>

theorem unvertexed_entities_diverge:
  assumes "0 < f" "f < D" and "mesh_num_entities m f domn \<noteq> 0" "mesh_num_entities m 0 domn \<noteq> 0"
    and "conn_is_empty (mesh_conn m (domn, domn, f, 0))" "\<not> conn_is_empty (mesh_conn m (domn, domn, D, 0))"
  shows "\<forall>n. compute_connectivity n ctx D domn f 0 m = fail Out_of_fuel"
proof
  fix n
  show "compute_connectivity n ctx D domn f 0 m = fail Out_of_fuel"
    using assms by (induction n) (simp_all add: cells_from_faces_def build_missing_def)
qed

lemma unvertexed_entities_diverge_witness:
  "compute_connectivity 1000 triangle_context 2 0 1 0 (mesh_make 0 1 two_triangles) = fail Out_of_fuel"
proof -
  let ?m = "mesh_make 0 1 two_triangles"
  have "mesh_num_entities ?m 1 0 \<noteq> 0" "mesh_num_entities ?m 0 0 \<noteq> 0" "conn_is_empty (mesh_conn ?m (0, 0, 1, 0))"
    "\<not> conn_is_empty (mesh_conn ?m (0, 0, 2, 0))"
    by (simp_all add: mesh_num_entities_def mesh_make_def two_triangles_def conn_is_empty_def conn_new_def conn_of_def)
  then show ?thesis using unvertexed_entities_diverge[of 1 2 ?m 0 triangle_context] by simp
qed

end
