(* ===== verification/Crs.thy ===== *)
theory Crs
  imports Connectivity Std_Map
begin

text \<open>
  Compressed row storage (coloring/crs.h) and the index arithmetic of coloring/dcrs\_utils.h:
  \<open>crs_t\<close> with \<open>append\<close>, \<open>erase\<close> and element access, the block distribution \<open>subdivide\<close> with its
  owner search, and the naive coloring derived from it. \<open>crs_of\<close> represents a list of rows; the
  operations are shown to act on the rows.
\<close>

section \<open>crs\_t\<close>

record crs =
  crs_offsets :: "nat list"
  crs_indices :: "nat list"

record dcrs = crs +
  distribution :: "nat list"

definition crs_new :: crs where
  "crs_new = \<lparr>crs_offsets = [], crs_indices = []\<rparr>"

definition crs_size :: "('b) crs_scheme \<Rightarrow> nat" where
  "crs_size c = (if crs_offsets c = [] then 0 else length (crs_offsets c) - 1)"

definition crs_clear :: "('b) crs_scheme \<Rightarrow> ('b) crs_scheme" where
  "crs_clear c = c\<lparr>crs_offsets := [], crs_indices := []\<rparr>"

definition dcrs_clear :: "dcrs \<Rightarrow> dcrs" where
  "dcrs_clear c = (crs_clear c)\<lparr>distribution := []\<rparr>"

text \<open>\<open>*iterator(*this, i)\<close>: the span of row \<open>i\<close>.\<close>

definition crs_row :: "('b) crs_scheme \<Rightarrow> nat \<Rightarrow> nat list outcome" where
  "crs_row c i =
     (if Suc i < length (crs_offsets c) then
        let s = crs_offsets c ! i; e = crs_offsets c ! (i + 1) in
        if s \<le> e \<and> e \<le> length (crs_indices c) then ok (take (e - s) (drop s (crs_indices c)))
        else fail Undefined
      else fail Undefined)"

definition crs_at :: "('b) crs_scheme \<Rightarrow> nat \<Rightarrow> nat list outcome" where
  "crs_at c i = require (i < crs_size c) (crs_row c i)"

definition crs_append :: "nat list \<Rightarrow> ('b) crs_scheme \<Rightarrow> ('b) crs_scheme" where
  "crs_append xs c =
     (if xs = [] then c
      else let offs = (if crs_offsets c = [] then [0] else crs_offsets c) in
           c\<lparr>crs_offsets := offs @ [last offs + length xs], crs_indices := crs_indices c @ xs\<rparr>)"

definition crs_append_value :: "nat \<Rightarrow> ('b) crs_scheme \<Rightarrow> ('b) crs_scheme" where
  "crs_append_value x c = crs_append [x] c"

definition crs_push_back :: "nat list \<Rightarrow> ('b) crs_scheme \<Rightarrow> ('b) crs_scheme" where
  "crs_push_back xs c = crs_append xs c"

text \<open>The loop of \<open>erase\<close>: the ids still to delete, the new arrays and \<open>inew\<close>.\<close>

fun erase_loop ::
    "('b) crs_scheme \<Rightarrow> nat list \<Rightarrow> nat list \<Rightarrow> nat list \<Rightarrow> nat list \<Rightarrow> nat \<Rightarrow> (nat list \<times> nat list) outcome" where
  "erase_loop c [] del noffs nidx inew = ok (noffs, nidx)"
| "erase_loop c (iold # is) del noffs nidx inew =
     (if del \<noteq> [] \<and> hd del = iold then erase_loop c is (tl del) noffs nidx inew
      else and_then (crs_row c iold) (\<lambda>row.
        let nidx = nidx @ row in
        if inew + 1 < length noffs
        then erase_loop c is del (noffs[inew + 1 := length nidx]) nidx (inew + 1)
        else fail Undefined))"

definition crs_erase :: "nat list \<Rightarrow> ('b) crs_scheme \<Rightarrow> ('b) crs_scheme outcome" where
  "crs_erase ids c =
     (if ids = [] then ok c
      else require (sorted ids)
        (if length (crs_offsets c) < length ids then fail Length_error
         else if length (crs_offsets c) = length ids then fail Undefined
         else and_then (erase_loop c [0..<crs_size c] ids (replicate (length (crs_offsets c) - length ids) 0) [] 0)
           (\<lambda>(noffs, nidx). ok (c\<lparr>crs_offsets := noffs, crs_indices := nidx\<rparr>))))"

subsection \<open>Rows\<close>

definition crs_of :: "nat list list \<Rightarrow> crs" where
  "crs_of rows = \<lparr>crs_offsets = offsets_of rows, crs_indices = concat rows\<rparr>"

lemma crs_of_simps [simp]:
  "crs_offsets (crs_of rows) = offsets_of rows" "crs_indices (crs_of rows) = concat rows"
  by (simp_all add: crs_of_def)

lemma crs_size_rows [simp]: "crs_size (crs_of rows) = length rows"
  by (simp add: crs_size_def)

lemma crs_row_rows: "i < length rows \<Longrightarrow> crs_row (crs_of rows) i = ok (rows ! i)"
proof -
  assume i: "i < length rows"
  have c: "concat rows = concat (take i rows) @ rows ! i @ concat (drop (Suc i) rows)"
    by (rule concat_split[OF i])
  have "offsets_of rows ! i = length (concat (take i rows))"
    "offsets_of rows ! Suc i = length (concat (take i rows)) + length (rows ! i)"
    using i by (simp_all add: offsets_of_nth take_Suc_conv_app_nth)
  moreover have "length (concat (take i rows)) + length (rows ! i) \<le> length (concat rows)"
    using arg_cong[OF c, of length] by simp
  moreover have "take (length (rows ! i)) (drop (length (concat (take i rows))) (concat rows)) = rows ! i"
    using arg_cong[OF c, of "\<lambda>xs. take (length (rows ! i)) (drop (length (concat (take i rows))) xs)"] by simp
  ultimately show ?thesis using i by (simp add: crs_row_def Let_def)
qed

lemma crs_append_rows: "crs_append xs (crs_of rows) = (if xs = [] then crs_of rows else crs_of (rows @ [xs]))"
  by (simp add: crs_append_def Let_def last_offsets_of crs_of_def offsets_of_snoc)

lemma crs_append_new: "xs \<noteq> [] \<Longrightarrow> crs_append xs crs_new = crs_of [xs]"
  by (simp add: crs_append_def crs_new_def crs_of_def offsets_of_def)

text \<open>
  \<open>push_back\<close> of a row that is not empty appends that row, but an empty row leaves the structure
  unchanged, so after pushing a sequence of rows \<open>size()\<close> counts the non-empty ones only and the
  rows behind an empty one have shifted.
\<close>

theorem crs_push_back_skips_empty:
  "fold crs_push_back rows (crs_of []) = crs_of (filter (\<lambda>r. r \<noteq> []) rows) \<and>
   crs_size (fold crs_push_back rows (crs_of [])) = length (filter (\<lambda>r. r \<noteq> []) rows)"
proof -
  have "fold crs_push_back rows (crs_of pre) = crs_of (pre @ filter (\<lambda>r. r \<noteq> []) rows)" for pre
    by (induction rows arbitrary: pre) (auto simp: crs_push_back_def crs_append_rows)
  from this[of "[]"] show ?thesis by simp
qed

text \<open>The invariant of \<open>erase\<close>: the rows kept so far are in place in the new arrays.\<close>

lemma nths_keep_snoc:
  "nths (xs @ [x]) {i. i \<notin> S} = nths xs {i. i \<notin> S} @ (if length xs \<in> S then [] else [x])"
  by (simp add: nths_append)

lemma erase_loop_rows:
  assumes "sorted_wrt (<) ids" "set ids \<subseteq> {..<length rows}"
  shows "k \<le> length rows \<Longrightarrow> del = dropWhile (\<lambda>i. i < k) ids \<Longrightarrow>
    kept = nths (take k rows) {i. i \<notin> set ids} \<Longrightarrow> inew = length kept \<Longrightarrow> nidx = concat kept \<Longrightarrow>
    length noffs = Suc (length (nths rows {i. i \<notin> set ids})) \<Longrightarrow> take (Suc inew) noffs = offsets_of kept \<Longrightarrow>
    erase_loop (crs_of rows) [k..<length rows] del noffs nidx inew
    = ok (offsets_of (nths rows {i. i \<notin> set ids}), concat (nths rows {i. i \<notin> set ids}))"
proof (induction "length rows - k" arbitrary: k del noffs nidx inew kept)
  case 0
  then show ?case by simp
next
  case (Suc n)
  let ?K = "{i. i \<notin> set ids}"
  have k: "k < length rows" using Suc.hyps(2) by simp
  have up: "[k..<length rows] = k # [Suc k..<length rows]" using k by (simp add: upt_conv_Cons)
  have take: "take (Suc k) rows = take k rows @ [rows ! k]" using k by (simp add: take_Suc_conv_app_nth)
  have hd: "del \<noteq> [] \<and> hd del = k \<longleftrightarrow> k \<in> set ids"
  proof
    assume "del \<noteq> [] \<and> hd del = k"
    then show "k \<in> set ids" using Suc.prems(2) by (metis hd_in_set set_dropWhileD)
  next
    assume kin: "k \<in> set ids"
    then have ne: "del \<noteq> []" using Suc.prems(2) by (auto simp: dropWhile_eq_Nil_conv)
    have "\<not> hd del < k" using hd_dropWhile[of "\<lambda>i. i < k" ids] ne Suc.prems(2) by simp
    moreover have "hd del \<le> k"
    proof -
      obtain ys where ids: "ids = ys @ del" using Suc.prems(2) by (metis takeWhile_dropWhile_id)
      have "k \<in> set del"
      proof -
        have "ys = takeWhile (\<lambda>i. i < k) ids" using ids Suc.prems(2) by (metis append_same_eq takeWhile_dropWhile_id)
        then have "k \<notin> set ys" by (metis less_irrefl set_takeWhileD)
        then show ?thesis using kin ids by auto
      qed
      then show ?thesis using assms(1) ids by (cases del) (auto simp: sorted_wrt_append)
    qed
    ultimately show "del \<noteq> [] \<and> hd del = k" using ne by simp
  qed
  have dropS: "dropWhile (\<lambda>i. i < Suc k) ids = (if k \<in> set ids then tl del else del)"
  proof -
    have "sorted_wrt (<) xs \<Longrightarrow> dropWhile (\<lambda>i. i < Suc k) xs
        = (if k \<in> set xs then tl (dropWhile (\<lambda>i. i < k) xs) else dropWhile (\<lambda>i. i < k) xs)" for xs :: "nat list"
    proof (induction xs)
      case (Cons x xs)
      show ?case
      proof (cases "x < k")
        case True
        then show ?thesis using Cons by auto
      next
        case False
        then have "x = k \<or> k < x" by auto
        then show ?thesis
        proof
          assume "x = k"
          moreover have "dropWhile (\<lambda>i. i < Suc k) xs = xs"
            using Cons.prems \<open>x = k\<close> by (cases xs) auto
          ultimately show ?thesis by simp
        next
          assume "k < x"
          then have "k \<notin> set (x # xs)" using Cons.prems by auto
          then show ?thesis using \<open>k < x\<close> by simp
        qed
      qed
    qed simp
    then show ?thesis using assms(1) Suc.prems(2) by blast
  qed
  show ?case
  proof (cases "k \<in> set ids")
    case True
    then have "kept = nths (take (Suc k) rows) ?K"
      using Suc.prems(3) k by (simp add: take nths_keep_snoc min_def)
    then have "erase_loop (crs_of rows) [Suc k..<length rows] (tl del) noffs nidx inew
        = ok (offsets_of (nths rows ?K), concat (nths rows ?K))"
      using Suc.hyps(2) Suc.prems k dropS True by (intro Suc.hyps(1)[of "Suc k" _ kept]) auto
    then show ?thesis using hd True by (simp add: up)
  next
    case False
    let ?kept = "kept @ [rows ! k]"
    have kept: "?kept = nths (take (Suc k) rows) ?K"
      using Suc.prems(3) k False by (simp add: take nths_keep_snoc min_def)
    have "length ?kept \<le> length (nths rows ?K)"
    proof -
      have "nths rows ?K = nths (take (Suc k) rows) ?K @ nths (drop (Suc k) rows) {j. j + length (take (Suc k) rows) \<in> ?K}"
        by (metis append_take_drop_id nths_append)
      then show ?thesis unfolding kept by simp
    qed
    then have lt: "inew + 1 < length noffs" using Suc.prems(4,6) by simp
    have offs: "take (Suc (inew + 1)) (noffs[inew + 1 := length (nidx @ rows ! k)]) = offsets_of ?kept"
    proof -
      have "take (Suc (inew + 1)) (noffs[inew + 1 := length (nidx @ rows ! k)])
          = take (inew + 1) (noffs[inew + 1 := length (nidx @ rows ! k)]) @ [length (nidx @ rows ! k)]"
        using lt by (subst take_Suc_conv_app_nth) auto
      then show ?thesis using Suc.prems(4,5,7) by (simp add: offsets_of_snoc)
    qed
    have "erase_loop (crs_of rows) [Suc k..<length rows] del (noffs[inew + 1 := length (nidx @ rows ! k)]) (nidx @ rows ! k) (inew + 1)
        = ok (offsets_of (nths rows ?K), concat (nths rows ?K))"
    proof (rule Suc.hyps(1)[of "Suc k" _ ?kept])
      show "del = dropWhile (\<lambda>i. i < Suc k) ids" using dropS False by simp
      show "?kept = nths (take (Suc k) rows) ?K" by (rule kept)
    qed (use Suc.hyps(2) Suc.prems(4,5,6) k offs in auto)
    then show ?thesis using hd False lt by (auto simp: up crs_row_rows[OF k] Let_def)
  qed
qed

text \<open>
  \<open>erase\<close> with ascending, distinct row numbers keeps exactly the other rows, in order.
\<close>

theorem crs_erase_keeps_others:
  assumes "sorted_wrt (<) ids" "list_all (\<lambda>i. i < length rows) ids"
  shows "crs_erase ids (crs_of rows) = ok (crs_of (nths rows {i. i \<notin> set ids}))"
proof (cases "ids = []")
  case True
  then show ?thesis by (simp add: crs_erase_def nths_all)
next
  case False
  let ?K = "{i. i \<notin> set ids}"
  have sub: "set ids \<subseteq> {..<length rows}" using assms(2) by (auto simp: list_all_iff)
  have d: "distinct ids" and s: "sorted ids" using assms(1) by (auto simp: strict_sorted_iff)
  have "card (set ids) \<le> card {..<length rows}" using sub by (intro card_mono) auto
  then have le: "length ids \<le> length rows" using d by (simp add: distinct_card)
  have "{i. i < length rows \<and> i \<in> ?K} = {..<length rows} - set ids" by auto
  then have "length (nths rows ?K) = length rows - length ids"
    using sub d by (simp add: length_nths card_Diff_subset distinct_card)
  then have "erase_loop (crs_of rows) [0..<length rows] ids (replicate (Suc (length rows) - length ids) 0) [] 0
      = ok (offsets_of (nths rows ?K), concat (nths rows ?K))"
    using le by (intro erase_loop_rows[OF assms(1) sub, where kept = "[]"])
      (auto simp: Suc_diff_le offsets_of_def dropWhile_eq_self_iff)
  then show ?thesis
    using False s le by (simp add: crs_erase_def del: replicate_Suc)
qed

lemma crs_erase_keeps_others_witness:
  "crs_erase [0, 2] (crs_of [[5], [6, 7], [8], []]) = ok (crs_of [[6, 7], []])"
proof -
  have "nths [[5::nat], [6, 7], [8], []] {i. i \<notin> set [0, 2]} = [[6, 7], []]"
    by (simp add: nths_Cons)
  then show ?thesis
    using crs_erase_keeps_others[of "[0, 2]" "[[5], [6, 7], [8], []]"] by simp
qed

end
