(* ===== verification/Coloring.thy ===== *)
theory Coloring
  imports Crs
begin

text \<open>
  The sequential part of coloring/dcrs\_utils.h: block distributions and their owner search,
  \<open>naive_coloring\<close>, and the two builders of the distributed adjacency graph that see the whole mesh
  definition, \<open>make_dcrs\<close> and \<open>make_dcrs_have_connectivity\<close>. Rank and size of the communicator and
  the mesh definition (number of entities, entities of an entity) are parameters.
\<close>

section \<open>Block distributions\<close>

definition block_size :: "nat \<Rightarrow> nat \<Rightarrow> nat \<Rightarrow> nat" where
  "block_size n p r = n div p + (if p - n mod p \<le> r then 1 else 0)"

definition subdivide :: "nat \<Rightarrow> nat \<Rightarrow> nat list \<Rightarrow> nat list outcome" where
  "subdivide nelem npart dist =
     (if npart = 0 then fail Undefined
      else ok (fold (\<lambda>r dist. dist @ [dist ! r + block_size nelem npart r]) [0..<npart] (dist @ [0])))"

text \<open>\<open>std::upper_bound\<close> on an ascending range: the first position whose element is greater.\<close>

definition upper_bound :: "nat list \<Rightarrow> nat \<Rightarrow> nat" where
  "upper_bound xs i = length (takeWhile (\<lambda>d. \<not> i < d) xs)"

definition rank_owner :: "nat list \<Rightarrow> nat \<Rightarrow> nat outcome" where
  "rank_owner dist i =
     (let it = upper_bound dist i in require (it \<noteq> length dist) (ok ((it + (2 ^ 64 - 1)) mod 2 ^ 64)))"

definition owned_by :: "nat list \<Rightarrow> nat \<Rightarrow> nat \<Rightarrow> bool" where
  "owned_by dist i owner =
     (if i < dist ! owner then False else if i < dist ! (owner + 1) then True else False)"

definition naive_coloring :: "nat \<Rightarrow> nat \<Rightarrow> nat \<Rightarrow> nat set" where
  "naive_coloring n ranks rank =
     (let init_indices = block_size n ranks rank;
          offset = fold (\<lambda>r offset. offset + block_size n ranks r) [0..<rank] 0
      in fold (\<lambda>i. insert (offset + i)) [0..<init_indices] {})"

definition block_start :: "nat \<Rightarrow> nat \<Rightarrow> nat \<Rightarrow> nat" where
  "block_start n p r = r * (n div p) + (r - (p - n mod p))"

lemma block_start_0 [simp]: "block_start n p 0 = 0"
  by (simp add: block_start_def)

lemma block_start_Suc: "block_start n p (Suc r) = block_start n p r + block_size n p r"
  by (auto simp: block_start_def block_size_def)

lemma block_start_end: "0 < p \<Longrightarrow> block_start n p p = n"
proof -
  assume "0 < p"
  then have "n mod p < p" by simp
  then show ?thesis by (simp add: block_start_def)
qed

lemma block_start_mono: "r \<le> s \<Longrightarrow> block_start n p r \<le> block_start n p s"
  by (auto simp: block_start_def intro!: add_mono mult_le_mono1)

definition blocks :: "nat \<Rightarrow> nat \<Rightarrow> nat list" where
  "blocks n p = map (block_start n p) [0..<Suc p]"

lemma blocks_props:
  "length (blocks n p) = Suc p" "r \<le> p \<Longrightarrow> blocks n p ! r = block_start n p r" "sorted (blocks n p)"
  "0 < p \<Longrightarrow> last (blocks n p) = n"
  by (simp_all add: blocks_def block_start_mono sorted_iff_nth_mono block_start_end del: upt_Suc)
    (simp add: block_start_end)

lemma fold_blocks:
  "fold (\<lambda>r dist. dist @ [dist ! r + block_size n p r]) [0..<k] [0] = map (block_start n p) [0..<Suc k]"
  by (induction k) (auto simp: nth_append block_start_Suc)

lemma subdivide_blocks: "0 < p \<Longrightarrow> subdivide n p [] = ok (blocks n p)"
  by (simp add: subdivide_def blocks_def fold_blocks del: upt_Suc)

lemma upper_bound_props:
  assumes "sorted xs" "i < last xs" "xs \<noteq> []" "xs ! 0 \<le> i"
  shows "0 < upper_bound xs i \<and> upper_bound xs i < length xs \<and>
    xs ! (upper_bound xs i - 1) \<le> i \<and> i < xs ! upper_bound xs i"
proof -
  let ?P = "\<lambda>d. \<not> i < d"
  have "takeWhile ?P xs \<noteq> xs" using assms(2,3) by (metis last_in_set takeWhile_eq_all_conv)
  then have lt: "upper_bound xs i < length xs"
    unfolding upper_bound_def by (metis length_takeWhile_le le_neq_implies_less takeWhile_eq_take take_all_iff)
  then have gt: "i < xs ! upper_bound xs i"
    unfolding upper_bound_def using nth_length_takeWhile[of ?P xs] by auto
  have pos: "0 < upper_bound xs i"
    using assms(3,4) by (cases xs) (auto simp: upper_bound_def)
  have "xs ! (upper_bound xs i - 1) = takeWhile ?P xs ! (upper_bound xs i - 1)"
    using pos unfolding upper_bound_def by (simp add: takeWhile_nth)
  moreover have "takeWhile ?P xs ! (upper_bound xs i - 1) \<in> set (takeWhile ?P xs)"
    using pos unfolding upper_bound_def by simp
  ultimately have "xs ! (upper_bound xs i - 1) \<le> i" by (metis not_less set_takeWhileD)
  then show ?thesis using lt gt pos by blast
qed

lemma owned_by_unique:
  assumes "sorted dist" "q < length dist - 1" "r < length dist - 1" "owned_by dist i q" "owned_by dist i r"
  shows "q = r"
proof (rule ccontr)
  assume "q \<noteq> r"
  have A: False if "q < r" "r < length dist - 1" "owned_by dist i q" "owned_by dist i r" for q r
  proof -
    have "dist ! (q + 1) \<le> dist ! r" using assms(1) that by (intro sorted_nth_mono) auto
    then show False using that by (auto simp: owned_by_def split: if_splits)
  qed
  show False using A[of q r] A[of r q] assms \<open>q \<noteq> r\<close> by (cases "q < r") auto
qed

lemma rank_owner_correct:
  assumes "sorted dist" "dist \<noteq> []" "dist ! 0 = 0" "i < last dist" "length dist < 2 ^ 64"
  shows "\<exists>r. rank_owner dist i = ok r \<and> r < length dist - 1 \<and> owned_by dist i r"
proof -
  let ?u = "upper_bound dist i"
  have u: "0 < ?u" "?u < length dist" "dist ! (?u - 1) \<le> i" "i < dist ! ?u"
    using upper_bound_props[OF assms(1,4,2)] assms(3) by auto
  have "(?u + (2 ^ 64 - 1)) mod 2 ^ 64 = ?u - 1"
  proof -
    have "?u + (2 ^ 64 - 1) = (?u - 1) + 2 ^ 64" using u(1) by simp
    then show ?thesis using u(2) assms(5) by (simp only: mod_add_self2) simp
  qed
  then have "rank_owner dist i = ok (?u - 1)" using u(2) by (simp add: rank_owner_def Let_def)
  then show ?thesis using u by (auto simp: owned_by_def)
qed

text \<open>
  C32: \<open>subdivide\<close> cuts \<open>n\<close> elements into \<open>p\<close> consecutive blocks that start at 0, end at \<open>n\<close>,
  and differ by at most one in ranks; \<open>rank_owner\<close> finds, for every element, the block that owns it,
  and no other block does.
\<close>

theorem subdivide_rank_owner:
  assumes "0 < p" "p < 2 ^ 64 - 1"
  shows "\<exists>dist. subdivide n p [] = ok dist \<and> length dist = p + 1 \<and> sorted dist \<and> dist ! 0 = 0 \<and> dist ! p = n \<and>
    (\<forall>r<p. dist ! (r + 1) = dist ! r + n div p \<or> dist ! (r + 1) = dist ! r + n div p + 1) \<and>
    (\<forall>i<n. \<exists>r<p. rank_owner dist i = ok r \<and> owned_by dist i r \<and> (\<forall>q<p. owned_by dist i q \<longrightarrow> q = r))"
proof (rule exI[of _ "blocks n p"], intro conjI allI impI)
  show "subdivide n p [] = ok (blocks n p)" by (rule subdivide_blocks[OF assms(1)])
  show "length (blocks n p) = p + 1" "sorted (blocks n p)" "blocks n p ! 0 = 0" "blocks n p ! p = n"
    using assms(1) by (simp_all add: blocks_props block_start_end)
  show "blocks n p ! (r + 1) = blocks n p ! r + n div p \<or> blocks n p ! (r + 1) = blocks n p ! r + n div p + 1"
    if "r < p" for r
    using that by (simp add: blocks_props block_start_Suc) (auto simp: block_size_def)
  fix i assume i: "i < n"
  have "\<exists>r. rank_owner (blocks n p) i = ok r \<and> r < length (blocks n p) - 1 \<and> owned_by (blocks n p) i r"
    using assms i by (intro rank_owner_correct) (simp_all add: blocks_props flip: length_0_conv)
  then obtain r where r: "rank_owner (blocks n p) i = ok r" "r < p" "owned_by (blocks n p) i r"
    by (auto simp: blocks_props)
  have "q = r" if "q < p" "owned_by (blocks n p) i q" for q
    by (rule owned_by_unique[OF blocks_props(3) _ _ that(2) r(3)]) (use that(1) r(2) in \<open>simp_all add: blocks_props\<close>)
  then show "\<exists>r<p. rank_owner (blocks n p) i = ok r \<and> owned_by (blocks n p) i r \<and>
      (\<forall>q<p. owned_by (blocks n p) i q \<longrightarrow> q = r)"
    using r by blast
qed

lemma subdivide_rank_owner_witness:
  "\<exists>dist. subdivide 11 4 [] = ok dist \<and> dist ! 4 = 11 \<and>
    (\<exists>r<4. rank_owner dist 7 = ok r \<and> owned_by dist 7 r)"
proof -
  obtain dist where d: "subdivide 11 4 [] = ok dist" "dist ! 4 = 11"
    "\<forall>i<11. \<exists>r<4. rank_owner dist i = ok r \<and> owned_by dist i r \<and> (\<forall>q<4. owned_by dist i q \<longrightarrow> q = r)"
    using subdivide_rank_owner[of 4 11] by auto
  show ?thesis using d(1,2) d(3)[rule_format, of 7] by auto
qed

lemma fold_block_size: "fold (\<lambda>r offset. offset + block_size n p r) [0..<k] 0 = block_start n p k"
  by (induction k) (simp_all add: block_start_Suc)

lemma fold_insert_run: "fold (\<lambda>i. insert (b + i)) [0..<k] {} = {b..<b + k}" for b k :: nat
  by (induction k) (simp_all add: atLeastLessThanSuc)

lemma naive_coloring_block: "naive_coloring n p r = {block_start n p r..<block_start n p (Suc r)}"
  unfolding naive_coloring_def Let_def fold_block_size fold_insert_run block_start_Suc ..

text \<open>
  the naive colorings of the ranks partition the entities: every entity has exactly one color,
  and the color classes are the blocks of \<open>subdivide\<close>.
\<close>

theorem naive_coloring_partitions:
  assumes "0 < ranks"
  shows "(\<Union>rank\<in>{..<ranks}. naive_coloring n ranks rank) = {..<n} \<and>
    (\<forall>rank<ranks. \<forall>other<ranks. rank \<noteq> other \<longrightarrow> naive_coloring n ranks rank \<inter> naive_coloring n ranks other = {}) \<and>
    (\<forall>rank<ranks. naive_coloring n ranks rank = {blocks n ranks ! rank..<blocks n ranks ! (rank + 1)})"
proof (intro conjI allI impI)
  have "(\<Union>rank\<in>{..<k}. naive_coloring n ranks rank) = {..<block_start n ranks k}" for k
  proof (induction k)
    case (Suc k)
    have "{..<block_start n ranks k} \<union> {block_start n ranks k..<block_start n ranks (Suc k)} = {..<block_start n ranks (Suc k)}"
      using block_start_mono[of k "Suc k" n ranks] by (intro ivl_disj_un_one) simp
    then show ?case using Suc by (simp only: lessThan_Suc UN_insert naive_coloring_block Un_commute)
  qed simp
  from this[of ranks] show "(\<Union>rank\<in>{..<ranks}. naive_coloring n ranks rank) = {..<n}"
    using block_start_end[OF assms] by simp
  show "naive_coloring n ranks rank = {blocks n ranks ! rank..<blocks n ranks ! (rank + 1)}" if "rank < ranks" for rank
    using that by (simp add: naive_coloring_block blocks_props)
  show "naive_coloring n ranks rank \<inter> naive_coloring n ranks other = {}" if ne: "rank \<noteq> other" for rank other
  proof -
    have A: "{block_start n ranks r..<block_start n ranks (Suc r)} \<inter> {block_start n ranks q..<block_start n ranks (Suc q)} = {}"
      if "r < q" for r q
      using block_start_mono[of "Suc r" q n ranks] that by simp
    show ?thesis
      using A[of rank other] A[of other rank] ne unfolding naive_coloring_block by (cases "rank < other") (simp_all add: Int_commute)
  qed
qed

lemma naive_coloring_partitions_witness:
  "(\<Union>rank\<in>{..<3}. naive_coloring 8 3 rank) = {..<8} \<and> naive_coloring 8 3 0 \<inter> naive_coloring 8 3 2 = {}"
proof -
  have "(\<Union>rank\<in>{..<3}. naive_coloring 8 3 rank) = {..<8} \<and>
      (\<forall>rank<3. \<forall>other<3. rank \<noteq> other \<longrightarrow> naive_coloring 8 3 rank \<inter> naive_coloring 8 3 other = {}) \<and>
      (\<forall>rank<3. naive_coloring 8 3 rank = {blocks 8 3 ! rank..<blocks 8 3 ! (rank + 1)})"
    by (rule naive_coloring_partitions) simp
  then show ?thesis by (elim conjE allE[of _ 0] allE[of _ 2] impE) auto
qed


section \<open>make\_dcrs\<close>

text \<open>
  The mesh definition \<open>md\<close> is seen through \<open>num\<close>, the number of entities of the from-dimension,
  and \<open>vertices\<close>, the vertices of an entity. The two maps of the code are std::map.
\<close>

text \<open>\<open>m[k]\<close> of a map of vectors: a missing key is an empty vector.\<close>

definition row_of :: "(nat, nat list) std_map \<Rightarrow> nat \<Rightarrow> nat list" where
  "row_of m c = (case map_of m c of None \<Rightarrow> [] | Some cs \<Rightarrow> cs)"

lemma row_of_modify: "row_of (std_modify [] k f m) c = (if c = k then f (row_of m k) else row_of m c)"
  by (simp add: map_of_std_modify row_of_def)

lemma row_of_Nil [simp]: "row_of [] c = []"
  by (simp add: row_of_def)

definition count_sharing :: "nat \<Rightarrow> nat \<Rightarrow>
    (nat, nat list) std_map \<times> (nat, nat) std_map \<Rightarrow> (nat, nat list) std_map \<times> (nat, nat) std_map" where
  "count_sharing cell vertex = (\<lambda>(vertex2cells, cell_counts).
     let vertex2cells = std_modify [] vertex (\<lambda>cs. cs @ [cell]) vertex2cells;
         others = row_of vertex2cells vertex
     in (vertex2cells, fold (\<lambda>other counts. if other \<noteq> cell then std_modify 0 other (\<lambda>n. n + 1) counts else counts)
           others cell_counts))"

definition link_cells :: "nat \<Rightarrow> nat \<Rightarrow> (nat \<times> nat) \<Rightarrow> (nat, nat list) std_map \<Rightarrow> (nat, nat list) std_map" where
  "link_cells thru_dim cell = (\<lambda>(other, n) cell2cells.
     if thru_dim < n
     then std_modify [] other (\<lambda>cs. cs @ [cell]) (std_modify [] cell (\<lambda>cs. cs @ [other]) cell2cells)
     else cell2cells)"

definition make_dcrs_cell :: "nat \<Rightarrow> (nat \<Rightarrow> nat list) \<Rightarrow> nat \<Rightarrow>
    (nat, nat list) std_map \<times> (nat, nat list) std_map \<Rightarrow> (nat, nat list) std_map \<times> (nat, nat list) std_map" where
  "make_dcrs_cell thru_dim vertices cell = (\<lambda>(vertex2cells, cell2cells).
     let (vertex2cells, cell_counts) = fold (count_sharing cell) (vertices cell) (vertex2cells, [])
     in (vertex2cells, fold (link_cells thru_dim cell) cell_counts cell2cells))"

text \<open>The last loop: \<open>offsets[i] + size\<close> after the indices of row \<open>i\<close>; \<open>cell2cells[cell]\<close> is
  empty for a cell without neighbours.\<close>

definition push_row :: "(nat \<Rightarrow> nat list) \<Rightarrow> nat \<Rightarrow> nat \<Rightarrow> dcrs \<Rightarrow> dcrs" where
  "push_row row start i d =
     d\<lparr>crs_indices := crs_indices d @ row (start + i),
       crs_offsets := crs_offsets d @ [crs_offsets d ! i + length (row (start + i))]\<rparr>"

definition block_distribution :: "nat \<Rightarrow> nat \<Rightarrow> nat list \<Rightarrow> nat list" where
  "block_distribution n ranks dist =
     fold (\<lambda>r dist. dist @ [dist ! r + block_size n ranks r]) [0..<ranks] (dist @ [0])"

definition make_dcrs :: "nat \<Rightarrow> nat \<Rightarrow> nat \<Rightarrow> nat \<Rightarrow> (nat \<Rightarrow> nat list) \<Rightarrow> dcrs" where
  "make_dcrs ranks rank thru_dim num vertices =
     (let dist = block_distribution num ranks [];
          (vertex2cells, cell2cells) = fold (make_dcrs_cell thru_dim vertices) [0..<num] ([], []);
          row = row_of cell2cells
      in fold (push_row row (dist ! rank)) [0..<block_size num ranks rank]
           \<lparr>crs_offsets = [0], crs_indices = [], distribution = dist\<rparr>)"

text \<open>\<open>make_dcrs_have_connectivity\<close>, with \<open>through\<close> the entities of the intermediate dimension of
  a cell and \<open>onto\<close> the target entities of an intermediate one.\<close>

definition collect_others :: "bool \<Rightarrow> (nat \<Rightarrow> nat list) \<Rightarrow> (nat \<Rightarrow> nat list) \<Rightarrow> nat \<Rightarrow> nat list" where
  "collect_others same_dim through onto cell =
     fold (\<lambda>vertex acc. fold (\<lambda>other acc. if same_dim then (if cell \<noteq> other then acc @ [other] else acc)
         else acc @ [other]) (onto vertex) acc) (through cell) []"

definition unique_adj :: "nat list \<Rightarrow> nat list" where
  "unique_adj xs = remdups_adj xs"

definition make_dcrs_have_connectivity ::
    "nat \<Rightarrow> nat \<Rightarrow> bool \<Rightarrow> nat \<Rightarrow> (nat \<Rightarrow> nat list) \<Rightarrow> (nat \<Rightarrow> nat list) \<Rightarrow> dcrs \<Rightarrow> dcrs" where
  "make_dcrs_have_connectivity ranks rank same_dim num through onto d =
     (let dist = block_distribution num ranks (distribution d);
          cell2other = (\<lambda>cell. collect_others same_dim through onto cell);
          row = (\<lambda>cell. unique_adj (sort (cell2other cell)))
      in fold (push_row row (dist ! rank)) [0..<block_size num ranks rank]
           (d\<lparr>crs_offsets := crs_offsets d @ [0], distribution := dist\<rparr>))"

subsection \<open>The rows\<close>

definition dcrs_of :: "nat list list \<Rightarrow> nat list \<Rightarrow> dcrs" where
  "dcrs_of rows dist = \<lparr>crs_offsets = offsets_of rows, crs_indices = concat rows, distribution = dist\<rparr>"

lemma push_rows:
  "fold (push_row row s) [0..<k] \<lparr>crs_offsets = [0], crs_indices = [], distribution = dist\<rparr>
   = dcrs_of (map (\<lambda>i. row (s + i)) [0..<k]) dist"
proof (induction k)
  case 0
  show ?case by (simp add: dcrs_of_def offsets_of_def)
next
  case (Suc k)
  then show ?case
    by (simp add: dcrs_of_def push_row_def offsets_of_snoc offsets_of_nth)
qed

lemma block_distribution_blocks: "block_distribution n ranks [] = blocks n ranks"
  by (simp add: block_distribution_def blocks_def fold_blocks del: upt_Suc)

text \<open>How many vertices of a cell another one has, and the neighbours of a cell among the first
  \<open>k\<close> cells, ascending.\<close>

definition sharing :: "(nat \<Rightarrow> nat list) \<Rightarrow> nat \<Rightarrow> nat \<Rightarrow> nat" where
  "sharing vertices c d = length (filter (\<lambda>v. v \<in> set (vertices d)) (vertices c))"

definition neighbours :: "nat \<Rightarrow> (nat \<Rightarrow> nat list) \<Rightarrow> nat \<Rightarrow> nat \<Rightarrow> nat list" where
  "neighbours thru_dim vertices k c = filter (\<lambda>d. d \<noteq> c \<and> thru_dim < sharing vertices c d) [0..<k]"

lemma sharing_sym:
  assumes "distinct (vertices c)" "distinct (vertices d)"
  shows "sharing vertices c d = sharing vertices d c"
proof -
  have "sharing vertices a b = card (set (vertices a) \<inter> set (vertices b))" if "distinct (vertices a)" for a b
    using that unfolding sharing_def
    by (subst distinct_card[symmetric]) (auto intro: arg_cong[of _ _ card])
  then show ?thesis using assms by (simp add: Int_commute)
qed

lemma fold_count_others:
  "map_of (fold (\<lambda>other counts. if other \<noteq> cell then std_modify 0 other (\<lambda>n. n + 1) counts else counts) others counts) d
   = (if d \<noteq> cell \<and> d \<in> set others
      then Some ((case map_of counts d of None \<Rightarrow> 0 | Some n \<Rightarrow> n) + count_list others d)
      else map_of counts d)"
  by (induction others arbitrary: counts) (auto simp: map_of_std_modify split: option.splits)

lemma fold_count_wf:
  "std_wf counts \<Longrightarrow>
   std_wf (fold (\<lambda>other counts. if other \<noteq> cell then std_modify 0 other (\<lambda>n. n + 1) counts else counts) others counts)"
  by (induction others arbitrary: counts) auto

text \<open>The invariant of the first map: after the cells below \<open>k\<close>, a vertex maps to its cells,
  ascending.\<close>

definition v2c_inv :: "(nat \<Rightarrow> nat list) \<Rightarrow> nat \<Rightarrow> (nat, nat list) std_map \<Rightarrow> bool" where
  "v2c_inv vertices k m \<longleftrightarrow> (\<forall>v. row_of m v
     = filter (\<lambda>c. v \<in> set (vertices c)) [0..<k])"

lemma count_list_distinct: "distinct xs \<Longrightarrow> count_list xs x = (if x \<in> set xs then 1 else 0)"
  by (induction xs) auto

lemma count_sharing_fold:
  assumes "distinct vs" "set vs \<subseteq> set (vertices k)"
    and "\<forall>v. row_of m v = filter (\<lambda>c. v \<in> set (vertices c)) [0..<k] @ (if v \<in> D then [k] else [])"
    and "set vs \<inter> D = {}" "std_wf counts"
  shows "\<exists>m' counts'. fold (count_sharing k) vs (m, counts) = (m', counts') \<and> std_wf counts' \<and>
    (\<forall>v. row_of m' v
       = filter (\<lambda>c. v \<in> set (vertices c)) [0..<k] @ (if v \<in> D \<union> set vs then [k] else [])) \<and>
    (\<forall>d. (case map_of counts' d of None \<Rightarrow> 0 | Some n \<Rightarrow> n) = (case map_of counts d of None \<Rightarrow> 0 | Some n \<Rightarrow> n) +
       (if d < k then length (filter (\<lambda>v. v \<in> set (vertices d)) vs) else 0))"
  using assms
proof (induction vs arbitrary: m counts D)
  case Nil
  then show ?case by simp
next
  case (Cons v vs)
  let ?n = "\<lambda>c d. case map_of c d of None \<Rightarrow> 0 | Some n \<Rightarrow> (n::nat)"
  define m1 where "m1 = std_modify [] v (\<lambda>cs. cs @ [k]) m"
  have vD: "v \<notin> D" using Cons.prems(4) by auto
  have at1: "row_of m1 v = filter (\<lambda>c. v \<in> set (vertices c)) [0..<k] @ [k]"
    using Cons.prems(3) vD by (simp add: m1_def row_of_modify)
  define c1 where "c1 = fold (\<lambda>other counts. if other \<noteq> k then std_modify 0 other (\<lambda>n. n + 1) counts else counts) (row_of m1 v) counts"
  have step: "count_sharing k v (m, counts) = (m1, c1)"
    by (simp add: count_sharing_def m1_def c1_def Let_def)
  have wf1: "std_wf c1" unfolding c1_def by (rule fold_count_wf[OF Cons.prems(5)])
  have inv1: "\<forall>w. row_of m1 w = filter (\<lambda>c. w \<in> set (vertices c)) [0..<k] @ (if w \<in> insert v D then [k] else [])"
    using Cons.prems(3) at1 by (auto simp: m1_def row_of_modify)
  have n1: "?n c1 d = ?n counts d + (if d < k \<and> v \<in> set (vertices d) then 1 else 0)" for d
  proof -
    have "distinct (row_of m1 v)" unfolding at1 by simp
    then show ?thesis
      unfolding c1_def fold_count_others using at1 by (auto simp: count_list_distinct)
  qed
  obtain m' counts' where r: "fold (count_sharing k) vs (m1, c1) = (m', counts')" "std_wf counts'"
    "\<forall>w. row_of m' w = filter (\<lambda>c. w \<in> set (vertices c)) [0..<k] @ (if w \<in> insert v D \<union> set vs then [k] else [])"
    "\<forall>d. ?n counts' d = ?n c1 d + (if d < k then length (filter (\<lambda>v. v \<in> set (vertices d)) vs) else 0)"
    using Cons.IH[OF _ _ inv1 _ wf1] Cons.prems(1,2,4) by auto
  show ?case using step r n1 by auto
qed


lemma link_cells_fold:
  assumes "\<forall>(d, n)\<in>set counts. thru_dim < n \<longrightarrow> d \<noteq> k" "distinct (map fst counts)"
  shows "row_of (fold (link_cells thru_dim k) counts m) c =
    (if c = k then row_of m k @ map fst (filter (\<lambda>(d, n). thru_dim < n) counts)
     else row_of m c @ (if \<exists>n. (c, n) \<in> set counts \<and> thru_dim < n then [k] else []))"
  using assms
proof (induction counts arbitrary: m)
  case (Cons p counts)
  obtain d n where p: "p = (d, n)" by (cases p)
  have "row_of (fold (link_cells thru_dim k) counts m') c =
      (if c = k then row_of m' k @ map fst (filter (\<lambda>(d, n). thru_dim < n) counts)
       else row_of m' c @ (if \<exists>n. (c, n) \<in> set counts \<and> thru_dim < n then [k] else []))" for m'
    using Cons.prems by (intro Cons.IH) auto
  note IH = this
  have "d \<notin> fst ` set counts" using Cons.prems(2) p by simp
  then have d: "\<And>n'. (d, n') \<notin> set counts" by (metis fst_conv image_eqI)
  have dk: "thru_dim < n \<Longrightarrow> d \<noteq> k" using Cons.prems(1) p by simp
  show ?case
  proof (cases "thru_dim < n")
    case True
    have "fold (link_cells thru_dim k) (p # counts) m = fold (link_cells thru_dim k) counts
        (std_modify [] d (\<lambda>cs. cs @ [k]) (std_modify [] k (\<lambda>cs. cs @ [d]) m))"
      using True p by (simp add: link_cells_def)
    note step = this
    consider "c = k" | "c = d" "c \<noteq> k" | "c \<noteq> k" "c \<noteq> d" by blast
    then show ?thesis
      unfolding step IH using True p d dk by cases (auto simp: row_of_modify)
  next
    case False
    then have "fold (link_cells thru_dim k) (p # counts) m = fold (link_cells thru_dim k) counts m"
      using p by (simp add: link_cells_def)
    then show ?thesis using False p by (simp only: IH) auto
  qed
qed simp

definition c2c_inv :: "nat \<Rightarrow> (nat \<Rightarrow> nat list) \<Rightarrow> nat \<Rightarrow> (nat, nat list) std_map \<Rightarrow> bool" where
  "c2c_inv thru_dim vertices k m \<longleftrightarrow>
     (\<forall>c. row_of m c = (if c < k then neighbours thru_dim vertices k c else []))"

lemma make_dcrs_cell_inv:
  assumes "v2c_inv vertices k v2c" "c2c_inv thru_dim vertices k c2c" "\<forall>c\<le>k. distinct (vertices c)"
  shows "\<exists>v2c' c2c'. make_dcrs_cell thru_dim vertices k (v2c, c2c) = (v2c', c2c') \<and>
    v2c_inv vertices (Suc k) v2c' \<and> c2c_inv thru_dim vertices (Suc k) c2c'"
proof -
  let ?n = "\<lambda>c d. case map_of c d of None \<Rightarrow> 0 | Some n \<Rightarrow> (n::nat)"
  have pre: "\<forall>v. row_of v2c v = filter (\<lambda>c. v \<in> set (vertices c)) [0..<k] @ (if v \<in> {} then [k] else [])"
    using assms(1) by (simp add: v2c_inv_def)
  obtain v2c' counts where r: "fold (count_sharing k) (vertices k) (v2c, []) = (v2c', counts)" "std_wf counts"
    "\<forall>v. row_of v2c' v = filter (\<lambda>c. v \<in> set (vertices c)) [0..<k] @ (if v \<in> {} \<union> set (vertices k) then [k] else [])"
    "\<forall>d. ?n counts d = ?n [] d + (if d < k then length (filter (\<lambda>v. v \<in> set (vertices d)) (vertices k)) else 0)"
    using count_sharing_fold[OF _ order.refl pre, of "[]"] assms(3) by auto
  have n: "?n counts d = (if d < k then sharing vertices k d else 0)" for d
    using r(4) by (simp add: sharing_def)
  have dk: "distinct (map fst counts)" by (rule std_wf_distinct[OF r(2)])
  have mem: "(\<exists>n. (d, n) \<in> set counts \<and> thru_dim < n) \<longleftrightarrow> d < k \<and> thru_dim < sharing vertices k d" for d
  proof -
    have "(d, m) \<in> set counts \<longleftrightarrow> map_of counts d = Some m" for m by (rule map_of_eq_Some_iff[OF dk, symmetric])
    then show ?thesis using n[of d] by (cases "map_of counts d") (auto split: if_splits)
  qed
  have "map fst (filter (\<lambda>(d, n). thru_dim < n) counts) = filter (\<lambda>d. thru_dim < sharing vertices k d) [0..<k]"
  proof (rule strict_sorted_equal)
    have "sorted_wrt (<) (map fst (filter P counts))" for P
      using r(2) by (induction counts) (auto simp: std_wf_def)
    then show "sorted_wrt (<) (map fst (filter (\<lambda>(d, n). thru_dim < n) counts))" .
    show "sorted_wrt (<) (filter (\<lambda>d. thru_dim < sharing vertices k d) [0..<k])"
      by (simp add: sorted_wrt_filter)
    have "set (map fst (filter (\<lambda>(d, n). thru_dim < n) counts)) = {d. \<exists>n. (d, n) \<in> set counts \<and> thru_dim < n}"
      by force
    then show "set (map fst (filter (\<lambda>(d, n). thru_dim < n) counts)) = set (filter (\<lambda>d. thru_dim < sharing vertices k d) [0..<k])"
      using mem by auto
  qed
  note keys = this
  have "\<forall>(d, n)\<in>set counts. thru_dim < n \<longrightarrow> d \<noteq> k" using mem by blast
  note link = link_cells_fold[OF this dk, of c2c]
  have c2c: "row_of c2c c = (if c < k then neighbours thru_dim vertices k c else [])" for c
    using assms(2) by (simp add: c2c_inv_def)
  have "row_of (fold (link_cells thru_dim k) counts c2c) c
      = (if c < Suc k then neighbours thru_dim vertices (Suc k) c else [])" for c
  proof (cases "c = k")
    case True
    moreover have "filter (\<lambda>d. d \<noteq> k \<and> thru_dim < sharing vertices k d) [0..<k] = filter (\<lambda>d. thru_dim < sharing vertices k d) [0..<k]"
      by (rule filter_cong) auto
    ultimately show ?thesis unfolding link keys using c2c by (simp add: neighbours_def)
  next
    case False
    have "sharing vertices k c = sharing vertices c k" if "c < k"
      using assms(3) that by (intro sharing_sym) auto
    then show ?thesis
      unfolding link mem using False c2c[of c] by (auto simp: neighbours_def)
  qed
  then have "c2c_inv thru_dim vertices (Suc k) (fold (link_cells thru_dim k) counts c2c)" by (simp add: c2c_inv_def)
  moreover have "v2c_inv vertices (Suc k) v2c'" using r(3) by (simp add: v2c_inv_def)
  moreover have "make_dcrs_cell thru_dim vertices k (v2c, c2c) = (v2c', fold (link_cells thru_dim k) counts c2c)"
    by (simp add: make_dcrs_cell_def r(1))
  ultimately show ?thesis by blast
qed

lemma make_dcrs_cells_inv:
  assumes "\<forall>c<k. distinct (vertices c)"
  shows "\<exists>v2c c2c. fold (make_dcrs_cell thru_dim vertices) [0..<k] ([], []) = (v2c, c2c) \<and>
    v2c_inv vertices k v2c \<and> c2c_inv thru_dim vertices k c2c"
  using assms
proof (induction k)
  case 0
  show ?case by (simp add: v2c_inv_def c2c_inv_def)
next
  case (Suc k)
  then obtain v2c c2c where s: "fold (make_dcrs_cell thru_dim vertices) [0..<k] ([], []) = (v2c, c2c)"
    "v2c_inv vertices k v2c" "c2c_inv thru_dim vertices k c2c" by auto
  have "\<forall>c\<le>k. distinct (vertices c)" using Suc.prems by auto
  from make_dcrs_cell_inv[OF s(2,3) this] show ?case using s(1) by auto
qed

text \<open>
  C22: \<open>make_dcrs\<close> gives every rank the rows of its block of cells: the row of a cell lists, in
  ascending order, exactly the other cells that share more than \<open>thru_dim\<close> vertices with it.
\<close>

theorem make_dcrs_neighbours:
  assumes "\<forall>c<num. distinct (vertices c)" "rank < ranks"
  shows "make_dcrs ranks rank thru_dim num vertices = dcrs_of
    (map (\<lambda>i. neighbours thru_dim vertices num (blocks num ranks ! rank + i)) [0..<block_size num ranks rank])
    (blocks num ranks)"
proof -
  obtain v2c c2c where s: "fold (make_dcrs_cell thru_dim vertices) [0..<num] ([], []) = (v2c, c2c)"
    "c2c_inv thru_dim vertices num c2c" using make_dcrs_cells_inv[OF assms(1)] by blast
  have "block_start num ranks (Suc rank) \<le> num"
    using block_start_mono[of "Suc rank" ranks num ranks] block_start_end[of ranks num] assms(2) by simp
  then have "row_of c2c (blocks num ranks ! rank + i) = neighbours thru_dim vertices num (blocks num ranks ! rank + i)"
    if "i < block_size num ranks rank" for i
    using that assms(2) s(2) by (simp add: c2c_inv_def blocks_props block_start_Suc)
  then have "map (\<lambda>i. row_of c2c (blocks num ranks ! rank + i)) [0..<block_size num ranks rank]
      = map (\<lambda>i. neighbours thru_dim vertices num (blocks num ranks ! rank + i)) [0..<block_size num ranks rank]"
    by simp
  from arg_cong[OF this, of "\<lambda>rows. dcrs_of rows (blocks num ranks)"] show ?thesis
    by (simp only: make_dcrs_def s(1) Let_def block_distribution_blocks push_rows prod.case)
qed

text \<open>Three cells in a strip: the middle one shares an edge with each of the others.\<close>

lemma make_dcrs_neighbours_witness:
  "make_dcrs 2 1 1 3 (\<lambda>c. [c, c + 1, c + 10, c + 11]) = dcrs_of [[0, 2], [1]] (blocks 3 2)"
proof -
  have "make_dcrs 2 1 1 3 (\<lambda>c. [c, c + 1, c + 10, c + 11]) = dcrs_of
      (map (\<lambda>i. neighbours 1 (\<lambda>c. [c, c + 1, c + 10, c + 11]) 3 (blocks 3 2 ! 1 + i)) [0..<block_size 3 2 1]) (blocks 3 2)"
    by (rule make_dcrs_neighbours) auto
  also have "map (\<lambda>i. neighbours 1 (\<lambda>c. [c, c + 1, c + 10, c + 11]) 3 (blocks 3 2 ! 1 + i)) [0..<block_size 3 2 1] = [[0, 2], [1]]"
    by code_simp
  finally show ?thesis .
qed

lemma collect_others_append:
  "collect_others same_dim through onto cell =
   filter (\<lambda>other. same_dim \<longrightarrow> cell \<noteq> other) (concat (map onto (through cell)))"
proof -
  have "fold (\<lambda>other acc. if same_dim then (if cell \<noteq> other then acc @ [other] else acc) else acc @ [other]) os acc
      = acc @ filter (\<lambda>other. same_dim \<longrightarrow> cell \<noteq> other) os" for os acc
    by (induction os arbitrary: acc) auto
  then have "fold (\<lambda>vertex acc. fold (\<lambda>other acc. if same_dim then (if cell \<noteq> other then acc @ [other] else acc)
         else acc @ [other]) (onto vertex) acc) vs acc = acc @ filter (\<lambda>other. same_dim \<longrightarrow> cell \<noteq> other) (concat (map onto vs))" for vs acc
    by (induction vs arbitrary: acc) auto
  then show ?thesis by (simp add: collect_others_def)
qed

lemma unique_adj_sort: "unique_adj (sort xs) = sorted_list_of_set (set xs)"
proof -
  have "sorted_wrt (<) (remdups_adj ys)" if "sorted ys" for ys :: "nat list"
    using that by (induction ys rule: remdups_adj.induct) auto
  then have "sorted_wrt (<) (unique_adj (sort xs))" by (simp add: unique_adj_def)
  moreover have "set (unique_adj (sort xs)) = set xs" by (simp add: unique_adj_def)
  ultimately show ?thesis by (metis sorted_list_of_set.idem_if_sorted_distinct strict_sorted_iff)
qed

text \<open>
  \<open>make_dcrs_have_connectivity\<close> gives every cell of the rank's block the ascending list of all
  entities reachable through its intermediate entities, each once, the cell itself left out when the
  dimensions agree.
\<close>

theorem make_dcrs_have_connectivity_rows:
  "make_dcrs_have_connectivity ranks rank same_dim num through onto \<lparr>crs_offsets = [], crs_indices = [], distribution = []\<rparr>
   = dcrs_of (map (\<lambda>i. let cell = blocks num ranks ! rank + i in sorted_list_of_set
        {other. (\<exists>v\<in>set (through cell). other \<in> set (onto v)) \<and> \<not> (same_dim \<and> other = cell)})
      [0..<block_size num ranks rank]) (blocks num ranks)"
proof -
  have "set (collect_others same_dim through onto c)
      = {other. (\<exists>v\<in>set (through c). other \<in> set (onto v)) \<and> \<not> (same_dim \<and> other = c)}" for c
    by (auto simp: collect_others_append)
  then show ?thesis
    by (simp add: make_dcrs_have_connectivity_def block_distribution_blocks Let_def push_rows unique_adj_sort)
qed

end
