(* ===== verification/Virtual_Semaphore.thy ===== *)
theory Virtual_Semaphore
  imports Flecsi_Prelude
begin

text \<open>
  The semaphore of concurrency/virtual_semaphore.h, as a step relation.

  A thread inside an operation of the semaphore is at a program point of type
  sem_pc; every step is one statement of the source: a test of the atomic flag
  done_, an operation on mutex_, a test or an update of count_, a call of the
  condition variable.  mutex_ is the thread that holds it.  The condition
  variable is the set of the threads blocked in wait(): wait() gives mutex_ up
  and joins the set in one step, notify_one() takes one member out of it (none
  when it is empty), notify_all() empties it, and a thread out of the set takes
  mutex_ again before wait() returns.  A spurious wake-up, which the standard
  allows, is a step of its own.  The lock object is released by the return
  statements, which end in Returned; void operations end in Returned True.
  count_ is an int: it never exceeds the number of calls of release().
\<close>

record 't semaphore =
  sem_mutex :: "'t option"
  sem_waiting :: "'t set"
  sem_count :: int
  sem_max :: int
  sem_done :: bool

definition sem_new :: "int \<Rightarrow> 't semaphore" where
  "sem_new c = \<lparr>sem_mutex = None, sem_waiting = {}, sem_count = c, sem_max = 0, sem_done = False\<rparr>"

definition sem_new_bounded :: "int \<Rightarrow> int \<Rightarrow> 't semaphore" where
  "sem_new_bounded c m =
     \<lparr>sem_mutex = None, sem_waiting = {}, sem_count = c, sem_max = m, sem_done = False\<rparr>"

datatype sem_pc =
    Acq_Enter | Acq_Lock | Acq_Test | Acq_Wait | Acq_Woken | Acq_Take | Acq_Leave
  | Try_Enter | Try_Lock | Try_Test | Try_Take | Try_Leave bool
  | Rel_Enter | Rel_Inc | Rel_Notify | Rel_Leave
  | Int_Enter | Int_Notify
  | Returned bool

inductive acquire_step :: "'t \<Rightarrow> 't semaphore \<Rightarrow> sem_pc \<Rightarrow> 't semaphore \<Rightarrow> sem_pc \<Rightarrow> bool" where
  acq_refused: "sem_done m \<Longrightarrow> acquire_step t m Acq_Enter m (Returned False)"
| acq_enter: "\<not> sem_done m \<Longrightarrow> acquire_step t m Acq_Enter m Acq_Lock"
| acq_lock: "sem_mutex m = None \<Longrightarrow>
    acquire_step t m Acq_Lock (m\<lparr>sem_mutex := Some t\<rparr>) Acq_Test"
| acq_wait: "sem_count m \<le> 0 \<Longrightarrow>
    acquire_step t m Acq_Test
      (m\<lparr>sem_mutex := None, sem_waiting := insert t (sem_waiting m)\<rparr>) Acq_Wait"
| acq_wake: "t \<notin> sem_waiting m \<Longrightarrow> sem_mutex m = None \<Longrightarrow>
    acquire_step t m Acq_Wait (m\<lparr>sem_mutex := Some t\<rparr>) Acq_Woken"
| acq_interrupted: "sem_done m \<Longrightarrow>
    acquire_step t m Acq_Woken (m\<lparr>sem_mutex := None\<rparr>) (Returned False)"
| acq_again: "\<not> sem_done m \<Longrightarrow> acquire_step t m Acq_Woken m Acq_Test"
| acq_pass: "0 < sem_count m \<Longrightarrow> acquire_step t m Acq_Test m Acq_Take"
| acq_take: "acquire_step t m Acq_Take (m\<lparr>sem_count := sem_count m - 1\<rparr>) Acq_Leave"
| acq_leave: "acquire_step t m Acq_Leave (m\<lparr>sem_mutex := None\<rparr>) (Returned True)"

inductive try_acquire_step :: "'t \<Rightarrow> 't semaphore \<Rightarrow> sem_pc \<Rightarrow> 't semaphore \<Rightarrow> sem_pc \<Rightarrow> bool" where
  try_refused: "sem_done m \<Longrightarrow> try_acquire_step t m Try_Enter m (Returned False)"
| try_enter: "\<not> sem_done m \<Longrightarrow> try_acquire_step t m Try_Enter m Try_Lock"
| try_lock: "sem_mutex m = None \<Longrightarrow>
    try_acquire_step t m Try_Lock (m\<lparr>sem_mutex := Some t\<rparr>) Try_Test"
| try_pass: "0 < sem_count m \<Longrightarrow> try_acquire_step t m Try_Test m Try_Take"
| try_take: "try_acquire_step t m Try_Take (m\<lparr>sem_count := sem_count m - 1\<rparr>) (Try_Leave True)"
| try_fail: "\<not> 0 < sem_count m \<Longrightarrow> try_acquire_step t m Try_Test m (Try_Leave False)"
| try_leave: "try_acquire_step t m (Try_Leave b) (m\<lparr>sem_mutex := None\<rparr>) (Returned b)"

inductive release_step :: "'t \<Rightarrow> 't semaphore \<Rightarrow> sem_pc \<Rightarrow> 't semaphore \<Rightarrow> sem_pc \<Rightarrow> bool" where
  rel_lock: "sem_mutex m = None \<Longrightarrow>
    release_step t m Rel_Enter (m\<lparr>sem_mutex := Some t\<rparr>) Rel_Inc"
| rel_inc: "sem_max m = 0 \<or> sem_count m < sem_max m \<Longrightarrow>
    release_step t m Rel_Inc (m\<lparr>sem_count := sem_count m + 1\<rparr>) Rel_Notify"
| rel_full: "\<not> (sem_max m = 0 \<or> sem_count m < sem_max m) \<Longrightarrow>
    release_step t m Rel_Inc m Rel_Notify"
| rel_notify: "u \<in> sem_waiting m \<Longrightarrow>
    release_step t m Rel_Notify (m\<lparr>sem_waiting := sem_waiting m - {u}\<rparr>) Rel_Leave"
| rel_notify_none: "sem_waiting m = {} \<Longrightarrow> release_step t m Rel_Notify m Rel_Leave"
| rel_leave: "release_step t m Rel_Leave (m\<lparr>sem_mutex := None\<rparr>) (Returned True)"

inductive interrupt_step :: "'t \<Rightarrow> 't semaphore \<Rightarrow> sem_pc \<Rightarrow> 't semaphore \<Rightarrow> sem_pc \<Rightarrow> bool" where
  int_set: "interrupt_step t m Int_Enter (m\<lparr>sem_done := True\<rparr>) Int_Notify"
| int_notify: "interrupt_step t m Int_Notify (m\<lparr>sem_waiting := {}\<rparr>) (Returned True)"

inductive spurious_wake :: "'t semaphore \<Rightarrow> 't semaphore \<Rightarrow> bool" where
  spurious: "t \<in> sem_waiting m \<Longrightarrow> spurious_wake m (m\<lparr>sem_waiting := sem_waiting m - {t}\<rparr>)"

inductive sem_step :: "'t \<Rightarrow> 't semaphore \<Rightarrow> sem_pc \<Rightarrow> 't semaphore \<Rightarrow> sem_pc \<Rightarrow> bool" where
  sem_acquire: "acquire_step t m p m' q \<Longrightarrow> sem_step t m p m' q"
| sem_try: "try_acquire_step t m p m' q \<Longrightarrow> sem_step t m p m' q"
| sem_release: "release_step t m p m' q \<Longrightarrow> sem_step t m p m' q"
| sem_interrupt: "interrupt_step t m p m' q \<Longrightarrow> sem_step t m p m' q"

inductive_cases acquire_stepE: "acquire_step t m p m' q"
inductive_cases release_stepE: "release_step t m p m' q"
inductive_cases interrupt_stepE: "interrupt_step t m p m' q"
inductive_cases sem_stepE: "sem_step t m p m' q"

lemmas sem_step_cases =
  acquire_step.simps try_acquire_step.simps release_step.simps interrupt_step.simps

text \<open>The program points at which a thread holds mutex_.\<close>

fun in_sem :: "sem_pc \<Rightarrow> bool" where
  "in_sem p = (p \<in> {Acq_Test, Acq_Woken, Acq_Take, Acq_Leave, Try_Test, Try_Take,
     Try_Leave True, Try_Leave False, Rel_Inc, Rel_Notify, Rel_Leave})"

text \<open>
  Any threads using one semaphore: a thread between two operations is at a
  Returned point and may start any of the four.
\<close>

inductive sem_system ::
  "'t semaphore \<Rightarrow> ('t \<Rightarrow> sem_pc) \<Rightarrow> 't semaphore \<Rightarrow> ('t \<Rightarrow> sem_pc) \<Rightarrow> bool" where
  sys_call: "p t = Returned b \<Longrightarrow> q \<in> {Acq_Enter, Try_Enter, Rel_Enter, Int_Enter} \<Longrightarrow>
    sem_system m p m (p(t := q))"
| sys_step: "sem_step t m (p t) m' q \<Longrightarrow> sem_system m p m' (p(t := q))"
| sys_spurious: "spurious_wake m m' \<Longrightarrow> sem_system m p m' p"

inductive sem_reachable :: "'t semaphore \<Rightarrow> 't semaphore \<Rightarrow> ('t \<Rightarrow> sem_pc) \<Rightarrow> bool"
  for m0 :: "'t semaphore" where
  sem_start: "sem_reachable m0 m0 (\<lambda>t. Returned True)"
| sem_more: "sem_reachable m0 m p \<Longrightarrow> sem_system m p m' p' \<Longrightarrow> sem_reachable m0 m' p'"

text \<open>Facts of single steps.\<close>

lemma sem_step_own:
  "sem_step t m p m' q \<Longrightarrow> (in_sem p \<longleftrightarrow> sem_mutex m = Some t) \<Longrightarrow>
   (in_sem q \<longleftrightarrow> sem_mutex m' = Some t)"
  by (auto elim!: sem_stepE simp: sem_step_cases)

lemma sem_step_others:
  "sem_step t m p m' q \<Longrightarrow> (in_sem p \<longleftrightarrow> sem_mutex m = Some t) \<Longrightarrow> u \<noteq> t \<Longrightarrow>
   sem_mutex m' = Some u \<longleftrightarrow> sem_mutex m = Some u"
  by (auto elim!: sem_stepE simp: sem_step_cases)

lemma sem_step_count:
  "sem_step t m p m' q \<Longrightarrow> sem_count m' \<noteq> sem_count m \<Longrightarrow>
   p \<in> {Acq_Take, Try_Take} \<and> sem_count m' = sem_count m - 1 \<or>
   p = Rel_Inc \<and> sem_count m' = sem_count m + 1 \<and> (sem_max m = 0 \<or> sem_count m < sem_max m)"
  by (auto elim!: sem_stepE simp: sem_step_cases)

lemma sem_step_take:
  "sem_step t m p m' q \<Longrightarrow> q \<in> {Acq_Take, Try_Take} \<Longrightarrow> 0 < sem_count m \<and> m' = m"
  by (auto elim!: sem_stepE simp: sem_step_cases)

lemma sem_step_waiting:
  "sem_step t m p m' q \<Longrightarrow> sem_waiting m' \<subseteq> (if q = Acq_Wait then insert t (sem_waiting m) else sem_waiting m)
     \<and> (p = Acq_Wait \<longrightarrow> t \<notin> sem_waiting m)"
  by (auto elim!: sem_stepE simp: sem_step_cases)

lemma sem_step_max: "sem_step t m p m' q \<Longrightarrow> sem_max m' = sem_max m"
  by (auto elim!: sem_stepE simp: sem_step_cases)

definition sem_bounded :: "int \<Rightarrow> 't semaphore \<Rightarrow> bool" where
  "sem_bounded k m \<longleftrightarrow> sem_max m = k \<and> 0 \<le> sem_count m \<and> (0 < k \<longrightarrow> sem_count m \<le> k)"

definition sem_safe :: "int \<Rightarrow> 't semaphore \<Rightarrow> ('t \<Rightarrow> sem_pc) \<Rightarrow> bool" where
  "sem_safe k m p \<longleftrightarrow> sem_bounded k m \<and> (\<forall>t. in_sem (p t) \<longleftrightarrow> sem_mutex m = Some t) \<and>
     (\<forall>t. p t \<in> {Acq_Take, Try_Take} \<longrightarrow> 0 < sem_count m) \<and>
     sem_waiting m \<subseteq> {t. p t = Acq_Wait}"

lemma sem_safe_step:
  assumes safe: "sem_safe k m p" and step: "sem_step t m (p t) m' q"
  shows "sem_safe k m' (p(t := q))"
proof -
  note d = safe[unfolded sem_safe_def sem_bounded_def]
  have own: "in_sem (p t) \<longleftrightarrow> sem_mutex m = Some t"
    using d by blast
  have holder: "in_sem (p u) \<longleftrightarrow> sem_mutex m = Some u" for u
    using d by blast
  have mutex: "in_sem ((p(t := q)) u) \<longleftrightarrow> sem_mutex m' = Some u" for u
    using sem_step_own[OF step own] sem_step_others[OF step own, of u] holder[of u] by auto
  have bounds: "0 \<le> sem_count m' \<and> (0 < k \<longrightarrow> sem_count m' \<le> k)"
    using sem_step_count[OF step] d by (cases "sem_count m' = sem_count m") auto
  have take: "0 < sem_count m'" if u: "(p(t := q)) u \<in> {Acq_Take, Try_Take}" for u
  proof (cases "u = t")
    case True
    then show ?thesis using sem_step_take[OF step] u by auto
  next
    case False
    then have at: "p u \<in> {Acq_Take, Try_Take}" using u by simp
    then have "in_sem (p u)" by auto
    then have "\<not> in_sem (p t)" using holder own False by auto
    then have "sem_count m' = sem_count m" using sem_step_count[OF step] by auto
    then show ?thesis using at d by auto
  qed
  have "sem_waiting m' \<subseteq> {u. (p(t := q)) u = Acq_Wait}"
    using sem_step_waiting[OF step] d by (auto split: if_splits)
  then show ?thesis
    using mutex bounds take sem_step_max[OF step] d
    unfolding sem_safe_def sem_bounded_def by simp
qed

lemma sem_safe_system:
  assumes "sem_safe k m p" "sem_system m p m' p'"
  shows "sem_safe k m' p'"
  using assms(2)
proof cases
  case (sys_call t b q)
  have "\<not> in_sem q" and "\<not> in_sem (p t)"
    using sys_call by auto
  moreover have "in_sem (p u) \<longleftrightarrow> sem_mutex m = Some u" for u
    using assms(1) unfolding sem_safe_def by blast
  ultimately have "in_sem (p' u) \<longleftrightarrow> sem_mutex m' = Some u" for u
    using sys_call(1,2) by (auto simp del: in_sem.simps)
  then show ?thesis
    using assms(1) sys_call by (auto simp: sem_safe_def simp del: in_sem.simps)
next
  case (sys_step t q)
  then show ?thesis using sem_safe_step[OF assms(1)] by simp
next
  case sys_spurious
  then show ?thesis
    using assms(1) by (auto simp: sem_safe_def sem_bounded_def spurious_wake.simps)
qed

text \<open>
  C26: however the operations of any number of threads interleave, mutex_ is held
  by exactly the thread whose statement needs it, the count never becomes
  negative, a bounded semaphore never exceeds its maximum, and a thread about to
  decrement the count finds it positive.
\<close>

theorem semaphore_safe:
  assumes "sem_reachable m0 m p" and "m0 = (if k = 0 then sem_new c else sem_new_bounded c k)"
    and "0 \<le> c" and "0 < k \<longrightarrow> c \<le> k"
  shows "sem_max m = k \<and> 0 \<le> sem_count m \<and> (0 < k \<longrightarrow> sem_count m \<le> k) \<and>
    (\<forall>t. in_sem (p t) \<longleftrightarrow> sem_mutex m = Some t) \<and>
    (\<forall>t. p t \<in> {Acq_Take, Try_Take} \<longrightarrow> 0 < sem_count m)"
proof -
  have start: "sem_safe k m0 (\<lambda>t. Returned True)"
    using assms(2,3,4) by (simp add: sem_safe_def sem_bounded_def sem_new_def sem_new_bounded_def)
  have "sem_safe k m p"
    using assms(1) by induction (rule start, rule sem_safe_system)
  then show ?thesis
    by (simp add: sem_safe_def sem_bounded_def)
qed

theorem semaphore_safe_witness:
  "sem_reachable (sem_new_bounded 1 1) (sem_new_bounded 1 1)
     ((\<lambda>t. Returned True)((0::nat) := Acq_Enter)) \<and>
   sem_count (sem_new_bounded 1 1 :: nat semaphore) \<le> 1"
proof (rule conjI)
  show reached: "sem_reachable (sem_new_bounded 1 1) (sem_new_bounded 1 1)
     ((\<lambda>t. Returned True)((0::nat) := Acq_Enter))"
    by (rule sem_more, rule sem_start, rule sys_call) simp_all
  show "sem_count (sem_new_bounded 1 1 :: nat semaphore) \<le> 1"
    using semaphore_safe[OF reached, of 1 1] by simp
qed

end
