(* ===== verification/Thread_Pool.thy ===== *)
theory Thread_Pool
  imports Virtual_Semaphore "HOL-Library.Multiset"
begin

text \<open>
  The thread pool of concurrency/thread_pool.h over the semaphore, as a step
  relation.

  Worker i is the i-th thread start() creates, and runs run_(); the other
  threads are clients, each between two calls (Idle) or inside queue(), start()
  or join().  A step is one statement; a call of a semaphore operation is the
  sequence of its steps.  A task is any value: running it is one step that
  appends it to ran.  run_() discards what acquire() returns; the program points
  after it keep the value so that proofs can refer to it, and no step looks at
  it.  front() of an empty queue, a second start() and joining a thread that was
  joined before are faults.  taken and submitted record the history of the queue.
\<close>

datatype thread = Worker nat | Client nat

datatype pool_fault = Empty_Front | Started_Twice | Joined_Twice

datatype 'f pool_pc =
    Not_Created | Idle
  | Run_Acquire sem_pc | Run_Lock bool | Run_Test bool | Run_Quit bool | Run_Front bool
  | Run_Pop 'f | Run_Unlock 'f | Run_Call 'f | Run_Ended bool
  | Queue_Lock 'f | Queue_Emplace 'f | Queue_Unlock | Queue_Release sem_pc
  | Start_Test nat | Start_Loop nat
  | Join_Test | Join_Set | Join_Interrupt sem_pc | Join_Loop nat | Join_Ended

record 'f pool =
  pool_mutex :: "thread option"
  pool_queue :: "'f list"
  pool_threads :: "thread list"
  pool_sem :: "thread semaphore"
  pool_done :: bool
  pool_at :: "thread \<Rightarrow> 'f pool_pc"
  pool_joined :: "thread set"
  pool_fault :: "pool_fault option"
  submitted :: "'f list"
  taken :: "'f list"
  ran :: "'f list"

definition pool_new :: "'f pool" where
  "pool_new = \<lparr>pool_mutex = None, pool_queue = [], pool_threads = [], pool_sem = sem_new 0,
     pool_done = False,
     pool_at = (\<lambda>t. case t of Worker i \<Rightarrow> Not_Created | Client i \<Rightarrow> Idle),
     pool_joined = {}, pool_fault = None, submitted = [], taken = [], ran = []\<rparr>"

definition goto :: "thread \<Rightarrow> 'f pool_pc \<Rightarrow> 'f pool \<Rightarrow> 'f pool" where
  "goto t p s = s\<lparr>pool_at := (pool_at s)(t := p)\<rparr>"

text \<open>The worker: the body of run_().\<close>

inductive run_step :: "thread \<Rightarrow> 'f pool \<Rightarrow> 'f pool \<Rightarrow> bool" where
  run_acquire: "pool_at s t = Run_Acquire p \<Longrightarrow> acquire_step t (pool_sem s) p m q \<Longrightarrow>
    run_step t s (goto t (Run_Acquire q) (s\<lparr>pool_sem := m\<rparr>))"
| run_acquired: "pool_at s t = Run_Acquire (Returned b) \<Longrightarrow> run_step t s (goto t (Run_Lock b) s)"
| run_lock: "pool_at s t = Run_Lock b \<Longrightarrow> pool_mutex s = None \<Longrightarrow>
    run_step t s (goto t (Run_Test b) (s\<lparr>pool_mutex := Some t\<rparr>))"
| run_done: "pool_at s t = Run_Test b \<Longrightarrow> pool_done s \<Longrightarrow> run_step t s (goto t (Run_Quit b) s)"
| run_quit: "pool_at s t = Run_Quit b \<Longrightarrow>
    run_step t s (goto t (Run_Ended b) (s\<lparr>pool_mutex := None\<rparr>))"
| run_go: "pool_at s t = Run_Test b \<Longrightarrow> \<not> pool_done s \<Longrightarrow>
    run_step t s (goto t (Run_Front b) s)"
| run_front: "pool_at s t = Run_Front b \<Longrightarrow> pool_queue s = f # q \<Longrightarrow>
    run_step t s (goto t (Run_Pop f) s)"
| run_front_empty: "pool_at s t = Run_Front b \<Longrightarrow> pool_queue s = [] \<Longrightarrow>
    run_step t s (s\<lparr>pool_fault := Some Empty_Front\<rparr>)"
| run_pop: "pool_at s t = Run_Pop f \<Longrightarrow>
    run_step t s (goto t (Run_Unlock f)
      (s\<lparr>pool_queue := tl (pool_queue s), taken := taken s @ take 1 (pool_queue s)\<rparr>))"
| run_unlock: "pool_at s t = Run_Unlock f \<Longrightarrow>
    run_step t s (goto t (Run_Call f) (s\<lparr>pool_mutex := None\<rparr>))"
| run_call: "pool_at s t = Run_Call f \<Longrightarrow>
    run_step t s (goto t (Run_Acquire Acq_Enter) (s\<lparr>ran := ran s @ [f]\<rparr>))"

text \<open>The clients: queue(), start() and join().\<close>

inductive queue_step :: "thread \<Rightarrow> 'f pool \<Rightarrow> 'f pool \<Rightarrow> bool" where
  queue_lock: "pool_at s t = Queue_Lock f \<Longrightarrow> pool_mutex s = None \<Longrightarrow>
    queue_step t s (goto t (Queue_Emplace f) (s\<lparr>pool_mutex := Some t\<rparr>))"
| queue_emplace: "pool_at s t = Queue_Emplace f \<Longrightarrow>
    queue_step t s (goto t Queue_Unlock
      (s\<lparr>pool_queue := pool_queue s @ [f], submitted := submitted s @ [f]\<rparr>))"
| queue_unlock: "pool_at s t = Queue_Unlock \<Longrightarrow>
    queue_step t s (goto t (Queue_Release Rel_Enter) (s\<lparr>pool_mutex := None\<rparr>))"
| queue_release: "pool_at s t = Queue_Release p \<Longrightarrow> release_step t (pool_sem s) p m q \<Longrightarrow>
    queue_step t s (goto t (Queue_Release q) (s\<lparr>pool_sem := m\<rparr>))"
| queue_return: "pool_at s t = Queue_Release (Returned b) \<Longrightarrow> queue_step t s (goto t Idle s)"

inductive start_step :: "thread \<Rightarrow> 'f pool \<Rightarrow> 'f pool \<Rightarrow> bool" where
  start_test: "pool_at s t = Start_Test n \<Longrightarrow> pool_threads s = [] \<Longrightarrow>
    start_step t s (goto t (Start_Loop n) s)"
| start_twice: "pool_at s t = Start_Test n \<Longrightarrow> pool_threads s \<noteq> [] \<Longrightarrow>
    start_step t s (s\<lparr>pool_fault := Some Started_Twice\<rparr>)"
| start_create: "pool_at s t = Start_Loop (Suc n) \<Longrightarrow> u = Worker (length (pool_threads s)) \<Longrightarrow>
    start_step t s (goto t (Start_Loop n) (goto u (Run_Acquire Acq_Enter)
      (s\<lparr>pool_threads := pool_threads s @ [u]\<rparr>)))"
| start_return: "pool_at s t = Start_Loop 0 \<Longrightarrow> start_step t s (goto t Idle s)"

inductive join_step :: "thread \<Rightarrow> 'f pool \<Rightarrow> 'f pool \<Rightarrow> bool" where
  join_return: "pool_at s t = Join_Test \<Longrightarrow> pool_done s \<Longrightarrow> join_step t s (goto t Idle s)"
| join_go: "pool_at s t = Join_Test \<Longrightarrow> \<not> pool_done s \<Longrightarrow> join_step t s (goto t Join_Set s)"
| join_set: "pool_at s t = Join_Set \<Longrightarrow>
    join_step t s (goto t (Join_Interrupt Int_Enter) (s\<lparr>pool_done := True\<rparr>))"
| join_interrupt: "pool_at s t = Join_Interrupt p \<Longrightarrow> interrupt_step t (pool_sem s) p m q \<Longrightarrow>
    join_step t s (goto t (Join_Interrupt q) (s\<lparr>pool_sem := m\<rparr>))"
| join_interrupted: "pool_at s t = Join_Interrupt (Returned b) \<Longrightarrow>
    join_step t s (goto t (Join_Loop 0) s)"
| join_thread: "pool_at s t = Join_Loop i \<Longrightarrow> i < length (pool_threads s) \<Longrightarrow>
    u = pool_threads s ! i \<Longrightarrow> pool_at s u = Run_Ended b \<Longrightarrow> u \<notin> pool_joined s \<Longrightarrow>
    join_step t s (goto t (Join_Loop (Suc i)) (s\<lparr>pool_joined := insert u (pool_joined s)\<rparr>))"
| join_again: "pool_at s t = Join_Loop i \<Longrightarrow> i < length (pool_threads s) \<Longrightarrow>
    pool_threads s ! i \<in> pool_joined s \<Longrightarrow>
    join_step t s (s\<lparr>pool_fault := Some Joined_Twice\<rparr>)"
| join_end: "pool_at s t = Join_Loop i \<Longrightarrow> i \<ge> length (pool_threads s) \<Longrightarrow>
    join_step t s (goto t Join_Ended s)"

inductive thread_step :: "thread \<Rightarrow> 'f pool \<Rightarrow> 'f pool \<Rightarrow> bool" where
  step_run: "run_step t s s' \<Longrightarrow> thread_step t s s'"
| step_queue: "queue_step t s s' \<Longrightarrow> thread_step t s s'"
| step_start: "start_step t s s' \<Longrightarrow> thread_step t s s'"
| step_join: "join_step t s s' \<Longrightarrow> thread_step t s s'"

text \<open>
  What comes from outside the pool: an idle client calls an operation, or a
  blocked thread wakes without a notification.
\<close>

inductive env_step :: "'f pool \<Rightarrow> 'f pool \<Rightarrow> bool" where
  call_queue: "pool_at s t = Idle \<Longrightarrow> env_step s (goto t (Queue_Lock f) s)"
| call_start: "pool_at s t = Idle \<Longrightarrow> env_step s (goto t (Start_Test n) s)"
| call_join: "pool_at s t = Idle \<Longrightarrow> env_step s (goto t Join_Test s)"
| env_spurious: "spurious_wake (pool_sem s) m \<Longrightarrow> env_step s (s\<lparr>pool_sem := m\<rparr>)"

inductive pool_reachable :: "'f pool \<Rightarrow> bool" where
  pool_start: "pool_reachable pool_new"
| pool_env: "pool_reachable s \<Longrightarrow> env_step s s' \<Longrightarrow> pool_reachable s'"
| pool_thread: "pool_reachable s \<Longrightarrow> thread_step t s s' \<Longrightarrow> pool_reachable s'"

inductive_cases run_stepE: "run_step t s s'"
inductive_cases queue_stepE: "queue_step t s s'"
inductive_cases start_stepE: "start_step t s s'"
inductive_cases join_stepE: "join_step t s s'"
inductive_cases thread_stepE: "thread_step t s s'"
inductive_cases env_stepE: "env_step s s'"

lemmas pool_stepE = thread_stepE run_stepE queue_stepE start_stepE join_stepE

lemma goto_simps [simp]:
  "pool_at (goto t p s) = (pool_at s)(t := p)"
  "pool_mutex (goto t p s) = pool_mutex s" "pool_queue (goto t p s) = pool_queue s"
  "pool_threads (goto t p s) = pool_threads s" "pool_sem (goto t p s) = pool_sem s"
  "pool_done (goto t p s) = pool_done s" "pool_joined (goto t p s) = pool_joined s"
  "pool_fault (goto t p s) = pool_fault s" "submitted (goto t p s) = submitted s"
  "taken (goto t p s) = taken s" "ran (goto t p s) = ran s"
  by (simp_all add: goto_def)

text \<open>The number of the threads at points with a property, and how a step changes it.\<close>

definition tally :: "('p \<Rightarrow> bool) \<Rightarrow> ('t \<Rightarrow> 'p) \<Rightarrow> int" where
  "tally P f = int (card {t. P (f t)})"

lemma tally_upd:
  assumes "finite {u. P (f u)}"
  shows "tally P (f(t := x)) = tally P f - of_bool (P (f t)) + of_bool (P x)"
proof -
  define A where "A = {u. P (f u)} - {t}"
  have fin: "finite A" and "t \<notin> A" using assms by (auto simp: A_def)
  then have more: "card (insert t A) = Suc (card A)" by simp
  have "{u. P (f u)} = (if P (f t) then insert t A else A)" by (auto simp: A_def)
  then have old: "card {u. P (f u)} = card A + of_bool (P (f t))"
    using more by (cases "P (f t)") simp_all
  have "{u. P ((f(t := x)) u)} = (if P x then insert t A else A)" by (auto simp: A_def)
  then have new: "card {u. P ((f(t := x)) u)} = card A + of_bool (P x)"
    using more by (cases "P x") simp_all
  show ?thesis unfolding tally_def old new by simp
qed

lemma tally_nonneg [simp]: "0 \<le> tally P f"
  by (simp add: tally_def)

lemma tally_pos: "finite {u. P (f u)} \<Longrightarrow> P (f t) \<Longrightarrow> 1 \<le> tally P f"
  unfolding tally_def using card_0_eq[of "{u. P (f u)}"] by (cases "card {u. P (f u)}") auto

text \<open>Which threads are where.\<close>

fun at_worker :: "'f pool_pc \<Rightarrow> bool" where
  "at_worker (Run_Acquire p) = (p \<in> {Acq_Enter, Acq_Lock, Acq_Test, Acq_Wait, Acq_Woken, Acq_Take,
     Acq_Leave, Returned True, Returned False})"
| "at_worker (Run_Lock b) = True" | "at_worker (Run_Test b) = True"
| "at_worker (Run_Quit b) = True" | "at_worker (Run_Front b) = True"
| "at_worker (Run_Pop f) = True" | "at_worker (Run_Unlock f) = True"
| "at_worker (Run_Call f) = True" | "at_worker (Run_Ended b) = True"
| "at_worker p = False"

fun at_client :: "'f pool_pc \<Rightarrow> bool" where
  "at_client (Queue_Release p) = (p \<in> {Rel_Enter, Rel_Inc, Rel_Notify, Rel_Leave,
     Returned True, Returned False})"
| "at_client (Join_Interrupt p) = (p \<in> {Int_Enter, Int_Notify, Returned True, Returned False})"
| "at_client (Run_Acquire p) = False"
| "at_client p = (p \<noteq> Not_Created \<and> \<not> at_worker p)"

definition well_placed :: "'f pool \<Rightarrow> bool" where
  "well_placed s \<longleftrightarrow>
     pool_threads s = map Worker [0..<length (pool_threads s)] \<and>
     (\<forall>i. if i < length (pool_threads s) then at_worker (pool_at s (Worker i))
           else pool_at s (Worker i) = Not_Created) \<and>
     (\<forall>i. at_client (pool_at s (Client i)))"

fun in_mutex :: "'f pool_pc \<Rightarrow> bool" where
  "in_mutex (Run_Test b) = True" | "in_mutex (Run_Quit b) = True"
| "in_mutex (Run_Front b) = True" | "in_mutex (Run_Pop f) = True"
| "in_mutex (Run_Unlock f) = True" | "in_mutex (Queue_Emplace f) = True"
| "in_mutex Queue_Unlock = True" | "in_mutex p = False"

fun in_sem_mutex :: "'f pool_pc \<Rightarrow> bool" where
  "in_sem_mutex (Run_Acquire p) = in_sem p"
| "in_sem_mutex (Queue_Release p) = in_sem p"
| "in_sem_mutex p = False"

definition exclusive :: "'f pool \<Rightarrow> bool" where
  "exclusive s \<longleftrightarrow> (\<forall>t. in_mutex (pool_at s t) \<longleftrightarrow> pool_mutex s = Some t) \<and>
     (\<forall>t. in_sem_mutex (pool_at s t) \<longleftrightarrow> sem_mutex (pool_sem s) = Some t)"

text \<open>Workers that took a permit for a task, clients that still have to give one.\<close>

fun owns :: "'f pool_pc \<Rightarrow> bool" where
  "owns (Run_Acquire p) = (p \<in> {Acq_Leave, Returned True})"
| "owns (Run_Lock b) = b" | "owns (Run_Test b) = b" | "owns (Run_Quit b) = b"
| "owns (Run_Front b) = b" | "owns (Run_Pop f) = True" | "owns (Run_Ended b) = b"
| "owns p = False"

fun owes :: "'f pool_pc \<Rightarrow> bool" where
  "owes Queue_Unlock = True"
| "owes (Queue_Release p) = (p \<in> {Rel_Enter, Rel_Inc})"
| "owes p = False"

fun carries :: "'f \<Rightarrow> 'f pool_pc \<Rightarrow> bool" where
  "carries f (Run_Unlock g) = (g = f)" | "carries f (Run_Call g) = (g = f)"
| "carries f p = False"

lemma pool_new_at [simp]: "pool_at pool_new t = (case t of Worker i \<Rightarrow> Not_Created | Client i \<Rightarrow> Idle)"
  by (simp add: pool_new_def)

lemma worker_not_client: "at_worker p \<Longrightarrow> \<not> at_client p"
  by (cases p) auto

text \<open>A step moves one thread within its role; start() also creates a worker.\<close>

lemma step_moves:
  assumes "thread_step t s s'"
  obtains (move) p where "pool_at s' = (pool_at s)(t := p)" "pool_threads s' = pool_threads s"
      "at_worker (pool_at s t) \<and> at_worker p \<or> at_client (pool_at s t) \<and> at_client p
       \<or> p = pool_at s t"
  | (create) n u where "pool_at s t = Start_Loop (Suc n)" "u = Worker (length (pool_threads s))"
      "s' = goto t (Start_Loop n) (goto u (Run_Acquire Acq_Enter)
         (s\<lparr>pool_threads := pool_threads s @ [u]\<rparr>))"
proof (cases "pool_threads s' = pool_threads s")
  case True
  have "pool_at s' = pool_at s \<or> (\<exists>p. pool_at s' = (pool_at s)(t := p) \<and>
      (at_worker (pool_at s t) \<and> at_worker p \<or> at_client (pool_at s t) \<and> at_client p))"
    using assms
  proof cases
    case step_run
    then show ?thesis
      by cases (auto simp: acquire_step.simps)
  next
    case step_queue
    then show ?thesis by cases (auto simp: release_step.simps)
  next
    case step_start
    then show ?thesis
      using True by cases auto
  next
    case step_join
    then show ?thesis by cases (auto simp: interrupt_step.simps)
  qed
  then show ?thesis
  proof
    assume "pool_at s' = pool_at s"
    then show ?thesis using True move[of "pool_at s t"] by simp
  next
    assume "\<exists>p. pool_at s' = (pool_at s)(t := p) \<and>
      (at_worker (pool_at s t) \<and> at_worker p \<or> at_client (pool_at s t) \<and> at_client p)"
    then show ?thesis using True move by blast
  qed
next
  case False
  have "\<exists>n u. pool_at s t = Start_Loop (Suc n) \<and> u = Worker (length (pool_threads s)) \<and>
      s' = goto t (Start_Loop n) (goto u (Run_Acquire Acq_Enter)
         (s\<lparr>pool_threads := pool_threads s @ [u]\<rparr>))"
    using assms False by (elim pool_stepE) simp_all
  then show ?thesis using create by blast
qed

lemma well_placed_worker: "well_placed s \<Longrightarrow> i < length (pool_threads s) \<Longrightarrow> at_worker (pool_at s (Worker i))"
  unfolding well_placed_def by metis

lemma well_placed_absent: "well_placed s \<Longrightarrow> length (pool_threads s) \<le> i \<Longrightarrow> pool_at s (Worker i) = Not_Created"
  unfolding well_placed_def by (metis not_le)

lemma well_placed_client: "well_placed s \<Longrightarrow> at_client (pool_at s (Client i))"
  unfolding well_placed_def by blast

lemma well_placed_kind:
  "well_placed s \<Longrightarrow> case t of Client i \<Rightarrow> at_client (pool_at s t)
     | Worker i \<Rightarrow> at_worker (pool_at s t) \<or> pool_at s t = Not_Created"
  by (cases t) (auto simp: well_placed_client intro: well_placed_worker well_placed_absent leI)

lemma idle_client: "well_placed s \<Longrightarrow> pool_at s t = Idle \<Longrightarrow> \<exists>i. t = Client i"
  using well_placed_kind[of s t] by (cases t) auto

lemma starter_client: "well_placed s \<Longrightarrow> pool_at s t = Start_Loop n \<Longrightarrow> \<exists>i. t = Client i"
  using well_placed_kind[of s t] by (cases t) auto

lemma well_placed_step:
  assumes placed: "well_placed s" and "thread_step t s s'"
  shows "well_placed s'"
  using assms(2)
proof (cases rule: step_moves)
  case (move p)
  then show ?thesis
    using placed worker_not_client[of "pool_at s t"] worker_not_client[of p]
    unfolding well_placed_def
    by (cases t) (auto split: if_splits)
next
  case (create n u)
  then show ?thesis
    using placed starter_client[OF placed create(1)] unfolding well_placed_def
    by (auto simp: less_Suc_eq)
qed

lemma well_placed_env:
  assumes "well_placed s" "env_step s s'"
  shows "well_placed s'"
  using assms(2)
proof cases
  case (env_spurious m)
  then show ?thesis using assms(1) by (simp add: well_placed_def)
qed (use idle_client[OF assms(1)] assms(1) in \<open>fastforce simp: well_placed_def\<close>)+

lemma exclusive_holder:
  assumes "exclusive s"
  shows "in_mutex (pool_at s t) \<longleftrightarrow> pool_mutex s = Some t"
    and "in_sem_mutex (pool_at s t) \<longleftrightarrow> sem_mutex (pool_sem s) = Some t"
  using assms unfolding exclusive_def by blast+

definition handed :: "'t \<Rightarrow> bool \<Rightarrow> bool \<Rightarrow> 't option \<Rightarrow> 't option \<Rightarrow> bool" where
  "handed t was holds m m' \<longleftrightarrow> was = holds \<and> m' = m \<or> m = None \<and> holds \<and> m' = Some t \<or>
     was \<and> \<not> holds \<and> m' = None"

lemma exclusive_move:
  assumes "exclusive s" "pool_at s' = (pool_at s)(t := p)"
    and "handed t (in_mutex (pool_at s t)) (in_mutex p) (pool_mutex s) (pool_mutex s')"
    and "handed t (in_sem_mutex (pool_at s t)) (in_sem_mutex p)
      (sem_mutex (pool_sem s)) (sem_mutex (pool_sem s'))"
  shows "exclusive s'"
proof -
  have "in_mutex (pool_at s' u) \<longleftrightarrow> pool_mutex s' = Some u"
    and "in_sem_mutex (pool_at s' u) \<longleftrightarrow> sem_mutex (pool_sem s') = Some u" for u
    using exclusive_holder[OF assms(1), of u] exclusive_holder[OF assms(1), of t] assms(2-4)
    unfolding handed_def by auto
  then show ?thesis unfolding exclusive_def by blast
qed

lemma exclusive_same:
  "exclusive s \<Longrightarrow> pool_at s' = pool_at s \<Longrightarrow> pool_mutex s' = pool_mutex s \<Longrightarrow>
   sem_mutex (pool_sem s') = sem_mutex (pool_sem s) \<Longrightarrow> exclusive s'"
  by (simp add: exclusive_def)

lemma exclusive_env:
  assumes "exclusive s" "env_step s s'"
  shows "exclusive s'"
  using assms(2)
proof cases
  case (env_spurious m)
  then show ?thesis using assms(1) by (auto simp: exclusive_def spurious_wake.simps)
qed (rule exclusive_move[OF assms(1)], simp, simp_all add: handed_def)+

lemma start_create_moves:
  assumes "well_placed s" "pool_at s t = Start_Loop (Suc n)" "u = Worker (length (pool_threads s))"
    "s' = goto t (Start_Loop n) (goto u (Run_Acquire Acq_Enter)
       (s\<lparr>pool_threads := pool_threads s @ [u]\<rparr>))"
  shows "pool_at s u = Not_Created \<and> u \<noteq> t"
    and "pool_at s' = (pool_at (goto t (Start_Loop n) s))(u := Run_Acquire Acq_Enter)"
    and "pool_mutex s' = pool_mutex s" "pool_sem s' = pool_sem s" "pool_queue s' = pool_queue s"
    "pool_done s' = pool_done s"
proof -
  have absent: "pool_at s u = Not_Created"
    using well_placed_absent[OF assms(1)] assms(3) by simp
  then have "u \<noteq> t" using assms(2) by auto
  then show "pool_at s u = Not_Created \<and> u \<noteq> t"
    using absent by simp
  show "pool_at s' = (pool_at (goto t (Start_Loop n) s))(u := Run_Acquire Acq_Enter)"
    unfolding assms(4) goto_simps using \<open>u \<noteq> t\<close> by (simp add: fun_upd_twist)
qed (simp_all add: assms(4))

lemma exclusive_step:
  assumes excl: "exclusive s" and placed: "well_placed s" and step: "thread_step t s s'"
  shows "exclusive s'"
  using step
proof cases
  case step_run
  then show ?thesis
  proof cases
    case (run_acquire p m q)
    then show ?thesis
      by (intro exclusive_move[OF excl, where t = t and p = "Run_Acquire q"])
        (auto simp: handed_def acquire_step.simps)
  next
    case (run_front_empty b)
    then show ?thesis by (intro exclusive_same[OF excl]) simp_all
  qed (rule exclusive_move[OF excl], simp, simp_all add: handed_def; fail)+
next
  case step_queue
  then show ?thesis
  proof cases
    case (queue_release p m q)
    then show ?thesis
      by (intro exclusive_move[OF excl, where t = t and p = "Queue_Release q"])
        (auto simp: handed_def release_step.simps)
  qed (rule exclusive_move[OF excl], simp, simp_all add: handed_def; fail)+
next
  case step_start
  then show ?thesis
  proof cases
    case (start_create n u)
    note moves = start_create_moves[OF placed start_create(2,3,1)]
    have "exclusive (goto t (Start_Loop n) s)"
      by (rule exclusive_move[OF excl], simp, simp_all add: start_create(2) handed_def)
    then show ?thesis
      by (rule exclusive_move[OF _ moves(2)]) (simp_all add: handed_def moves(1,3-))
  next
    case (start_twice n)
    then show ?thesis by (intro exclusive_same[OF excl]) simp_all
  qed (rule exclusive_move[OF excl], simp, simp_all add: handed_def; fail)+
next
  case step_join
  then show ?thesis
  proof cases
    case (join_interrupt p m q)
    then show ?thesis
      by (intro exclusive_move[OF excl, where t = t and p = "Join_Interrupt q"])
        (auto simp: handed_def interrupt_step.simps)
  next
    case (join_again i)
    then show ?thesis by (intro exclusive_same[OF excl]) simp_all
  qed (rule exclusive_move[OF excl], simp, simp_all add: handed_def; fail)+
qed

text \<open>Permits and tasks.\<close>

definition balanced :: "'f pool \<Rightarrow> bool" where
  "balanced s \<longleftrightarrow> finite {t. pool_at s t \<notin> {Idle, Not_Created}} \<and> sem_max (pool_sem s) = 0 \<and>
     sem_count (pool_sem s) + tally owns (pool_at s) + tally owes (pool_at s)
       = int (length (pool_queue s)) \<and>
     0 \<le> sem_count (pool_sem s) \<and>
     (\<forall>t. pool_at s t = Run_Acquire Acq_Take \<longrightarrow> 0 < sem_count (pool_sem s))"

lemma balanced_finite:
  assumes "balanced s"
  shows "finite {t. owns (pool_at s t)}" "finite {t. owes (pool_at s t)}"
    "finite {t. carries f (pool_at s t)}"
  by (rule finite_subset[OF _ conjunct1[OF assms[unfolded balanced_def]]]; auto)+

lemma balanced_move:
  assumes bal: "balanced s" and at: "pool_at s' = (pool_at s)(t := p)"
    and max: "sem_max (pool_sem s') = sem_max (pool_sem s)"
    and sum: "sem_count (pool_sem s') + of_bool (owns p) + of_bool (owes p) +
        int (length (pool_queue s)) =
      sem_count (pool_sem s) + of_bool (owns (pool_at s t)) + of_bool (owes (pool_at s t)) +
        int (length (pool_queue s'))"
    and count: "0 \<le> sem_count (pool_sem s')"
    and takers: "\<And>u. pool_at s' u = Run_Acquire Acq_Take \<Longrightarrow> 0 < sem_count (pool_sem s')"
  shows "balanced s'"
proof -
  note b = bal[unfolded balanced_def]
  have "finite {u. pool_at s' u \<notin> {Idle, Not_Created}}"
    by (rule finite_subset[of _ "insert t {u. pool_at s u \<notin> {Idle, Not_Created}}"])
      (use b at in auto)
  moreover have "sem_count (pool_sem s') + tally owns (pool_at s') + tally owes (pool_at s')
      = int (length (pool_queue s'))"
    using b sum unfolding at by (simp add: tally_upd[where P = owns and f = "pool_at s", OF balanced_finite(1)[OF bal]]
        tally_upd[where P = owes and f = "pool_at s", OF balanced_finite(2)[OF bal]])
  ultimately show ?thesis
    using b max count takers unfolding balanced_def by auto
qed

lemma balanced_same:
  "balanced s \<Longrightarrow> pool_at s' = pool_at s \<Longrightarrow> pool_queue s' = pool_queue s \<Longrightarrow>
   sem_max (pool_sem s') = sem_max (pool_sem s) \<Longrightarrow>
   sem_count (pool_sem s') = sem_count (pool_sem s) \<Longrightarrow> balanced s'"
  unfolding balanced_def by simp

lemma balanced_goto:
  assumes "balanced s" "pool_at s' = (pool_at s)(t := p)" "pool_sem s' = pool_sem s"
    "of_bool (owns p) + of_bool (owes p) + int (length (pool_queue s)) =
      of_bool (owns (pool_at s t)) + of_bool (owes (pool_at s t)) + int (length (pool_queue s'))"
    "p \<noteq> Run_Acquire Acq_Take"
  shows "balanced s'"
  using assms by (intro balanced_move[OF assms(1,2)]) (auto simp: balanced_def split: if_splits)

lemma balanced_step:
  assumes bal: "balanced s" and excl: "exclusive s" and placed: "well_placed s"
    and full: "\<And>t f. pool_at s t = Run_Pop f \<Longrightarrow> pool_queue s \<noteq> []"
    and permit: "\<And>t b. pool_at s t = Run_Front b \<Longrightarrow> b"
    and step: "thread_step t s s'"
  shows "balanced s'"
proof -
  note b = bal[unfolded balanced_def]
  have take_alone: "\<not> in_sem_mutex (pool_at s t)"
    if "pool_at s u = Run_Acquire Acq_Take" "u \<noteq> t" for u
    using that exclusive_holder(2)[OF excl, of u] exclusive_holder(2)[OF excl, of t] by auto
  show ?thesis
    using step
  proof cases
    case step_run
    then show ?thesis
    proof cases
      case (run_acquire p m q)
      then show ?thesis
        using b take_alone
        by (intro balanced_move[OF bal, where t = t and p = "Run_Acquire q"])
          (auto simp: acquire_step.simps split: if_splits)
    next
      case (run_front_empty b)
      then show ?thesis by (intro balanced_same[OF bal]) simp_all
    next
      case (run_front b f q)
      then show ?thesis
        using permit[OF run_front(2)] by (intro balanced_goto[OF bal, where t = t and p = "Run_Pop f"]) simp_all
    next
      case (run_pop f)
      then show ?thesis
        using full[OF run_pop(2)]
        by (intro balanced_goto[OF bal, where t = t and p = "Run_Unlock f"])
          (auto simp: neq_Nil_conv)
    qed (rule balanced_goto[OF bal], simp, simp_all; fail)+
  next
    case step_queue
    then show ?thesis
    proof cases
      case (queue_release p m q)
      then show ?thesis
        using b
        by (intro balanced_move[OF bal, where t = t and p = "Queue_Release q"])
          (auto simp: release_step.simps split: if_splits)
    qed (rule balanced_goto[OF bal], simp, simp_all; fail)+
  next
    case step_start
    then show ?thesis
    proof cases
      case (start_twice n)
      then show ?thesis by (intro balanced_same[OF bal]) simp_all
    next
      case (start_create n u)
      note moves = start_create_moves[OF placed start_create(2,3,1)]
      have "balanced (goto t (Start_Loop n) s)"
        by (rule balanced_goto[OF bal], simp, simp_all add: start_create(2))
      then show ?thesis
        by (rule balanced_goto[OF _ moves(2)]) (simp_all add: moves(1,3-))
    qed (rule balanced_goto[OF bal], simp, simp_all; fail)+
  next
    case step_join
    then show ?thesis
    proof cases
      case (join_interrupt p m q)
      then show ?thesis
        using b
        by (intro balanced_move[OF bal, where t = t and p = "Join_Interrupt q"])
          (auto simp: interrupt_step.simps split: if_splits)
    next
      case (join_again i)
      then show ?thesis by (intro balanced_same[OF bal]) simp_all
    qed (rule balanced_goto[OF bal], simp, simp_all; fail)+
  qed
qed

lemma balanced_env:
  assumes bal: "balanced s" and step: "env_step s s'"
  shows "balanced s'"
  using step
proof cases
  case (env_spurious m)
  then show ?thesis
    by (intro balanced_same[OF bal]) (auto simp: spurious_wake.simps)
qed (rule balanced_goto[OF bal], simp, simp_all; fail)+

text \<open>The queue and the flags.\<close>

definition orderly :: "'f pool \<Rightarrow> bool" where
  "orderly s \<longleftrightarrow> taken s @ pool_queue s = submitted s \<and>
     (\<forall>t f. pool_at s t = Run_Pop f \<longrightarrow> (\<exists>q. pool_queue s = f # q)) \<and>
     (\<forall>f. int (count (mset (taken s)) f) =
        int (count (mset (ran s)) f) + tally (carries f) (pool_at s))"

lemma orderly_move:
  assumes ord: "orderly s" and bal: "balanced s" and at: "pool_at s' = (pool_at s)(t := p)"
    and fifo: "taken s' @ pool_queue s' = submitted s'"
    and pops: "\<And>u f. pool_at s' u = Run_Pop f \<Longrightarrow> \<exists>q. pool_queue s' = f # q"
    and runs: "\<And>f. int (count (mset (taken s')) f) + int (count (mset (ran s)) f) + of_bool (carries f (pool_at s t)) =
      int (count (mset (taken s)) f) + int (count (mset (ran s')) f) + of_bool (carries f p)"
  shows "orderly s'"
  unfolding orderly_def
proof (intro conjI allI impI)
  fix f
  have "tally (carries f) (pool_at s') =
      tally (carries f) (pool_at s) - of_bool (carries f (pool_at s t)) + of_bool (carries f p)"
    unfolding at by (rule tally_upd) (rule balanced_finite(3)[OF bal])
  moreover have "int (count (mset (taken s)) f) =
      int (count (mset (ran s)) f) + tally (carries f) (pool_at s)"
    using ord unfolding orderly_def by blast
  ultimately show "int (count (mset (taken s')) f) =
      int (count (mset (ran s')) f) + tally (carries f) (pool_at s')"
    using runs[of f] by linarith
qed (use fifo pops in blast)+

lemma orderly_pops: "orderly s \<Longrightarrow> pool_at s u = Run_Pop f \<Longrightarrow> \<exists>q. pool_queue s = f # q"
  unfolding orderly_def by blast

lemma orderly_fifo: "orderly s \<Longrightarrow> taken s @ pool_queue s = submitted s"
  unfolding orderly_def by blast

lemma orderly_goto:
  assumes ord: "orderly s" and bal: "balanced s" and at: "pool_at s' = (pool_at s)(t := p)"
    and "\<And>f. carries f (pool_at s t) = carries f p" "\<And>f. p \<noteq> Run_Pop f"
    and "pool_queue s' = pool_queue s" "taken s' = taken s" "submitted s' = submitted s"
      "ran s' = ran s"
  shows "orderly s'"
  using assms orderly_pops[OF ord] orderly_fifo[OF ord]
  by (intro orderly_move[OF ord bal at]) (auto split: if_splits)

lemma orderly_same:
  "orderly s \<Longrightarrow> pool_at s' = pool_at s \<Longrightarrow> pool_queue s' = pool_queue s \<Longrightarrow>
   taken s' = taken s \<Longrightarrow> submitted s' = submitted s \<Longrightarrow> ran s' = ran s \<Longrightarrow> orderly s'"
  unfolding orderly_def by simp

lemma orderly_step:
  assumes ord: "orderly s" and bal: "balanced s" and excl: "exclusive s"
    and placed: "well_placed s" and step: "thread_step t s s'"
  shows "orderly s'"
proof -
  have pop_alone: "\<not> in_mutex (pool_at s t)" if "pool_at s u = Run_Pop f" "u \<noteq> t" for u f
    using that exclusive_holder(1)[OF excl, of u] exclusive_holder(1)[OF excl, of t] by auto
  show ?thesis
    using step
  proof cases
    case step_run
    then show ?thesis
    proof cases
      case (run_front b f q)
      then show ?thesis
        using orderly_pops[OF ord] orderly_fifo[OF ord]
        by (intro orderly_move[OF ord bal, where t = t and p = "Run_Pop f"]) (auto split: if_splits)
    next
      case (run_front_empty b)
      then show ?thesis by (intro orderly_same[OF ord]) simp_all
    next
      case (run_pop f)
      obtain q where q: "pool_queue s = f # q" using orderly_pops[OF ord run_pop(2)] by blast
      have alone: "pool_at s u = Run_Pop g \<Longrightarrow> u = t" for u g
        using pop_alone run_pop(2) by fastforce
      show ?thesis
      proof (rule orderly_move[OF ord bal, where t = t and p = "Run_Unlock f"])
        show "taken s' @ pool_queue s' = submitted s'"
          using orderly_fifo[OF ord] run_pop(1) q by simp
        show "\<exists>q. pool_queue s' = g # q" if "pool_at s' u = Run_Pop g" for u g
          using that alone[of u g] run_pop(1) by (simp split: if_splits)
      qed (simp_all add: run_pop q)
    next
      case (run_call f)
      then show ?thesis
        using orderly_pops[OF ord] orderly_fifo[OF ord]
        by (intro orderly_move[OF ord bal, where t = t and p = "Run_Acquire Acq_Enter"])
          (auto split: if_splits)
    qed (rule orderly_goto[OF ord bal], simp, simp_all; fail)+
  next
    case step_queue
    then show ?thesis
    proof cases
      case (queue_emplace f)
      then show ?thesis
        using orderly_pops[OF ord] orderly_fifo[OF ord]
        by (intro orderly_move[OF ord bal, where t = t and p = "Queue_Unlock"])
          (fastforce split: if_splits)+
    qed (rule orderly_goto[OF ord bal], simp, simp_all; fail)+
  next
    case step_start
    then show ?thesis
    proof cases
      case (start_twice n)
      then show ?thesis by (intro orderly_same[OF ord]) simp_all
    next
      case (start_create n u)
      note moves = start_create_moves[OF placed start_create(2,3,1)]
      have "orderly (goto t (Start_Loop n) s)"
        by (rule orderly_goto[OF ord bal], simp, simp_all add: start_create(2))
      moreover have "balanced (goto t (Start_Loop n) s)"
        by (rule balanced_goto[OF bal], simp, simp_all add: start_create(2))
      ultimately show ?thesis
        by (rule orderly_goto[OF _ _ moves(2)]) (simp_all add: moves start_create(1))
    qed (rule orderly_goto[OF ord bal], simp, simp_all; fail)+
  next
    case step_join
    then show ?thesis
    proof cases
      case (join_again i)
      then show ?thesis by (intro orderly_same[OF ord]) simp_all
    qed (rule orderly_goto[OF ord bal], simp, simp_all; fail)+
  qed
qed

lemma orderly_env:
  assumes ord: "orderly s" and bal: "balanced s" and step: "env_step s s'"
  shows "orderly s'"
  using step
proof cases
  case (env_spurious m)
  then show ?thesis by (intro orderly_same[OF ord]) simp_all
qed (rule orderly_goto[OF ord bal], simp, simp_all; fail)+

fun after_done :: "'f pool_pc \<Rightarrow> bool" where
  "after_done (Run_Acquire p) = (p = Returned False)"
| "after_done (Run_Lock b) = (\<not> b)" | "after_done (Run_Test b) = (\<not> b)"
| "after_done (Run_Quit b) = True" | "after_done (Run_Ended b) = True"
| "after_done (Join_Interrupt p) = True" | "after_done (Join_Loop i) = True"
| "after_done Join_Ended = True" | "after_done p = False"

definition flagged :: "'f pool \<Rightarrow> bool" where
  "flagged s \<longleftrightarrow> (\<forall>t. after_done (pool_at s t) \<longrightarrow> pool_done s) \<and>
     (\<forall>t. pool_at s t \<noteq> Run_Front False) \<and>
     (sem_done (pool_sem s) \<longrightarrow> pool_done s) \<and> pool_fault s \<noteq> Some Empty_Front \<and>
     sem_waiting (pool_sem s) \<subseteq> {t. pool_at s t = Run_Acquire Acq_Wait}"

lemma flagged_facts:
  assumes "flagged s"
  shows "after_done (pool_at s t) \<Longrightarrow> pool_done s" "pool_at s t \<noteq> Run_Front False"
    "sem_done (pool_sem s) \<Longrightarrow> pool_done s" "pool_fault s \<noteq> Some Empty_Front"
    "t \<in> sem_waiting (pool_sem s) \<Longrightarrow> pool_at s t = Run_Acquire Acq_Wait"
  using assms unfolding flagged_def by auto

lemma flagged_move:
  assumes flags: "flagged s" and at: "pool_at s' = (pool_at s)(t := p)"
    and "pool_done s \<Longrightarrow> pool_done s'" "after_done p \<Longrightarrow> pool_done s'" "p \<noteq> Run_Front False"
    and "sem_done (pool_sem s') \<Longrightarrow> pool_done s'" "pool_fault s' = pool_fault s"
    and "sem_waiting (pool_sem s') \<subseteq>
      (if p = Run_Acquire Acq_Wait then insert t (sem_waiting (pool_sem s))
       else sem_waiting (pool_sem s) - {t})"
  shows "flagged s'"
proof -
  have "after_done (pool_at s' u) \<Longrightarrow> pool_done s'" "pool_at s' u \<noteq> Run_Front False" for u
    using flagged_facts(1,2)[OF flags, of u] assms by (auto split: if_splits)
  moreover have "u \<in> sem_waiting (pool_sem s') \<Longrightarrow> pool_at s' u = Run_Acquire Acq_Wait" for u
    using flagged_facts(5)[OF flags, of u] assms by (auto split: if_splits)
  ultimately show ?thesis
    unfolding flagged_def using assms(6,7) flagged_facts(4)[OF flags] by (simp add: subset_iff)
qed

lemma flagged_goto:
  assumes flags: "flagged s" and at: "pool_at s' = (pool_at s)(t := p)"
    and "pool_sem s' = pool_sem s" "pool_fault s' = pool_fault s"
    and "pool_done s \<Longrightarrow> pool_done s'" "after_done p \<Longrightarrow> pool_done s'"
      "p \<notin> {Run_Front False, Run_Acquire Acq_Wait}" "pool_at s t \<noteq> Run_Acquire Acq_Wait"
  shows "flagged s'"
  using flagged_facts[OF flags] assms by (intro flagged_move[OF flags at]) auto

lemma flagged_same:
  assumes flags: "flagged s" and at: "pool_at s' = pool_at s" "pool_done s' = pool_done s"
    and sem: "sem_done (pool_sem s') = sem_done (pool_sem s)"
      "sem_waiting (pool_sem s') \<subseteq> sem_waiting (pool_sem s)"
    and fault: "pool_fault s' \<noteq> Some Empty_Front"
  shows "flagged s'"
  using flagged_facts[OF flags] at sem fault unfolding flagged_def by auto

text \<open>A worker that acquired a permit for its task finds the task in the queue.\<close>

lemma front_finds:
  assumes bal: "balanced s" and flags: "flagged s" and at: "pool_at s t = Run_Front b"
  shows "pool_queue s \<noteq> []"
proof -
  have "owns (pool_at s t)" using flagged_facts(2)[OF flags, of t] at by simp
  then have "1 \<le> tally owns (pool_at s)" 
    by (rule tally_pos[where P = owns and f = "pool_at s", OF balanced_finite(1)[OF bal]])
  then have "0 < int (length (pool_queue s))"
    using bal tally_nonneg[of owes "pool_at s"] unfolding balanced_def by linarith
  then show ?thesis by auto
qed

lemma flagged_step:
  assumes flags: "flagged s" and bal: "balanced s" and placed: "well_placed s"
    and step: "thread_step t s s'"
  shows "flagged s'"
  using step
proof cases
  case step_run
  then show ?thesis
  proof cases
    case (run_acquire p m q)
    then show ?thesis
      using flagged_facts[OF flags]
      by (intro flagged_move[OF flags, where t = t and p = "Run_Acquire q"])
        (auto simp: acquire_step.simps)
  next
    case (run_acquired b)
    then show ?thesis
      using flagged_facts(1)[OF flags, of t]
      by (intro flagged_goto[OF flags, where t = t and p = "Run_Lock b"]) auto
  next
    case (run_lock b)
    then show ?thesis
      using flagged_facts(1)[OF flags, of t]
      by (intro flagged_goto[OF flags, where t = t and p = "Run_Test b"]) auto
  next
    case (run_quit b)
    then show ?thesis
      using flagged_facts(1)[OF flags, of t]
      by (intro flagged_goto[OF flags, where t = t and p = "Run_Ended b"]) auto
  next
    case (run_go b)
    then show ?thesis
      using flagged_facts(1)[OF flags, of t]
      by (intro flagged_goto[OF flags, where t = t and p = "Run_Front b"]) auto
  next
    case (run_front_empty b)
    then show ?thesis using front_finds[OF bal flags] by blast
  qed (rule flagged_goto[OF flags], simp, simp_all; fail)+
next
  case step_queue
  then show ?thesis
  proof cases
    case (queue_release p m q)
    then show ?thesis
      using flagged_facts[OF flags]
      by (intro flagged_move[OF flags, where t = t and p = "Queue_Release q"])
        (auto simp: release_step.simps)
  qed (rule flagged_goto[OF flags], simp, simp_all; fail)+
next
  case step_start
  then show ?thesis
  proof cases
    case (start_twice n)
    then show ?thesis using flagged_facts[OF flags] by (intro flagged_same[OF flags]) simp_all
  next
    case (start_create n u)
    note moves = start_create_moves[OF placed start_create(2,3,1)]
    have "flagged (goto t (Start_Loop n) s)"
      by (rule flagged_goto[OF flags], simp, simp_all add: start_create(2))
    then show ?thesis
      by (rule flagged_goto[OF _ moves(2)]) (simp_all add: moves start_create(1))
  qed (rule flagged_goto[OF flags], simp, simp_all; fail)+
next
  case step_join
  then show ?thesis
  proof cases
    case (join_interrupt p m q)
    then show ?thesis
      using flagged_facts[OF flags] flagged_facts(1)[OF flags, of t]
      by (intro flagged_move[OF flags, where t = t and p = "Join_Interrupt q"])
        (auto simp: interrupt_step.simps)
  next
    case (join_interrupted b)
    then show ?thesis
      using flagged_facts(1)[OF flags, of t]
      by (intro flagged_goto[OF flags, where t = t and p = "Join_Loop 0"]) auto
  next
    case (join_thread i u b)
    then show ?thesis
      using flagged_facts(1)[OF flags, of t]
      by (intro flagged_goto[OF flags, where t = t and p = "Join_Loop (Suc i)"]) auto
  next
    case (join_end i)
    then show ?thesis
      using flagged_facts(1)[OF flags, of t]
      by (intro flagged_goto[OF flags, where t = t and p = "Join_Ended"]) auto
  next
    case (join_again i)
    then show ?thesis using flagged_facts[OF flags] by (intro flagged_same[OF flags]) simp_all
  qed (rule flagged_goto[OF flags], simp, simp_all; fail)+
qed

lemma flagged_env:
  assumes flags: "flagged s" and step: "env_step s s'"
  shows "flagged s'"
  using step
proof cases
  case (env_spurious m)
  then show ?thesis
    using flagged_facts[OF flags] by (intro flagged_same[OF flags]) (auto simp: spurious_wake.simps)
qed (rule flagged_goto[OF flags], simp, simp_all; fail)+

text \<open>Positive counts do not go unnoticed while the pool is open.\<close>

definition attended :: "'f pool \<Rightarrow> bool" where
  "attended s \<longleftrightarrow> pool_done s \<or> sem_count (pool_sem s) \<le> 0 \<or> pool_threads s = [] \<or>
     (\<exists>t. pool_at s t = Queue_Release Rel_Notify) \<or>
     (\<exists>u \<in> set (pool_threads s). u \<notin> sem_waiting (pool_sem s))"

lemma attended_keep:
  assumes "attended s" "pool_done s \<Longrightarrow> pool_done s'"
    and "sem_count (pool_sem s') \<le> sem_count (pool_sem s)"
    and "pool_threads s' = pool_threads s" "pool_at s' = (pool_at s)(t := p)"
    and "pool_at s t \<noteq> Queue_Release Rel_Notify"
    and "sem_waiting (pool_sem s') \<subseteq> sem_waiting (pool_sem s)"
  shows "attended s'"
proof (cases "\<exists>u. pool_at s u = Queue_Release Rel_Notify")
  case True
  then obtain u where "pool_at s u = Queue_Release Rel_Notify" by blast
  then have "pool_at s' u = Queue_Release Rel_Notify" using assms(5,6) by auto
  then show ?thesis unfolding attended_def by blast
next
  case False
  then have "pool_done s' \<or> sem_count (pool_sem s') \<le> 0 \<or> pool_threads s' = [] \<or>
      (\<exists>u\<in>set (pool_threads s'). u \<notin> sem_waiting (pool_sem s'))"
    using assms(1-4,7) unfolding attended_def by auto
  then show ?thesis unfolding attended_def by blast
qed

lemma waiter_works:
  assumes "well_placed s" "flagged s" "t \<in> sem_waiting (pool_sem s)"
  shows "t \<in> set (pool_threads s)"
proof -
  have at: "pool_at s t = Run_Acquire Acq_Wait" using flagged_facts(5)[OF assms(2,3)] .
  then obtain i where i: "t = Worker i"
    using well_placed_kind[OF assms(1), of t] by (cases t) auto
  then have "i < length (pool_threads s)"
    using at well_placed_absent[OF assms(1), of i] by (cases "i < length (pool_threads s)") auto
  then show ?thesis
    using i assms(1) unfolding well_placed_def by (metis atLeastLessThan_iff image_eqI le0 set_map set_upt)
qed

lemma attended_notify:
  assumes flags: "flagged s" and placed: "well_placed s"
    and rel: "release_step t (pool_sem s) Rel_Notify m q"
  shows "attended (goto t (Queue_Release q) (s\<lparr>pool_sem := m\<rparr>))"
  using rel
proof cases
  case (rel_notify u)
  then have "u \<in> set (pool_threads s)" by (intro waiter_works[OF placed flags])
  then show ?thesis using rel_notify unfolding attended_def by auto
next
  case rel_notify_none
  then show ?thesis by (cases "pool_threads s") (auto simp: attended_def)
qed

lemma attended_step:
  assumes att: "attended s" and flags: "flagged s" and placed: "well_placed s"
    and step: "thread_step t s s'"
  shows "attended s'"
  using step
proof cases
  case step_run
  then show ?thesis
  proof cases
    case (run_acquire p m q)
    show ?thesis
    proof (cases "p = Acq_Test \<and> q = Acq_Wait")
      case True
      then show ?thesis using run_acquire by (auto simp: attended_def acquire_step.simps)
    next
      case False
      then show ?thesis
        using run_acquire by (intro attended_keep[OF att, where t = t]) (auto simp: acquire_step.simps)
    qed
  next
    case (run_front_empty b)
    then show ?thesis using att by (simp add: attended_def)
  qed (rule attended_keep[OF att, where t = t], simp_all; fail)+
next
  case step_queue
  then show ?thesis
  proof cases
    case (queue_release p m q)
    show ?thesis
    proof (cases "p = Rel_Notify")
      case True
      then show ?thesis using attended_notify[OF flags placed] queue_release by simp
    next
      case False
      show ?thesis
      proof (cases "q = Rel_Notify")
        case True
        then show ?thesis using queue_release(1) by (auto simp: attended_def)
      next
        case rel: False
        then show ?thesis
          using False queue_release
          by (intro attended_keep[OF att, where t = t]) (auto simp: release_step.simps)
      qed
    qed
  qed (rule attended_keep[OF att, where t = t], simp_all; fail)+
next
  case step_start
  then show ?thesis
  proof cases
    case (start_create n u)
    have "pool_at s u = Not_Created"
      using well_placed_absent[OF placed] start_create(3) by simp
    then have "u \<notin> sem_waiting (pool_sem s)" using flagged_facts(5)[OF flags, of u] by auto
    then show ?thesis using start_create(1) by (auto simp: attended_def)
  next
    case (start_twice n)
    then show ?thesis using att by (simp add: attended_def)
  qed (rule attended_keep[OF att, where t = t], simp_all; fail)+
next
  case step_join
  then show ?thesis
  proof cases
    case (join_interrupt p m q)
    then show ?thesis
      by (intro attended_keep[OF att, where t = t]) (auto simp: interrupt_step.simps)
  next
    case (join_again i)
    then show ?thesis using att by (simp add: attended_def)
  qed (rule attended_keep[OF att, where t = t], simp_all; fail)+
qed

lemma attended_env:
  assumes att: "attended s" and step: "env_step s s'"
  shows "attended s'"
  using step
proof cases
  case (env_spurious m)
  then show ?thesis using att by (auto simp: attended_def spurious_wake.simps)
qed (rule attended_keep[OF att], simp, simp, simp, simp, simp_all; fail)+

definition pool_inv :: "'f pool \<Rightarrow> bool" where
  "pool_inv s \<longleftrightarrow> well_placed s \<and> exclusive s \<and> balanced s \<and> orderly s \<and> flagged s \<and> attended s"

lemma pool_inv_new: "pool_inv (pool_new :: 'f pool)"
proof -
  let ?s = "pool_new :: 'f pool"
  have at: "pool_at ?s t = Idle \<or> pool_at ?s t = Not_Created" for t
    by (cases t) simp_all
  have none: "{t. P (pool_at ?s t)} = {}" if "\<not> P Idle" "\<not> P Not_Created" for P
    using at that by (metis (mono_tags, lifting) Collect_empty_eq)
  have quiet: "\<not> P (pool_at ?s t)" if "\<not> P Idle" "\<not> P Not_Created" for P t
    using none[of P] that by blast
  have "well_placed ?s" by (simp add: well_placed_def pool_new_def)
  moreover have "exclusive ?s"
    using quiet[of in_mutex] quiet[of in_sem_mutex]
    by (simp add: exclusive_def pool_new_def sem_new_def)
  moreover have "balanced ?s"
    using none[of owns] none[of owes] none[of "\<lambda>p. p \<notin> {Idle, Not_Created}"]
      quiet[of "\<lambda>p. p = Run_Acquire Acq_Take"]
    by (simp add: balanced_def tally_def del: pool_new_at) (simp add: pool_new_def sem_new_def)
  moreover have "orderly ?s"
    using none[of "carries f" for f] quiet[of "\<lambda>p. p = Run_Pop f" for f]
    by (simp add: orderly_def tally_def del: pool_new_at) (simp add: pool_new_def)
  moreover have "flagged ?s"
    using quiet[of after_done] quiet[of "\<lambda>p. p = Run_Front False"]
    by (simp add: flagged_def del: pool_new_at) (simp add: pool_new_def sem_new_def)
  moreover have "attended ?s" by (simp add: attended_def pool_new_def)
  ultimately show ?thesis by (simp add: pool_inv_def)
qed

lemma pool_inv_step:
  assumes "pool_inv s" "thread_step t s s'"
  shows "pool_inv s'"
proof -
  have i: "well_placed s" "exclusive s" "balanced s" "orderly s" "flagged s" "attended s"
    using assms(1) by (auto simp: pool_inv_def)
  have "balanced s'"
    using orderly_pops[OF i(4)] flagged_facts(2)[OF i(5)]
    by (intro balanced_step[OF i(3,2,1) _ _ assms(2)]) (fastforce, metis)
  then show ?thesis
    using well_placed_step[OF i(1) assms(2)] exclusive_step[OF i(2,1) assms(2)]
      orderly_step[OF i(4,3,2,1) assms(2)] flagged_step[OF i(5,3,1) assms(2)]
      attended_step[OF i(6,5,1) assms(2)]
    by (simp add: pool_inv_def)
qed

lemma pool_inv_env:
  assumes "pool_inv s" "env_step s s'"
  shows "pool_inv s'"
proof -
  have i: "well_placed s" "exclusive s" "balanced s" "orderly s" "flagged s" "attended s"
    using assms(1) by (auto simp: pool_inv_def)
  note e = assms(2)
  show ?thesis
    using well_placed_env[OF i(1) e] exclusive_env[OF i(2) e] balanced_env[OF i(3) e]
      orderly_env[OF i(4,3) e] flagged_env[OF i(5) e] attended_env[OF i(6) e]
    by (simp add: pool_inv_def)
qed

lemma pool_inv_reachable: "pool_reachable s \<Longrightarrow> pool_inv s"
  by (induction rule: pool_reachable.induct) (auto intro: pool_inv_new pool_inv_env pool_inv_step)

text \<open>
  C24: in every reachable state the points between lock() and unlock() of mutex_
  belong to its holder, run_() never calls front() on an empty queue, tasks leave the
  queue in the order of their submission, and no task is run more often than it was
  taken.
\<close>

theorem pool_safe:
  assumes "pool_reachable s"
  shows "(\<forall>t. in_mutex (pool_at s t) \<longleftrightarrow> pool_mutex s = Some t) \<and>
    pool_fault s \<noteq> Some Empty_Front \<and> taken s @ pool_queue s = submitted s \<and>
    mset (ran s) \<subseteq># mset (taken s)"
proof -
  have "exclusive s" "orderly s" "flagged s"
    using pool_inv_reachable[OF assms] by (auto simp: pool_inv_def)
  moreover have "count (mset (ran s)) f \<le> count (mset (taken s)) f" for f
  proof -
    have "int (count (mset (taken s)) f) = int (count (mset (ran s)) f) + tally (carries f) (pool_at s)"
      using \<open>orderly s\<close> unfolding orderly_def by blast
    then show ?thesis using tally_nonneg[of "carries f" "pool_at s"] by linarith
  qed
  ultimately show ?thesis
    unfolding exclusive_def orderly_def flagged_def by (simp add: subseteq_mset_def)
qed

text \<open>What a thread can always do.\<close>

lemma can_run:
  "pool_at s t = Run_Acquire p \<Longrightarrow> acquire_step t (pool_sem s) p m q \<Longrightarrow> \<exists>s'. thread_step t s s'"
  "pool_at s t = Queue_Release p \<Longrightarrow> release_step t (pool_sem s) p m q \<Longrightarrow> \<exists>s'. thread_step t s s'"
  "pool_at s t = Join_Interrupt p \<Longrightarrow> interrupt_step t (pool_sem s) p m q \<Longrightarrow> \<exists>s'. thread_step t s s'"
  by (blast intro: thread_step.intros run_acquire queue_release join_interrupt)+

lemma holder_steps:
  assumes "in_mutex (pool_at s t)"
  shows "\<exists>s'. thread_step t s s'"
proof (cases "pool_at s t")
  case (Run_Test b)
  then show ?thesis by (cases "pool_done s") (blast intro: step_run run_done run_go)+
next
  case (Run_Front b)
  then show ?thesis
    by (cases "pool_queue s") (blast intro: step_run run_front run_front_empty)+
qed (use assms in \<open>auto intro: step_run run_quit run_pop run_unlock step_queue queue_emplace
     queue_unlock\<close>)

lemma acquiring_at:
  assumes "well_placed s" and at: "pool_at s t = Run_Acquire p"
  shows "p \<in> {Acq_Enter, Acq_Lock, Acq_Test, Acq_Wait, Acq_Woken, Acq_Take, Acq_Leave,
    Returned True, Returned False}"
  using well_placed_kind[OF assms(1), of t] unfolding at by (cases t) simp_all

lemma releasing_at:
  assumes "well_placed s" and at: "pool_at s t = Queue_Release p"
  shows "p \<in> {Rel_Enter, Rel_Inc, Rel_Notify, Rel_Leave, Returned True, Returned False}"
  using well_placed_kind[OF assms(1), of t] unfolding at by (cases t) simp_all

lemma sem_holder_steps:
  assumes "well_placed s" "in_sem_mutex (pool_at s t)"
  shows "\<exists>s'. thread_step t s s'"
proof (cases "pool_at s t")
  case (Run_Acquire p)
  then have "p \<in> {Acq_Test, Acq_Woken, Acq_Take, Acq_Leave}"
    using acquiring_at[OF assms(1) Run_Acquire] assms(2) by auto
  then have "\<exists>m q. acquire_step t (pool_sem s) p m q"
    by (cases "sem_done (pool_sem s)"; cases "0 < sem_count (pool_sem s)")
      (auto simp: acquire_step.simps not_less)
  then show ?thesis using Run_Acquire can_run(1) by blast
next
  case (Queue_Release p)
  then have "p \<in> {Rel_Inc, Rel_Notify, Rel_Leave}"
    using releasing_at[OF assms(1) Queue_Release] assms(2) by auto
  then have "\<exists>m q. release_step t (pool_sem s) p m q"
    by (cases "sem_max (pool_sem s) = 0 \<or> sem_count (pool_sem s) < sem_max (pool_sem s)";
        cases "sem_waiting (pool_sem s) = {}") (auto simp: release_step.simps)
  then show ?thesis using Queue_Release can_run(2) by blast
qed (use assms(2) in simp_all)

text \<open>Where a thread can be when neither mutex is taken and it cannot move.\<close>

lemma blocked_at:
  assumes placed: "well_placed s" and free: "pool_mutex s = None" "sem_mutex (pool_sem s) = None"
    and blocked: "\<And>s'. \<not> thread_step t s s'" and open_: "\<not> pool_done s" and flags: "flagged s"
  shows "pool_at s t \<in> {Idle, Not_Created} \<or> t \<in> sem_waiting (pool_sem s)"
proof -
  have sem_open: "\<not> sem_done (pool_sem s)" using flagged_facts(3)[OF flags] open_ by blast
  have early: "\<not> after_done (pool_at s t)" using flagged_facts(1)[OF flags] open_ by blast
  have no_sem: "\<not> acquire_step t (pool_sem s) p m q" if "pool_at s t = Run_Acquire p" for p m q
    using can_run(1)[OF that] blocked by blast
  have no_rel: "\<not> release_step t (pool_sem s) p m q" if "pool_at s t = Queue_Release p" for p m q
    using can_run(2)[OF that] blocked by blast
  have not_holder: "\<not> in_mutex (pool_at s t)" "\<not> in_sem_mutex (pool_at s t)"
    using holder_steps sem_holder_steps[OF placed] blocked by blast+
  show ?thesis
  proof (cases "pool_at s t")
    case (Run_Acquire p)
    have "p \<in> {Acq_Enter, Acq_Lock, Acq_Wait, Returned True}"
      using acquiring_at[OF placed Run_Acquire] not_holder(2) early unfolding Run_Acquire
      by (elim insertE) simp_all
    moreover have "p \<noteq> Acq_Enter"
      using no_sem[OF Run_Acquire] acq_enter[OF sem_open, of t] by metis
    moreover have "p \<noteq> Acq_Lock"
      using no_sem[OF Run_Acquire] acq_lock[OF free(2), of t] by metis
    moreover have "p \<noteq> Returned True"
      using run_acquired[of s t True, THEN step_run] Run_Acquire blocked by auto
    moreover have "p = Acq_Wait \<Longrightarrow> t \<in> sem_waiting (pool_sem s)"
      using no_sem[OF Run_Acquire] acq_wake[of t "pool_sem s", OF _ free(2)] by metis
    ultimately show ?thesis by blast
  next
    case (Queue_Release p)
    have "p \<in> {Rel_Enter, Returned True, Returned False}"
      using releasing_at[OF placed Queue_Release] not_holder(2) unfolding Queue_Release
      by (elim insertE) simp_all
    moreover have "p \<noteq> Rel_Enter"
      using no_rel[OF Queue_Release] rel_lock[OF free(2), of t] by metis
    moreover have "p \<noteq> Returned b" for b
      using queue_return[of s t b, THEN step_queue] Queue_Release blocked by auto
    ultimately show ?thesis by blast
  next
    case (Run_Lock b)
    then show ?thesis using run_lock[OF Run_Lock free(1)] blocked step_run by blast
  next
    case (Run_Call f)
    then show ?thesis using run_call[OF Run_Call] blocked step_run by blast
  next
    case (Queue_Lock f)
    then show ?thesis using queue_lock[OF Queue_Lock free(1)] blocked step_queue by blast
  next
    case (Start_Test n)
    then show ?thesis using start_test start_twice blocked step_start by blast
  next
    case (Start_Loop n)
    then show ?thesis using start_create start_return blocked step_start by (cases n) blast+
  next
    case Join_Test
    then show ?thesis using join_go[OF Join_Test open_] blocked step_join by blast
  next
    case Join_Set
    then show ?thesis using join_set[OF Join_Set] blocked step_join by blast
  qed (use not_holder early in simp_all)
qed

text \<open>
  C2: as long as the pool is open, it cannot be stuck with work left: when no thread
  inside an operation can move, the queue is empty, every submitted task has been run
  exactly as often as it was submitted, and every worker waits in acquire().
\<close>

theorem pool_quiescent:
  assumes "pool_reachable s" and "\<not> pool_done s" and "pool_threads s \<noteq> []"
    and "\<And>t s'. \<not> thread_step t s s'"
  shows "pool_queue s = [] \<and> mset (ran s) = mset (submitted s) \<and>
    (\<forall>u \<in> set (pool_threads s). u \<in> sem_waiting (pool_sem s))"
proof -
  have i: "well_placed s" "exclusive s" "balanced s" "orderly s" "flagged s" "attended s"
    using pool_inv_reachable[OF assms(1)] by (auto simp: pool_inv_def)
  have free: "pool_mutex s = None" "sem_mutex (pool_sem s) = None"
    using holder_steps sem_holder_steps[OF i(1)] exclusive_holder[OF i(2)] assms(4)
    by (metis not_None_eq)+
  have at: "pool_at s t \<in> {Idle, Not_Created} \<or> t \<in> sem_waiting (pool_sem s)" for t
    using blocked_at[OF i(1) free assms(4,2) i(5)] .
  have none: "tally P (pool_at s) = 0"
    if "\<not> P Idle" "\<not> P Not_Created" "\<not> P (Run_Acquire Acq_Wait)" for P
  proof -
    have "\<not> P (pool_at s t)" for t
      using at[of t] flagged_facts(5)[OF i(5), of t] that by auto
    then show ?thesis by (simp add: tally_def)
  qed
  have waits: "u \<in> sem_waiting (pool_sem s)" if u: "u \<in> set (pool_threads s)" for u
  proof -
    obtain j where "u = Worker j" "j < length (pool_threads s)"
      using u i(1) unfolding well_placed_def by (metis atLeastLessThan_iff imageE set_map set_upt)
    then have "at_worker (pool_at s u)" using well_placed_worker[OF i(1)] by simp
    then show ?thesis using at[of u] by auto
  qed
  have "pool_at s t \<noteq> Queue_Release Rel_Notify" for t
    using at[of t] flagged_facts(5)[OF i(5), of t] by auto
  then have "sem_count (pool_sem s) \<le> 0"
    using i(6) assms(2,3) waits unfolding attended_def by blast
  then have queue: "pool_queue s = []"
    using i(3) none[of owns] none[of owes] by (simp add: balanced_def)
  have "count (mset (ran s)) f = count (mset (submitted s)) f" for f
  proof -
    have "int (count (mset (taken s)) f) = int (count (mset (ran s)) f) + tally (carries f) (pool_at s)"
      using i(4) unfolding orderly_def by blast
    then show ?thesis
      using none[of "carries f"] orderly_fifo[OF i(4)] queue by simp
  qed
  then show ?thesis
    using queue waits by (simp add: multiset_eq_iff)
qed

text \<open>Runs with one worker and one client, state by state.\<close>

definition one_worker ::
  "'f pool_pc \<Rightarrow> 'f pool_pc \<Rightarrow> thread option \<Rightarrow> 'f list \<Rightarrow> thread semaphore \<Rightarrow> bool \<Rightarrow> 'f pool" where
  "one_worker w c x q m d = \<lparr>pool_mutex = x, pool_queue = q, pool_threads = [Worker 0],
     pool_sem = m, pool_done = d,
     pool_at = (pool_at pool_new)(Worker 0 := w, Client 0 := c),
     pool_joined = {}, pool_fault = None, submitted = q, taken = [], ran = []\<rparr>"

lemma one_worker_simps [simp]:
  "pool_at (one_worker w c x q m d) (Worker 0) = w"
  "pool_at (one_worker w c x q m d) (Client 0) = c"
  "pool_mutex (one_worker w c x q m d) = x" "pool_queue (one_worker w c x q m d) = q"
  "pool_sem (one_worker w c x q m d) = m" "pool_done (one_worker w c x q m d) = d"
  "pool_threads (one_worker w c x q m d) = [Worker 0]"
  "pool_joined (one_worker w c x q m d) = {}"
  "goto (Worker 0) p (one_worker w c x q m d) = one_worker p c x q m d"
  "goto (Client 0) p (one_worker w c x q m d) = one_worker w p x q m d"
  "(one_worker w c x q m d)\<lparr>pool_sem := m'\<rparr> = one_worker w c x q m' d"
  "(one_worker w c x q m d)\<lparr>pool_mutex := x'\<rparr> = one_worker w c x' q m d"
  "(one_worker w c x q m d)\<lparr>pool_done := d'\<rparr> = one_worker w c x q m d'"
  by (auto simp: one_worker_def goto_def fun_upd_twist)

lemma one_worker_others:
  "t \<noteq> Worker 0 \<Longrightarrow> t \<noteq> Client 0 \<Longrightarrow> pool_at (one_worker w c x q m d) t \<in> {Idle, Not_Created}"
  by (cases t) (auto simp: one_worker_def)

lemma reach_step: "pool_reachable s \<Longrightarrow> thread_step t s s' \<Longrightarrow> s' = u \<Longrightarrow> pool_reachable u"
  by (simp add: pool_thread)

lemma one_worker_start: "pool_reachable (one_worker (Run_Acquire Acq_Enter) Idle None [] (sem_new 0) False)"
proof -
  let ?c = "Client 0"
  have a: "pool_reachable (goto ?c (Start_Test 1) pool_new)"
    by (rule pool_env[OF pool_start call_start]) simp
  have b: "pool_reachable (goto ?c (Start_Loop 1) (goto ?c (Start_Test 1) pool_new))"
    by (rule pool_thread[OF a step_start[OF start_test]]) (simp_all add: pool_new_def)
  have c: "pool_reachable (goto ?c (Start_Loop 0) (goto (Worker 0) (Run_Acquire Acq_Enter)
      ((goto ?c (Start_Loop 1) (goto ?c (Start_Test 1) pool_new))\<lparr>pool_threads := [Worker 0]\<rparr>)))"
    by (rule reach_step[OF b step_start[OF start_create]]) (simp_all add: pool_new_def)
  show ?thesis
    by (rule reach_step[OF c step_start[OF start_return]])
      (auto simp: one_worker_def goto_def pool_new_def fun_eq_iff split: thread.splits)
qed

lemma worker_acquires:
  assumes "pool_reachable (one_worker (Run_Acquire p) c x q m d)"
    and "acquire_step (Worker 0) m p m' p'"
  shows "pool_reachable (one_worker (Run_Acquire p') c x q m' d)"
  by (rule reach_step[OF assms(1) step_run[OF run_acquire[where t = "Worker 0" and m = m']]])
    (use assms(2) in simp_all)

lemma client_interrupts:
  assumes "pool_reachable (one_worker w (Join_Interrupt p) x q m d)"
    and "interrupt_step (Client 0) m p m' p'"
  shows "pool_reachable (one_worker w (Join_Interrupt p') x q m' d)"
  by (rule reach_step[OF assms(1) step_join[OF join_interrupt[where t = "Client 0" and m = m']]])
    (use assms(2) in simp_all)

text \<open>The worker up to the test of the count, and its wait.\<close>

definition sem_held :: "bool \<Rightarrow> thread semaphore" where
  "sem_held d = (sem_new 0)\<lparr>sem_mutex := Some (Worker 0), sem_done := d\<rparr>"

definition sem_asleep :: "bool \<Rightarrow> thread semaphore" where
  "sem_asleep d = (sem_new 0)\<lparr>sem_waiting := {Worker 0}, sem_done := d\<rparr>"

lemma worker_tests: "pool_reachable (one_worker (Run_Acquire Acq_Test) Idle None [] (sem_held False) False)"
  by (rule worker_acquires[OF worker_acquires[OF one_worker_start acq_enter]])
    (auto simp: sem_held_def sem_new_def acquire_step.simps)

lemma worker_sleeps:
  "pool_reachable (one_worker (Run_Acquire Acq_Test) c x q (sem_held d) e) \<Longrightarrow>
   pool_reachable (one_worker (Run_Acquire Acq_Wait) c x q (sem_asleep d) e)"
  by (erule worker_acquires) (simp add: sem_held_def sem_asleep_def sem_new_def acquire_step.simps)

lemma asleep_blocked: "\<not> acquire_step (Worker 0) (sem_asleep d) Acq_Wait m q"
  by (auto simp: acquire_step.simps sem_asleep_def)

lemma one_worker_stuck:
  assumes "w = Run_Acquire Acq_Wait" "m = sem_asleep e" "c = Idle \<or> c = Join_Loop 0"
  shows "\<not> thread_step t (one_worker w c x q m d) s'"
proof
  assume "thread_step t (one_worker w c x q m d) s'"
  then show False
    using assms asleep_blocked[of e] one_worker_others[of t w c x q m d]
    by (cases "t = Worker 0"; cases "t = Client 0") (auto elim!: pool_stepE)
qed

text \<open>
  C39: interrupt() does not take mutex_, so it can fall between a worker's test of
  count_ and its wait: the notification is lost, and join() waits for a worker that
  sleeps in acquire() although both flags are set, and no thread of the pool can move.
\<close>

theorem pool_lost_interrupt:
  "\<exists>s :: 'f pool. pool_reachable s \<and> pool_done s \<and> sem_done (pool_sem s) \<and>
     pool_at s (Client 0) = Join_Loop 0 \<and> Worker 0 \<in> sem_waiting (pool_sem s) \<and>
     (\<forall>t s'. \<not> thread_step t s s')"
proof -
  let ?w = "Run_Acquire Acq_Test :: 'f pool_pc"
  have a: "pool_reachable (one_worker ?w Join_Test None [] (sem_held False) False)"
    using pool_env[OF worker_tests call_join[of _ "Client 0"]] by simp
  have b: "pool_reachable (one_worker ?w Join_Set None [] (sem_held False) False)"
    by (rule reach_step[OF a step_join[OF join_go[where t = "Client 0"]]]) simp_all
  have c: "pool_reachable (one_worker ?w (Join_Interrupt Int_Enter) None [] (sem_held False) True)"
    by (rule reach_step[OF b step_join[OF join_set[where t = "Client 0"]]]) simp_all
  have d: "pool_reachable (one_worker ?w (Join_Interrupt (Returned True)) None [] (sem_held True) True)"
    using client_interrupts[OF client_interrupts[OF c int_set] interrupt_step.int_notify]
    by (simp add: sem_held_def sem_new_def)
  have e: "pool_reachable (one_worker ?w (Join_Loop 0) None [] (sem_held True) True)"
    by (rule reach_step[OF d step_join[OF join_interrupted[where t = "Client 0"]]]) simp_all
  let ?s = "one_worker (Run_Acquire Acq_Wait :: 'f pool_pc) (Join_Loop 0) None [] (sem_asleep True) True"
  have "pool_reachable ?s" by (rule worker_sleeps[OF e])
  moreover have "\<not> thread_step t ?s s'" for t s'
    by (rule one_worker_stuck) simp_all
  ultimately show ?thesis
    by (intro exI[of _ ?s]) (simp add: sem_asleep_def)
qed

theorem pool_safe_witness:
  "pool_reachable (one_worker (Run_Acquire Acq_Enter) Idle None ([] :: nat list) (sem_new 0) False) \<and>
   pool_fault (one_worker (Run_Acquire Acq_Enter) Idle None ([] :: nat list) (sem_new 0) False)
     \<noteq> Some Empty_Front"
  using pool_safe[OF one_worker_start] one_worker_start by blast

theorem pool_quiescent_witness:
  "let s = one_worker (Run_Acquire Acq_Wait) Idle None ([] :: nat list) (sem_asleep False) False
   in pool_reachable s \<and> pool_queue s = [] \<and> mset (ran s) = mset (submitted s)"
proof -
  let ?s = "one_worker (Run_Acquire Acq_Wait) Idle None ([] :: nat list) (sem_asleep False) False"
  have reached: "pool_reachable ?s" by (rule worker_sleeps[OF worker_tests])
  have "pool_queue ?s = [] \<and> mset (ran ?s) = mset (submitted ?s) \<and>
      (\<forall>u \<in> set (pool_threads ?s). u \<in> sem_waiting (pool_sem ?s))"
    by (rule pool_quiescent[OF reached]) (simp_all add: one_worker_stuck)
  then show ?thesis using reached unfolding Let_def by blast
qed

end
