(* ===== verification/Branch_Id.thy ===== *)
theory Branch_Id
  imports Flecsi_Prelude Complex_Main
begin

unbundle bit_operations_syntax

text \<open>
  The branch identifiers of topology/tree_topology.h (branch_id_u).

  The integer type T is a machine word, the dimension an argument.  An identifier is a
  leading one, at position (bits - 1) mod dimension above a multiple of the dimension, and
  below it the digits of the path from the root, dimension bits each.  The element type S
  is a template parameter of the code; the model instantiates it with the rationals, so
  that no rounding takes place.  A shift by the width or more, and a conversion of a value
  that does not fit the integer type, are undefined.  abs_path gives an identifier its
  meaning as a path; the lemmas show that the operations are those of paths.
\<close>

definition max_branch_depth :: "'w::len itself \<Rightarrow> nat \<Rightarrow> nat" where
  "max_branch_depth T dims = (LENGTH('w) - 1) div dims"

definition branch_root :: "nat \<Rightarrow> 'w::len word" where
  "branch_root dims = push_bit ((LENGTH('w) - 1) mod dims) 1"

definition branch_null :: "'w::len word" where
  "branch_null = 0"

definition branch_is_null :: "'w::len word \<Rightarrow> bool" where
  "branch_is_null bid \<longleftrightarrow> bid = 0"

lemma drop_bit_less:
  assumes "0 < k" "drop_bit k x \<noteq> 0"
  shows "unat (drop_bit k x) < unat x"
proof -
  have drop: "unat (drop_bit k x) = unat x div 2 ^ k"
    by (subst unat_drop_bit_eq) (rule drop_bit_eq_div)
  moreover have "unat (drop_bit k x) \<noteq> 0" using assms(2) unat_eq_zero by blast
  ultimately have "0 < unat x" by (cases "unat x") simp_all
  moreover have "1 < (2 :: nat) ^ k" using assms(1) by (intro one_less_power) simp_all
  ultimately show ?thesis
    unfolding drop by (rule div_less_dividend[rotated])
qed

function branch_depth :: "nat \<Rightarrow> 'w::len word \<Rightarrow> nat" where
  "branch_depth dims bid =
     (if dims = 0 \<or> drop_bit dims bid = 0 then 0 else Suc (branch_depth dims (drop_bit dims bid)))"
  by auto
termination
proof (relation "measure (\<lambda>(dims, bid). unat bid)")
  fix dims :: nat and bid :: "'w::len word"
  assume "\<not> (dims = 0 \<or> drop_bit dims bid = 0)"
  then show "((dims, drop_bit dims bid), dims, bid) \<in> measure (\<lambda>(dims, bid). unat bid)"
    using drop_bit_less by auto
qed simp

declare branch_depth.simps [simp del]

definition branch_push :: "nat \<Rightarrow> 'w::len word \<Rightarrow> 'w word \<Rightarrow> 'w word outcome" where
  "branch_push dims b bid = require (b < push_bit dims 1) (ok (push_bit dims bid OR b))"

definition branch_pop :: "nat \<Rightarrow> 'w::len word \<Rightarrow> 'w word outcome" where
  "branch_pop dims bid = require (0 < branch_depth dims bid) (ok (drop_bit dims bid))"

definition branch_pop_by :: "nat \<Rightarrow> nat \<Rightarrow> 'w::len word \<Rightarrow> 'w word outcome" where
  "branch_pop_by dims d bid = require (branch_depth dims bid \<le> d)
     (if d * dims < LENGTH('w) then ok (drop_bit (d * dims) bid) else fail Undefined)"

definition branch_parent :: "nat \<Rightarrow> 'w::len word \<Rightarrow> 'w word" where
  "branch_parent dims bid = drop_bit dims bid"

definition branch_truncate :: "nat \<Rightarrow> nat \<Rightarrow> 'w::len word \<Rightarrow> 'w word" where
  "branch_truncate dims to_depth bid =
     (let d = branch_depth dims bid in
      if d < to_depth then bid else drop_bit ((d - to_depth) * dims) bid)"

text \<open>The constructor from a point: the cell of the point, and the bits of the cell.\<close>

definition to_branch_int :: "rat \<Rightarrow> 'w::len word outcome" where
  "to_branch_int x =
     (if - 1 < x \<and> x < 2 ^ LENGTH('w) then ok (of_int (if 0 \<le> x then \<lfloor>x\<rfloor> else 0)) else fail Undefined)"

definition branch_coord :: "nat \<Rightarrow> rat \<Rightarrow> rat \<Rightarrow> rat \<Rightarrow> 'w::len word outcome" where
  "branch_coord dims lo hi x =
     (let scale = hi - lo in
      if scale = 0 then fail Undefined
      else to_branch_int ((x - lo) / scale * 2 ^ max_branch_depth TYPE('w) dims))"

definition branch_bits :: "nat \<Rightarrow> 'w::len word list \<Rightarrow> nat \<Rightarrow> 'w word" where
  "branch_bits dims coords depth =
     fold (\<lambda>k. fold (\<lambda>j bid.
         let i = max_branch_depth TYPE('w) dims - depth + k;
             b = drop_bit i (coords ! j AND push_bit i 1)
         in bid OR push_bit (k * dims + j) b) [0..<dims])
       [0..<depth] (push_bit (depth * dims + (LENGTH('w) - 1) mod dims) 1)"

definition branch_at ::
  "nat \<Rightarrow> rat list \<Rightarrow> rat list \<Rightarrow> rat list \<Rightarrow> nat \<Rightarrow> 'w::len word outcome" where
  "branch_at dims lo hi p depth =
     (if max_branch_depth TYPE('w) dims < depth then fail Undefined
      else and_then (traverse (\<lambda>i. branch_coord dims (lo ! i) (hi ! i) (p ! i)) [0..<dims])
        (\<lambda>coords. ok (branch_bits dims coords depth)))"

text \<open>The lower corner of a branch, as the code computes it.\<close>

function branch_unpack :: "nat \<Rightarrow> 'w::len word \<Rightarrow> nat \<Rightarrow> 'w word list \<Rightarrow> 'w word list \<times> nat" where
  "branch_unpack dims bid d coords =
     (if dims = 0 \<or> drop_bit dims bid = 0 then (coords, d)
      else branch_unpack dims (drop_bit dims bid) (Suc d)
        (map (\<lambda>j. coords ! j OR push_bit d (drop_bit j (push_bit j 1 AND bid))) [0..<dims]))"
  by auto
termination
proof (relation "measure (\<lambda>(dims, bid, d, coords). unat bid)")
  fix dims d :: nat and bid :: "'w::len word" and coords :: "'w word list"
  assume "\<not> (dims = 0 \<or> drop_bit dims bid = 0)"
  then show "((dims, drop_bit dims bid, Suc d,
      map (\<lambda>j. coords ! j OR push_bit d (drop_bit j (push_bit j 1 AND bid))) [0..<dims]), dims, bid, d, coords)
      \<in> measure (\<lambda>(dims, bid, d, coords). unat bid)"
    using drop_bit_less by auto
qed simp

declare branch_unpack.simps [simp del]

definition branch_corner :: "nat \<Rightarrow> rat list \<Rightarrow> rat list \<Rightarrow> 'w::len word \<Rightarrow> rat list" where
  "branch_corner dims lo hi bid =
     (let md = max_branch_depth TYPE('w) dims;
          (coords, d) = branch_unpack dims bid 0 (replicate dims 0);
          m = push_bit md 1 - 1 :: 'w word
      in map (\<lambda>j. lo ! j + (hi ! j - lo ! j) *
           of_nat (unat (push_bit (md - d) (coords ! j))) / of_nat (unat m)) [0..<dims])"

text \<open>Paths.\<close>

definition digits :: "nat \<Rightarrow> nat list \<Rightarrow> bool" where
  "digits dims p \<longleftrightarrow> (\<forall>b \<in> set p. b < 2 ^ dims)"

definition abs_path :: "nat \<Rightarrow> nat list \<Rightarrow> 'w::len word" where
  "abs_path dims p = foldl (\<lambda>bid b. push_bit dims bid OR of_nat b) (branch_root dims) p"

lemma digits_simps [simp]:
  "digits dims []" "digits dims (b # p) \<longleftrightarrow> b < 2 ^ dims \<and> digits dims p"
  "digits dims (p @ q) \<longleftrightarrow> digits dims p \<and> digits dims q"
  by (auto simp: digits_def)

lemma digits_take: "digits dims p \<Longrightarrow> digits dims (take n p)"
  by (auto simp: digits_def dest: in_set_takeD)

lemma abs_path_simps [simp]:
  "abs_path dims [] = branch_root dims"
  "abs_path dims (p @ [b]) = push_bit dims (abs_path dims p) OR of_nat b"
  by (simp_all add: abs_path_def)

lemma depth_bound:
  assumes "0 < dims" "n \<le> max_branch_depth TYPE('w::len) dims"
  shows "n * dims + (LENGTH('w) - 1) mod dims < LENGTH('w)"
proof -
  have "n * dims \<le> (LENGTH('w) - 1) div dims * dims"
    using assms(2) by (simp add: max_branch_depth_def)
  then have "n * dims + (LENGTH('w) - 1) mod dims \<le> LENGTH('w) - 1"
    using div_mult_mod_eq[of "LENGTH('w) - 1" dims] by linarith
  then show ?thesis using len_gt_0[where 'a = 'w] by linarith
qed

lemma bit_digit: "b < 2 ^ dims \<Longrightarrow> bit b n \<Longrightarrow> n < dims" for b :: nat
  by (metis bit_take_bit_iff take_bit_nat_eq_self)

lemma bit_abs_path:
  assumes "0 < dims" "digits dims p" "length p \<le> max_branch_depth TYPE('w::len) dims"
  shows "bit (abs_path dims p :: 'w word) n \<longleftrightarrow>
    n < length p * dims \<and> bit (rev p ! (n div dims)) (n mod dims) \<or>
    n = length p * dims + (LENGTH('w) - 1) mod dims"
  using assms(2,3)
proof (induction p arbitrary: n rule: rev_induct)
  case Nil
  then show ?case
    using depth_bound[OF assms(1), where 'w = 'w and n = 0]
    by (auto simp: branch_root_def bit_exp_iff)
next
  case (snoc b p)
  have b: "b < 2 ^ dims" "digits dims p" "length p \<le> max_branch_depth TYPE('w) dims"
    using snoc.prems by auto
  have len: "Suc (length p) * dims + (LENGTH('w) - 1) mod dims < LENGTH('w)"
    using depth_bound[OF assms(1), of "Suc (length p)"] snoc.prems by simp
  note ih = snoc.IH[OF b(2,3)]
  show ?case
  proof (cases "n < dims")
    case True
    then show ?thesis
      using len by (auto simp: bit_or_iff bit_push_bit_iff bit_of_nat_iff)
  next
    case False
    then obtain k where k: "n = dims + k" using le_Suc_ex not_less by blast
    have "\<not> bit b n" using bit_digit[OF b(1)] False by blast
    moreover have "(dims + k) div dims = Suc (k div dims)" "(dims + k) mod dims = k mod dims"
      using assms(1) by simp_all
    moreover have "bit (abs_path dims p :: 'w word) k \<Longrightarrow> dims + k < LENGTH('w)"
      using len unfolding ih by auto
    ultimately show ?thesis
      using ih[of k] unfolding k by (auto simp: bit_or_iff bit_push_bit_iff bit_of_nat_iff)
  qed
qed

lemma abs_path_nonzero:
  assumes "0 < dims" "digits dims p" "length p \<le> max_branch_depth TYPE('w::len) dims"
  shows "(abs_path dims p :: 'w word) \<noteq> 0"
  using bit_abs_path[OF assms, of "length p * dims + (LENGTH('w) - 1) mod dims"] by auto

lemma abs_path_root_drop:
  "0 < dims \<Longrightarrow> drop_bit dims (branch_root dims :: 'w::len word) = 0"
  by (rule bit_eqI)
    (auto simp: branch_root_def bit_drop_bit_eq bit_exp_iff dest: mod_less_divisor[of dims "LENGTH('w) - Suc 0"])

lemma drop_abs_path:
  assumes "0 < dims" "digits dims (p @ [b])" "length (p @ [b]) \<le> max_branch_depth TYPE('w::len) dims"
  shows "drop_bit dims (abs_path dims (p @ [b]) :: 'w word) = abs_path dims p"
proof (rule bit_eqI)
  fix n
  have p: "digits dims p" "length p \<le> max_branch_depth TYPE('w) dims"
    using assms by auto
  have "(dims + n) div dims = Suc (n div dims)" "(dims + n) mod dims = n mod dims"
    using assms(1) by simp_all
  then show "bit (drop_bit dims (abs_path dims (p @ [b]) :: 'w word)) n \<longleftrightarrow>
      bit (abs_path dims p :: 'w word) n"
    unfolding bit_drop_bit_eq comp_def bit_abs_path[OF assms] bit_abs_path[OF assms(1) p]
    by auto
qed

lemma depth_abs_path:
  assumes "0 < dims" "digits dims p" "length p \<le> max_branch_depth TYPE('w::len) dims"
  shows "branch_depth dims (abs_path dims p :: 'w word) = length p"
  using assms(2,3)
proof (induction p rule: rev_induct)
  case Nil
  then show ?case
    using abs_path_root_drop[OF assms(1), where 'w = 'w] by (simp add: branch_depth.simps)
next
  case (snoc b p)
  have "drop_bit dims (abs_path dims (p @ [b]) :: 'w word) = abs_path dims p"
    using drop_abs_path[OF assms(1) snoc.prems] .
  moreover have "(abs_path dims p :: 'w word) \<noteq> 0"
    using abs_path_nonzero[OF assms(1), where 'w = 'w and p = p] snoc.prems by simp
  ultimately show ?case
    using snoc assms(1) by (subst branch_depth.simps) simp
qed

lemma unat_digit:
  assumes "b < 2 ^ dims" "dims \<le> LENGTH('w::len)"
  shows "unat (of_nat b :: 'w word) = b"
proof -
  have "b < 2 ^ LENGTH('w)"
    using assms by (meson less_le_trans one_le_numeral power_increasing)
  then show ?thesis by (simp add: unat_of_nat)
qed

lemma unat_two_power:
  assumes "n < LENGTH('w::len)"
  shows "unat (2 ^ n :: 'w word) = 2 ^ n"
proof -
  have "(2 :: 'w word) ^ n = of_nat (2 ^ n)" by simp
  also have "unat \<dots> = 2 ^ n"
    using assms unfolding unat_of_nat by (intro mod_less power_strict_increasing) simp_all
  finally show ?thesis .
qed

lemma abs_path_inject:
  assumes "0 < dims" "digits dims p" "digits dims q"
    and "length p \<le> max_branch_depth TYPE('w::len) dims" "length q \<le> max_branch_depth TYPE('w) dims"
    and eq: "(abs_path dims p :: 'w word) = abs_path dims q"
  shows "p = q"
proof (rule nth_equalityI)
  show len: "length p = length q"
    using depth_abs_path[OF assms(1,2,4)] depth_abs_path[OF assms(1,3,5)] eq by simp
  have "rev p ! k = rev q ! k" if k: "k < length p" for k
  proof (rule bit_eqI)
    fix n
    have small: "rev p ! k < 2 ^ dims" "rev q ! k < 2 ^ dims"
      using assms(2,3) k len by (auto simp: digits_def rev_nth)
    show "bit (rev p ! k) n \<longleftrightarrow> bit (rev q ! k) n"
    proof (cases "n < dims")
      case True
      have "k * dims + n < length p * dims"
      proof -
        have "Suc k * dims \<le> length p * dims" using k by (intro mult_le_mono1) simp
        then show ?thesis using True by simp
      qed
      moreover have "(k * dims + n) div dims = k" "(k * dims + n) mod dims = n"
        using True by simp_all
      ultimately show ?thesis
        using bit_abs_path[OF assms(1,2,4), of "k * dims + n"]
          bit_abs_path[OF assms(1,3,5), of "k * dims + n"] eq len by simp
    next
      case False
      then show ?thesis using bit_digit small by blast
    qed
  qed
  then have "rev p = rev q" by (intro nth_equalityI) (simp_all add: len)
  then show "p ! i = q ! i" if "i < length p" for i by simp
qed

text \<open>Dropping digits is taking a prefix.\<close>

lemma drop_abs_path_by:
  assumes "0 < dims" "digits dims p" "length p \<le> max_branch_depth TYPE('w::len) dims" "k \<le> length p"
  shows "drop_bit (k * dims) (abs_path dims p :: 'w word) = abs_path dims (take (length p - k) p)"
  using assms(4)
proof (induction k)
  case (Suc k)
  let ?q = "take (length p - k) p"
  have q: "?q = take (length p - Suc k) p @ [p ! (length p - Suc k)]"
    using take_Suc_conv_app_nth[of "length p - Suc k" p] Suc.prems by (simp add: Suc_diff_Suc)
  have "drop_bit (Suc k * dims) (abs_path dims p :: 'w word) =
      drop_bit dims (drop_bit (k * dims) (abs_path dims p))"
    by (simp add: drop_bit_drop_bit)
  also have "\<dots> = drop_bit dims (abs_path dims ?q)"
    using Suc by simp
  also have "\<dots> = abs_path dims (take (length p - Suc k) p)"
    unfolding q by (rule drop_abs_path[OF assms(1)])
      (use digits_take[OF assms(2), of "length p - k"] q assms(3) Suc.prems in auto)
  finally show ?case .
qed simp

lemma truncate_abs_path:
  assumes "0 < dims" "digits dims p" "length p \<le> max_branch_depth TYPE('w::len) dims"
  shows "branch_truncate dims n (abs_path dims p :: 'w word) = abs_path dims (take n p)"
  using drop_abs_path_by[OF assms, of "length p - n"]
  by (simp add: branch_truncate_def depth_abs_path[OF assms] Let_def)

text \<open>The path to the cell of a point, from the bits of its coordinates.\<close>

definition cell_digit :: "nat \<Rightarrow> 'w::len word list \<Rightarrow> nat \<Rightarrow> nat" where
  "cell_digit dims coords i = horner_sum of_bool 2 (map (\<lambda>j. bit (coords ! j) i) [0..<dims])"

definition cell_path :: "nat \<Rightarrow> 'w::len word list \<Rightarrow> nat \<Rightarrow> nat list" where
  "cell_path dims coords depth =
     map (\<lambda>t. cell_digit dims coords (max_branch_depth TYPE('w) dims - 1 - t)) [0..<depth]"

lemma bit_cell_digit: "bit (cell_digit dims coords i) n \<longleftrightarrow> n < dims \<and> bit (coords ! n) i"
  by (auto simp: cell_digit_def bit_horner_sum_bit_iff)

lemma cell_digit_less: "cell_digit dims coords i < 2 ^ dims"
  using horner_sum_of_bool_2_less[of "map (\<lambda>j. bit (coords ! j) i) [0..<dims]"]
  by (simp add: cell_digit_def)

lemma cell_path_digits [simp]: "digits dims (cell_path dims coords depth)"
  by (auto simp: digits_def cell_path_def cell_digit_less)

lemma cell_path_length [simp]: "length (cell_path dims coords depth) = depth"
  by (simp add: cell_path_def)

lemma take_cell_path: "n \<le> depth \<Longrightarrow> take n (cell_path dims coords depth) = cell_path dims coords n"
  by (simp add: cell_path_def take_map)

lemma bit_fold_or:
  "bit (fold (\<lambda>x w. w OR f x) xs w) n \<longleftrightarrow> bit w n \<or> (\<exists>x \<in> set xs. bit (f x) n)"
  for w :: "'w::len word"
  by (induction xs arbitrary: w) (auto simp: bit_or_iff)

lemma bit_fold_fold_or:
  "bit (fold (\<lambda>k. fold (\<lambda>j w. w OR f k j) ys) xs w) n \<longleftrightarrow>
     bit w n \<or> (\<exists>k \<in> set xs. \<exists>j \<in> set ys. bit (f k j) n)"
  for w :: "'w::len word"
  by (induction xs arbitrary: w) (auto simp: bit_fold_or)

lemma max_depth_bits: "0 < dims \<Longrightarrow> max_branch_depth TYPE('w::len) dims \<le> LENGTH('w) - 1"
  unfolding max_branch_depth_def by (rule div_le_dividend)

lemma branch_bits_path:
  fixes coords :: "'w::len word list"
  assumes "0 < dims" "depth \<le> max_branch_depth TYPE('w) dims"
  shows "branch_bits dims coords depth = abs_path dims (cell_path dims coords depth)"
proof (rule bit_eqI)
  fix n
  let ?md = "max_branch_depth TYPE('w) dims"
  have room: "depth * dims + (LENGTH('w) - 1) mod dims < LENGTH('w)"
    using depth_bound[OF assms] .
  have one: "bit (push_bit (k * dims + j) (drop_bit (?md - depth + k)
        (coords ! j AND push_bit (?md - depth + k) 1)) :: 'w word) n \<longleftrightarrow>
      n = k * dims + j \<and> bit (coords ! j) (?md - depth + k)"
    if "k < depth" "j < dims" for k j
  proof -
    have "?md - depth + k < LENGTH('w)"
      using max_depth_bits[OF assms(1), where 'w = 'w] assms(2) that(1) len_gt_0[where 'a = 'w] by linarith
    moreover have "k * dims + j < depth * dims"
      using that by (metis add.commute mult.commute mult_eq_if nat_mult_le_cancel_disj not_less0 add_less_le_mono
          less_le_trans mult_Suc_right Suc_leI add_strict_left_mono)
    ultimately show ?thesis
      using room by (auto simp: bit_push_bit_iff bit_drop_bit_eq bit_and_iff bit_exp_iff)
  qed
  have "bit (branch_bits dims coords depth) n \<longleftrightarrow>
      n = depth * dims + (LENGTH('w) - 1) mod dims \<or>
      (\<exists>k < depth. \<exists>j < dims. n = k * dims + j \<and> bit (coords ! j) (?md - depth + k))"
    unfolding branch_bits_def Let_def bit_fold_fold_or using room one
    by (auto simp: bit_exp_iff)
  also have "(\<exists>k < depth. \<exists>j < dims. n = k * dims + j \<and> bit (coords ! j) (?md - depth + k)) \<longleftrightarrow>
      n < depth * dims \<and> bit (rev (cell_path dims coords depth) ! (n div dims)) (n mod dims)"
    (is "?l \<longleftrightarrow> ?r")
  proof -
    have digit: "rev (cell_path dims coords depth) ! k = cell_digit dims coords (?md - depth + k)"
      if "k < depth" for k
      using that assms(2) by (simp add: rev_nth) (simp add: cell_path_def)
    show ?thesis
    proof
      assume ?l
      then obtain k j where kj: "k < depth" "j < dims" "n = k * dims + j"
        "bit (coords ! j) (?md - depth + k)" by blast
      then have "n div dims = k" "n mod dims = j" by simp_all
      then show ?r using kj digit[OF kj(1)] by (simp add: bit_cell_digit div_less_iff_less_mult[symmetric] assms(1))
    next
      assume r: ?r
      then have k: "n div dims < depth" using assms(1) by (simp add: div_less_iff_less_mult)
      have "n = n div dims * dims + n mod dims" "n mod dims < dims" using assms(1) by simp_all
      moreover have "bit (coords ! (n mod dims)) (?md - depth + n div dims)"
        using r digit[OF k] by (simp add: bit_cell_digit)
      ultimately show ?l using k by blast
    qed
  qed
  finally show "bit (branch_bits dims coords depth) n \<longleftrightarrow>
      bit (abs_path dims (cell_path dims coords depth) :: 'w word) n"
    using bit_abs_path[where 'w = 'w and p = "cell_path dims coords depth" and n = n, OF assms(1)]
      assms(2) by auto
qed

text \<open>Unpacking an identifier returns the bits of its path.\<close>

lemma unpack_abs_path:
  assumes "0 < dims" "digits dims p" "length p + d \<le> max_branch_depth TYPE('w::len) dims"
    "length coords = dims"
  shows "\<exists>coords'. branch_unpack dims (abs_path dims p :: 'w word) d coords = (coords', d + length p) \<and>
    length coords' = dims \<and> (\<forall>j < dims. \<forall>n. bit (coords' ! j) n \<longleftrightarrow>
      bit (coords ! j) n \<or> d \<le> n \<and> n < d + length p \<and> bit (rev p ! (n - d)) j)"
  using assms(2-4)
proof (induction p arbitrary: d coords rule: rev_induct)
  case Nil
  then show ?case
    using abs_path_root_drop[OF assms(1), where 'w = 'w] by (auto simp: branch_unpack.simps)
next
  case (snoc b p)
  let ?i = "abs_path dims (p @ [b]) :: 'w word"
  let ?c = "map (\<lambda>j. coords ! j OR push_bit d (drop_bit j (push_bit j 1 AND ?i))) [0..<dims]"
  have p: "digits dims p" "length p + Suc d \<le> max_branch_depth TYPE('w) dims" "b < 2 ^ dims"
    using snoc.prems by auto
  have drop: "drop_bit dims ?i = abs_path dims p"
    by (rule drop_abs_path[OF assms(1) snoc.prems(1)]) (use snoc.prems(2) in simp)
  have "(abs_path dims p :: 'w word) \<noteq> 0"
    using abs_path_nonzero[OF assms(1) p(1), where 'w = 'w] p(2) by simp
  then have step: "branch_unpack dims ?i d coords = branch_unpack dims (abs_path dims p) (Suc d) ?c"
    using assms(1) by (subst branch_unpack.simps) (simp only: drop, simp)
  obtain c' where c': "branch_unpack dims (abs_path dims p :: 'w word) (Suc d) ?c = (c', Suc d + length p)"
    "length c' = dims" "\<And>j n. j < dims \<Longrightarrow> bit (c' ! j) n \<longleftrightarrow>
      bit (?c ! j) n \<or> Suc d \<le> n \<and> n < Suc d + length p \<and> bit (rev p ! (n - Suc d)) j"
    using snoc.IH[OF p(1,2), of ?c] by auto
  have room: "d < LENGTH('w)" "dims < LENGTH('w)"
    using max_depth_bits[OF assms(1), where 'w = 'w] p(2)
      depth_bound[OF assms(1), where 'w = 'w and n = 1] by auto
  have low: "bit (?c ! j) n \<longleftrightarrow> bit (coords ! j) n \<or> n = d \<and> bit b j" if j: "j < dims" for j n
  proof -
    have "bit ?i j \<longleftrightarrow> bit b j"
      using j bit_digit[OF p(3)] room
      by (auto simp: bit_or_iff bit_push_bit_iff bit_of_nat_iff)
    then show ?thesis
      using j room
      by (auto simp: bit_or_iff bit_push_bit_iff bit_drop_bit_eq bit_and_iff bit_exp_iff
          simp del: abs_path_simps)
  qed
  have "bit (c' ! j) n \<longleftrightarrow> bit (coords ! j) n \<or> d \<le> n \<and> n < d + length (p @ [b]) \<and>
      bit (rev (p @ [b]) ! (n - d)) j" if j: "j < dims" for j n
  proof (cases "n \<le> d")
    case True
    then show ?thesis using c'(3)[OF j] low[OF j] by auto
  next
    case False
    then obtain k where "n = Suc d + k" using less_imp_Suc_add not_le by (metis add_Suc)
    then show ?thesis using c'(3)[OF j] low[OF j] by auto
  qed
  then show ?case
    using c'(1,2) by (intro exI[of _ c']) (simp only: step, simp)
qed

text \<open>
  C27: branch identifiers are paths: with digits below 2 ^ dimension and no more of
  them than max_depth, depth counts them, push appends one, pop and parent drop the last,
  truncate takes a prefix, different paths have different identifiers, and no path is the
  null identifier.
\<close>

theorem branch_paths:
  assumes "0 < dims" "digits dims p" "length p \<le> max_branch_depth TYPE('w::len) dims"
  shows "branch_depth dims (abs_path dims p :: 'w word) = length p \<and>
    \<not> branch_is_null (abs_path dims p :: 'w word) \<and>
    (\<forall>b. b < 2 ^ dims \<and> length p < max_branch_depth TYPE('w) dims \<longrightarrow>
      branch_push dims (of_nat b) (abs_path dims p :: 'w word) = ok (abs_path dims (p @ [b]))) \<and>
    (p \<noteq> [] \<longrightarrow> branch_pop dims (abs_path dims p :: 'w word) = ok (abs_path dims (butlast p)) \<and>
      branch_parent dims (abs_path dims p :: 'w word) = abs_path dims (butlast p)) \<and>
    (\<forall>n. branch_truncate dims n (abs_path dims p :: 'w word) = abs_path dims (take n p)) \<and>
    (\<forall>q. digits dims q \<and> length q \<le> max_branch_depth TYPE('w) dims \<and>
      (abs_path dims q :: 'w word) = abs_path dims p \<longrightarrow> q = p)"
proof (intro conjI allI impI; (elim conjE)?)
  show "branch_depth dims (abs_path dims p :: 'w word) = length p"
    by (rule depth_abs_path[OF assms])
  show "\<not> branch_is_null (abs_path dims p :: 'w word)"
    using abs_path_nonzero[OF assms] by (simp add: branch_is_null_def)
  show "branch_push dims (of_nat b) (abs_path dims p :: 'w word) = ok (abs_path dims (p @ [b]))"
    if b: "b < 2 ^ dims" and p: "length p < max_branch_depth TYPE('w) dims" for b
  proof -
    have "dims < LENGTH('w)"
      using depth_bound[OF assms(1), where 'w = 'w and n = 1] p by simp
    then have "(of_nat b :: 'w word) < push_bit dims 1"
      using b by (simp add: word_less_nat_alt unat_digit unat_two_power)
    then show ?thesis by (simp add: branch_push_def)
  qed
  show "branch_pop dims (abs_path dims p :: 'w word) = ok (abs_path dims (butlast p))"
    and "branch_parent dims (abs_path dims p :: 'w word) = abs_path dims (butlast p)" if "p \<noteq> []"
  proof -
    have "drop_bit dims (abs_path dims p :: 'w word) = abs_path dims (butlast p)"
      using drop_abs_path_by[OF assms, of 1] that by (cases p rule: rev_cases) auto
    then show "branch_pop dims (abs_path dims p :: 'w word) = ok (abs_path dims (butlast p))"
      and "branch_parent dims (abs_path dims p :: 'w word) = abs_path dims (butlast p)"
      using that by (simp_all add: branch_pop_def branch_parent_def depth_abs_path[OF assms])
  qed
  show "branch_truncate dims n (abs_path dims p :: 'w word) = abs_path dims (take n p)" for n
    by (rule truncate_abs_path[OF assms])
  show "q = p" if "digits dims q" "length q \<le> max_branch_depth TYPE('w) dims"
    "(abs_path dims q :: 'w word) = abs_path dims p" for q
    using abs_path_inject[OF assms(1) that(1) assms(2) that(2) assms(3)] that(3) by simp
qed

theorem branch_paths_witness:
  "branch_depth 3 (abs_path 3 [5, 2, 7] :: 64 word) = 3 \<and>
   branch_truncate 3 2 (abs_path 3 [5, 2, 7] :: 64 word) = abs_path 3 [5, 2]"
proof -
  have "digits 3 [5, 2, 7]" "length [5, 2, 7 :: nat] \<le> max_branch_depth TYPE(64) 3"
    by (simp_all add: max_branch_depth_def)
  then show ?thesis using branch_paths[of 3 "[5, 2, 7]", where 'w = 64] by simp
qed

text \<open>pop(d) insists on removing at least all digits.\<close>

lemma branch_pop_by_asserts:
  assumes "0 < dims" "digits dims p" "length p \<le> max_branch_depth TYPE('w::len) dims" "d < length p"
  shows "branch_pop_by dims d (abs_path dims p :: 'w word) = fail Assert_failed"
  using assms(4) by (simp add: branch_pop_by_def depth_abs_path[OF assms(1-3)] require_def)

text \<open>Identifiers made from points.\<close>

lemma branch_at_ok:
  assumes "0 < dims" "branch_at dims lo hi x depth = ok (bid :: 'w::len word)"
  obtains coords :: "'w::len word list" where
    "traverse (\<lambda>i. branch_coord dims (lo ! i) (hi ! i) (x ! i)) [0..<dims] = ok coords"
    "depth \<le> max_branch_depth TYPE('w) dims" "bid = abs_path dims (cell_path dims coords depth)"
  using assms(2) branch_bits_path[OF assms(1), where 'w = 'w]
  by (auto simp: branch_at_def split: if_splits)

text \<open>
  the identifier of a point at one depth, truncated to a smaller depth, is its
  identifier at the smaller depth; the depth of the identifier is the one asked for.
\<close>

theorem branch_at_prefix:
  assumes "0 < dims" "branch_at dims lo hi x depth = ok (bid :: 'w::len word)"
  shows "branch_depth dims bid = depth \<and>
    (\<forall>n \<le> depth. branch_at dims lo hi x n = ok (branch_truncate dims n bid))"
proof -
  obtain coords :: "'w word list" where c:
    "traverse (\<lambda>i. branch_coord dims (lo ! i) (hi ! i) (x ! i)) [0..<dims] = ok coords"
    "depth \<le> max_branch_depth TYPE('w) dims" "bid = abs_path dims (cell_path dims coords depth)"
    by (rule branch_at_ok[OF assms])
  have "branch_at dims lo hi x n = ok (branch_truncate dims n bid)" if "n \<le> depth" for n
  proof -
    have "branch_truncate dims n bid = abs_path dims (cell_path dims coords n)"
      using truncate_abs_path[OF assms(1), where 'w = 'w and p = "cell_path dims coords depth"]
        c(2,3) that by (simp add: take_cell_path)
    moreover have "branch_bits dims coords n = abs_path dims (cell_path dims coords n)"
      by (rule branch_bits_path[OF assms(1)]) (use that c(2) in simp)
    ultimately show ?thesis using c(1,2) that by (simp add: branch_at_def)
  qed
  then show ?thesis
    using depth_abs_path[OF assms(1), where 'w = 'w and p = "cell_path dims coords depth"] c(2,3)
    by simp
qed

text \<open>
  a point on the upper boundary of the range is put into the cells of the lower
  boundary.
\<close>

lemma upper_coord:
  assumes "0 < dims" "lo \<noteq> hi"
  shows "branch_coord dims lo hi hi = ok (2 ^ max_branch_depth TYPE('w::len) dims :: 'w word)"
proof -
  have "(2 :: rat) ^ max_branch_depth TYPE('w) dims < 2 ^ LENGTH('w)"
    using max_depth_bits[OF assms(1), where 'w = 'w] len_gt_0[where 'a = 'w]
    by (intro power_strict_increasing) linarith+
  then show ?thesis
    using assms(2) by (simp add: branch_coord_def to_branch_int_def)
      (simp add: less_le_trans[of "-1" 0])
qed

lemma lower_coord: "lo \<noteq> hi \<Longrightarrow> branch_coord dims lo hi lo = ok 0"
  by (simp add: branch_coord_def to_branch_int_def)

theorem branch_at_upper:
  assumes "0 < dims" "\<forall>i < dims. lo ! i \<noteq> hi ! i"
  shows "branch_at dims lo hi hi depth = (branch_at dims lo hi lo depth :: 'w::len word outcome)"
proof (cases "depth \<le> max_branch_depth TYPE('w) dims")
  case True
  let ?md = "max_branch_depth TYPE('w) dims"
  let ?h = "map (\<lambda>i. 2 ^ ?md :: 'w word) [0..<dims]" and ?l = "map (\<lambda>i. 0 :: 'w word) [0..<dims]"
  have h: "traverse (\<lambda>i. branch_coord dims (lo ! i) (hi ! i) (hi ! i)) [0..<dims] = ok ?h"
    by (rule traverse_ok) (use assms upper_coord[where 'w = 'w] in auto)
  have l: "traverse (\<lambda>i. branch_coord dims (lo ! i) (hi ! i) (lo ! i)) [0..<dims] = ok ?l"
    by (rule traverse_ok) (use assms lower_coord in auto)
  have "cell_digit dims ?h i = cell_digit dims ?l i" if "i < ?md" for i
    by (rule bit_eqI) (use that in \<open>auto simp: bit_cell_digit bit_exp_iff\<close>)
  then have "cell_path dims ?h depth = cell_path dims ?l depth"
    using True by (auto simp: cell_path_def)
  then show ?thesis
    using True by (simp add: branch_at_def h l branch_bits_path[OF assms(1) True])
next
  case False
  then show ?thesis by (simp add: branch_at_def)
qed

theorem branch_at_prefix_witness:
  "\<exists>bid. branch_at 2 [0, 0] [1, 1] [1 / 2, 1 / 4] 2 = ok (bid :: 8 word) \<and> branch_depth 2 bid = 2 \<and>
     branch_at 2 [0, 0] [1, 1] [1 / 2, 1 / 4] 1 = ok (branch_truncate 2 1 bid)"
proof -
  have "\<exists>bid. branch_at 2 [0, 0] [1, 1] [1 / 2, 1 / 4] 2 = ok (bid :: 8 word)"
    by (simp add: branch_at_def branch_coord_def to_branch_int_def max_branch_depth_def upt_rec)
  then obtain bid where b: "branch_at 2 [0, 0] [1, 1] [1 / 2, 1 / 4] 2 = ok (bid :: 8 word)" by blast
  show ?thesis using branch_at_prefix[OF _ b] b by auto
qed

theorem branch_at_upper_witness:
  "branch_at 1 [0] [1] [1] 3 = (branch_at 1 [0] [1] [0] 3 :: 8 word outcome)"
  using branch_at_upper[of 1 "[0]" "[1]" 3, where 'w = 8] by simp

end
