(* ===== verification/Tree_Geometry.thy ===== *)
theory Tree_Geometry
  imports Branch_Id
begin

text \<open>
  The geometric tests of topology/tree_topology.h (tree_geometry_u) for one, two and three
  dimensions, on points with rational coordinates.  distance() of geometry/point.h is the
  square root of a sum; its comparison with a radius is stated on the squares.
\<close>

definition sq_distance :: "rat list \<Rightarrow> rat list \<Rightarrow> rat" where
  "sq_distance a b = sum_list (map (\<lambda>(x, y). (x - y) * (x - y)) (zip a b))"

definition within_1 :: "rat list \<Rightarrow> rat list \<Rightarrow> rat \<Rightarrow> bool" where
  "within_1 origin center radius \<longleftrightarrow> 0 \<le> radius \<and> sq_distance origin center \<le> radius\<^sup>2"

definition within_box_1 :: "rat list \<Rightarrow> rat list \<Rightarrow> rat list \<Rightarrow> bool" where
  "within_box_1 origin lo hi \<longleftrightarrow> origin ! 0 \<le> hi ! 0 \<and> origin ! 0 \<ge> lo ! 0"

definition intersects_1 :: "rat list \<Rightarrow> rat \<Rightarrow> rat list \<Rightarrow> rat list \<Rightarrow> rat \<Rightarrow> bool" where
  "intersects_1 origin extent scale center radius \<longleftrightarrow>
     center ! 0 \<ge> origin ! 0 - radius \<and> center ! 0 \<le> origin ! 0 + extent * scale ! 0 + radius"

definition overlaps_1 :: "rat list \<Rightarrow> rat list \<Rightarrow> rat list \<Rightarrow> rat list \<Rightarrow> bool" where
  "overlaps_1 lo1 hi1 lo2 hi2 \<longleftrightarrow>
     (if hi1 ! 0 \<le> lo2 ! 0 then False else if lo1 ! 0 \<ge> hi2 ! 0 then False else True)"

definition intersects_box_1 :: "rat list \<Rightarrow> rat \<Rightarrow> rat list \<Rightarrow> rat list \<Rightarrow> rat list \<Rightarrow> bool" where
  "intersects_box_1 origin extent scale lo hi =
     overlaps_1 origin (origin[0 := origin ! 0 + extent * scale ! 0]) lo hi"

definition within_2 :: "rat list \<Rightarrow> rat list \<Rightarrow> rat \<Rightarrow> bool" where
  "within_2 origin center radius \<longleftrightarrow> 0 \<le> radius \<and> sq_distance origin center \<le> radius\<^sup>2"

definition within_box_2 :: "rat list \<Rightarrow> rat list \<Rightarrow> rat list \<Rightarrow> bool" where
  "within_box_2 origin lo hi \<longleftrightarrow> origin ! 0 \<le> hi ! 0 \<and> origin ! 0 \<ge> lo ! 0 \<and>
     origin ! 1 \<le> hi ! 1 \<and> origin ! 1 \<ge> lo ! 1"

definition intersects_2 :: "rat list \<Rightarrow> rat \<Rightarrow> rat list \<Rightarrow> rat list \<Rightarrow> rat \<Rightarrow> bool" where
  "intersects_2 origin extent scale center radius \<longleftrightarrow>
     center ! 0 \<ge> origin ! 0 - radius \<and> center ! 0 \<le> origin ! 0 + extent * scale ! 0 + radius \<and>
     center ! 1 \<ge> origin ! 1 - radius \<and> center ! 1 \<le> origin ! 1 + extent * scale ! 1 + radius"

fun overlaps_upto :: "nat \<Rightarrow> rat list \<Rightarrow> rat list \<Rightarrow> rat list \<Rightarrow> rat list \<Rightarrow> nat \<Rightarrow> bool" where
  "overlaps_upto 0 lo1 hi1 lo2 hi2 d = True"
| "overlaps_upto (Suc n) lo1 hi1 lo2 hi2 d =
     (if hi1 ! d \<le> lo2 ! d then False else if lo1 ! d \<ge> hi2 ! d then False
      else overlaps_upto n lo1 hi1 lo2 hi2 (Suc d))"

definition overlaps_2 :: "rat list \<Rightarrow> rat list \<Rightarrow> rat list \<Rightarrow> rat list \<Rightarrow> bool" where
  "overlaps_2 lo1 hi1 lo2 hi2 = overlaps_upto 2 lo1 hi1 lo2 hi2 0"

definition intersects_box_2 :: "rat list \<Rightarrow> rat \<Rightarrow> rat list \<Rightarrow> rat list \<Rightarrow> rat list \<Rightarrow> bool" where
  "intersects_box_2 origin extent scale lo hi =
     overlaps_2 origin (map (\<lambda>d. origin ! d + extent * scale ! d) [0..<2]) lo hi"

definition within_3 :: "rat list \<Rightarrow> rat list \<Rightarrow> rat \<Rightarrow> bool" where
  "within_3 origin center radius \<longleftrightarrow> 0 < radius \<and> sq_distance origin center < radius\<^sup>2"

definition within_box_3 :: "rat list \<Rightarrow> rat list \<Rightarrow> rat list \<Rightarrow> bool" where
  "within_box_3 origin lo hi \<longleftrightarrow> origin ! 0 \<le> hi ! 0 \<and> origin ! 0 > lo ! 0 \<and>
     origin ! 1 \<le> hi ! 1 \<and> origin ! 1 > lo ! 1 \<and> origin ! 2 \<le> hi ! 2 \<and> origin ! 2 > lo ! 2"

definition intersects_3 :: "rat list \<Rightarrow> rat \<Rightarrow> rat list \<Rightarrow> rat list \<Rightarrow> rat \<Rightarrow> bool" where
  "intersects_3 origin extent scale center radius \<longleftrightarrow>
     center ! 0 \<ge> origin ! 0 - radius \<and> center ! 0 \<le> origin ! 0 + extent * scale ! 0 + radius \<and>
     center ! 1 \<ge> origin ! 1 - radius \<and> center ! 1 \<le> origin ! 1 + extent * scale ! 1 + radius \<and>
     center ! 2 \<ge> origin ! 2 - radius \<and> center ! 2 \<le> origin ! 2 + extent * scale ! 2 + radius"

definition overlaps_3 :: "rat list \<Rightarrow> rat list \<Rightarrow> rat list \<Rightarrow> rat list \<Rightarrow> bool" where
  "overlaps_3 lo1 hi1 lo2 hi2 = overlaps_upto 3 lo1 hi1 lo2 hi2 0"

definition intersects_box_3 :: "rat list \<Rightarrow> rat \<Rightarrow> rat list \<Rightarrow> rat list \<Rightarrow> rat list \<Rightarrow> bool" where
  "intersects_box_3 origin extent scale lo hi =
     overlaps_3 origin (map (\<lambda>d. origin ! d + extent * scale ! d) [0..<3]) lo hi"

text \<open>A cell contains a point.\<close>

definition in_cell :: "nat \<Rightarrow> rat list \<Rightarrow> rat list \<Rightarrow> rat \<Rightarrow> rat list \<Rightarrow> bool" where
  "in_cell dims x origin extent scale \<longleftrightarrow> length x = dims \<and> length origin = dims \<and>
     (\<forall>d < dims. origin ! d \<le> x ! d \<and> x ! d \<le> origin ! d + extent * scale ! d)"

lemma sq_distance_coord:
  assumes "length a = length b" "d < length a"
  shows "(a ! d - b ! d)\<^sup>2 \<le> sq_distance a b"
  using assms
proof (induction a b arbitrary: d rule: list_induct2)
  case (Cons x xs y ys)
  have tail: "0 \<le> sq_distance xs ys"
    unfolding sq_distance_def by (rule sum_list_nonneg) auto
  have head: "0 \<le> (x - y) * (x - y)" by simp
  show ?case
  proof (cases d)
    case 0
    then show ?thesis using tail by (simp add: sq_distance_def power2_eq_square)
  next
    case (Suc n)
    then have "(xs ! n - ys ! n)\<^sup>2 \<le> sq_distance xs ys" using Cons by simp
    then show ?thesis using Suc head by (simp add: sq_distance_def add_increasing)
  qed
qed simp

lemma close_coord:
  assumes "length a = length b" "d < length a" "0 \<le> r" "sq_distance a b \<le> r\<^sup>2"
  shows "b ! d - r \<le> a ! d \<and> a ! d \<le> b ! d + r"
proof -
  have "(a ! d - b ! d)\<^sup>2 \<le> r\<^sup>2"
    using sq_distance_coord[OF assms(1,2)] assms(4) by linarith
  then have "\<bar>a ! d - b ! d\<bar> \<le> \<bar>r\<bar>" by (simp only: abs_le_square_iff)
  then show ?thesis using assms(3) by linarith
qed

lemma overlaps_upto_iff:
  "overlaps_upto n lo1 hi1 lo2 hi2 d \<longleftrightarrow>
     (\<forall>k < n. lo2 ! (d + k) < hi1 ! (d + k) \<and> lo1 ! (d + k) < hi2 ! (d + k))"
proof (induction n arbitrary: d)
  case (Suc n)
  then show ?case by (auto simp: not_le All_less_Suc2)
qed simp

lemma below_3: "(\<forall>d < 3. P d) \<longleftrightarrow> P 0 \<and> P 1 \<and> P (2 :: nat)"
  by (auto simp: numeral_3_eq_3 numeral_2_eq_2 less_Suc_eq)

lemma below_2: "(\<forall>d < 2. P d) \<longleftrightarrow> P 0 \<and> P (1 :: nat)"
  by (auto simp: numeral_2_eq_2 less_Suc_eq)

definition in_half_open :: "nat \<Rightarrow> rat list \<Rightarrow> rat list \<Rightarrow> rat \<Rightarrow> rat list \<Rightarrow> bool" where
  "in_half_open dims x origin extent scale \<longleftrightarrow> in_cell dims x origin extent scale \<and>
     (\<forall>d < dims. x ! d < origin ! d + extent * scale ! d)"

text \<open>
  C31: a cell is never skipped by the sphere test when it contains a point within the
  radius; the box test accepts a half-open cell with a point of the closed box exactly when
  no lower face of the cell lies on the upper face of the box.
\<close>

theorem geometry_conservative:
  fixes scale :: "rat list"
  shows "(in_cell 1 x origin extent scale \<and> length center = 1 \<and> within_1 x center radius \<longrightarrow>
      intersects_1 origin extent scale center radius) \<and>
    (in_cell 2 x origin extent scale \<and> length center = 2 \<and> within_2 x center radius \<longrightarrow>
      intersects_2 origin extent scale center radius) \<and>
    (in_cell 3 x origin extent scale \<and> length center = 3 \<and> within_3 x center radius \<longrightarrow>
      intersects_3 origin extent scale center radius) \<and>
    (in_half_open 1 x origin extent scale \<and> within_box_1 x lo hi \<longrightarrow>
      (intersects_box_1 origin extent scale lo hi \<longleftrightarrow> origin ! 0 \<noteq> hi ! 0)) \<and>
    (in_half_open 2 x origin extent scale \<and> within_box_2 x lo hi \<longrightarrow>
      (intersects_box_2 origin extent scale lo hi \<longleftrightarrow> (\<forall>d < 2. origin ! d \<noteq> hi ! d))) \<and>
    (in_half_open 3 x origin extent scale \<and> within_box_3 x lo hi \<longrightarrow>
      (intersects_box_3 origin extent scale lo hi \<longleftrightarrow> (\<forall>d < 3. origin ! d \<noteq> hi ! d)))"
proof (intro conjI impI; elim conjE)
  have near: "center ! d \<ge> origin ! d - radius \<and> center ! d \<le> origin ! d + extent * scale ! d + radius"
    if "in_cell n x origin extent scale" "length center = n" "0 \<le> radius"
      "sq_distance x center \<le> radius\<^sup>2" "d < n" for n d
    using close_coord[of x center d radius] that unfolding in_cell_def by fastforce
  show "intersects_1 origin extent scale center radius"
    if "in_cell 1 x origin extent scale" "length center = 1" "within_1 x center radius"
    using near[OF that(1,2), of 0] that(3) by (simp add: intersects_1_def within_1_def)
  show "intersects_2 origin extent scale center radius"
    if "in_cell 2 x origin extent scale" "length center = 2" "within_2 x center radius"
    using near[OF that(1,2), of 0] near[OF that(1,2), of 1] that(3)
    by (simp add: intersects_2_def within_2_def)
  show "intersects_3 origin extent scale center radius"
    if "in_cell 3 x origin extent scale" "length center = 3" "within_3 x center radius"
    using near[OF that(1,2), of 0] near[OF that(1,2), of 1] near[OF that(1,2), of 2] that(3)
    by (simp add: intersects_3_def within_3_def)
  show "intersects_box_1 origin extent scale lo hi \<longleftrightarrow> origin ! 0 \<noteq> hi ! 0"
    if "in_half_open 1 x origin extent scale" "within_box_1 x lo hi"
    using that
    by (auto simp: in_half_open_def in_cell_def within_box_1_def intersects_box_1_def overlaps_1_def)
  show "intersects_box_2 origin extent scale lo hi \<longleftrightarrow> (\<forall>d < 2. origin ! d \<noteq> hi ! d)"
    if "in_half_open 2 x origin extent scale" "within_box_2 x lo hi"
    using that unfolding in_half_open_def in_cell_def within_box_2_def intersects_box_2_def
      overlaps_2_def overlaps_upto_iff by (auto simp: below_2)
  show "intersects_box_3 origin extent scale lo hi \<longleftrightarrow> (\<forall>d < 3. origin ! d \<noteq> hi ! d)"
    if "in_half_open 3 x origin extent scale" "within_box_3 x lo hi"
    using that unfolding in_half_open_def in_cell_def within_box_3_def intersects_box_3_def
      overlaps_3_def overlaps_upto_iff by (auto simp: below_3)
qed

theorem geometry_conservative_witness:
  "intersects_2 [0, 1 / 2] (1 / 2) [1, 1] [1 / 2, 1 / 2] (1 / 2) \<and>
   \<not> intersects_box_2 [1 / 2, 0] (1 / 2) [1, 1] [0, 0] [1 / 2, 1]"
proof -
  have "in_cell 2 [1 / 4, 1 / 2] [0, 1 / 2] (1 / 2) [1, 1]" "within_2 [1 / 4, 1 / 2] [1 / 2, 1 / 2] (1 / 2)"
    by (simp_all add: in_cell_def below_2 within_2_def sq_distance_def power2_eq_square)
  moreover have "in_half_open 2 [1 / 2, 1 / 4] [1 / 2, 0] (1 / 2) [1, 1]"
      "within_box_2 [1 / 2, 1 / 4] [0, 0] [1 / 2, 1]"
    by (simp_all add: in_half_open_def in_cell_def below_2 within_box_2_def)
  ultimately show ?thesis
    using geometry_conservative[where x = "[1 / 4, 1 / 2]" and origin = "[0, 1 / 2]" and extent = "1 / 2"
        and scale = "[1, 1]" and center = "[1 / 2, 1 / 2]" and radius = "1 / 2"]
      geometry_conservative[where x = "[1 / 2, 1 / 4]" and origin = "[1 / 2, 0]" and extent = "1 / 2"
        and scale = "[1, 1]" and lo = "[0, 0]" and hi = "[1 / 2, 1]"]
    by (simp add: below_2)
qed

end
