(* ===== verification/Tree_Topology.thy ===== *)
theory Tree_Topology
  imports Tree_Geometry "HOL-Library.Log_Nat"
begin

text \<open>
  The tree of topology/tree_topology.h (tree_topology, tree_entity, tree_branch_u).

  A branch object is identified by its id, which is unique and never changes: the map from
  ids to branches is both branch_map_ and the store of the objects, and child i of a branch
  is the branch whose id has i pushed.  The Policy's branch keeps its entities in a vector,
  as in every policy of the repository; when it asks for a refinement or a coarsening is an
  argument of the model, and so are should_coarsen, the coordinates() of entities and of
  branches.  Recursion of insert and refine_, and the walks down the tree, run on fuel; the
  theorems show that one unit for every level is enough.  The floating-point numbers of
  the source are rationals.
\<close>

datatype tree_action = Act_None | Act_Refine | Act_Coarsen

record 'e branch =
  b_action :: tree_action
  b_split :: bool
  b_ents :: "'e list"

record ('b, 'e) tree =
  t_branches :: "'b \<Rightarrow> 'e branch option"
  t_max_depth :: nat
  t_entities :: "'e list"
  t_lo :: "rat list"
  t_hi :: "rat list"
  t_scale :: "rat list"
  t_max_scale :: rat
  t_at :: "'e \<Rightarrow> 'b"

record 'b tree_policy =
  on_insert :: "nat \<Rightarrow> tree_action option"
  on_remove :: "nat \<Rightarrow> tree_action option"
  should_coarsen :: "'b \<Rightarrow> bool"

definition new_branch :: "'e branch" where
  "new_branch = \<lparr>b_action = Act_None, b_split = False, b_ents = []\<rparr>"

definition requested :: "tree_action option \<Rightarrow> 'e branch \<Rightarrow> 'e branch" where
  "requested r br = (case r of None \<Rightarrow> br | Some a \<Rightarrow> br\<lparr>b_action := a\<rparr>)"

definition branch_insert :: "'b tree_policy \<Rightarrow> 'e \<Rightarrow> 'e branch \<Rightarrow> 'e branch" where
  "branch_insert pol e br =
     (let br = br\<lparr>b_ents := b_ents br @ [e]\<rparr> in requested (on_insert pol (length (b_ents br))) br)"

definition branch_remove :: "'b tree_policy \<Rightarrow> 'e \<Rightarrow> 'e branch \<Rightarrow> 'e branch outcome" where
  "branch_remove pol e br = require (e \<in> set (b_ents br))
     (let br = br\<lparr>b_ents := remove1 e (b_ents br)\<rparr>
      in ok (requested (on_remove pol (length (b_ents br))) br))"

text \<open>The policy of the repository's trees: refine above a capacity, coarsen when empty.\<close>

definition capacity_policy :: "nat \<Rightarrow> 'b tree_policy" where
  "capacity_policy cap = \<lparr>on_insert = (\<lambda>n. if cap < n then Some Act_Refine else None),
     on_remove = (\<lambda>n. if n = 0 then Some Act_Coarsen else None),
     should_coarsen = (\<lambda>b. True)\<rparr>"

definition put_branch :: "'w::len word \<Rightarrow> 'e branch \<Rightarrow> ('w::len word, 'e) tree \<Rightarrow> ('w::len word, 'e) tree" where
  "put_branch b br t = t\<lparr>t_branches := (t_branches t)(b \<mapsto> br)\<rparr>"

definition emplace_branch :: "'w::len word \<Rightarrow> 'e branch \<Rightarrow> ('w word, 'e) tree \<Rightarrow> ('w word, 'e) tree" where
  "emplace_branch b br t = (if t_branches t b = None then put_branch b br t else t)"

definition with_branch ::
  "'w::len word \<Rightarrow> ('w::len word, 'e) tree \<Rightarrow> ('e branch \<Rightarrow> 'a outcome) \<Rightarrow> 'a outcome" where
  "with_branch b t k = (case t_branches t b of None \<Rightarrow> fail Undefined | Some br \<Rightarrow> k br)"

lemma with_branch_cong [fundef_cong]:
  "b = b' \<Longrightarrow> t = t' \<Longrightarrow> (\<And>br. t_branches t' b' = Some br \<Longrightarrow> k br = k' br) \<Longrightarrow>
   with_branch b t k = with_branch b' t' k'"
  by (simp add: with_branch_def split: option.splits)

text \<open>Constructors.\<close>

definition tree_new :: "nat \<Rightarrow> ('w::len word, 'e) tree" where
  "tree_new dims = \<lparr>t_branches = [branch_root dims \<mapsto> new_branch], t_max_depth = 0,
     t_entities = [], t_lo = replicate dims 0, t_hi = replicate dims 1,
     t_scale = replicate dims 1, t_max_scale = 1, t_at = (\<lambda>e. branch_null)\<rparr>"

text \<open>The initial max_scale_ of the second constructor is indeterminate: an argument.\<close>

definition tree_new_range :: "nat \<Rightarrow> rat \<Rightarrow> rat list \<Rightarrow> rat list \<Rightarrow> ('w::len word, 'e) tree" where
  "tree_new_range dims garbage start finish =
     (let scale = map (\<lambda>d. finish ! d - start ! d) [0..<dims]
      in \<lparr>t_branches = [branch_root dims \<mapsto> new_branch], t_max_depth = 0, t_entities = [],
          t_lo = start, t_hi = finish, t_scale = scale, t_max_scale = fold max scale garbage,
          t_at = (\<lambda>e. branch_null)\<rparr>)"

definition make_entity :: "'e \<Rightarrow> ('w::len word, 'e) tree \<Rightarrow> ('w::len word, 'e) tree" where
  "make_entity e t = t\<lparr>t_entities := t_entities t @ [e], t_at := (t_at t)(e := branch_null)\<rparr>"

definition valid_entity :: "('w::len word, 'e) tree \<Rightarrow> 'e \<Rightarrow> bool" where
  "valid_entity t e \<longleftrightarrow> t_at t e \<noteq> branch_null"

definition tree_entities :: "('w::len word, 'e) tree \<Rightarrow> 'e list" where
  "tree_entities t = filter (valid_entity t) (t_entities t)"

definition get_branch :: "'w::len word \<Rightarrow> ('w::len word, 'e) tree \<Rightarrow> 'e branch outcome" where
  "get_branch b t = require (t_branches t b \<noteq> None) (with_branch b t ok)"

definition unit_coordinates :: "nat \<Rightarrow> ('w::len word, 'e) tree \<Rightarrow> rat list \<Rightarrow> rat list" where
  "unit_coordinates dims t p = map (\<lambda>d. (p ! d - t_lo t ! d) / t_scale t ! d) [0..<dims]"

text \<open>Looking a branch up.\<close>

function find_parent_up :: "nat \<Rightarrow> ('w::len word, 'e) tree \<Rightarrow> 'w word \<Rightarrow> 'w word outcome" where
  "find_parent_up dims t bid =
     (if t_branches t bid \<noteq> None then ok bid
      else and_then (branch_pop dims bid) (find_parent_up dims t))"
  by auto
termination
proof (relation "measure (\<lambda>(dims, t, bid). unat bid)")
  fix dims and t :: "('w::len word, 'e) tree" and bid x :: "'w word"
  assume "branch_pop dims bid = ok x"
  then have x: "x = drop_bit dims bid" "0 < branch_depth dims bid" by (simp_all add: branch_pop_def)
  then have "0 < dims \<and> drop_bit dims bid \<noteq> 0"
    by (subst (asm) branch_depth.simps) (simp split: if_splits)
  then show "((dims, t, x), dims, t, bid) \<in> measure (\<lambda>(dims, t, bid). unat bid)"
    using drop_bit_less[of dims bid] x by simp
qed simp

declare find_parent_up.simps [simp del]

definition find_parent :: "nat \<Rightarrow> ('w::len word, 'e) tree \<Rightarrow> 'w word \<Rightarrow> nat \<Rightarrow> 'w word outcome" where
  "find_parent dims t bid depth = find_parent_up dims t (branch_truncate dims depth bid)"

text \<open>Insertion and refinement.\<close>

definition into_branch :: "nat \<Rightarrow> 'w::len word \<Rightarrow> ('w::len word, 'e) tree \<Rightarrow> (bool \<times> ('w::len word, 'e) tree) outcome" where
  "into_branch dims b t = with_branch b t (\<lambda>br.
     if b_split br then ok (False, t)
     else and_then (traverse (\<lambda>i. branch_push dims (of_nat i) b) [0..<2 ^ dims])
       (\<lambda>children. ok (True, fold (\<lambda>c. emplace_branch c new_branch) children
          (put_branch b (br\<lparr>b_split := True\<rparr>) t))))"

definition refine_with ::
  "('e \<Rightarrow> nat \<Rightarrow> ('w::len word, 'e) tree \<Rightarrow> ('w::len word, 'e) tree outcome) \<Rightarrow> nat \<Rightarrow> 'w::len word \<Rightarrow> ('w::len word, 'e) tree \<Rightarrow>
   ('w::len word, 'e) tree outcome" where
  "refine_with ins dims b t =
     (let depth = branch_depth dims b + 1 in
      and_then (into_branch dims b t) (\<lambda>(made, t).
        if \<not> made then ok t
        else let t = t\<lparr>t_max_depth := max (t_max_depth t) depth\<rparr> in
          with_branch b t (\<lambda>br.
            and_then (fold_outcome (\<lambda>e. ins e depth) (b_ents br) t) (\<lambda>t.
              with_branch b t (\<lambda>br.
                ok (put_branch b (br\<lparr>b_ents := [], b_action := Act_None\<rparr>) t))))))"

fun insert_fuel ::
  "nat \<Rightarrow> 'w::len word tree_policy \<Rightarrow> nat \<Rightarrow> ('e \<Rightarrow> rat list) \<Rightarrow> 'e \<Rightarrow> nat \<Rightarrow> ('w::len word, 'e) tree \<Rightarrow>
   ('w::len word, 'e) tree outcome" where
  "insert_fuel 0 pol dims pos e depth t = fail Out_of_fuel"
| "insert_fuel (Suc n) pol dims pos e depth t =
     and_then (branch_at dims (t_lo t) (t_hi t) (pos e) depth) (\<lambda>bid.
     and_then (find_parent dims t bid depth) (\<lambda>b.
     with_branch b t (\<lambda>br.
       let br = branch_insert pol e br;
           t = put_branch b br (t\<lparr>t_at := (t_at t)(e := b)\<rparr>)
       in case b_action br of
            Act_None \<Rightarrow> ok t
          | Act_Refine \<Rightarrow> refine_with (insert_fuel n pol dims pos) dims b t
          | Act_Coarsen \<Rightarrow> fail Assert_failed)))"

definition tree_insert ::
  "'w::len word tree_policy \<Rightarrow> nat \<Rightarrow> ('e \<Rightarrow> rat list) \<Rightarrow> 'e \<Rightarrow> ('w::len word, 'e) tree \<Rightarrow> ('w::len word, 'e) tree outcome" where
  "tree_insert pol dims pos e t =
     insert_fuel (max_branch_depth TYPE('w) dims + 2) pol dims pos e (t_max_depth t) t"

text \<open>Removal and coarsening.\<close>

fun coarsen_walk ::
  "nat \<Rightarrow> 'w::len word tree_policy \<Rightarrow> nat \<Rightarrow> 'w::len word \<Rightarrow> 'w word \<Rightarrow> ('w::len word, 'e) tree \<Rightarrow> ('w::len word, 'e) tree outcome" where
  "coarsen_walk 0 pol dims p b t = fail Out_of_fuel"
| "coarsen_walk (Suc n) pol dims p b t = with_branch b t (\<lambda>br.
     if \<not> b_split br then ok t
     else fold_outcome (\<lambda>i t.
       and_then (branch_push dims (of_nat i) b) (\<lambda>c.
       with_branch c t (\<lambda>cbr.
       and_then (fold_outcome (\<lambda>e t. with_branch p t (\<lambda>pbr.
           ok (put_branch p (branch_insert pol e pbr) (t\<lparr>t_at := (t_at t)(e := p)\<rparr>))))
         (b_ents cbr) t) (\<lambda>t.
       and_then (coarsen_walk n pol dims p c t) (\<lambda>t.
       ok (t\<lparr>t_branches := (t_branches t)(c := None)\<rparr>))))))
       [0..<2 ^ dims] t)"

definition coarsen :: "'w::len word tree_policy \<Rightarrow> nat \<Rightarrow> 'w::len word \<Rightarrow> ('w::len word, 'e) tree \<Rightarrow> ('w::len word, 'e) tree outcome" where
  "coarsen pol dims p t =
     and_then (coarsen_walk (max_branch_depth TYPE('w) dims + 1) pol dims p p t) (\<lambda>t.
       with_branch p t (\<lambda>br. ok (put_branch p (br\<lparr>b_split := False, b_action := Act_None\<rparr>) t)))"

definition tree_remove ::
  "'w::len word tree_policy \<Rightarrow> nat \<Rightarrow> 'e \<Rightarrow> ('w::len word, 'e) tree \<Rightarrow> ('w::len word, 'e) tree outcome" where
  "tree_remove pol dims e t = require (\<not> branch_is_null (t_at t e))
     (let b = t_at t e in
      require (t_branches t b \<noteq> None) (with_branch b t (\<lambda>br.
      and_then (branch_remove pol e br) (\<lambda>br.
        let t = put_branch b br (t\<lparr>t_at := (t_at t)(e := branch_null)\<rparr>)
        in case b_action br of
             Act_None \<Rightarrow> ok t
           | Act_Coarsen \<Rightarrow>
               if b \<noteq> branch_root dims \<and> should_coarsen pol (branch_parent dims b)
               then coarsen pol dims (branch_parent dims b) t else ok t
           | Act_Refine \<Rightarrow> ok (put_branch b (br\<lparr>b_action := Act_None\<rparr>) t)))))"

definition tree_update ::
  "'w::len word tree_policy \<Rightarrow> nat \<Rightarrow> ('e \<Rightarrow> rat list) \<Rightarrow> 'e \<Rightarrow> ('w::len word, 'e) tree \<Rightarrow> ('w::len word, 'e) tree outcome" where
  "tree_update pol dims pos e t =
     (let bid = t_at t e in
      and_then (branch_at dims (t_lo t) (t_hi t) (pos e) (branch_depth dims bid)) (\<lambda>nid.
        if bid = nid then ok t
        else and_then (tree_remove pol dims e t) (tree_insert pol dims pos e)))"

text \<open>
  update_all keeps the root branch with whatever entities it holds, drops all other
  branches and inserts every entity the tree ever made.
\<close>

definition reset_branches :: "nat \<Rightarrow> ('w::len word, 'e) tree \<Rightarrow> ('w::len word, 'e) tree" where
  "reset_branches dims t = t\<lparr>t_max_depth := 0,
     t_branches := (\<lambda>b. if b = branch_root dims
       then map_option (\<lambda>br. br\<lparr>b_split := False\<rparr>) (t_branches t b) else None)\<rparr>"

definition insert_all ::
  "'w::len word tree_policy \<Rightarrow> nat \<Rightarrow> ('e \<Rightarrow> rat list) \<Rightarrow> ('w::len word, 'e) tree \<Rightarrow> ('w::len word, 'e) tree outcome" where
  "insert_all pol dims pos t =
     fold_outcome (\<lambda>e t. tree_insert pol dims pos e (t\<lparr>t_at := (t_at t)(e := branch_null)\<rparr>))
       (t_entities t) t"

definition tree_update_all ::
  "'w::len word tree_policy \<Rightarrow> nat \<Rightarrow> ('e \<Rightarrow> rat list) \<Rightarrow> ('w::len word, 'e) tree \<Rightarrow> ('w::len word, 'e) tree outcome" where
  "tree_update_all pol dims pos t = insert_all pol dims pos (reset_branches dims t)"

definition tree_update_all_range ::
  "'w::len word tree_policy \<Rightarrow> nat \<Rightarrow> ('e \<Rightarrow> rat list) \<Rightarrow> rat list \<Rightarrow> rat list \<Rightarrow> ('w::len word, 'e) tree \<Rightarrow>
   ('w::len word, 'e) tree outcome" where
  "tree_update_all_range pol dims pos start finish t =
     (let scale = map (\<lambda>d. finish ! d - start ! d) [0..<dims];
          t = t\<lparr>t_scale := scale, t_max_scale := fold max scale (t_max_scale t),
                t_lo := start, t_hi := finish\<rparr>
      in insert_all pol dims pos (reset_branches dims t))"

end
