(* ===== verification/Tree_Insertion.thy ===== *)
theory Tree_Insertion
  imports Tree_Topology
begin

text \<open>
  What a well-formed tree is, and that insertion keeps it so: with the capacity policy, an
  insertion into a tree that was never coarsened puts the entity into the leaf of its cell
  and refines only as far as needed, or refines beyond the width of a branch id because more
  entities than the capacity share the smallest cell.
\<close>

abbreviation path_ok :: "'w::len itself \<Rightarrow> nat \<Rightarrow> nat list \<Rightarrow> bool" where
  "path_ok T dims p \<equiv> digits dims p \<and> length p \<le> max_branch_depth T dims"

definition tree_at :: "nat \<Rightarrow> ('w::len word, 'e) tree \<Rightarrow> nat list \<Rightarrow> 'e branch option" where
  "tree_at dims t p = t_branches t (abs_path dims p)"

definition finest_cell :: "nat \<Rightarrow> ('w::len word, 'e) tree \<Rightarrow> rat list \<Rightarrow> nat list option" where
  "finest_cell dims t x =
     (case traverse (\<lambda>i. branch_coord dims (t_lo t ! i) (t_hi t ! i) (x ! i) :: 'w word outcome) [0..<dims] of
        Inl f \<Rightarrow> None
      | Inr coords \<Rightarrow> Some (cell_path dims coords (max_branch_depth TYPE('w) dims)))"

declare abs_path_simps [simp del]

text \<open>The branches form a tree below the root.\<close>

definition tree_shape :: "nat \<Rightarrow> ('w::len word, 'e) tree \<Rightarrow> bool" where
  "tree_shape dims t \<longleftrightarrow>
     (\<forall>b br. t_branches t b = Some br \<longrightarrow> (\<exists>p. path_ok TYPE('w) dims p \<and> b = abs_path dims p)) \<and>
     tree_at dims t [] \<noteq> None \<and>
     (\<forall>p d. path_ok TYPE('w) dims (p @ [d]) \<longrightarrow>
        (tree_at dims t (p @ [d]) \<noteq> None \<longleftrightarrow> (\<exists>br. tree_at dims t p = Some br \<and> b_split br))) \<and>
     (\<forall>p br. path_ok TYPE('w) dims p \<longrightarrow> tree_at dims t p = Some br \<longrightarrow>
        length p \<le> t_max_depth t \<and> (b_split br \<longrightarrow> length p < max_branch_depth TYPE('w) dims)) \<and>
     t_max_depth t \<le> max_branch_depth TYPE('w) dims"

text \<open>Leaves hold at most cap entities, each in its cell; split branches hold none.\<close>

definition leaf_ok ::
  "nat \<Rightarrow> nat \<Rightarrow> ('e \<Rightarrow> rat list) \<Rightarrow> ('w::len word, 'e) tree \<Rightarrow> nat list \<Rightarrow> 'e branch \<Rightarrow> bool" where
  "leaf_ok dims cap pos t p br \<longleftrightarrow> b_action br = Act_None \<and>
     (if b_split br then b_ents br = []
      else length (b_ents br) \<le> cap \<and> distinct (b_ents br) \<and>
        (\<forall>e \<in> set (b_ents br). t_at t e = abs_path dims p \<and>
           (\<exists>c. finest_cell dims t (pos e) = Some c \<and> take (length p) c = p)))"

definition tree_filled ::
  "nat \<Rightarrow> nat \<Rightarrow> ('e \<Rightarrow> rat list) \<Rightarrow> nat list set \<Rightarrow> ('w::len word, 'e) tree \<Rightarrow> bool" where
  "tree_filled dims cap pos E t \<longleftrightarrow>
     (\<forall>p br. path_ok TYPE('w) dims p \<longrightarrow> p \<notin> E \<longrightarrow> tree_at dims t p = Some br \<longrightarrow>
        leaf_ok dims cap pos t p br)"

definition tree_ok :: "nat \<Rightarrow> nat \<Rightarrow> ('e \<Rightarrow> rat list) \<Rightarrow> ('w::len word, 'e) tree \<Rightarrow> bool" where
  "tree_ok dims cap pos t \<longleftrightarrow> tree_shape dims t \<and> tree_filled dims cap pos {} t"

definition stored :: "('b, 'e) tree \<Rightarrow> 'e set" where
  "stored t = {e. \<exists>b br. t_branches t b = Some br \<and> e \<in> set (b_ents br)}"

text \<open>Cells and identifiers.\<close>

lemma finest_cell_at:
  fixes t :: "('w::len word, 'e) tree"
  assumes "0 < dims" "finest_cell dims t x = Some c"
  shows "path_ok TYPE('w) dims c" "length c = max_branch_depth TYPE('w) dims"
    and "n \<le> max_branch_depth TYPE('w) dims \<Longrightarrow>
      branch_at dims (t_lo t) (t_hi t) x n = ok (abs_path dims (take n c) :: 'w word)"
proof -
  obtain coords :: "'w word list" where co:
    "traverse (\<lambda>i. branch_coord dims (t_lo t ! i) (t_hi t ! i) (x ! i)) [0..<dims] = ok coords"
    "c = cell_path dims coords (max_branch_depth TYPE('w) dims)"
    using assms(2) by (auto simp: finest_cell_def split: sum.splits)
  show "path_ok TYPE('w) dims c" "length c = max_branch_depth TYPE('w) dims" by (simp_all add: co(2))
  show "branch_at dims (t_lo t) (t_hi t) x n = ok (abs_path dims (take n c) :: 'w word)"
    if "n \<le> max_branch_depth TYPE('w) dims"
    using that by (simp add: branch_at_def co branch_bits_path[OF assms(1)] take_cell_path)
qed

lemma finest_cell_cong:
  fixes t t' :: "('w::len word, 'e) tree"
  shows "t_lo t' = t_lo t \<Longrightarrow> t_hi t' = t_hi t \<Longrightarrow> finest_cell dims t' = finest_cell dims t"
  by (rule ext) (simp add: finest_cell_def)

lemma path_ok_take: "path_ok T dims p \<Longrightarrow> path_ok T dims (take n p)"
  by (auto simp: digits_take min_le_iff_disj)

lemma path_eq:
  "0 < dims \<Longrightarrow> path_ok TYPE('w::len) dims p \<Longrightarrow> path_ok TYPE('w) dims q \<Longrightarrow>
   (abs_path dims p :: 'w word) = abs_path dims q \<longleftrightarrow> p = q"
  using abs_path_inject[of dims p q, where 'w = 'w] by auto

text \<open>Looking up.\<close>

lemma find_parent_present:
  fixes t :: "('w::len word, 'e) tree"
  assumes "0 < dims" "path_ok TYPE('w) dims p" "tree_at dims t p \<noteq> None"
  shows "find_parent dims t (abs_path dims p) (length p) = ok (abs_path dims p)"
  using assms(2,3) truncate_abs_path[OF assms(1), where 'w = 'w and p = p and n = "length p"]
  by (simp add: find_parent_def find_parent_up.simps tree_at_def)

lemma find_parent_up_path:
  fixes t :: "('w::len word, 'e) tree"
  assumes "0 < dims" "path_ok TYPE('w) dims p" "tree_at dims t [] \<noteq> None"
  shows "\<exists>k \<le> length p. find_parent_up dims t (abs_path dims p) = ok (abs_path dims (take k p)) \<and>
    tree_at dims t (take k p) \<noteq> None \<and> (k < length p \<longrightarrow> tree_at dims t (take (Suc k) p) = None)"
  using assms(2)
proof (induction p rule: rev_induct)
  case Nil
  then show ?case using assms(3) by (simp add: find_parent_up.simps tree_at_def)
next
  case (snoc d p)
  show ?case
  proof (cases "tree_at dims t (p @ [d]) = None")
    case True
    have p: "path_ok TYPE('w) dims p" using snoc.prems by simp
    obtain k where k: "k \<le> length p" "find_parent_up dims t (abs_path dims p) = ok (abs_path dims (take k p))"
      "tree_at dims t (take k p) \<noteq> None" "k < length p \<longrightarrow> tree_at dims t (take (Suc k) p) = None"
      using snoc.IH[OF p] by blast
    have "branch_pop dims (abs_path dims (p @ [d]) :: 'w word) = ok (abs_path dims p)"
      using drop_abs_path[OF assms(1), where 'w = 'w and p = p and b = d]
        depth_abs_path[OF assms(1), where 'w = 'w and p = "p @ [d]"] snoc.prems
      by (simp add: branch_pop_def del: abs_path_simps)
    then have "find_parent_up dims t (abs_path dims (p @ [d])) = ok (abs_path dims (take k p))"
      using True k(2) by (subst find_parent_up.simps) (simp add: tree_at_def del: abs_path_simps)
    then show ?thesis
      using k True by (intro exI[of _ k]) (auto simp: less_Suc_eq simp del: abs_path_simps)
  next
    case False
    then show ?thesis
      by (intro exI[of _ "Suc (length p)"])
        (simp add: find_parent_up.simps tree_at_def del: abs_path_simps)
  qed
qed

lemma find_parent_leaf:
  fixes t :: "('w::len word, 'e) tree"
  assumes "0 < dims" and shape: "tree_shape dims t" and c: "path_ok TYPE('w) dims c"
    "length c = max_branch_depth TYPE('w) dims"
  shows "\<exists>p br. p = take (length p) c \<and> path_ok TYPE('w) dims p \<and> length p \<le> t_max_depth t \<and>
    find_parent dims t (abs_path dims (take (t_max_depth t) c)) (t_max_depth t) = ok (abs_path dims p) \<and>
    tree_at dims t p = Some br \<and> \<not> b_split br"
proof -
  let ?d = "t_max_depth t"
  have d: "?d \<le> max_branch_depth TYPE('w) dims" and root: "tree_at dims t [] \<noteq> None"
    and kids: "\<And>p d. path_ok TYPE('w) dims (p @ [d]) \<Longrightarrow>
        tree_at dims t (p @ [d]) \<noteq> None \<longleftrightarrow> (\<exists>br. tree_at dims t p = Some br \<and> b_split br)"
    and deep: "\<And>p br. path_ok TYPE('w) dims p \<Longrightarrow> tree_at dims t p = Some br \<Longrightarrow>
        length p \<le> ?d \<and> (b_split br \<longrightarrow> length p < max_branch_depth TYPE('w) dims)"
    using shape unfolding tree_shape_def by blast+
  let ?q = "take ?d c"
  have q: "path_ok TYPE('w) dims ?q" "length ?q = ?d" using c d by (simp_all add: digits_take)
  obtain k where k: "k \<le> ?d" "find_parent_up dims t (abs_path dims ?q) = ok (abs_path dims (take k ?q))"
    "tree_at dims t (take k ?q) \<noteq> None" "k < ?d \<longrightarrow> tree_at dims t (take (Suc k) ?q) = None"
    using find_parent_up_path[OF assms(1) q(1) root] unfolding q(2) by blast
  let ?p = "take k c"
  have p: "take k ?q = ?p" "path_ok TYPE('w) dims ?p" "length ?p = k"
    using k(1) c d by (simp_all add: digits_take)
  obtain br where br: "tree_at dims t ?p = Some br" using k(3) p(1) by auto
  have "\<not> b_split br"
  proof
    assume split: "b_split br"
    then have room: "k < length c" using deep[OF p(2) br] p(3) c(2) by simp
    then have next_: "take (Suc k) c = ?p @ [c ! k]" by (rule take_Suc_conv_app_nth)
    have "path_ok TYPE('w) dims (take (Suc k) c)" using c by (simp add: digits_take)
    then have "tree_at dims t (take (Suc k) c) \<noteq> None"
      using kids[of ?p "c ! k"] br split unfolding next_ by blast
    moreover from this have "Suc k \<le> ?d"
      using deep[of "take (Suc k) c"] \<open>path_ok TYPE('w) dims (take (Suc k) c)\<close> room by auto
    ultimately show False using k(4) by (simp add: min_def)
  qed
  moreover have "find_parent dims t (abs_path dims ?q) ?d = ok (abs_path dims ?p)"
    using k(2) p(1) truncate_abs_path[OF assms(1), where 'w = 'w and p = ?q and n = ?d] q
    by (simp add: find_parent_def)
  ultimately show ?thesis
    using br p k(1) by (intro exI[of _ ?p] exI[of _ br]) simp
qed

text \<open>
  Splitting the leaf at p and moving the entities ys into its children.
\<close>

definition spread ::
  "nat \<Rightarrow> ('e \<Rightarrow> nat list) \<Rightarrow> nat list \<Rightarrow> 'e branch \<Rightarrow> 'e list \<Rightarrow> ('w::len word, 'e) tree \<Rightarrow>
   ('w word, 'e) tree" where
  "spread dims cell p br ys t = t\<lparr>t_max_depth := max (t_max_depth t) (Suc (length p)),
     t_at := (\<lambda>e. if e \<in> set ys then abs_path dims (p @ [cell e ! length p]) else t_at t e),
     t_branches := (\<lambda>b.
       if b = abs_path dims p then Some (br\<lparr>b_split := True\<rparr>)
       else if \<exists>i < 2 ^ dims. b = abs_path dims (p @ [i])
         then Some (new_branch\<lparr>b_ents := filter (\<lambda>e. abs_path dims (p @ [cell e ! length p]) = b) ys\<rparr>)
       else t_branches t b)\<rparr>"

lemma fold_emplace_new:
  "t_branches (fold (\<lambda>c. emplace_branch c new_branch) cs t) b =
     (if b \<in> set cs \<and> t_branches t b = None then Some new_branch else t_branches t b)"
  by (induction cs arbitrary: t) (auto simp: emplace_branch_def put_branch_def)

lemma fold_emplace_fields:
  "t_max_depth (fold (\<lambda>c. emplace_branch c br) cs t) = t_max_depth t"
  "t_at (fold (\<lambda>c. emplace_branch c br) cs t) = t_at t"
  "t_lo (fold (\<lambda>c. emplace_branch c br) cs t) = t_lo t"
  "t_hi (fold (\<lambda>c. emplace_branch c br) cs t) = t_hi t"
  "t_entities (fold (\<lambda>c. emplace_branch c br) cs t) = t_entities t"
  "t_scale (fold (\<lambda>c. emplace_branch c br) cs t) = t_scale t"
  "t_max_scale (fold (\<lambda>c. emplace_branch c br) cs t) = t_max_scale t"
  by (induction cs arbitrary: t) (simp_all add: emplace_branch_def put_branch_def)

lemma new_branch_empty: "new_branch\<lparr>b_ents := []\<rparr> = new_branch"
  by (simp add: new_branch_def)

lemma child_neq_parent:
  assumes "0 < dims" "path_ok TYPE('w::len) dims (p @ [i])"
  shows "(abs_path dims (p @ [i]) :: 'w word) \<noteq> abs_path dims p"
proof
  assume eq: "(abs_path dims (p @ [i]) :: 'w word) = abs_path dims p"
  have "digits dims p" "length p \<le> max_branch_depth TYPE('w) dims" using assms(2) by auto
  then have "p @ [i] = p" using abs_path_inject[OF assms(1) _ _ _ _ eq] assms(2) by blast
  then show False by simp
qed

lemma into_branch_spread:
  fixes t :: "('w::len word, 'e) tree"
  assumes "0 < dims" "path_ok TYPE('w) dims p" "length p < max_branch_depth TYPE('w) dims"
    and "tree_at dims t p = Some br" "\<not> b_split br"
    and absent: "\<And>i. i < 2 ^ dims \<Longrightarrow> tree_at dims t (p @ [i]) = None"
  shows "\<exists>t1. into_branch dims (abs_path dims p) t = ok (True, t1) \<and>
    t1\<lparr>t_max_depth := max (t_max_depth t1) (Suc (length p))\<rparr> = spread dims cell p br [] t"
proof -
  let ?cs = "map (\<lambda>i. abs_path dims (p @ [i]) :: 'w word) [0..<2 ^ dims]"
  have "branch_push dims (of_nat i) (abs_path dims p) = ok (abs_path dims (p @ [i]) :: 'w word)"
    if "i < 2 ^ dims" for i
    using branch_paths[OF assms(1), where 'w = 'w and p = p] assms(2,3) that by blast
  then have kids: "traverse (\<lambda>i. branch_push dims (of_nat i) (abs_path dims p)) [0..<2 ^ dims] = ok ?cs"
    by (intro traverse_ok) simp
  let ?t1 = "fold (\<lambda>c. emplace_branch c new_branch) ?cs (put_branch (abs_path dims p) (br\<lparr>b_split := True\<rparr>) t)"
  have made: "into_branch dims (abs_path dims p) t = ok (True, ?t1)"
    using assms(4,5) kids by (simp add: into_branch_def with_branch_def tree_at_def)
  have mem: "b \<in> set ?cs \<longleftrightarrow> (\<exists>i < 2 ^ dims. b = abs_path dims (p @ [i]))" for b
    by (auto simp del: abs_path_simps)
  have "abs_path dims p \<notin> set ?cs"
    unfolding mem using child_neq_parent[OF assms(1), where 'w = 'w and p = p] assms(2,3)
    by (metis Suc_leI digits_simps(1-3) length_append_singleton)
  then have "t_branches ?t1 = t_branches (spread dims cell p br [] t)"
    using absent unfolding fun_eq_iff fold_emplace_new mem
    by (auto simp: spread_def put_branch_def new_branch_empty tree_at_def simp del: abs_path_simps)
  then have "?t1\<lparr>t_max_depth := max (t_max_depth ?t1) (Suc (length p))\<rparr> = spread dims cell p br [] t"
    by (intro tree.equality)
      (simp_all add: fold_emplace_fields put_branch_def spread_def)
  then show ?thesis using made by blast
qed

lemma take_prefix_of: "take (length (p @ [i])) r = p @ [i] \<Longrightarrow> take (length p) r = p"
  by (metis append_eq_conv_conj append_take_drop_id append_assoc)

text \<open>One more entity goes to its child.\<close>

lemma spread_child:
  fixes t :: "('w::len word, 'e) tree"
  assumes "0 < dims" "path_ok TYPE('w) dims (p @ [i])"
  shows "tree_at dims (spread dims cell p br ys t) (p @ [i]) =
    Some (new_branch\<lparr>b_ents := filter (\<lambda>e. (abs_path dims (p @ [cell e ! length p]) :: 'w word)
      = abs_path dims (p @ [i])) ys\<rparr>)"
  using child_neq_parent[OF assms] assms(2)
  by (auto simp: tree_at_def spread_def simp del: abs_path_simps)

lemma spread_insert:
  fixes t :: "('w::len word, 'e) tree"
  assumes "0 < dims" and p: "path_ok TYPE('w) dims p" "length p < max_branch_depth TYPE('w) dims"
    and c: "finest_cell dims t (pos y) = Some (cell y)" "take (length p) (cell y) = p"
  defines "q \<equiv> p @ [cell y ! length p]"
  shows "path_ok TYPE('w) dims q"
    and "insert_fuel (Suc n) (capacity_policy cap) dims pos y (Suc (length p)) (spread dims cell p br ys t) =
      (let ents = filter (\<lambda>e. (abs_path dims (p @ [cell e ! length p]) :: 'w word) = abs_path dims q) (ys @ [y])
       in if length ents \<le> cap then ok (spread dims cell p br (ys @ [y]) t)
          else refine_with (insert_fuel n (capacity_policy cap) dims pos) dims (abs_path dims q)
            (put_branch (abs_path dims q) (new_branch\<lparr>b_ents := ents, b_action := Act_Refine\<rparr>)
              (spread dims cell p br (ys @ [y]) t)))"
proof -
  let ?t = "spread dims cell p br ys t" and ?b = "abs_path dims q :: 'w word"
  have cell: "path_ok TYPE('w) dims (cell y)" "length (cell y) = max_branch_depth TYPE('w) dims"
    using finest_cell_at[OF assms(1) c(1)] by auto
  have q: "take (Suc (length p)) (cell y) = q"
    using take_Suc_conv_app_nth[of "length p" "cell y"] p(2) cell(2) c(2) by (simp add: q_def)
  then show ok_q: "path_ok TYPE('w) dims q" using path_ok_take[OF cell(1)] by metis
  have len: "length q = Suc (length p)" by (simp add: q_def)
  have i: "cell y ! length p < 2 ^ dims" using ok_q by (simp add: q_def)
  have "finest_cell dims ?t = finest_cell dims t" by (rule finest_cell_cong) (simp_all add: spread_def)
  then have at: "branch_at dims (t_lo ?t) (t_hi ?t) (pos y) (Suc (length p)) = ok ?b"
    using finest_cell_at(3)[OF assms(1), of ?t "pos y" "cell y" "Suc (length p)"] c(1) p(2) q by simp
  have child: "t_branches ?t ?b = Some (new_branch\<lparr>b_ents := filter (\<lambda>e.
      (abs_path dims (p @ [cell e ! length p]) :: 'w word) = ?b) ys\<rparr>)"
    using spread_child[OF assms(1) ok_q[unfolded q_def], of cell br ys t]
    by (simp add: tree_at_def q_def del: abs_path_simps)
  then have found: "find_parent dims ?t ?b (Suc (length p)) = ok ?b"
    using find_parent_present[OF assms(1) ok_q, of ?t] unfolding len tree_at_def by simp
  let ?ents = "filter (\<lambda>e. (abs_path dims (p @ [cell e ! length p]) :: 'w word) = ?b) (ys @ [y])"
  let ?br = "new_branch\<lparr>b_ents := ?ents,
      b_action := if cap < length ?ents then Act_Refine else Act_None\<rparr>"
  have br: "branch_insert (capacity_policy cap) y (new_branch\<lparr>b_ents := filter (\<lambda>e.
      (abs_path dims (p @ [cell e ! length p]) :: 'w word) = ?b) ys\<rparr>) = ?br"
    by (simp add: branch_insert_def capacity_policy_def requested_def new_branch_def q_def
        del: abs_path_simps)
  have own: "(abs_path dims (p @ [cell y ! length p]) :: 'w word) = ?b" by (simp add: q_def)
  have put: "put_branch ?b ?br (?t\<lparr>t_at := (t_at ?t)(y := ?b)\<rparr>) =
      put_branch ?b ?br (spread dims cell p br (ys @ [y]) t)"
    using child_neq_parent[OF assms(1) ok_q[unfolded q_def]] i
    by (intro tree.equality)
      (auto simp: put_branch_def spread_def fun_eq_iff q_def simp del: abs_path_simps)
  have same: "put_branch ?b ?br (spread dims cell p br (ys @ [y]) t) = spread dims cell p br (ys @ [y]) t"
    if "\<not> cap < length ?ents"
    using spread_child[OF assms(1) ok_q[unfolded q_def], of cell br "ys @ [y]" t] that
    by (intro tree.equality)
      (auto simp: put_branch_def tree_at_def q_def fun_eq_iff new_branch_def simp del: abs_path_simps)
  show "insert_fuel (Suc n) (capacity_policy cap) dims pos y (Suc (length p)) ?t =
      (let ents = ?ents
       in if length ents \<le> cap then ok (spread dims cell p br (ys @ [y]) t)
          else refine_with (insert_fuel n (capacity_policy cap) dims pos) dims ?b
            (put_branch ?b (new_branch\<lparr>b_ents := ents, b_action := Act_Refine\<rparr>)
              (spread dims cell p br (ys @ [y]) t)))"
  proof (cases "cap < length ?ents")
    case True
    then show ?thesis
      using put by (simp add: at found with_branch_def child br Let_def own del: abs_path_simps)
  next
    case False
    then show ?thesis
      using put same by (simp add: at found with_branch_def child br Let_def own not_less del: abs_path_simps)
  qed
qed

declare insert_fuel.simps [simp del]

text \<open>The tree after a split, branch by branch.\<close>

lemma spread_at:
  fixes t :: "('w::len word, 'e) tree"
  assumes "0 < dims" "path_ok TYPE('w) dims p" "length p < max_branch_depth TYPE('w) dims"
    "path_ok TYPE('w) dims r" "\<And>e. e \<in> set ys \<Longrightarrow> cell e ! length p < 2 ^ dims"
  shows "tree_at dims (spread dims cell p br ys t) r =
    (if r = p then Some (br\<lparr>b_split := True\<rparr>)
     else if r \<noteq> [] \<and> butlast r = p
       then Some (new_branch\<lparr>b_ents := filter (\<lambda>e. p @ [cell e ! length p] = r) ys\<rparr>)
     else tree_at dims t r)"
proof -
  have child: "path_ok TYPE('w) dims (p @ [i])" if "i < 2 ^ dims" for i
    using assms(2,3) that by auto
  have eq: "(abs_path dims r :: 'w word) = abs_path dims (p @ [i]) \<longleftrightarrow> r = p @ [i]" if "i < 2 ^ dims" for i
    by (rule path_eq[OF assms(1,4) child[OF that]])
  have "(\<exists>i < 2 ^ dims. (abs_path dims r :: 'w word) = abs_path dims (p @ [i])) \<longleftrightarrow> r \<noteq> [] \<and> butlast r = p"
  proof
    assume "\<exists>i < 2 ^ dims. (abs_path dims r :: 'w word) = abs_path dims (p @ [i])"
    then show "r \<noteq> [] \<and> butlast r = p" using eq by fastforce
  next
    assume r: "r \<noteq> [] \<and> butlast r = p"
    then have "r = p @ [List.last r]" by (metis append_butlast_last_id)
    moreover from this have "List.last r < 2 ^ dims" using assms(4) by (metis digits_simps(2,3))
    ultimately show "\<exists>i < 2 ^ dims. (abs_path dims r :: 'w word) = abs_path dims (p @ [i])" by metis
  qed
  moreover have "(abs_path dims r :: 'w word) = abs_path dims p \<longleftrightarrow> r = p"
    by (rule path_eq[OF assms(1,4,2)])
  moreover have "filter (\<lambda>e. (abs_path dims (p @ [cell e ! length p]) :: 'w word) = abs_path dims r) ys =
      filter (\<lambda>e. p @ [cell e ! length p] = r) ys"
  proof (rule filter_cong[OF refl])
    fix e assume "e \<in> set ys"
    then show "(abs_path dims (p @ [cell e ! length p]) :: 'w word) = abs_path dims r \<longleftrightarrow>
        p @ [cell e ! length p] = r"
      using eq[OF assms(5)] by metis
  qed
  ultimately show ?thesis
    unfolding tree_at_def by (simp add: spread_def del: abs_path_simps)
qed

lemma tree_shapeD:
  fixes t :: "('w::len word, 'e) tree"
  assumes "tree_shape dims t"
  shows "t_branches t b = Some br \<Longrightarrow> \<exists>p. path_ok TYPE('w) dims p \<and> b = abs_path dims p"
    and "tree_at dims t [] \<noteq> None"
    and "path_ok TYPE('w) dims (p @ [d]) \<Longrightarrow>
      tree_at dims t (p @ [d]) \<noteq> None \<longleftrightarrow> (\<exists>br. tree_at dims t p = Some br \<and> b_split br)"
    and "path_ok TYPE('w) dims p \<Longrightarrow> tree_at dims t p = Some br \<Longrightarrow> length p \<le> t_max_depth t"
    and "path_ok TYPE('w) dims p \<Longrightarrow> tree_at dims t p = Some br \<Longrightarrow> b_split br \<Longrightarrow>
      length p < max_branch_depth TYPE('w) dims"
    and "t_max_depth t \<le> max_branch_depth TYPE('w) dims"
  using assms unfolding tree_shape_def by blast+

lemma shape_spread:
  fixes t :: "('w::len word, 'e) tree"
  assumes dims: "0 < dims" and p: "path_ok TYPE('w) dims p" "length p < max_branch_depth TYPE('w) dims"
    and ys: "\<And>e. e \<in> set ys \<Longrightarrow> cell e ! length p < 2 ^ dims"
    and shape: "tree_shape dims t" and br: "tree_at dims t p = Some br" "\<not> b_split br"
  shows "tree_shape dims (spread dims cell p br ys t)"
proof -
  let ?t = "spread dims cell p br ys t"
  note at = spread_at[where t = t and br = br and ys = ys and cell = cell, OF dims p _ ys]
  note sh = tree_shapeD[OF shape]
  have child: "path_ok TYPE('w) dims (p @ [i])" if "i < 2 ^ dims" for i using p that by auto
  have "\<exists>q. path_ok TYPE('w) dims q \<and> b = abs_path dims q" if "t_branches ?t b = Some x" for b x
  proof (cases "b = abs_path dims p \<or> (\<exists>i < 2 ^ dims. b = abs_path dims (p @ [i]))")
    case True
    then show ?thesis using p child by (metis less_imp_le_nat)
  next
    case False
    then have "t_branches t b = Some x" using that
      by (auto simp: spread_def simp del: abs_path_simps split: if_splits)
    then show ?thesis by (rule sh(1))
  qed
  moreover have "tree_at dims ?t [] \<noteq> None"
    using at[of "[]"] sh(2) by simp
  moreover have "tree_at dims ?t (r @ [d]) \<noteq> None \<longleftrightarrow> (\<exists>x. tree_at dims ?t r = Some x \<and> b_split x)"
    if r: "path_ok TYPE('w) dims (r @ [d])" for r d
  proof -
    have rr: "path_ok TYPE('w) dims r" using r by simp
    consider "r = p" | "r @ [d] = p" | "r \<noteq> p" "r @ [d] \<noteq> p" "r \<noteq> [] \<and> butlast r = p"
      | "r \<noteq> p" "r @ [d] \<noteq> p" "\<not> (r \<noteq> [] \<and> butlast r = p)" by blast
    then show ?thesis
    proof cases
      case 1
      then show ?thesis using at[OF r] at[OF rr] by simp
    next
      case 2
      have "\<exists>x. tree_at dims t r = Some x \<and> b_split x" using sh(3)[OF r] br(1) 2 by simp
      moreover have "\<not> (r \<noteq> [] \<and> butlast r = p)" using 2 by (metis butlast_snoc length_butlast
          length_append_singleton Suc_n_not_le_n diff_le_self)
      ultimately show ?thesis using at[OF r] at[OF rr] 2 by auto
    next
      case 3
      have "tree_at dims t r = None"
      proof -
        obtain i where "r = p @ [i]" using 3(3) by (metis append_butlast_last_id)
        then show ?thesis using sh(3)[of p i] rr br by auto
      qed
      then have "tree_at dims t (r @ [d]) = None" using sh(3)[OF r] by auto
      then show ?thesis using at[OF r] at[OF rr] 3 by (simp add: new_branch_def)
    next
      case 4
      then show ?thesis using at[OF r] at[OF rr] sh(3)[OF r] by auto
    qed
  qed
  moreover have "length r \<le> t_max_depth ?t \<and> (b_split x \<longrightarrow> length r < max_branch_depth TYPE('w) dims)"
    if r: "path_ok TYPE('w) dims r" and x: "tree_at dims ?t r = Some x" for r x
  proof -
    have "t_max_depth ?t = max (t_max_depth t) (Suc (length p))" by (simp add: spread_def)
    moreover consider "r = p" | "r \<noteq> p" "r \<noteq> [] \<and> butlast r = p"
      | "r \<noteq> p" "\<not> (r \<noteq> [] \<and> butlast r = p)" by blast
    then have "length r \<le> max (t_max_depth t) (Suc (length p)) \<and>
        (b_split x \<longrightarrow> length r < max_branch_depth TYPE('w) dims)"
    proof cases
      case 1
      then show ?thesis using p(2) by simp
    next
      case 2
      then have "length r = Suc (length p)" by auto
      moreover have "\<not> b_split x" using x at[OF r] 2 by (auto simp: new_branch_def)
      ultimately show ?thesis by simp
    next
      case 3
      then have "tree_at dims t r = Some x" using x at[OF r] by auto
      then show ?thesis using sh(4)[OF r] sh(5)[OF r] by fastforce
    qed
    ultimately show ?thesis by simp
  qed
  moreover have "t_max_depth ?t \<le> max_branch_depth TYPE('w) dims"
    using sh(6) p(2) by (simp add: spread_def)
  ultimately show ?thesis unfolding tree_shape_def by blast
qed

text \<open>Replacing one branch.\<close>

lemma put_at:
  fixes t :: "('w::len word, 'e) tree"
  assumes "0 < dims" "path_ok TYPE('w) dims p" "path_ok TYPE('w) dims r"
  shows "tree_at dims (put_branch (abs_path dims p) x t) r = (if r = p then Some x else tree_at dims t r)"
  using path_eq[OF assms(1,3,2)] by (simp add: tree_at_def put_branch_def)

lemma put_fields [simp]:
  "t_at (put_branch b x t) = t_at t" "t_lo (put_branch b x t) = t_lo t"
  "t_hi (put_branch b x t) = t_hi t" "t_max_depth (put_branch b x t) = t_max_depth t"
  "t_entities (put_branch b x t) = t_entities t" "t_scale (put_branch b x t) = t_scale t"
  "t_max_scale (put_branch b x t) = t_max_scale t"
  by (simp_all add: put_branch_def)

lemma shape_put:
  fixes t :: "('w::len word, 'e) tree"
  assumes dims: "0 < dims" and p: "path_ok TYPE('w) dims p" and shape: "tree_shape dims t"
    and br: "tree_at dims t p = Some br" "b_split x = b_split br"
  shows "tree_shape dims (put_branch (abs_path dims p) x t)"
proof -
  let ?t = "put_branch (abs_path dims p) x t"
  note sh = tree_shapeD[OF shape]
  note at = put_at[OF dims p, of _ x t]
  have none: "tree_at dims ?t r \<noteq> None \<longleftrightarrow> tree_at dims t r \<noteq> None" if "path_ok TYPE('w) dims r" for r
    using at[OF that] br(1) by simp
  have split: "(\<exists>y. tree_at dims ?t r = Some y \<and> b_split y) \<longleftrightarrow> (\<exists>y. tree_at dims t r = Some y \<and> b_split y)"
    if "path_ok TYPE('w) dims r" for r
    using at[OF that] br by auto
  have "\<exists>q. path_ok TYPE('w) dims q \<and> b = abs_path dims q" if "t_branches ?t b = Some y" for b y
    using that sh(1) p by (auto simp: put_branch_def split: if_splits)
  moreover have "tree_at dims ?t (r @ [d]) \<noteq> None \<longleftrightarrow> (\<exists>y. tree_at dims ?t r = Some y \<and> b_split y)"
    if r: "path_ok TYPE('w) dims (r @ [d])" for r d
  proof -
    have "path_ok TYPE('w) dims r" using r by simp
    then show ?thesis using none[OF r] split sh(3)[OF r] by blast
  qed
  moreover have "length r \<le> t_max_depth ?t \<and> (b_split y \<longrightarrow> length r < max_branch_depth TYPE('w) dims)"
    if r: "path_ok TYPE('w) dims r" and y: "tree_at dims ?t r = Some y" for r y
    using y at[OF r] br sh(4,5)[OF r] by (auto split: if_splits)
  moreover have "t_max_depth ?t \<le> max_branch_depth TYPE('w) dims" using sh(6) by simp
  moreover have "tree_at dims ?t [] \<noteq> None" using none[of "[]"] sh(2) by simp
  ultimately show ?thesis unfolding tree_shape_def by blast
qed

lemma leaf_ok_cong:
  fixes t t' :: "('w::len word, 'e) tree"
  assumes "\<And>e. e \<in> set (b_ents br) \<Longrightarrow> t_at t' e = t_at t e" "t_lo t' = t_lo t" "t_hi t' = t_hi t"
  shows "leaf_ok dims cap pos t' p br = leaf_ok dims cap pos t p br"
  unfolding leaf_ok_def finest_cell_cong[OF assms(2,3)] using assms(1) by auto

lemma filledD:
  fixes t :: "('w::len word, 'e) tree"
  assumes "tree_filled dims cap pos E t" "path_ok TYPE('w) dims p" "p \<notin> E" "tree_at dims t p = Some br"
  shows "leaf_ok dims cap pos t p br"
  using assms unfolding tree_filled_def by blast

lemma filled_put:
  fixes t :: "('w::len word, 'e) tree"
  assumes dims: "0 < dims" and p: "path_ok TYPE('w) dims p"
    and fill: "tree_filled dims cap pos (insert p E) t" and x: "leaf_ok dims cap pos t p x"
  shows "tree_filled dims cap pos E (put_branch (abs_path dims p) x t)"
  unfolding tree_filled_def
proof (intro allI impI)
  fix r br
  assume r: "path_ok TYPE('w) dims r" "r \<notin> E"
    and br: "tree_at dims (put_branch (abs_path dims p) x t) r = Some br"
  have "leaf_ok dims cap pos t r br"
    using br put_at[OF dims p r(1), of x t] x filledD[OF fill r(1)] r(2) by (auto split: if_splits)
  then show "leaf_ok dims cap pos (put_branch (abs_path dims p) x t) r br"
    by (subst leaf_ok_cong) simp_all
qed

lemma filled_put_waived:
  fixes t :: "('w::len word, 'e) tree"
  assumes dims: "0 < dims" and p: "path_ok TYPE('w) dims p"
    and fill: "tree_filled dims cap pos E t" and "p \<in> E"
  shows "tree_filled dims cap pos E (put_branch (abs_path dims p) x t)"
  unfolding tree_filled_def
proof (intro allI impI)
  fix r br
  assume r: "path_ok TYPE('w) dims r" "r \<notin> E"
    and br: "tree_at dims (put_branch (abs_path dims p) x t) r = Some br"
  have "leaf_ok dims cap pos t r br"
    using br put_at[OF dims p r(1), of x t] filledD[OF fill r] assms(4) r(2) by (auto split: if_splits)
  then show "leaf_ok dims cap pos (put_branch (abs_path dims p) x t) r br"
    by (subst leaf_ok_cong) simp_all
qed

text \<open>After a split everything but the children of p is as before.\<close>

lemma filled_spread:
  fixes t :: "('w::len word, 'e) tree"
  assumes dims: "0 < dims" and p: "path_ok TYPE('w) dims p" "length p < max_branch_depth TYPE('w) dims"
    and fill: "tree_filled dims cap pos (insert p E) t"
    and ys: "\<And>e. e \<in> set ys \<Longrightarrow> finest_cell dims t (pos e) = Some (cell e) \<and>
      take (length p) (cell e) = p \<and> t_at t e = abs_path dims p" "distinct ys"
    and small: "\<And>i. i < 2 ^ dims \<Longrightarrow> p @ [i] \<notin> E' \<Longrightarrow>
      length (filter (\<lambda>e. p @ [cell e ! length p] = p @ [i]) ys) \<le> cap"
    and E: "insert p E \<subseteq> E'"
  shows "tree_filled dims cap pos E' (spread dims cell p br ys t)"
  unfolding tree_filled_def
proof (intro allI impI)
  let ?t = "spread dims cell p br ys t"
  have cell: "path_ok TYPE('w) dims (cell e)" "length (cell e) = max_branch_depth TYPE('w) dims"
    if "e \<in> set ys" for e
    using finest_cell_at[OF dims] ys(1)[OF that] by blast+
  have digit: "cell e ! length p < 2 ^ dims" if "e \<in> set ys" for e
    using cell[OF that] p(2) by (simp add: digits_def)
  have next_: "take (Suc (length p)) (cell e) = p @ [cell e ! length p]" if "e \<in> set ys" for e
    using take_Suc_conv_app_nth[of "length p" "cell e"] p(2) cell(2)[OF that] ys(1)[OF that] by simp
  have finest: "finest_cell dims ?t = finest_cell dims t"
    by (rule finest_cell_cong) (simp_all add: spread_def)
  fix r x
  assume r: "path_ok TYPE('w) dims r" "r \<notin> E'" and x: "tree_at dims ?t r = Some x"
  have rp: "r \<noteq> p" "r \<notin> insert p E" using r(2) E by auto
  note at = spread_at[where t = t and br = br and ys = ys and cell = cell, OF dims p r(1) digit]
  show "leaf_ok dims cap pos ?t r x"
  proof (cases "r \<noteq> [] \<and> butlast r = p")
    case True
    then obtain i where i: "r = p @ [i]" by (metis append_butlast_last_id)
    then have "i < 2 ^ dims" using r(1) by simp
    then have "length (filter (\<lambda>e. p @ [cell e ! length p] = r) ys) \<le> cap"
      using small[of i] r(2) i by simp
    moreover have "t_at ?t e = abs_path dims r \<and> take (length r) (cell e) = r"
      if "e \<in> set ys" "p @ [cell e ! length p] = r" for e
      using that next_[OF that(1)] i by (simp add: spread_def del: abs_path_simps)
    ultimately show ?thesis
      using x at rp(1) True ys
      by (auto simp: leaf_ok_def new_branch_def finest)
  next
    case False
    then have old: "tree_at dims t r = Some x" using x at rp(1) by auto
    then have ok: "leaf_ok dims cap pos t r x" using filledD[OF fill r(1) rp(2)] by simp
    have "t_at ?t e = t_at t e" if e: "e \<in> set (b_ents x)" for e
    proof -
      have "t_at t e = abs_path dims r" using ok e by (auto simp: leaf_ok_def split: if_splits)
      then have "e \<notin> set ys" using ys(1)[of e] path_eq[OF dims r(1) p(1)] rp(1) by auto
      then show ?thesis by (simp add: spread_def)
    qed
    then show ?thesis using ok by (subst leaf_ok_cong) (simp_all add: spread_def)
  qed
qed

text \<open>As long as no child can overflow, the loop of refine_ spreads the entities.\<close>

lemma spread_loop:
  fixes t :: "('w::len word, 'e) tree"
  assumes dims: "0 < dims" and p: "path_ok TYPE('w) dims p" "length p < max_branch_depth TYPE('w) dims"
    and ys: "\<And>e. e \<in> set ys \<Longrightarrow> finest_cell dims t (pos e) = Some (cell e) \<and> take (length p) (cell e) = p"
    and len: "length ys \<le> cap"
  shows "fold_outcome (\<lambda>e. insert_fuel (Suc n) (capacity_policy cap) dims pos e (Suc (length p))) ys
     (spread dims cell p br [] t) = ok (spread dims cell p br ys t)"
  using ys len
proof (induction ys rule: rev_induct)
  case (snoc y ys)
  have y: "finest_cell dims t (pos y) = Some (cell y)" "take (length p) (cell y) = p"
    using snoc.prems(1)[of y] by auto
  let ?ents = "filter (\<lambda>e. (abs_path dims (p @ [cell e ! length p]) :: 'w word) =
      abs_path dims (p @ [cell y ! length p])) (ys @ [y])"
  have "length ?ents \<le> cap" by (rule le_trans[OF length_filter_le snoc.prems(2)])
  then have "insert_fuel (Suc n) (capacity_policy cap) dims pos y (Suc (length p)) (spread dims cell p br ys t)
      = ok (spread dims cell p br (ys @ [y]) t)"
    using spread_insert(2)[where t = t and pos = pos and cell = cell and y = y and ys = ys and n = n
        and cap = cap and br = br, OF dims p y] by (simp only: Let_def if_True)
  then show ?case using snoc by simp
qed simp

definition below :: "nat \<Rightarrow> nat list \<Rightarrow> ('w::len word, 'e) tree \<Rightarrow> 'e set" where
  "below dims p t = {e. \<exists>q br. path_ok TYPE('w) dims q \<and> take (length p) q = p \<and>
     tree_at dims t q = Some br \<and> e \<in> set (b_ents br)}"

definition same_tree_data :: "('b, 'e) tree \<Rightarrow> ('b, 'e) tree \<Rightarrow> bool" where
  "same_tree_data t t' \<longleftrightarrow> t_lo t' = t_lo t \<and> t_hi t' = t_hi t \<and> t_entities t' = t_entities t \<and>
     t_scale t' = t_scale t \<and> t_max_scale t' = t_max_scale t"

text \<open>What refine_ achieves at the leaf p, and what it leaves alone.\<close>

definition refined ::
  "nat \<Rightarrow> nat \<Rightarrow> ('e \<Rightarrow> rat list) \<Rightarrow> nat list set \<Rightarrow> nat list \<Rightarrow> 'e list \<Rightarrow>
   ('w::len word, 'e) tree \<Rightarrow> ('w word, 'e) tree \<Rightarrow> bool" where
  "refined dims cap pos E p xs t t' \<longleftrightarrow> tree_shape dims t' \<and> tree_filled dims cap pos E t' \<and>
     (\<forall>q. path_ok TYPE('w) dims q \<and> take (length p) q \<noteq> p \<longrightarrow> tree_at dims t' q = tree_at dims t q) \<and>
     (\<forall>e. e \<notin> set xs \<longrightarrow> t_at t' e = t_at t e) \<and> same_tree_data t t' \<and> below dims p t' = set xs"

text \<open>The last step of refine_: the branch itself is emptied.\<close>

lemma refined_finish:
  fixes t :: "('w::len word, 'e) tree"
  assumes dims: "0 < dims" and p: "path_ok TYPE('w) dims p"
    and shape: "tree_shape dims s" and fill: "tree_filled dims cap pos (insert p E) s"
    and br: "tree_at dims s p = Some br" "b_split br"
    and outside: "\<And>q. path_ok TYPE('w) dims q \<Longrightarrow> take (length p) q \<noteq> p \<Longrightarrow>
      tree_at dims s q = tree_at dims t q"
    and frame: "\<And>e. e \<notin> set xs \<Longrightarrow> t_at s e = t_at t e" "same_tree_data t s"
    and content: "{e. \<exists>q x. path_ok TYPE('w) dims q \<and> take (length p) q = p \<and> q \<noteq> p \<and>
      tree_at dims s q = Some x \<and> e \<in> set (b_ents x)} = set xs"
  shows "refined dims cap pos E p xs t
    (put_branch (abs_path dims p) (br\<lparr>b_ents := [], b_action := Act_None\<rparr>) s :: ('w word, 'e) tree)"
proof -
  let ?x = "br\<lparr>b_ents := [], b_action := Act_None\<rparr>"
  let ?s = "put_branch (abs_path dims p) ?x s"
  note at = put_at[OF dims p, of _ ?x s]
  have "tree_shape dims ?s" by (rule shape_put[OF dims p shape br(1)]) simp
  moreover have "tree_filled dims cap pos E ?s"
    by (rule filled_put[OF dims p fill]) (simp add: leaf_ok_def br(2))
  moreover have "tree_at dims ?s q = tree_at dims t q"
    if "path_ok TYPE('w) dims q" "take (length p) q \<noteq> p" for q
    using at[OF that(1)] outside[OF that] that(2) by auto
  moreover have "below dims p ?s = set xs"
    unfolding below_def using at p
    by (subst content[symmetric]) (intro set_eqI; auto split: if_splits; metis)
  ultimately show ?thesis
    using frame unfolding refined_def by (simp add: same_tree_data_def)
qed

lemma ancestor_split:
  fixes t :: "('w::len word, 'e) tree"
  assumes dims: "0 < dims" and shape: "tree_shape dims t" and q: "path_ok TYPE('w) dims q"
    and p: "take k q \<noteq> q" and at: "tree_at dims t q = Some x"
  shows "\<exists>y. tree_at dims t (take k q) = Some y \<and> b_split y"
  using q p at
proof (induction q arbitrary: x rule: rev_induct)
  case (snoc d q)
  have k: "k \<le> length q" using snoc.prems(2) by (metis length_append_singleton not_less_eq_eq take_all)
  obtain y where y: "tree_at dims t q = Some y" "b_split y"
    using tree_shapeD(3)[OF shape snoc.prems(1)] snoc.prems(3) by blast
  show ?case
  proof (cases "k = length q")
    case True
    then show ?thesis using y by simp
  next
    case False
    then have "take k q \<noteq> q" using k by (metis length_take min.absorb2 nat_less_le)
    then show ?thesis using snoc.IH[OF _ _ y(1)] snoc.prems(1) k by simp
  qed
qed simp

lemma spread_content:
  fixes t :: "('w::len word, 'e) tree"
  assumes dims: "0 < dims" and p: "path_ok TYPE('w) dims p" "length p < max_branch_depth TYPE('w) dims"
    and shape: "tree_shape dims t" and br: "tree_at dims t p = Some br" "\<not> b_split br"
    and digit: "\<And>e. e \<in> set ys \<Longrightarrow> cell e ! length p < 2 ^ dims"
  shows "{e. \<exists>q x. path_ok TYPE('w) dims q \<and> take (length p) q = p \<and> q \<noteq> p \<and>
    tree_at dims (spread dims cell p b ys t) q = Some x \<and> e \<in> set (b_ents x)} = set ys"
    (is "?l = _")
proof (intro set_eqI iffI)
  note at = spread_at[where t = t and br = b and ys = ys and cell = cell, OF dims p _ digit]
  fix e
  {
    assume "e \<in> ?l"
    then obtain q x where q: "path_ok TYPE('w) dims q" "take (length p) q = p" "q \<noteq> p"
      "tree_at dims (spread dims cell p b ys t) q = Some x" "e \<in> set (b_ents x)" by blast
    show "e \<in> set ys"
    proof (cases "q \<noteq> [] \<and> butlast q = p")
      case True
      then show ?thesis using at[OF q(1)] q(3-5) by (auto simp: new_branch_def)
    next
      case False
      have "tree_at dims t q = Some x" using at[OF q(1)] q(3,4) False by auto
      then have "\<exists>y. tree_at dims t p = Some y \<and> b_split y"
        using ancestor_split[OF dims shape q(1)] q(2,3) by metis
      then show ?thesis using br by simp
    qed
  next
    assume e: "e \<in> set ys"
    let ?q = "p @ [cell e ! length p]"
    have ok: "path_ok TYPE('w) dims ?q" using p digit[OF e] by auto
    have "\<exists>x. tree_at dims (spread dims cell p b ys t) ?q = Some x \<and> e \<in> set (b_ents x)"
      using at[OF ok] e by simp
    then show "e \<in> ?l" using ok by fastforce
  }
qed

lemma refine_too_deep:
  fixes t :: "('w::len word, 'e) tree"
  assumes dims: "0 < dims" and width: "dims < LENGTH('w)" and p: "path_ok TYPE('w) dims p"
    and deep: "length p = max_branch_depth TYPE('w) dims"
    and br: "tree_at dims t p = Some br" "\<not> b_split br" "b_ents br \<noteq> []"
  shows "refine_with (insert_fuel (Suc n) pol dims pos) dims (abs_path dims p) t = fail Undefined"
proof -
  let ?b = "abs_path dims p :: 'w word"
  obtain x xs where ents: "b_ents br = x # xs" using br(3) by (cases "b_ents br") auto
  have depth: "branch_depth dims ?b = length p"
    using depth_abs_path[OF dims] p by blast
  let ?cs = "map (\<lambda>i. push_bit dims ?b OR of_nat i) [0..<2 ^ dims]"
  have "(of_nat i :: 'w word) < push_bit dims 1" if "i < 2 ^ dims" for i
    using that width by (simp add: word_less_nat_alt unat_digit unat_two_power)
  then have "traverse (\<lambda>i. branch_push dims (of_nat i) ?b) [0..<2 ^ dims] = ok ?cs"
    by (intro traverse_ok) (simp add: branch_push_def)
  then have made: "into_branch dims ?b t = ok (True, fold (\<lambda>c. emplace_branch c new_branch) ?cs
      (put_branch ?b (br\<lparr>b_split := True\<rparr>) t))" (is "_ = ok (True, ?t1)")
    using br by (simp add: into_branch_def with_branch_def tree_at_def)
  have "t_branches (?t1\<lparr>t_max_depth := m\<rparr>) ?b = Some (br\<lparr>b_split := True\<rparr>)" for m
    by (simp add: fold_emplace_new put_branch_def)
  moreover have "insert_fuel (Suc n) pol dims pos x (Suc (length p)) s = fail Undefined" for s
    by (simp add: insert_fuel.simps branch_at_def deep)
  ultimately show ?thesis
    by (simp add: refine_with_def made depth with_branch_def ents)
qed

text \<open>
  Refining a leaf that has just overflowed succeeds, unless its entities all share the
  smallest cell.
\<close>

lemma refine_fill:
  fixes t :: "('w::len word, 'e) tree"
  assumes dims: "0 < dims" and width: "dims < LENGTH('w)" and shape: "tree_shape dims t"
    and fill: "tree_filled dims cap pos (insert p E) t" and p: "path_ok TYPE('w) dims p"
    and br: "tree_at dims t p = Some br" "\<not> b_split br"
    and xs: "length (b_ents br) = Suc cap" "distinct (b_ents br)"
      "\<And>e. e \<in> set (b_ents br) \<Longrightarrow> finest_cell dims t (pos e) = Some (cell e) \<and>
        take (length p) (cell e) = p \<and> t_at t e = abs_path dims p"
    and fuel: "max_branch_depth TYPE('w) dims < n + length p"
  shows "refine_with (insert_fuel n (capacity_policy cap) dims pos) dims (abs_path dims p) t = fail Undefined \<and>
      (\<exists>c. \<forall>e \<in> set (b_ents br). cell e = c) \<or>
    (\<exists>t'. refine_with (insert_fuel n (capacity_policy cap) dims pos) dims (abs_path dims p) t = ok t' \<and>
      refined dims cap pos E p (b_ents br) t t')"
  using assms
proof (induction n arbitrary: p E t br)
  case 0
  then show ?case by simp
next
  case (Suc n)
  note dims = Suc.prems(1) and width = Suc.prems(2) and shape = Suc.prems(3) and fill = Suc.prems(4)
    and p = Suc.prems(5) and br = Suc.prems(6,7) and xs = Suc.prems(8-10) and fuel = Suc.prems(11)
  let ?ins = "\<lambda>e. insert_fuel (Suc n) (capacity_policy cap) dims pos e (Suc (length p))"
  have depth: "branch_depth dims (abs_path dims p :: 'w word) = length p"
    using depth_abs_path[OF dims] p by blast
  obtain ys y where ents: "b_ents br = ys @ [y]" using xs(1) by (cases "b_ents br" rule: rev_cases) auto
  show ?case
  proof (cases "length p < max_branch_depth TYPE('w) dims")
    case False
    then have deep: "length p = max_branch_depth TYPE('w) dims" using p by simp
    have "refine_with (insert_fuel (Suc n) (capacity_policy cap) dims pos) dims (abs_path dims p) t
        = fail Undefined"
      by (rule refine_too_deep[OF dims width p deep br]) (simp add: ents)
    moreover have "cell e = p" if "e \<in> set (b_ents br)" for e
      using xs(3)[OF that] finest_cell_at(2)[OF dims, of t "pos e" "cell e"] deep by simp
    ultimately show ?thesis by blast
  next
    case True
    note p' = p True
    have cell: "path_ok TYPE('w) dims (cell e)" "length (cell e) = max_branch_depth TYPE('w) dims"
      if "e \<in> set (b_ents br)" for e
      using finest_cell_at[OF dims] xs(3)[OF that] by blast+
    have digit: "cell e ! length p < 2 ^ dims" if "e \<in> set (b_ents br)" for e
      using cell[OF that] True by (simp add: digits_def)
    have absent: "tree_at dims t (p @ [i]) = None" if "i < 2 ^ dims" for i
      using tree_shapeD(3)[OF shape, of p i] br p True that by auto
    obtain t1 where t1: "into_branch dims (abs_path dims p) t = ok (True, t1)"
      "t1\<lparr>t_max_depth := max (t_max_depth t1) (Suc (length p))\<rparr> = spread dims cell p br [] t"
      using into_branch_spread[OF dims p' br absent] by blast
    let ?s = "\<lambda>zs. spread dims cell p br zs t"
    have at: "t_branches (?s zs) (abs_path dims p) = Some (br\<lparr>b_split := True\<rparr>)" for zs
      by (simp add: spread_def)
    let ?fin = "\<lambda>s :: ('w word, 'e) tree. with_branch (abs_path dims p) s (\<lambda>br.
        ok (put_branch (abs_path dims p) (br\<lparr>b_ents := [], b_action := Act_None\<rparr>) s))"
    have "fold_outcome ?ins ys (?s []) = ok (?s ys)"
      using xs(1,3) ents by (intro spread_loop[OF dims p']) auto
    then have run: "refine_with (insert_fuel (Suc n) (capacity_policy cap) dims pos) dims (abs_path dims p) t
        = and_then (?ins y (?s ys)) ?fin"
      using t1 at[of "[]"]
      by (simp add: refine_with_def depth Let_def with_branch_def[of _ "spread dims cell p br [] t"] ents
         )
    have y: "y \<in> set (b_ents br)" using ents by simp
    let ?q = "p @ [cell y ! length p]"
    let ?in = "filter (\<lambda>e. (abs_path dims (p @ [cell e ! length p]) :: 'w word) = abs_path dims ?q) (ys @ [y])"
    have y_at: "finest_cell dims t (pos y) = Some (cell y)" "take (length p) (cell y) = p"
      using xs(3)[OF y] by auto
    note q_ok = spread_insert(1)[where t = t and pos = pos and cell = cell and y = y, OF dims p' y_at]
    note ins = spread_insert(2)[where t = t and pos = pos and cell = cell and y = y and ys = ys
        and n = n and cap = cap and br = br, OF dims p' y_at]
    have shape_s: "tree_shape dims (?s (b_ents br))"
      by (rule shape_spread[OF dims p' digit shape br]) simp
    have at_s: "tree_at dims (?s (b_ents br)) r = (if r = p then Some (br\<lparr>b_split := True\<rparr>)
       else if r \<noteq> [] \<and> butlast r = p
         then Some (new_branch\<lparr>b_ents := filter (\<lambda>e. p @ [cell e ! length p] = r) (b_ents br)\<rparr>)
       else tree_at dims t r)" if "path_ok TYPE('w) dims r" for r
      by (rule spread_at[OF dims p' that digit])
    have outside: "tree_at dims (?s (b_ents br)) r = tree_at dims t r"
      if "path_ok TYPE('w) dims r" "take (length p) r \<noteq> p" for r
      using at_s[OF that(1)] that(2) by (auto simp: butlast_conv_take)
    have same: "same_tree_data t (?s zs)" for zs by (simp add: same_tree_data_def spread_def)
    have qeq: "(abs_path dims (p @ [cell e ! length p]) :: 'w word) = abs_path dims (p @ [i]) \<longleftrightarrow>
        p @ [cell e ! length p] = p @ [i]" if "e \<in> set (b_ents br)" "i < 2 ^ dims" for e i
      using digit[OF that(1)] that(2) p True by (intro path_eq[OF dims]) auto
    have in_eq: "?in = filter (\<lambda>e. p @ [cell e ! length p] = ?q) (b_ents br)"
      unfolding ents by (rule filter_cong[OF refl]) (use qeq digit[OF y] ents in auto)
    show ?thesis
    proof (cases "length ?in \<le> cap")
      case fits: True
      have "and_then (?ins y (?s ys)) ?fin = ?fin (?s (b_ents br))"
        using ins fits by (simp add: ents)
      moreover have "?fin (?s (b_ents br)) = ok (put_branch (abs_path dims p)
          (br\<lparr>b_split := True\<rparr>\<lparr>b_ents := [], b_action := Act_None\<rparr>) (?s (b_ents br)))"
        by (simp add: with_branch_def at)
      moreover have "refined dims cap pos E p (b_ents br) t (put_branch (abs_path dims p)
          (br\<lparr>b_split := True\<rparr>\<lparr>b_ents := [], b_action := Act_None\<rparr>) (?s (b_ents br)))"
      proof (rule refined_finish[OF dims p shape_s])
        show "tree_filled dims cap pos (insert p E) (?s (b_ents br))"
        proof (rule filled_spread[OF dims p' fill _ xs(2) _ subset_refl])
          show "finest_cell dims t (pos e) = Some (cell e) \<and> take (length p) (cell e) = p \<and>
              t_at t e = abs_path dims p" if "e \<in> set (b_ents br)" for e
            by (rule xs(3)[OF that])
          fix i :: nat assume i: "i < 2 ^ dims"
          show "length (filter (\<lambda>e. p @ [cell e ! length p] = p @ [i]) (b_ents br)) \<le> cap"
          proof (cases "i = cell y ! length p")
            case True
            then show ?thesis using fits unfolding in_eq by simp
          next
            case False
            then have "filter (\<lambda>e. p @ [cell e ! length p] = p @ [i]) (b_ents br) =
                filter (\<lambda>e. p @ [cell e ! length p] = p @ [i]) ys" by (simp add: ents)
            also have "length \<dots> \<le> length ys" by (rule length_filter_le)
            finally show ?thesis using xs(1) ents by simp
          qed
        qed
      qed (use at_s[OF p] outside same spread_content[OF dims p' shape br digit] in
           \<open>auto simp: spread_def\<close>)
      ultimately show ?thesis using run by auto
    next
      case full: False
      have all_in: "filter (\<lambda>e. p @ [cell e ! length p] = ?q) (b_ents br) = b_ents br"
      proof (rule ccontr)
        assume "filter (\<lambda>e. p @ [cell e ! length p] = ?q) (b_ents br) \<noteq> b_ents br"
        then have "length (filter (\<lambda>e. p @ [cell e ! length p] = ?q) (b_ents br)) < length (b_ents br)"
          by (meson filter_True length_filter_less)
        then show False using full xs(1) unfolding in_eq by simp
      qed
      then have to_q: "p @ [cell e ! length p] = ?q" if "e \<in> set (b_ents br)" for e
        using that by (metis (mono_tags, lifting) filter_id_conv)
      let ?x = "new_branch\<lparr>b_ents := b_ents br, b_action := Act_Refine\<rparr>"
      let ?t2 = "put_branch (abs_path dims ?q) ?x (?s (b_ents br))"
      have step: "?ins y (?s ys) = refine_with (insert_fuel n (capacity_policy cap) dims pos) dims
          (abs_path dims ?q) ?t2"
        unfolding ins Let_def using full in_eq all_in by (simp add: ents)
      have "refine_with (insert_fuel n (capacity_policy cap) dims pos) dims (abs_path dims ?q) ?t2 = fail Undefined \<and>
          (\<exists>c. \<forall>e \<in> set (b_ents ?x). cell e = c) \<or>
        (\<exists>t'. refine_with (insert_fuel n (capacity_policy cap) dims pos) dims (abs_path dims ?q) ?t2 = ok t' \<and>
          refined dims cap pos (insert p E) ?q (b_ents ?x) ?t2 t')"
      proof (rule Suc.IH[OF dims width])
        have at_q: "tree_at dims (?s (b_ents br)) ?q = Some (new_branch\<lparr>b_ents := b_ents br\<rparr>)"
          using at_s[OF q_ok] all_in by simp
        show "tree_shape dims ?t2"
          by (rule shape_put[OF dims q_ok shape_s at_q]) (simp add: new_branch_def)
        have "tree_filled dims cap pos (insert ?q (insert p E)) (?s (b_ents br))"
        proof (rule filled_spread[OF dims p' fill _ xs(2)])
          show "finest_cell dims t (pos e) = Some (cell e) \<and> take (length p) (cell e) = p \<and>
              t_at t e = abs_path dims p" if "e \<in> set (b_ents br)" for e
            by (rule xs(3)[OF that])
          show "length (filter (\<lambda>e. p @ [cell e ! length p] = p @ [i]) (b_ents br)) \<le> cap"
            if "i < 2 ^ dims" "p @ [i] \<notin> insert ?q (insert p E)" for i
            using that(2) to_q by (subst filter_False) auto
        qed auto
        then show "tree_filled dims cap pos (insert ?q (insert p E)) ?t2"
          by (rule filled_put_waived[OF dims q_ok]) simp
        show "path_ok TYPE('w) dims ?q" by (rule q_ok)
        show "tree_at dims ?t2 ?q = Some ?x" using put_at[OF dims q_ok q_ok] by simp
        have "finest_cell dims ?t2 = finest_cell dims t"
          by (rule finest_cell_cong) (simp_all add: spread_def)
        moreover have "take (length ?q) (cell e) = ?q" if "e \<in> set (b_ents br)" for e
          using take_Suc_conv_app_nth[of "length p" "cell e"] cell(2)[OF that] True to_q[OF that] xs(3)[OF that]
          by simp
        ultimately show "finest_cell dims ?t2 (pos e) = Some (cell e) \<and> take (length ?q) (cell e) = ?q \<and>
            t_at ?t2 e = abs_path dims ?q" if "e \<in> set (b_ents ?x)" for e
          using that xs(3)[of e] to_q[of e] by (simp add: spread_def)
      qed (use xs(1,2) fuel in \<open>simp_all add: new_branch_def\<close>)
      then show ?thesis
      proof (elim disjE conjE exE)
        assume "refine_with (insert_fuel n (capacity_policy cap) dims pos) dims (abs_path dims ?q) ?t2
          = fail Undefined"
        moreover fix c assume "\<forall>e \<in> set (b_ents ?x). cell e = c"
        ultimately show ?thesis using run step by auto
      next
        fix t3
        assume r3: "refine_with (insert_fuel n (capacity_policy cap) dims pos) dims (abs_path dims ?q) ?t2 = ok t3"
          and done_: "refined dims cap pos (insert p E) ?q (b_ents ?x) ?t2 t3"
        note d = done_[unfolded refined_def]
        have keep: "tree_at dims t3 r = (if r = ?q then Some ?x else tree_at dims (?s (b_ents br)) r)"
          if "path_ok TYPE('w) dims r" "take (length ?q) r \<noteq> ?q" for r
          using d that put_at[OF dims q_ok that(1)] by metis
        have at3: "tree_at dims t3 p = Some (br\<lparr>b_split := True\<rparr>)"
          using keep[OF p] at_s[OF p] by simp
        have "refined dims cap pos E p (b_ents br) t (put_branch (abs_path dims p)
            (br\<lparr>b_split := True\<rparr>\<lparr>b_ents := [], b_action := Act_None\<rparr>) t3)"
        proof (rule refined_finish[OF dims p _ _ at3])
          show "tree_shape dims t3" "tree_filled dims cap pos (insert p E) t3" using d by blast+
          show "b_split (br\<lparr>b_split := True\<rparr>)" by simp
          show "tree_at dims t3 r = tree_at dims t r"
            if r: "path_ok TYPE('w) dims r" "take (length p) r \<noteq> p" for r
          proof -
            have "take (length ?q) r \<noteq> ?q" "r \<noteq> ?q"
              using r(2) take_prefix_of[of p "cell y ! length p" r] by auto
            then show ?thesis using keep[OF r(1)] outside[OF r] by simp
          qed
          show "t_at t3 e = t_at t e" if "e \<notin> set (b_ents br)" for e
            using d that by (simp add: spread_def)
          show "same_tree_data t t3"
            using d same[of "b_ents br"] by (simp add: same_tree_data_def)
          have low: "below dims ?q t3 = set (b_ents br)" using d by simp
          show "{e. \<exists>r x. path_ok TYPE('w) dims r \<and> take (length p) r = p \<and> r \<noteq> p \<and>
              tree_at dims t3 r = Some x \<and> e \<in> set (b_ents x)} = set (b_ents br)" (is "?l = _")
          proof (intro equalityI subsetI)
            fix e assume "e \<in> ?l"
            then obtain r x where r: "path_ok TYPE('w) dims r" "take (length p) r = p" "r \<noteq> p"
              "tree_at dims t3 r = Some x" "e \<in> set (b_ents x)" by blast
            show "e \<in> set (b_ents br)"
            proof (cases "take (length ?q) r = ?q")
              case True
              then have "e \<in> below dims ?q t3" using r unfolding below_def by blast
              then show ?thesis using low by simp
            next
              case False
              then have at_r: "tree_at dims (?s (b_ents br)) r = Some x"
                using keep[OF r(1) False] r(4) by (auto split: if_splits)
              have "e \<in> {e. \<exists>q x. path_ok TYPE('w) dims q \<and> take (length p) q = p \<and> q \<noteq> p \<and>
                  tree_at dims (?s (b_ents br)) q = Some x \<and> e \<in> set (b_ents x)}"
                using r at_r by blast
              then show ?thesis
                using spread_content[where cell = cell and b = br and ys = "b_ents br", OF dims p' shape br digit]
                by blast
            qed
          next
            fix e assume "e \<in> set (b_ents br)"
            then have "e \<in> below dims ?q t3" using low by simp
            then obtain r x where r: "path_ok TYPE('w) dims r" "take (length ?q) r = ?q"
              "tree_at dims t3 r = Some x" "e \<in> set (b_ents x)" unfolding below_def by blast
            have "take (length p) r = p" "r \<noteq> p"
              using r(2) take_prefix_of[of p "cell y ! length p" r] by auto
            then show "e \<in> ?l" using r by blast
          qed
        qed
        moreover have "?fin t3 = ok (put_branch (abs_path dims p)
            (br\<lparr>b_split := True\<rparr>\<lparr>b_ents := [], b_action := Act_None\<rparr>) t3)"
          using at3 by (simp add: with_branch_def tree_at_def)
        ultimately show ?thesis using run step r3 by auto
      qed
    qed
  qed
qed

lemma stored_put:
  assumes "t_branches t b = Some br" "set (b_ents x) = insert e (set (b_ents br))"
  shows "stored (put_branch b x t) = insert e (stored t)"
proof (intro equalityI subsetI)
  fix y assume "y \<in> stored (put_branch b x t)"
  then obtain c z where z: "(if c = b then Some x else t_branches t c) = Some z" "y \<in> set (b_ents z)"
    unfolding stored_def put_branch_def by auto
  then show "y \<in> insert e (stored t)"
    using assms unfolding stored_def by (cases "c = b") auto
next
  fix y assume "y \<in> insert e (stored t)"
  then show "y \<in> stored (put_branch b x t)"
  proof
    assume "y = e"
    then show ?thesis using assms unfolding stored_def put_branch_def by auto
  next
    assume "y \<in> stored t"
    then obtain c z where z: "t_branches t c = Some z" "y \<in> set (b_ents z)"
      unfolding stored_def by blast
    then have "\<exists>w. (if c = b then Some x else t_branches t c) = Some w \<and> y \<in> set (b_ents w)"
      using assms by (cases "c = b") auto
    then have "\<exists>w. t_branches (put_branch b x t) c = Some w \<and> y \<in> set (b_ents w)"
      by (simp add: put_branch_def)
    then show ?thesis unfolding stored_def by blast
  qed
qed

text \<open>Every stored entity is below the root.\<close>

lemma stored_below:
  fixes t :: "('w::len word, 'e) tree"
  assumes "tree_shape dims t"
  shows "stored t = {e. \<exists>q br. path_ok TYPE('w) dims q \<and> tree_at dims t q = Some br \<and> e \<in> set (b_ents br)}"
  using tree_shapeD(1)[OF assms] unfolding stored_def tree_at_def by blast

lemma stored_split:
  fixes t :: "('w::len word, 'e) tree"
  assumes "tree_shape dims t"
  shows "stored t = below dims p t \<union>
    {e. \<exists>q br. path_ok TYPE('w) dims q \<and> take (length p) q \<noteq> p \<and> tree_at dims t q = Some br \<and> e \<in> set (b_ents br)}"
  unfolding stored_below[OF assms] below_def by blast

lemma below_leaf:
  fixes t :: "('w::len word, 'e) tree"
  assumes dims: "0 < dims" and shape: "tree_shape dims t" and p: "path_ok TYPE('w) dims p"
    and br: "tree_at dims t p = Some br" "\<not> b_split br"
  shows "below dims p t = set (b_ents br)"
proof -
  have "q = p" if "path_ok TYPE('w) dims q" "take (length p) q = p" "tree_at dims t q = Some x" for q x
    using ancestor_split[OF dims shape that(1) _ that(3), of "length p"] that(2) br by auto
  then show ?thesis unfolding below_def using p br(1) by fastforce
qed

text \<open>
  C1: inserting a new entity whose position lies in the range into a well-formed tree
  yields a well-formed tree (every entity in the one leaf of its cell, no leaf over
  capacity, no entity in a split branch) that stores exactly the old entities and the new
  one.  It fails only when more entities than a leaf holds share the smallest cell: then the
  source shifts by more than the width of a branch id, which C++ leaves undefined.
\<close>

theorem tree_insert_keeps:
  fixes t :: "('w::len word, 'e) tree"
  assumes dims: "0 < dims" "dims < LENGTH('w)" and ok: "tree_ok dims cap pos t"
    and e: "finest_cell dims t (pos e) = Some c" "e \<notin> stored t"
  shows "(\<exists>t'. tree_insert (capacity_policy cap) dims pos e t = ok t' \<and> tree_ok dims cap pos t' \<and>
      stored t' = insert e (stored t) \<and> same_tree_data t t') \<or>
    tree_insert (capacity_policy cap) dims pos e t = fail Undefined \<and>
      (\<exists>X c. X \<subseteq> insert e (stored t) \<and> card X = Suc cap \<and> (\<forall>x \<in> X. finest_cell dims t (pos x) = Some c))"
proof -
  have shape: "tree_shape dims t" and fill: "tree_filled dims cap pos {} t"
    using ok by (auto simp: tree_ok_def)
  let ?d = "t_max_depth t" and ?ins = "tree_insert (capacity_policy cap) dims pos e t"
  let ?n = "max_branch_depth TYPE('w) dims + 1"
  note c = finest_cell_at[OF dims(1) e(1)]
  obtain p br where p: "p = take (length p) c" "path_ok TYPE('w) dims p"
    "find_parent dims t (abs_path dims (take ?d c)) ?d = ok (abs_path dims p)"
    "tree_at dims t p = Some br" "\<not> b_split br"
    using find_parent_leaf[OF dims(1) shape c(1,2)] by blast
  have leaf: "b_action br = Act_None" "length (b_ents br) \<le> cap" "distinct (b_ents br)"
    "\<And>x. x \<in> set (b_ents br) \<Longrightarrow> t_at t x = abs_path dims p \<and>
      (\<exists>c. finest_cell dims t (pos x) = Some c \<and> take (length p) c = p)"
    using filledD[OF fill p(2) _ p(4)] p(5) by (auto simp: leaf_ok_def)
  have new: "e \<notin> set (b_ents br)" using e(2) p(4) unfolding stored_def tree_at_def by blast
  have others: "t_at t x \<noteq> abs_path dims q \<or> x \<noteq> e" 
    if "tree_at dims t q = Some y" "x \<in> set (b_ents y)" for x q y
    using that e(2) unfolding stored_def tree_at_def by blast
  let ?t1 = "t\<lparr>t_at := (t_at t)(e := abs_path dims p)\<rparr>"
  let ?br = "br\<lparr>b_ents := b_ents br @ [e]\<rparr>"
  have shape1: "tree_shape dims ?t1" using shape by (simp add: tree_shape_def tree_at_def)
  have at1: "tree_at dims ?t1 = tree_at dims t" by (rule ext) (simp add: tree_at_def)
  have finest1: "finest_cell dims ?t1 = finest_cell dims t" by (rule finest_cell_cong) simp_all
  have fill1: "tree_filled dims cap pos {} ?t1"
    unfolding tree_filled_def at1
  proof (intro allI impI)
    fix q x assume q: "path_ok TYPE('w) dims q" "tree_at dims t q = Some x"
    have "t_at ?t1 y = t_at t y" if "y \<in> set (b_ents x)" for y
      using that q(2) e(2) unfolding stored_def tree_at_def by auto
    then show "leaf_ok dims cap pos ?t1 q x"
      using filledD[OF fill q(1) _ q(2)] by (subst leaf_ok_cong) simp_all
  qed
  have placed: "finest_cell dims ?t1 (pos x) = Some (the (finest_cell dims t (pos x))) \<and>
      take (length p) (the (finest_cell dims t (pos x))) = p \<and> t_at ?t1 x = abs_path dims p"
    if "x \<in> set (b_ents ?br)" for x
    using that leaf(4)[of x] e(1) p(1) finest1 new by auto
  have run: "?ins = (if length (b_ents ?br) \<le> cap then ok (put_branch (abs_path dims p) ?br ?t1)
      else refine_with (insert_fuel ?n (capacity_policy cap) dims pos) dims (abs_path dims p)
        (put_branch (abs_path dims p) (?br\<lparr>b_action := Act_Refine\<rparr>) ?t1))"
  proof -
    have "branch_at dims (t_lo t) (t_hi t) (pos e) ?d = ok (abs_path dims (take ?d c) :: 'w word)"
      by (rule c(3)) (rule tree_shapeD(6)[OF shape])
    moreover have "branch_insert (capacity_policy cap :: 'w word tree_policy) e br =
        (if length (b_ents ?br) \<le> cap then ?br else ?br\<lparr>b_action := Act_Refine\<rparr>)"
      by (simp add: branch_insert_def capacity_policy_def requested_def)
    ultimately show ?thesis
      using p(3,4) leaf(1) by (cases "length (b_ents ?br) \<le> cap")
        (simp_all add: tree_insert_def numeral_2_eq_2 insert_fuel.simps(2) with_branch_def tree_at_def Let_def)
  qed
  show ?thesis
  proof (cases "length (b_ents ?br) \<le> cap")
    case True
    let ?t2 = "put_branch (abs_path dims p) ?br ?t1"
    have shape2: "tree_shape dims ?t2"
      by (rule shape_put[OF dims(1) p(2) shape1]) (simp_all add: at1 p(4))
    have "leaf_ok dims cap pos ?t1 p ?br"
      using True leaf(1,3) new p(5) placed by (simp add: leaf_ok_def)
    moreover have "tree_filled dims cap pos (insert p {}) ?t1"
      using fill1 by (simp add: tree_filled_def)
    ultimately have "tree_filled dims cap pos {} ?t2" by (intro filled_put[OF dims(1) p(2)])
    moreover have "stored ?t2 = insert e (stored t)"
      using stored_put[of ?t1 "abs_path dims p" br ?br e] p(4)
      by (simp add: tree_at_def) (simp add: stored_def)
    ultimately show ?thesis
      using run True shape2 by (simp add: tree_ok_def same_tree_data_def)
  next
    case False
    let ?x = "?br\<lparr>b_action := Act_Refine\<rparr>"
    let ?t2 = "put_branch (abs_path dims p) ?x ?t1"
    have at2: "tree_at dims ?t2 p = Some ?x" using put_at[OF dims(1) p(2,2)] by simp
    have shape2: "tree_shape dims ?t2"
      by (rule shape_put[OF dims(1) p(2) shape1]) (simp_all add: at1 p(4))
    have fill2: "tree_filled dims cap pos (insert p {}) ?t2"
      by (rule filled_put_waived[OF dims(1) p(2)]) (use fill1 in \<open>simp_all add: tree_filled_def\<close>)
    have full: "length (b_ents ?x) = Suc cap" using False leaf(2) by simp
    have finest2: "finest_cell dims ?t2 = finest_cell dims t"
      by (rule finest_cell_cong) simp_all
    have "refine_with (insert_fuel ?n (capacity_policy cap) dims pos) dims (abs_path dims p) ?t2 = fail Undefined \<and>
        (\<exists>c. \<forall>x \<in> set (b_ents ?x). the (finest_cell dims t (pos x)) = c) \<or>
      (\<exists>t'. refine_with (insert_fuel ?n (capacity_policy cap) dims pos) dims (abs_path dims p) ?t2 = ok t' \<and>
        refined dims cap pos {} p (b_ents ?x) ?t2 t')"
    proof (rule refine_fill[OF dims shape2 fill2 p(2) at2 _ full])
      show "finest_cell dims ?t2 (pos x) = Some (the (finest_cell dims t (pos x))) \<and>
          take (length p) (the (finest_cell dims t (pos x))) = p \<and> t_at ?t2 x = abs_path dims p"
        if "x \<in> set (b_ents ?x)" for x
        using placed[of x] that finest1 finest2 by simp
    qed (use p(5) leaf(3) new in simp_all)
    then show ?thesis
    proof (elim disjE conjE exE)
      fix c'
      assume failed: "refine_with (insert_fuel ?n (capacity_policy cap) dims pos) dims (abs_path dims p) ?t2
          = fail Undefined"
        and same: "\<forall>x \<in> set (b_ents ?x). the (finest_cell dims t (pos x)) = c'"
      have "set (b_ents ?x) \<subseteq> insert e (stored t)"
        using p(4) unfolding stored_def tree_at_def by auto
      moreover have "card (set (b_ents ?x)) = Suc cap"
        using distinct_card[of "b_ents ?x"] leaf(3) new full by simp
      moreover have "finest_cell dims t (pos x) = Some c'" if "x \<in> set (b_ents ?x)" for x
        using same that placed[of x] finest1 by auto
      ultimately have "\<exists>X c. X \<subseteq> insert e (stored t) \<and> card X = Suc cap \<and>
          (\<forall>x \<in> X. finest_cell dims t (pos x) = Some c)" by blast
      then show ?thesis using run False failed by simp
    next
      fix t'
      assume done_: "refine_with (insert_fuel ?n (capacity_policy cap) dims pos) dims (abs_path dims p) ?t2 = ok t'"
        and r: "refined dims cap pos {} p (b_ents ?x) ?t2 t'"
      note d = r[unfolded refined_def]
      have "tree_at dims t' q = tree_at dims t q"
        if q: "path_ok TYPE('w) dims q" "take (length p) q \<noteq> p" for q
        using d q put_at[OF dims(1) p(2) q(1), of ?x ?t1] at1 by auto
      then have "stored t' = set (b_ents ?x) \<union> {x. \<exists>q y. path_ok TYPE('w) dims q \<and>
          take (length p) q \<noteq> p \<and> tree_at dims t q = Some y \<and> x \<in> set (b_ents y)}"
        using d by (subst stored_split[of dims t' p]) auto
      moreover have "stored t = set (b_ents br) \<union> {x. \<exists>q y. path_ok TYPE('w) dims q \<and>
          take (length p) q \<noteq> p \<and> tree_at dims t q = Some y \<and> x \<in> set (b_ents y)}"
        using stored_split[OF shape, of p] below_leaf[OF dims(1) shape p(2,4,5)] by simp
      ultimately have "stored t' = insert e (stored t)" by auto
      then show ?thesis
        using run False done_ d by (auto simp: tree_ok_def same_tree_data_def)
    qed
  qed
qed

text \<open>The empty tree is well-formed.\<close>

lemma tree_new_at:
  assumes "0 < dims" "path_ok TYPE('w::len) dims p"
  shows "tree_at dims (tree_new dims :: ('w word, 'e) tree) p = (if p = [] then Some new_branch else None)"
proof -
  have "(abs_path dims p :: 'w word) = branch_root dims \<longleftrightarrow> p = []"
    using path_eq[OF assms(1,2), of "[]"] by (simp add: abs_path_simps)
  then show ?thesis by (simp add: tree_at_def tree_new_def)
qed

lemma tree_new_ok:
  assumes dims: "0 < dims"
  shows "tree_ok dims cap pos (tree_new dims :: ('w::len word, 'e) tree)"
proof -
  let ?t = "tree_new dims :: ('w word, 'e) tree"
  note at = tree_new_at[OF dims, where 'w = 'w and 'e = 'e]
  have "\<exists>p. path_ok TYPE('w) dims p \<and> b = abs_path dims p" if "t_branches ?t b = Some x" for b x
    using that by (intro exI[of _ "[]"]) (simp add: tree_new_def abs_path_simps split: if_splits)
  moreover have "tree_at dims ?t [] \<noteq> None" using at[of "[]"] by simp
  moreover have "tree_at dims ?t (p @ [d]) \<noteq> None \<longleftrightarrow> (\<exists>x. tree_at dims ?t p = Some x \<and> b_split x)"
    if "path_ok TYPE('w) dims (p @ [d])" for p d
    using at[OF that] at[of p] that by (auto simp: new_branch_def)
  moreover have "length p \<le> t_max_depth ?t \<and> (b_split x \<longrightarrow> length p < max_branch_depth TYPE('w) dims)"
    if "path_ok TYPE('w) dims p" "tree_at dims ?t p = Some x" for p x
    using at[OF that(1)] that(2) by (auto simp: new_branch_def split: if_splits)
  moreover have "t_max_depth ?t \<le> max_branch_depth TYPE('w) dims" by (simp add: tree_new_def)
  ultimately have "tree_shape dims ?t" unfolding tree_shape_def by blast
  moreover have "tree_filled dims cap pos {} ?t"
    unfolding tree_filled_def using at by (auto simp: leaf_ok_def new_branch_def split: if_splits)
  ultimately show ?thesis by (simp add: tree_ok_def)
qed

lemma tree_new_stored: "stored (tree_new dims :: ('w::len word, 'e) tree) = {}"
  by (simp add: stored_def tree_new_def new_branch_def)

theorem tree_insert_keeps_witness:
  "\<exists>t'. tree_insert (capacity_policy 1) 1 (\<lambda>e. [1 / 4]) (0 :: nat) (tree_new 1 :: (8 word, nat) tree) = ok t' \<and>
     tree_ok 1 1 (\<lambda>e. [1 / 4]) t' \<and> stored t' = {0}"
proof -
  let ?t = "tree_new 1 :: (8 word, nat) tree"
  have "\<exists>c. finest_cell 1 ?t [1 / 4] = Some c"
    by (simp add: finest_cell_def tree_new_def branch_coord_def to_branch_int_def max_branch_depth_def)
  then obtain c where "finest_cell 1 ?t [1 / 4] = Some c" by blast
  then have "(\<exists>t'. tree_insert (capacity_policy 1) 1 (\<lambda>e. [1 / 4]) (0 :: nat) ?t = ok t' \<and>
      tree_ok 1 1 (\<lambda>e. [1 / 4]) t' \<and> stored t' = insert 0 (stored ?t) \<and> same_tree_data ?t t') \<or>
    tree_insert (capacity_policy 1) 1 (\<lambda>e. [1 / 4]) 0 ?t = fail Undefined \<and>
      (\<exists>X c. X \<subseteq> insert 0 (stored ?t) \<and> card X = Suc 1 \<and>
        (\<forall>x \<in> X. finest_cell 1 ?t ((\<lambda>e. [1 / 4]) x) = Some c))"
    by (intro tree_insert_keeps[where c = c]) (simp_all add: tree_new_ok tree_new_stored)
  moreover have "\<not> (X \<subseteq> {0 :: nat} \<and> card X = 2)" for X
    using card_mono[of "{0 :: nat}" X] by auto
  ultimately show ?thesis by (auto simp: tree_new_stored numeral_2_eq_2)
qed

end
