(* ===== verification/Tree_Search.thy ===== *)
theory Tree_Search
  imports Tree_Insertion "HOL-Library.Multiset"
begin

text \<open>
  Walks over the tree of topology/tree_topology.h: the queries (find_, find_in_radius,
  find_in_box), apply_, visit_ and visit_children_, sequential and over a thread pool.  A
  concurrent walk is described by what its calling thread does: the entities it handles
  itself, the permits it releases on the semaphore, and the subtrees it queues, each of
  which is walked sequentially by a task that ends with one more release.  ef and bf are
  the callable arguments with their parameter pack applied; corner is the Policy's
  coordinates() of a branch.  The real value sqrt(2)/2 of the box queries is an argument.
\<close>

definition child :: "nat \<Rightarrow> 'w::len word \<Rightarrow> nat \<Rightarrow> 'w word outcome" where
  "child dims b i = branch_push dims (of_nat i) b"

fun find_walk ::
  "nat \<Rightarrow> nat \<Rightarrow> ('w::len word, 'e) tree \<Rightarrow> ('w word \<Rightarrow> rat list) \<Rightarrow> ('e \<Rightarrow> bool) \<Rightarrow>
   (rat list \<Rightarrow> rat \<Rightarrow> rat list \<Rightarrow> bool) \<Rightarrow> 'w word \<Rightarrow> rat \<Rightarrow> 'e list \<Rightarrow> 'e list outcome" where
  "find_walk 0 dims t corner ef bf b extent ents = fail Out_of_fuel"
| "find_walk (Suc n) dims t corner ef bf b extent ents = with_branch b t (\<lambda>br.
     if \<not> b_split br then ok (ents @ filter ef (b_ents br))
     else let extent = extent / 2 in
       fold_outcome (\<lambda>i ents. and_then (child dims b i) (\<lambda>c.
         if bf (corner c) extent (t_scale t)
         then find_walk n dims t corner ef bf c extent ents else ok ents)) [0..<2 ^ dims] ents)"

fun apply_walk ::
  "nat \<Rightarrow> nat \<Rightarrow> ('w::len word, 'e) tree \<Rightarrow> ('w word \<Rightarrow> rat list) \<Rightarrow> ('e \<Rightarrow> 's \<Rightarrow> 's) \<Rightarrow>
   (rat list \<Rightarrow> rat \<Rightarrow> rat list \<Rightarrow> bool) \<Rightarrow> 'w word \<Rightarrow> rat \<Rightarrow> 's \<Rightarrow> 's outcome" where
  "apply_walk 0 dims t corner ef bf b extent s = fail Out_of_fuel"
| "apply_walk (Suc n) dims t corner ef bf b extent s = with_branch b t (\<lambda>br.
     if \<not> b_split br then ok (fold ef (b_ents br) s)
     else let extent = extent / 2 in
       fold_outcome (\<lambda>i s. and_then (child dims b i) (\<lambda>c.
         if bf (corner c) extent (t_scale t)
         then apply_walk n dims t corner ef bf c extent s else ok s)) [0..<2 ^ dims] s)"

fun visit_walk ::
  "nat \<Rightarrow> nat \<Rightarrow> ('w::len word, 'e) tree \<Rightarrow> ('w word \<Rightarrow> nat \<Rightarrow> 's \<Rightarrow> bool \<times> 's) \<Rightarrow>
   'w word \<Rightarrow> nat \<Rightarrow> 's \<Rightarrow> 's outcome" where
  "visit_walk 0 dims t f b depth s = fail Out_of_fuel"
| "visit_walk (Suc n) dims t f b depth s =
     (let (stop, s) = f b depth s in
      if stop then ok s
      else with_branch b t (\<lambda>br.
        if \<not> b_split br then ok s
        else fold_outcome (\<lambda>i s. and_then (child dims b i) (\<lambda>c.
          visit_walk n dims t f c (depth + 1) s)) [0..<2 ^ dims] s))"

fun visit_children_walk ::
  "nat \<Rightarrow> nat \<Rightarrow> ('w::len word, 'e) tree \<Rightarrow> ('e \<Rightarrow> 's \<Rightarrow> 's) \<Rightarrow> 'w word \<Rightarrow> 's \<Rightarrow> 's outcome" where
  "visit_children_walk 0 dims t f b s = fail Out_of_fuel"
| "visit_children_walk (Suc n) dims t f b s = with_branch b t (\<lambda>br.
     if \<not> b_split br then ok (fold f (b_ents br) s)
     else fold_outcome (\<lambda>i s. and_then (child dims b i) (\<lambda>c.
       visit_children_walk n dims t f c s)) [0..<2 ^ dims] s)"

text \<open>The branch a query starts from.\<close>

definition start_level :: "rat \<Rightarrow> nat outcome" where
  "start_level norm_radius =
     (if norm_radius \<le> 0 then fail Undefined
      else ok (if 1 / 4 < norm_radius then 0 else floorlog 2 (nat \<lfloor>1 / norm_radius\<rfloor>) - 2))"

fun find_start_loop ::
  "nat \<Rightarrow> ('w::len word, 'e) tree \<Rightarrow> rat list \<Rightarrow> rat \<Rightarrow> 'w word \<Rightarrow> nat \<Rightarrow> ('w word \<times> nat \<times> rat) outcome" where
  "find_start_loop dims t center radius bid 0 = ok (branch_root dims, 0, 1)"
| "find_start_loop dims t center radius bid (Suc d) =
     and_then (find_parent dims t bid (Suc d)) (\<lambda>b.
       let p2 = branch_corner dims (t_lo t) (t_hi t) b;
           extent = 1 / 2 ^ Suc d
       in if \<forall>i < dims. center ! i - radius > p2 ! i \<and> center ! i + radius < p2 ! i + extent
          then ok (b, Suc d, extent)
          else find_start_loop dims t center radius bid d)"

definition find_start ::
  "nat \<Rightarrow> ('w::len word, 'e) tree \<Rightarrow> rat list \<Rightarrow> rat \<Rightarrow> ('w word \<times> nat \<times> rat) outcome" where
  "find_start dims t center radius =
     and_then (branch_at dims (t_lo t) (t_hi t) center (t_max_depth t)) (\<lambda>bid.
     and_then (start_level (radius / t_max_scale t)) (\<lambda>d.
       find_start_loop dims t center radius bid d))"

text \<open>The geometry class of the dimension.\<close>

definition geo_within :: "nat \<Rightarrow> rat list \<Rightarrow> rat list \<Rightarrow> rat \<Rightarrow> bool" where
  "geo_within dims = (if dims = 1 then within_1 else if dims = 2 then within_2 else within_3)"

definition geo_within_box :: "nat \<Rightarrow> rat list \<Rightarrow> rat list \<Rightarrow> rat list \<Rightarrow> bool" where
  "geo_within_box dims =
     (if dims = 1 then within_box_1 else if dims = 2 then within_box_2 else within_box_3)"

definition geo_intersects :: "nat \<Rightarrow> rat list \<Rightarrow> rat \<Rightarrow> rat list \<Rightarrow> rat list \<Rightarrow> rat \<Rightarrow> bool" where
  "geo_intersects dims =
     (if dims = 1 then intersects_1 else if dims = 2 then intersects_2 else intersects_3)"

definition geo_intersects_box :: "nat \<Rightarrow> rat list \<Rightarrow> rat \<Rightarrow> rat list \<Rightarrow> rat list \<Rightarrow> rat list \<Rightarrow> bool" where
  "geo_intersects_box dims =
     (if dims = 1 then intersects_box_1 else if dims = 2 then intersects_box_2 else intersects_box_3)"

definition walk_fuel :: "'w::len itself \<Rightarrow> nat \<Rightarrow> nat" where
  "walk_fuel T dims = max_branch_depth T dims + 1"

definition find_in_radius ::
  "nat \<Rightarrow> ('e \<Rightarrow> rat list) \<Rightarrow> ('w::len word, 'e) tree \<Rightarrow> rat list \<Rightarrow> rat \<Rightarrow> 'e list outcome" where
  "find_in_radius dims pos t center radius =
     and_then (find_start dims t center radius) (\<lambda>(b, depth, extent).
       find_walk (walk_fuel TYPE('w) dims) dims t (branch_corner dims (t_lo t) (t_hi t))
         (\<lambda>e. geo_within dims (pos e) center radius)
         (\<lambda>c x s. geo_intersects dims c x s center radius) b extent [])"

definition apply_in_radius ::
  "nat \<Rightarrow> ('e \<Rightarrow> rat list) \<Rightarrow> ('w::len word, 'e) tree \<Rightarrow> rat list \<Rightarrow> rat \<Rightarrow> ('e \<Rightarrow> 's \<Rightarrow> 's) \<Rightarrow> 's \<Rightarrow> 's outcome" where
  "apply_in_radius dims pos t center radius ef s =
     and_then (find_start dims t center radius) (\<lambda>(b, depth, extent).
       apply_walk (walk_fuel TYPE('w) dims) dims t (branch_corner dims (t_lo t) (t_hi t))
         (\<lambda>e s. if geo_within dims (pos e) center radius then ef e s else s)
         (\<lambda>c x s. geo_intersects dims c x s center radius) b extent s)"

definition box_sphere :: "nat \<Rightarrow> rat \<Rightarrow> rat list \<Rightarrow> rat list \<Rightarrow> rat list \<times> rat" where
  "box_sphere dims half_sqrt2 lo hi =
     (let radius = fold (\<lambda>d r. max r (hi ! d - lo ! d)) [0..<dims] 0 * half_sqrt2
      in (map (\<lambda>x. x + radius) lo, radius))"

definition find_in_box ::
  "nat \<Rightarrow> rat \<Rightarrow> ('e \<Rightarrow> rat list) \<Rightarrow> ('w::len word, 'e) tree \<Rightarrow> rat list \<Rightarrow> rat list \<Rightarrow> 'e list outcome" where
  "find_in_box dims half_sqrt2 pos t lo hi =
     (let (center, radius) = box_sphere dims half_sqrt2 lo hi in
      and_then (find_start dims t center radius) (\<lambda>(b, depth, extent).
       find_walk (walk_fuel TYPE('w) dims) dims t (branch_corner dims (t_lo t) (t_hi t))
         (\<lambda>e. geo_within_box dims (pos e) lo hi)
         (\<lambda>c x s. geo_intersects_box dims c x s lo hi) b extent []))"

definition apply_in_box ::
  "nat \<Rightarrow> rat \<Rightarrow> ('e \<Rightarrow> rat list) \<Rightarrow> ('w::len word, 'e) tree \<Rightarrow> rat list \<Rightarrow> rat list \<Rightarrow>
   ('e \<Rightarrow> 's \<Rightarrow> 's) \<Rightarrow> 's \<Rightarrow> 's outcome" where
  "apply_in_box dims half_sqrt2 pos t lo hi ef s =
     (let (center, radius) = box_sphere dims half_sqrt2 lo hi in
      and_then (find_start dims t center radius) (\<lambda>(b, depth, extent).
       apply_walk (walk_fuel TYPE('w) dims) dims t (branch_corner dims (t_lo t) (t_hi t))
         (\<lambda>e s. if geo_within_box dims (pos e) lo hi then ef e s else s)
         (\<lambda>c x s. geo_intersects_box dims c x s lo hi) b extent s))"

text \<open>Concurrent walks: the share of the calling thread.\<close>

record ('b, 'e) share =
  sh_found :: "'e list"
  sh_permits :: nat
  sh_tasks :: "('b \<times> rat) list"

definition release_many :: "nat \<Rightarrow> ('b, 'e) share \<Rightarrow> ('b, 'e) share" where
  "release_many m s = s\<lparr>sh_permits := sh_permits s + m\<rparr>"

fun find_share ::
  "nat \<Rightarrow> nat \<Rightarrow> ('w::len word, 'e) tree \<Rightarrow> ('w word \<Rightarrow> rat list) \<Rightarrow> ('e \<Rightarrow> bool) \<Rightarrow>
   (rat list \<Rightarrow> rat \<Rightarrow> rat list \<Rightarrow> bool) \<Rightarrow> nat \<Rightarrow> nat \<Rightarrow> 'w word \<Rightarrow> rat \<Rightarrow> ('w word, 'e) share \<Rightarrow>
   ('w word, 'e) share outcome" where
  "find_share 0 dims t corner ef bf queue_depth depth b extent s = fail Out_of_fuel"
| "find_share (Suc n) dims t corner ef bf queue_depth depth b extent s = with_branch b t (\<lambda>br.
     if \<not> b_split br
     then ok (release_many (2 ^ ((queue_depth - depth) * dims))
       (s\<lparr>sh_found := sh_found s @ filter ef (b_ents br)\<rparr>))
     else let extent = extent / 2; depth = Suc depth in
       fold_outcome (\<lambda>i s. and_then (child dims b i) (\<lambda>c.
         if bf (corner c) extent (t_scale t)
         then if depth = queue_depth then ok (s\<lparr>sh_tasks := sh_tasks s @ [(c, extent)]\<rparr>)
              else find_share n dims t corner ef bf queue_depth depth c extent s
         else if queue_depth < depth then ok s
         else ok (release_many (2 ^ ((queue_depth - depth) * dims)) s))) [0..<2 ^ dims] s)"

definition find_task ::
  "nat \<Rightarrow> ('w::len word, 'e) tree \<Rightarrow> ('w word \<Rightarrow> rat list) \<Rightarrow> ('e \<Rightarrow> bool) \<Rightarrow>
   (rat list \<Rightarrow> rat \<Rightarrow> rat list \<Rightarrow> bool) \<Rightarrow> 'w word \<times> rat \<Rightarrow> 'e list outcome" where
  "find_task dims t corner ef bf = (\<lambda>(c, extent).
     find_walk (walk_fuel TYPE('w) dims) dims t corner ef bf c extent [])"

definition queue_levels :: "nat \<Rightarrow> nat \<Rightarrow> nat outcome" where
  "queue_levels dims threads =
     (if threads = 0 then fail Undefined else ok ((floorlog 2 threads - 1) div dims + 1))"

text \<open>The initial count of the semaphore, and the share of the thread that calls find_in_radius.\<close>

definition find_in_radius_share ::
  "nat \<Rightarrow> ('e \<Rightarrow> rat list) \<Rightarrow> ('w::len word, 'e) tree \<Rightarrow> nat \<Rightarrow> rat list \<Rightarrow> rat \<Rightarrow>
   (int \<times> ('w word, 'e) share) outcome" where
  "find_in_radius_share dims pos t threads center radius =
     and_then (queue_levels dims threads) (\<lambda>q.
     and_then (find_start dims t center radius) (\<lambda>(b, depth, extent).
     and_then (find_share (walk_fuel TYPE('w) dims) dims t (branch_corner dims (t_lo t) (t_hi t))
         (\<lambda>e. geo_within dims (pos e) center radius)
         (\<lambda>c x s. geo_intersects dims c x s center radius) (q + depth) depth b extent
         \<lparr>sh_found = [], sh_permits = 0, sh_tasks = []\<rparr>)
       (\<lambda>s. ok (1 - int (2 ^ (q * dims)), s))))"

text \<open>Loops whose body appends to its state.\<close>

lemma fold_outcome_collect:
  assumes "\<And>x zs. x \<in> set xs \<Longrightarrow> f x zs = ok (zs @ r x)"
  shows "fold_outcome f xs zs = ok (zs @ concat (map r xs))"
  using assms by (induction xs arbitrary: zs) auto

text \<open>Walks only depend on having enough fuel.\<close>

lemma fold_outcome_mono:
  assumes "fold_outcome f xs s = ok s'" "\<And>x s s'. x \<in> set xs \<Longrightarrow> f x s = ok s' \<Longrightarrow> g x s = ok s'"
  shows "fold_outcome g xs s = ok s'"
  using assms by (induction xs arbitrary: s) fastforce+

lemma find_walk_mono:
  "find_walk n dims t corner ef bf b extent ents = ok r \<Longrightarrow> n \<le> m \<Longrightarrow>
   find_walk m dims t corner ef bf b extent ents = ok r"
proof (induction n arbitrary: m b extent ents r)
  case (Suc n)
  obtain k where k: "m = Suc k" "n \<le> k" using Suc.prems(2) by (cases m) auto
  obtain br where br: "t_branches t b = Some br"
    using Suc.prems(1) by (auto simp: with_branch_def split: option.splits)
  show ?case
  proof (cases "b_split br")
    case False
    then show ?thesis using Suc.prems(1) br k(1) by (simp add: with_branch_def)
  next
    case True
    have "fold_outcome (\<lambda>i ents. and_then (child dims b i) (\<lambda>c.
        if bf (corner c) (extent / 2) (t_scale t)
        then find_walk k dims t corner ef bf c (extent / 2) ents else ok ents)) [0..<2 ^ dims] ents = ok r"
    proof (rule fold_outcome_mono)
      show "fold_outcome (\<lambda>i ents. and_then (child dims b i) (\<lambda>c.
          if bf (corner c) (extent / 2) (t_scale t)
          then find_walk n dims t corner ef bf c (extent / 2) ents else ok ents)) [0..<2 ^ dims] ents = ok r"
        using Suc.prems(1) br True by (simp add: with_branch_def Let_def)
    qed (use Suc.IH[OF _ k(2)] in \<open>auto split: if_splits\<close>)
    then show ?thesis using br True k(1) by (simp add: with_branch_def Let_def)
  qed
qed simp

text \<open>The leaves a walk reaches.\<close>

definition reached ::
  "nat \<Rightarrow> ('w::len word, 'e) tree \<Rightarrow> ('w word \<Rightarrow> rat list) \<Rightarrow> (rat list \<Rightarrow> rat \<Rightarrow> rat list \<Rightarrow> bool) \<Rightarrow>
   nat list \<Rightarrow> rat \<Rightarrow> nat list \<Rightarrow> bool" where
  "reached dims t corner bf p extent q \<longleftrightarrow> take (length p) q = p \<and>
     (\<forall>k. length p < k \<and> k \<le> length q \<longrightarrow>
        bf (corner (abs_path dims (take k q))) (extent / 2 ^ (k - length p)) (t_scale t))"

definition found_at ::
  "nat \<Rightarrow> ('w::len word, 'e) tree \<Rightarrow> ('w word \<Rightarrow> rat list) \<Rightarrow> ('e \<Rightarrow> bool) \<Rightarrow>
   (rat list \<Rightarrow> rat \<Rightarrow> rat list \<Rightarrow> bool) \<Rightarrow> nat list \<Rightarrow> rat \<Rightarrow> 'e set" where
  "found_at dims t corner ef bf p extent = {e. ef e \<and> (\<exists>q br. path_ok TYPE('w) dims q \<and>
     tree_at dims t q = Some br \<and> e \<in> set (b_ents br) \<and> reached dims t corner bf p extent q)}"

lemma reached_child:
  assumes "take (Suc (length p)) q = p @ [i]"
  shows "reached dims t corner bf p extent q \<longleftrightarrow>
    bf (corner (abs_path dims (p @ [i]))) (extent / 2) (t_scale t) \<and>
    reached dims t corner bf (p @ [i]) (extent / 2) q"
proof -
  have p: "take (length p) q = p" using assms take_prefix_of[of p i q] by simp
  have len: "length p < length q"
    using assms by (metis length_append_singleton length_take lessI min_less_iff_conj not_less min.absorb2)
  define P where "P k \<longleftrightarrow> bf (corner (abs_path dims (take k q))) (extent / 2 ^ (k - length p)) (t_scale t)" for k
  define Q where "Q k \<longleftrightarrow> bf (corner (abs_path dims (take k q))) (extent / 2 / 2 ^ (k - length (p @ [i]))) (t_scale t)" for k
  have half: "P k = Q k" if "length p < k" for k
  proof -
    have "k - length p = Suc (k - length (p @ [i]))" using that by simp
    then have "extent / 2 ^ (k - length p) = extent / 2 / 2 ^ (k - length (p @ [i]))" by simp
    then show ?thesis unfolding P_def Q_def by (simp only:)
  qed
  have "(\<forall>k. length p < k \<and> k \<le> length q \<longrightarrow> P k) \<longleftrightarrow>
      P (Suc (length p)) \<and> (\<forall>k. Suc (length p) < k \<and> k \<le> length q \<longrightarrow> P k)" for P
  proof
    assume all: "\<forall>k. length p < k \<and> k \<le> length q \<longrightarrow> P k"
    then show "P (Suc (length p)) \<and> (\<forall>k. Suc (length p) < k \<and> k \<le> length q \<longrightarrow> P k)"
      using len by simp
  next
    assume r: "P (Suc (length p)) \<and> (\<forall>k. Suc (length p) < k \<and> k \<le> length q \<longrightarrow> P k)"
    show "\<forall>k. length p < k \<and> k \<le> length q \<longrightarrow> P k"
    proof (intro allI impI)
      fix k assume "length p < k \<and> k \<le> length q"
      then show "P k" using r by (cases "k = Suc (length p)") auto
    qed
  qed
  from this[of P] have "(\<forall>k. length p < k \<and> k \<le> length q \<longrightarrow> P k) \<longleftrightarrow>
      P (Suc (length p)) \<and> (\<forall>k. length (p @ [i]) < k \<and> k \<le> length q \<longrightarrow> Q k)"
    using half by auto
  moreover have "P (Suc (length p)) \<longleftrightarrow> bf (corner (abs_path dims (p @ [i]))) (extent / 2) (t_scale t)"
    using assms by (simp add: P_def)
  ultimately show ?thesis
    unfolding reached_def P_def[symmetric] Q_def[symmetric] using p assms by auto
qed

lemma distinct_concat_map:
  assumes "distinct xs" "\<And>x. x \<in> set xs \<Longrightarrow> distinct (f x)"
    and "\<And>x y. x \<in> set xs \<Longrightarrow> y \<in> set xs \<Longrightarrow> x \<noteq> y \<Longrightarrow> set (f x) \<inter> set (f y) = {}"
  shows "distinct (concat (map f xs))"
  using assms
proof (induction xs)
  case (Cons x xs)
  have "distinct (concat (map f xs))" using Cons by (intro Cons.IH) auto
  moreover have "set (f x) \<inter> set (f y) = {}" if "y \<in> set xs" for y
    using Cons.prems(1) Cons.prems(3)[of x y] that by auto
  ultimately show ?case using Cons.prems(2)[of x] by auto
qed simp

lemma leaf_unique:
  fixes t :: "('w::len word, 'e) tree"
  assumes dims: "0 < dims" and ok: "tree_ok dims cap pos t"
    and "path_ok TYPE('w) dims q" "tree_at dims t q = Some br" "e \<in> set (b_ents br)"
    and "path_ok TYPE('w) dims q'" "tree_at dims t q' = Some br'" "e \<in> set (b_ents br')"
  shows "q = q'"
proof -
  have "t_at t e = abs_path dims q" "t_at t e = abs_path dims q'"
    using filledD[of dims cap pos "{}" t] assms unfolding tree_ok_def leaf_ok_def
    by (metis empty_iff list.set(1))+
  then show ?thesis using path_eq[OF dims assms(3,6)] by simp
qed

lemma child_path:
  assumes "0 < dims" "path_ok TYPE('w::len) dims p" "length p < max_branch_depth TYPE('w) dims" "i < 2 ^ dims"
  shows "child dims (abs_path dims p :: 'w word) i = ok (abs_path dims (p @ [i]))"
  using branch_paths[OF assms(1), where 'w = 'w and p = p] assms(2-4) unfolding child_def by blast

lemma find_walk_correct:
  fixes t :: "('w::len word, 'e) tree"
  assumes dims: "0 < dims" and ok: "tree_ok dims cap pos t"
    and p: "path_ok TYPE('w) dims p" "tree_at dims t p \<noteq> None"
    and fuel: "max_branch_depth TYPE('w) dims < n + length p"
  shows "\<exists>r. (\<forall>ents. find_walk n dims t corner ef bf (abs_path dims p) extent ents = ok (ents @ r)) \<and>
    set r = found_at dims t corner ef bf p extent \<and> distinct r"
  using p fuel
proof (induction n arbitrary: p extent)
  case 0
  then show ?case by simp
next
  case (Suc n)
  have shape: "tree_shape dims t" using ok by (simp add: tree_ok_def)
  obtain br where br: "tree_at dims t p = Some br" using Suc.prems(2) by blast
  show ?case
  proof (cases "b_split br")
    case False
    have walk: "find_walk (Suc n) dims t corner ef bf (abs_path dims p) extent ents =
        ok (ents @ filter ef (b_ents br))" for ents
      using br False by (simp add: with_branch_def tree_at_def)
    have "distinct (b_ents br)"
      using filledD[of dims cap pos "{}" t p br] ok Suc.prems(1) br False by (simp add: tree_ok_def leaf_ok_def)
    moreover have "found_at dims t corner ef bf p extent = {e \<in> set (b_ents br). ef e}"
    proof -
      have only: "q = p" if "path_ok TYPE('w) dims q" "tree_at dims t q = Some x" "take (length p) q = p" for q x
        using ancestor_split[OF dims shape that(1) _ that(2), of "length p"] that(3) br False by auto
      have "reached dims t corner bf p extent p"
        unfolding reached_def by (auto dest: leD)
      then have "{e \<in> set (b_ents br). ef e} \<subseteq> found_at dims t corner ef bf p extent"
        unfolding found_at_def using Suc.prems(1) br by blast
      moreover have "found_at dims t corner ef bf p extent \<subseteq> {e \<in> set (b_ents br). ef e}"
      proof
        fix e assume "e \<in> found_at dims t corner ef bf p extent"
        then obtain q x where q: "ef e" "path_ok TYPE('w) dims q" "tree_at dims t q = Some x"
          "e \<in> set (b_ents x)" "take (length p) q = p"
          unfolding found_at_def reached_def by blast
        then show "e \<in> {e \<in> set (b_ents br). ef e}" using only[OF q(2,3,5)] br by simp
      qed
      ultimately show ?thesis by blast
    qed
    ultimately show ?thesis using walk by (intro exI[of _ "filter ef (b_ents br)"]) auto
  next
    case True
    have room: "length p < max_branch_depth TYPE('w) dims"
      by (rule tree_shapeD(5)[OF shape Suc.prems(1) br True])
    have kid: "path_ok TYPE('w) dims (p @ [i])" "tree_at dims t (p @ [i]) \<noteq> None" if "i < 2 ^ dims" for i
      using tree_shapeD(3)[OF shape, of p i] Suc.prems(1) room that br True by auto
    have "\<exists>r. \<forall>i < 2 ^ dims. (\<forall>ents. find_walk n dims t corner ef bf (abs_path dims (p @ [i])) (extent / 2) ents
        = ok (ents @ r i)) \<and> set (r i) = found_at dims t corner ef bf (p @ [i]) (extent / 2) \<and> distinct (r i)"
    proof -
      have "\<forall>i. \<exists>r. i < 2 ^ dims \<longrightarrow> (\<forall>ents. find_walk n dims t corner ef bf (abs_path dims (p @ [i])) (extent / 2) ents
        = ok (ents @ r)) \<and> set r = found_at dims t corner ef bf (p @ [i]) (extent / 2) \<and> distinct r"
        using Suc.IH[OF kid] Suc.prems(3) by (metis add_Suc_right add_Suc length_append_singleton)
      then show ?thesis by metis
    qed
    then obtain r where r: "\<And>i ents. i < 2 ^ dims \<Longrightarrow>
        find_walk n dims t corner ef bf (abs_path dims (p @ [i])) (extent / 2) ents = ok (ents @ r i)"
      "\<And>i. i < 2 ^ dims \<Longrightarrow> set (r i) = found_at dims t corner ef bf (p @ [i]) (extent / 2)"
      "\<And>i. i < 2 ^ dims \<Longrightarrow> distinct (r i)" by blast
    let ?bf = "\<lambda>i. bf (corner (abs_path dims (p @ [i]))) (extent / 2) (t_scale t)"
    let ?r = "\<lambda>i. if ?bf i then r i else []"
    have walk: "find_walk (Suc n) dims t corner ef bf (abs_path dims p) extent ents =
        ok (ents @ concat (map ?r [0..<2 ^ dims]))" for ents
    proof -
      have "fold_outcome (\<lambda>i ents. and_then (child dims (abs_path dims p) i) (\<lambda>c.
         if bf (corner c) (extent / 2) (t_scale t)
         then find_walk n dims t corner ef bf c (extent / 2) ents else ok ents)) [0..<2 ^ dims] ents =
         ok (ents @ concat (map ?r [0..<2 ^ dims]))"
        by (rule fold_outcome_collect) (use child_path[OF dims Suc.prems(1) room] r(1) in auto)
      then show ?thesis using br True by (simp add: with_branch_def tree_at_def Let_def)
    qed
    have empty: "b_ents br = []"
      using filledD[of dims cap pos "{}" t p br] ok Suc.prems(1) br True by (simp add: tree_ok_def leaf_ok_def)
    have content: "set (concat (map ?r [0..<2 ^ dims])) = found_at dims t corner ef bf p extent"
    proof (intro equalityI subsetI)
      fix e assume "e \<in> set (concat (map ?r [0..<2 ^ dims]))"
      then obtain i where i: "i < 2 ^ dims" "?bf i" "e \<in> found_at dims t corner ef bf (p @ [i]) (extent / 2)"
        using r(2) by (auto split: if_splits)
      then obtain q x where q: "ef e" "path_ok TYPE('w) dims q" "tree_at dims t q = Some x"
        "e \<in> set (b_ents x)" "reached dims t corner bf (p @ [i]) (extent / 2) q"
        unfolding found_at_def by blast
      have "take (Suc (length p)) q = p @ [i]" using q(5) by (simp add: reached_def)
      then have "reached dims t corner bf p extent q" using reached_child i(2) q(5) by blast
      then show "e \<in> found_at dims t corner ef bf p extent" unfolding found_at_def using q by blast
    next
      fix e assume "e \<in> found_at dims t corner ef bf p extent"
      then obtain q x where q: "ef e" "path_ok TYPE('w) dims q" "tree_at dims t q = Some x"
        "e \<in> set (b_ents x)" "reached dims t corner bf p extent q"
        unfolding found_at_def by blast
      have "q \<noteq> p" using q(3,4) br empty by auto
      then have len: "length p < length q"
        using q(5) unfolding reached_def by (metis not_less take_all)
      let ?i = "q ! length p"
      have step: "take (Suc (length p)) q = p @ [?i]"
        using take_Suc_conv_app_nth[OF len] q(5) by (simp add: reached_def)
      have i: "?i < 2 ^ dims" using q(2) len by (simp add: digits_def)
      have "?bf ?i" "reached dims t corner bf (p @ [?i]) (extent / 2) q"
        using reached_child[OF step] q(5) by blast+
      then have "e \<in> set (r ?i)" unfolding r(2)[OF i] found_at_def using q by blast
      then show "e \<in> set (concat (map ?r [0..<2 ^ dims]))" using i \<open>?bf ?i\<close> by auto
    qed
    have "distinct (concat (map ?r [0..<2 ^ dims]))"
    proof (rule distinct_concat_map)
      show "set (?r i) \<inter> set (?r j) = {}" if "i \<in> set [0..<2 ^ dims]" "j \<in> set [0..<2 ^ dims]" "i \<noteq> j" for i j
      proof (rule ccontr)
        assume "set (?r i) \<inter> set (?r j) \<noteq> {}"
        then obtain e where "e \<in> set (r i)" "e \<in> set (r j)" by (auto split: if_splits)
        then have "e \<in> found_at dims t corner ef bf (p @ [i]) (extent / 2)"
          "e \<in> found_at dims t corner ef bf (p @ [j]) (extent / 2)"
          using r(2) that(1,2) by auto
        then obtain q x q' x' where q: "path_ok TYPE('w) dims q" "tree_at dims t q = Some x"
          "e \<in> set (b_ents x)" "take (Suc (length p)) q = p @ [i]"
          "path_ok TYPE('w) dims q'" "tree_at dims t q' = Some x'" "e \<in> set (b_ents x')"
          "take (Suc (length p)) q' = p @ [j]"
          unfolding found_at_def reached_def by auto
        have "q = q'" by (rule leaf_unique[OF dims ok q(1-3) q(5-7)])
        then show False using q(4,8) that(3) by simp
      qed
    qed (use r(3) in auto)
    then show ?thesis using walk content by blast
  qed
qed

text \<open>apply_ calls its function on the entities find_ collects, in the same order.\<close>

lemma fold_outcome_related:
  assumes "\<And>x s. x \<in> set xs \<Longrightarrow> g x (h s) = (case f x s of Inl e \<Rightarrow> fail e | Inr s' \<Rightarrow> ok (h s'))"
  shows "fold_outcome g xs (h s) = (case fold_outcome f xs s of Inl e \<Rightarrow> fail e | Inr s' \<Rightarrow> ok (h s'))"
  using assms
proof (induction xs arbitrary: s)
  case (Cons x xs)
  then show ?case by (cases "f x s") simp_all
qed simp

lemma apply_walk_fold:
  "apply_walk n dims t corner ef bf b extent (fold ef ents s) =
     (case find_walk n dims t corner (\<lambda>e. True) bf b extent ents of
        Inl f \<Rightarrow> fail f | Inr es \<Rightarrow> ok (fold ef es s))"
proof (induction n arbitrary: b extent ents)
  case (Suc n)
  show ?case
  proof (cases "t_branches t b")
    case None
    then show ?thesis by (simp add: with_branch_def)
  next
    case (Some br)
    show ?thesis
    proof (cases "b_split br")
      case False
      then show ?thesis using Some by (simp add: with_branch_def)
    next
      case True
      have "fold_outcome (\<lambda>i s. and_then (child dims b i) (\<lambda>c.
          if bf (corner c) (extent / 2) (t_scale t)
          then apply_walk n dims t corner ef bf c (extent / 2) s else ok s)) [0..<2 ^ dims] (fold ef ents s) =
        (case fold_outcome (\<lambda>i ents. and_then (child dims b i) (\<lambda>c.
          if bf (corner c) (extent / 2) (t_scale t)
          then find_walk n dims t corner (\<lambda>e. True) bf c (extent / 2) ents else ok ents)) [0..<2 ^ dims] ents of
           Inl f \<Rightarrow> fail f | Inr es \<Rightarrow> ok (fold ef es s))"
      proof (rule fold_outcome_related[where h = "\<lambda>es. fold ef es s"])
        fix i es
        show "and_then (child dims b i) (\<lambda>c. if bf (corner c) (extent / 2) (t_scale t)
            then apply_walk n dims t corner ef bf c (extent / 2) (fold ef es s) else ok (fold ef es s)) =
          (case and_then (child dims b i) (\<lambda>c. if bf (corner c) (extent / 2) (t_scale t)
            then find_walk n dims t corner (\<lambda>e. True) bf c (extent / 2) es else ok es) of
             Inl f \<Rightarrow> fail f | Inr es \<Rightarrow> ok (fold ef es s))"
          using Suc.IH by (cases "child dims b i") simp_all
      qed
      then show ?thesis using Some True by (simp add: with_branch_def Let_def)
    qed
  qed
qed simp

text \<open>
  C8: from any branch of a well-formed tree, the sequential query returns, without
  duplicates, exactly the entities below it that satisfy the entity test and whose branches
  all pass the branch test on the way down; apply_ calls its function once on each entity
  the query without an entity test returns, in that order.
\<close>

theorem tree_find_complete:
  fixes t :: "('w::len word, 'e) tree"
  assumes dims: "0 < dims" and ok: "tree_ok dims cap pos t"
    and p: "path_ok TYPE('w) dims p" "tree_at dims t p \<noteq> None"
  shows "(\<exists>r. find_walk (walk_fuel TYPE('w) dims) dims t corner ef bf (abs_path dims p) extent [] = ok r \<and>
      distinct r \<and> set r = found_at dims t corner ef bf p extent) \<and>
    (\<exists>es. find_walk (walk_fuel TYPE('w) dims) dims t corner (\<lambda>e. True) bf (abs_path dims p) extent [] = ok es \<and>
      apply_walk (walk_fuel TYPE('w) dims) dims t corner f bf (abs_path dims p) extent s = ok (fold f es s))"
proof
  have fuel: "max_branch_depth TYPE('w) dims < walk_fuel TYPE('w) dims + length p"
    by (simp add: walk_fuel_def)
  show "\<exists>r. find_walk (walk_fuel TYPE('w) dims) dims t corner ef bf (abs_path dims p) extent [] = ok r \<and>
      distinct r \<and> set r = found_at dims t corner ef bf p extent"
    using find_walk_correct[OF dims ok p fuel, of corner ef bf extent] by fastforce
  obtain es where "find_walk (walk_fuel TYPE('w) dims) dims t corner (\<lambda>e. True) bf (abs_path dims p) extent [] = ok es"
    using find_walk_correct[OF dims ok p fuel, of corner "\<lambda>e. True" bf extent] by fastforce
  then show "\<exists>es. find_walk (walk_fuel TYPE('w) dims) dims t corner (\<lambda>e. True) bf (abs_path dims p) extent [] = ok es \<and>
      apply_walk (walk_fuel TYPE('w) dims) dims t corner f bf (abs_path dims p) extent s = ok (fold f es s)"
    using apply_walk_fold[where ents = "[]" and s = s and ef = f and n = "walk_fuel TYPE('w) dims"
        and t = t and corner = corner and bf = bf and b = "abs_path dims p" and extent = extent and dims = dims]
    by auto
qed

text \<open>What a concurrent walk adds to the share of the calling thread.\<close>

definition share_add :: "('b, 'e) share \<Rightarrow> 'e list \<Rightarrow> nat \<Rightarrow> ('b \<times> rat) list \<Rightarrow> ('b, 'e) share" where
  "share_add s es k ts = s\<lparr>sh_found := sh_found s @ es, sh_permits := sh_permits s + k,
     sh_tasks := sh_tasks s @ ts\<rparr>"

lemma fold_outcome_share:
  assumes "\<And>i s. i \<in> set xs \<Longrightarrow> f i s = ok (share_add s (a i) (k i) (ts i))"
  shows "fold_outcome f xs s =
    ok (share_add s (concat (map a xs)) (sum_list (map k xs)) (concat (map ts xs)))"
  using assms
proof (induction xs arbitrary: s)
  case Nil
  then show ?case by (simp add: share_add_def)
next
  case (Cons x xs)
  then show ?case by (simp add: share_add_def add.assoc)
qed

lemma traverse_append:
  "traverse f (xs @ ys) = and_then (traverse f xs) (\<lambda>a. and_then (traverse f ys) (\<lambda>b. ok (a @ b)))"
  by (induction xs) (simp_all add: and_then_assoc)

lemma traverse_concat:
  assumes "\<And>i. i \<in> set xs \<Longrightarrow> traverse f (ts i) = ok (rs i)"
  shows "traverse f (concat (map ts xs)) = ok (concat (map rs xs))"
  using assms by (induction xs) (simp_all add: traverse_append)

lemma mset_concat_split:
  "mset (concat (map a xs) @ concat (concat (map rs xs))) =
   sum_list (map (\<lambda>i. mset (a i @ concat (rs i))) xs)"
  by (induction xs) (simp_all add: union_ac)

lemma find_share_correct:
  fixes t :: "('w::len word, 'e) tree"
  assumes dims: "0 < dims" and ok: "tree_ok dims cap pos t"
    and p: "path_ok TYPE('w) dims p" "tree_at dims t p \<noteq> None"
    and fuel: "max_branch_depth TYPE('w) dims < n + length p" "n \<le> walk_fuel TYPE('w) dims"
    and depth: "depth < queue_depth"
  shows "\<exists>es k ts rs r. (\<forall>s. find_share n dims t corner ef bf queue_depth depth (abs_path dims p) extent s =
      ok (share_add s es k ts)) \<and> k + length ts = 2 ^ ((queue_depth - depth) * dims) \<and>
    traverse (find_task dims t corner ef bf) ts = ok rs \<and>
    find_walk n dims t corner ef bf (abs_path dims p) extent [] = ok r \<and>
    mset (es @ concat rs) = mset r"
  using p fuel depth
proof (induction n arbitrary: p extent depth)
  case 0
  then show ?case by simp
next
  case (Suc n)
  have shape: "tree_shape dims t" using ok by (simp add: tree_ok_def)
  obtain br where br: "tree_at dims t p = Some br" using Suc.prems(2) by blast
  show ?case
  proof (cases "b_split br")
    case False
    let ?es = "filter ef (b_ents br)"
    have "find_share (Suc n) dims t corner ef bf queue_depth depth (abs_path dims p) extent s =
        ok (share_add s ?es (2 ^ ((queue_depth - depth) * dims)) [])" for s
      using br False by (simp add: with_branch_def tree_at_def share_add_def release_many_def)
    moreover have "find_walk (Suc n) dims t corner ef bf (abs_path dims p) extent [] = ok ?es"
      using br False by (simp add: with_branch_def tree_at_def)
    ultimately show ?thesis
      by (intro exI[of _ ?es] exI[of _ "2 ^ ((queue_depth - depth) * dims)"] exI[of _ "[]"]) simp
  next
    case True
    have room: "length p < max_branch_depth TYPE('w) dims"
      by (rule tree_shapeD(5)[OF shape Suc.prems(1) br True])
    have kid: "path_ok TYPE('w) dims (p @ [i])" "tree_at dims t (p @ [i]) \<noteq> None" if "i < 2 ^ dims" for i
      using tree_shapeD(3)[OF shape, of p i] Suc.prems(1) room that br True by auto
    let ?bf = "\<lambda>c. bf (corner c) (extent / 2) (t_scale t)"
    let ?c = "\<lambda>i. abs_path dims (p @ [i]) :: 'w word"
    let ?m = "2 ^ ((queue_depth - Suc depth) * dims) :: nat"
    let ?find = "\<lambda>i ents. and_then (child dims (abs_path dims p) i) (\<lambda>c.
        if ?bf c then find_walk n dims t corner ef bf c (extent / 2) ents else ok ents)"
    let ?share = "\<lambda>i s. and_then (child dims (abs_path dims p) i) (\<lambda>c.
        if ?bf c
        then if Suc depth = queue_depth then ok (s\<lparr>sh_tasks := sh_tasks s @ [(c, extent / 2)]\<rparr>)
             else find_share n dims t corner ef bf queue_depth (Suc depth) c (extent / 2) s
        else if queue_depth < Suc depth then ok s
        else ok (release_many (2 ^ ((queue_depth - Suc depth) * dims)) s))"
    define R where "R i x \<longleftrightarrow> (case x of (es, k, ts, rs, r) \<Rightarrow>
        (\<forall>s. ?share i s = ok (share_add s es k ts)) \<and> k + length ts = ?m \<and>
        traverse (find_task dims t corner ef bf) ts = ok rs \<and>
        (\<forall>ents. ?find i ents = ok (ents @ r)) \<and> mset (es @ concat rs) = mset r)" for i x
    have "\<exists>x. R i x" if i: "i < 2 ^ dims" for i
    proof -
      note c = child_path[OF dims Suc.prems(1) room i]
      have deep: "max_branch_depth TYPE('w) dims < n + length (p @ [i])" using Suc.prems(3) by simp
      obtain r where r: "\<And>ents. find_walk n dims t corner ef bf (?c i) (extent / 2) ents = ok (ents @ r)"
        using find_walk_correct[OF dims ok kid[OF i] deep, of corner ef bf "extent / 2"] by blast
      consider "\<not> ?bf (?c i)" | "?bf (?c i)" "Suc depth = queue_depth"
        | "?bf (?c i)" "Suc depth \<noteq> queue_depth" by blast
      then show ?thesis
      proof cases
        case 1
        then have "R i ([], ?m, [], [], [])"
          using c Suc.prems(5) by (simp add: R_def share_add_def release_many_def)
        then show ?thesis by blast
      next
        case 2
        have "find_task dims t corner ef bf (?c i, extent / 2) = ok r"
          using find_walk_mono[OF r[of "[]"]] Suc.prems(4) by (simp add: find_task_def)
        then have "R i ([], 0, [(?c i, extent / 2)], [r], r)"
          using c 2 r by (simp add: R_def share_add_def)
        then show ?thesis by blast
      next
        case 3
        then have "Suc depth < queue_depth" using Suc.prems(5) by simp
        then obtain es k ts rs r' where x:
          "\<And>s. find_share n dims t corner ef bf queue_depth (Suc depth) (?c i) (extent / 2) s = ok (share_add s es k ts)"
          "k + length ts = ?m" "traverse (find_task dims t corner ef bf) ts = ok rs"
          "find_walk n dims t corner ef bf (?c i) (extent / 2) [] = ok r'" "mset (es @ concat rs) = mset r'"
          using Suc.IH[OF kid[OF i] deep, of "Suc depth" "extent / 2"] Suc.prems(4) by auto
        then have "R i (es, k, ts, rs, r)" using c 3 r by (simp add: R_def)
        then show ?thesis by blast
      qed
    qed
    then obtain g where g: "\<And>i. i < 2 ^ dims \<Longrightarrow> R i (g i)" by metis
    define es k ts rs r where "es i = fst (g i)" "k i = fst (snd (g i))" "ts i = fst (snd (snd (g i)))"
      "rs i = fst (snd (snd (snd (g i))))" "r i = snd (snd (snd (snd (g i))))" for i
    have spec: "(\<forall>s. ?share i s = ok (share_add s (es i) (k i) (ts i))) \<and> k i + length (ts i) = ?m \<and>
        traverse (find_task dims t corner ef bf) (ts i) = ok (rs i) \<and>
        (\<forall>ents. ?find i ents = ok (ents @ r i)) \<and> mset (es i @ concat (rs i)) = mset (r i)"
      if "i < 2 ^ dims" for i
      using g[OF that] by (simp add: R_def split_beta es_k_ts_rs_r_def)
    let ?is = "[0..<2 ^ dims]"
    have share: "find_share (Suc n) dims t corner ef bf queue_depth depth (abs_path dims p) extent s =
        ok (share_add s (concat (map es ?is)) (sum_list (map k ?is)) (concat (map ts ?is)))" for s
    proof -
      have "fold_outcome ?share ?is s =
          ok (share_add s (concat (map es ?is)) (sum_list (map k ?is)) (concat (map ts ?is)))"
        by (rule fold_outcome_share) (use spec in simp)
      then show ?thesis using br True by (simp add: with_branch_def tree_at_def Let_def)
    qed
    have find: "find_walk (Suc n) dims t corner ef bf (abs_path dims p) extent [] = ok (concat (map r ?is))"
    proof -
      have "fold_outcome ?find ?is [] = ok ([] @ concat (map r ?is))"
        by (rule fold_outcome_collect) (use spec in simp)
      then show ?thesis using br True by (simp add: with_branch_def tree_at_def Let_def)
    qed
    have "sum_list (map k ?is) + length (concat (map ts ?is)) = sum_list (map (\<lambda>i. k i + length (ts i)) ?is)"
      by (simp add: length_concat sum_list_addf comp_def)
    also have "\<dots> = sum_list (map (\<lambda>i. ?m) ?is)"
      by (rule arg_cong[of _ _ sum_list], rule map_cong) (use spec in simp_all)
    also have "\<dots> = 2 ^ ((queue_depth - depth) * dims)"
    proof -
      have "queue_depth - depth = Suc (queue_depth - Suc depth)" using Suc.prems(5) by simp
      then show ?thesis by (simp add: sum_list_triv power_add)
    qed
    finally have permits: "sum_list (map k ?is) + length (concat (map ts ?is)) = 2 ^ ((queue_depth - depth) * dims)" .
    have tasks: "traverse (find_task dims t corner ef bf) (concat (map ts ?is)) = ok (concat (map rs ?is))"
      by (rule traverse_concat) (use spec in simp)
    have "mset (concat (map es ?is) @ concat (concat (map rs ?is))) = sum_list (map (\<lambda>i. mset (r i)) ?is)"
      unfolding mset_concat_split by (rule arg_cong[of _ _ sum_list], rule map_cong) (use spec in simp_all)
    also have "\<dots> = mset (concat (map r ?is))"
      by (simp add: mset_concat comp_def)
    finally show ?thesis using share permits tasks find by blast
  qed
qed

text \<open>
  C23: the concurrent query finds the same entities as the sequential one, as a
  multiset, between the calling thread and the tasks it queues; and the releases of the
  calling thread and of the tasks (one each) raise the semaphore from 1 - 2 ^ (levels *
  dimension) to exactly one permit, so the final acquire() passes after the last of them.
\<close>

theorem concurrent_find_equiv:
  fixes t :: "('w::len word, 'e) tree"
  assumes dims: "0 < dims" and ok: "tree_ok dims cap pos t"
    and p: "path_ok TYPE('w) dims p" "tree_at dims t p \<noteq> None" and levels: "0 < q"
  shows "\<exists>sh rs r. find_share (walk_fuel TYPE('w) dims) dims t corner ef bf (q + depth) depth (abs_path dims p) extent
      \<lparr>sh_found = [], sh_permits = 0, sh_tasks = []\<rparr> = ok sh \<and>
    traverse (find_task dims t corner ef bf) (sh_tasks sh) = ok rs \<and>
    find_walk (walk_fuel TYPE('w) dims) dims t corner ef bf (abs_path dims p) extent [] = ok r \<and>
    mset (sh_found sh @ concat rs) = mset r \<and>
    1 - int (2 ^ (q * dims)) + int (sh_permits sh) + int (length (sh_tasks sh)) = 1"
proof -
  have fuel: "max_branch_depth TYPE('w) dims < walk_fuel TYPE('w) dims + length p"
    by (simp add: walk_fuel_def)
  obtain es k ts rs r where x:
    "\<And>s. find_share (walk_fuel TYPE('w) dims) dims t corner ef bf (q + depth) depth (abs_path dims p) extent s =
      ok (share_add s es k ts)" "k + length ts = 2 ^ ((q + depth - depth) * dims)"
    "traverse (find_task dims t corner ef bf) ts = ok rs"
    "find_walk (walk_fuel TYPE('w) dims) dims t corner ef bf (abs_path dims p) extent [] = ok r"
    "mset (es @ concat rs) = mset r"
    using find_share_correct[OF dims ok p fuel order_refl, of depth "q + depth" corner ef bf extent] levels
    by auto
  have "1 - int (2 ^ (q * dims)) + int k + int (length ts) = 1"
    using arg_cong[OF x(2), of int] by simp
  then show ?thesis using x by (simp add: share_add_def)
qed

lemma tree_new_walk:
  "find_walk (walk_fuel TYPE('w::len) dims) dims (tree_new dims :: ('w word, 'e) tree) corner ef bf
     (branch_root dims) extent [] = ok []"
  by (simp add: walk_fuel_def with_branch_def tree_new_def new_branch_def)

theorem tree_find_complete_witness:
  "found_at 1 (tree_new 1 :: (8 word, nat) tree) (\<lambda>c. []) (\<lambda>e. True) (\<lambda>c x s. True) [] 1 = {}"
proof -
  let ?t = "tree_new 1 :: (8 word, nat) tree"
  have "tree_at 1 ?t [] \<noteq> None"
    using tree_new_at[of 1 "[]", where 'w = 8 and 'e = nat] by simp
  then have "\<exists>r. find_walk (walk_fuel TYPE(8) 1) 1 ?t (\<lambda>c. []) (\<lambda>e. True) (\<lambda>c x s. True) (abs_path 1 []) 1 [] = ok r \<and>
      distinct r \<and> set r = found_at 1 ?t (\<lambda>c. []) (\<lambda>e. True) (\<lambda>c x s. True) [] 1"
    by (intro conjunct1[OF tree_find_complete[where cap = 1 and pos = "\<lambda>e. []" and f = "\<lambda>e s. s" and s = "()"]])
      (simp_all add: tree_new_ok)
  then show ?thesis
    using tree_new_walk[where 'w = 8 and 'e = nat and dims = 1] by (auto simp: abs_path_simps)
qed

theorem concurrent_find_equiv_witness:
  "\<exists>sh. find_share (walk_fuel TYPE(8) 1) 1 (tree_new 1 :: (8 word, nat) tree) (\<lambda>c. []) (\<lambda>e. True)
      (\<lambda>c x s. True) (2 + 0) 0 (branch_root 1) 1 \<lparr>sh_found = [], sh_permits = 0, sh_tasks = []\<rparr> = ok sh \<and>
    1 - int (2 ^ (2 * 1)) + int (sh_permits sh) + int (length (sh_tasks sh)) = 1"
proof -
  have "tree_at 1 (tree_new 1 :: (8 word, nat) tree) [] \<noteq> None"
    using tree_new_at[of 1 "[]", where 'w = 8 and 'e = nat] by simp
  then show ?thesis
    using concurrent_find_equiv[of 1 1 "\<lambda>e. []" "tree_new 1 :: (8 word, nat) tree" "[]" 2 "\<lambda>c. []"
        "\<lambda>e. True" "\<lambda>c x s. True" 0 1] tree_new_ok[of 1, where 'w = 8 and 'e = nat]
    by (auto simp: abs_path_simps)
qed

section \<open>Where the tree goes wrong\<close>

definition sample_position :: "nat \<Rightarrow> rat list" where
  "sample_position e = [[1 / 8], [3 / 8], [3 / 4], [1 / 4]] ! e"

definition insert_sample :: "nat \<Rightarrow> nat \<Rightarrow> (8 word, nat) tree \<Rightarrow> (8 word, nat) tree outcome" where
  "insert_sample cap e = tree_insert (capacity_policy cap) 1 sample_position e"

definition remove_sample :: "nat \<Rightarrow> nat \<Rightarrow> (8 word, nat) tree \<Rightarrow> (8 word, nat) tree outcome" where
  "remove_sample cap e = tree_remove (capacity_policy cap) 1 e"

definition find_everything :: "(8 word, nat) tree \<Rightarrow> nat list outcome" where
  "find_everything t = find_walk (walk_fuel TYPE(8) 1) 1 t (\<lambda>c. []) (\<lambda>e. True) (\<lambda>c x s. True) 1 1 []"

text \<open>
  three ways in which the policy of the repository's own trees breaks the tree.  An
  entity inserted after a coarsening collected more entities in a leaf than its capacity
  can end in a branch that was refined meanwhile, where no query finds it; inserting another
  entity into a root leaf that was emptied fails an assertion, because its request to coarsen
  was never reset; and update_all keeps the entities of a root leaf and inserts them again.
\<close>

lemma tree_defects:
  "(case and_then (insert_sample 1 0 (tree_new 1)) (\<lambda>t. and_then (insert_sample 1 1 t) (\<lambda>t.
      and_then (insert_sample 1 2 t) (\<lambda>t. and_then (remove_sample 1 2 t) (insert_sample 1 3)))) of
      Inl f \<Rightarrow> False
    | Inr t \<Rightarrow> valid_entity t 3 \<and> find_everything t = ok [0, 1]) \<and>
   and_then (insert_sample 1 0 (tree_new 1)) (\<lambda>t. and_then (remove_sample 1 0 t) (insert_sample 1 1))
     = fail Assert_failed \<and>
   and_then (insert_sample 2 0 (make_entity 0 (tree_new 1)))
     (\<lambda>t. and_then (tree_update_all (capacity_policy 2) 1 sample_position t) find_everything) = ok [0, 0]"
proof (intro conjI)
  show "case and_then (insert_sample 1 0 (tree_new 1)) (\<lambda>t. and_then (insert_sample 1 1 t) (\<lambda>t.
      and_then (insert_sample 1 2 t) (\<lambda>t. and_then (remove_sample 1 2 t) (insert_sample 1 3)))) of
      Inl f \<Rightarrow> False
    | Inr t \<Rightarrow> valid_entity t 3 \<and> find_everything t = ok [0, 1]"
    by code_simp
  have "case and_then (insert_sample 1 0 (tree_new 1)) (\<lambda>t. and_then (remove_sample 1 0 t) (insert_sample 1 1)) of
      Inl f \<Rightarrow> f = Assert_failed | Inr t \<Rightarrow> False"
    by code_simp
  then show "and_then (insert_sample 1 0 (tree_new 1)) (\<lambda>t. and_then (remove_sample 1 0 t) (insert_sample 1 1))
     = fail Assert_failed"
    by (simp split: sum.splits)
  show "and_then (insert_sample 2 0 (make_entity 0 (tree_new 1)))
     (\<lambda>t. and_then (tree_update_all (capacity_policy 2) 1 sample_position t) find_everything) = ok [0, 0]"
    by code_simp
qed

end
