(* ===== verification/Exchange.thy ===== *)
theory Exchange
  imports Coloring
begin

text \<open>
  The message passing of coloring/dcrs\_utils.h.  Every distributed routine of that file follows one
  pattern: count the words for each rank, turn the counts into displacements, fill the send buffer,
  exchange the counts with \<open>MPI_Alltoall\<close>, exchange the buffers with \<open>alltoallv\<close>, and read the
  received buffer.  The pattern is modelled here once; the ranks of the communicator are the elements
  of a list and a routine is a sequence of such exchanges with local code between them.

  MPI is not part of the repository: its operations are the fields of the record \<open>mpi\<close>, arguments of
  the model, and \<open>mpi_works\<close> is what its documentation promises for them. MPI reports errors by
  aborting (the default handler), so the returned codes are not modelled.
\<close>

section \<open>MPI\<close>

text \<open>
  Row \<open>s\<close> of a matrix holds what rank \<open>s\<close> contributes, row \<open>r\<close> of the result what rank \<open>r\<close> gets.
  \<open>mpi_transfer\<close> delivers the sequences of messages posted with \<open>MPI_Isend\<close> from each rank to each
  rank under one tag, in the order of the posts.
\<close>

record mpi =
  mpi_alltoall :: "nat list list \<Rightarrow> nat list list"
  mpi_transfer :: "nat list list list list \<Rightarrow> nat list list list list"
  mpi_allgather :: "nat list \<Rightarrow> nat list list"
  mpi_allreduce_max :: "nat list \<Rightarrow> nat list"

definition square :: "nat \<Rightarrow> 'a list list \<Rightarrow> bool" where
  "square n m \<longleftrightarrow> length m = n \<and> (\<forall>row\<in>set m. length row = n)"

definition column :: "'a list list \<Rightarrow> nat \<Rightarrow> 'a list" where
  "column m r = map (\<lambda>row. row ! r) m"

definition mpi_works :: "nat \<Rightarrow> mpi \<Rightarrow> bool" where
  "mpi_works n c \<longleftrightarrow>
     (\<forall>m. square n m \<longrightarrow> mpi_alltoall c m = map (column m) [0..<n]) \<and>
     (\<forall>m. square n m \<longrightarrow> mpi_transfer c m = map (column m) [0..<n]) \<and>
     (\<forall>xs. length xs = n \<longrightarrow> mpi_allgather c xs = replicate n xs) \<and>
     (\<forall>xs. length xs = n \<longrightarrow> mpi_allreduce_max c xs = replicate n (fold max xs 0))"

text \<open>A communicator that works, for the witnesses.\<close>

definition ideal_mpi :: "nat \<Rightarrow> mpi" where
  "ideal_mpi n = \<lparr>mpi_alltoall = (\<lambda>m. map (column m) [0..<n]), mpi_transfer = (\<lambda>m. map (column m) [0..<n]),
     mpi_allgather = (\<lambda>xs. replicate n xs), mpi_allreduce_max = (\<lambda>xs. replicate n (fold max xs 0))\<rparr>"

lemma ideal_mpi_works: "mpi_works n (ideal_mpi n)"
  by (simp add: mpi_works_def ideal_mpi_def)

section \<open>Packing\<close>

text \<open>
  The loops that fill the buffers visit the messages of a rank in some order; a message is its
  destination and its words.  Messages of a rank to itself are skipped.
\<close>

type_synonym message = "nat \<times> nat list"

definition count_send :: "nat \<Rightarrow> message \<Rightarrow> nat list \<Rightarrow> nat list outcome" where
  "count_send self = (\<lambda>(r, words) counts.
     if r = self then ok counts
     else if r < length counts then ok (counts[r := counts ! r + length words])
     else fail Undefined)"

definition displacements :: "nat list \<Rightarrow> nat list" where
  "displacements counts = fold (\<lambda>c displs. displs @ [last displs + c]) counts [0]"

definition place_send :: "nat \<Rightarrow> nat list \<Rightarrow> message \<Rightarrow> nat list \<times> nat list \<Rightarrow> (nat list \<times> nat list) outcome" where
  "place_send self displs = (\<lambda>(r, words) (counts, buf).
     if r = self then ok (counts, buf)
     else if r < length counts \<and> displs ! r + counts ! r + length words \<le> length buf
     then ok (counts[r := counts ! r + length words], put_slice (displs ! r + counts ! r) words buf)
     else fail Undefined)"

type_synonym mail = "nat list \<times> nat list \<times> nat list"

definition pack_sends :: "nat \<Rightarrow> message list \<Rightarrow> nat \<Rightarrow> mail outcome" where
  "pack_sends n messages self =
     and_then (fold_outcome (count_send self) messages (replicate n 0)) (\<lambda>counts.
     let displs = displacements counts in
     and_then (fold_outcome (place_send self displs) messages (replicate n 0, replicate (displs ! n) 0))
       (\<lambda>(counts, buf). ok (counts, displs, buf)))"

section \<open>alltoallv\<close>

text \<open>A count is cut into pieces of at most \<open>lim\<close> words: the pairs of \<open>start\<close> and \<open>sz\<close>.\<close>

function pieces :: "nat \<Rightarrow> nat \<Rightarrow> nat \<Rightarrow> (nat \<times> nat) list" where
  "pieces lim start count =
     (if count = 0 \<or> lim = 0 then []
      else let sz = min count lim in (start, sz) # pieces lim (start + sz) (count - sz))"
  by pat_completeness auto
termination
  by (relation "measure (\<lambda>(lim, start, count). count)") auto

declare pieces.simps [simp del]

text \<open>\<open>std::numeric_limits<int>::max() - 1\<close>\<close>

definition int_max :: nat where
  "int_max = 2 ^ 31 - 1 - 1"

text \<open>The data of the sends to one rank, in the order they are posted.\<close>

definition isends :: "nat \<Rightarrow> nat list \<Rightarrow> nat \<Rightarrow> nat \<Rightarrow> nat list list outcome" where
  "isends lim buf displ count = traverse (\<lambda>(start, sz).
     if displ + start + sz \<le> length buf then ok (take sz (drop (displ + start) buf)) else fail Undefined)
     (pieces lim 0 count)"

text \<open>
  The receives from one rank. A message longer than its receive, or a receive without a message,
  fails here (MPI aborts or waits for ever); a shorter one would leave the rest of the piece.
\<close>

definition irecvs :: "nat \<Rightarrow> nat \<Rightarrow> nat \<Rightarrow> nat list list \<Rightarrow> nat list \<Rightarrow> nat list outcome" where
  "irecvs lim displ count arrived buf =
     (if length arrived = length (pieces lim 0 count)
      then fold_outcome (\<lambda>((start, sz), words) buf.
        if length words \<le> sz \<and> displ + start + sz \<le> length buf
        then ok (put_slice (displ + start) words buf) else fail Undefined)
        (zip (pieces lim 0 count) arrived) buf
      else fail Undefined)"

definition alltoallv :: "mpi \<Rightarrow> mail list \<Rightarrow> mail list \<Rightarrow> nat list list outcome" where
  "alltoallv c sends recvs =
     and_then (traverse (\<lambda>(counts, displs, buf).
         traverse (\<lambda>r. isends int_max buf (displs ! r) (counts ! r)) [0..<length counts]) sends) (\<lambda>sent.
     traverse (\<lambda>((counts, displs, buf), arrived).
         fold_outcome (\<lambda>r. irecvs int_max (displs ! r) (counts ! r) (arrived ! r)) [0..<length counts] buf)
       (zip recvs (mpi_transfer c sent)))"

text \<open>The exchange: the counts first, then the buffers.\<close>

definition exchange :: "mpi \<Rightarrow> mail list \<Rightarrow> mail list outcome" where
  "exchange c sends =
     (let recvs = map (\<lambda>counts. let displs = displacements counts
            in (counts, displs, replicate (displs ! length counts) 0))
          (mpi_alltoall c (map fst sends))
      in and_then (alltoallv c sends recvs) (\<lambda>bufs.
           ok (map (\<lambda>((counts, displs, _), buf). (counts, displs, buf)) (zip recvs bufs))))"

definition post :: "mpi \<Rightarrow> message list list \<Rightarrow> mail list outcome" where
  "post c messages =
     and_then (traverse (\<lambda>r. pack_sends (length messages) (messages ! r) r) [0..<length messages]) (exchange c)"

section \<open>Reading a received buffer\<close>

text \<open>The words rank \<open>r\<close> sent: positions \<open>recvdispls[r]\<close> to \<open>recvdispls[r + 1]\<close>.\<close>

definition received :: "mail \<Rightarrow> nat \<Rightarrow> nat list" where
  "received mail r = (case mail of (counts, displs, buf) \<Rightarrow>
     take (displs ! (r + 1) - displs ! r) (drop (displs ! r) buf))"

text \<open>
  The two loops that read a segment: records of an id, a length and that many words, and records
  of a length and that many words. A record that does not fit ends in \<open>e\<close>.
\<close>

function read_tagged :: "failure \<Rightarrow> (nat \<Rightarrow> nat list \<Rightarrow> 's \<Rightarrow> 's outcome) \<Rightarrow> nat list \<Rightarrow> 's \<Rightarrow> 's outcome" where
  "read_tagged e f [] s = ok s"
| "read_tagged e f [x] s = fail e"
| "read_tagged e f (x # n # words) s =
     (if n \<le> length words then and_then (f x (take n words) s) (read_tagged e f (drop n words)) else fail e)"
  by pat_completeness auto
termination
  by (relation "measure (\<lambda>(e, f, words, s). length words)") auto

function read_runs :: "failure \<Rightarrow> (nat list \<Rightarrow> 's \<Rightarrow> 's outcome) \<Rightarrow> nat list \<Rightarrow> 's \<Rightarrow> 's outcome" where
  "read_runs e f [] s = ok s"
| "read_runs e f (n # words) s =
     (if n \<le> length words then and_then (f (take n words) s) (read_runs e f (drop n words)) else fail e)"
  by pat_completeness auto
termination
  by (relation "measure (\<lambda>(e, f, words, s). length words)") auto


section \<open>What the pattern does\<close>

definition mail_of :: "nat list list \<Rightarrow> mail" where
  "mail_of rows = (map length rows, offsets_of rows, concat rows)"

text \<open>The words rank \<open>self\<close> has for rank \<open>r\<close>.\<close>

definition letter :: "nat \<Rightarrow> message list \<Rightarrow> nat \<Rightarrow> nat list" where
  "letter self messages r =
     (if r = self then [] else concat (map snd (filter (\<lambda>m. fst m = r) messages)))"

lemma displacements_rows: "displacements (map length rows) = offsets_of rows"
proof (induction rows rule: rev_induct)
  case Nil
  then show ?case by (simp add: displacements_def offsets_of_def)
next
  case (snoc row rows)
  then show ?case by (simp add: displacements_def offsets_of_snoc last_offsets_of)
qed

lemma offsets_of_length: "offsets_of rows ! length rows = length (concat rows)"
  by (simp add: offsets_of_nth)

lemma received_mail [simp]: "r < length rows \<Longrightarrow> received (mail_of rows) r = rows ! r"
proof -
  assume r: "r < length rows"
  have "concat rows = concat (take r rows) @ rows ! r @ concat (drop (Suc r) rows)"
    by (rule concat_split[OF r])
  then show ?thesis using r
    by (simp add: received_def mail_of_def offsets_of_nth take_Suc_conv_app_nth)
qed

lemma put_slice_twice:
  assumes "i + length ys \<le> length xs"
  shows "put_slice (i + length ys) zs (put_slice i ys xs) = put_slice i (ys @ zs) xs"
  using assms by (simp add: put_slice_def ac_simps)

lemma length_put_slice [simp]: "i + length ys \<le> length xs \<Longrightarrow> length (put_slice i ys xs) = length xs"
  by (simp add: put_slice_def)

lemma put_slice_in_row:
  assumes "i < length cv" "p + length m \<le> length (cv ! i)"
  shows "put_slice (offsets_of cv ! i + p) m (concat cv) = concat (cv[i := put_slice p m (cv ! i)])"
proof -
  have c: "concat cv = concat (take i cv) @ cv ! i @ concat (drop (Suc i) cv)"
    by (rule concat_split[OF assms(1)])
  have "put_slice (length (concat (take i cv)) + p) m (concat cv)
      = concat (take i cv) @ put_slice p m (cv ! i) @ concat (drop (Suc i) cv)"
    unfolding put_slice_def by (subst (1 2) c) (use assms(2) in simp)
  then show ?thesis using assms(1) by (simp add: offsets_of_nth upd_conv_take_nth_drop)
qed

subsection \<open>Pieces\<close>

lemma isends_pieces:
  assumes "displ + st + n \<le> length buf"
  shows "traverse (\<lambda>(start, sz). if displ + start + sz \<le> length buf
      then ok (take sz (drop (displ + start) buf)) else fail Undefined) (pieces lim st n)
    = ok (map (\<lambda>(start, sz). take sz (drop (displ + start) buf)) (pieces lim st n))"
  using assms
proof (induction lim st n rule: pieces.induct)
  case (1 lim start count)
  then show ?case by (subst (1 2) pieces.simps) (auto simp: Let_def)
qed

lemma irecvs_pieces:
  assumes "0 < lim" "off + st + n \<le> length src" "displ + st + n \<le> length buf"
  shows "fold_outcome (\<lambda>((start, sz), words) buf.
      if length words \<le> sz \<and> displ + start + sz \<le> length buf
      then ok (put_slice (displ + start) words buf) else fail Undefined)
      (zip (pieces lim st n) (map (\<lambda>(start, sz). take sz (drop (off + start) src)) (pieces lim st n))) buf
    = ok (put_slice (displ + st) (take n (drop (off + st) src)) buf)"
  using assms
proof (induction lim st n arbitrary: buf rule: pieces.induct)
  case (1 lim start count)
  show ?case
  proof (cases "count = 0")
    case True
    then show ?thesis using 1 by (subst pieces.simps) (simp add: put_slice_def)
  next
    case False
    let ?sz = "min count lim" and ?w = "take (min count lim) (drop (off + start) src)"
    let ?buf = "put_slice (displ + start) ?w buf"
    have "length ?w = ?sz" using "1.prems" by simp
    then have lw: "length (put_slice (displ + start) ?w buf) = length buf"
      "put_slice (displ + start + ?sz) (take (count - ?sz) (drop (off + (start + ?sz)) src)) ?buf
       = put_slice (displ + start) (?w @ take (count - ?sz) (drop (off + (start + ?sz)) src)) buf"
      using "1.prems" put_slice_twice[of "displ + start" ?w buf] by simp_all
    have "take count (drop (off + start) src)
        = ?w @ take (count - ?sz) (drop (off + (start + ?sz)) src)"
      using take_add[of ?sz "count - ?sz" "drop (off + start) src"] by (simp add: ac_simps)
    note whole = this
    have cut: "pieces lim start count = (start, ?sz) # pieces lim (start + ?sz) (count - ?sz)"
      using False "1.prems" by (subst pieces.simps) (simp add: Let_def)
    show ?thesis
      using "1.IH"[of ?sz ?buf] "1.prems" False lw whole by (simp add: cut add.assoc)
  qed
qed

text \<open>The messages that carry \<open>row ! r\<close>.\<close>

definition cut :: "nat list list \<Rightarrow> nat \<Rightarrow> nat list list" where
  "cut row r = map (\<lambda>(start, sz). take sz (drop (offsets_of row ! r + start) (concat row)))
     (pieces int_max 0 (length (row ! r)))"

lemma segment_bound: "r < length row \<Longrightarrow> offsets_of row ! r + length (row ! r) \<le> length (concat row)"
  using arg_cong[OF concat_split[of r row], of length] by (simp add: offsets_of_nth)

lemma segment: "r < length row \<Longrightarrow> take (length (row ! r)) (drop (offsets_of row ! r) (concat row)) = row ! r"
  using arg_cong[OF concat_split[of r row], of "\<lambda>xs. take (length (row ! r)) (drop (offsets_of row ! r) xs)"]
  by (simp add: offsets_of_nth)

lemma isends_cut:
  "r < length row \<Longrightarrow> isends int_max (concat row) (offsets_of row ! r) (length (row ! r)) = ok (cut row r)"
  using isends_pieces[of "offsets_of row ! r" 0] segment_bound[of r row] by (simp add: isends_def cut_def)

lemma irecvs_cut:
  assumes "r < length row" "displ + length (row ! r) \<le> length buf"
  shows "irecvs int_max displ (length (row ! r)) (cut row r) buf = ok (put_slice displ (row ! r) buf)"
  using irecvs_pieces[of int_max "offsets_of row ! r" 0 "length (row ! r)" "concat row" displ buf]
    assms segment_bound[OF assms(1)] segment[OF assms(1)]
  by (simp add: irecvs_def cut_def int_max_def)

subsection \<open>The exchange of a matrix of messages\<close>

lemma fold_columns:
  assumes "\<And>s buf. s < length rows \<Longrightarrow> length buf = length (concat rows) \<Longrightarrow>
      f s buf = ok (put_slice (offsets_of rows ! s) (rows ! s) buf)"
  shows "fold_outcome f [0..<length rows] (replicate (length (concat rows)) 0) = ok (concat rows)"
proof -
  define mixed where "mixed k = take k rows @ map (\<lambda>row. replicate (length row) (0::nat)) (drop k rows)" for k
  have len: "map length (mixed k) = map length rows" for k
    by (simp add: mixed_def comp_def) (metis append_take_drop_id map_append)
  have lc: "length (concat (mixed k)) = length (concat rows)" for k
    by (simp add: length_concat len)
  have offs: "offsets_of (mixed k) = offsets_of rows" for k
    by (metis displacements_rows len)
  have "k \<le> length rows \<Longrightarrow>
      fold_outcome f [0..<k] (concat (mixed 0)) = ok (concat (mixed k))" for k
  proof (induction k)
    case (Suc k)
    then have k: "k < length rows" by simp
    then have "mixed k ! k = replicate (length (rows ! k)) 0"
      by (simp add: mixed_def nth_append)
    then have "put_slice (offsets_of (mixed k) ! k) (rows ! k) (concat (mixed k)) = concat ((mixed k)[k := rows ! k])"
      using k len[of k] by (intro put_slice_rows) (auto dest: map_eq_imp_length_eq)
    also have "(mixed k)[k := rows ! k] = mixed (Suc k)"
      using k by (simp add: mixed_def list_update_append take_Suc_conv_app_nth Cons_nth_drop_Suc[symmetric])
    finally have "f k (concat (mixed k)) = ok (concat (mixed (Suc k)))"
      using assms[OF k lc] by (simp add: offs)
    then show ?case using Suc k by simp
  qed simp
  from this[of "length rows"]
  have "fold_outcome f [0..<length rows] (concat (mixed 0)) = ok (concat (mixed (length rows)))" by simp
  moreover have "concat (map (\<lambda>row. replicate (length row) (0::nat)) rows) = replicate (length (concat rows)) 0"
    by (induction rows) (auto simp: replicate_add)
  ultimately show ?thesis by (simp add: mixed_def)
qed


lemma column_length [simp]: "length (column m r) = length m"
  by (simp add: column_def)

lemma column_nth [simp]: "s < length m \<Longrightarrow> column m r ! s = m ! s ! r"
  by (simp add: column_def)

lemma column_map: "column (map (\<lambda>row. map (f row) [0..<n]) m) r = map (\<lambda>row. f row r) m" if "r < n"
  using that by (simp add: column_def)

definition blank_mail_of :: "nat list list \<Rightarrow> mail" where
  "blank_mail_of rows = (map length rows, offsets_of rows, replicate (length (concat rows)) 0)"

lemma alltoallv_matrix:
  assumes "mpi_works n c" "square n M"
  shows "alltoallv c (map mail_of M) (map (\<lambda>r. blank_mail_of (column M r)) [0..<n])
    = ok (map (\<lambda>r. concat (column M r)) [0..<n])"
proof -
  let ?P = "map (\<lambda>row. map (cut row) [0..<n]) M"
  have M: "length M = n" "\<And>s. s < n \<Longrightarrow> length (M ! s) = n"
    using assms(2) by (auto simp: square_def)
  have "traverse (\<lambda>r. isends int_max (concat row) (offsets_of row ! r) (map length row ! r)) [0..<length row]
      = ok (map (cut row) [0..<n])" if "row \<in> set M" for row
    using that assms(2) by (intro traverse_ok[where g = "cut row", THEN trans]) (auto simp: square_def isends_cut)
  then have sent: "traverse (\<lambda>(counts, displs, buf).
      traverse (\<lambda>r. isends int_max buf (displs ! r) (counts ! r)) [0..<length counts]) (map mail_of M) = ok ?P"
    using traverse_ok[of "map mail_of M"] by (simp add: traverse_map mail_of_def comp_def traverse_ok)
  have "square n ?P" using M(1) by (auto simp: square_def)
  then have arrived: "mpi_transfer c ?P = map (\<lambda>r. map (\<lambda>row. cut row r) M) [0..<n]"
    using assms(1) by (simp add: mpi_works_def column_map cong: map_cong)
  have recv: "fold_outcome (\<lambda>s. irecvs int_max (offsets_of (column M r) ! s) (map length (column M r) ! s)
      (map (\<lambda>row. cut row r) M ! s)) [0..<n] (replicate (length (concat (column M r))) 0)
    = ok (concat (column M r))" if r: "r < n" for r
  proof -
    have "irecvs int_max (offsets_of (column M r) ! s) (map length (column M r) ! s) (map (\<lambda>row. cut row r) M ! s) buf
        = ok (put_slice (offsets_of (column M r) ! s) (column M r ! s) buf)"
      if s: "s < length (column M r)" "length buf = length (concat (column M r))" for s buf
      using irecvs_cut[of r "M ! s" "offsets_of (column M r) ! s" buf] segment_bound[OF s(1)] s r M by simp
    from fold_columns[OF this] show ?thesis using M(1) by simp
  qed
  have "traverse (\<lambda>((counts, displs, buf), arrived).
        fold_outcome (\<lambda>r. irecvs int_max (displs ! r) (counts ! r) (arrived ! r)) [0..<length counts] buf)
      (zip (map (\<lambda>r. blank_mail_of (column M r)) [0..<n]) (map (\<lambda>r. map (\<lambda>row. cut row r) M) [0..<n]))
    = ok (map (\<lambda>r. concat (column M r)) [0..<n])"
    unfolding zip_map_map zip_same_conv_map traverse_map map_map
    by (rule traverse_ok) (use recv M(1) in \<open>simp add: blank_mail_of_def comp_def\<close>)
  then show ?thesis using sent arrived by (simp add: alltoallv_def)
qed

lemma exchange_matrix:
  assumes "mpi_works n c" "square n M"
  shows "exchange c (map mail_of M) = ok (map (\<lambda>r. mail_of (column M r)) [0..<n])"
proof -
  have "square n (map (map length) M)" using assms(2) by (auto simp: square_def)
  then have "mpi_alltoall c (map fst (map mail_of M)) = map (column (map (map length) M)) [0..<n]"
    using assms(1) by (simp add: mpi_works_def mail_of_def comp_def)
  also have "\<dots> = map (\<lambda>r. map length (column M r)) [0..<n]"
    using assms(2) by (auto simp: column_def square_def)
  finally have counts: "mpi_alltoall c (map fst (map mail_of M)) = map (\<lambda>r. map length (column M r)) [0..<n]" .
  have recvs: "map (\<lambda>counts. let displs = displacements counts in (counts, displs, replicate (displs ! length counts) 0))
      (map (\<lambda>r. map length (column M r)) [0..<n]) = map (\<lambda>r. blank_mail_of (column M r)) [0..<n]"
    using assms(2) offsets_of_length[of "column M r" for r]
    by (simp add: Let_def displacements_rows blank_mail_of_def square_def comp_def)
  show ?thesis
    unfolding exchange_def counts recvs
    by (simp add: Let_def alltoallv_matrix[OF assms] zip_map_map zip_same_conv_map)
      (simp add: blank_mail_of_def mail_of_def)
qed


subsection \<open>Packing\<close>

lemma letter_Nil [simp]: "letter self [] r = []"
  by (simp add: letter_def)

lemma count_sends:
  assumes "\<forall>m\<in>set ms. fst m < n" "length counts = n"
  shows "fold_outcome (count_send self) ms counts =
    ok (map (\<lambda>r. counts ! r + length (letter self ms r)) [0..<n])"
  using assms
proof (induction ms arbitrary: counts)
  case Nil
  then show ?case by (auto intro: nth_equalityI)
next
  case (Cons m ms)
  obtain r words where m: "m = (r, words)" by (cases m)
  show ?case
    using Cons.IH[of counts] Cons.IH[of "counts[r := counts ! r + length words]"] Cons.prems m
    by (auto simp: count_send_def letter_def nth_list_update)
qed

text \<open>The buffer while it is filled: what has been placed for each rank, then zeros.\<close>

lemma place_sends:
  assumes "\<forall>m\<in>set ms. fst m < n" "length done = n" "length room = n"
    and "\<forall>r<n. length (letter self ms r) = room ! r"
  shows "fold_outcome (place_send self (offsets_of (map (\<lambda>r. done ! r @ replicate (room ! r) 0) [0..<n])))
      ms (map length done, concat (map (\<lambda>r. done ! r @ replicate (room ! r) 0) [0..<n]))
    = ok (map (\<lambda>r. length (done ! r) + room ! r) [0..<n], concat (map (\<lambda>r. done ! r @ letter self ms r) [0..<n]))"
  using assms
proof (induction ms arbitrary: "done" room)
  case Nil
  then have "room ! r = 0" if "r < n" for r using that by simp
  then show ?case using Nil by (auto intro: nth_equalityI arg_cong[where f = concat])
next
  case (Cons m ms)
  obtain r words where m: "m = (r, words)" by (cases m)
  show ?case
  proof (cases "r = self")
    case True
    have "letter self (m # ms) q = letter self ms q" for q using True m by (simp add: letter_def)
    then show ?thesis using Cons True m by (simp add: place_send_def)
  next
    case False
    let ?rows = "\<lambda>d k. map (\<lambda>r. d ! r @ replicate (k ! r) 0) [0..<n]"
    let ?done = "done[r := done ! r @ words]" and ?room = "room[r := room ! r - length words]"
    have r: "r < n" using Cons.prems(1) m by simp
    have l: "letter self (m # ms) q = (if q = r then words else []) @ letter self ms q" for q
      using False m by (simp add: letter_def)
    then have lr: "room ! r = length words + length (letter self ms r)" using Cons.prems(4) r by auto
    have len: "map length (?rows ?done ?room) = map length (?rows done room)"
      using r lr Cons.prems(2,3) by (auto simp: nth_list_update)
    have offs: "offsets_of (?rows ?done ?room) = offsets_of (?rows done room)"
      unfolding displacements_rows[symmetric] len ..
    have slice: "put_slice (offsets_of (?rows done room) ! r + length (done ! r)) words (concat (?rows done room))
        = concat (?rows ?done ?room)"
    proof -
      have "put_slice (length (done ! r)) words (?rows done room ! r) = ?rows ?done ?room ! r"
        using r lr Cons.prems(2,3) by (simp add: put_slice_def)
      moreover have "(?rows done room)[r := ?rows ?done ?room ! r] = ?rows ?done ?room"
        using r Cons.prems(2,3) by (auto intro!: nth_equalityI simp: nth_list_update)
      ultimately show ?thesis
        using put_slice_in_row[of r "?rows done room" "length (done ! r)" words] r lr by simp
    qed
    have fits: "offsets_of (?rows done room) ! r + length (done ! r) + length words \<le> length (concat (?rows done room))"
      using segment_bound[of r "?rows done room"] r lr by simp
    have "\<forall>q<n. length (letter self ms q) = ?room ! q"
    proof (intro allI impI)
      fix q assume "q < n"
      then show "length (letter self ms q) = ?room ! q"
        using Cons.prems(3) Cons.prems(4)[rule_format, of q] l[of q] lr by (cases "q = r") simp_all
    qed
    from Cons.IH[OF _ _ _ this, of ?done]
    have "fold_outcome (place_send self (offsets_of (?rows done room))) ms
        (map length ?done, concat (?rows ?done ?room))
      = ok (map (\<lambda>q. length (?done ! q) + ?room ! q) [0..<n], concat (map (\<lambda>q. ?done ! q @ letter self ms q) [0..<n]))"
      using Cons.prems(1-3) unfolding offs by simp
    moreover have "map (\<lambda>q. length (?done ! q) + ?room ! q) [0..<n] = map (\<lambda>q. length (done ! q) + room ! q) [0..<n]"
      "map (\<lambda>q. ?done ! q @ letter self ms q) [0..<n] = map (\<lambda>q. done ! q @ letter self (m # ms) q) [0..<n]"
      using r lr l Cons.prems(2,3) by (auto simp: nth_list_update)
    moreover have "(map length done)[r := length (done ! r) + length words] = map length ?done"
      by (simp add: map_update)
    ultimately show ?thesis
      using slice fits False m r Cons.prems(2) by (simp add: place_send_def)
  qed
qed

lemma pack_sends_mail:
  assumes "\<forall>m\<in>set ms. fst m < n"
  shows "pack_sends n ms self = ok (mail_of (map (letter self ms) [0..<n]))"
proof -
  let ?room = "map (\<lambda>r. length (letter self ms r)) [0..<n]"
  have c: "fold_outcome (count_send self) ms (replicate n 0) = ok ?room"
    using count_sends[OF assms, of "replicate n 0"] by (simp cong: map_cong)
  let ?rows = "map (\<lambda>r. replicate (?room ! r) (0::nat)) [0..<n]"
  have "concat ?rows = replicate (length (concat ?rows)) (0::nat)"
    by (rule replicate_eqI) auto
  moreover have d: "displacements ?room = offsets_of ?rows"
    unfolding displacements_rows[of ?rows, symmetric] by (rule arg_cong[where f = displacements]) (rule nth_equalityI, simp_all)
  moreover have "offsets_of ?rows ! n = length (concat ?rows)" using offsets_of_length[of ?rows] by simp
  ultimately have b: "replicate (displacements ?room ! n) 0 = concat ?rows" by simp
  have "fold_outcome (place_send self (offsets_of ?rows)) ms (replicate n 0, concat ?rows)
    = ok (?room, concat (map (letter self ms) [0..<n]))"
  proof -
    have e: "map (\<lambda>r. replicate n [] ! r @ f r) [0..<n] = map f [0..<n]" for f :: "nat \<Rightarrow> nat list" by simp
    have g: "map (\<lambda>r. length (replicate n [] ! r :: nat list) + f r) [0..<n] = map f [0..<n]" for f by simp
    have "map (\<lambda>r. ?room ! r) [0..<n] = ?room" by (rule nth_equalityI) simp_all
    then show ?thesis
      using place_sends[OF assms, of "replicate n []" ?room self] unfolding e g by simp
  qed
  moreover have "displacements ?room = offsets_of (map (letter self ms) [0..<n])"
    using displacements_rows[of "map (letter self ms) [0..<n]"] by (simp add: comp_def)
  ultimately show ?thesis
    unfolding pack_sends_def c and_then.simps Let_def b unfolding d by (simp add: mail_of_def comp_def)
qed

lemma post_mail:
  assumes "mpi_works n c" "length messages = n" "\<forall>ms\<in>set messages. \<forall>m\<in>set ms. fst m < n"
  shows "post c messages = ok (map (\<lambda>r. mail_of (map (\<lambda>s. letter s (messages ! s) r) [0..<n])) [0..<n])"
proof -
  let ?M = "map (\<lambda>s. map (letter s (messages ! s)) [0..<n]) [0..<n]"
  have "\<forall>m\<in>set (messages ! s). fst m < n" if "s < n" for s using assms(2,3) nth_mem[of s messages] that by blast
  then have "traverse (\<lambda>r. pack_sends n (messages ! r) r) [0..<n] = ok (map (\<lambda>s. mail_of (?M ! s)) [0..<n])"
    by (intro traverse_ok) (simp add: pack_sends_mail)
  also have "map (\<lambda>s. mail_of (?M ! s)) [0..<n] = map mail_of ?M" by (simp add: comp_def)
  finally have sends: "traverse (\<lambda>r. pack_sends n (messages ! r) r) [0..<n] = ok (map mail_of ?M)" .
  have "square n ?M" by (auto simp: square_def)
  from exchange_matrix[OF assms(1) this] show ?thesis
    using assms(2) by (simp add: post_def sends column_def comp_def)
qed

lemma post_letters:
  assumes "mpi_works n c" "length messages = n" "\<And>s. s < n \<Longrightarrow> \<forall>m\<in>set (messages ! s). fst m < n"
    and "\<And>r s. r < n \<Longrightarrow> s < n \<Longrightarrow> letter s (messages ! s) r = w r s"
  shows "post c messages = ok (map (\<lambda>r. mail_of (map (w r) [0..<n])) [0..<n])"
proof -
  have "map (\<lambda>s. letter s (messages ! s) r) [0..<n] = map (w r) [0..<n]" if "r < n" for r
    using assms(4)[OF that] by simp
  then have "map (\<lambda>r. mail_of (map (\<lambda>s. letter s (messages ! s) r) [0..<n])) [0..<n]
      = map (\<lambda>r. mail_of (map (w r) [0..<n])) [0..<n]"
    by (intro map_cong refl arg_cong[where f = mail_of]) simp
  moreover have "\<forall>ms\<in>set messages. \<forall>m\<in>set ms. fst m < n"
    using assms(2,3) by (metis in_set_conv_nth)
  ultimately show ?thesis using post_mail[OF assms(1,2)] by simp
qed

subsection \<open>Reading\<close>

definition tagged :: "nat \<times> nat list \<Rightarrow> nat list" where
  "tagged = (\<lambda>(x, words). x # length words # words)"

definition run :: "nat list \<Rightarrow> nat list" where
  "run words = length words # words"

lemma read_tagged_rows:
  "read_tagged e f (concat (map tagged ms)) s = fold_outcome (\<lambda>(x, words). f x words) ms s"
proof (induction ms arbitrary: s)
  case (Cons m ms)
  obtain x words where m: "m = (x, words)" by (cases m)
  have "read_tagged e f (concat (map tagged ms)) = fold_outcome (\<lambda>(x, words). f x words) ms"
    by (rule ext) (rule Cons.IH)
  then show ?case by (simp add: m tagged_def)
qed simp

lemma read_runs_rows: "read_runs e f (concat (map run ms)) s = fold_outcome f ms s"
proof (induction ms arbitrary: s)
  case (Cons m ms)
  have "read_runs e f (concat (map run ms)) = fold_outcome f ms" by (rule ext) (rule Cons.IH)
  then show ?case by (simp add: run_def[of m])
qed simp

end
