(* ===== verification/Distributed_Graph.thy ===== *)
theory Distributed_Graph
  imports Exchange
begin

text \<open>
  \<open>make_dcrs_distributed\<close> of coloring/dcrs\_utils.h: the ranks hold disjoint sets of cells and build
  the rows of the cell adjacency graph for their own cells.  Vertices are distributed over the ranks
  by \<open>subdivide\<close>; every rank tells the owner of a vertex which of its cells have that vertex, and the
  owner answers with all cells that have it.
\<close>

section \<open>The routine\<close>

text \<open>
  What a rank asks its \<open>parallel_mesh_definition_u\<close>: the number of cells, the vertices of the cells
  as local ids, and the global ids of the vertices.
\<close>

record rank_mesh =
  mesh_num :: nat
  mesh_crs :: crs
  mesh_l2g :: "nat list"

type_synonym adjacency = "(nat, nat list) std_map"

definition cell_vertices :: "rank_mesh \<Rightarrow> nat \<Rightarrow> nat list outcome" where
  "cell_vertices md ic = and_then (crs_row (mesh_crs md) ic)
     (traverse (\<lambda>iv. if iv < length (mesh_l2g md) then ok (mesh_l2g md ! iv) else fail Undefined))"

definition add_at :: "nat \<Rightarrow> nat \<Rightarrow> adjacency \<Rightarrow> adjacency" where
  "add_at x v = std_modify [] v (\<lambda>xs. xs @ [x])"

definition local_vertex2cell :: "nat \<Rightarrow> rank_mesh \<Rightarrow> adjacency outcome" where
  "local_vertex2cell cells_start md = fold_outcome (\<lambda>ic vertex2cell.
     and_then (cell_vertices md ic) (\<lambda>vs. ok (fold (add_at (cells_start + ic)) vs vertex2cell)))
     [0..<mesh_num md] []"

definition remove_duplicates :: "adjacency \<Rightarrow> adjacency" where
  "remove_duplicates = map (\<lambda>(v, cells). (v, remdups_adj (sort cells)))"

definition vertex_messages :: "nat list \<Rightarrow> adjacency \<Rightarrow> message list outcome" where
  "vertex_messages vert_dist = traverse (\<lambda>(v, cells).
     and_then (rank_owner vert_dist v) (\<lambda>r. ok (r, v # length cells # cells)))"

definition take_cells :: "nat \<Rightarrow> nat \<Rightarrow> nat list \<Rightarrow> adjacency \<times> adjacency \<Rightarrow> (adjacency \<times> adjacency) outcome" where
  "take_cells r v cells = (\<lambda>(vertex2cell, vertex2rank).
     ok (fold (\<lambda>cell. add_at cell v) cells vertex2cell, add_at r v vertex2rank))"

definition receive_cells :: "nat \<Rightarrow> mail \<Rightarrow> adjacency \<times> adjacency \<Rightarrow> (adjacency \<times> adjacency) outcome" where
  "receive_cells n mail =
     fold_outcome (\<lambda>r. read_tagged Assert_failed (take_cells r) (received mail r)) [0..<n]"

definition reply_messages :: "nat \<Rightarrow> adjacency \<times> adjacency \<Rightarrow> message list outcome" where
  "reply_messages self = (\<lambda>(vertex2cell, vertex2rank).
     and_then (traverse (\<lambda>(v, ranks). traverse (\<lambda>r.
         if r = self then ok (r, [])
         else and_then (std_at vertex2cell v) (\<lambda>cells. ok (r, v # length cells # cells))) ranks) vertex2rank)
       (\<lambda>ms. ok (concat ms)))"

definition count_cells :: "nat \<Rightarrow> adjacency \<Rightarrow> nat list \<Rightarrow> (nat, nat) std_map outcome" where
  "count_cells cell vertex2cell vs = fold_outcome (\<lambda>v counts.
     and_then (std_at vertex2cell v) (\<lambda>others. ok (fold (\<lambda>other counts.
       if other \<noteq> cell then std_modify 0 other (\<lambda>n. n + 1) counts else counts) others counts))) vs []"

definition distributed_row :: "nat \<Rightarrow> rank_mesh \<Rightarrow> nat \<Rightarrow> adjacency \<Rightarrow> nat \<Rightarrow> dcrs \<Rightarrow> dcrs outcome" where
  "distributed_row min_connections md cells_start vertex2cell ic d =
     and_then (cell_vertices md ic) (\<lambda>vs.
     and_then (count_cells (cells_start + ic) vertex2cell vs) (\<lambda>counts.
     let row = map fst (filter (\<lambda>(other, n). min_connections \<le> n) counts)
     in ok (d\<lparr>crs_indices := crs_indices d @ row, crs_offsets := crs_offsets d @ [last (crs_offsets d) + length row]\<rparr>)))"

definition distributed_rows :: "nat \<Rightarrow> rank_mesh \<Rightarrow> nat list \<Rightarrow> nat \<Rightarrow> adjacency \<Rightarrow> dcrs outcome" where
  "distributed_rows min_connections md dist cells_start vertex2cell =
     fold_outcome (distributed_row min_connections md cells_start vertex2cell) [0..<mesh_num md]
       \<lparr>crs_offsets = [0], crs_indices = [], distribution = dist\<rparr>"

definition make_dcrs_distributed :: "mpi \<Rightarrow> nat \<Rightarrow> rank_mesh list \<Rightarrow> dcrs list outcome" where
  "make_dcrs_distributed c min_connections mds =
     (let n = length mds;
          dists = map displacements (mpi_allgather c (map mesh_num mds));
          max_ids = mpi_allreduce_max c (map (\<lambda>md. fold max (mesh_l2g md) 0) mds)
      in
        and_then (traverse (\<lambda>r. subdivide ((max_ids ! r + 1) mod 2 ^ 64) n []) [0..<n]) (\<lambda>vert_dists.
        and_then (traverse (\<lambda>r. local_vertex2cell (dists ! r ! r) (mds ! r)) [0..<n]) (\<lambda>maps.
        let maps = map remove_duplicates maps in
        and_then (traverse (\<lambda>r. vertex_messages (vert_dists ! r) (maps ! r)) [0..<n]) (\<lambda>messages.
        and_then (post c messages) (\<lambda>mails.
        and_then (traverse (\<lambda>r. receive_cells n (mails ! r) (maps ! r, [])) [0..<n]) (\<lambda>states.
        let states = map (\<lambda>(vertex2cell, vertex2rank). (remove_duplicates vertex2cell, vertex2rank)) states in
        and_then (traverse (\<lambda>r. reply_messages r (states ! r)) [0..<n]) (\<lambda>messages.
        and_then (post c messages) (\<lambda>mails.
        and_then (traverse (\<lambda>r. receive_cells n (mails ! r) (states ! r)) [0..<n]) (\<lambda>states.
        traverse (\<lambda>r. distributed_rows min_connections (mds ! r) (dists ! r) (dists ! r ! r)
          (remove_duplicates (fst (states ! r)))) [0..<n])))))))))"

section \<open>Maps of sets\<close>

text \<open>
  For the correctness only the set under a key matters: \<open>holds m f\<close>.  After removing duplicates
  the entry is the ascending list of that set: \<open>tidy m f\<close>.
\<close>

definition holds :: "adjacency \<Rightarrow> (nat \<Rightarrow> nat set) \<Rightarrow> bool" where
  "holds m f \<longleftrightarrow> std_wf m \<and> (\<forall>v. map_of m v = None \<longleftrightarrow> f v = {}) \<and> (\<forall>v. set (row_of m v) = f v)"

definition tidy :: "adjacency \<Rightarrow> (nat \<Rightarrow> nat set) \<Rightarrow> bool" where
  "tidy m f \<longleftrightarrow> std_wf m \<and> (\<forall>v. finite (f v)) \<and>
     (\<forall>v. map_of m v = (if f v = {} then None else Some (sorted_list_of_set (f v))))"

lemma holds_empty [simp]: "holds [] (\<lambda>v. {})"
  by (simp add: holds_def)

lemma holds_cong: "holds m f \<Longrightarrow> (\<And>v. f v = g v) \<Longrightarrow> holds m g"
  by (simp add: holds_def)

lemma holds_add: "holds m f \<Longrightarrow> holds (add_at x v m) (f(v := insert x (f v)))"
  by (auto simp: holds_def add_at_def map_of_std_modify row_of_modify)

lemma holds_add_everywhere:
  "holds m f \<Longrightarrow> holds (fold (add_at x) vs m) (\<lambda>v. f v \<union> (if v \<in> set vs then {x} else {}))"
proof (induction vs arbitrary: m f)
  case (Cons v vs)
  have "holds (fold (add_at x) (v # vs) m) (\<lambda>w. (f(v := insert x (f v))) w \<union> (if w \<in> set vs then {x} else {}))"
    using Cons.IH[OF holds_add[OF Cons.prems, of x v]] by simp
  then show ?case by (rule holds_cong) auto
qed simp

lemma holds_add_all:
  "holds m f \<Longrightarrow> xs \<noteq> [] \<or> f v \<noteq> {} \<Longrightarrow> holds (fold (\<lambda>x. add_at x v) xs m) (f(v := f v \<union> set xs))"
proof (induction xs arbitrary: m f)
  case (Cons x xs)
  have "(f(v := insert x (f v)))(v := (f(v := insert x (f v))) v \<union> set xs) = f(v := f v \<union> set (x # xs))"
    by auto
  then show ?case using Cons.IH[OF holds_add[OF Cons.prems(1), of x v]] by (simp only: fold_Cons comp_apply) simp
qed simp

lemma tidy_holds: "tidy m f \<Longrightarrow> holds m f"
  by (auto simp: tidy_def holds_def row_of_def)

lemma remove_duplicates_tidy: "holds m f \<Longrightarrow> tidy (remove_duplicates m) f"
proof -
  assume h: "holds m f"
  have k: "keys (remove_duplicates m) = keys m" by (simp add: remove_duplicates_def comp_def split_def)
  have mo: "map_of (remove_duplicates m) v = map_option (\<lambda>cs. remdups_adj (sort cs)) (map_of m v)" for v
    by (induction m) (auto simp: remove_duplicates_def)
  have "remdups_adj (sort cs) = sorted_list_of_set (set cs)" for cs :: "nat list"
    using unique_adj_sort[of cs] by (simp add: unique_adj_def)
  moreover have "set cs = f v" if "map_of m v = Some cs" for cs v
    using h that unfolding holds_def row_of_def by (metis option.simps(5))
  moreover have "finite (f v)" for v using h unfolding holds_def by (metis List.finite_set)
  moreover have "std_wf (remove_duplicates m)" using h k by (simp add: holds_def std_wf_def)
  ultimately show ?thesis
    using h by (auto simp: tidy_def mo holds_def split: option.splits)
qed

lemma tidy_entries: "tidy m f \<Longrightarrow> (v, cs) \<in> set m \<longleftrightarrow> f v \<noteq> {} \<and> cs = sorted_list_of_set (f v)"
proof -
  assume t: "tidy m f"
  then have "distinct (keys m)" by (simp add: tidy_def std_wf_distinct)
  then have "(v, cs) \<in> set m \<longleftrightarrow> map_of m v = Some cs" by simp
  then show ?thesis using t by (auto simp: tidy_def)
qed


section \<open>The steps of the routine\<close>

subsection \<open>Local cells\<close>

text \<open>\<open>rows\<close> are the cells of the rank as lists of global vertex ids, the largest \<open>size_t\<close> being no id.\<close>

definition mesh_has :: "rank_mesh \<Rightarrow> nat list list \<Rightarrow> bool" where
  "mesh_has md rows \<longleftrightarrow> (\<exists>local. length local = mesh_num md \<and> (local \<noteq> [] \<longrightarrow> mesh_crs md = crs_of local) \<and>
     (\<forall>row\<in>set local. \<forall>v\<in>set row. v < length (mesh_l2g md)) \<and> rows = map (map ((!) (mesh_l2g md))) local) \<and>
     (\<forall>v\<in>set (mesh_l2g md). v < 2 ^ 64 - 1)"

lemma mesh_has_ids: "mesh_has md rows \<Longrightarrow> v \<in> set (mesh_l2g md) \<Longrightarrow> v < 2 ^ 64 - 1"
  by (simp add: mesh_has_def)

lemma mesh_has_num: "mesh_has md rows \<Longrightarrow> mesh_num md = length rows"
  by (auto simp: mesh_has_def)

lemma cell_vertices_rows: "mesh_has md rows \<Longrightarrow> ic < length rows \<Longrightarrow> cell_vertices md ic = ok (rows ! ic)"
proof -
  assume h: "mesh_has md rows" "ic < length rows"
  then obtain local where l: "length local = length rows" "mesh_crs md = crs_of local"
    "\<forall>row\<in>set local. \<forall>v\<in>set row. v < length (mesh_l2g md)" "rows = map (map ((!) (mesh_l2g md))) local"
    by (auto simp: mesh_has_def)
  have "\<forall>v\<in>set (local ! ic). v < length (mesh_l2g md)" using l(1,3) h(2) by (metis nth_mem)
  then have "traverse (\<lambda>iv. if iv < length (mesh_l2g md) then ok (mesh_l2g md ! iv) else fail Undefined) (local ! ic)
      = ok (map ((!) (mesh_l2g md)) (local ! ic))"
    by (intro traverse_ok) simp
  then show ?thesis using l h by (simp add: cell_vertices_def crs_row_rows)
qed

lemma mesh_vertex_bound: "mesh_has md rows \<Longrightarrow> row \<in> set rows \<Longrightarrow> v \<in> set row \<Longrightarrow> v \<in> set (mesh_l2g md)"
  by (auto simp: mesh_has_def)

lemma local_vertex2cell_holds:
  assumes "mesh_has md rows"
  shows "\<exists>m. local_vertex2cell st md = ok m \<and>
    holds m (\<lambda>v. (\<lambda>ic. st + ic) ` {ic. ic < length rows \<and> v \<in> set (rows ! ic)})"
proof -
  have "k \<le> length rows \<Longrightarrow> \<exists>m. fold_outcome (\<lambda>ic vertex2cell. and_then (cell_vertices md ic)
      (\<lambda>vs. ok (fold (add_at (st + ic)) vs vertex2cell))) [0..<k] [] = ok m \<and>
    holds m (\<lambda>v. (\<lambda>ic. st + ic) ` {ic. ic < k \<and> v \<in> set (rows ! ic)})" for k
  proof (induction k)
    case (Suc k)
    then obtain m where m: "fold_outcome (\<lambda>ic vertex2cell. and_then (cell_vertices md ic)
        (\<lambda>vs. ok (fold (add_at (st + ic)) vs vertex2cell))) [0..<k] [] = ok m"
      "holds m (\<lambda>v. (\<lambda>ic. st + ic) ` {ic. ic < k \<and> v \<in> set (rows ! ic)})" by auto
    let ?m = "fold (add_at (st + k)) (rows ! k) m"
    have "holds ?m (\<lambda>v. (\<lambda>ic. st + ic) ` {ic. ic < Suc k \<and> v \<in> set (rows ! ic)})"
      using holds_add_everywhere[OF m(2)] by (rule holds_cong) (auto simp: less_Suc_eq)
    then show ?case using m(1) Suc.prems cell_vertices_rows[OF assms, of k] by auto
  qed simp
  from this[of "length rows"] show ?thesis using mesh_has_num[OF assms] by (simp add: local_vertex2cell_def)
qed

subsection \<open>Messages\<close>

lemma vertex_messages_tidy:
  assumes "tidy m f" "\<And>v. f v \<noteq> {} \<Longrightarrow> rank_owner dist v = ok (owner v)"
  shows "vertex_messages dist m = ok (map (\<lambda>vc. (owner (fst vc), tagged vc)) m)"
proof -
  have "rank_owner dist v = ok (owner v)" if "(v, cs) \<in> set m" for v cs
    using that assms(2) by (simp add: tidy_entries[OF assms(1)])
  then show ?thesis
    unfolding vertex_messages_def by (intro traverse_ok) (auto simp: tagged_def)
qed

lemma letter_tagged:
  "letter self (map (\<lambda>p. (fst p, tagged (snd p))) ps) r
   = concat (map tagged (if r = self then [] else map snd (filter (\<lambda>p. fst p = r) ps)))"
  by (induction ps) (auto simp: letter_def)

lemma receive_segment:
  assumes "holds v2c f" "holds v2r g" "\<forall>(v, cs)\<in>set ms. cs \<noteq> []"
  shows "\<exists>v2c' v2r'. fold_outcome (\<lambda>(v, cells). take_cells r v cells) ms (v2c, v2r) = ok (v2c', v2r') \<and>
    holds v2c' (\<lambda>v. f v \<union> {c. \<exists>cs. (v, cs) \<in> set ms \<and> c \<in> set cs}) \<and>
    holds v2r' (\<lambda>v. g v \<union> (if \<exists>cs. (v, cs) \<in> set ms then {r} else {}))"
  using assms
proof (induction ms arbitrary: v2c v2r f g)
  case (Cons m ms)
  obtain w cs where m: "m = (w, cs)" by (cases m)
  have c: "holds (fold (\<lambda>cell. add_at cell w) cs v2c) (f(w := f w \<union> set cs))"
    using Cons.prems m by (intro holds_add_all) auto
  have r: "holds (add_at r w v2r) (g(w := insert r (g w)))" by (rule holds_add[OF Cons.prems(2)])
  obtain v2c' v2r' where *: "fold_outcome (\<lambda>(v, cells). take_cells r v cells) ms
      (fold (\<lambda>cell. add_at cell w) cs v2c, add_at r w v2r) = ok (v2c', v2r')"
    "holds v2c' (\<lambda>v. (f(w := f w \<union> set cs)) v \<union> {c. \<exists>cs. (v, cs) \<in> set ms \<and> c \<in> set cs})"
    "holds v2r' (\<lambda>v. (g(w := insert r (g w))) v \<union> (if \<exists>cs. (v, cs) \<in> set ms then {r} else {}))"
    using Cons.IH[OF c r] Cons.prems(3) by auto
  have "holds v2c' (\<lambda>v. f v \<union> {c. \<exists>cs. (v, cs) \<in> set (m # ms) \<and> c \<in> set cs})"
    using *(2) by (rule holds_cong) (auto simp: m)
  moreover have "holds v2r' (\<lambda>v. g v \<union> (if \<exists>cs. (v, cs) \<in> set (m # ms) then {r} else {}))"
    using *(3) by (rule holds_cong) (auto simp: m)
  ultimately show ?case using *(1) by (simp add: m take_cells_def)
qed simp

lemma receive_cells_holds:
  assumes "holds v2c f" "holds v2r g" "\<forall>r<n. \<forall>(v, cs)\<in>set (L r). cs \<noteq> []"
    and "mail = mail_of (map (\<lambda>r. concat (map tagged (L r))) [0..<n])"
  shows "\<exists>v2c' v2r'. receive_cells n mail (v2c, v2r) = ok (v2c', v2r') \<and>
    holds v2c' (\<lambda>v. f v \<union> {c. \<exists>r cs. r < n \<and> (v, cs) \<in> set (L r) \<and> c \<in> set cs}) \<and>
    holds v2r' (\<lambda>v. g v \<union> {r. r < n \<and> (\<exists>cs. (v, cs) \<in> set (L r))})"
proof -
  have "k \<le> n \<Longrightarrow> \<exists>v2c' v2r'. fold_outcome (\<lambda>r. read_tagged Assert_failed (take_cells r) (received mail r)) [0..<k] (v2c, v2r)
        = ok (v2c', v2r') \<and>
      holds v2c' (\<lambda>v. f v \<union> {c. \<exists>r cs. r < k \<and> (v, cs) \<in> set (L r) \<and> c \<in> set cs}) \<and>
      holds v2r' (\<lambda>v. g v \<union> {r. r < k \<and> (\<exists>cs. (v, cs) \<in> set (L r))})" for k
  proof (induction k)
    case 0
    then show ?case using assms(1,2) by simp
  next
    case (Suc k)
    then obtain a b where ab: "fold_outcome (\<lambda>r. read_tagged Assert_failed (take_cells r) (received mail r)) [0..<k] (v2c, v2r)
        = ok (a, b)"
      "holds a (\<lambda>v. f v \<union> {c. \<exists>r cs. r < k \<and> (v, cs) \<in> set (L r) \<and> c \<in> set cs})"
      "holds b (\<lambda>v. g v \<union> {r. r < k \<and> (\<exists>cs. (v, cs) \<in> set (L r))})" by auto
    have "received mail k = concat (map tagged (L k))" using Suc.prems assms(4) by simp
    then have step: "read_tagged Assert_failed (take_cells k) (received mail k) (a, b)
        = fold_outcome (\<lambda>(v, cells). take_cells k v cells) (L k) (a, b)"
      by (simp add: read_tagged_rows)
    have ne: "\<forall>(v, cs)\<in>set (L k). cs \<noteq> []" using assms(3) Suc.prems Suc_le_lessD by blast
    obtain a' b' where ab': "fold_outcome (\<lambda>(v, cells). take_cells k v cells) (L k) (a, b) = ok (a', b')"
      "holds a' (\<lambda>v. (f v \<union> {c. \<exists>r cs. r < k \<and> (v, cs) \<in> set (L r) \<and> c \<in> set cs}) \<union> {c. \<exists>cs. (v, cs) \<in> set (L k) \<and> c \<in> set cs})"
      "holds b' (\<lambda>v. (g v \<union> {r. r < k \<and> (\<exists>cs. (v, cs) \<in> set (L r))}) \<union> (if \<exists>cs. (v, cs) \<in> set (L k) then {k} else {}))"
      using receive_segment[OF ab(2,3) ne, of k] by blast
    have "holds a' (\<lambda>v. f v \<union> {c. \<exists>r cs. r < Suc k \<and> (v, cs) \<in> set (L r) \<and> c \<in> set cs})"
      using ab'(2) by (rule holds_cong) (auto simp: less_Suc_eq)
    moreover have "holds b' (\<lambda>v. g v \<union> {r. r < Suc k \<and> (\<exists>cs. (v, cs) \<in> set (L r))})"
      using ab'(3) by (rule holds_cong) (auto simp: less_Suc_eq)
    ultimately show ?case using ab(1) ab'(1) step by simp
  qed
  from this[of n] show ?thesis by (simp add: receive_cells_def)
qed


lemma holds_entry: "holds m f \<Longrightarrow> (v, xs) \<in> set m \<Longrightarrow> set xs = f v"
proof -
  assume h: "holds m f" "(v, xs) \<in> set m"
  then have "map_of m v = Some xs" by (simp add: holds_def std_wf_distinct)
  then show ?thesis using h(1) unfolding holds_def row_of_def by (metis option.simps(5))
qed

lemma holds_mem: "holds m f \<Longrightarrow> x \<in> f v \<Longrightarrow> \<exists>xs. (v, xs) \<in> set m"
  unfolding holds_def by (metis empty_iff map_of_SomeD not_Some_eq)

lemma reply_messages_tidy:
  assumes f: "tidy v2c f" and g: "holds v2r g" and ranks: "\<And>v s. s \<in> g v \<Longrightarrow> s < n \<and> s \<noteq> self \<and> f v \<noteq> {}"
  shows "\<exists>ms. reply_messages self (v2c, v2r) = ok ms \<and> (\<forall>m\<in>set ms. fst m < n) \<and>
    (\<forall>s<n. \<exists>L. letter self ms s = concat (map tagged L) \<and> set L = {(v, sorted_list_of_set (f v)) | v. s \<in> g v})"
proof -
  define ps where "ps = concat (map (\<lambda>(v, rs). map (\<lambda>r. (r, (v, sorted_list_of_set (f v)))) rs) v2r)"
  have entry: "set rs = g v" if "(v, rs) \<in> set v2r" for v rs by (rule holds_entry[OF g that])
  have one: "traverse (\<lambda>r. if r = self then ok (r, [])
      else and_then (std_at v2c v) (\<lambda>cells. ok (r, v # length cells # cells))) rs
    = ok (map (\<lambda>r. (r, tagged (v, sorted_list_of_set (f v)))) rs)" if "(v, rs) \<in> set v2r" for v rs
  proof (rule traverse_ok)
    fix r assume "r \<in> set rs"
    then have "r \<noteq> self" "f v \<noteq> {}" using entry[OF that] ranks by auto
    then show "(if r = self then ok (r, []) else and_then (std_at v2c v) (\<lambda>cells. ok (r, v # length cells # cells)))
        = ok (r, tagged (v, sorted_list_of_set (f v)))"
      using f by (simp add: tidy_def std_at_def tagged_def)
  qed
  have "traverse (\<lambda>(v, rs). traverse (\<lambda>r. if r = self then ok (r, [])
      else and_then (std_at v2c v) (\<lambda>cells. ok (r, v # length cells # cells))) rs) v2r
    = ok (map (\<lambda>(v, rs). map (\<lambda>r. (r, tagged (v, sorted_list_of_set (f v)))) rs) v2r)"
    by (rule traverse_ok) (use one in auto)
  moreover have "concat (map (\<lambda>(v, rs). map (\<lambda>r. (r, tagged (v, sorted_list_of_set (f v)))) rs) v2r)
      = map (\<lambda>p. (fst p, tagged (snd p))) ps"
    by (simp add: ps_def map_concat comp_def split_def)
  ultimately have ms: "reply_messages self (v2c, v2r) = ok (map (\<lambda>p. (fst p, tagged (snd p))) ps)"
    by (simp add: reply_messages_def)
  have ps: "(r, (v, cs)) \<in> set ps \<longleftrightarrow> r \<in> g v \<and> cs = sorted_list_of_set (f v)" for r v cs
  proof
    assume "(r, (v, cs)) \<in> set ps"
    then show "r \<in> g v \<and> cs = sorted_list_of_set (f v)" using entry by (auto simp: ps_def)
  next
    assume *: "r \<in> g v \<and> cs = sorted_list_of_set (f v)"
    then obtain rs where rs: "(v, rs) \<in> set v2r" using holds_mem[OF g] by blast
    then have "r \<in> set rs" using entry * by simp
    then show "(r, (v, cs)) \<in> set ps" using rs * by (auto simp: ps_def intro!: bexI[of _ "(v, rs)"])
  qed
  have dest: "\<forall>m\<in>set (map (\<lambda>p. (fst p, tagged (snd p))) ps). fst m < n" using ps ranks by fastforce
  have "\<exists>L. letter self (map (\<lambda>p. (fst p, tagged (snd p))) ps) s = concat (map tagged L) \<and>
      set L = {(v, sorted_list_of_set (f v)) | v. s \<in> g v}" for s
  proof (intro exI conjI)
    let ?L = "if s = self then [] else map snd (filter (\<lambda>p. fst p = s) ps)"
    show "letter self (map (\<lambda>p. (fst p, tagged (snd p))) ps) s = concat (map tagged ?L)" by (rule letter_tagged)
    show "set ?L = {(v, sorted_list_of_set (f v)) | v. s \<in> g v}"
    proof (cases "s = self")
      case True
      then show ?thesis using ranks by auto
    next
      case False
      then have "set ?L = {vc. (s, vc) \<in> set ps}" by force
      then show ?thesis by (auto simp: ps)
    qed
  qed
  then show ?thesis using ms dest by blast
qed

subsection \<open>Rows\<close>

definition meets :: "(nat \<Rightarrow> nat set) \<Rightarrow> nat list \<Rightarrow> nat \<Rightarrow> nat" where
  "meets f vs d = length (filter (\<lambda>v. d \<in> f v) vs)"

lemma count_cells_meets:
  assumes "\<forall>v\<in>set vs. map_of m v = Some (sorted_list_of_set (f v))" "\<And>v. finite (f v)"
  shows "\<exists>counts. count_cells c m vs = ok counts \<and> std_wf counts \<and>
    (\<forall>d. map_of counts d = (if d \<noteq> c \<and> 0 < meets f vs d then Some (meets f vs d) else None))"
  using assms(1)
proof (induction vs rule: rev_induct)
  case Nil
  then show ?case by (simp add: count_cells_def meets_def)
next
  case (snoc v vs)
  then obtain counts where c: "count_cells c m vs = ok counts" "std_wf counts"
    "\<forall>d. map_of counts d = (if d \<noteq> c \<and> 0 < meets f vs d then Some (meets f vs d) else None)" by auto
  let ?add = "\<lambda>others counts. fold (\<lambda>other counts. if other \<noteq> c then std_modify 0 other (\<lambda>n. n + 1) counts else counts) others counts"
  let ?others = "sorted_list_of_set (f v)"
  have "count_cells c m (vs @ [v]) = ok (?add ?others counts)"
    using c(1) snoc.prems by (simp add: count_cells_def std_at_def)
  moreover have "std_wf (?add ?others counts)" by (rule fold_count_wf[OF c(2)])
  moreover have "map_of (?add ?others counts) d
      = (if d \<noteq> c \<and> 0 < meets f (vs @ [v]) d then Some (meets f (vs @ [v]) d) else None)" for d
  proof -
    have "count_list ?others d = (if d \<in> f v then 1 else 0)"
      using assms(2)[of v] by (simp add: count_list_distinct)
    then show ?thesis using c(3)[rule_format, of d] assms(2)[of v]
      by (cases "d = c") (simp_all add: fold_count_others meets_def)
  qed
  ultimately show ?case by blast
qed

lemma filtered_keys:
  assumes "std_wf m" "\<forall>d. map_of m d = (if P d then Some (k d) else None)" "\<And>d. P d \<Longrightarrow> d < N"
  shows "map fst (filter (\<lambda>(d, n). q \<le> n) m) = filter (\<lambda>d. P d \<and> q \<le> k d) [0..<N]"
proof -
  have d: "distinct (keys m)" and so: "sorted_wrt (<) (keys m)" using assms(1) by (simp_all add: std_wf_distinct std_wf_def)
  have "sorted_wrt (<) (map fst (filter (\<lambda>(d, n). q \<le> n) m))"
    using so by (simp add: sorted_wrt_map sorted_wrt_filter)
  moreover have "sorted_wrt (<) (filter (\<lambda>d. P d \<and> q \<le> k d) [0..<N])" by (simp add: sorted_wrt_filter)
  moreover have "set (map fst (filter (\<lambda>(d, n). q \<le> n) m)) = set (filter (\<lambda>d. P d \<and> q \<le> k d) [0..<N])"
  proof -
    have "(d, n) \<in> set m \<longleftrightarrow> P d \<and> n = k d" for n d
      using map_of_eq_Some_iff[OF d, of d n] assms(2)[rule_format, of d] by (cases "P d") auto
    then show ?thesis using assms(3) by force
  qed
  ultimately show ?thesis by (metis strict_sorted_equal)
qed

lemma distributed_rows_dcrs:
  assumes md: "mesh_has md rows" and m: "tidy m f" and q: "0 < q"
    and all: "\<And>row v. row \<in> set rows \<Longrightarrow> v \<in> set row \<Longrightarrow> f v \<noteq> {} \<and> f v = F v" and F: "\<And>v. F v \<subseteq> {..<N}"
  shows "distributed_rows q md dist st m
    = ok (dcrs_of (map (\<lambda>ic. filter (\<lambda>d. d \<noteq> st + ic \<and> q \<le> meets F (rows ! ic) d) [0..<N]) [0..<length rows]) dist)"
proof -
  let ?row = "\<lambda>ic. filter (\<lambda>d. d \<noteq> st + ic \<and> q \<le> meets F (rows ! ic) d) [0..<N]"
  have step: "distributed_row q md st m ic d = ok (d\<lparr>crs_indices := crs_indices d @ ?row ic,
      crs_offsets := crs_offsets d @ [last (crs_offsets d) + length (?row ic)]\<rparr>)" if ic: "ic < length rows" for ic d
  proof -
    have F': "\<forall>v\<in>set (rows ! ic). map_of m v = Some (sorted_list_of_set (F v))"
    proof
      fix v assume "v \<in> set (rows ! ic)"
      from all[OF nth_mem[OF ic] this] show "map_of m v = Some (sorted_list_of_set (F v))"
        using m unfolding tidy_def by metis
    qed
    have "finite (F v)" for v using F finite_subset by blast
    then obtain counts where c: "count_cells (st + ic) m (rows ! ic) = ok counts" "std_wf counts"
      "\<forall>d. map_of counts d = (if d \<noteq> st + ic \<and> 0 < meets F (rows ! ic) d then Some (meets F (rows ! ic) d) else None)"
      using count_cells_meets[OF F'] by blast
    have "d < N" if "d \<noteq> st + ic \<and> 0 < meets F (rows ! ic) d" for d
      using that F by (auto simp: meets_def filter_empty_conv)
    from filtered_keys[OF c(2,3) this, of q]
    have row: "map fst (filter (\<lambda>(d, n). q \<le> n) counts) = ?row ic"
      using q by (auto intro: filter_cong)
    show ?thesis
      by (simp only: distributed_row_def cell_vertices_rows[OF md ic] and_then.simps c(1) Let_def row)
  qed
  have "k \<le> length rows \<Longrightarrow> fold_outcome (distributed_row q md st m) [0..<k]
      \<lparr>crs_offsets = [0], crs_indices = [], distribution = dist\<rparr> = ok (dcrs_of (map ?row [0..<k]) dist)" for k
  proof (induction k)
    case 0
    then show ?case by (simp add: dcrs_of_def offsets_of_def)
  next
    case (Suc k)
    then show ?case using step[of k] by (simp add: dcrs_of_def offsets_of_snoc last_offsets_of)
  qed
  from this[of "length rows"] show ?thesis using mesh_has_num[OF md] by (simp add: distributed_rows_def)
qed


section \<open>The two rounds\<close>

text \<open>The set of global cells a rank knows under a vertex: its own, after the first exchange (the
  owner of the vertex then knows all) and after the second one.\<close>

definition own_cells :: "nat list list list \<Rightarrow> nat \<Rightarrow> nat \<Rightarrow> nat set" where
  "own_cells cells r v =
     (\<lambda>ic. displacements (map length cells) ! r + ic) ` {ic. ic < length (cells ! r) \<and> v \<in> set (cells ! r ! ic)}"

definition senders :: "nat list list list \<Rightarrow> (nat \<Rightarrow> nat) \<Rightarrow> nat \<Rightarrow> nat \<Rightarrow> nat set" where
  "senders cells owner r v = {s. s < length cells \<and> s \<noteq> r \<and> owner v = r \<and> own_cells cells s v \<noteq> {}}"

definition gathered :: "nat list list list \<Rightarrow> (nat \<Rightarrow> nat) \<Rightarrow> nat \<Rightarrow> nat \<Rightarrow> nat set" where
  "gathered cells owner r v = own_cells cells r v \<union> (\<Union>s\<in>senders cells owner r v. own_cells cells s v)"

definition answered :: "nat list list list \<Rightarrow> (nat \<Rightarrow> nat) \<Rightarrow> nat \<Rightarrow> nat \<Rightarrow> nat set" where
  "answered cells owner r v = gathered cells owner r v \<union>
     (\<Union>s\<in>{s. s < length cells \<and> r \<in> senders cells owner s v}. gathered cells owner s v)"

lemma first_round:
  assumes c: "mpi_works n c" and len: "length cells = n" "length maps = n"
    and tidies: "\<forall>r<n. tidy (maps ! r) (own_cells cells r)"
    and owners: "\<forall>r<n. \<forall>v. own_cells cells r v \<noteq> {} \<longrightarrow> rank_owner dist v = ok (owner v) \<and> owner v < n"
  shows "\<exists>states. and_then (traverse (\<lambda>r. vertex_messages dist (maps ! r)) [0..<n]) (\<lambda>messages.
      and_then (post c messages) (\<lambda>mails. traverse (\<lambda>r. receive_cells n (mails ! r) (maps ! r, [])) [0..<n])) = ok states \<and>
    length states = n \<and> (\<forall>r<n. holds (fst (states ! r)) (gathered cells owner r) \<and> holds (snd (states ! r)) (senders cells owner r))"
proof -
  note tidy = tidies[rule_format] and owner = owners[rule_format]
  define ps where "ps r = map (\<lambda>vc. (owner (fst vc), vc)) (maps ! r)" for r
  define L where "L r s = (if r = s then [] else map snd (filter (\<lambda>p. fst p = r) (ps s)))" for r s
  define msgs where "msgs = map (\<lambda>r. map (\<lambda>p. (fst p, tagged (snd p))) (ps r)) [0..<n]"
  have m: "traverse (\<lambda>r. vertex_messages dist (maps ! r)) [0..<n] = ok msgs"
    unfolding msgs_def ps_def using vertex_messages_tidy[OF tidy, of _ dist owner] owner
    by (intro traverse_ok) (simp add: comp_def)
  have "\<forall>m\<in>set (msgs ! s). fst m < n" if "s < n" for s
    using that tidy_entries[OF tidy[OF that]] owner[OF that] by (auto simp: msgs_def ps_def)
  then have mails: "post c msgs = ok (map (\<lambda>r. mail_of (map (\<lambda>s. concat (map tagged (L r s))) [0..<n])) [0..<n])"
    by (intro post_letters[OF c]) (simp_all add: msgs_def L_def letter_tagged)
  have L: "(v, cs) \<in> set (L r s) \<longleftrightarrow> s \<in> senders cells owner r v \<and> cs = sorted_list_of_set (own_cells cells s v)"
    if "s < n" for r s v cs
    using tidy_entries[OF tidy[OF that], of v cs] that len(1) by (auto simp: L_def ps_def senders_def image_iff)
  have fin: "finite (own_cells cells s v)" for s v by (simp add: own_cells_def)
  let ?mails = "map (\<lambda>r. mail_of (map (\<lambda>s. concat (map tagged (L r s))) [0..<n])) [0..<n]"
  have "\<exists>st. receive_cells n (?mails ! r) (maps ! r, []) = ok st \<and>
      holds (fst st) (gathered cells owner r) \<and> holds (snd st) (senders cells owner r)" if r: "r < n" for r
  proof -
    have "cs \<noteq> []" if "s < n" "(v, cs) \<in> set (L r s)" for s v cs
      using that(2) sorted_list_nonempty[OF fin, of s v] unfolding L[OF that(1)] senders_def by simp
    then have ne: "\<forall>s<n. \<forall>(v, cs)\<in>set (L r s). cs \<noteq> []" by blast
    obtain a b where ab: "receive_cells n (mail_of (map (\<lambda>s. concat (map tagged (L r s))) [0..<n])) (maps ! r, []) = ok (a, b)"
      "holds a (\<lambda>v. own_cells cells r v \<union> {x. \<exists>s cs. s < n \<and> (v, cs) \<in> set (L r s) \<and> x \<in> set cs})"
      "holds b (\<lambda>v. {} \<union> {s. s < n \<and> (\<exists>cs. (v, cs) \<in> set (L r s))})"
      using receive_cells_holds[OF tidy_holds[OF tidy[OF r]] holds_empty ne refl] by blast
    have "(\<exists>s cs. s < n \<and> (v, cs) \<in> set (L r s) \<and> x \<in> set cs) \<longleftrightarrow> (\<exists>s\<in>senders cells owner r v. x \<in> own_cells cells s v)" for x v
    proof
      assume "\<exists>s\<in>senders cells owner r v. x \<in> own_cells cells s v"
      then obtain s where s: "s \<in> senders cells owner r v" "x \<in> own_cells cells s v" by blast
      then have "s < n" "x \<in> set (sorted_list_of_set (own_cells cells s v))" using len(1) fin by (auto simp: senders_def)
      then show "\<exists>s cs. s < n \<and> (v, cs) \<in> set (L r s) \<and> x \<in> set cs" using L s(1) by blast
    qed (use L fin in auto)
    then have "holds a (gathered cells owner r)"
      using ab(2) by (intro holds_cong[OF ab(2)]) (simp add: gathered_def UNION_eq)
    moreover have "holds b (senders cells owner r)"
      using ab(3) by (rule holds_cong) (use L len(1) in \<open>auto simp: senders_def\<close>)
    ultimately show ?thesis using ab(1) r by auto
  qed
  from traverse_choice[of n "\<lambda>r. receive_cells n (?mails ! r) (maps ! r, [])"
      "\<lambda>r st. holds (fst st) (gathered cells owner r) \<and> holds (snd st) (senders cells owner r)", OF this]
  show ?thesis unfolding m and_then.simps mails by blast
qed

lemma second_round:
  assumes c: "mpi_works n c" and len: "length cells = n" "length states = n"
    and sts: "\<forall>r<n. tidy (fst (states ! r)) (gathered cells owner r) \<and> holds (snd (states ! r)) (senders cells owner r)"
  shows "\<exists>states'. and_then (traverse (\<lambda>r. reply_messages r (states ! r)) [0..<n]) (\<lambda>messages.
      and_then (post c messages) (\<lambda>mails. traverse (\<lambda>r. receive_cells n (mails ! r) (states ! r)) [0..<n])) = ok states' \<and>
    length states' = n \<and> (\<forall>r<n. holds (fst (states' ! r)) (answered cells owner r))"
proof -
  have v2c: "tidy (fst (states ! r)) (gathered cells owner r)" and v2r: "holds (snd (states ! r)) (senders cells owner r)"
    if "r < n" for r using sts that by simp_all
  have ranks: "s < n \<and> s \<noteq> r \<and> gathered cells owner r v \<noteq> {}" if "s \<in> senders cells owner r v" for r s v
    using that len(1) by (auto simp: senders_def gathered_def)
  let ?P = "\<lambda>r ms. (\<forall>m\<in>set ms. fst m < n) \<and>
      (\<forall>s<n. \<exists>L. letter r ms s = concat (map tagged L) \<and>
        set L = {(v, sorted_list_of_set (gathered cells owner r v)) | v. s \<in> senders cells owner r v})"
  have "\<exists>ms. reply_messages r (states ! r) = ok ms \<and> ?P r ms" if "r < n" for r
    using reply_messages_tidy[OF v2c[OF that] v2r[OF that], of n r] ranks by simp
  then have "\<exists>msgs. traverse (\<lambda>r. reply_messages r (states ! r)) [0..<n] = ok msgs \<and> length msgs = n \<and>
      (\<forall>r<n. reply_messages r (states ! r) = ok (msgs ! r) \<and> ?P r (msgs ! r))" by (rule traverse_choice)
  then obtain msgs where m: "traverse (\<lambda>r. reply_messages r (states ! r)) [0..<n] = ok msgs" "length msgs = n"
    and msgs: "\<forall>r<n. reply_messages r (states ! r) = ok (msgs ! r) \<and> ?P r (msgs ! r)"
    by (elim exE conjE)
  let ?L = "\<lambda>r s L. letter r (msgs ! r) s = concat (map tagged L) \<and>
      set L = {(v, sorted_list_of_set (gathered cells owner r v)) | v. s \<in> senders cells owner r v}"
  define L where "L r s = (SOME L. ?L r s L)" for r s
  have L: "?L r s (L r s)" if "r < n" "s < n" for r s
    using someI_ex[of "?L r s"] msgs[rule_format, OF that(1)] that(2) unfolding L_def by blast
  have mails: "post c msgs = ok (map (\<lambda>r. mail_of (map (\<lambda>s. concat (map tagged (L s r))) [0..<n])) [0..<n])"
    using L msgs by (intro post_letters[OF c m(2)]) simp_all
  have fin: "finite (gathered cells owner r v)" for r v by (auto simp: gathered_def own_cells_def senders_def)
  let ?mails = "map (\<lambda>r. mail_of (map (\<lambda>s. concat (map tagged (L s r))) [0..<n])) [0..<n]"
  have "\<exists>st. receive_cells n (?mails ! r) (states ! r) = ok st \<and>
      holds (fst st) (answered cells owner r)" if r: "r < n" for r
  proof -
    have "cs \<noteq> []" if "s < n" "(v, cs) \<in> set (L s r)" for s v cs
      using that L[OF that(1) r] ranks[of r s v] sorted_list_nonempty[OF fin, of s v] by auto
    then have ne: "\<forall>s<n. \<forall>(v, cs)\<in>set (L s r). cs \<noteq> []" by blast
    obtain a b where ab: "receive_cells n (mail_of (map (\<lambda>s. concat (map tagged (L s r))) [0..<n])) (states ! r) = ok (a, b)"
      "holds a (\<lambda>v. gathered cells owner r v \<union> {x. \<exists>s cs. s < n \<and> (v, cs) \<in> set (L s r) \<and> x \<in> set cs})"
      using receive_cells_holds[OF tidy_holds[OF v2c[OF r]] v2r[OF r] ne refl] by (auto simp del: upt_Suc)
    have "holds a (answered cells owner r)"
      using ab(2) by (rule holds_cong) (use L r fin len(1) in \<open>auto simp: answered_def\<close>)
    then show ?thesis using ab(1) r by auto
  qed
  from traverse_choice[of n "\<lambda>r. receive_cells n (?mails ! r) (states ! r)"
      "\<lambda>r st. holds (fst st) (answered cells owner r)", OF this]
  show ?thesis unfolding m(1) and_then.simps mails by blast
qed


section \<open>Global numbering of the cells\<close>

lemma displacements_nth: "r \<le> length counts \<Longrightarrow> displacements counts ! r = sum_list (take r counts)"
proof (induction counts arbitrary: r rule: rev_induct)
  case Nil
  then show ?case by (simp add: displacements_def)
next
  case (snoc x counts)
  have last: "length (displacements xs) = Suc (length xs)" for xs
    by (induction xs rule: rev_induct) (simp_all add: displacements_def)
  then have "last (displacements counts) = displacements counts ! length counts"
    by (metis Suc_neq_Zero diff_Suc_1 last_conv_nth length_0_conv)
  then have "displacements (counts @ [x]) = displacements counts @ [sum_list counts + x]"
    using snoc.IH[of "length counts"] by (simp add: displacements_def)
  then show ?case using snoc last[of counts] by (simp add: nth_append)
qed

lemma global_start: "r \<le> length cells \<Longrightarrow> displacements (map length cells) ! r = length (concat (take r cells))"
  by (simp add: displacements_nth length_concat take_map)

lemma global_cell:
  assumes "r < length cells" "ic < length (cells ! r)"
  shows "displacements (map length cells) ! r + ic < length (concat cells)"
    and "concat cells ! (displacements (map length cells) ! r + ic) = cells ! r ! ic"
proof -
  have c: "concat cells = concat (take r cells) @ cells ! r @ concat (drop (Suc r) cells)"
    by (rule concat_split[OF assms(1)])
  show "displacements (map length cells) ! r + ic < length (concat cells)"
    "concat cells ! (displacements (map length cells) ! r + ic) = cells ! r ! ic"
    using assms by (subst c; simp add: global_start nth_append)+
qed

lemma global_cell_cases:
  assumes "d < length (concat cells)"
  shows "\<exists>r ic. r < length cells \<and> ic < length (cells ! r) \<and> d = displacements (map length cells) ! r + ic"
proof -
  have "d < length (concat cells) \<Longrightarrow>
      \<exists>r ic. r < length cells \<and> ic < length (cells ! r) \<and> d = length (concat (take r cells)) + ic"
  proof (induction cells arbitrary: d rule: rev_induct)
    case (snoc x cells)
    show ?case
    proof (cases "d < length (concat cells)")
      case True
      from snoc.IH[OF this] obtain r ic where "r < length cells" "ic < length (cells ! r)"
        "d = length (concat (take r cells)) + ic" by blast
      then show ?thesis by (intro exI[of _ r] exI[of _ ic]) (simp add: nth_append)
    next
      case False
      then show ?thesis using snoc.prems
        by (intro exI[of _ "length cells"] exI[of _ "d - length (concat cells)"]) (simp add: nth_append)
    qed
  qed simp
  then obtain r ic where "r < length cells" "ic < length (cells ! r)" "d = length (concat (take r cells)) + ic"
    using assms by blast
  then show ?thesis by (intro exI[of _ r] exI[of _ ic]) (simp add: global_start)
qed

definition cells_with :: "nat list list list \<Rightarrow> nat \<Rightarrow> nat set" where
  "cells_with cells v = {d. d < length (concat cells) \<and> v \<in> set (concat cells ! d)}"

lemma own_cells_union: "(\<Union>r<length cells. own_cells cells r v) = cells_with cells v"
proof (intro equalityI subsetI)
  fix d assume "d \<in> cells_with cells v"
  then obtain r ic where r: "r < length cells" "ic < length (cells ! r)" "d = displacements (map length cells) ! r + ic"
    "v \<in> set (concat cells ! d)" using global_cell_cases[of d cells] by (auto simp: cells_with_def)
  then have "v \<in> set (cells ! r ! ic)" using global_cell(2)[OF r(1,2)] by simp
  then have "d \<in> own_cells cells r v" using r(2,3) by (simp add: own_cells_def)
  then show "d \<in> (\<Union>r<length cells. own_cells cells r v)" using r(1) by blast
qed (auto simp: own_cells_def cells_with_def global_cell)

text \<open>A rank that has a vertex ends up with all cells of that vertex.\<close>

lemma answered_complete:
  assumes r: "r < length cells" "own_cells cells r v \<noteq> {}" and o: "owner v < length cells"
  shows "answered cells owner r v = cells_with cells v"
proof -
  have sub: "gathered cells owner s v \<subseteq> cells_with cells v" if "s < length cells" for s
    using that by (auto simp: gathered_def senders_def simp flip: own_cells_union)
  have all: "cells_with cells v \<subseteq> gathered cells owner (owner v) v"
  proof
    fix d assume "d \<in> cells_with cells v"
    then obtain s where "s < length cells" "d \<in> own_cells cells s v" by (auto simp flip: own_cells_union)
    then show "d \<in> gathered cells owner (owner v) v"
      by (cases "s = owner v") (auto simp: gathered_def senders_def)
  qed
  have "answered cells owner r v \<subseteq> cells_with cells v"
    using sub r(1) by (auto simp: answered_def)
  moreover have "cells_with cells v \<subseteq> answered cells owner r v"
  proof (cases "owner v = r")
    case True
    then show ?thesis using all by (auto simp: answered_def)
  next
    case False
    then have "r \<in> senders cells owner (owner v) v" using r by (auto simp: senders_def)
    then show ?thesis using all o by (auto simp: answered_def)
  qed
  ultimately show ?thesis by blast
qed

lemma row_meets:
  assumes "r < length cells" "ic < length (cells ! r)" "0 < q"
  shows "filter (\<lambda>d. d \<noteq> displacements (map length cells) ! r + ic \<and> q \<le> meets (cells_with cells) (cells ! r ! ic) d)
      [0..<length (concat cells)]
    = neighbours (q - 1) ((!) (concat cells)) (length (concat cells)) (displacements (map length cells) ! r + ic)"
proof -
  have "meets (cells_with cells) (cells ! r ! ic) d = sharing ((!) (concat cells)) (displacements (map length cells) ! r + ic) d"
    if "d < length (concat cells)" for d
    using that by (simp add: meets_def cells_with_def sharing_def global_cell(2)[OF assms(1,2)])
  then show ?thesis using assms(3) unfolding neighbours_def by (intro filter_cong) auto
qed


lemma fold_max_ge: "a \<le> fold max xs a" "x \<in> set xs \<Longrightarrow> x \<le> fold max xs a" for a :: nat
proof -
  have "a \<le> fold max xs a \<and> (x \<in> set xs \<longrightarrow> x \<le> fold max xs a)" for x a
    by (induction xs arbitrary: a) (auto intro: order_trans[OF max.cobounded2] order_trans[OF max.cobounded1])
  then show "a \<le> fold max xs a" "x \<in> set xs \<Longrightarrow> x \<le> fold max xs a" by blast+
qed

lemma blocks_owner:
  assumes "0 < n" "n < 2 ^ 64 - 1" "v < tot"
  shows "\<exists>r<n. rank_owner (blocks tot n) v = ok r"
proof -
  have l: "length (blocks tot n) = Suc n" "sorted (blocks tot n)" "last (blocks tot n) = tot" "blocks tot n ! 0 = 0"
    using assms(1) by (simp_all add: blocks_props)
  moreover have "blocks tot n \<noteq> []" using l(1) by auto
  ultimately show ?thesis using rank_owner_correct[of "blocks tot n" v] assms by auto
qed

lemma final_rows:
  assumes r: "r < length cells" and md: "mesh_has md (cells ! r)" and q: "0 < q"
    and m: "holds m (answered cells owner r)" and owner: "\<forall>v. own_cells cells r v \<noteq> {} \<longrightarrow> owner v < length cells"
  shows "distributed_rows q md (displacements (map length cells)) (displacements (map length cells) ! r) (remove_duplicates m)
    = ok (dcrs_of (map (\<lambda>ic. neighbours (q - 1) ((!) (concat cells)) (length (concat cells))
        (displacements (map length cells) ! r + ic)) [0..<length (cells ! r)]) (displacements (map length cells)))"
proof -
  let ?dist = "displacements (map length cells)"
  have "answered cells owner r v \<noteq> {} \<and> answered cells owner r v = cells_with cells v"
    if "row \<in> set (cells ! r)" "v \<in> set row" for row v
  proof -
    have ne: "own_cells cells r v \<noteq> {}" using that by (auto simp: own_cells_def in_set_conv_nth)
    then show ?thesis using answered_complete[of r cells v owner] owner r by (auto simp: answered_def gathered_def)
  qed
  moreover have "cells_with cells v \<subseteq> {..<length (concat cells)}" for v by (auto simp: cells_with_def)
  moreover have "tidy (remove_duplicates m) (answered cells owner r)" by (rule remove_duplicates_tidy[OF m])
  ultimately have "distributed_rows q md ?dist (?dist ! r) (remove_duplicates m)
    = ok (dcrs_of (map (\<lambda>ic. filter (\<lambda>d. d \<noteq> ?dist ! r + ic \<and>
        q \<le> meets (cells_with cells) (cells ! r ! ic) d) [0..<length (concat cells)]) [0..<length (cells ! r)]) ?dist)"
    by (intro distributed_rows_dcrs[OF md _ q]) blast+
  also have "map (\<lambda>ic. filter (\<lambda>d. d \<noteq> ?dist ! r + ic \<and>
        q \<le> meets (cells_with cells) (cells ! r ! ic) d) [0..<length (concat cells)]) [0..<length (cells ! r)]
    = map (\<lambda>ic. neighbours (q - 1) ((!) (concat cells)) (length (concat cells)) (?dist ! r + ic)) [0..<length (cells ! r)]"
    using row_meets[OF r _ q] by (intro map_cong) simp_all
  finally show ?thesis .
qed

text \<open>The largest vertex id of the mesh bounds the ids of every cell, so every vertex has an owner.\<close>

lemma vertex_owner:
  assumes n: "0 < n" "n < 2 ^ 64 - 1" and r: "r < length mds" and md: "mesh_has (mds ! r) (cells ! r)"
    and used: "own_cells cells r v \<noteq> {}"
  shows "\<exists>s<n. rank_owner (blocks (fold max (map (\<lambda>md. fold max (mesh_l2g md) 0) mds) 0 + 1) n) v = ok s"
proof -
  obtain row where "row \<in> set (cells ! r)" "v \<in> set row" using used by (auto simp: own_cells_def intro: nth_mem)
  then have "v \<le> fold max (mesh_l2g (mds ! r)) 0" using mesh_vertex_bound[OF md] fold_max_ge(2) by blast
  also have "\<dots> \<le> fold max (map (\<lambda>md. fold max (mesh_l2g md) 0) mds) 0"
    using r by (intro fold_max_ge(2)) simp
  finally show ?thesis by (intro blocks_owner[OF n]) simp
qed

lemma fold_max_less: "\<forall>x\<in>set xs. x < m \<Longrightarrow> a < m \<Longrightarrow> fold max xs a < m" for m :: nat
  by (induction xs arbitrary: a) simp_all

lemma largest_id_succ:
  fixes g :: "'a \<Rightarrow> nat list"
  assumes "\<forall>x\<in>set xs. \<forall>v\<in>set (g x). v < 2 ^ 64 - 1"
  shows "(fold max (map (\<lambda>x. fold max (g x) 0) xs) 0 + 1) mod 2 ^ 64 = fold max (map (\<lambda>x. fold max (g x) 0) xs) 0 + 1"
proof -
  have "\<forall>x\<in>set xs. fold max (g x) 0 < 2 ^ 64 - 1" using assms by (auto intro!: fold_max_less)
  then have "fold max (map (\<lambda>x. fold max (g x) 0) xs) 0 < 2 ^ 64 - 1" by (intro fold_max_less) simp_all
  then show ?thesis by simp
qed

section \<open>Correctness\<close>

text \<open>
  C15: \<open>make_dcrs_distributed\<close> gives every rank the distribution of the cells over the ranks and, for
  each of its cells, the ascending list of all cells of the mesh that have at least
  \<open>min_connections\<close> of its vertices, whichever ranks hold them.
\<close>

theorem make_dcrs_distributed_neighbours:
  assumes c: "mpi_works n c" and n: "0 < n" "n < 2 ^ 64 - 1" and len: "length mds = n" "length cells = n"
    and mds: "\<forall>r<n. mesh_has (mds ! r) (cells ! r)" and q: "0 < min_connections"
  shows "make_dcrs_distributed c min_connections mds = ok (map (\<lambda>r.
    dcrs_of (map (\<lambda>ic. neighbours (min_connections - 1) ((!) (concat cells)) (length (concat cells))
        (displacements (map length cells) ! r + ic)) [0..<length (cells ! r)]) (displacements (map length cells))) [0..<n])"
proof -
  let ?dist = "displacements (map length cells)"
  let ?tot = "fold max (map (\<lambda>md. fold max (mesh_l2g md) 0) mds) 0 + 1"
  let ?vd = "blocks ?tot n"
  define owner where "owner v = (case rank_owner ?vd v of Inr r \<Rightarrow> r | Inl e \<Rightarrow> 0)" for v
  have has: "mesh_has (mds ! r) (cells ! r)" if "r < n" for r using mds that by simp
  have nums: "map mesh_num mds = map length cells"
    using len mesh_has_num[OF has] by (intro nth_equalityI) simp_all
  then have dists: "map displacements (mpi_allgather c (map mesh_num mds)) = replicate n ?dist"
    using c len by (simp add: mpi_works_def)
  have maxes: "mpi_allreduce_max c (map (\<lambda>md. fold max (mesh_l2g md) 0) mds) = replicate n (?tot - 1)"
    using c len by (simp add: mpi_works_def)
  have tot: "?tot mod 2 ^ 64 = ?tot"
    using mesh_has_ids[OF has] len(1) by (intro largest_id_succ) (metis in_set_conv_nth)
  have vds: "traverse (\<lambda>r. subdivide ((replicate n (?tot - 1) ! r + 1) mod 2 ^ 64) n []) [0..<n] = ok (map (\<lambda>r. ?vd) [0..<n])"
    using subdivide_blocks[OF n(1), of ?tot] tot by (intro traverse_ok) simp
  note vds = vds[unfolded map_replicate_const length_upt diff_zero]
  have owners: "\<forall>r<n. \<forall>v. own_cells cells r v \<noteq> {} \<longrightarrow> rank_owner ?vd v = ok (owner v) \<and> owner v < n"
    using vertex_owner[OF n, of _ mds cells] has len unfolding owner_def by fastforce
  have "\<exists>m. local_vertex2cell (replicate n ?dist ! r ! r) (mds ! r) = ok m \<and> holds m (own_cells cells r)" if "r < n" for r
    using local_vertex2cell_holds[OF has[OF that], of "?dist ! r"] that by (simp add: own_cells_def[abs_def])
  then obtain ms where ms: "traverse (\<lambda>r. local_vertex2cell (replicate n ?dist ! r ! r) (mds ! r)) [0..<n] = ok ms"
    "length ms = n" "\<forall>r<n. holds (ms ! r) (own_cells cells r)"
    using traverse_choice[of n "\<lambda>r. local_vertex2cell (replicate n ?dist ! r ! r) (mds ! r)" "\<lambda>r m. holds m (own_cells cells r)"]
    by auto
  let ?maps = "map remove_duplicates ms"
  have t1: "\<forall>r<n. tidy (?maps ! r) (own_cells cells r)" using ms(2,3) by (simp add: remove_duplicates_tidy)
  have "length ?maps = n" using ms(2) by simp
  from first_round[OF c len(2) this t1 owners]
  obtain sts where sts: "and_then (traverse (\<lambda>r. vertex_messages ?vd (?maps ! r)) [0..<n]) (\<lambda>messages.
      and_then (post c messages) (\<lambda>mails. traverse (\<lambda>r. receive_cells n (mails ! r) (?maps ! r, [])) [0..<n])) = ok sts"
    "length sts = n" "\<forall>r<n. holds (fst (sts ! r)) (gathered cells owner r) \<and> holds (snd (sts ! r)) (senders cells owner r)"
    by blast
  let ?sts = "map (\<lambda>(vertex2cell, vertex2rank). (remove_duplicates vertex2cell, vertex2rank)) sts"
  have s2: "\<forall>r<n. tidy (fst (?sts ! r)) (gathered cells owner r) \<and> holds (snd (?sts ! r)) (senders cells owner r)"
    using sts(2,3) by (simp add: split_def remove_duplicates_tidy)
  have "length ?sts = n" using sts(2) by simp
  from second_round[OF c len(2) this s2]
  obtain sts' where sts': "and_then (traverse (\<lambda>r. reply_messages r (?sts ! r)) [0..<n]) (\<lambda>messages.
      and_then (post c messages) (\<lambda>mails. traverse (\<lambda>r. receive_cells n (mails ! r) (?sts ! r)) [0..<n])) = ok sts'"
    "length sts' = n" "\<forall>r<n. holds (fst (sts' ! r)) (answered cells owner r)" by blast
  have "distributed_rows min_connections (mds ! r) (replicate n ?dist ! r) (replicate n ?dist ! r ! r)
      (remove_duplicates (fst (sts' ! r)))
    = ok (dcrs_of (map (\<lambda>ic. neighbours (min_connections - 1) ((!) (concat cells)) (length (concat cells))
        (?dist ! r + ic)) [0..<length (cells ! r)]) ?dist)" if r: "r < n" for r
    using final_rows[where owner = owner, OF _ has[OF r] q, of "fst (sts' ! r)"] owners sts'(3) r len(2) by simp
  then have "traverse (\<lambda>r. distributed_rows min_connections (mds ! r) (replicate n ?dist ! r) (replicate n ?dist ! r ! r)
      (remove_duplicates (fst (sts' ! r)))) [0..<n] = ok (map (\<lambda>r. dcrs_of (map (\<lambda>ic. neighbours (min_connections - 1)
      ((!) (concat cells)) (length (concat cells)) (?dist ! r + ic)) [0..<length (cells ! r)]) ?dist) [0..<n])"
    by (intro traverse_ok) simp
  note final = this
  obtain msgs mails where r1: "traverse (\<lambda>r. vertex_messages ?vd (?maps ! r)) [0..<n] = ok msgs" "post c msgs = ok mails"
    "traverse (\<lambda>r. receive_cells n (mails ! r) (?maps ! r, [])) [0..<n] = ok sts" using sts(1) by auto
  obtain msgs' mails' where r2: "traverse (\<lambda>r. reply_messages r (?sts ! r)) [0..<n] = ok msgs'" "post c msgs' = ok mails'"
    "traverse (\<lambda>r. receive_cells n (mails' ! r) (?sts ! r)) [0..<n] = ok sts'" using sts'(1) by auto
  have vm: "traverse (\<lambda>r. vertex_messages (replicate n ?vd ! r) (?maps ! r)) [0..<n] = ok msgs"
    unfolding r1(1)[symmetric] by (rule traverse_cong) simp_all
  show ?thesis
    unfolding make_dcrs_distributed_def Let_def len dists maxes vds and_then.simps ms(1) vm r1(2,3) r2 final ..
qed


lemma make_dcrs_distributed_neighbours_witness:
  "make_dcrs_distributed (ideal_mpi 2) 2
      [\<lparr>mesh_num = 1, mesh_crs = crs_of [[0, 1, 2]], mesh_l2g = [5, 3, 1]\<rparr>,
       \<lparr>mesh_num = 2, mesh_crs = crs_of [[1, 2, 0], [2, 4, 3]], mesh_l2g = [3, 1, 6, 4, 0]\<rparr>]
    = ok [dcrs_of [[1]] [0, 1, 3], dcrs_of [[0], []] [0, 1, 3]]"
proof -
  let ?a = "\<lparr>mesh_num = 1, mesh_crs = crs_of [[0, 1, 2]], mesh_l2g = [5, 3, 1]\<rparr>"
  let ?b = "\<lparr>mesh_num = 2, mesh_crs = crs_of [[1, 2, 0], [2, 4, 3]], mesh_l2g = [3, 1, 6, 4, 0]\<rparr>"
  let ?cells = "[[[5, 3, 1]], [[1, 6, 3], [6, 0, 4]]]"
  have "mesh_has ?a [[5, 3, 1]]" unfolding mesh_has_def by (intro conjI exI[of _ "[[0, 1, 2]]"]) simp_all
  moreover have "mesh_has ?b [[1, 6, 3], [6, 0, 4]]"
    unfolding mesh_has_def by (intro conjI exI[of _ "[[1, 2, 0], [2, 4, 3]]"]) simp_all
  ultimately have "\<forall>r<2. mesh_has ([?a, ?b] ! r) (?cells ! r)" by (simp add: less_2_cases_iff)
  from make_dcrs_distributed_neighbours[OF ideal_mpi_works _ _ _ _ this, of 2]
  show ?thesis by (simp add: neighbours_def sharing_def displacements_def upt_rec[of 0] upt_rec[of 1] upt_rec[of "Suc 0"] upt_rec[of 2] numeral_3_eq_3)
qed

end
