(* ===== verification/Ghost_Coloring.thy ===== *)
theory Ghost_Coloring
  imports Distributed_Graph
begin

text \<open>
  The classification of the primary entities of a rank: \<open>get_owner_info\<close> of coloring/dcrs\_utils.h
  with the types of coloring/coloring\_types.h and coloring/index\_coloring.h, and
  \<open>ghost_connectivity\<close>, which sends the connectivity of shared entities to their users.
  Ranks and offsets are stored in 32 bits.
\<close>

section \<open>Types\<close>

record entity_info =
  ent_id :: nat
  ent_rank :: nat
  ent_offset :: nat
  ent_shared :: "nat set"

text \<open>The constructors of \<open>entity_info_t\<close> differ in how the set of ranks is given.\<close>

definition make_entity_info :: "nat \<Rightarrow> nat \<Rightarrow> nat \<Rightarrow> nat set \<Rightarrow> entity_info" where
  "make_entity_info i rank offset ranks = \<lparr>ent_id = i, ent_rank = u32_wrap rank,
     ent_offset = u32_wrap offset, ent_shared = u32_wrap ` ranks\<rparr>"

record index_coloring =
  primary :: "nat set"
  exclusive :: "entity_info list"
  shared :: "entity_info list"
  ghost :: "entity_info list"

record coloring_info =
  num_exclusive :: nat
  num_shared :: nat
  num_ghost :: nat
  shared_users :: "nat set"
  ghost_owners :: "nat set"

text \<open>
  \<open>operator<\<close> compares the ids only and \<open>operator==\<close> everything. \<open>std::sort\<close> may leave entities
  with equal ids in any order; the stable order is one of them, and the lists below have distinct ids.
\<close>

definition remove_unique :: "entity_info list \<Rightarrow> entity_info list" where
  "remove_unique xs = remdups_adj (sort_key ent_id xs)"

section \<open>get\_owner\_info\<close>

definition see_neighbor :: "nat \<Rightarrow> nat list \<Rightarrow> nat \<Rightarrow> entity_info list \<times> nat set \<times> nat set \<Rightarrow>
    (entity_info list \<times> nat set \<times> nat set) outcome" where
  "see_neighbor comm_rank dist neighbor = (\<lambda>(ghosts, owners, shared_ranks).
     and_then (rank_owner dist neighbor) (\<lambda>rank.
     if rank \<noteq> comm_rank
     then let e = make_entity_info neighbor rank (neighbor - dist ! rank) {comm_rank};
              (ghosts, owners) = (if e \<in> set ghosts then (ghosts, owners) else (ghosts @ [e], insert rank owners))
          in ok (ghosts, owners, insert rank shared_ranks)
     else ok (ghosts, owners, shared_ranks)))"

definition classify :: "nat \<Rightarrow> dcrs \<Rightarrow> nat \<Rightarrow> index_coloring \<times> coloring_info \<Rightarrow>
    (index_coloring \<times> coloring_info) outcome" where
  "classify comm_rank d local_id = (\<lambda>(entities, info).
     let global_id = distribution d ! comm_rank + local_id in
     and_then (crs_row d local_id) (\<lambda>row.
     and_then (fold_outcome (see_neighbor comm_rank (distribution d)) row (ghost entities, ghost_owners info, {}))
       (\<lambda>(ghosts, owners, shared_ranks).
       let entities = entities\<lparr>ghost := ghosts\<rparr>; info = info\<lparr>ghost_owners := owners\<rparr> in
       if shared_ranks = {}
       then ok (entities\<lparr>exclusive := exclusive entities @ [make_entity_info global_id comm_rank local_id {}]\<rparr>, info)
       else ok (entities\<lparr>shared := shared entities @ [make_entity_info global_id comm_rank local_id shared_ranks]\<rparr>,
                info\<lparr>shared_users := shared_users info \<union> shared_ranks\<rparr>))))"

definition num_entities :: "nat list \<Rightarrow> nat \<Rightarrow> nat" where
  "num_entities dist rank =
     (let start = dist ! rank; last_id = (dist ! (rank + 1) + (2 ^ 64 - 1)) mod 2 ^ 64
      in (last_id + (2 ^ 64 - start) + 1) mod 2 ^ 64)"

definition get_owner_info :: "nat \<Rightarrow> dcrs \<Rightarrow> index_coloring \<times> coloring_info \<Rightarrow> (index_coloring \<times> coloring_info) outcome" where
  "get_owner_info comm_rank d state =
     and_then (fold_outcome (classify comm_rank d) [0..<num_entities (distribution d) comm_rank] state)
       (\<lambda>(entities, info).
       let entities = entities\<lparr>exclusive := remove_unique (exclusive entities),
             shared := remove_unique (shared entities), ghost := remove_unique (ghost entities)\<rparr>
       in ok (entities, info\<lparr>num_exclusive := length (exclusive entities), num_shared := length (shared entities),
             num_ghost := length (ghost entities)\<rparr>))"

section \<open>ghost\_connectivity\<close>

definition shared_messages :: "nat \<Rightarrow> crs \<Rightarrow> nat list \<Rightarrow> entity_info list \<Rightarrow> message list outcome" where
  "shared_messages comm_rank from2to local2global es =
     and_then (traverse (\<lambda>e.
       and_then (crs_row from2to (ent_offset e)) (\<lambda>row.
       traverse (\<lambda>r.
         if r = comm_rank then ok (r, [])
         else and_then (traverse (\<lambda>i. if i < length local2global then ok (local2global ! i) else fail Undefined) row)
           (\<lambda>ids. ok (r, ent_id e # length ids # ids))) (sorted_list_of_set (ent_shared e)))) es)
     (\<lambda>ms. ok (concat ms))"

definition take_row :: "nat \<Rightarrow> nat list \<Rightarrow> nat list \<times> crs \<Rightarrow> (nat list \<times> crs) outcome" where
  "take_row i ids = (\<lambda>(from_ids, connectivity). ok (from_ids @ [i],
     connectivity\<lparr>crs_indices := crs_indices connectivity @ ids,
       crs_offsets := crs_offsets connectivity @ [last (crs_offsets connectivity) + length ids]\<rparr>))"

definition read_rows :: "nat \<Rightarrow> mail \<Rightarrow> (nat list \<times> crs) outcome" where
  "read_rows n mail = fold_outcome (\<lambda>r. read_tagged Undefined take_row (received mail r)) [0..<n]
     ([], \<lparr>crs_offsets = [0], crs_indices = []\<rparr>)"

text \<open>All ranks: their connectivity, the global ids of the target entities and their coloring.\<close>

definition ghost_connectivity ::
    "mpi \<Rightarrow> (crs \<times> nat list \<times> index_coloring) list \<Rightarrow> (nat list \<times> crs) list outcome" where
  "ghost_connectivity c ranks =
     (let n = length ranks in
      and_then (traverse (\<lambda>r. case ranks ! r of (from2to, local2global, coloring) \<Rightarrow>
          shared_messages r from2to local2global (shared coloring)) [0..<n]) (\<lambda>messages.
      and_then (post c messages) (\<lambda>mails.
      traverse (\<lambda>r. read_rows n (mails ! r)) [0..<n])))"


section \<open>The classification\<close>

text \<open>
  \<open>rows ! r ! l\<close> are the neighbours of local entity \<open>l\<close> of rank \<open>r\<close>, as global ids.
\<close>

abbreviation dist_of :: "'a list list \<Rightarrow> nat list" where
  "dist_of rows \<equiv> displacements (map length rows)"

definition rank_of :: "nat list \<Rightarrow> nat \<Rightarrow> nat" where
  "rank_of dist d = (case rank_owner dist d of Inr r \<Rightarrow> r | Inl e \<Rightarrow> 0)"

definition foreign :: "nat list \<Rightarrow> nat \<Rightarrow> nat list \<Rightarrow> nat set" where
  "foreign dist r row = {d \<in> set row. rank_of dist d \<noteq> r}"

definition users :: "nat list \<Rightarrow> nat \<Rightarrow> nat list \<Rightarrow> nat set" where
  "users dist r row = rank_of dist ` foreign dist r row"

definition ghost_entity :: "nat list \<Rightarrow> nat \<Rightarrow> nat \<Rightarrow> entity_info" where
  "ghost_entity dist r d = make_entity_info d (rank_of dist d) (d - dist ! rank_of dist d) {r}"

definition own_entity :: "nat list \<Rightarrow> nat \<Rightarrow> nat list list \<Rightarrow> nat \<Rightarrow> entity_info" where
  "own_entity dist r rows l = make_entity_info (dist ! r + l) r l (users dist r (rows ! l))"

definition own_entities :: "(nat set \<Rightarrow> bool) \<Rightarrow> nat list \<Rightarrow> nat \<Rightarrow> nat list list \<Rightarrow> nat \<Rightarrow> entity_info list" where
  "own_entities P dist r rows k = map (own_entity dist r rows) (filter (\<lambda>l. P (users dist r (rows ! l))) [0..<k])"

definition foreign_upto :: "nat list \<Rightarrow> nat \<Rightarrow> nat list list \<Rightarrow> nat \<Rightarrow> nat set" where
  "foreign_upto dist r rows k = (\<Union>l<k. foreign dist r (rows ! l))"

definition owner_coloring :: "nat list \<Rightarrow> nat \<Rightarrow> nat list list \<Rightarrow> index_coloring" where
  "owner_coloring dist r rows = \<lparr>primary = {},
     exclusive = own_entities (\<lambda>u. u = {}) dist r rows (length rows),
     shared = own_entities (\<lambda>u. u \<noteq> {}) dist r rows (length rows),
     ghost = map (ghost_entity dist r) (sorted_list_of_set (foreign_upto dist r rows (length rows)))\<rparr>"

definition owner_info :: "nat list \<Rightarrow> nat \<Rightarrow> nat list list \<Rightarrow> coloring_info" where
  "owner_info dist r rows =
     (let c = owner_coloring dist r rows
      in \<lparr>num_exclusive = length (exclusive c), num_shared = length (shared c), num_ghost = length (ghost c),
          shared_users = (\<Union>l<length rows. users dist r (rows ! l)),
          ghost_owners = rank_of dist ` foreign_upto dist r rows (length rows)\<rparr>)"

lemma ghost_entity_id [simp]: "ent_id (ghost_entity dist r d) = d"
  by (simp add: ghost_entity_def make_entity_info_def)

lemma see_neighbors:
  assumes "\<forall>d\<in>set row. rank_owner dist d = ok (rank_of dist d)"
    and "distinct gs" "set gs = ghost_entity dist r ` D" "os = rank_of dist ` D"
  shows "\<exists>gs'. fold_outcome (see_neighbor r dist) row (gs, os, sr)
      = ok (gs', rank_of dist ` (D \<union> foreign dist r row), sr \<union> users dist r row) \<and>
    distinct gs' \<and> set gs' = ghost_entity dist r ` (D \<union> foreign dist r row)"
  using assms
proof (induction row arbitrary: gs os sr D)
  case Nil
  then show ?case by (simp add: foreign_def users_def)
next
  case (Cons d row)
  have mem: "ghost_entity dist r d \<in> set gs \<longleftrightarrow> d \<in> D"
    using Cons.prems(3) by (metis ghost_entity_id image_iff)
  have f: "foreign dist r (d # row) = (if rank_of dist d \<noteq> r then insert d (foreign dist r row) else foreign dist r row)"
    by (auto simp: foreign_def)
  show ?case
  proof (cases "rank_of dist d \<noteq> r")
    case False
    then have "see_neighbor r dist d (gs, os, sr) = ok (gs, os, sr)" using Cons.prems(1) by (simp add: see_neighbor_def)
    then show ?thesis using Cons.IH[OF _ Cons.prems(2-4)] Cons.prems(1) False f by (simp add: users_def)
  next
    case True
    let ?gs = "if d \<in> D then gs else gs @ [ghost_entity dist r d]"
    have step: "see_neighbor r dist d (gs, os, sr) = ok (?gs, rank_of dist ` insert d D, insert (rank_of dist d) sr)"
      using Cons.prems(1,4) True mem by (auto simp: see_neighbor_def ghost_entity_def Let_def insert_absorb)
    have "distinct ?gs" "set ?gs = ghost_entity dist r ` insert d D"
      using Cons.prems(2,3) mem by auto
    from Cons.IH[OF _ this refl, of "insert (rank_of dist d) sr"] Cons.prems(1)
    show ?thesis using step f True by (simp add: users_def)
  qed
qed

lemma classify_fold:
  assumes d: "\<And>l. l < length rows \<Longrightarrow> crs_row d l = ok (rows ! l)" "distribution d = dist"
    and owner: "\<forall>row\<in>set rows. \<forall>x\<in>set row. rank_owner dist x = ok (rank_of dist x)" and k: "k \<le> length rows"
  shows "\<exists>gs. fold_outcome (classify r d) [0..<k]
      (\<lparr>primary = {}, exclusive = [], shared = [], ghost = []\<rparr>, i\<lparr>shared_users := {}, ghost_owners := {}\<rparr>)
    = ok (\<lparr>primary = {}, exclusive = own_entities (\<lambda>u. u = {}) dist r rows k,
           shared = own_entities (\<lambda>u. u \<noteq> {}) dist r rows k, ghost = gs\<rparr>,
          i\<lparr>shared_users := \<Union>l<k. users dist r (rows ! l), ghost_owners := rank_of dist ` foreign_upto dist r rows k\<rparr>) \<and>
    distinct gs \<and> set gs = ghost_entity dist r ` foreign_upto dist r rows k"
  using k
proof (induction k)
  case 0
  then show ?case by (simp add: own_entities_def foreign_upto_def)
next
  case (Suc k)
  then obtain gs where IH: "fold_outcome (classify r d) [0..<k]
      (\<lparr>primary = {}, exclusive = [], shared = [], ghost = []\<rparr>, i\<lparr>shared_users := {}, ghost_owners := {}\<rparr>)
    = ok (\<lparr>primary = {}, exclusive = own_entities (\<lambda>u. u = {}) dist r rows k,
           shared = own_entities (\<lambda>u. u \<noteq> {}) dist r rows k, ghost = gs\<rparr>,
          i\<lparr>shared_users := \<Union>l<k. users dist r (rows ! l), ghost_owners := rank_of dist ` foreign_upto dist r rows k\<rparr>)"
    "distinct gs" "set gs = ghost_entity dist r ` foreign_upto dist r rows k" by auto
  have row: "\<forall>x\<in>set (rows ! k). rank_owner dist x = ok (rank_of dist x)"
    using owner Suc.prems by (metis Suc_le_lessD nth_mem)
  have up: "foreign_upto dist r rows (Suc k) = foreign_upto dist r rows k \<union> foreign dist r (rows ! k)"
    by (auto simp: foreign_upto_def less_Suc_eq)
  have us: "(\<Union>l<Suc k. users dist r (rows ! l)) = (\<Union>l<k. users dist r (rows ! l)) \<union> users dist r (rows ! k)"
    by (auto simp: less_Suc_eq)
  obtain gs' where gs': "fold_outcome (see_neighbor r dist) (rows ! k) (gs, rank_of dist ` foreign_upto dist r rows k, {})
      = ok (gs', rank_of dist ` foreign_upto dist r rows (Suc k), users dist r (rows ! k))"
    "distinct gs'" "set gs' = ghost_entity dist r ` foreign_upto dist r rows (Suc k)"
    using see_neighbors[OF row IH(2,3) refl, of "{}"] up by auto
  let ?S = "\<lambda>k gs. \<lparr>primary = {}, exclusive = own_entities (\<lambda>u. u = {}) dist r rows k,
      shared = own_entities (\<lambda>u. u \<noteq> {}) dist r rows k, ghost = gs\<rparr>"
  let ?I = "\<lambda>k. i\<lparr>shared_users := \<Union>l<k. users dist r (rows ! l), ghost_owners := rank_of dist ` foreign_upto dist r rows k\<rparr>"
  have "classify r d k (?S k gs, ?I k) = ok (?S (Suc k) gs', ?I (Suc k))"
    using gs'(1) d Suc.prems unfolding us
    by (cases "users dist r (rows ! k) = {}")
      (simp_all add: classify_def Let_def own_entities_def own_entity_def del: and_then_ok)
  then show ?case using IH(1) gs'(2,3) Suc.prems by (intro exI[of _ gs']) (simp del: and_then_ok)
qed


lemma remove_unique_sorted: "sorted_wrt (<) (map ent_id xs) \<Longrightarrow> remove_unique xs = xs"
proof -
  assume "sorted_wrt (<) (map ent_id xs)"
  then have "sorted (map ent_id xs)" "distinct (map ent_id xs)" by (simp_all add: strict_sorted_iff)
  then show ?thesis by (simp add: remove_unique_def sorted_sort_id sort_key_id_if_sorted distinct_map remdups_adj_distinct)
qed

lemma remove_unique_set:
  assumes "distinct xs" "set xs = g ` A" "finite A" "\<And>d. ent_id (g d) = d"
  shows "remove_unique xs = map g (sorted_list_of_set A)"
proof -
  let ?ys = "sort_key ent_id xs"
  have ys: "set ?ys = g ` A" "distinct ?ys" using assms(1,2) by simp_all
  then have "g (ent_id x) = x" if "x \<in> set ?ys" for x using that assms(4) by auto
  then have g: "map g (map ent_id ?ys) = ?ys" unfolding map_map by (intro map_idI) simp
  have "inj_on ent_id (g ` A)" using assms(4) by (auto simp: inj_on_def)
  then have "distinct (map ent_id ?ys)" using ys by (simp add: distinct_map)
  moreover have "sorted (map ent_id ?ys)" by simp
  moreover have "set (map ent_id ?ys) = A" using ys(1) assms(4) by (auto simp: image_iff)
  ultimately have "map ent_id ?ys = sorted_list_of_set A"
    using assms(3) by (metis sorted_list_of_set.idem_if_sorted_distinct)
  then show ?thesis using g ys(2) by (simp add: remove_unique_def remdups_adj_distinct)
qed

lemma own_entities_ids: "map ent_id (own_entities P dist r rows k) = map (\<lambda>l. dist ! r + l) (filter (\<lambda>l. P (users dist r (rows ! l))) [0..<k])"
  by (simp add: own_entities_def own_entity_def make_entity_info_def comp_def)

lemma own_entities_sorted: "sorted_wrt (<) (map ent_id (own_entities P dist r rows k))"
  unfolding own_entities_ids by (simp add: sorted_wrt_map sorted_wrt_filter)

lemma num_entities_block:
  "d ! r \<le> d ! (r + 1) \<Longrightarrow> d ! (r + 1) < 2 ^ 64 \<Longrightarrow> num_entities d r = d ! (r + 1) - d ! r"
proof -
  assume *: "d ! r \<le> d ! (r + 1)" "d ! (r + 1) < 2 ^ 64"
  have e: "(d ! (r + 1) + (2 ^ 64 - 1)) mod 2 ^ 64 + (2 ^ 64 - d ! r) + 1
      = (d ! (r + 1) + (2 ^ 64 - 1)) mod 2 ^ 64 + (2 ^ 64 - d ! r + 1)" by simp
  have "((d ! (r + 1) + (2 ^ 64 - 1)) mod 2 ^ 64 + (2 ^ 64 - d ! r) + 1) mod 2 ^ 64
      = (d ! (r + 1) + (2 ^ 64 - 1) + (2 ^ 64 - d ! r + 1)) mod 2 ^ 64"
    unfolding e by (rule mod_add_left_eq)
  also have "d ! (r + 1) + (2 ^ 64 - 1) + (2 ^ 64 - d ! r + 1) = (d ! (r + 1) - d ! r) + 2 * 2 ^ 64"
    using * by simp
  also have "((d ! (r + 1) - d ! r) + 2 * 2 ^ 64) mod 2 ^ 64 = (d ! (r + 1) - d ! r) mod 2 ^ 64"
    by (rule mod_mult_self1)
  also have "\<dots> = d ! (r + 1) - d ! r" using * by (intro mod_less) simp
  finally show ?thesis by (simp only: num_entities_def Let_def)
qed

lemma displacements_sorted: "sorted (displacements counts)"
proof -
  have l: "length (displacements counts) = Suc (length counts)"
    by (induction counts rule: rev_induct) (simp_all add: displacements_def)
  have "displacements counts ! i \<le> displacements counts ! j" if "i \<le> j" "j \<le> length counts" for i j
  proof -
    have "take j counts = take i counts @ take (j - i) (drop i counts)" using that by (metis le_add_diff_inverse take_add)
    then show ?thesis using that by (simp add: displacements_nth)
  qed
  then show ?thesis using l by (simp add: sorted_iff_nth_mono)
qed

lemma displacements_length [simp]: "length (displacements counts) = Suc (length counts)"
  by (induction counts rule: rev_induct) (simp_all add: displacements_def)

lemma rank_of_dist:
  assumes "d < length (concat rows)" "length rows < 2 ^ 64 - 1"
  shows "rank_owner (dist_of rows) d = ok (rank_of (dist_of rows) d) \<and> rank_of (dist_of rows) d < length rows \<and>
    dist_of rows ! rank_of (dist_of rows) d \<le> d \<and> d < dist_of rows ! (rank_of (dist_of rows) d + 1)"
proof -
  have ne: "dist_of rows \<noteq> []" by (metis displacements_length list.size(3) nat.distinct(1))
  have "last (dist_of rows) = dist_of rows ! length rows"
    using ne by (simp add: last_conv_nth)
  then have last: "last (dist_of rows) = length (concat rows)" by (simp add: displacements_nth length_concat)
  have "dist_of rows ! 0 = 0" by (simp add: displacements_nth)
  then have "\<exists>r. rank_owner (dist_of rows) d = ok r \<and> r < length rows \<and> owned_by (dist_of rows) d r"
    using rank_owner_correct[OF displacements_sorted ne, of d] assms last by simp
  then show ?thesis by (auto simp: rank_of_def owned_by_def split: if_splits)
qed

lemma rank_of_unique:
  assumes "r < length rows" "l < length (rows ! r)" "length rows < 2 ^ 64 - 1"
  shows "rank_of (dist_of rows) (dist_of rows ! r + l) = r"
proof -
  let ?d = "dist_of rows ! r + l"
  have len: "?d < length (concat rows)" by (rule global_cell(1)[OF assms(1,2)])
  have "dist_of rows ! (r + 1) = dist_of rows ! r + length (rows ! r)"
    using assms(1) by (simp add: displacements_nth take_Suc_conv_app_nth)
  then have "owned_by (dist_of rows) ?d r" using assms(2) by (simp add: owned_by_def)
  moreover have "owned_by (dist_of rows) ?d (rank_of (dist_of rows) ?d)"
    using rank_of_dist[OF len assms(3)] by (simp add: owned_by_def)
  ultimately show ?thesis
    using owned_by_unique[OF displacements_sorted, of "rank_of (dist_of rows) ?d" "map length rows" r ?d]
      rank_of_dist[OF len assms(3)] assms(1) by simp
qed

lemma get_owner_info_closed:
  assumes r: "r < length rows" and size: "length rows < 2 ^ 64 - 1" "length (concat rows) < 2 ^ 64"
    and nb: "\<forall>row\<in>set (concat rows). \<forall>x\<in>set row. x < length (concat rows)"
  shows "get_owner_info r (dcrs_of (rows ! r) (dist_of rows))
      (\<lparr>primary = {}, exclusive = [], shared = [], ghost = []\<rparr>, i\<lparr>shared_users := {}, ghost_owners := {}\<rparr>)
    = ok (owner_coloring (dist_of rows) r (rows ! r), owner_info (dist_of rows) r (rows ! r))"
proof -
  let ?d = "dcrs_of (rows ! r) (dist_of rows)" and ?dist = "dist_of rows"
  have rowl: "crs_row ?d l = ok (rows ! r ! l)" if "l < length (rows ! r)" for l
    using crs_row_rows[OF that] that by (simp add: crs_row_def dcrs_of_def crs_of_def Let_def split: if_splits)
  have start: "?dist ! (r + 1) = ?dist ! r + length (rows ! r)"
    using r by (simp add: displacements_nth take_Suc_conv_app_nth)
  moreover have "?dist ! (r + 1) \<le> length (concat rows)"
    using r by (simp add: displacements_nth length_concat) (metis append_take_drop_id le_add1 sum_list_append take_map map_append)
  ultimately have num: "num_entities ?dist r = length (rows ! r)"
    using num_entities_block[of ?dist r] size(2) by simp
  have "\<forall>row\<in>set (rows ! r). \<forall>x\<in>set row. rank_owner ?dist x = ok (rank_of ?dist x)"
  proof (intro ballI)
    fix row x assume "row \<in> set (rows ! r)" "x \<in> set row"
    then have "x < length (concat rows)" using nb r by (auto simp: set_concat intro: nth_mem)
    then show "rank_owner ?dist x = ok (rank_of ?dist x)" using rank_of_dist[OF _ size(1)] by blast
  qed
  from classify_fold[OF rowl _ this order_refl, of r i]
  obtain gs where gs: "fold_outcome (classify r ?d) [0..<length (rows ! r)]
      (\<lparr>primary = {}, exclusive = [], shared = [], ghost = []\<rparr>, i\<lparr>shared_users := {}, ghost_owners := {}\<rparr>)
    = ok (\<lparr>primary = {}, exclusive = own_entities (\<lambda>u. u = {}) ?dist r (rows ! r) (length (rows ! r)),
           shared = own_entities (\<lambda>u. u \<noteq> {}) ?dist r (rows ! r) (length (rows ! r)), ghost = gs\<rparr>,
          i\<lparr>shared_users := \<Union>l<length (rows ! r). users ?dist r (rows ! r ! l),
            ghost_owners := rank_of ?dist ` foreign_upto ?dist r (rows ! r) (length (rows ! r))\<rparr>)"
    "distinct gs" "set gs = ghost_entity ?dist r ` foreign_upto ?dist r (rows ! r) (length (rows ! r))"
    by (auto simp: dcrs_of_def)
  have "finite (foreign_upto ?dist r (rows ! r) (length (rows ! r)))"
    by (auto simp: foreign_upto_def foreign_def)
  from remove_unique_set[OF gs(2,3) this ghost_entity_id]
  show ?thesis
    using gs(1) num by (simp add: get_owner_info_def dcrs_of_def owner_coloring_def owner_info_def
      remove_unique_sorted[OF own_entities_sorted] Let_def)
qed


subsection \<open>What the lists hold\<close>

lemma own_entity_fields:
  assumes "r < length rows" "l < length (rows ! r)" "length rows < 2 ^ 32" "length (concat rows) < 2 ^ 32"
    and "\<forall>x\<in>set (rows ! r ! l). x < length (concat rows)"
  shows "own_entity (dist_of rows) r (rows ! r) l
    = \<lparr>ent_id = dist_of rows ! r + l, ent_rank = r, ent_offset = l, ent_shared = users (dist_of rows) r (rows ! r ! l)\<rparr>"
proof -
  have "rank_of (dist_of rows) x < length rows" if "x \<in> set (rows ! r ! l)" for x
    using rank_of_dist[of x rows] assms(3,5) that by simp
  then have "u32_wrap ` users (dist_of rows) r (rows ! r ! l) = (\<lambda>q. q) ` users (dist_of rows) r (rows ! r ! l)"
    using assms(3) by (intro image_cong refl) (fastforce simp: users_def foreign_def u32_wrap_def)
  moreover have "l < 2 ^ 32" using global_cell(1)[OF assms(1,2)] assms(4) by simp
  ultimately show ?thesis using assms(1,3) by (simp add: own_entity_def make_entity_info_def u32_wrap_def)
qed

lemma ghost_entity_fields:
  assumes "d < length (concat rows)" "r < length rows" "length rows < 2 ^ 32" "length (concat rows) < 2 ^ 32"
  shows "ghost_entity (dist_of rows) r d = \<lparr>ent_id = d, ent_rank = rank_of (dist_of rows) d,
    ent_offset = d - dist_of rows ! rank_of (dist_of rows) d, ent_shared = {r}\<rparr>"
  using rank_of_dist[OF assms(1)] assms by (simp add: ghost_entity_def make_entity_info_def u32_wrap_def)

lemma own_entities_set:
  "e \<in> set (own_entities P dist r rows k) \<longleftrightarrow> (\<exists>l<k. P (users dist r (rows ! l)) \<and> e = own_entity dist r rows l)"
  by (auto simp: own_entities_def)

lemma users_iff: "q \<in> users dist r row \<longleftrightarrow> q \<noteq> r \<and> (\<exists>d\<in>set row. rank_of dist d = q)"
  by (auto simp: users_def foreign_def)

text \<open>A graph over the ranks: every neighbour exists, and the numbers fit.\<close>

definition rank_graph :: "nat list list list \<Rightarrow> bool" where
  "rank_graph rows \<longleftrightarrow> length rows < 2 ^ 32 \<and> length (concat rows) < 2 ^ 32 \<and>
     (\<forall>row\<in>set (concat rows). \<forall>x\<in>set row. x < length (concat rows))"

lemma rank_graph_bound:
  "rank_graph rows \<Longrightarrow> r < length rows \<Longrightarrow> l < length (rows ! r) \<Longrightarrow> x \<in> set (rows ! r ! l) \<Longrightarrow> x < length (concat rows)"
  unfolding rank_graph_def by (metis global_cell nth_mem)

lemma shared_of_rank:
  assumes "rank_graph rows" "q < length rows"
  shows "(\<exists>e\<in>set (shared (owner_coloring (dist_of rows) q (rows ! q))). ent_id e = d \<and> r \<in> ent_shared e) \<longleftrightarrow>
    r \<noteq> q \<and> (\<exists>l<length (rows ! q). d = dist_of rows ! q + l \<and> (\<exists>x\<in>set (rows ! q ! l). rank_of (dist_of rows) x = r))"
proof -
  have f: "own_entity (dist_of rows) q (rows ! q) l = \<lparr>ent_id = dist_of rows ! q + l, ent_rank = q, ent_offset = l,
      ent_shared = users (dist_of rows) q (rows ! q ! l)\<rparr>" if "l < length (rows ! q)" for l
    using assms rank_graph_bound[OF assms that] by (intro own_entity_fields that) (simp_all add: rank_graph_def)
  have "(\<exists>e\<in>set (shared (owner_coloring (dist_of rows) q (rows ! q))). ent_id e = d \<and> r \<in> ent_shared e) \<longleftrightarrow>
      (\<exists>l<length (rows ! q). users (dist_of rows) q (rows ! q ! l) \<noteq> {} \<and>
        ent_id (own_entity (dist_of rows) q (rows ! q) l) = d \<and> r \<in> ent_shared (own_entity (dist_of rows) q (rows ! q) l))"
    unfolding owner_coloring_def by (simp add: Bex_def own_entities_set) blast
  also have "\<dots> \<longleftrightarrow> (\<exists>l<length (rows ! q). dist_of rows ! q + l = d \<and> r \<in> users (dist_of rows) q (rows ! q ! l))"
  proof -
    have "users (dist_of rows) q (rows ! q ! l) \<noteq> {} \<and> ent_id (own_entity (dist_of rows) q (rows ! q) l) = d \<and>
        r \<in> ent_shared (own_entity (dist_of rows) q (rows ! q) l) \<longleftrightarrow>
      dist_of rows ! q + l = d \<and> r \<in> users (dist_of rows) q (rows ! q ! l)" if "l < length (rows ! q)" for l
      using f[OF that] by auto
    then show ?thesis by (simp cong: conj_cong)
  qed
  finally show ?thesis by (auto simp: users_iff)
qed

lemma ghost_of_rank:
  assumes "rank_graph rows" "r < length rows"
  shows "(\<exists>e\<in>set (ghost (owner_coloring (dist_of rows) r (rows ! r))). ent_id e = d \<and> ent_rank e = q) \<longleftrightarrow>
    q \<noteq> r \<and> rank_of (dist_of rows) d = q \<and> (\<exists>l<length (rows ! r). d \<in> set (rows ! r ! l))"
proof -
  have set: "set (ghost (owner_coloring (dist_of rows) r (rows ! r)))
      = ghost_entity (dist_of rows) r ` foreign_upto (dist_of rows) r (rows ! r) (length (rows ! r))"
    by (subst owner_coloring_def) (simp add: foreign_upto_def foreign_def)
  have f: "ghost_entity (dist_of rows) r x = \<lparr>ent_id = x, ent_rank = rank_of (dist_of rows) x,
      ent_offset = x - dist_of rows ! rank_of (dist_of rows) x, ent_shared = {r}\<rparr>"
    if "x \<in> foreign_upto (dist_of rows) r (rows ! r) (length (rows ! r))" for x
  proof -
    have "x < length (concat rows)" using that rank_graph_bound[OF assms] by (auto simp: foreign_upto_def foreign_def)
    then show ?thesis using assms by (intro ghost_entity_fields) (simp_all add: rank_graph_def)
  qed
  have "(\<exists>e\<in>set (ghost (owner_coloring (dist_of rows) r (rows ! r))). ent_id e = d \<and> ent_rank e = q) \<longleftrightarrow>
      d \<in> foreign_upto (dist_of rows) r (rows ! r) (length (rows ! r)) \<and> rank_of (dist_of rows) d = q"
    unfolding set using f by auto
  then show ?thesis by (auto simp: foreign_upto_def foreign_def)
qed


subsection \<open>Consistency between ranks\<close>

text \<open>The two views of an edge between ranks agree when the graph is symmetric.\<close>

definition symmetric_graph :: "nat list list list \<Rightarrow> bool" where
  "symmetric_graph rows \<longleftrightarrow> (\<forall>a<length (concat rows). \<forall>b<length (concat rows).
     b \<in> set (concat rows ! a) \<longrightarrow> a \<in> set (concat rows ! b))"

lemma edge_seen_from_both:
  assumes g: "rank_graph rows" "symmetric_graph rows" and r: "r < length rows" and l: "l < length (rows ! r)"
    and d: "d \<in> set (rows ! r ! l)" "rank_of (dist_of rows) d = q"
  shows "q < length rows \<and> (\<exists>k<length (rows ! q). d = dist_of rows ! q + k \<and>
    (\<exists>x\<in>set (rows ! q ! k). rank_of (dist_of rows) x = r))"
proof -
  let ?c = "dist_of rows ! r + l"
  have n: "length rows < 2 ^ 64 - 1" using g(1) by (simp add: rank_graph_def)
  have dN: "d < length (concat rows)" by (rule rank_graph_bound[OF g(1) r l d(1)])
  from global_cell_cases[OF dN] obtain q' k where k: "q' < length rows" "k < length (rows ! q')"
    "d = dist_of rows ! q' + k" by blast
  have "q' = q" using rank_of_unique[OF k(1,2) n] k(3) d(2) by simp
  have "?c \<in> set (concat rows ! d)"
    using g(2) dN global_cell[OF r l] d(1) by (simp add: symmetric_graph_def)
  then have "?c \<in> set (rows ! q' ! k)" using global_cell(2)[OF k(1,2)] k(3) by simp
  moreover have "rank_of (dist_of rows) ?c = r" by (rule rank_of_unique[OF r l n])
  ultimately show ?thesis using k \<open>q' = q\<close> by blast
qed

lemma ghost_iff_shared:
  assumes g: "rank_graph rows" "symmetric_graph rows" and r: "r < length rows" and q: "q < length rows"
  shows "(\<exists>e\<in>set (ghost (owner_coloring (dist_of rows) r (rows ! r))). ent_id e = d \<and> ent_rank e = q) \<longleftrightarrow>
    (\<exists>e\<in>set (shared (owner_coloring (dist_of rows) q (rows ! q))). ent_id e = d \<and> r \<in> ent_shared e)"
  unfolding ghost_of_rank[OF g(1) r] shared_of_rank[OF g(1) q]
proof
  assume *: "q \<noteq> r \<and> rank_of (dist_of rows) d = q \<and> (\<exists>l<length (rows ! r). d \<in> set (rows ! r ! l))"
  then obtain l where "l < length (rows ! r)" "d \<in> set (rows ! r ! l)" by blast
  with edge_seen_from_both[OF g r this(1,2)] * show "r \<noteq> q \<and> (\<exists>l<length (rows ! q). d = dist_of rows ! q + l \<and>
      (\<exists>x\<in>set (rows ! q ! l). rank_of (dist_of rows) x = r))" by blast
next
  assume *: "r \<noteq> q \<and> (\<exists>l<length (rows ! q). d = dist_of rows ! q + l \<and> (\<exists>x\<in>set (rows ! q ! l). rank_of (dist_of rows) x = r))"
  then obtain l x where l: "l < length (rows ! q)" "d = dist_of rows ! q + l" "x \<in> set (rows ! q ! l)"
    "rank_of (dist_of rows) x = r" by blast
  have n: "length rows < 2 ^ 64 - 1" using g(1) by (simp add: rank_graph_def)
  from edge_seen_from_both[OF g q l(1,3,4)] obtain k where k: "k < length (rows ! r)" "x = dist_of rows ! r + k" by blast
  have "d \<in> set (concat rows ! x)"
    using g(2) global_cell[OF q l(1)] l rank_graph_bound[OF g(1) q l(1,3)] by (simp add: symmetric_graph_def)
  then have "d \<in> set (rows ! r ! k)" using global_cell(2)[OF r k(1)] k(2) by simp
  moreover have "rank_of (dist_of rows) d = q" using rank_of_unique[OF q l(1) n] l(2) by simp
  ultimately show "q \<noteq> r \<and> rank_of (dist_of rows) d = q \<and> (\<exists>l<length (rows ! r). d \<in> set (rows ! r ! l))"
    using * k(1) by blast
qed


lemma block_partition:
  fixes rows :: "nat list list list"
  assumes "r < length rows"
  shows "set (map ent_id (exclusive (owner_coloring (dist_of rows) r (rows ! r)) @ shared (owner_coloring (dist_of rows) r (rows ! r))))
      = {dist_of rows ! r..<dist_of rows ! (r + 1)} \<and>
    distinct (map ent_id (exclusive (owner_coloring (dist_of rows) r (rows ! r)) @ shared (owner_coloring (dist_of rows) r (rows ! r))))"
proof -
  let ?P = "\<lambda>l. users (dist_of rows) r (rows ! r ! l) = {}" and ?k = "length (rows ! r)" and ?s = "dist_of rows ! r"
  have ids: "map ent_id (exclusive (owner_coloring (dist_of rows) r (rows ! r)) @ shared (owner_coloring (dist_of rows) r (rows ! r)))
      = map ((+) ?s) (filter ?P [0..<?k] @ filter (\<lambda>l. \<not> ?P l) [0..<?k])"
    by (simp add: owner_coloring_def own_entities_ids)
  have "set (filter ?P [0..<?k] @ filter (\<lambda>l. \<not> ?P l) [0..<?k]) = {0..<?k}" by auto
  then have "set (map ((+) ?s) (filter ?P [0..<?k] @ filter (\<lambda>l. \<not> ?P l) [0..<?k])) = (+) ?s ` {0..<?k}"
    by (simp only: set_map)
  moreover have "dist_of rows ! (r + 1) = ?s + ?k"
    using assms by (simp add: displacements_nth take_Suc_conv_app_nth)
  moreover have "distinct (map ((+) ?s) (filter ?P [0..<?k] @ filter (\<lambda>l. \<not> ?P l) [0..<?k]))"
    by (auto simp: distinct_map)
  ultimately show ?thesis unfolding ids by (simp add: add.commute)
qed

lemma ghost_fields:
  assumes "rank_graph rows" "r < length rows" "e \<in> set (ghost (owner_coloring (dist_of rows) r (rows ! r)))"
  shows "ent_id e = dist_of rows ! ent_rank e + ent_offset e \<and> ent_shared e = {r}"
proof -
  obtain d l where d: "e = ghost_entity (dist_of rows) r d" "l < length (rows ! r)" "d \<in> set (rows ! r ! l)"
    using assms(3) by (auto simp: owner_coloring_def foreign_upto_def foreign_def)
  have "d < length (concat rows)" by (rule rank_graph_bound[OF assms(1,2) d(2,3)])
  then show ?thesis
    using ghost_entity_fields[of d rows r] rank_of_dist[of d rows] assms(1,2) d(1) by (simp add: rank_graph_def)
qed

lemma owner_info_sets:
  assumes "rank_graph rows" "r < length rows"
  shows "shared_users (owner_info (dist_of rows) r (rows ! r))
      = \<Union> (ent_shared ` set (shared (owner_coloring (dist_of rows) r (rows ! r)))) \<and>
    ghost_owners (owner_info (dist_of rows) r (rows ! r)) = ent_rank ` set (ghost (owner_coloring (dist_of rows) r (rows ! r)))"
proof
  have f: "ent_shared (own_entity (dist_of rows) r (rows ! r) l) = users (dist_of rows) r (rows ! r ! l)"
    if "l < length (rows ! r)" for l
    using own_entity_fields[OF assms(2) that] assms(1) rank_graph_bound[OF assms that] by (simp add: rank_graph_def)
  have "set (shared (owner_coloring (dist_of rows) r (rows ! r)))
      = own_entity (dist_of rows) r (rows ! r) ` {l. l < length (rows ! r) \<and> users (dist_of rows) r (rows ! r ! l) \<noteq> {}}"
    by (simp add: owner_coloring_def own_entities_def)
  then show "shared_users (owner_info (dist_of rows) r (rows ! r))
      = \<Union> (ent_shared ` set (shared (owner_coloring (dist_of rows) r (rows ! r))))"
  proof -
    assume s: "set (shared (owner_coloring (dist_of rows) r (rows ! r)))
        = own_entity (dist_of rows) r (rows ! r) ` {l. l < length (rows ! r) \<and> users (dist_of rows) r (rows ! r ! l) \<noteq> {}}"
    have "\<Union> (ent_shared ` set (shared (owner_coloring (dist_of rows) r (rows ! r))))
        = (\<Union>l\<in>{l. l < length (rows ! r) \<and> users (dist_of rows) r (rows ! r ! l) \<noteq> {}}. users (dist_of rows) r (rows ! r ! l))"
      unfolding s by (simp add: f)
    then show ?thesis by (auto simp: owner_info_def Let_def)
  qed
  have "ent_rank (ghost_entity (dist_of rows) r d) = rank_of (dist_of rows) d"
    if "d \<in> foreign_upto (dist_of rows) r (rows ! r) (length (rows ! r))" for d
  proof -
    have "d < length (concat rows)" using that rank_graph_bound[OF assms] by (auto simp: foreign_upto_def foreign_def)
    then show ?thesis using ghost_entity_fields[of d rows r] assms by (simp add: rank_graph_def)
  qed
  moreover have "finite (foreign_upto (dist_of rows) r (rows ! r) (length (rows ! r)))"
    by (auto simp: foreign_upto_def foreign_def)
  ultimately show "ghost_owners (owner_info (dist_of rows) r (rows ! r)) = ent_rank ` set (ghost (owner_coloring (dist_of rows) r (rows ! r)))"
    by (simp add: owner_info_def owner_coloring_def Let_def image_image)
qed

definition no_entities :: index_coloring where
  "no_entities = \<lparr>primary = {}, exclusive = [], shared = [], ghost = []\<rparr>"

text \<open>
  C19: \<open>get_owner_info\<close> on all ranks of a symmetric graph. The exclusive and shared entities of a rank
  are its block, each once; an entity is a ghost owned by rank \<open>q\<close> in the view of rank \<open>r\<close> if and only
  if rank \<open>q\<close> lists it as shared with \<open>r\<close>; the owner and offset of a ghost locate it; and the counts,
  users and owners of the summary are those of the lists.
\<close>

theorem owner_info_consistent:
  assumes "rank_graph rows" "symmetric_graph rows"
  shows "\<exists>cols infos. length cols = length rows \<and> length infos = length rows \<and>
    (\<forall>r<length rows. get_owner_info r (dcrs_of (rows ! r) (dist_of rows))
        (no_entities, i\<lparr>shared_users := {}, ghost_owners := {}\<rparr>) = ok (cols ! r, infos ! r)) \<and>
    (\<forall>r<length rows. set (map ent_id (exclusive (cols ! r) @ shared (cols ! r))) = {dist_of rows ! r..<dist_of rows ! (r + 1)} \<and>
        distinct (map ent_id (exclusive (cols ! r) @ shared (cols ! r)))) \<and>
    (\<forall>r<length rows. \<forall>q<length rows. \<forall>d. (\<exists>e\<in>set (ghost (cols ! r)). ent_id e = d \<and> ent_rank e = q) \<longleftrightarrow>
        (\<exists>e\<in>set (shared (cols ! q)). ent_id e = d \<and> r \<in> ent_shared e)) \<and>
    (\<forall>r<length rows. \<forall>e\<in>set (ghost (cols ! r)). ent_id e = dist_of rows ! ent_rank e + ent_offset e) \<and>
    (\<forall>r<length rows. infos ! r = \<lparr>num_exclusive = length (exclusive (cols ! r)), num_shared = length (shared (cols ! r)),
        num_ghost = length (ghost (cols ! r)), shared_users = \<Union> (ent_shared ` set (shared (cols ! r))),
        ghost_owners = ent_rank ` set (ghost (cols ! r))\<rparr>)"
proof (intro exI[of _ "map (\<lambda>r. owner_coloring (dist_of rows) r (rows ! r)) [0..<length rows]"]
    exI[of _ "map (\<lambda>r. owner_info (dist_of rows) r (rows ! r)) [0..<length rows]"] conjI allI impI)
  let ?cols = "map (\<lambda>r. owner_coloring (dist_of rows) r (rows ! r)) [0..<length rows]"
  let ?infos = "map (\<lambda>r. owner_info (dist_of rows) r (rows ! r)) [0..<length rows]"
  have n: "length rows < 2 ^ 64 - 1" "length (concat rows) < 2 ^ 64" using assms(1) by (simp_all add: rank_graph_def)
  show "length ?cols = length rows" "length ?infos = length rows" by simp_all
  show "get_owner_info r (dcrs_of (rows ! r) (dist_of rows)) (no_entities, i\<lparr>shared_users := {}, ghost_owners := {}\<rparr>)
      = ok (?cols ! r, ?infos ! r)" if "r < length rows" for r
    using get_owner_info_closed[OF that n, of i] assms(1) that by (simp add: no_entities_def rank_graph_def)
  show "set (map ent_id (exclusive (?cols ! r) @ shared (?cols ! r))) = {dist_of rows ! r..<dist_of rows ! (r + 1)}"
    "distinct (map ent_id (exclusive (?cols ! r) @ shared (?cols ! r)))" if "r < length rows" for r
    using block_partition[OF that] that by simp_all
  show "(\<exists>e\<in>set (ghost (?cols ! r)). ent_id e = d \<and> ent_rank e = q) \<longleftrightarrow>
      (\<exists>e\<in>set (shared (?cols ! q)). ent_id e = d \<and> r \<in> ent_shared e)" if "r < length rows" "q < length rows" for r q d
    using ghost_iff_shared[OF assms that] that by simp
  show "\<forall>e\<in>set (ghost (?cols ! r)). ent_id e = dist_of rows ! ent_rank e + ent_offset e" if "r < length rows" for r
    using ghost_fields[OF assms(1) that] that by simp
  show "?infos ! r = \<lparr>num_exclusive = length (exclusive (?cols ! r)), num_shared = length (shared (?cols ! r)),
        num_ghost = length (ghost (?cols ! r)), shared_users = \<Union> (ent_shared ` set (shared (?cols ! r))),
        ghost_owners = ent_rank ` set (ghost (?cols ! r))\<rparr>" if "r < length rows" for r
    using owner_info_sets[OF assms(1) that] that by (simp add: owner_info_def Let_def)
qed

lemma owner_info_consistent_witness:
  "\<exists>cols infos. get_owner_info 0 (dcrs_of [[1], [0, 2]] [0, 2, 4]) (no_entities, \<lparr>num_exclusive = 9, num_shared = 9,
      num_ghost = 9, shared_users = {}, ghost_owners = {}\<rparr>) = ok (cols ! 0, infos ! 0) \<and>
    set (map ent_id (exclusive (cols ! 0) @ shared (cols ! 0))) = {0, 1} \<and>
    (\<exists>e\<in>set (ghost (cols ! 0)). ent_id e = 2 \<and> ent_rank e = (1::nat)) = (\<exists>e\<in>set (shared (cols ! 1)). ent_id e = 2 \<and> 0 \<in> ent_shared e)"
proof -
  let ?rows = "[[[1], [0, 2]], [[1, 3], [2]]] :: nat list list list"
  let ?i = "\<lparr>num_exclusive = 9, num_shared = 9, num_ghost = 9, shared_users = {}, ghost_owners = {}\<rparr> :: coloring_info"
  have g: "rank_graph ?rows" by (simp add: rank_graph_def)
  have s: "symmetric_graph ?rows" by (simp add: symmetric_graph_def less_Suc_eq numeral_eq_Suc)
  have b: "{0..<Suc (Suc 0)} = {0, Suc 0}" by auto
  show ?thesis
    using owner_info_consistent[OF g s, of ?i]
  proof (elim exE conjE)
    fix cols infos
    assume c: "\<forall>r<length ?rows. get_owner_info r (dcrs_of (?rows ! r) (dist_of ?rows))
        (no_entities, ?i\<lparr>shared_users := {}, ghost_owners := {}\<rparr>) = ok (cols ! r, infos ! r)"
      "\<forall>r<length ?rows. set (map ent_id (exclusive (cols ! r) @ shared (cols ! r))) = {dist_of ?rows ! r..<dist_of ?rows ! (r + 1)} \<and>
        distinct (map ent_id (exclusive (cols ! r) @ shared (cols ! r)))"
      "\<forall>r<length ?rows. \<forall>q<length ?rows. \<forall>d. (\<exists>e\<in>set (ghost (cols ! r)). ent_id e = d \<and> ent_rank e = q) \<longleftrightarrow>
        (\<exists>e\<in>set (shared (cols ! q)). ent_id e = d \<and> r \<in> ent_shared e)"
    show ?thesis
      using c(1)[rule_format, of 0] c(2)[rule_format, of 0] c(3)[rule_format, of 0 1 2]
      by (intro exI[of _ cols] exI[of _ infos]) (simp add: displacements_def b eval_nat_numeral)
  qed
qed


section \<open>Ghost connectivity\<close>

lemma distinct_filter_eq: "distinct xs \<Longrightarrow> filter (\<lambda>y. y = x) xs = (if x \<in> set xs then [x] else [])"
  by (induction xs) auto

text \<open>The records rank \<open>s\<close> sends to rank \<open>r\<close>: its shared entities with user \<open>r\<close>, in their order.\<close>

definition rows_for :: "nat \<Rightarrow> nat \<Rightarrow> nat list list \<Rightarrow> nat list \<Rightarrow> entity_info list \<Rightarrow> (nat \<times> nat list) list" where
  "rows_for r s rows local2global es = (if r = s then []
     else map (\<lambda>e. (ent_id e, map ((!) local2global) (rows ! ent_offset e))) (filter (\<lambda>e. r \<in> ent_shared e) es))"

lemma take_rows:
  "fold_outcome (\<lambda>(i, ids). take_row i ids) ms (map fst done, crs_of (map snd done))
   = ok (map fst (done @ ms), crs_of (map snd (done @ ms)))"
proof (induction ms arbitrary: "done")
  case (Cons m ms)
  obtain i ids where m: "m = (i, ids)" by (cases m)
  have "take_row i ids (map fst done, crs_of (map snd done)) = ok (map fst (done @ [m]), crs_of (map snd (done @ [m])))"
    by (simp add: take_row_def crs_of_def offsets_of_snoc last_offsets_of m)
  then show ?case using Cons.IH[of "done @ [m]"] by (simp add: m)
qed simp

lemma read_rows_concat:
  assumes "mail = mail_of (map (\<lambda>r. concat (map tagged (L r))) [0..<n])"
  shows "read_rows n mail = ok (map fst (concat (map L [0..<n])), crs_of (map snd (concat (map L [0..<n]))))"
proof -
  have seg: "read_tagged Undefined take_row (received mail r) s = fold_outcome (\<lambda>(i, ids). take_row i ids) (L r) s"
    if "r < n" for r s
    using assms that by (simp add: read_tagged_rows)
  have "k \<le> n \<Longrightarrow> fold_outcome (\<lambda>r. read_tagged Undefined take_row (received mail r)) [0..<k] ([], crs_of [])
      = ok (map fst (concat (map L [0..<k])), crs_of (map snd (concat (map L [0..<k]))))" for k
  proof (induction k)
    case (Suc k)
    then show ?case using seg[of k] take_rows[of "L k" "concat (map L [0..<k])"] by simp
  qed simp
  from this[of n] show ?thesis by (simp add: read_rows_def crs_of_def offsets_of_def)
qed

text \<open>Messages to the users of each entity: the words for one rank.\<close>

lemma letter_users:
  assumes "\<forall>e\<in>set es. finite (ent_shared e)"
  shows "letter self (concat (map (\<lambda>e. map (\<lambda>r. (r, if r = self then [] else w e)) (sorted_list_of_set (ent_shared e))) es)) r
    = (if r = self then [] else concat (map w (filter (\<lambda>e. r \<in> ent_shared e) es)))"
proof (cases "r = self")
  case False
  let ?ms = "\<lambda>e. map (\<lambda>r. (r, if r = self then [] else w e)) (sorted_list_of_set (ent_shared e))"
  have "concat (map snd (filter (\<lambda>m. fst m = r) (?ms e))) = (if r \<in> ent_shared e then w e else [])" if "e \<in> set es" for e
  proof -
    have "filter (\<lambda>q. q = r) (sorted_list_of_set (ent_shared e)) = (if r \<in> ent_shared e then [r] else [])"
      using assms that distinct_filter_eq[of "sorted_list_of_set (ent_shared e)" r] by simp
    then show ?thesis using False by (simp add: filter_map comp_def)
  qed
  then have "concat (map snd (filter (\<lambda>m. fst m = r) (concat (map ?ms es))))
      = concat (map (\<lambda>e. if r \<in> ent_shared e then w e else []) es)"
    by (induction es) auto
  also have "\<dots> = concat (map w (filter (\<lambda>e. r \<in> ent_shared e) es))" by (induction es) auto
  finally show ?thesis using False by (simp add: letter_def)
qed (simp add: letter_def)

lemma shared_messages_rows:
  assumes "\<And>e. e \<in> set es \<Longrightarrow> ent_offset e < length rows \<and> finite (ent_shared e)"
    and "\<And>row i. row \<in> set rows \<Longrightarrow> i \<in> set row \<Longrightarrow> i < length local2global"
  shows "\<exists>ms. shared_messages self (crs_of rows) local2global es = ok ms \<and>
    (\<forall>m\<in>set ms. \<exists>e\<in>set es. fst m \<in> ent_shared e) \<and>
    (\<forall>r. letter self ms r = concat (map tagged (rows_for r self rows local2global es)))"
proof -
  let ?row = "\<lambda>e. map ((!) local2global) (rows ! ent_offset e)"
  let ?ms = "\<lambda>e. map (\<lambda>r. (r, if r = self then [] else tagged (ent_id e, ?row e))) (sorted_list_of_set (ent_shared e))"
  have one: "and_then (crs_row (crs_of rows) (ent_offset e)) (\<lambda>row. traverse (\<lambda>r. if r = self then ok (r, [])
      else and_then (traverse (\<lambda>i. if i < length local2global then ok (local2global ! i) else fail Undefined) row)
        (\<lambda>ids. ok (r, ent_id e # length ids # ids))) (sorted_list_of_set (ent_shared e))) = ok (?ms e)" if e: "e \<in> set es" for e
  proof -
    have o: "ent_offset e < length rows" using assms(1)[OF e] by simp
    have "traverse (\<lambda>i. if i < length local2global then ok (local2global ! i) else fail Undefined) (rows ! ent_offset e)
        = ok (?row e)"
      using assms(2)[OF nth_mem[OF o]] by (intro traverse_ok) simp
    then show ?thesis using o by (simp add: crs_row_rows) (rule traverse_ok, simp add: tagged_def)
  qed
  have ok: "shared_messages self (crs_of rows) local2global es = ok (concat (map ?ms es))"
    unfolding shared_messages_def using traverse_ok[of es, OF one] by simp
  have fin: "\<forall>e\<in>set es. finite (ent_shared e)" using assms(1) by blast
  have "letter self (concat (map ?ms es)) r = concat (map tagged (rows_for r self rows local2global es))" for r
    unfolding letter_users[OF fin] by (simp add: rows_for_def comp_def)
  moreover have "\<forall>m\<in>set (concat (map ?ms es)). \<exists>e\<in>set es. fst m \<in> ent_shared e" using assms(1) by fastforce
  ultimately show ?thesis using ok by blast
qed


definition ghost_rows :: "nat \<Rightarrow> nat list list list \<Rightarrow> nat list list \<Rightarrow> index_coloring list \<Rightarrow> nat \<Rightarrow> (nat \<times> nat list) list" where
  "ghost_rows n rows l2gs cols r = concat (map (\<lambda>s. rows_for r s (rows ! s) (l2gs ! s) (shared (cols ! s))) [0..<n])"

definition shareable :: "nat \<Rightarrow> nat list list \<Rightarrow> nat list \<Rightarrow> index_coloring \<Rightarrow> bool" where
  "shareable n rows local2global col \<longleftrightarrow>
     (\<forall>e\<in>set (shared col). ent_offset e < length rows \<and> ent_shared e \<subseteq> {..<n}) \<and>
     (\<forall>row\<in>set rows. \<forall>i\<in>set row. i < length local2global)"

text \<open>
  C34: \<open>ghost_connectivity\<close> delivers to every rank, rank by rank in ascending order, one row for each
  entity that another rank shares with it, with the global ids of the entities it is connected to, and
  nothing else.
\<close>

theorem ghost_connectivity_rows:
  assumes c: "mpi_works n c" and ok: "\<forall>r<n. shareable n (rows ! r) (l2gs ! r) (cols ! r)"
  shows "ghost_connectivity c (map (\<lambda>r. (crs_of (rows ! r), l2gs ! r, cols ! r)) [0..<n])
    = ok (map (\<lambda>r. (map fst (ghost_rows n rows l2gs cols r), crs_of (map snd (ghost_rows n rows l2gs cols r)))) [0..<n])"
proof -
  let ?send = "\<lambda>s. shared_messages s (crs_of (rows ! s)) (l2gs ! s) (shared (cols ! s))"
  let ?L = "\<lambda>r s. rows_for r s (rows ! s) (l2gs ! s) (shared (cols ! s))"
  have "\<exists>ms. ?send s = ok ms \<and> ((\<forall>m\<in>set ms. fst m < n) \<and> (\<forall>r. letter s ms r = concat (map tagged (?L r s))))" if "s < n" for s
  proof -
    have sh: "shareable n (rows ! s) (l2gs ! s) (cols ! s)" using ok that by simp
    then have "ent_offset e < length (rows ! s) \<and> finite (ent_shared e)" if "e \<in> set (shared (cols ! s))" for e
      using that finite_subset[of "ent_shared e" "{..<n}"] by (auto simp: shareable_def)
    moreover have "i < length (l2gs ! s)" if "row \<in> set (rows ! s)" "i \<in> set row" for row i
      using sh that by (auto simp: shareable_def)
    ultimately obtain ms where "?send s = ok ms" "\<forall>m\<in>set ms. \<exists>e\<in>set (shared (cols ! s)). fst m \<in> ent_shared e"
      "\<forall>r. letter s ms r = concat (map tagged (?L r s))"
      using shared_messages_rows[of "shared (cols ! s)" "rows ! s" "l2gs ! s" s] by blast
    moreover have "\<forall>m\<in>set ms. fst m < n" using calculation(2) sh by (fastforce simp: shareable_def)
    ultimately show ?thesis by blast
  qed
  from traverse_choice[of n ?send "\<lambda>s ms. (\<forall>m\<in>set ms. fst m < n) \<and> (\<forall>r. letter s ms r = concat (map tagged (?L r s)))", OF this]
  obtain msgs where m: "traverse ?send [0..<n] = ok msgs" "length msgs = n"
    and msgs: "\<forall>s<n. (\<forall>m\<in>set (msgs ! s). fst m < n) \<and> (\<forall>r. letter s (msgs ! s) r = concat (map tagged (?L r s)))"
    by auto
  have sends: "traverse (\<lambda>r. case map (\<lambda>r. (crs_of (rows ! r), l2gs ! r, cols ! r)) [0..<n] ! r of (from2to, local2global, coloring) \<Rightarrow>
      shared_messages r from2to local2global (shared coloring)) [0..<n] = ok msgs"
    unfolding m(1)[symmetric] by (rule traverse_cong) simp_all
  have mails: "post c msgs = ok (map (\<lambda>r. mail_of (map (\<lambda>s. concat (map tagged (?L r s))) [0..<n])) [0..<n])"
    using msgs by (intro post_letters[OF c m(2)]) simp_all
  have "traverse (\<lambda>r. read_rows n (map (\<lambda>r. mail_of (map (\<lambda>s. concat (map tagged (?L r s))) [0..<n])) [0..<n] ! r)) [0..<n]
      = ok (map (\<lambda>r. (map fst (ghost_rows n rows l2gs cols r), crs_of (map snd (ghost_rows n rows l2gs cols r)))) [0..<n])"
  proof (rule traverse_ok)
    fix r assume "r \<in> set [0..<n]"
    then show "read_rows n (map (\<lambda>r. mail_of (map (\<lambda>s. concat (map tagged (?L r s))) [0..<n])) [0..<n] ! r)
        = ok (map fst (ghost_rows n rows l2gs cols r), crs_of (map snd (ghost_rows n rows l2gs cols r)))"
      using read_rows_concat[where n = n and L = "?L r", OF refl] by (simp add: ghost_rows_def)
  qed
  then show ?thesis using sends mails by (simp add: ghost_connectivity_def Let_def)
qed

lemma ghost_connectivity_rows_witness:
  "ghost_connectivity (ideal_mpi 2)
      [(crs_of [[0, 1], [1]], [7, 5], \<lparr>primary = {}, exclusive = [], shared = [make_entity_info 1 0 1 {1}], ghost = []\<rparr>),
       (crs_of [[1, 0]], [9, 5], \<lparr>primary = {}, exclusive = [], shared = [make_entity_info 2 1 0 {0}], ghost = []\<rparr>)]
    = ok [([2], crs_of [[5, 9]]), ([1], crs_of [[5]])]"
proof -
  let ?rows = "[[[0, 1], [1]], [[1, 0]]]" and ?l2gs = "[[7, 5], [9, 5]]"
  let ?cols = "[\<lparr>primary = {}, exclusive = [], shared = [make_entity_info 1 0 1 {1}], ghost = []\<rparr>,
      \<lparr>primary = {}, exclusive = [], shared = [make_entity_info 2 1 0 {0}], ghost = []\<rparr>]"
  have "\<forall>r<2. shareable 2 (?rows ! r) (?l2gs ! r) (?cols ! r)"
    by (auto simp: less_2_cases_iff shareable_def make_entity_info_def u32_wrap_def)
  from ghost_connectivity_rows[OF ideal_mpi_works this]
  show ?thesis
    by (simp add: ghost_rows_def rows_for_def make_entity_info_def u32_wrap_def upt_rec[of 0] upt_rec[of 1] upt_rec[of "Suc 0"])
qed

end
