(* ===== verification/Point_To_Point.thy ===== *)
theory Point_To_Point
  imports Exchange
begin

text \<open>
  Exchanges of single messages: every rank posts at most one \<open>MPI_Irecv\<close> and at most one
  \<open>MPI_Isend\<close> per other rank, all under one tag, and waits for all of them.  This is the pattern of
  execution/remap\_shared.h and of the ghost exchanges of execution/mpi/task\_prolog.h.
\<close>

text \<open>
  What a posted receive of a given size gets from the messages of a rank.  A receive without a
  message waits for ever, a message without a receive keeps its sender waiting, and a longer message
  is an error; a shorter one would leave the rest of the buffer as it was allocated.  MPI takes the
  size as an \<open>int\<close>, which the sizes of the source have to fit.
\<close>

definition arrival :: "nat option \<Rightarrow> nat list list \<Rightarrow> nat list outcome" where
  "arrival posted messages =
     (case (posted, messages) of
        (None, []) \<Rightarrow> ok []
      | (Some expected, [words]) \<Rightarrow> if length words = expected \<and> expected < 2 ^ 31 then ok words else fail Undefined
      | _ \<Rightarrow> fail Undefined)"

text \<open>\<open>sends ! s ! r\<close> is what rank \<open>s\<close> sends to rank \<open>r\<close>, \<open>recvs ! r ! s\<close> the size \<open>r\<close> expects from \<open>s\<close>.\<close>

definition p2p :: "mpi \<Rightarrow> nat list option list list \<Rightarrow> nat option list list \<Rightarrow> nat list list list outcome" where
  "p2p c sends recvs =
     (let n = length recvs;
          arrived = mpi_transfer c (map (map (\<lambda>m. case m of None \<Rightarrow> [] | Some words \<Rightarrow> [words])) sends)
      in traverse (\<lambda>r. traverse (\<lambda>s. arrival (recvs ! r ! s) (arrived ! r ! s)) [0..<n]) [0..<n])"

lemma p2p_delivers:
  assumes c: "mpi_works n c" and len: "length recvs = n" "square n sends"
    and match: "\<And>r s. r < n \<Longrightarrow> s < n \<Longrightarrow> recvs ! r ! s = map_option length (sends ! s ! r)"
    and small: "\<And>r s words. r < n \<Longrightarrow> s < n \<Longrightarrow> sends ! s ! r = Some words \<Longrightarrow> length words < 2 ^ 31"
  shows "p2p c sends recvs = ok (map (\<lambda>r. map (\<lambda>s. case sends ! s ! r of None \<Rightarrow> [] | Some words \<Rightarrow> words) [0..<n]) [0..<n])"
proof -
  let ?m = "map (map (\<lambda>m. case m of None \<Rightarrow> [] | Some words \<Rightarrow> [words])) sends"
  have "square n ?m" using len(2) by (auto simp: square_def)
  then have t: "mpi_transfer c ?m = map (column ?m) [0..<n]" using c by (simp add: mpi_works_def)
  have "arrival (recvs ! r ! s) (mpi_transfer c ?m ! r ! s) = ok (case sends ! s ! r of None \<Rightarrow> [] | Some words \<Rightarrow> words)"
    if r: "r < n" and s: "s < n" for r s
  proof -
    have ls: "length sends = n" "length (sends ! s) = n" using len(2) s by (auto simp: square_def)
    then have "mpi_transfer c ?m ! r ! s = (case sends ! s ! r of None \<Rightarrow> [] | Some words \<Rightarrow> [words])"
      using r s unfolding t by (simp add: column_def)
    then show ?thesis using match[OF r s] small[OF r s] by (simp add: arrival_def split: option.split)
  qed
  then show ?thesis
    unfolding p2p_def Let_def len(1) by (intro traverse_ok) simp
qed

end
