(* ===== verification/Communicator.thy ===== *)
theory Communicator
  imports Point_To_Point Ghost_Coloring
begin

text \<open>
  \<open>mpi_communicator_t\<close> of coloring/mpi\_communicator.h: the collectives with which the ranks find out who owns the
  entities they need, who needs theirs, and under which numbers.  Every operation is called by all ranks together and
  is modelled on the list of the ranks' arguments.  A \<open>std::set\<close> of indices is a set, visited in ascending order; a
  \<open>std::set\<close> of entities is the ascending list of them, in which no two have the same id; an unordered map is a map.
\<close>

section \<open>Index exchange\<close>

text \<open>\<open>std::numeric_limits<size_t>::max()\<close> marks the unused places of a buffer.\<close>

definition no_index :: nat where
  "no_index = 2 ^ 64 - 1"

definition put_word :: "nat \<Rightarrow> 'a \<Rightarrow> 'a list \<Rightarrow> 'a list outcome" where
  "put_word i x buf = (if i < length buf then ok (buf[i := x]) else fail Undefined)"

text \<open>\<open>MPI_Alltoall\<close> of \<open>k\<close> words per rank moves the words of a block one by one; the counts of all ranks have to be
  the same, and to fit the \<open>int\<close> MPI takes them as.\<close>

definition alltoall_words :: "mpi \<Rightarrow> nat list \<Rightarrow> nat list list \<Rightarrow> nat list list outcome" where
  "alltoall_words c counts bufs =
     (let n = length bufs in
      case remdups counts of
        [k] \<Rightarrow> if k < 2 ^ 31
          then (let words = map (\<lambda>i. mpi_alltoall c (map (\<lambda>buf. map (\<lambda>r. buf ! (r * k + i)) [0..<n]) bufs)) [0..<k]
                in ok (map (\<lambda>r. concat (map (\<lambda>s. map (\<lambda>i. words ! i ! r ! s) [0..<k]) [0..<n])) [0..<n]))
          else fail Undefined
      | _ \<Rightarrow> fail Undefined)"

definition get_max_request_size :: "mpi \<Rightarrow> nat list \<Rightarrow> nat list" where
  "get_max_request_size c sizes = mpi_allreduce_max c sizes"

definition info_input :: "nat \<Rightarrow> nat \<Rightarrow> nat set \<Rightarrow> nat list outcome" where
  "info_input colors k requests =
     fold_outcome (\<lambda>c. fold_outcome (\<lambda>(off, s). put_word (c * k + off) s) (enumerate 0 (sorted_list_of_set requests)))
       [0..<colors] (replicate (colors * k) no_index)"

definition get_info_indices :: "mpi \<Rightarrow> nat list \<Rightarrow> nat set list \<Rightarrow> nat list list outcome" where
  "get_info_indices c ks requests =
     and_then (traverse (\<lambda>r. info_input (length requests) (ks ! r) (requests ! r)) [0..<length requests])
       (alltoall_words c ks)"

section \<open>Owners\<close>

text \<open>The reply of a rank to the requests: which of its entities each other rank asked for, its color and the
  position of the entity for each request it can answer.\<close>

definition answer_request ::
    "nat \<Rightarrow> nat \<Rightarrow> nat set \<Rightarrow> nat list \<Rightarrow> nat \<times> nat \<Rightarrow> nat set list \<times> nat list \<times> nat list \<Rightarrow>
     (nat set list \<times> nat list \<times> nat list) outcome" where
  "answer_request color k owned info = (\<lambda>(r, i) (local, input, offsets).
     let x = info ! (r * k + i) in
     if x \<in> owned
     then let pos = length (filter (\<lambda>p. p < x) (sorted_list_of_set owned)) in
       and_then (put_word (r * k + i) color input) (\<lambda>input.
       and_then (put_word (r * k + i) pos offsets) (\<lambda>offsets.
       ok (local[pos := insert r (local ! pos)], input, offsets)))
     else ok (local, input, offsets))"

definition answer_requests :: "nat \<Rightarrow> nat \<Rightarrow> nat \<Rightarrow> nat set \<Rightarrow> nat list \<Rightarrow> (nat set list \<times> nat list \<times> nat list) outcome" where
  "answer_requests colors color k owned info =
     fold_outcome (\<lambda>r s. if r = color then ok s
         else fold_outcome (\<lambda>i. answer_request color k owned info (r, i)) [0..<k] s) [0..<colors]
       (replicate (card owned) {}, replicate (colors * k) no_index, replicate (colors * k) 0)"

text \<open>\<open>insert\<close> of a set that compares the ids of the entities.\<close>

definition insert_entity :: "entity_info \<Rightarrow> entity_info list \<Rightarrow> entity_info list" where
  "insert_entity e es = (if ent_id e \<in> ent_id ` set es then es else insort_key ent_id e es)"

text \<open>The initialiser \<open>{}\<close> selects the constructor that takes a single rank.\<close>

definition take_owner_answer ::
    "nat \<Rightarrow> nat list \<Rightarrow> nat list \<Rightarrow> nat list \<Rightarrow> nat \<times> nat \<Rightarrow> entity_info list \<Rightarrow> entity_info list outcome" where
  "take_owner_answer k request_indices ranks offsets = (\<lambda>(r, i) remote.
     if ranks ! (r * k + i) \<noteq> no_index
     then if i < length request_indices
       then ok (insert_entity (make_entity_info (request_indices ! i) (ranks ! (r * k + i)) (offsets ! (r * k + i)) {0}) remote)
       else fail Undefined
     else ok remote)"

definition take_owner_answers :: "nat \<Rightarrow> nat \<Rightarrow> nat \<Rightarrow> nat set \<Rightarrow> nat list \<Rightarrow> nat list \<Rightarrow> entity_info list outcome" where
  "take_owner_answers colors color k requests ranks offsets =
     fold_outcome (\<lambda>r s. if r = color then ok s
         else fold_outcome (\<lambda>i. take_owner_answer k (sorted_list_of_set requests) ranks offsets (r, i)) [0..<k] s) [0..<colors] []"

definition get_primary_info ::
    "mpi \<Rightarrow> (nat set \<times> nat set) list \<Rightarrow> (nat set list \<times> entity_info list) list outcome" where
  "get_primary_info c args =
     (let n = length args; ks = get_max_request_size c (map (\<lambda>(owned, requests). card requests) args)
      in and_then (get_info_indices c ks (map snd args)) (\<lambda>infos.
         and_then (traverse (\<lambda>r. answer_requests n r (ks ! r) (fst (args ! r)) (infos ! r)) [0..<n]) (\<lambda>answers.
         and_then (alltoall_words c ks (map (\<lambda>(local, input, offsets). input) answers)) (\<lambda>ranks.
         and_then (alltoall_words c ks (map (\<lambda>(local, input, offsets). offsets) answers)) (\<lambda>offsets.
         traverse (\<lambda>r. and_then (take_owner_answers n r (ks ! r) (snd (args ! r)) (ranks ! r) (offsets ! r)) (\<lambda>remote.
           ok (fst (answers ! r), remote))) [0..<n])))))"

section \<open>Intersections and reductions\<close>

definition block_set :: "nat \<Rightarrow> nat \<Rightarrow> nat list \<Rightarrow> nat set" where
  "block_set k r info = fold (\<lambda>i s. if info ! (r * k + i) \<noteq> no_index then insert (info ! (r * k + i)) s else s) [0..<k] {}"

definition get_intersection_info :: "mpi \<Rightarrow> nat set list \<Rightarrow> (nat, nat set) std_map list outcome" where
  "get_intersection_info c requests =
     (let n = length requests; ks = get_max_request_size c (map card requests)
      in and_then (get_info_indices c ks requests) (\<lambda>infos.
         ok (map (\<lambda>color. fold (\<lambda>r m. if r = color then m
              else let intersection = block_set (ks ! color) r (infos ! color) \<inter> requests ! color
                   in if card intersection \<noteq> 0 then std_put r intersection m else m) [0..<n] []) [0..<n])))"

definition get_entity_reduction :: "mpi \<Rightarrow> nat set list \<Rightarrow> (nat, nat set) std_map list outcome" where
  "get_entity_reduction c indices =
     (let n = length indices; ks = get_max_request_size c (map card indices)
      in and_then (get_info_indices c ks indices) (\<lambda>infos.
         ok (map (\<lambda>color. fold (\<lambda>r. std_put r (block_set (ks ! color) r (infos ! color))) [0..<n] []) [0..<n])))"

section \<open>Offsets\<close>

text \<open>The answer to a request for an entity the rank does not have is the offset of a default entity.\<close>

definition offset_of :: "entity_info list \<Rightarrow> nat \<Rightarrow> nat" where
  "offset_of ents i = (case map_of (fold (\<lambda>e. std_put (ent_id e) (ent_offset e)) ents []) i of None \<Rightarrow> 0 | Some l \<Rightarrow> l)"

definition some_words :: "nat list \<Rightarrow> nat list option" where
  "some_words words = (if words = [] then None else Some words)"

definition some_count :: "nat \<Rightarrow> nat option" where
  "some_count n = (if n = 0 then None else Some n)"

definition get_entity_info :: "mpi \<Rightarrow> (entity_info list \<times> nat set list) list \<Rightarrow> nat set list list outcome" where
  "get_entity_info c args =
     (let n = length args;
          send_cnts = map (\<lambda>(ents, requests). map card requests) args;
          recv_cnts = mpi_alltoall c send_cnts
      in and_then (p2p c (map (\<lambda>(ents, requests). map (\<lambda>q. some_words (sorted_list_of_set q)) requests) args)
             (map (map some_count) recv_cnts)) (\<lambda>asked.
         and_then (p2p c (map (\<lambda>r. map (\<lambda>words. some_words (map (offset_of (fst (args ! r))) words)) (asked ! r)) [0..<n])
             (map (map some_count) send_cnts)) (\<lambda>answers.
         ok (map (map set) answers))))"

section \<open>Sizes\<close>

definition gather_sizes :: "mpi \<Rightarrow> nat list \<Rightarrow> nat list list" where
  "gather_sizes c sizes = mpi_allgather c sizes"

text \<open>The bytes of the three counts are gathered; the sets of a coloring are not.\<close>

definition gather_coloring_info :: "mpi \<Rightarrow> coloring_info list \<Rightarrow> (nat, coloring_info) std_map list" where
  "gather_coloring_info c infos =
     (let es = mpi_allgather c (map num_exclusive infos); ss = mpi_allgather c (map num_shared infos);
          gs = mpi_allgather c (map num_ghost infos)
      in map (\<lambda>r. fold (\<lambda>q. std_put q \<lparr>num_exclusive = es ! r ! q, num_shared = ss ! r ! q, num_ghost = gs ! r ! q,
             shared_users = {}, ghost_owners = {}\<rparr>) [0..<length infos] []) [0..<length infos])"


section \<open>What the exchange delivers\<close>

lemma put_word_ok [simp]: "i < length buf \<Longrightarrow> put_word i x buf = ok (buf[i := x])"
  by (simp add: put_word_def)

lemma block_index: "i < k \<Longrightarrow> r < n \<Longrightarrow> r * k + i < n * (k :: nat)"
proof -
  assume i: "i < k" and r: "r < n"
  have "r * k + i < (r + 1) * k" using i by simp
  also have "\<dots> \<le> n * k" using r by (intro mult_le_mono1) simp
  finally show ?thesis .
qed

lemma block_index_eq: "i < k \<Longrightarrow> j < k \<Longrightarrow> r * k + i = s * k + j \<longleftrightarrow> r = s \<and> i = (j :: nat)"
proof
  assume h: "i < k" "j < k" "r * k + i = s * k + j"
  have "r = (r * k + i) div k" "s = (s * k + j) div k" using h(1,2) by simp_all
  then have "r = s" using h(3) by metis
  then show "r = s \<and> i = j" using h(3) by simp
qed simp

lemma nth_blocks:
  "s < n \<Longrightarrow> i < k \<Longrightarrow> concat (map (\<lambda>s. map (g s) [0..<k]) [0..<n]) ! (s * k + i) = g s i"
  "length (concat (map (\<lambda>s. map (g s) [0..<k]) [0..<n])) = n * k"
proof -
  show l: "length (concat (map (\<lambda>s. map (g s) [0..<k]) [0..<n])) = n * k" for n by (induction n) simp_all
  show "concat (map (\<lambda>s. map (g s) [0..<k]) [0..<n]) ! (s * k + i) = g s i" if "s < n" "i < k"
    using that(1)
  proof (induction n)
    case (Suc n)
    show ?case
    proof (cases "s = n")
      case True
      then show ?thesis using that(2) l[of n] by (simp add: nth_append)
    next
      case False
      then have "s < n" using Suc.prems by simp
      then show ?thesis using Suc.IH l[of n] block_index[OF that(2)] by (simp add: nth_append)
    qed
  qed simp
qed

lemma alltoall_blocks:
  assumes c: "mpi_works n c" and n: "0 < n" "length bufs = n" and k: "k < 2 ^ 31"
  shows "\<exists>out. alltoall_words c (replicate n k) bufs = ok out \<and> length out = n \<and>
    (\<forall>r<n. length (out ! r) = n * k \<and> (\<forall>s<n. \<forall>i<k. out ! r ! (s * k + i) = bufs ! s ! (r * k + i)))"
proof -
  let ?w = "\<lambda>i. mpi_alltoall c (map (\<lambda>buf. map (\<lambda>r. buf ! (r * k + i)) [0..<n]) bufs)"
  let ?out = "map (\<lambda>r. concat (map (\<lambda>s. map (\<lambda>i. map ?w [0..<k] ! i ! r ! s) [0..<k]) [0..<n])) [0..<n]"
  have "remdups (replicate n k) = [k]" using n(1) by (induction n) (auto simp: replicate_0[symmetric] simp del: replicate_0)
  then have "alltoall_words c (replicate n k) bufs = ok ?out" using n(2) k by (simp add: alltoall_words_def Let_def)
  moreover have "?w i ! r ! s = bufs ! s ! (r * k + i)" if "r < n" "s < n" for i r s
  proof -
    have "square n (map (\<lambda>buf. map (\<lambda>r. buf ! (r * k + i)) [0..<n]) bufs)" using n(2) by (auto simp: square_def)
    then have "?w i = map (column (map (\<lambda>buf. map (\<lambda>r. buf ! (r * k + i)) [0..<n]) bufs)) [0..<n]"
      using c by (simp add: mpi_works_def)
    then show ?thesis using that n(2) by (simp add: column_def)
  qed
  moreover have "length (?out ! r) = n * k \<and> (\<forall>s<n. \<forall>i<k. ?out ! r ! (s * k + i) = ?w i ! r ! s)" if "r < n" for r
  proof (intro conjI allI impI)
    let ?G = "\<lambda>s i. map ?w [0..<k] ! i ! r ! s"
    have o: "?out ! r = concat (map (\<lambda>s. map (?G s) [0..<k]) [0..<n])" using that by simp
    show "length (?out ! r) = n * k" unfolding o by (rule nth_blocks(2))
    show "?out ! r ! (s * k + i) = ?w i ! r ! s" if "s < n" "i < k" for s i
      unfolding o nth_blocks(1)[OF that] using that by simp
  qed
  ultimately show ?thesis by (intro exI[of _ ?out]) simp
qed

lemma fold_put:
  assumes "distinct (map ix xs)" "\<forall>x\<in>set xs. ix x < length buf"
  shows "\<exists>out. fold_outcome (\<lambda>x. put_word (ix x) (val x)) xs buf = ok out \<and> length out = length buf \<and>
    (\<forall>x\<in>set xs. out ! ix x = val x) \<and> (\<forall>j. j \<notin> ix ` set xs \<longrightarrow> out ! j = buf ! j)"
  using assms
proof (induction xs rule: rev_induct)
  case (snoc x xs)
  then obtain out where o: "fold_outcome (\<lambda>x. put_word (ix x) (val x)) xs buf = ok out" "length out = length buf"
    "\<forall>x\<in>set xs. out ! ix x = val x" "\<forall>j. j \<notin> ix ` set xs \<longrightarrow> out ! j = buf ! j" by auto
  have "ix y \<noteq> ix x" if "y \<in> set xs" for y using snoc.prems(1) that by (metis Int_iff distinct_append empty_iff image_eqI insert_iff list.map(2) list.set(2) list.set_map map_append)
  then have "\<forall>y\<in>set xs. out[ix x := val x] ! ix y = val y" using o(3) by (metis nth_list_update_neq)
  then show ?case using o snoc.prems(2) by (intro exI[of _ "out[ix x := val x]"]) auto
qed simp

text \<open>Place \<open>i\<close> of the block a rank sends.\<close>

definition info_word :: "nat set \<Rightarrow> nat \<Rightarrow> nat" where
  "info_word requests i = (if i < card requests then sorted_list_of_set requests ! i else no_index)"

lemma info_input_words:
  assumes "finite requests" "card requests \<le> k"
  shows "\<exists>buf. info_input n k requests = ok buf \<and> length buf = n * k \<and>
    (\<forall>r<n. \<forall>i<k. buf ! (r * k + i) = info_word requests i)"
proof -
  let ?es = "enumerate 0 (sorted_list_of_set requests)"
  let ?ps = "concat (map (\<lambda>r. map (Pair r) ?es) [0..<n])" and ?ix = "\<lambda>(r, off, s). r * k + off"
  have es: "(i, s) \<in> set ?es \<longleftrightarrow> i < card requests \<and> s = sorted_list_of_set requests ! i" for i s
    using assms(1) by (auto simp: in_set_enumerate_eq)
  have "info_input n k requests = fold_outcome (\<lambda>x. put_word (?ix x) (snd (snd x))) ?ps (replicate (n * k) no_index)"
    unfolding info_input_def fold_outcome_nested by (rule arg_cong[where f = "\<lambda>f. fold_outcome f ?ps (replicate (n * k) no_index)"])
      (auto simp: fun_eq_iff)
  moreover have "distinct (map ?ix ?ps)"
  proof -
    have d: "distinct (map (\<lambda>(off, s). off) ?es)" by (simp add: enumerate_eq_zip split_beta' comp_def)
    have "distinct (map ?ix (concat (map (\<lambda>r. map (Pair r) ?es) [0..<m])))" for m
    proof (induction m)
      case (Suc m)
      have "map ?ix (map (Pair m) ?es) = map ((+) (m * k)) (map (\<lambda>(off, s). off) ?es)" by auto
      moreover have "distinct (map ((+) (m * k)) (map (\<lambda>(off, s). off) ?es))"
        using d by (subst distinct_map) (simp add: inj_on_def)
      ultimately have "distinct (map ?ix (map (Pair m) ?es))" by metis
      moreover have "?ix ` set (map (Pair m) ?es) \<inter> ?ix ` set (concat (map (\<lambda>r. map (Pair r) ?es) [0..<m])) = {}"
        using assms(2) es by (fastforce simp: block_index_eq)
      moreover have "map ?ix (concat (map (\<lambda>r. map (Pair r) ?es) [0..<Suc m]))
          = map ?ix (concat (map (\<lambda>r. map (Pair r) ?es) [0..<m])) @ map ?ix (map (Pair m) ?es)" by simp
      ultimately show ?case using Suc by (simp only: distinct_append set_map) blast
    qed simp
    then show ?thesis .
  qed
  moreover have "\<forall>x\<in>set ?ps. ?ix x < length (replicate (n * k) no_index)"
    using es assms(2) block_index by fastforce
  ultimately obtain buf where b: "info_input n k requests = ok buf" "length buf = n * k"
    "\<forall>x\<in>set ?ps. buf ! ?ix x = snd (snd x)" "\<forall>j. j \<notin> ?ix ` set ?ps \<longrightarrow> buf ! j = replicate (n * k) no_index ! j"
    using fold_put[of ?ix ?ps "replicate (n * k) no_index" "\<lambda>x. snd (snd x)"] by auto
  have "buf ! (r * k + i) = info_word requests i" if r: "r < n" and i: "i < k" for r i
  proof (cases "i < card requests")
    case True
    then have "(i, sorted_list_of_set requests ! i) \<in> set ?es" using es by blast
    then have "(r, i, sorted_list_of_set requests ! i) \<in> set ?ps" using r by auto
    then show ?thesis using b(3) True by (fastforce simp: info_word_def)
  next
    case False
    then have "r * k + i \<notin> ?ix ` set ?ps" using es i assms(2) by (fastforce simp: block_index_eq)
    then show ?thesis using b(4) False block_index[OF i r] by (simp add: info_word_def)
  qed
  then show ?thesis using b(1,2) by blast
qed


text \<open>Every rank receives the requests of every rank.\<close>

lemma get_info_indices_words:
  assumes c: "mpi_works n c" and n: "0 < n" "length requests = n"
    and fin: "\<forall>q\<in>set requests. finite q" and k: "\<forall>q\<in>set requests. card q \<le> k" "k < 2 ^ 31"
  shows "\<exists>infos. get_info_indices c (replicate n k) requests = ok infos \<and> length infos = n \<and>
    (\<forall>r<n. length (infos ! r) = n * k \<and> (\<forall>s<n. \<forall>i<k. infos ! r ! (s * k + i) = info_word (requests ! s) i))"
proof -
  have "\<exists>bufs. traverse (\<lambda>r. info_input (length requests) (replicate n k ! r) (requests ! r)) [0..<n] = ok bufs \<and>
      length bufs = n \<and> (\<forall>s<n. info_input (length requests) (replicate n k ! s) (requests ! s) = ok (bufs ! s) \<and>
        (\<forall>r<n. \<forall>i<k. bufs ! s ! (r * k + i) = info_word (requests ! s) i))"
  proof (rule traverse_choice)
    fix s assume "s < n"
    then have "requests ! s \<in> set requests" using n(2) by simp
    then show "\<exists>x. info_input (length requests) (replicate n k ! s) (requests ! s) = ok x \<and>
        (\<forall>r<n. \<forall>i<k. x ! (r * k + i) = info_word (requests ! s) i)"
      using info_input_words[of "requests ! s" k n] fin k(1) n(2) \<open>s < n\<close> by auto
  qed
  then obtain bufs where b: "traverse (\<lambda>r. info_input (length requests) (replicate n k ! r) (requests ! r)) [0..<n] = ok bufs"
    "length bufs = n" "\<forall>s<n. \<forall>r<n. \<forall>i<k. bufs ! s ! (r * k + i) = info_word (requests ! s) i" by blast
  from alltoall_blocks[OF c n(1) b(2) k(2)] show ?thesis
    using b(1,3) n(2) by (auto simp: get_info_indices_def)
qed

lemma info_word_in:
  assumes "finite requests" "finite owned" "no_index \<notin> owned"
  shows "info_word requests i \<in> owned \<longleftrightarrow> i < card requests \<and> sorted_list_of_set requests ! i \<in> owned"
  using assms(3) by (simp add: info_word_def)

text \<open>The requests in the blocks a loop has visited.\<close>

definition entity_position :: "nat set \<Rightarrow> nat \<Rightarrow> nat" where
  "entity_position owned x = length (filter (\<lambda>p. p < x) (sorted_list_of_set owned))"

lemma entity_position_nth:
  assumes "finite owned" "p < card owned"
  shows "entity_position owned (sorted_list_of_set owned ! p) = p"
proof -
  have "length (filter (\<lambda>y. y < xs ! p) xs) = p" if "sorted_wrt (<) xs" "p < length xs" for xs :: "nat list"
    using that
  proof (induction xs arbitrary: p)
    case (Cons x xs)
    show ?case
    proof (cases p)
      case 0
      then show ?thesis using Cons.prems(1) by (auto simp: filter_empty_conv)
    next
      case (Suc p')
      then have "x < xs ! p'" using Cons.prems by simp
      then show ?thesis using Suc Cons by simp
    qed
  qed simp
  then show ?thesis using assms by (simp add: entity_position_def strict_sorted_list_of_set)
qed

lemma entity_position_less: "finite owned \<Longrightarrow> x \<in> owned \<Longrightarrow> entity_position owned x < card owned \<and> sorted_list_of_set owned ! entity_position owned x = x"
  using entity_position_nth[of owned] by (metis in_set_conv_nth length_sorted_list_of_set set_sorted_list_of_set)

lemma skip_self: "fold_outcome (\<lambda>r s. if r = color then ok s else fold_outcome (\<lambda>i. f (r, i)) [0..<k] s) [0..<n] s
  = fold_outcome f (concat (map (\<lambda>r. if r = color then [] else map (Pair r) [0..<k]) [0..<n])) s"
proof -
  have "fold_outcome (\<lambda>r s. if r = color then ok s else fold_outcome (\<lambda>i. f (r, i)) [0..<k] s) [0..<n] s
      = fold_outcome (\<lambda>r. fold_outcome f (if r = color then [] else map (Pair r) [0..<k])) [0..<n] s"
  proof (rule fold_outcome_cong)
    show "(if r = color then ok s else fold_outcome (\<lambda>i. f (r, i)) [0..<k] s)
        = fold_outcome f (if r = color then [] else map (Pair r) [0..<k]) s" for r s
    proof -
      have "fold_outcome (\<lambda>i. f (r, i)) xs s = fold_outcome f (map (Pair r) xs) s" for xs s
      proof (induction xs arbitrary: s)
        case (Cons x xs)
        then have "fold_outcome (\<lambda>i. f (r, i)) xs = fold_outcome f (map (Pair r) xs)" by (rule ext)
        then show ?case by simp
      qed simp
      then show ?thesis by simp
    qed
  qed simp_all
  then show ?thesis by (simp only: fold_outcome_concat)
qed

lemma set_visited: "(r, i) \<in> set (concat (map (\<lambda>r. if r = color then [] else map (Pair r) [0..<k]) [0..<n]))
    \<longleftrightarrow> r < n \<and> r \<noteq> color \<and> i < k"
proof -
  have a: "(r, i) \<in> set (if q = color then [] else map (Pair q) [0..<k]) \<longleftrightarrow> q = r \<and> r \<noteq> color \<and> i < k" for q by auto
  have b: "(r, i) \<in> set (concat (map h [0..<n])) \<longleftrightarrow> (\<exists>q<n. (r, i) \<in> set (h q))" for h :: "nat \<Rightarrow> (nat \<times> nat) list"
    by auto
  show ?thesis unfolding b a by blast
qed

lemma answer_requests_words:
  assumes own: "finite owned" and info: "\<forall>r<n. \<forall>i<k. info ! (r * k + i) = w r i" "length info = n * k"
  shows "\<exists>loc inp off. answer_requests n color k owned info = ok (loc, inp, off) \<and> length loc = card owned \<and>
    length inp = n * k \<and> length off = n * k \<and>
    (\<forall>r<n. \<forall>i<k. inp ! (r * k + i) = (if r \<noteq> color \<and> w r i \<in> owned then color else no_index) \<and>
       off ! (r * k + i) = (if r \<noteq> color \<and> w r i \<in> owned then entity_position owned (w r i) else 0)) \<and>
    (\<forall>p<card owned. loc ! p = {r. r < n \<and> r \<noteq> color \<and> (\<exists>i<k. w r i \<in> owned \<and> entity_position owned (w r i) = p)})"
proof -
  let ?all = "concat (map (\<lambda>r. if r = color then [] else map (Pair r) [0..<k]) [0..<n])"
  have all: "(r, i) \<in> set ?all \<longleftrightarrow> r < n \<and> r \<noteq> color \<and> i < k" for r i by (rule set_visited)
  have "\<exists>loc inp off. fold_outcome (answer_request color k owned info) es
        (replicate (card owned) {}, replicate (n * k) no_index, replicate (n * k) 0) = ok (loc, inp, off) \<and>
      length loc = card owned \<and> length inp = n * k \<and> length off = n * k \<and>
      (\<forall>r<n. \<forall>i<k. inp ! (r * k + i) = (if (r, i) \<in> set es \<and> w r i \<in> owned then color else no_index) \<and>
         off ! (r * k + i) = (if (r, i) \<in> set es \<and> w r i \<in> owned then entity_position owned (w r i) else 0)) \<and>
      (\<forall>p<card owned. loc ! p = {r. \<exists>i. (r, i) \<in> set es \<and> w r i \<in> owned \<and> entity_position owned (w r i) = p})"
    if "set es \<subseteq> {(r, i). r < n \<and> i < k}" for es
    using that
  proof (induction es rule: rev_induct)
    case Nil
    then show ?case using block_index by auto
  next
    case (snoc e es)
    obtain q j where e: "e = (q, j)" by (cases e)
    have q: "q < n" "j < k" using snoc.prems e by auto
    obtain loc inp off where s: "fold_outcome (answer_request color k owned info) es
        (replicate (card owned) {}, replicate (n * k) no_index, replicate (n * k) 0) = ok (loc, inp, off)"
      "length loc = card owned" "length inp = n * k" "length off = n * k"
      "\<forall>r<n. \<forall>i<k. inp ! (r * k + i) = (if (r, i) \<in> set es \<and> w r i \<in> owned then color else no_index) \<and>
         off ! (r * k + i) = (if (r, i) \<in> set es \<and> w r i \<in> owned then entity_position owned (w r i) else 0)"
      "\<forall>p<card owned. loc ! p = {r. \<exists>i. (r, i) \<in> set es \<and> w r i \<in> owned \<and> entity_position owned (w r i) = p}"
      using snoc by auto
    have x: "info ! (q * k + j) = w q j" using info q by blast
    show ?case
    proof (cases "w q j \<in> owned")
      case False
      then show ?thesis using s x e by (intro exI[of _ loc] exI[of _ inp] exI[of _ off]) (auto simp: answer_request_def)
    next
      case True
      let ?p = "entity_position owned (w q j)"
      have p: "?p < card owned" using entity_position_less[OF own True] by blast
      have at: "(r * k + i = q * k + j) = (r = q \<and> i = j)" if "i < k" for r i by (rule block_index_eq[OF that q(2)])
      have "answer_request color k owned info e (loc, inp, off)
          = ok (loc[?p := insert q (loc ! ?p)], inp[q * k + j := color], off[q * k + j := ?p])"
        using True x e s(3,4) block_index[OF q(2,1)] by (simp add: answer_request_def Let_def entity_position_def)
      moreover have "loc[?p := insert q (loc ! ?p)] ! p = {r. \<exists>i. (r, i) \<in> set (es @ [e]) \<and> w r i \<in> owned \<and> entity_position owned (w r i) = p}"
        if "p < card owned" for p
      proof (cases "p = ?p")
        case here: True
        then have "loc[?p := insert q (loc ! ?p)] ! p = insert q (loc ! p)" using p s(2) by simp
        also have "\<dots> = insert q {r. \<exists>i. (r, i) \<in> set es \<and> w r i \<in> owned \<and> entity_position owned (w r i) = p}" using s(6) that by simp
        also have "\<dots> = {r. \<exists>i. (r, i) \<in> set (es @ [e]) \<and> w r i \<in> owned \<and> entity_position owned (w r i) = p}"
          using True here e by auto
        finally show ?thesis .
      next
        case False
        then show ?thesis using s(6) that e by auto
      qed
      moreover have "inp[q * k + j := color] ! (r * k + i) = (if (r, i) \<in> set (es @ [e]) \<and> w r i \<in> owned then color else no_index) \<and>
         off[q * k + j := ?p] ! (r * k + i) = (if (r, i) \<in> set (es @ [e]) \<and> w r i \<in> owned then entity_position owned (w r i) else 0)"
        if "r < n" "i < k" for r i
      proof (cases "r = q \<and> i = j")
        case here: True
        then show ?thesis using s(3,4) True e block_index[OF q(2,1)] by simp
      next
        case False
        then have "q * k + j \<noteq> r * k + i" using at[OF that(2), of r] by metis
        moreover have "(r, i) \<in> set (es @ [e]) \<longleftrightarrow> (r, i) \<in> set es" using False e by auto
        ultimately show ?thesis using s(5) that by simp
      qed
      ultimately show ?thesis using s(1-4) by simp
    qed
  qed
  note visited = this
  have "set ?all \<subseteq> {(r, i). r < n \<and> i < k}"
  proof
    fix x assume "x \<in> set ?all"
    then have "fst x < n \<and> snd x < k" unfolding all[of "fst x" "snd x", unfolded prod.collapse] by blast
    then show "x \<in> {(r, i). r < n \<and> i < k}" by (cases x) simp
  qed
  from visited[OF this] obtain loc inp off where s: "fold_outcome (answer_request color k owned info) ?all
        (replicate (card owned) {}, replicate (n * k) no_index, replicate (n * k) 0) = ok (loc, inp, off)"
      "length loc = card owned" "length inp = n * k" "length off = n * k"
      "\<forall>r<n. \<forall>i<k. inp ! (r * k + i) = (if (r, i) \<in> set ?all \<and> w r i \<in> owned then color else no_index) \<and>
         off ! (r * k + i) = (if (r, i) \<in> set ?all \<and> w r i \<in> owned then entity_position owned (w r i) else 0)"
      "\<forall>p<card owned. loc ! p = {r. \<exists>i. (r, i) \<in> set ?all \<and> w r i \<in> owned \<and> entity_position owned (w r i) = p}"
    by (elim exE conjE) (rule that)
  show ?thesis
  proof (intro exI conjI)
    show "answer_requests n color k owned info = ok (loc, inp, off)"
      unfolding answer_requests_def skip_self by (rule s(1))
    show "length loc = card owned" "length inp = n * k" "length off = n * k" using s(2-4) .
    show "\<forall>r<n. \<forall>i<k. inp ! (r * k + i) = (if r \<noteq> color \<and> w r i \<in> owned then color else no_index) \<and>
       off ! (r * k + i) = (if r \<noteq> color \<and> w r i \<in> owned then entity_position owned (w r i) else 0)"
      using s(5) unfolding all by simp
    show "\<forall>p<card owned. loc ! p = {r. r < n \<and> r \<noteq> color \<and> (\<exists>i<k. w r i \<in> owned \<and> entity_position owned (w r i) = p)}"
      using s(6) unfolding all by auto
  qed
qed


text \<open>What a rank makes of the answers.\<close>

lemma insert_entity_sorted:
  "sorted_wrt (<) (map ent_id es) \<Longrightarrow> sorted_wrt (<) (map ent_id (insert_entity e es))"
  by (auto simp: insert_entity_def strict_sorted_iff sorted_insort_key distinct_insort_key)

lemma insert_entity_set: "ent_id e \<notin> ent_id ` set es \<Longrightarrow> set (insert_entity e es) = insert e (set es)"
  by (simp add: insert_entity_def set_insort_key)

lemma insert_entity_old: "e \<in> set es \<Longrightarrow> insert_entity e es = es"
  by (simp add: insert_entity_def)

lemma take_owner_answers_entities:
  assumes req: "finite requests"
    and own: "\<forall>r<n. \<forall>i<k. ranks ! (r * k + i) \<noteq> no_index \<longrightarrow> i < card requests"
    and one: "\<forall>r<n. \<forall>q<n. \<forall>i<k. r \<noteq> color \<and> q \<noteq> color \<and> ranks ! (r * k + i) \<noteq> no_index \<and> ranks ! (q * k + i) \<noteq> no_index \<longrightarrow> r = q"
  shows "\<exists>remote. take_owner_answers n color k requests ranks offsets = ok remote \<and> sorted_wrt (<) (map ent_id remote) \<and>
    set remote = {make_entity_info (sorted_list_of_set requests ! i) (ranks ! (r * k + i)) (offsets ! (r * k + i)) {0} | r i.
      r < n \<and> r \<noteq> color \<and> i < k \<and> ranks ! (r * k + i) \<noteq> no_index}"
proof -
  let ?all = "concat (map (\<lambda>r. if r = color then [] else map (Pair r) [0..<k]) [0..<n])"
  let ?e = "\<lambda>(r, i). make_entity_info (sorted_list_of_set requests ! i) (ranks ! (r * k + i)) (offsets ! (r * k + i)) {0}"
  let ?has = "\<lambda>(r, i). ranks ! (r * k + i) \<noteq> no_index"
  have same: "p = p'" if "p \<in> set ?all" "p' \<in> set ?all" "?has p" "?has p'" "ent_id (?e p) = ent_id (?e p')" for p p'
  proof -
    obtain r i where p: "p = (r, i)" by (cases p)
    obtain r' i' where p': "p' = (r', i')" by (cases p')
    have a: "r < n" "r \<noteq> color" "i < k" "r' < n" "r' \<noteq> color" "i' < k" using that(1,2) unfolding p p' set_visited by blast+
    have "i < card requests" "i' < card requests" using own that(3,4) a p p' by auto
    then have "i = i'" using that(5) p p' nth_eq_iff_index_eq[of "sorted_list_of_set requests" i i'] req
      by (simp add: make_entity_info_def)
    moreover have "r = r'" using one a that(3,4) p p' \<open>i = i'\<close> by auto
    ultimately show ?thesis using p p' by simp
  qed
  have "\<exists>remote. fold_outcome (take_owner_answer k (sorted_list_of_set requests) ranks offsets) es [] = ok remote \<and>
      sorted_wrt (<) (map ent_id remote) \<and> set remote = ?e ` {p \<in> set es. ?has p}" if "set es \<subseteq> set ?all" for es
    using that
  proof (induction es rule: rev_induct)
    case (snoc p es)
    then obtain remote where s: "fold_outcome (take_owner_answer k (sorted_list_of_set requests) ranks offsets) es [] = ok remote"
      "sorted_wrt (<) (map ent_id remote)" "set remote = ?e ` {p \<in> set es. ?has p}" by auto
    obtain r i where p: "p = (r, i)" by (cases p)
    have pa: "p \<in> set ?all" "set es \<subseteq> set ?all" using snoc.prems by (simp_all del: set_concat)
    show ?case
    proof (cases "?has p")
      case False
      then have "{p' \<in> set (es @ [p]). ?has p'} = {p' \<in> set es. ?has p'}" by auto
      then show ?thesis using s False p by (simp add: take_owner_answer_def)
    next
      case True
      have "r < n" "i < k" using pa(1) unfolding p set_visited by blast+
      then have i: "i < length (sorted_list_of_set requests)" using own True p by auto
      have "set (insert_entity (?e p) remote) = insert (?e p) (set remote)"
      proof (cases "ent_id (?e p) \<in> ent_id ` set remote")
        case False
        then show ?thesis by (rule insert_entity_set)
      next
        case inside: True
        then obtain p' where "p' \<in> set es" "?has p'" "ent_id (?e p) = ent_id (?e p')" using s(3) by auto
        then have "p = p'" using same[OF pa(1) _ True] pa(2) by blast
        then have "?e p \<in> set remote" using s(3) \<open>p' \<in> set es\<close> \<open>?has p'\<close> by blast
        then show ?thesis by (simp add: insert_entity_old insert_absorb)
      qed
      moreover have "{p' \<in> set (es @ [p]). ?has p'} = insert p {p' \<in> set es. ?has p'}" using True by auto
      moreover have "take_owner_answer k (sorted_list_of_set requests) ranks offsets p remote = ok (insert_entity (?e p) remote)"
        using True i by (simp add: take_owner_answer_def p)
      ultimately show ?thesis using s insert_entity_sorted[OF s(2), of "?e p"] by simp
    qed
  qed simp
  from this[OF order_refl] obtain remote where s: "fold_outcome (take_owner_answer k (sorted_list_of_set requests) ranks offsets) ?all [] = ok remote"
      "sorted_wrt (<) (map ent_id remote)" "set remote = ?e ` {p \<in> set ?all. ?has p}" by (elim exE conjE) (rule that)
  have "take_owner_answers n color k requests ranks offsets = ok remote"
    unfolding take_owner_answers_def skip_self by (rule s(1))
  moreover have "?e ` {p \<in> set ?all. ?has p} = {make_entity_info (sorted_list_of_set requests ! i) (ranks ! (r * k + i)) (offsets ! (r * k + i)) {0} | r i.
      r < n \<and> r \<noteq> color \<and> i < k \<and> ranks ! (r * k + i) \<noteq> no_index}" (is "?L = ?R")
  proof (intro equalityI subsetI)
    fix x assume "x \<in> ?L"
    then obtain r i where "(r, i) \<in> set ?all" "?has (r, i)" "x = ?e (r, i)" by auto
    then show "x \<in> ?R" unfolding set_visited by auto
  next
    fix x assume "x \<in> ?R"
    then obtain r i where x: "x = ?e (r, i)" "r < n \<and> r \<noteq> color \<and> i < k" "?has (r, i)" by auto
    have "(r, i) \<in> set ?all" unfolding set_visited by (rule x(2))
    then show "x \<in> ?L" using x(1,3) by blast
  qed
  ultimately show ?thesis using s(2,3) by simp
qed


text \<open>The ranks know their own entities, which are disjoint, and ask for others.\<close>

definition communicating :: "nat \<Rightarrow> (nat set \<times> nat set) list \<Rightarrow> bool" where
  "communicating n args \<longleftrightarrow> 0 < n \<and> n \<le> 2 ^ 32 \<and> length args = n \<and>
     (\<forall>(owned, requests)\<in>set args. finite owned \<and> finite requests \<and> card owned \<le> 2 ^ 32 \<and> no_index \<notin> owned) \<and>
     (\<forall>(owned, requests)\<in>set args. card requests < 2 ^ 31) \<and>
     (\<forall>r<n. \<forall>q<n. r \<noteq> q \<longrightarrow> fst (args ! r) \<inter> fst (args ! q) = {})"

lemma communicating_rank:
  assumes "communicating n args" "r < n"
  shows "finite (fst (args ! r)) \<and> finite (snd (args ! r)) \<and> card (fst (args ! r)) \<le> 2 ^ 32 \<and> no_index \<notin> fst (args ! r)"
proof -
  have "args ! r \<in> set args" using assms by (simp add: communicating_def)
  moreover have "\<forall>(owned, requests)\<in>set args. finite owned \<and> finite requests \<and> card owned \<le> 2 ^ 32 \<and> no_index \<notin> owned"
    using assms(1) unfolding communicating_def by (elim conjE)
  ultimately show ?thesis by (metis (mono_tags, lifting) case_prodD prod.collapse)
qed

lemma max_request_size:
  assumes "mpi_works n c" "length (xs :: 'a list) = n"
  shows "get_max_request_size c (map g xs) = replicate n (fold max (map g xs) 0) \<and>
    (\<forall>x\<in>set xs. g x \<le> fold max (map g xs) 0) \<and> ((\<forall>x\<in>set xs. g x < 2 ^ 31) \<longrightarrow> fold max (map g xs) 0 < 2 ^ 31)"
  using assms fold_max_ge(2)[of _ "map g xs" 0] fold_max_less[of "map g xs" "2 ^ 31" 0] by (auto simp: get_max_request_size_def mpi_works_def)

lemma request_words:
  assumes "finite requests" "finite owned" "no_index \<notin> owned" "card requests \<le> k"
  shows "{f (info_word requests i) | i. i < k \<and> info_word requests i \<in> owned} = {f x | x. x \<in> requests \<and> x \<in> owned}"
proof (intro equalityI subsetI)
  fix y assume "y \<in> {f (info_word requests i) | i. i < k \<and> info_word requests i \<in> owned}"
  then obtain i where i: "y = f (info_word requests i)" "info_word requests i \<in> owned" by blast
  then have c: "i < card requests" using info_word_in[OF assms(1,2,3)] by blast
  then have "sorted_list_of_set requests ! i \<in> set (sorted_list_of_set requests)" by (intro nth_mem) simp
  then have "info_word requests i \<in> requests" using assms(1) c by (simp add: info_word_def)
  then show "y \<in> {f x | x. x \<in> requests \<and> x \<in> owned}" using i by blast
next
  fix y assume "y \<in> {f x | x. x \<in> requests \<and> x \<in> owned}"
  then obtain x where x: "y = f x" "x \<in> requests" "x \<in> owned" by blast
  then have "x \<in> set (sorted_list_of_set requests)" using assms(1) by simp
  then obtain i where i: "i < card requests" "sorted_list_of_set requests ! i = x" by (auto simp: in_set_conv_nth)
  then have "info_word requests i = x" "i < k" using assms(4) by (simp_all add: info_word_def)
  then show "y \<in> {f (info_word requests i) | i. i < k \<and> info_word requests i \<in> owned}" using x by blast
qed

text \<open>What the ranks hold after the two replies.\<close>

lemma primary_exchange:
  assumes c: "mpi_works n c" and ok: "communicating n args"
  shows "\<exists>k infos answers ranks offs.
    get_max_request_size c (map (\<lambda>(owned, requests). card requests) args) = replicate n k \<and>
    (\<forall>r<n. card (snd (args ! r)) \<le> k) \<and>
    get_info_indices c (replicate n k) (map snd args) = ok infos \<and>
    traverse (\<lambda>r. answer_requests n r (replicate n k ! r) (fst (args ! r)) (infos ! r)) [0..<n] = ok answers \<and>
    length answers = n \<and>
    (\<forall>r<n. length (fst (answers ! r)) = card (fst (args ! r)) \<and>
      (\<forall>p<card (fst (args ! r)). fst (answers ! r) ! p = {q. q < n \<and> q \<noteq> r \<and> (\<exists>i<k. info_word (snd (args ! q)) i \<in> fst (args ! r) \<and>
         entity_position (fst (args ! r)) (info_word (snd (args ! q)) i) = p)})) \<and>
    alltoall_words c (replicate n k) (map (\<lambda>(loc, inp, off). inp) answers) = ok ranks \<and>
    (\<forall>r<n. \<forall>s<n. \<forall>i<k. ranks ! r ! (s * k + i) =
       (if s \<noteq> r \<and> info_word (snd (args ! r)) i \<in> fst (args ! s) then s else no_index)) \<and>
    alltoall_words c (replicate n k) (map (\<lambda>(loc, inp, off). off) answers) = ok offs \<and>
    (\<forall>r<n. \<forall>s<n. \<forall>i<k. s \<noteq> r \<and> info_word (snd (args ! r)) i \<in> fst (args ! s) \<longrightarrow>
       offs ! r ! (s * k + i) = entity_position (fst (args ! s)) (info_word (snd (args ! r)) i))"
proof -
  let ?own = "\<lambda>r. fst (args ! r)" and ?req = "\<lambda>r. snd (args ! r)"
  have n: "0 < n" "n \<le> 2 ^ 32" "length args = n" using ok by (simp_all add: communicating_def)
  have each: "finite (?own r) \<and> finite (?req r) \<and> card (?own r) \<le> 2 ^ 32 \<and> no_index \<notin> ?own r" if "r < n" for r
    using communicating_rank[OF ok that] .
  define k where "k = fold max (map (\<lambda>(owned, requests). card requests) args) 0"
  have ks: "get_max_request_size c (map (\<lambda>(owned, requests). card requests) args) = replicate n k"
    using max_request_size[OF c n(3)] unfolding k_def by blast
  have kr: "card (?req r) \<le> k" if "r < n" for r
    using max_request_size[OF c n(3), of "\<lambda>(owned, requests). card requests"] nth_mem[of r args] n(3) that
    unfolding k_def by (auto simp: split_beta)
  have k31: "k < 2 ^ 31"
    using max_request_size[OF c n(3), of "\<lambda>(owned, requests). card requests"] ok unfolding k_def communicating_def
    by (simp add: split_beta)
  let ?w = "\<lambda>s. info_word (?req s)"
  obtain infos where i: "get_info_indices c (replicate n k) (map snd args) = ok infos" "length infos = n"
    "\<forall>r<n. length (infos ! r) = n * k \<and> (\<forall>s<n. \<forall>i<k. infos ! r ! (s * k + i) = ?w s i)"
  proof -
    have "\<forall>q\<in>set (map snd args). finite q \<and> card q \<le> k"
    proof
      fix q assume "q \<in> set (map snd args)"
      then obtain r where "r < n" "q = ?req r" using n(3) by (auto simp only: in_set_conv_nth length_map nth_map)
      then show "finite q \<and> card q \<le> k" using each kr by blast
    qed
    then show ?thesis using get_info_indices_words[OF c n(1), of "map snd args" k] n(3) k31 that by auto
  qed
  define P where "P = (\<lambda>r (loc, inp, off). length loc = card (?own r) \<and>
      (\<forall>q<n. \<forall>i<k. inp ! (q * k + i) = (if q \<noteq> r \<and> ?w q i \<in> ?own r then r else no_index) \<and>
         off ! (q * k + i) = (if q \<noteq> r \<and> ?w q i \<in> ?own r then entity_position (?own r) (?w q i) else 0)) \<and>
      (\<forall>p<card (?own r). loc ! p = {q. q < n \<and> q \<noteq> r \<and> (\<exists>i<k. ?w q i \<in> ?own r \<and> entity_position (?own r) (?w q i) = p)}))"
  obtain answers where a: "traverse (\<lambda>r. answer_requests n r (replicate n k ! r) (?own r) (infos ! r)) [0..<n] = ok answers"
    "length answers = n" "\<forall>r<n. P r (answers ! r)"
  proof -
    let ?f = "\<lambda>r. answer_requests n r (replicate n k ! r) (?own r) (infos ! r)"
    have "\<exists>answers. traverse ?f [0..<n] = ok answers \<and>
      length answers = n \<and> (\<forall>r<n. ?f r = ok (answers ! r) \<and> P r (answers ! r))"
    proof (rule traverse_choice)
      fix r assume r: "r < n"
      have "\<forall>q<n. \<forall>i<k. infos ! r ! (q * k + i) = ?w q i" "length (infos ! r) = n * k" using i(3) r by blast+
      from answer_requests_words[OF conjunct1[OF each[OF r]] this, of r]
      show "\<exists>x. answer_requests n r (replicate n k ! r) (?own r) (infos ! r) = ok x \<and> P r x"
        using r unfolding P_def by (elim exE conjE) (intro exI conjI, simp, simp)
    qed
    then show ?thesis by (elim exE conjE) (rule that, assumption+, blast)
  qed
  note a = a(1,2) a(3)[unfolded P_def]
  have fld: "map (\<lambda>(loc, inp, off). inp) answers ! s = fst (snd (answers ! s))"
    "map (\<lambda>(loc, inp, off). off) answers ! s = snd (snd (answers ! s))" if "s < n" for s
    using that a(2) by (simp_all add: split_beta)
  obtain ranks where rk: "alltoall_words c (replicate n k) (map (\<lambda>(loc, inp, off). inp) answers) = ok ranks"
    "\<forall>r<n. \<forall>s<n. \<forall>i<k. ranks ! r ! (s * k + i) = (if s \<noteq> r \<and> ?w r i \<in> ?own s then s else no_index)"
  proof -
    obtain ranks where "alltoall_words c (replicate n k) (map (\<lambda>(loc, inp, off). inp) answers) = ok ranks"
      "\<forall>r<n. \<forall>s<n. \<forall>i<k. ranks ! r ! (s * k + i) = map (\<lambda>(loc, inp, off). inp) answers ! s ! (r * k + i)"
      using alltoall_blocks[OF c n(1), of "map (\<lambda>(loc, inp, off). inp) answers" k] a(2) k31 by auto
    moreover have "fst (snd (answers ! s)) ! (r * k + i) = (if s \<noteq> r \<and> ?w r i \<in> ?own s then s else no_index)"
      if "r < n" "s < n" "i < k" for r s i
      using a(3) that by (auto simp: split_beta)
    ultimately show ?thesis using that fld(1) by simp
  qed
  obtain offs where os: "alltoall_words c (replicate n k) (map (\<lambda>(loc, inp, off). off) answers) = ok offs"
    "\<forall>r<n. \<forall>s<n. \<forall>i<k. s \<noteq> r \<and> ?w r i \<in> ?own s \<longrightarrow> offs ! r ! (s * k + i) = entity_position (?own s) (?w r i)"
  proof -
    obtain offs where "alltoall_words c (replicate n k) (map (\<lambda>(loc, inp, off). off) answers) = ok offs"
      "\<forall>r<n. \<forall>s<n. \<forall>i<k. offs ! r ! (s * k + i) = map (\<lambda>(loc, inp, off). off) answers ! s ! (r * k + i)"
      using alltoall_blocks[OF c n(1), of "map (\<lambda>(loc, inp, off). off) answers" k] a(2) k31 by auto
    moreover have "snd (snd (answers ! s)) ! (r * k + i) = entity_position (?own s) (?w r i)"
      if "r < n" "s < n" "i < k" "s \<noteq> r" "?w r i \<in> ?own s" for r s i
      using a(3) that by (auto simp: split_beta)
    ultimately show ?thesis using that fld(2) by simp
  qed
  have local: "\<forall>r<n. length (fst (answers ! r)) = card (?own r) \<and>
      (\<forall>p<card (?own r). fst (answers ! r) ! p = {q. q < n \<and> q \<noteq> r \<and> (\<exists>i<k. ?w q i \<in> ?own r \<and> entity_position (?own r) (?w q i) = p)})"
    using a(3) by (simp add: split_beta)
  have kr': "\<forall>r<n. card (?req r) \<le> k" using kr by blast
  show ?thesis
    by (rule exI[of _ k], rule exI[of _ infos], rule exI[of _ answers], rule exI[of _ ranks], rule exI[of _ offs])
      (rule conjI ks kr' i(1) a(1) a(2) local rk(1) rk(2) os(1) os(2))+
qed

text \<open>
  C11: \<open>get_primary_info\<close> tells every rank, for each entity it owns, exactly the other ranks that asked for it, and
  for each entity it asked for the owner and the position of the entity among the owner's, once and in ascending order.
  No request has more entities than the \<open>int\<close> of an MPI count can tell.
  (The set of users of such an entity holds the single rank 0: the initialiser \<open>{}\<close> means a rank, not no ranks.)
\<close>

theorem primary_info_answers:
  assumes c: "mpi_works n c" and ok: "communicating n args"
  shows "\<exists>res. get_primary_info c args = ok res \<and> length res = n \<and>
    (\<forall>r<n. length (fst (res ! r)) = card (fst (args ! r)) \<and>
       (\<forall>p<card (fst (args ! r)). fst (res ! r) ! p =
          {q. q < n \<and> q \<noteq> r \<and> sorted_list_of_set (fst (args ! r)) ! p \<in> snd (args ! q)}) \<and>
       sorted_wrt (<) (map ent_id (snd (res ! r))) \<and>
       set (snd (res ! r)) = {\<lparr>ent_id = x, ent_rank = q, ent_offset = entity_position (fst (args ! q)) x, ent_shared = {0}\<rparr> | x q.
          q < n \<and> q \<noteq> r \<and> x \<in> snd (args ! r) \<and> x \<in> fst (args ! q)})"
proof -
  let ?own = "\<lambda>r. fst (args ! r)" and ?req = "\<lambda>r. snd (args ! r)" and ?w = "\<lambda>r. info_word (snd (args ! r))"
  have n: "0 < n" "n \<le> 2 ^ 32" "length args = n" using ok by (simp_all add: communicating_def)
  have each: "finite (?own r) \<and> finite (?req r) \<and> card (?own r) \<le> 2 ^ 32 \<and> no_index \<notin> ?own r" if "r < n" for r
    using communicating_rank[OF ok that] .
  have disj: "r = q" if "r < n" "q < n" "x \<in> ?own r" "x \<in> ?own q" for r q x
    using ok that unfolding communicating_def by blast
  obtain k infos answers ranks offs where ks: "get_max_request_size c (map (\<lambda>(owned, requests). card requests) args) = replicate n k"
    and kr: "\<forall>r<n. card (?req r) \<le> k" and i: "get_info_indices c (replicate n k) (map snd args) = ok infos"
    and a: "traverse (\<lambda>r. answer_requests n r (replicate n k ! r) (?own r) (infos ! r)) [0..<n] = ok answers" "length answers = n"
    and loc: "\<forall>r<n. length (fst (answers ! r)) = card (?own r) \<and>
      (\<forall>p<card (?own r). fst (answers ! r) ! p = {q. q < n \<and> q \<noteq> r \<and> (\<exists>i<k. ?w q i \<in> ?own r \<and> entity_position (?own r) (?w q i) = p)})"
    and rk: "alltoall_words c (replicate n k) (map (\<lambda>(loc, inp, off). inp) answers) = ok ranks"
      "\<forall>r<n. \<forall>s<n. \<forall>i<k. ranks ! r ! (s * k + i) = (if s \<noteq> r \<and> ?w r i \<in> ?own s then s else no_index)"
    and os: "alltoall_words c (replicate n k) (map (\<lambda>(loc, inp, off). off) answers) = ok offs"
      "\<forall>r<n. \<forall>s<n. \<forall>i<k. s \<noteq> r \<and> ?w r i \<in> ?own s \<longrightarrow> offs ! r ! (s * k + i) = entity_position (?own s) (?w r i)"
    using primary_exchange[OF c ok] by (elim exE conjE) (rule that)
  have hit: "?w r i \<in> ?own q \<Longrightarrow> i < card (?req r)" if "r < n" "q < n" for r q i
    using info_word_in each[OF that(1)] each[OF that(2)] by blast
  have marked: "ranks ! r ! (s * k + i) \<noteq> no_index \<longleftrightarrow> s \<noteq> r \<and> ?w r i \<in> ?own s" if "r < n" "s < n" "i < k" for r s i
    using rk(2) that n(2) by (simp add: no_index_def)
  let ?E = "\<lambda>x q. \<lparr>ent_id = x, ent_rank = q, ent_offset = entity_position (?own q) x, ent_shared = {0}\<rparr>"
  let ?Q = "\<lambda>r remote. sorted_wrt (<) (map ent_id remote) \<and>
      set remote = {?E x q | x q. q < n \<and> q \<noteq> r \<and> x \<in> ?req r \<and> x \<in> ?own q}"
  have "\<exists>remote. take_owner_answers n r k (?req r) (ranks ! r) (offs ! r) = ok remote \<and> ?Q r remote" if r: "r < n" for r
  proof -
    have "\<forall>s<n. \<forall>i<k. ranks ! r ! (s * k + i) \<noteq> no_index \<longrightarrow> i < card (?req r)" using marked[OF r] hit[OF r] by blast
    moreover have "\<forall>s<n. \<forall>q<n. \<forall>i<k. s \<noteq> r \<and> q \<noteq> r \<and> ranks ! r ! (s * k + i) \<noteq> no_index \<and> ranks ! r ! (q * k + i) \<noteq> no_index \<longrightarrow> s = q"
      using marked[OF r] disj by blast
    ultimately obtain remote where t: "take_owner_answers n r k (?req r) (ranks ! r) (offs ! r) = ok remote" "sorted_wrt (<) (map ent_id remote)"
      "set remote = {make_entity_info (sorted_list_of_set (?req r) ! i) (ranks ! r ! (s * k + i)) (offs ! r ! (s * k + i)) {0} | s i.
        s < n \<and> s \<noteq> r \<and> i < k \<and> ranks ! r ! (s * k + i) \<noteq> no_index}"
      using take_owner_answers_entities[of "?req r" n k "ranks ! r" r "offs ! r"] each[OF r] by blast
    have entry: "make_entity_info (sorted_list_of_set (?req r) ! i) (ranks ! r ! (s * k + i)) (offs ! r ! (s * k + i)) {0} = ?E (?w r i) s"
      if "s < n" "i < k" "s \<noteq> r" "?w r i \<in> ?own s" for s i
    proof -
      have "entity_position (?own s) (?w r i) < 2 ^ 32" using entity_position_less[of "?own s"] each[OF that(1)] that(4) by (meson less_le_trans)
      moreover have "ranks ! r ! (s * k + i) = s" "offs ! r ! (s * k + i) = entity_position (?own s) (?w r i)"
        using rk(2) os(2) r that by simp_all
      ultimately show ?thesis using that(1) n(2) hit[OF r that(1,4)] by (simp add: make_entity_info_def u32_wrap_def info_word_def)
    qed
    have "set remote = (\<Union>s\<in>{s. s < n \<and> s \<noteq> r}. {?E (?w r i) s | i. i < k \<and> ?w r i \<in> ?own s})" (is "_ = ?R")
    proof (intro equalityI subsetI)
      fix y assume "y \<in> set remote"
      then obtain s i where y: "y = make_entity_info (sorted_list_of_set (?req r) ! i) (ranks ! r ! (s * k + i)) (offs ! r ! (s * k + i)) {0}"
        "s < n" "s \<noteq> r" "i < k" "ranks ! r ! (s * k + i) \<noteq> no_index" unfolding t(3) by blast
      then have own: "?w r i \<in> ?own s" using marked[OF r] by blast
      then have "y = ?E (?w r i) s" using y(1) entry[OF y(2) y(4) y(3)] by metis
      then show "y \<in> ?R" using y(2,3,4) own by blast
    next
      fix y assume "y \<in> ?R"
      then obtain s i where y: "y = ?E (?w r i) s" "s < n" "s \<noteq> r" "i < k" "?w r i \<in> ?own s" by blast
      then have "ranks ! r ! (s * k + i) \<noteq> no_index" using marked[OF r] by blast
      moreover have "y = make_entity_info (sorted_list_of_set (?req r) ! i) (ranks ! r ! (s * k + i)) (offs ! r ! (s * k + i)) {0}"
        using y(1) entry[OF y(2,4,3,5)] by metis
      ultimately show "y \<in> set remote" unfolding t(3) using y(2,3,4) by blast
    qed
    also have "\<dots> = (\<Union>s\<in>{s. s < n \<and> s \<noteq> r}. {?E x s | x. x \<in> ?req r \<and> x \<in> ?own s})"
    proof (rule SUP_cong[OF refl])
      fix s assume "s \<in> {s. s < n \<and> s \<noteq> r}"
      then have "s < n" by blast
      then show "{?E (?w r i) s | i. i < k \<and> ?w r i \<in> ?own s} = {?E x s | x. x \<in> ?req r \<and> x \<in> ?own s}"
        using each[of s] each[OF r] kr r by (intro request_words) blast+
    qed
    also have "\<dots> = {?E x q | x q. q < n \<and> q \<noteq> r \<and> x \<in> ?req r \<and> x \<in> ?own q}" by blast
    finally show ?thesis using t(1,2) by blast
  qed
  note took = this
  let ?f = "\<lambda>r. and_then (take_owner_answers n r (replicate n k ! r) (snd (args ! r)) (ranks ! r) (offs ! r)) (\<lambda>remote. ok (fst (answers ! r), remote))"
  have each_reply: "\<exists>x. ?f r = ok x \<and> (fst x = fst (answers ! r) \<and> ?Q r (snd x))" if lt: "r < n" for r
  proof -
    obtain remote where t: "take_owner_answers n r k (?req r) (ranks ! r) (offs ! r) = ok remote" and q: "?Q r remote"
      using took[OF lt] by (elim exE conjE) blast
    have "?f r = ok (fst (answers ! r), remote)" using lt t by simp
    then show ?thesis using q by (intro exI[of _ "(fst (answers ! r), remote)"]) (simp only: fst_conv snd_conv simp_thms)
  qed
  have "\<exists>res. traverse ?f [0..<n] = ok res \<and> length res = n \<and>
      (\<forall>r<n. ?f r = ok (res ! r) \<and> (fst (res ! r) = fst (answers ! r) \<and> ?Q r (snd (res ! r))))"
    by (rule traverse_choice) (rule each_reply)
  then obtain res where r: "traverse ?f [0..<n] = ok res" "length res = n"
    "\<forall>r<n. ?f r = ok (res ! r) \<and> (fst (res ! r) = fst (answers ! r) \<and> ?Q r (snd (res ! r)))"
    by (elim exE conjE) (rule that)
  have users: "fst (res ! r) ! p = {q. q < n \<and> q \<noteq> r \<and> sorted_list_of_set (?own r) ! p \<in> ?req q}"
    if rp: "r < n" "p < card (?own r)" for r p
  proof -
    let ?x = "sorted_list_of_set (?own r) ! p"
    have "?x \<in> set (sorted_list_of_set (?own r))" using rp(2) by (intro nth_mem) simp
    then have x: "?x \<in> ?own r" "entity_position (?own r) ?x = p" using each[OF rp(1)] entity_position_nth[of "?own r" p] rp(2) by simp_all
    have inj: "y = ?x" if "y \<in> ?own r" "entity_position (?own r) y = p" for y
      using entity_position_less[of "?own r" y] each[OF rp(1)] that by simp
    have asked: "(\<exists>i<k. ?w q i \<in> ?own r \<and> entity_position (?own r) (?w q i) = p) \<longleftrightarrow> ?x \<in> ?req q" if q: "q < n" for q
    proof -
      have eq: "{entity_position (?own r) (?w q i) | i. i < k \<and> ?w q i \<in> ?own r} = {entity_position (?own r) x | x. x \<in> ?req q \<and> x \<in> ?own r}"
        using each[OF q] each[OF rp(1)] kr q by (intro request_words) blast+
      have "(\<exists>i<k. ?w q i \<in> ?own r \<and> entity_position (?own r) (?w q i) = p) \<longleftrightarrow> p \<in> {entity_position (?own r) (?w q i) | i. i < k \<and> ?w q i \<in> ?own r}" by blast
      also have "\<dots> \<longleftrightarrow> (\<exists>x. p = entity_position (?own r) x \<and> x \<in> ?req q \<and> x \<in> ?own r)" unfolding eq by (rule mem_Collect_eq)
      also have "\<dots> \<longleftrightarrow> ?x \<in> ?req q" using x inj by metis
      finally show ?thesis .
    qed
    have "fst (res ! r) ! p = fst (answers ! r) ! p" using r(3) rp(1) by simp
    also have "\<dots> = {q. q < n \<and> q \<noteq> r \<and> (\<exists>i<k. ?w q i \<in> ?own r \<and> entity_position (?own r) (?w q i) = p)}" using loc rp by blast
    also have "\<dots> = {q. q < n \<and> q \<noteq> r \<and> ?x \<in> ?req q}" using asked by (intro Collect_cong) blast
    finally show ?thesis .
  qed
  have "get_primary_info c args = ok res"
    using ks i a rk(1) os(1) r(1) n(3) by (simp add: get_primary_info_def)
  then show ?thesis using r(2,3) loc users by (intro exI[of _ res]) simp
qed


text \<open>Three entities each; each rank asks for the last of the other and for one nobody has.\<close>

theorem primary_info_answers_witness:
  "\<exists>res. get_primary_info (ideal_mpi 2) [({0, 1, 2}, {5, 9}), ({3, 4, 5}, {2})] = ok res \<and>
     fst (res ! 0) ! 2 = {1} \<and> fst (res ! 0) ! 0 = {} \<and>
     set (snd (res ! 0)) = {\<lparr>ent_id = 5, ent_rank = 1, ent_offset = 2, ent_shared = {0}\<rparr>}"
proof -
  let ?args = "[({0, 1, 2}, {5, 9}), ({3, 4, 5}, {2})] :: (nat set \<times> nat set) list"
  have "communicating 2 ?args" by (auto simp: communicating_def no_index_def less_2_cases_iff)
  note known = primary_info_answers[OF ideal_mpi_works this]
  obtain res where r: "get_primary_info (ideal_mpi 2) ?args = ok res"
    "\<forall>r<2. length (fst (res ! r)) = card (fst (?args ! r)) \<and>
       (\<forall>p<card (fst (?args ! r)). fst (res ! r) ! p =
          {q. q < 2 \<and> q \<noteq> r \<and> sorted_list_of_set (fst (?args ! r)) ! p \<in> snd (?args ! q)}) \<and>
       sorted_wrt (<) (map ent_id (snd (res ! r))) \<and>
       set (snd (res ! r)) = {\<lparr>ent_id = x, ent_rank = q, ent_offset = entity_position (fst (?args ! q)) x, ent_shared = {0}\<rparr> | x q.
          q < 2 \<and> q \<noteq> r \<and> x \<in> snd (?args ! r) \<and> x \<in> fst (?args ! q)}"
    using known by (elim exE conjE) (rule that)
  note r0 = r(2)[THEN spec, THEN mp, of 0, OF zero_less_numeral]
  note users = r0[THEN conjunct2, THEN conjunct1] and remote = r0[THEN conjunct2, THEN conjunct2, THEN conjunct2]
  have s: "sorted_list_of_set (fst (?args ! 0)) = [0, 1, 2]" "sorted_list_of_set {3, 4, 5 :: nat} = [3, 4, 5]"
    "card (fst (?args ! 0)) = 3" by simp_all
  have "fst (res ! 0) ! 2 = {q. q < 2 \<and> q \<noteq> 0 \<and> 2 \<in> snd (?args ! q)}" using users[THEN spec, THEN mp, of 2] s(3) unfolding s(1) by simp
  also have "\<dots> = {1}" by (auto simp: less_2_cases_iff)
  finally have two: "fst (res ! 0) ! 2 = {1}" .
  have "fst (res ! 0) ! 0 = {q. q < 2 \<and> q \<noteq> 0 \<and> 0 \<in> snd (?args ! q)}" using users[THEN spec, THEN mp, of 0] s(3) unfolding s(1) by simp
  also have "\<dots> = {}" by (auto simp: less_2_cases_iff)
  finally have zero: "fst (res ! 0) ! 0 = {}" .
  have "{\<lparr>ent_id = x, ent_rank = q, ent_offset = entity_position (fst (?args ! q)) x, ent_shared = {0}\<rparr> | x q.
          q < 2 \<and> q \<noteq> 0 \<and> x \<in> snd (?args ! 0) \<and> x \<in> fst (?args ! q)}
      = {\<lparr>ent_id = 5, ent_rank = 1, ent_offset = entity_position {3, 4, 5} 5, ent_shared = {0 :: nat}\<rparr>}" (is "?L = _")
  proof -
    have "q < 2 \<and> q \<noteq> 0 \<and> x \<in> snd (?args ! 0) \<and> x \<in> fst (?args ! q) \<longleftrightarrow> q = 1 \<and> x = 5" for x q :: nat
      by (auto simp: less_2_cases_iff)
    then show ?thesis by simp
  qed
  also have "entity_position {3, 4, 5} 5 = 2" unfolding entity_position_def s(2) by simp
  finally show ?thesis using r(1) two zero remote by metis
qed

section \<open>What the ranks learn of each other\<close>

lemma block_set_words:
  assumes "finite q" "card q \<le> k" "no_index \<notin> q" "\<forall>i<k. info ! (r * k + i) = info_word q i"
  shows "block_set k r info = q"
proof -
  have "fold (\<lambda>i s. if info ! (r * k + i) \<noteq> no_index then insert (info ! (r * k + i)) s else s) xs s
      = s \<union> {info ! (r * k + i) | i. i \<in> set xs \<and> info ! (r * k + i) \<noteq> no_index}" for xs s
    by (induction xs arbitrary: s) auto
  then have "block_set k r info = {info ! (r * k + i) | i. i < k \<and> info ! (r * k + i) \<noteq> no_index}" by (simp add: block_set_def)
  also have "\<dots> = {id (info_word q i) | i. i < k \<and> info_word q i \<in> q}"
  proof -
    have "i < k \<Longrightarrow> info ! (r * k + i) \<noteq> no_index \<longleftrightarrow> info_word q i \<in> q" for i
    proof -
      assume i: "i < k"
      have "i < card q \<Longrightarrow> sorted_list_of_set q ! i \<in> q"
        using assms(1) nth_mem[of i "sorted_list_of_set q"] by simp
      then show ?thesis using assms(3,4) i by (auto simp: info_word_def)
    qed
    then have "i < k \<and> info ! (r * k + i) \<noteq> no_index \<longleftrightarrow> i < k \<and> info_word q i \<in> q" for i by blast
    moreover have "x = info ! (r * k + i) \<and> i < k \<longleftrightarrow> x = id (info_word q i) \<and> i < k" for x i using assms(4) by auto
    ultimately show ?thesis by (intro Collect_cong) metis
  qed
  also have "\<dots> = {id x | x. x \<in> q \<and> x \<in> q}" using assms by (intro request_words) blast+
  finally show ?thesis by simp
qed

lemma fold_put_all:
  "map_of (fold (\<lambda>r m. if skip r then m else std_put r (v r) m) rs m) q = (if q \<in> set rs \<and> \<not> skip q then Some (v q) else map_of m q)"
  by (induction rs arbitrary: m) auto

lemma fold_put_map: "map_of (fold (\<lambda>r. std_put r (v r)) rs m) q = (if q \<in> set rs then Some (v q) else map_of m q)"
  by (induction rs arbitrary: m) auto

text \<open>
  \<open>get_entity_reduction\<close> gives every rank the indices of every rank, its own included, and \<open>get_intersection_info\<close>
  the indices it has in common with each other rank, with no entry for a rank with which it has none in common.
\<close>

theorem shared_indices_known:
  assumes c: "mpi_works n c" and n: "0 < n" "length indices = n"
    and fin: "\<forall>q\<in>set indices. finite q \<and> no_index \<notin> q \<and> card q < 2 ^ 31"
  shows "\<exists>commons alls. get_intersection_info c indices = ok commons \<and> get_entity_reduction c indices = ok alls \<and>
    length commons = n \<and> length alls = n \<and>
    (\<forall>r<n. \<forall>q<n. map_of (alls ! r) q = Some (indices ! q) \<and>
       map_of (commons ! r) q = (if q = r \<or> indices ! r \<inter> indices ! q = {} then None else Some (indices ! r \<inter> indices ! q)))"
proof -
  define k where "k = fold max (map card indices) 0"
  have ks: "get_max_request_size c (map card indices) = replicate n k" and kr: "\<forall>q\<in>set indices. card q \<le> k" "k < 2 ^ 31"
    using max_request_size[OF c n(2), of card] fin unfolding k_def by blast+
  obtain infos where i: "get_info_indices c (replicate n k) indices = ok infos"
    "\<forall>r<n. \<forall>s<n. \<forall>i<k. infos ! r ! (s * k + i) = info_word (indices ! s) i"
    using get_info_indices_words[OF c n _ kr] fin by blast
  have b: "block_set k q (infos ! r) = indices ! q" if "r < n" "q < n" for r q
    using fin kr(1) n(2) i(2) that by (intro block_set_words) auto
  let ?X = "\<lambda>r q. block_set (replicate n k ! r) q (infos ! r) \<inter> indices ! r"
  let ?commons = "map (\<lambda>r. fold (\<lambda>q m. if q = r then m
      else let intersection = ?X r q in if card intersection \<noteq> 0 then std_put q intersection m else m) [0..<n] []) [0..<n]"
  let ?alls = "map (\<lambda>r. fold (\<lambda>q. std_put q (block_set (replicate n k ! r) q (infos ! r))) [0..<n] []) [0..<n]"
  have "get_intersection_info c indices = ok ?commons" "get_entity_reduction c indices = ok ?alls"
    using n(2) ks i(1) by (simp_all add: get_intersection_info_def get_entity_reduction_def)
  moreover have "map_of (?alls ! r) q = Some (indices ! q)" if "r < n" "q < n" for r q
    using b[OF that] that by (simp add: fold_put_map)
  moreover have "map_of (?commons ! r) q = (if q = r \<or> indices ! r \<inter> indices ! q = {} then None else Some (indices ! r \<inter> indices ! q))"
    if rq: "r < n" "q < n" for r q
  proof -
    have f: "(\<lambda>q m. if q = r then m else let intersection = ?X r q in if card intersection \<noteq> 0 then std_put q intersection m else m)
        = (\<lambda>q m. if q = r \<or> card (?X r q) = 0 then m else std_put q (?X r q) m)" by (auto simp: fun_eq_iff Let_def)
    have "?commons ! r = fold (\<lambda>q m. if q = r then m else let intersection = ?X r q in if card intersection \<noteq> 0 then std_put q intersection m else m) [0..<n] []"
    proof -
      have "[0..<n] ! r = r" "r < length [0..<n]" using rq(1) by simp_all
      then show ?thesis by (simp only: nth_map)
    qed
    then have "map_of (?commons ! r) q = (if q = r \<or> card (?X r q) = 0 then None else Some (?X r q))"
      unfolding f using rq(2) by (simp only: fold_put_all) simp
    moreover have "?X r q = indices ! r \<inter> indices ! q" using b rq by (simp add: Int_commute)
    moreover have "finite (indices ! r)" using fin n(2) rq by simp
    ultimately show ?thesis by simp
  qed
  ultimately show ?thesis by (intro exI[of _ ?commons] exI[of _ ?alls]) simp
qed

theorem shared_indices_known_witness:
  "\<exists>commons. get_intersection_info (ideal_mpi 2) [{1, 2, 3}, {3, 4}] = ok commons \<and>
     map_of (commons ! 0) 1 = Some {3} \<and> map_of (commons ! 0) 0 = None"
proof -
  let ?is = "[{1, 2, 3}, {3, 4}] :: nat set list"
  have "\<forall>q\<in>set ?is. finite q \<and> no_index \<notin> q \<and> card q < 2 ^ 31" by (simp add: no_index_def)
  moreover have "length ?is = 2" by simp
  ultimately have known: "\<exists>commons alls. get_intersection_info (ideal_mpi 2) ?is = ok commons \<and> get_entity_reduction (ideal_mpi 2) ?is = ok alls \<and>
    length commons = 2 \<and> length alls = 2 \<and>
    (\<forall>r<2. \<forall>q<2. map_of (alls ! r) q = Some (?is ! q) \<and>
       map_of (commons ! r) q = (if q = r \<or> ?is ! r \<inter> ?is ! q = {} then None else Some (?is ! r \<inter> ?is ! q)))"
    by (intro shared_indices_known[OF ideal_mpi_works zero_less_numeral])
  obtain commons alls where
    r: "get_intersection_info (ideal_mpi 2) ?is = ok commons" "get_entity_reduction (ideal_mpi 2) ?is = ok alls"
    "\<forall>r<2. \<forall>q<2. map_of (alls ! r) q = Some (?is ! q) \<and> map_of (commons ! r) q =
      (if q = r \<or> ?is ! r \<inter> ?is ! q = {} then None else Some (?is ! r \<inter> ?is ! q))"
    using known by (elim exE conjE) (rule that)
  have "map_of (commons ! 0) 0 = None" using r(3)[rule_format, of 0 0] by simp
  moreover have "map_of (commons ! 0) 1 = Some (?is ! 0 \<inter> ?is ! 1)" using r(3)[rule_format, of 0 1] by auto
  moreover have "?is ! 0 \<inter> ?is ! 1 = {3}" by auto
  ultimately show ?thesis using r(1) by metis
qed

lemma some_words_simps [simp]:
  "map_option length (some_words ws) = some_count (length ws)"
  "(case some_words ws of None \<Rightarrow> [] | Some words \<Rightarrow> words) = ws"
  by (simp_all add: some_words_def some_count_def)

text \<open>
  C20: \<open>get_entity_info\<close> answers every rank, for each rank it asks, with the set of the offsets of the entities it
  asked that rank for; an entity the asked rank does not have is answered with the offset 0 of a default entity.
  No request has more entities than the \<open>int\<close> of an MPI count can tell.
\<close>

theorem entity_info_offsets:
  assumes c: "mpi_works n c" and n: "length args = n"
    and sq: "square n (map snd args)" and fin: "\<forall>(ents, requests)\<in>set args. \<forall>q\<in>set requests. finite q \<and> card q < 2 ^ 31"
  shows "\<exists>res. get_entity_info c args = ok res \<and> length res = n \<and>
    (\<forall>r<n. length (res ! r) = n \<and> (\<forall>s<n. res ! r ! s = offset_of (fst (args ! s)) ` (snd (args ! r) ! s)))"
proof -
  let ?req = "\<lambda>r s. snd (args ! r) ! s"
  have len: "length (snd (args ! r)) = n" if "r < n" for r
    using sq that n by (simp add: square_def)
  have f: "finite (?req r s) \<and> card (?req r s) < 2 ^ 31" if "r < n" "s < n" for r s
  proof -
    have "args ! r \<in> set args" "?req r s \<in> set (snd (args ! r))" using that n len by simp_all
    then show ?thesis using fin by (metis (mono_tags, lifting) case_prodD prod.collapse)
  qed
  let ?cnts = "map (\<lambda>(ents, requests). map card requests) args"
  have "square n ?cnts" using sq by (auto simp: square_def split_beta)
  then have rc: "mpi_alltoall c ?cnts = map (column ?cnts) [0..<n]" using c by (simp add: mpi_works_def)
  have cnt: "?cnts ! r ! s = card (?req r s)" if "r < n" "s < n" for r s using that n len by (simp add: split_beta)
  let ?sends = "map (\<lambda>(ents, requests). map (\<lambda>q. some_words (sorted_list_of_set q)) requests) args"
  have sends: "?sends ! s ! r = some_words (sorted_list_of_set (?req s r))" if "r < n" "s < n" for r s
    using that n len by (simp add: split_beta)
  have sq1: "square n ?sends" using sq by (auto simp: square_def split_beta)
  let ?recv = "map (map some_count) (mpi_alltoall c ?cnts)"
  have recv: "?recv ! r ! s = some_count (card (?req s r))" if "r < n" "s < n" for r s
    using that n cnt[OF that(2,1)] unfolding rc by (simp add: column_def)
  let ?asked = "map (\<lambda>r. map (\<lambda>s. sorted_list_of_set (?req s r)) [0..<n]) [0..<n]"
  have small1: "length words < 2 ^ 31" if "r < n" "s < n" "?sends ! s ! r = Some words" for r s words
    using that(3) f[OF that(2,1)] unfolding sends[OF that(1,2)] by (auto simp: some_words_def split: if_splits)
  have "p2p c ?sends ?recv = ok (map (\<lambda>r. map (\<lambda>s. case ?sends ! s ! r of None \<Rightarrow> [] | Some words \<Rightarrow> words) [0..<n]) [0..<n])"
    using c n sq1 sends recv small1 by (intro p2p_delivers) (simp_all add: rc)
  then have p1: "p2p c ?sends ?recv = ok ?asked" using sends by simp
  let ?reply = "map (\<lambda>r. map (\<lambda>words. some_words (map (offset_of (fst (args ! r))) words)) (?asked ! r)) [0..<n]"
  have reply: "?reply ! s ! r = some_words (map (offset_of (fst (args ! s))) (sorted_list_of_set (?req r s)))" if "r < n" "s < n" for r s
    using that by simp
  have small2: "length words < 2 ^ 31" if "r < n" "s < n" "?reply ! s ! r = Some words" for r s words
    using that(3) f[OF that(1,2)] unfolding reply[OF that(1,2)] by (auto simp: some_words_def split: if_splits)
  have "square n ?reply" by (auto simp: square_def)
  then have "p2p c ?reply (map (map some_count) ?cnts)
      = ok (map (\<lambda>r. map (\<lambda>s. case ?reply ! s ! r of None \<Rightarrow> [] | Some words \<Rightarrow> words) [0..<n]) [0..<n])"
    using c n reply cnt len small2 by (intro p2p_delivers) (simp_all add: split_beta)
  then have p2: "p2p c ?reply (map (map some_count) ?cnts)
      = ok (map (\<lambda>r. map (\<lambda>s. map (offset_of (fst (args ! s))) (sorted_list_of_set (?req r s))) [0..<n]) [0..<n])"
    using reply by simp
  let ?res = "map (\<lambda>r. map (\<lambda>s. set (map (offset_of (fst (args ! s))) (sorted_list_of_set (?req r s)))) [0..<n]) [0..<n]"
  have "get_entity_info c args = ok ?res"
    using n p1 p2 unfolding get_entity_info_def Let_def by (simp add: comp_def)
  then show ?thesis using f by (intro exI[of _ ?res]) simp
qed


text \<open>Rank 1 asks rank 0 for an entity it has and for one it does not have, whose offset is read as 0.\<close>

theorem entity_info_offsets_witness:
  "\<exists>res. get_entity_info (ideal_mpi 2) [([\<lparr>ent_id = 7, ent_rank = 0, ent_offset = 4, ent_shared = {1}\<rparr>], [{}, {}]), ([], [{7, 8}, {}])] = ok res \<and>
     res ! 1 ! 0 = {4, 0}"
proof -
  let ?e = "\<lparr>ent_id = 7, ent_rank = 0, ent_offset = 4, ent_shared = {1}\<rparr>"
  let ?args = "[([?e], [{}, {}]), ([], [{7, 8}, {}])] :: (entity_info list \<times> nat set list) list"
  have "square 2 (map snd ?args)" "\<forall>(ents, requests)\<in>set ?args. \<forall>q\<in>set requests. finite q \<and> card q < 2 ^ 31" by (simp_all add: square_def)
  then have "\<exists>res. get_entity_info (ideal_mpi 2) ?args = ok res \<and> length res = 2 \<and>
    (\<forall>r<2. length (res ! r) = 2 \<and> (\<forall>s<2. res ! r ! s = offset_of (fst (?args ! s)) ` (snd (?args ! r) ! s)))"
    by (intro entity_info_offsets[OF ideal_mpi_works]) simp_all
  then obtain res where r: "get_entity_info (ideal_mpi 2) ?args = ok res"
    "\<forall>r<2. length (res ! r) = 2 \<and> (\<forall>s<2. res ! r ! s = offset_of (fst (?args ! s)) ` (snd (?args ! r) ! s))"
    by (elim exE conjE) (rule that)
  have "res ! 1 ! 0 = offset_of [?e] ` {7, 8}" using r(2)[THEN spec, THEN mp, of 1] by simp
  moreover have "offset_of [?e] 7 = 4" "offset_of [?e] 8 = 0" by (simp_all add: offset_of_def)
  ultimately have "res ! 1 ! 0 = {4, 0}" by simp
  then show ?thesis using r(1) by blast
qed

end
