(* ===== verification/Index_Remap.thy ===== *)
theory Index_Remap
  imports Point_To_Point Ghost_Coloring
begin

text \<open>
  What the MPI runtime does with the colorings before the first task runs: \<open>remap\_shared\_entities\<close>
  of execution/remap\_shared.h replaces the offsets of the shared and ghost entities by positions in
  the owner's list of shared entities, and execution/mpi/runtime\_driver.cc builds the maps between
  the local numbers of a rank and the ids of the mesh.
\<close>

section \<open>remap\_shared\_entities\<close>

text \<open>The shared entities get their positions; every user of an entity is sent its position.\<close>

definition index_shared :: "entity_info list \<Rightarrow> (nat, nat list) std_map \<times> entity_info list" where
  "index_shared ents =
     (let (index, buffers, new_shared) = fold (\<lambda>e (index, buffers, new_shared).
            (index + 1,
             fold (\<lambda>peer. std_modify [] peer (\<lambda>b. b @ [index])) (sorted_list_of_set (ent_shared e)) buffers,
             new_shared @ [make_entity_info (ent_id e) (ent_rank e) index (ent_shared e)])) ents (0, [], [])
      in (buffers, remove_unique new_shared))"

definition ghost_counts :: "nat \<Rightarrow> entity_info list \<Rightarrow> nat list outcome" where
  "ghost_counts n ghosts = fold_outcome (\<lambda>e counts.
     if ent_rank e < length counts then ok (counts[ent_rank e := counts ! ent_rank e + 1]) else fail Undefined)
     ghosts (replicate n 0)"

definition posted_receives :: "nat \<Rightarrow> nat list \<Rightarrow> nat option list outcome" where
  "posted_receives my_color counts = traverse (\<lambda>i.
     if 0 < counts ! i then if i = my_color then fail Assert_failed else ok (Some (counts ! i))
     else ok None) [0..<length counts]"

definition posted_sends :: "nat \<Rightarrow> nat \<Rightarrow> (nat, nat list) std_map \<Rightarrow> nat list option list outcome" where
  "posted_sends n my_color buffers =
     and_then (traverse (\<lambda>(peer, b). if peer = my_color then fail Assert_failed
         else if n \<le> peer then fail Undefined else ok b) buffers)
       (\<lambda>_. ok (map (map_of buffers) [0..<n]))"

text \<open>
  The initialiser \<open>{}\<close> of the last argument selects the constructor that takes a single rank, so a
  ghost entity gets the set of users that holds rank 0.
\<close>

definition remap_ghost :: "nat list list \<Rightarrow> entity_info \<Rightarrow> nat list \<times> entity_info list \<Rightarrow> (nat list \<times> entity_info list) outcome" where
  "remap_ghost recv_buffers e = (\<lambda>(counts, new_ghost).
     let offset = counts ! ent_rank e; b = recv_buffers ! ent_rank e in
     if offset < length b
     then ok (counts[ent_rank e := offset + 1], new_ghost @ [make_entity_info (ent_id e) (ent_rank e) (b ! offset) {0}])
     else fail Out_of_range)"

definition remap_shared_entities :: "mpi \<Rightarrow> index_coloring list \<Rightarrow> index_coloring list outcome" where
  "remap_shared_entities c cols =
     (let n = length cols; firsts = map (\<lambda>col. index_shared (shared col)) cols
      in and_then (traverse (\<lambda>col. ghost_counts n (ghost col)) cols) (\<lambda>counts.
         and_then (traverse (\<lambda>r. posted_receives r (counts ! r)) [0..<n]) (\<lambda>recvs.
         and_then (traverse (\<lambda>r. posted_sends n r (fst (firsts ! r))) [0..<n]) (\<lambda>sends.
         and_then (p2p c sends recvs) (\<lambda>arrived.
         traverse (\<lambda>r. and_then (fold_outcome (remap_ghost (arrived ! r)) (ghost (cols ! r)) (replicate n 0, []))
           (\<lambda>(_, new_ghost). ok ((cols ! r)\<lparr>shared := snd (firsts ! r), ghost := remove_unique new_ghost\<rparr>))) [0..<n])))))"

section \<open>The index maps\<close>

definition number_index :: "entity_info \<Rightarrow> nat \<times> nat list \<times> (nat, nat) std_map \<Rightarrow> nat \<times> nat list \<times> (nat, nat) std_map" where
  "number_index e = (\<lambda>(counter, index_map, rev_map).
     (counter + 1, index_map[counter := ent_id e], std_put (ent_id e) counter rev_map))"

definition index_maps :: "index_coloring \<Rightarrow> nat list \<times> (nat, nat) std_map" where
  "index_maps col =
     (let nents = length (exclusive col) + length (shared col) + length (ghost col);
          state = fold number_index (exclusive col) (0, replicate nents 0, []);
          state = fold number_index (shared col) state;
          state = fold number_index (ghost col) state
      in snd state)"


section \<open>Positions\<close>

text \<open>The positions of the entities a rank uses.\<close>

definition used_at :: "entity_info list \<Rightarrow> nat \<Rightarrow> nat list" where
  "used_at ents r = filter (\<lambda>i. r \<in> ent_shared (ents ! i)) [0..<length ents]"

lemma used_at_snoc: "used_at (ents @ [e]) r = used_at ents r @ (if r \<in> ent_shared e then [length ents] else [])"
  by (auto simp: used_at_def nth_append intro!: filter_cong)

lemma send_positions:
  "distinct peers \<Longrightarrow> map_of (fold (\<lambda>peer. std_modify [] peer (\<lambda>b. b @ [i])) peers m) r
    = (if r \<in> set peers then Some ((case map_of m r of None \<Rightarrow> [] | Some b \<Rightarrow> b) @ [i]) else map_of m r)"
  by (induction peers arbitrary: m) (auto simp: map_of_std_modify)

lemma index_shared_fold:
  assumes "\<forall>e\<in>set ents. finite (ent_shared e)"
  shows "\<exists>buffers. fold (\<lambda>e (index, buffers, new_shared).
      (index + 1, fold (\<lambda>peer. std_modify [] peer (\<lambda>b. b @ [index])) (sorted_list_of_set (ent_shared e)) buffers,
       new_shared @ [make_entity_info (ent_id e) (ent_rank e) index (ent_shared e)])) ents (0, [], [])
    = (length ents, buffers, map (\<lambda>i. let e = ents ! i in make_entity_info (ent_id e) (ent_rank e) i (ent_shared e)) [0..<length ents])
    \<and> std_wf buffers \<and> (\<forall>r. map_of buffers r = (if used_at ents r = [] then None else Some (used_at ents r)))"
  using assms
proof (induction ents rule: rev_induct)
  case (snoc e ents)
  let ?new = "\<lambda>ents. map (\<lambda>i. let e = ents ! i in make_entity_info (ent_id e) (ent_rank e) i (ent_shared e)) [0..<length ents]"
  obtain buffers where b: "fold (\<lambda>e (index, buffers, new_shared).
      (index + 1, fold (\<lambda>peer. std_modify [] peer (\<lambda>b. b @ [index])) (sorted_list_of_set (ent_shared e)) buffers,
       new_shared @ [make_entity_info (ent_id e) (ent_rank e) index (ent_shared e)])) ents (0, [], []) = (length ents, buffers, ?new ents)"
    "std_wf buffers" "\<forall>r. map_of buffers r = (if used_at ents r = [] then None else Some (used_at ents r))"
    using snoc by auto
  let ?b = "fold (\<lambda>peer. std_modify [] peer (\<lambda>b. b @ [length ents])) (sorted_list_of_set (ent_shared e)) buffers"
  have "std_wf (fold (\<lambda>peer. std_modify [] peer (\<lambda>b. b @ [i])) peers m)" if "std_wf m" for peers i and m :: "(nat, nat list) std_map"
    using that by (induction peers arbitrary: m) auto
  moreover have "map_of ?b r = (if used_at (ents @ [e]) r = [] then None else Some (used_at (ents @ [e]) r))" for r
    using b(3) snoc.prems by (simp add: send_positions used_at_snoc)
  moreover have "?new (ents @ [e]) = ?new ents @ [make_entity_info (ent_id e) (ent_rank e) (length ents) (ent_shared e)]"
    by (auto simp: nth_append Let_def)
  ultimately show ?case using b(1,2) by simp
qed (simp add: used_at_def)

lemma ghost_counts_ok:
  assumes "\<forall>e\<in>set ghosts. ent_rank e < n"
  shows "ghost_counts n ghosts = ok (map (\<lambda>q. length (filter (\<lambda>e. ent_rank e = q) ghosts)) [0..<n])"
proof -
  have "fold_outcome (\<lambda>e counts. if ent_rank e < length counts then ok (counts[ent_rank e := counts ! ent_rank e + 1]) else fail Undefined)
      ghosts counts = ok (map (\<lambda>q. counts ! q + length (filter (\<lambda>e. ent_rank e = q) ghosts)) [0..<n])"
    if "length counts = n" for counts :: "nat list"
    using assms that
  proof (induction ghosts arbitrary: counts)
    case (Cons e ghosts)
    then show ?case by (auto simp: nth_list_update)
  qed (auto intro: nth_equalityI[symmetric])
  then show ?thesis by (simp add: ghost_counts_def)
qed

lemma filter_take_nth: "i < length xs \<Longrightarrow> P (xs ! i) \<Longrightarrow> filter P xs ! length (filter P (take i xs)) = xs ! i"
proof -
  assume i: "i < length xs" "P (xs ! i)"
  have "xs = take i xs @ xs ! i # drop (Suc i) xs" using i(1) by (rule id_take_nth_drop)
  then have "filter P xs = filter P (take i xs) @ xs ! i # filter P (drop (Suc i) xs)"
    using i(2) by (metis filter.simps(2) filter_append)
  then show ?thesis by simp
qed

lemma filter_take_less: "i < length xs \<Longrightarrow> P (xs ! i) \<Longrightarrow> length (filter P (take i xs)) < length (filter P xs)"
proof -
  assume i: "i < length xs" "P (xs ! i)"
  have "length (filter P (take (Suc i) xs)) = length (filter P (take i xs)) + 1"
    using i by (simp add: take_Suc_conv_app_nth)
  moreover have "length (filter P (take (Suc i) xs)) \<le> length (filter P xs)"
    by (metis append_take_drop_id filter_append length_append le_add1)
  ultimately show ?thesis by simp
qed


section \<open>Agreement\<close>

text \<open>The lists of all ranks agree on the owners and users of the entities; the \<open>int\<close> of an MPI count can tell the
  number of shared entities.\<close>

definition halo_agrees :: "nat \<Rightarrow> index_coloring list \<Rightarrow> bool" where
  "halo_agrees n cols \<longleftrightarrow> length cols = n \<and> n \<le> 2 ^ 32 \<and>
     (\<forall>r<n. length (shared (cols ! r)) < 2 ^ 31 \<and>
       sorted_wrt (<) (map ent_id (shared (cols ! r))) \<and> sorted_wrt (<) (map ent_id (ghost (cols ! r))) \<and>
       (\<forall>e\<in>set (shared (cols ! r)). ent_shared e \<subseteq> {..<n} - {r}) \<and>
       (\<forall>e\<in>set (ghost (cols ! r)). ent_rank e < n)) \<and>
     (\<forall>r<n. \<forall>q<n. \<forall>g. (\<exists>e\<in>set (ghost (cols ! r)). ent_id e = g \<and> ent_rank e = q) \<longleftrightarrow>
        (\<exists>e\<in>set (shared (cols ! q)). ent_id e = g \<and> r \<in> ent_shared e))"

text \<open>The offsets are positions in the owner's list.\<close>

definition halo_indexed :: "nat \<Rightarrow> index_coloring list \<Rightarrow> bool" where
  "halo_indexed n cols \<longleftrightarrow>
     (\<forall>r<n. map ent_offset (shared (cols ! r)) = [0..<length (shared (cols ! r))] \<and>
       (\<forall>e\<in>set (ghost (cols ! r)). ent_offset e < length (shared (cols ! ent_rank e)) \<and>
         ent_id (shared (cols ! ent_rank e) ! ent_offset e) = ent_id e))"

lemma halo_ids:
  assumes "halo_agrees n cols" "r < n" "q < n"
  shows "map ent_id (filter (\<lambda>e. ent_rank e = q) (ghost (cols ! r))) = map ent_id (filter (\<lambda>e. r \<in> ent_shared e) (shared (cols ! q)))"
proof -
  have s: "sorted_wrt (<) (map ent_id (filter P xs))" if "sorted_wrt (<) (map ent_id xs)" for P and xs :: "entity_info list"
    using that by (induction xs) auto
  have m: "(\<exists>e\<in>set (ghost (cols ! r)). ent_id e = g \<and> ent_rank e = q) \<longleftrightarrow>
      (\<exists>e\<in>set (shared (cols ! q)). ent_id e = g \<and> r \<in> ent_shared e)" for g
    using assms unfolding halo_agrees_def by blast
  have ids: "set (map ent_id (filter P xs)) = {g. \<exists>e\<in>set xs. ent_id e = g \<and> P e}" for P and xs :: "entity_info list"
    by auto
  have "set (map ent_id (filter (\<lambda>e. ent_rank e = q) (ghost (cols ! r)))) = set (map ent_id (filter (\<lambda>e. r \<in> ent_shared e) (shared (cols ! q))))"
    unfolding ids m ..
  moreover have "sorted_wrt (<) (map ent_id (filter (\<lambda>e. ent_rank e = q) (ghost (cols ! r))))"
    "sorted_wrt (<) (map ent_id (filter (\<lambda>e. r \<in> ent_shared e) (shared (cols ! q))))"
    using assms s unfolding halo_agrees_def by blast+
  ultimately show ?thesis by (metis sorted_list_of_set.idem_if_sorted_distinct strict_sorted_iff)
qed

lemma used_at_filter: "map ((!) ents) (used_at ents r) = filter (\<lambda>e. r \<in> ent_shared e) ents"
  unfolding used_at_def using filter_map[of "\<lambda>e. r \<in> ent_shared e" "(!) ents" "[0..<length ents]"]
  by (simp add: map_nth comp_def)

definition indexed_shared :: "entity_info list \<Rightarrow> entity_info list" where
  "indexed_shared ents = map (\<lambda>i. let e = ents ! i in make_entity_info (ent_id e) (ent_rank e) i (ent_shared e)) [0..<length ents]"

definition indexed_ghost :: "index_coloring list \<Rightarrow> nat \<Rightarrow> entity_info list" where
  "indexed_ghost cols r = map (\<lambda>i. let e = ghost (cols ! r) ! i in
     e\<lparr>ent_offset := used_at (shared (cols ! ent_rank e)) r ! length (filter (\<lambda>x. ent_rank x = ent_rank e) (take i (ghost (cols ! r)))), ent_shared := {0}\<rparr>)
     [0..<length (ghost (cols ! r))]"

lemma indexed_shared_fields:
  "map ent_id (indexed_shared ents) = map ent_id ents"
  "length ents \<le> 2 ^ 32 \<Longrightarrow> map ent_offset (indexed_shared ents) = [0..<length ents]"
  "n \<le> 2 ^ 32 \<Longrightarrow> \<forall>e\<in>set ents. ent_shared e \<subseteq> {..<n} \<Longrightarrow> map ent_shared (indexed_shared ents) = map ent_shared ents"
proof -
  show "map ent_id (indexed_shared ents) = map ent_id ents"
    by (intro nth_equalityI) (simp_all add: indexed_shared_def make_entity_info_def Let_def)
  show "map ent_offset (indexed_shared ents) = [0..<length ents]" if "length ents \<le> 2 ^ 32"
    using that by (intro nth_equalityI) (simp_all add: indexed_shared_def make_entity_info_def Let_def u32_wrap_def)
  show "map ent_shared (indexed_shared ents) = map ent_shared ents" if "n \<le> 2 ^ 32" "\<forall>e\<in>set ents. ent_shared e \<subseteq> {..<n}"
  proof -
    have "u32_wrap ` A = A" if "A \<subseteq> {..<n}" for A
    proof -
      have "u32_wrap a = a" if "a \<in> A" for a using that \<open>A \<subseteq> {..<n}\<close> \<open>n \<le> 2 ^ 32\<close> by (auto simp: u32_wrap_def)
      then show ?thesis by simp
    qed
    then show ?thesis
      using that(2) by (intro nth_equalityI) (simp_all add: indexed_shared_def make_entity_info_def Let_def)
  qed
qed

lemma indexed_ghost_ids: "map ent_id (indexed_ghost cols r) = map ent_id (ghost (cols ! r))"
  by (intro nth_equalityI) (simp_all add: indexed_ghost_def Let_def)

text \<open>The number of earlier ghosts with the same owner leads to the entity in the owner's list.\<close>

lemma ghost_position:
  assumes h: "halo_agrees n cols" and r: "r < n" and i: "i < length (ghost (cols ! r))"
  defines "e \<equiv> ghost (cols ! r) ! i"
  defines "k \<equiv> length (filter (\<lambda>x. ent_rank x = ent_rank e) (take i (ghost (cols ! r))))"
  defines "at \<equiv> used_at (shared (cols ! ent_rank e)) r"
  shows "k < length at" "at ! k < length (shared (cols ! ent_rank e))" "ent_id (shared (cols ! ent_rank e) ! (at ! k)) = ent_id e"
proof -
  let ?gs = "filter (\<lambda>x. ent_rank x = ent_rank e) (ghost (cols ! r))"
  have q: "ent_rank e < n" using h r i unfolding e_def halo_agrees_def by (meson nth_mem)
  have ids: "map ent_id ?gs = map ent_id (map ((!) (shared (cols ! ent_rank e))) at)"
    unfolding at_def used_at_filter by (rule halo_ids[OF h r q])
  have k: "k < length ?gs" "?gs ! k = e"
    using filter_take_less[OF i, of "\<lambda>x. ent_rank x = ent_rank e"] filter_take_nth[OF i, of "\<lambda>x. ent_rank x = ent_rank e"]
    by (simp_all add: e_def k_def)
  then show l: "k < length at" using arg_cong[OF ids, of length] by simp
  then have "at ! k \<in> set at" by simp
  then show "at ! k < length (shared (cols ! ent_rank e))" by (simp add: at_def used_at_def)
  have "ent_id (?gs ! k) = ent_id (shared (cols ! ent_rank e) ! (at ! k))"
    using arg_cong[OF ids, of "\<lambda>xs. xs ! k"] k(1) l by simp
  then show "ent_id (shared (cols ! ent_rank e) ! (at ! k)) = ent_id e" using k(2) by simp
qed

lemma remap_ghosts:
  assumes h: "halo_agrees n cols" and r: "r < n"
  shows "fold_outcome (remap_ghost (map (\<lambda>q. used_at (shared (cols ! q)) r) [0..<n])) (ghost (cols ! r)) (replicate n 0, [])
    = ok (map (\<lambda>q. length (filter (\<lambda>x. ent_rank x = q) (ghost (cols ! r)))) [0..<n],
        map (\<lambda>e. make_entity_info (ent_id e) (ent_rank e) (ent_offset e) {0}) (indexed_ghost cols r))"
proof -
  let ?gs = "ghost (cols ! r)"
  have "fold_outcome (remap_ghost (map (\<lambda>q. used_at (shared (cols ! q)) r) [0..<n])) (take i ?gs) (replicate n 0, [])
    = ok (map (\<lambda>q. length (filter (\<lambda>x. ent_rank x = q) (take i ?gs))) [0..<n],
        map (\<lambda>e. make_entity_info (ent_id e) (ent_rank e) (ent_offset e) {0}) (take i (indexed_ghost cols r)))"
    if "i \<le> length ?gs" for i
    using that
  proof (induction i)
    case 0
    then show ?case by (simp add: map_replicate_const)
  next
    case (Suc i)
    let ?e = "?gs ! i"
    have i: "i < length ?gs" using Suc.prems by simp
    have q: "ent_rank ?e < n" using h r i unfolding halo_agrees_def by (meson nth_mem)
    have ig: "length (indexed_ghost cols r) = length ?gs" by (simp add: indexed_ghost_def)
    have "map (\<lambda>q. length (filter (\<lambda>x. ent_rank x = q) (take (Suc i) ?gs))) [0..<n]
        = (map (\<lambda>q. length (filter (\<lambda>x. ent_rank x = q) (take i ?gs))) [0..<n])
            [ent_rank ?e := length (filter (\<lambda>x. ent_rank x = ent_rank ?e) (take i ?gs)) + 1]"
      using i q by (intro nth_equalityI) (auto simp: take_Suc_conv_app_nth nth_list_update)
    then show ?case
      using Suc.IH i q ghost_position[OF h r i] ig
      by (simp add: take_Suc_conv_app_nth remap_ghost_def indexed_ghost_def Let_def)
  qed
  from this[of "length ?gs"] show ?thesis by (simp add: indexed_ghost_def)
qed

text \<open>What a rank keeps after the exchange.\<close>

definition remapped :: "index_coloring list \<Rightarrow> nat \<Rightarrow> index_coloring" where
  "remapped cols r = (cols ! r)\<lparr>shared := indexed_shared (shared (cols ! r)),
     ghost := map (\<lambda>e. make_entity_info (ent_id e) (ent_rank e) (ent_offset e) {0}) (indexed_ghost cols r)\<rparr>"

lemma halo_agreesD:
  assumes "halo_agrees n cols"
  shows "length cols = n" "n \<le> 2 ^ 32"
    and "r < n \<Longrightarrow> length (shared (cols ! r)) < 2 ^ 31"
    and "r < n \<Longrightarrow> sorted_wrt (<) (map ent_id (shared (cols ! r)))"
    and "r < n \<Longrightarrow> sorted_wrt (<) (map ent_id (ghost (cols ! r)))"
    and "r < n \<Longrightarrow> e \<in> set (shared (cols ! r)) \<Longrightarrow> ent_shared e \<subseteq> {..<n} - {r}"
    and "r < n \<Longrightarrow> e \<in> set (ghost (cols ! r)) \<Longrightarrow> ent_rank e < n"
    and "r < n \<Longrightarrow> q < n \<Longrightarrow> (\<exists>e\<in>set (ghost (cols ! r)). ent_id e = g \<and> ent_rank e = q) \<longleftrightarrow>
        (\<exists>e\<in>set (shared (cols ! q)). ent_id e = g \<and> r \<in> ent_shared e)"
  using assms unfolding halo_agrees_def by blast+

lemma no_own_ghosts:
  assumes h: "halo_agrees n cols" and r: "r < n"
  shows "filter (\<lambda>e. ent_rank e = r) (ghost (cols ! r)) = []" "used_at (shared (cols ! r)) r = []"
proof -
  have u: "\<forall>e\<in>set (shared (cols ! r)). r \<notin> ent_shared e" using halo_agreesD(6)[OF h r] by blast
  then show "used_at (shared (cols ! r)) r = []" by (auto simp: used_at_def filter_empty_conv)
  show "filter (\<lambda>e. ent_rank e = r) (ghost (cols ! r)) = []"
    using halo_agreesD(8)[OF h r r] u by (auto simp: filter_empty_conv)
qed

lemma remap_remapped:
  assumes c: "mpi_works n c" and h: "halo_agrees n cols"
  shows "remap_shared_entities c cols = ok (map (remapped cols) [0..<n])"
proof -
  note hd = halo_agreesD[OF h]
  have fin: "finite (ent_shared e)" if "e \<in> set (shared (cols ! r))" "r < n" for e r
    using hd(6)[OF that(2,1)] finite_subset by blast
  define buffers where "buffers r = fst (index_shared (shared (cols ! r)))" for r
  have first: "index_shared (shared (cols ! r)) = (buffers r, indexed_shared (shared (cols ! r))) \<and> std_wf (buffers r) \<and>
      (\<forall>q. map_of (buffers r) q = (if used_at (shared (cols ! r)) q = [] then None else Some (used_at (shared (cols ! r)) q)))"
    if r: "r < n" for r
  proof -
    have "remove_unique (indexed_shared (shared (cols ! r))) = indexed_shared (shared (cols ! r))"
      by (rule remove_unique_sorted) (simp add: indexed_shared_fields hd(4)[OF r])
    then show ?thesis
      using index_shared_fold[of "shared (cols ! r)"] fin[OF _ r]
      by (auto simp: index_shared_def buffers_def indexed_shared_def[symmetric])
  qed
  have rg: "ent_rank e < n" if "r < n" "e \<in> set (ghost (cols ! r))" for r e using hd(7) that by blast
  let ?counts = "\<lambda>r. map (\<lambda>q. length (filter (\<lambda>e. ent_rank e = q) (ghost (cols ! r)))) [0..<n]"
  have counts: "traverse (\<lambda>col. ghost_counts n (ghost col)) cols = ok (map ?counts [0..<n])"
  proof -
    have "traverse (\<lambda>col. ghost_counts n (ghost col)) (map ((!) cols) [0..<n]) = ok (map ?counts [0..<n])"
      unfolding traverse_map using ghost_counts_ok rg by (intro traverse_ok) simp
    then show ?thesis using hd(1) map_nth[of cols] by simp
  qed
  have same: "length (filter (\<lambda>e. ent_rank e = q) (ghost (cols ! r))) = length (used_at (shared (cols ! q)) r)" if "r < n" "q < n" for r q
    using arg_cong[OF halo_ids[OF h that], of length] arg_cong[OF used_at_filter[of "shared (cols ! q)" r], of length] by simp
  let ?sends = "map (\<lambda>r. map (map_of (buffers r)) [0..<n]) [0..<n]"
  let ?recvs = "map (\<lambda>r. map (\<lambda>q. if used_at (shared (cols ! q)) r = [] then None else Some (length (used_at (shared (cols ! q)) r))) [0..<n]) [0..<n]"
  have recvs: "traverse (\<lambda>r. posted_receives r (map ?counts [0..<n] ! r)) [0..<n] = ok ?recvs"
    using same no_own_ghosts[OF h] by (intro traverse_ok) (auto simp: posted_receives_def intro!: traverse_ok)
  have sends: "traverse (\<lambda>r. posted_sends n r (fst (map (\<lambda>col. index_shared (shared col)) cols ! r))) [0..<n] = ok ?sends"
  proof (intro traverse_ok)
    fix r assume "r \<in> set [0..<n]"
    then have r: "r < n" by simp
    have "peer \<noteq> r \<and> peer < n" if "(peer, b) \<in> set (buffers r)" for peer b
    proof -
      have "distinct (keys (buffers r))" using first[OF r] std_wf_distinct by blast
      then have "map_of (buffers r) peer = Some b" using that by simp
      then have "used_at (shared (cols ! r)) peer \<noteq> []" using first[OF r] by (auto split: if_splits)
      then obtain i where "i < length (shared (cols ! r))" "peer \<in> ent_shared (shared (cols ! r) ! i)"
        by (auto simp: used_at_def filter_empty_conv)
      then show ?thesis using hd(6)[OF r] nth_mem by blast
    qed
    then have "traverse (\<lambda>(peer, b). if peer = r then fail Assert_failed else if n \<le> peer then fail Undefined else ok b) (buffers r)
        = ok (map snd (buffers r))" by (intro traverse_ok) force
    then show "posted_sends n r (fst (map (\<lambda>col. index_shared (shared col)) cols ! r)) = ok (map (map_of (buffers r)) [0..<n])"
      using r hd(1) by (simp add: posted_sends_def buffers_def)
  qed
  have small: "length (used_at (shared (cols ! r)) q) < 2 ^ 31" if "r < n" for r q
    using length_filter_le[of "\<lambda>i. q \<in> ent_shared (shared (cols ! r) ! i)" "[0..<length (shared (cols ! r))]"] hd(3)[OF that]
    by (simp add: used_at_def)
  have "p2p c ?sends ?recvs = ok (map (\<lambda>r. map (\<lambda>s. case ?sends ! s ! r of None \<Rightarrow> [] | Some words \<Rightarrow> words) [0..<n]) [0..<n])"
    by (rule p2p_delivers[OF c]) (use first small in \<open>auto simp: square_def split: if_splits\<close>)
  moreover have "map (\<lambda>r. map (\<lambda>s. case ?sends ! s ! r of None \<Rightarrow> [] | Some words \<Rightarrow> words) [0..<n]) [0..<n]
      = map (\<lambda>r. map (\<lambda>s. used_at (shared (cols ! s)) r) [0..<n]) [0..<n]"
    using first by (intro map_cong refl) simp
  ultimately have arrived: "p2p c ?sends ?recvs = ok (map (\<lambda>r. map (\<lambda>s. used_at (shared (cols ! s)) r) [0..<n]) [0..<n])" by simp
  have "and_then (fold_outcome (remap_ghost (map (\<lambda>r. map (\<lambda>s. used_at (shared (cols ! s)) r) [0..<n]) [0..<n] ! r)) (ghost (cols ! r)) (replicate n 0, []))
      (\<lambda>(_, new_ghost). ok ((cols ! r)\<lparr>shared := snd (map (\<lambda>col. index_shared (shared col)) cols ! r), ghost := remove_unique new_ghost\<rparr>))
    = ok (remapped cols r)" if r: "r < n" for r
  proof -
    have "remove_unique (map (\<lambda>e. make_entity_info (ent_id e) (ent_rank e) (ent_offset e) {0}) (indexed_ghost cols r))
        = map (\<lambda>e. make_entity_info (ent_id e) (ent_rank e) (ent_offset e) {0}) (indexed_ghost cols r)"
      using hd(5)[OF r] by (intro remove_unique_sorted) (simp add: comp_def make_entity_info_def indexed_ghost_ids)
    then show ?thesis using remap_ghosts[OF h r] first[OF r] r hd(1) by (simp add: remapped_def)
  qed
  then have "traverse (\<lambda>r. and_then (fold_outcome (remap_ghost (map (\<lambda>r. map (\<lambda>s. used_at (shared (cols ! s)) r) [0..<n]) [0..<n] ! r)) (ghost (cols ! r)) (replicate n 0, []))
      (\<lambda>(_, new_ghost). ok ((cols ! r)\<lparr>shared := snd (map (\<lambda>col. index_shared (shared col)) cols ! r), ghost := remove_unique new_ghost\<rparr>))) [0..<n]
    = ok (map (remapped cols) [0..<n])" by (intro traverse_ok) simp
  then show ?thesis
    unfolding remap_shared_entities_def Let_def hd(1) counts and_then.simps recvs sends arrived .
qed

lemma remapped_agrees:
  assumes h: "halo_agrees n cols"
  shows "halo_agrees n (map (remapped cols) [0..<n])" "halo_indexed n (map (remapped cols) [0..<n])"
proof -
  note hd = halo_agreesD[OF h]
  have sid: "map ent_id (shared (remapped cols r)) = map ent_id (shared (cols ! r))" for r
    by (simp add: remapped_def indexed_shared_fields)
  have gid: "map ent_id (ghost (remapped cols r)) = map ent_id (ghost (cols ! r))" for r
    by (simp add: remapped_def comp_def make_entity_info_def indexed_ghost_ids)
  have users: "map ent_shared (shared (remapped cols r)) = map ent_shared (shared (cols ! r))" if "r < n" for r
    using indexed_shared_fields(3)[OF hd(2), of "shared (cols ! r)"] hd(6)[OF that] by (auto simp: remapped_def)
  have rank: "map ent_rank (ghost (remapped cols r)) = map ent_rank (ghost (cols ! r))" if r: "r < n" for r
  proof (intro nth_equalityI)
    fix i assume "i < length (map ent_rank (ghost (remapped cols r)))"
    then have i: "i < length (ghost (cols ! r))" by (simp add: remapped_def indexed_ghost_def)
    then have "ent_rank (ghost (cols ! r) ! i) < n" using hd(7)[OF r] by simp
    then have "u32_wrap (ent_rank (ghost (cols ! r) ! i)) = ent_rank (ghost (cols ! r) ! i)"
      using hd(2) by (simp add: u32_wrap_def)
    then show "map ent_rank (ghost (remapped cols r)) ! i = map ent_rank (ghost (cols ! r)) ! i"
      using i by (simp add: remapped_def indexed_ghost_def make_entity_info_def Let_def)
  qed (simp add: remapped_def indexed_ghost_def)
  have pairs: "(\<exists>e\<in>set xs. ent_id e = g \<and> P (f e)) \<longleftrightarrow> (\<exists>e\<in>set ys. ent_id e = g \<and> P (f e))"
    if "map ent_id xs = map ent_id ys" "map f xs = map f ys" for xs ys g P and f :: "entity_info \<Rightarrow> 'a"
  proof -
    have l: "length xs = length ys" using that(1) by (rule map_eq_imp_length_eq)
    have "ent_id (xs ! i) = ent_id (ys ! i) \<and> f (xs ! i) = f (ys ! i)" if "i < length ys" for i
      using l that arg_cong[OF \<open>map ent_id xs = map ent_id ys\<close>, of "\<lambda>x. x ! i"] arg_cong[OF \<open>map f xs = map f ys\<close>, of "\<lambda>x. x ! i"] by simp
    then show ?thesis unfolding Bex_def in_set_conv_nth using l by metis
  qed
  have lens: "length (shared (remapped cols r)) = length (shared (cols ! r))" for r
    using map_eq_imp_length_eq[OF sid] .
  have su: "ent_shared e \<subseteq> {..<n} - {r}" if r: "r < n" and e: "e \<in> set (shared (remapped cols r))" for r e
  proof -
    have "ent_shared e \<in> set (map ent_shared (shared (cols ! r)))" unfolding users[OF r, symmetric] using e by simp
    then show ?thesis using hd(6)[OF r] by auto
  qed
  have gr: "ent_rank e < n" if r: "r < n" and e: "e \<in> set (ghost (remapped cols r))" for r e
  proof -
    have "ent_rank e \<in> set (map ent_rank (ghost (cols ! r)))" unfolding rank[OF r, symmetric] using e by simp
    then show ?thesis using hd(7)[OF r] by auto
  qed
  show "halo_agrees n (map (remapped cols) [0..<n])"
    unfolding halo_agrees_def
  proof (intro conjI allI impI)
    fix r q g assume r: "r < n" and q: "q < n"
    show "(\<exists>e\<in>set (ghost (map (remapped cols) [0..<n] ! r)). ent_id e = g \<and> ent_rank e = q) \<longleftrightarrow>
        (\<exists>e\<in>set (shared (map (remapped cols) [0..<n] ! q)). ent_id e = g \<and> r \<in> ent_shared e)"
      using hd(8)[OF r q] pairs[OF gid rank[OF r], of g "\<lambda>x. x = q"] pairs[OF sid users[OF q], of g "\<lambda>x. r \<in> x"] r q by simp
  qed (use hd sid gid lens su gr in auto)
  show "halo_indexed n (map (remapped cols) [0..<n])"
    unfolding halo_indexed_def
  proof (intro allI impI conjI ballI)
    fix r assume r: "r < n"
    show "map ent_offset (shared (map (remapped cols) [0..<n] ! r)) = [0..<length (shared (map (remapped cols) [0..<n] ! r))]"
      using r lens indexed_shared_fields(2)[of "shared (cols ! r)"] hd(3)[OF r] by (simp add: remapped_def)
    fix e assume "e \<in> set (ghost (map (remapped cols) [0..<n] ! r))"
    then obtain i where i: "i < length (ghost (cols ! r))" "e = ghost (remapped cols r) ! i"
      using r by (auto simp: in_set_conv_nth remapped_def indexed_ghost_def)
    let ?g = "ghost (cols ! r) ! i"
    let ?at = "used_at (shared (cols ! ent_rank ?g)) r" and ?k = "length (filter (\<lambda>x. ent_rank x = ent_rank ?g) (take i (ghost (cols ! r))))"
    have q: "ent_rank ?g < n" using hd(7)[OF r] i by simp
    note pos = ghost_position[OF h r i(1)]
    have "?at ! ?k < 2 ^ 32" using less_trans[OF pos(2) hd(3)[OF q]] by (rule less_le_trans) simp
    then have e: "ent_id e = ent_id ?g" "ent_rank e = ent_rank ?g" "ent_offset e = ?at ! ?k"
      using i q hd(2) by (simp_all add: remapped_def indexed_ghost_def make_entity_info_def Let_def u32_wrap_def)
    show "ent_offset e < length (shared (map (remapped cols) [0..<n] ! ent_rank e))"
      using pos(2) q by (simp add: e lens)
    have "ent_id (shared (remapped cols (ent_rank ?g)) ! (?at ! ?k)) = ent_id (shared (cols ! ent_rank ?g) ! (?at ! ?k))"
      using arg_cong[OF sid[of "ent_rank ?g"], of "\<lambda>xs. xs ! (?at ! ?k)"] pos(2) lens by simp
    then show "ent_id (shared (map (remapped cols) [0..<n] ! ent_rank e) ! ent_offset e) = ent_id e"
      using pos(3) q by (simp add: e)
  qed
qed

text \<open>What the exchange relies on: the two sides visit the same entities in the same order.\<close>

lemma halo_offsets:
  assumes h: "halo_agrees n cols" "halo_indexed n cols" and r: "r < n" and q: "q < n"
  shows "map ent_offset (filter (\<lambda>e. ent_rank e = q) (ghost (cols ! r))) = map ent_offset (filter (\<lambda>e. r \<in> ent_shared e) (shared (cols ! q)))"
proof -
  let ?gs = "filter (\<lambda>e. ent_rank e = q) (ghost (cols ! r))" and ?ss = "filter (\<lambda>e. r \<in> ent_shared e) (shared (cols ! q))"
  have ids: "map ent_id ?gs = map ent_id ?ss" by (rule halo_ids[OF h(1) r q])
  have dist: "distinct (map ent_id (shared (cols ! q)))" using halo_agreesD(4)[OF h(1) q] strict_sorted_iff by blast
  have off: "ent_offset (shared (cols ! q) ! i) = i" if "i < length (shared (cols ! q))" for i
  proof -
    have "map ent_offset (shared (cols ! q)) ! i = i" using h(2) q that unfolding halo_indexed_def by simp
    then show ?thesis using that by simp
  qed
  have len: "length ?gs = length ?ss" using map_eq_imp_length_eq[OF ids] .
  show ?thesis
  proof (intro nth_equalityI)
    fix k assume k: "k < length (map ent_offset ?gs)"
    let ?g = "?gs ! k" and ?s = "?ss ! k"
    have g: "?g \<in> set (ghost (cols ! r))" "ent_rank ?g = q" using nth_mem[of k ?gs] k by auto
    have "?s \<in> set (shared (cols ! q))" using nth_mem[of k ?ss] k len by auto
    then obtain j where j: "j < length (shared (cols ! q))" "shared (cols ! q) ! j = ?s" by (auto simp: in_set_conv_nth)
    have "\<forall>e\<in>set (ghost (cols ! r)). ent_offset e < length (shared (cols ! ent_rank e)) \<and>
        ent_id (shared (cols ! ent_rank e) ! ent_offset e) = ent_id e" using h(2) r unfolding halo_indexed_def by blast
    from bspec[OF this g(1)] have o: "ent_offset ?g < length (shared (cols ! q))" "ent_id (shared (cols ! q) ! ent_offset ?g) = ent_id ?g"
      unfolding g(2) by blast+
    have "ent_id ?g = ent_id ?s" using arg_cong[OF ids, of "\<lambda>xs. xs ! k"] k len by simp
    then have "map ent_id (shared (cols ! q)) ! ent_offset ?g = map ent_id (shared (cols ! q)) ! j" using o j by simp
    then have "ent_offset ?g = j" using nth_eq_iff_index_eq[OF dist] o(1) j(1) by simp
    then show "map ent_offset ?gs ! k = map ent_offset ?ss ! k" using off[OF j(1)] j k len by simp
  qed (use len in simp)
qed

text \<open>C18: If the colorings agree, which bounds the shared entities of a rank by the \<open>int\<close> of an MPI count, after \<open>remap_shared_entities\<close> the offset of a shared entity is its position in the owner's list and the
  offset of a ghost is the position of the same entity in its owner's list, so that the ghosts a rank has of
  another rank and the entities that rank shares with it name the same positions in the same order.\<close>

theorem remap_indexes_halo:
  assumes c: "mpi_works n c" and h: "halo_agrees n cols"
  shows "\<exists>cols'. remap_shared_entities c cols = ok cols' \<and> halo_agrees n cols' \<and> halo_indexed n cols' \<and>
    (\<forall>r<n. exclusive (cols' ! r) = exclusive (cols ! r) \<and>
       map ent_id (shared (cols' ! r)) = map ent_id (shared (cols ! r)) \<and>
       map ent_id (ghost (cols' ! r)) = map ent_id (ghost (cols ! r))) \<and>
    (\<forall>r<n. \<forall>q<n. map ent_offset (filter (\<lambda>e. ent_rank e = q) (ghost (cols' ! r)))
       = map ent_offset (filter (\<lambda>e. r \<in> ent_shared e) (shared (cols' ! q))))"
proof (intro exI conjI)
  let ?c = "map (remapped cols) [0..<n]"
  show "remap_shared_entities c cols = ok ?c" by (rule remap_remapped[OF c h])
  show "halo_agrees n ?c" "halo_indexed n ?c" by (rule remapped_agrees[OF h])+
  then show "\<forall>r<n. \<forall>q<n. map ent_offset (filter (\<lambda>e. ent_rank e = q) (ghost (?c ! r)))
       = map ent_offset (filter (\<lambda>e. r \<in> ent_shared e) (shared (?c ! q)))" using halo_offsets by blast
  show "\<forall>r<n. exclusive (?c ! r) = exclusive (cols ! r) \<and> map ent_id (shared (?c ! r)) = map ent_id (shared (cols ! r)) \<and>
       map ent_id (ghost (?c ! r)) = map ent_id (ghost (cols ! r))"
    by (simp add: remapped_def indexed_shared_fields comp_def make_entity_info_def indexed_ghost_ids)
qed

definition example_halo :: "index_coloring list" where
  "example_halo =
     [\<lparr>primary = {}, exclusive = [make_entity_info 0 0 0 {}],
       shared = [make_entity_info 1 0 1 {1}, make_entity_info 4 0 3 {1, 2}], ghost = [make_entity_info 5 1 0 {}]\<rparr>,
      \<lparr>primary = {}, exclusive = [make_entity_info 7 1 1 {}],
       shared = [make_entity_info 5 1 0 {0}], ghost = [make_entity_info 1 0 1 {}, make_entity_info 4 0 3 {}]\<rparr>,
      \<lparr>primary = {}, exclusive = [make_entity_info 6 2 0 {}], shared = [], ghost = [make_entity_info 4 0 3 {}]\<rparr>]"

lemma example_halo_agrees: "halo_agrees 3 example_halo"
proof -
  have three: "(\<forall>r<3. P r) \<longleftrightarrow> P 0 \<and> P 1 \<and> P 2" for P :: "nat \<Rightarrow> bool"
    by (auto simp: numeral_3_eq_3 numeral_2_eq_2 less_Suc_eq)
  let ?e = "\<lambda>i q l us. \<lparr>ent_id = i, ent_rank = q, ent_offset = l, ent_shared = us\<rparr>"
  have h: "example_halo =
     [\<lparr>primary = {}, exclusive = [?e 0 0 0 {}], shared = [?e 1 0 1 {1}, ?e 4 0 3 {1, 2}], ghost = [?e 5 1 0 {}]\<rparr>,
      \<lparr>primary = {}, exclusive = [?e 7 1 1 {}], shared = [?e 5 1 0 {0}], ghost = [?e 1 0 1 {}, ?e 4 0 3 {}]\<rparr>,
      \<lparr>primary = {}, exclusive = [?e 6 2 0 {}], shared = [], ghost = [?e 4 0 3 {}]\<rparr>]"
    by (simp add: example_halo_def make_entity_info_def u32_wrap_def)
  show ?thesis unfolding halo_agrees_def three h by (intro conjI) simp_all
qed

lemma remap_indexes_halo_witness:
  "\<exists>cols'. remap_shared_entities (ideal_mpi 3) example_halo = ok cols' \<and> halo_indexed 3 cols'"
  using remap_indexes_halo[OF ideal_mpi_works example_halo_agrees] by blast

section \<open>The index maps are inverse\<close>

lemma number_indices:
  fixes es :: "entity_info list"
  assumes "length m = length es + rest"
  shows "\<exists>rm. fold number_index es (0, m, []) = (length es, map ent_id es @ drop (length es) m, rm) \<and>
    (distinct (map ent_id es) \<longrightarrow> (\<forall>g i. map_of rm g = Some i \<longleftrightarrow> i < length es \<and> ent_id (es ! i) = g))"
  using assms
proof (induction es arbitrary: rest rule: rev_induct)
  case (snoc e es)
  have "length m = length es + Suc rest" using snoc.prems by simp
  from snoc.IH[OF this] obtain rm where f: "fold number_index es (0, m, []) = (length es, map ent_id es @ drop (length es) m, rm)"
    and d: "distinct (map ent_id es) \<longrightarrow> (\<forall>g i. map_of rm g = Some i \<longleftrightarrow> i < length es \<and> ent_id (es ! i) = g)" by blast
  have "drop (length es) m = m ! length es # drop (Suc (length es)) m"
    using snoc.prems by (intro Cons_nth_drop_Suc[symmetric]) simp
  then have "(map ent_id es @ drop (length es) m)[length es := ent_id e] = map ent_id (es @ [e]) @ drop (length (es @ [e])) m"
    by (simp add: list_update_append)
  then have eq: "fold number_index (es @ [e]) (0, m, []) = (length (es @ [e]),
      map ent_id (es @ [e]) @ drop (length (es @ [e])) m, std_put (ent_id e) (length es) rm)"
    unfolding fold_append comp_apply f by (simp add: number_index_def)
  have step: "map_of (std_put (ent_id e) (length es) rm) g = Some i \<longleftrightarrow> i < length (es @ [e]) \<and> ent_id ((es @ [e]) ! i) = g"
    if dist: "distinct (map ent_id (es @ [e]))" for g i
  proof (cases "g = ent_id e")
    case True
    have "ent_id (es ! j) \<noteq> ent_id e" if "j < length es" for j
    proof -
      have "ent_id e \<notin> set (map ent_id es)" using dist by simp
      moreover have "map ent_id es ! j \<in> set (map ent_id es)" using that by (intro nth_mem) simp
      ultimately show ?thesis using that by (metis nth_map)
    qed
    then show ?thesis using True by (auto simp: nth_append less_Suc_eq)
  next
    case False
    then show ?thesis using d dist by (auto simp: nth_append less_Suc_eq)
  qed
  show ?case by (intro exI conjI impI allI, rule eq) (rule step)
qed simp

text \<open>On each rank the index map lists the ids of the entities, exclusive before shared before ghost, and the
  reverse map is its inverse.\<close>

theorem index_maps_inverse:
  assumes "distinct (map ent_id (exclusive col @ shared col @ ghost col))"
  shows "\<exists>index_map rev_map. index_maps col = (index_map, rev_map) \<and>
    index_map = map ent_id (exclusive col @ shared col @ ghost col) \<and>
    (\<forall>g i. map_of rev_map g = Some i \<longleftrightarrow> i < length index_map \<and> index_map ! i = g)"
proof -
  let ?es = "exclusive col @ shared col @ ghost col"
  have "length (replicate (length ?es) (0::nat)) = length ?es + 0" by simp
  from number_indices[OF this] assms obtain rm where
    f: "fold number_index ?es (0, replicate (length ?es) 0, []) = (length ?es, map ent_id ?es, rm)"
    and r: "\<forall>g i. map_of rm g = Some i \<longleftrightarrow> i < length ?es \<and> ent_id (?es ! i) = g" by auto
  have "index_maps col = snd (fold number_index ?es (0, replicate (length ?es) 0, []))"
    by (simp add: index_maps_def Let_def add.assoc)
  then have "index_maps col = (map ent_id ?es, rm)" using f by simp
  moreover have "\<forall>g i. map_of rm g = Some i \<longleftrightarrow> i < length (map ent_id ?es) \<and> map ent_id ?es ! i = g"
    using r by (metis length_map nth_map)
  ultimately show ?thesis by blast
qed

lemma index_maps_inverse_witness:
  "\<exists>rev_map. index_maps (example_halo ! 0) = ([0, 1, 4, 5], rev_map) \<and> map_of rev_map 4 = Some 2"
proof -
  have "distinct (map ent_id (exclusive (example_halo ! 0) @ shared (example_halo ! 0) @ ghost (example_halo ! 0)))"
    by (simp add: example_halo_def make_entity_info_def)
  from index_maps_inverse[OF this] show ?thesis
    by (auto simp: example_halo_def make_entity_info_def)
qed

end
