(* ===== verification/Ghost_Exchange.thy ===== *)
theory Ghost_Exchange
  imports Index_Remap
begin

text \<open>
  The ghost exchange of dense fields in the MPI runtime, as it is built with \<open>FLECSI\_USE\_AGGCOMM\<close> (the
  default): \<open>register\_field\_metadata\<close> of execution/mpi/context\_policy.h computes which bytes of a field
  are sent to and received from each rank, \<open>launch\_dense\_exchange\<close> of execution/mpi/task\_prolog.h sends
  the shared bytes of all fields a task is about to read in one message per rank.
\<close>

section \<open>Metadata\<close>

text \<open>A run of bytes: where it starts and how long it is. A run that continues the last one extends it.\<close>

definition add_run :: "nat \<Rightarrow> nat \<Rightarrow> (nat \<times> nat) list \<Rightarrow> (nat \<times> nat) list" where
  "add_run start len runs =
     (if runs = [] \<or> start \<noteq> fst (last runs) + snd (last runs) then runs @ [(start, len)]
      else butlast runs @ [(fst (last runs), snd (last runs) + len)])"

record field_metadata =
  shared_indices :: "(nat \<times> nat) list list"
  ghost_indices :: "(nat \<times> nat) list list"
  shared_field_sizes :: "nat list"
  ghost_field_sizes :: "nat list"

definition ghost_runs :: "nat \<Rightarrow> nat \<Rightarrow> entity_info list \<Rightarrow> (nat \<times> nat) list list outcome" where
  "ghost_runs size_T mpi_size ghosts =
     and_then (fold_outcome (\<lambda>e (ghost_cnt, runs).
         if ent_rank e < length runs
         then ok (ghost_cnt + 1, runs[ent_rank e := add_run (ghost_cnt * size_T) size_T (runs ! ent_rank e)])
         else fail Undefined) ghosts (0, replicate mpi_size []))
       (\<lambda>(_, runs). ok runs)"

definition shared_runs :: "nat \<Rightarrow> nat \<Rightarrow> entity_info list \<Rightarrow> (nat \<times> nat) list list outcome" where
  "shared_runs size_T mpi_size ents =
     fold_outcome (\<lambda>e. fold_outcome (\<lambda>s runs.
         if s < length runs then ok (runs[s := add_run (ent_offset e * size_T) size_T (runs ! s)]) else fail Undefined)
       (sorted_list_of_set (ent_shared e))) ents (replicate mpi_size [])"

definition register_field_metadata :: "nat \<Rightarrow> nat \<Rightarrow> index_coloring \<Rightarrow> field_metadata outcome" where
  "register_field_metadata size_T mpi_size col =
     and_then (ghost_runs size_T mpi_size (ghost col)) (\<lambda>gs.
     and_then (shared_runs size_T mpi_size (shared col)) (\<lambda>ss.
     ok \<lparr>shared_indices = ss, ghost_indices = gs,
         shared_field_sizes = map (\<lambda>rank. sum_list (map snd (ss ! rank))) [0..<mpi_size],
         ghost_field_sizes = map (\<lambda>rank. sum_list (map snd (gs ! rank))) [0..<mpi_size]\<rparr>))"

section \<open>The exchange\<close>

text \<open>
  What the context of a rank holds for a dense field: its bytes, its metadata with the two
  addresses \<open>shared\_data\_buffer\<close> and \<open>ghost\_data\_buffer\<close> (as offsets into the bytes), and its flag
  \<open>ghost\_is\_readable\<close>.
\<close>

record dense_field =
  field_bytes :: "nat list"
  field_meta :: field_metadata
  shared_data_buffer :: nat
  ghost_data_buffer :: nat
  ghost_is_readable :: bool

type_synonym dense_fields = "(nat, dense_field) std_map"

text \<open>\<open>memcpy\<close> of the runs of a field into a buffer and out of it; a copy past the end of an allocation is undefined.\<close>

definition copy_out :: "nat list \<Rightarrow> nat \<Rightarrow> (nat \<times> nat) list \<Rightarrow> nat list \<times> nat \<Rightarrow> (nat list \<times> nat) outcome" where
  "copy_out data base = fold_outcome (\<lambda>(start, len) (buf, offset).
     if base + start + len \<le> length data \<and> offset + len \<le> length buf
     then ok (put_slice offset (take len (drop (base + start) data)) buf, offset + len) else fail Undefined)"

definition copy_in :: "nat list \<Rightarrow> nat \<Rightarrow> (nat \<times> nat) list \<Rightarrow> nat list \<times> nat \<Rightarrow> (nat list \<times> nat) outcome" where
  "copy_in buf base = fold_outcome (\<lambda>(start, len) (data, offset).
     if base + start + len \<le> length data \<and> offset + len \<le> length buf
     then ok (put_slice (base + start) (take len (drop offset buf)) data, offset + len) else fail Undefined)"

text \<open>The sizes of the messages are counted in an \<open>int\<close>; a larger size has no meaning for MPI.\<close>

definition message_sizes :: "(field_metadata \<Rightarrow> nat list) \<Rightarrow> nat \<Rightarrow> nat list \<Rightarrow> dense_fields \<Rightarrow> nat list outcome" where
  "message_sizes field_sizes num_colors modified fds = fold_outcome (\<lambda>fid sizes.
     and_then (std_at fds fid) (\<lambda>f.
     let sizes = map (\<lambda>rank. sizes ! rank + field_sizes (field_meta f) ! rank) [0..<num_colors]
     in if list_all (\<lambda>s. s < 2 ^ 31) sizes then ok sizes else fail Undefined)) modified (replicate num_colors 0)"

definition pack_fields :: "nat list \<Rightarrow> dense_fields \<Rightarrow> nat \<Rightarrow> nat \<Rightarrow> nat list outcome" where
  "pack_fields modified fds rank buf_size =
     and_then (fold_outcome (\<lambda>fid state. and_then (std_at fds fid) (\<lambda>f.
         copy_out (field_bytes f) (shared_data_buffer f) (shared_indices (field_meta f) ! rank) state))
       modified (replicate buf_size 0, 0))
     (\<lambda>(buf, _). ok buf)"

definition unpack_fields :: "nat list \<Rightarrow> nat list \<Rightarrow> nat \<Rightarrow> dense_fields \<Rightarrow> dense_fields outcome" where
  "unpack_fields buf modified rank fds =
     and_then (fold_outcome (\<lambda>fid (fds, offset). and_then (std_at fds fid) (\<lambda>f.
         and_then (copy_in buf (ghost_data_buffer f) (ghost_indices (field_meta f) ! rank) (field_bytes f, offset)) (\<lambda>(data, offset).
         ok (std_put fid (f\<lparr>field_bytes := data\<rparr>) fds, offset))))
       modified (fds, 0))
     (\<lambda>(fds, _). ok fds)"

definition launch_dense_exchange :: "mpi \<Rightarrow> nat list list \<Rightarrow> dense_fields list \<Rightarrow> dense_fields list outcome" where
  "launch_dense_exchange c modified ctxs =
     (let n = length ctxs in
      and_then (traverse (\<lambda>r. message_sizes ghost_field_sizes n (modified ! r) (ctxs ! r)) [0..<n]) (\<lambda>ghost_size.
      and_then (traverse (\<lambda>r. message_sizes shared_field_sizes n (modified ! r) (ctxs ! r)) [0..<n]) (\<lambda>shared_size.
      and_then (traverse (\<lambda>r. traverse (\<lambda>rank. let s = shared_size ! r ! rank in
          if s = 0 then ok None else and_then (pack_fields (modified ! r) (ctxs ! r) rank s) (\<lambda>buf. ok (Some buf))) [0..<n]) [0..<n]) (\<lambda>sends.
      and_then (p2p c sends (map (map (\<lambda>s. if s = 0 then None else Some s)) ghost_size)) (\<lambda>arrived.
      traverse (\<lambda>r. fold_outcome (\<lambda>rank fds.
          if ghost_size ! r ! rank = 0 then ok fds else unpack_fields (arrived ! r ! rank) (modified ! r) rank fds)
        [0..<n] (ctxs ! r)) [0..<n])))))"


section \<open>Runs as lists of bytes\<close>

definition run_bytes :: "(nat \<times> nat) list \<Rightarrow> nat list" where
  "run_bytes runs = concat (map (\<lambda>(start, len). [start..<start + len]) runs)"

lemma run_bytes_Nil [simp]: "run_bytes [] = []"
  by (simp add: run_bytes_def)

lemma run_bytes_Cons [simp]: "run_bytes ((start, len) # runs) = [start..<start + len] @ run_bytes runs"
  by (simp add: run_bytes_def)

lemma run_bytes_add [simp]: "run_bytes (add_run start len runs) = run_bytes runs @ [start..<start + len]"
proof (cases "runs = [] \<or> start \<noteq> fst (last runs) + snd (last runs)")
  case True
  then show ?thesis by (simp add: add_run_def run_bytes_def)
next
  case False
  then have "runs = butlast runs @ [last runs]" by simp
  then have b: "run_bytes runs = run_bytes (butlast runs) @ [fst (last runs)..<fst (last runs) + snd (last runs)]"
    unfolding run_bytes_def by (metis (no_types, lifting) append_Nil2 concat.simps(1) concat.simps(2) concat_append list.simps(8) list.simps(9) map_append prod.case_eq_if)
  have "[fst (last runs)..<fst (last runs) + (snd (last runs) + len)]
      = [fst (last runs)..<fst (last runs) + snd (last runs)] @ [start..<start + len]"
    using False upt_add_eq_append[of "fst (last runs)" "fst (last runs) + snd (last runs)" len] by (simp add: add.assoc)
  then show ?thesis using False unfolding b by (simp add: add_run_def run_bytes_def case_prod_unfold)
qed

lemma run_bytes_size: "sum_list (map snd runs) = length (run_bytes runs)"
  by (induction runs) (auto simp: run_bytes_def)

definition runs_within :: "nat \<Rightarrow> (nat \<times> nat) list \<Rightarrow> bool" where
  "runs_within bound runs \<longleftrightarrow> (\<forall>(start, len)\<in>set runs. start + len \<le> bound)"

lemma runs_within_simps [simp]:
  "runs_within bound []"
  "runs_within bound ((start, len) # runs) \<longleftrightarrow> start + len \<le> bound \<and> runs_within bound runs"
  by (simp_all add: runs_within_def)

lemma runs_within_mono: "runs_within bound runs \<Longrightarrow> bound \<le> bound' \<Longrightarrow> runs_within bound' runs"
  unfolding runs_within_def by (induction runs) auto

lemma runs_within_add: "runs_within bound runs \<Longrightarrow> start + len \<le> bound \<Longrightarrow> runs_within bound (add_run start len runs)"
proof (cases "runs = [] \<or> start \<noteq> fst (last runs) + snd (last runs)")
  case False
  assume r: "runs_within bound runs" and b: "start + len \<le> bound"
  from False b have "fst (last runs) + (snd (last runs) + len) \<le> bound" by simp
  moreover have "runs_within bound (butlast runs)" using r by (auto simp: runs_within_def dest: in_set_butlastD)
  ultimately show ?thesis using False by (auto simp: add_run_def runs_within_def)
qed (auto simp: add_run_def runs_within_def)

text \<open>The bytes of the entities at the given positions.\<close>

definition entity_bytes :: "nat \<Rightarrow> nat list \<Rightarrow> nat list" where
  "entity_bytes size_T positions = concat (map (\<lambda>i. [i * size_T..<i * size_T + size_T]) positions)"

lemma entity_bytes_snoc [simp]: "entity_bytes size_T (ps @ [p]) = entity_bytes size_T ps @ [p * size_T..<p * size_T + size_T]"
  by (simp add: entity_bytes_def)

lemma entity_bytes_Nil [simp]: "entity_bytes size_T [] = []"
  by (simp add: entity_bytes_def)

lemma entity_bytes_length [simp]: "length (entity_bytes size_T ps) = length ps * size_T"
  by (induction ps rule: rev_induct) auto

text \<open>The ghosts a rank has of rank \<open>q\<close>.\<close>

definition ghosts_of :: "entity_info list \<Rightarrow> nat \<Rightarrow> nat list" where
  "ghosts_of ghosts q = filter (\<lambda>i. ent_rank (ghosts ! i) = q) [0..<length ghosts]"

lemma ghosts_of_snoc: "ghosts_of (gs @ [e]) q = ghosts_of gs q @ (if ent_rank e = q then [length gs] else [])"
  by (auto simp: ghosts_of_def nth_append intro!: filter_cong)

lemma ghosts_of_filter: "map ((!) gs) (ghosts_of gs q) = filter (\<lambda>e. ent_rank e = q) gs"
  unfolding ghosts_of_def using filter_map[of "\<lambda>e. ent_rank e = q" "(!) gs" "[0..<length gs]"]
  by (simp add: map_nth comp_def)

lemma ghost_runs_bytes:
  assumes "\<forall>e\<in>set gs. ent_rank e < n"
  shows "\<exists>runs. ghost_runs size_T n gs = ok runs \<and> length runs = n \<and>
    (\<forall>q<n. run_bytes (runs ! q) = entity_bytes size_T (ghosts_of gs q) \<and> runs_within (length gs * size_T) (runs ! q))"
proof -
  have "\<exists>runs. fold_outcome (\<lambda>e (ghost_cnt, runs).
         if ent_rank e < length runs
         then ok (ghost_cnt + 1, runs[ent_rank e := add_run (ghost_cnt * size_T) size_T (runs ! ent_rank e)])
         else fail Undefined) gs (0, replicate n []) = ok (length gs, runs) \<and> length runs = n \<and>
      (\<forall>q<n. run_bytes (runs ! q) = entity_bytes size_T (ghosts_of gs q) \<and> runs_within (length gs * size_T) (runs ! q))"
    using assms
  proof (induction gs rule: rev_induct)
    case (snoc e gs)
    then obtain runs where r: "fold_outcome (\<lambda>e (ghost_cnt, runs).
         if ent_rank e < length runs
         then ok (ghost_cnt + 1, runs[ent_rank e := add_run (ghost_cnt * size_T) size_T (runs ! ent_rank e)])
         else fail Undefined) gs (0, replicate n []) = ok (length gs, runs)" "length runs = n"
      "\<forall>q<n. run_bytes (runs ! q) = entity_bytes size_T (ghosts_of gs q) \<and> runs_within (length gs * size_T) (runs ! q)" by auto
    have "runs_within (length gs * size_T + size_T) (runs ! q)" if "q < n" for q
      using r(3) that runs_within_mono le_add1 by blast
    then show ?case unfolding fold_outcome_append r(1) and_then.simps
      using r(2,3) snoc.prems by (simp add: nth_list_update ghosts_of_snoc runs_within_add add.commute)
  qed (simp add: ghosts_of_def)
  then show ?thesis unfolding ghost_runs_def by (elim exE conjE) simp
qed

text \<open>The offsets of the entities that rank \<open>r\<close> uses.\<close>

definition shared_offsets :: "entity_info list \<Rightarrow> nat \<Rightarrow> nat list" where
  "shared_offsets ents r = map ent_offset (filter (\<lambda>e. r \<in> ent_shared e) ents)"

lemma shared_runs_bytes:
  assumes "\<forall>e\<in>set ents. ent_shared e \<subseteq> {..<n} \<and> ent_offset e < m"
  shows "\<exists>runs. shared_runs size_T n ents = ok runs \<and> length runs = n \<and>
    (\<forall>r<n. run_bytes (runs ! r) = entity_bytes size_T (shared_offsets ents r) \<and> runs_within (m * size_T) (runs ! r))"
  using assms
proof (induction ents rule: rev_induct)
  case (snoc e ents)
  let ?add = "\<lambda>s runs. if s < length runs then ok (runs[s := add_run (ent_offset e * size_T) size_T (runs ! s)]) else fail Undefined"
  have "Suc (ent_offset e) * size_T \<le> m * size_T" using snoc.prems by (intro mult_le_mono1) simp
  then have within: "ent_offset e * size_T + size_T \<le> m * size_T" by simp
  have one: "\<exists>runs'. fold_outcome ?add ss runs = ok runs' \<and> length runs' = n \<and> (\<forall>r<n. run_bytes (runs' ! r) =
      run_bytes (runs ! r) @ (if r \<in> set ss then [ent_offset e * size_T..<ent_offset e * size_T + size_T] else []) \<and> runs_within (m * size_T) (runs' ! r))"
    if "distinct ss" "set ss \<subseteq> {..<n}" "length runs = n" "\<forall>r<n. runs_within (m * size_T) (runs ! r)" for ss runs
    using that
  proof (induction ss arbitrary: runs)
    case (Cons s ss)
    let ?runs = "runs[s := add_run (ent_offset e * size_T) size_T (runs ! s)]"
    have "distinct ss" "set ss \<subseteq> {..<n}" "length ?runs = n" "\<forall>r<n. runs_within (m * size_T) (?runs ! r)"
      using Cons.prems within by (auto simp: nth_list_update runs_within_add)
    from Cons.IH[OF this] obtain runs' where r: "fold_outcome ?add ss ?runs = ok runs'" "length runs' = n" "\<forall>r<n. run_bytes (runs' ! r) =
        run_bytes (?runs ! r) @ (if r \<in> set ss then [ent_offset e * size_T..<ent_offset e * size_T + size_T] else []) \<and> runs_within (m * size_T) (runs' ! r)" by blast
    have "fold_outcome ?add (s # ss) runs = ok runs'" using Cons.prems r(1) by simp
    moreover have "\<forall>r<n. run_bytes (runs' ! r) =
        run_bytes (runs ! r) @ (if r \<in> set (s # ss) then [ent_offset e * size_T..<ent_offset e * size_T + size_T] else []) \<and> runs_within (m * size_T) (runs' ! r)"
      using Cons.prems r(3) by (auto simp: nth_list_update)
    ultimately show ?case using r(2) by blast
  qed (use that in simp)
  from snoc obtain runs where r: "shared_runs size_T n ents = ok runs" "length runs = n"
    "\<forall>r<n. run_bytes (runs ! r) = entity_bytes size_T (shared_offsets ents r) \<and> runs_within (m * size_T) (runs ! r)" by auto
  have fin: "finite (ent_shared e)" "ent_shared e \<subseteq> {..<n}" using snoc.prems finite_subset by auto
  then obtain runs' where r': "fold_outcome ?add (sorted_list_of_set (ent_shared e)) runs = ok runs'" "length runs' = n"
    "\<forall>r<n. run_bytes (runs' ! r) = run_bytes (runs ! r) @ (if r \<in> ent_shared e then [ent_offset e * size_T..<ent_offset e * size_T + size_T] else []) \<and> runs_within (m * size_T) (runs' ! r)"
    using one[of "sorted_list_of_set (ent_shared e)" runs] r(2,3) by auto
  have "shared_runs size_T n (ents @ [e]) = ok runs'" using r(1) r'(1) by (simp add: shared_runs_def)
  moreover have "\<forall>r<n. run_bytes (runs' ! r) = entity_bytes size_T (shared_offsets (ents @ [e]) r) \<and> runs_within (m * size_T) (runs' ! r)"
    using r(3) r'(3) by (simp add: shared_offsets_def)
  ultimately show ?case using r'(2) by blast
qed (simp add: shared_runs_def shared_offsets_def)


section \<open>Copying\<close>

definition run_values :: "nat list \<Rightarrow> nat \<Rightarrow> (nat \<times> nat) list \<Rightarrow> nat list" where
  "run_values data base runs = map (\<lambda>p. data ! (base + p)) (run_bytes runs)"

lemma take_drop_map: "i + len \<le> length xs \<Longrightarrow> take len (drop i xs) = map ((!) xs) [i..<i + len]"
  by (intro nth_equalityI) auto

lemma copy_out_runs:
  assumes "runs_within bound runs" "base + bound \<le> length data" "offset + length (run_bytes runs) \<le> length buf"
  shows "copy_out data base runs (buf, offset)
    = ok (put_slice offset (run_values data base runs) buf, offset + length (run_bytes runs))"
  using assms
proof (induction runs arbitrary: buf offset)
  case Nil
  then show ?case by (simp add: copy_out_def run_values_def put_slice_def)
next
  case (Cons run runs)
  obtain start len where run: "run = (start, len)" by (cases run)
  let ?ys = "take len (drop (base + start) data)"
  have b: "base + start + len \<le> length data" "offset + len \<le> length buf" using Cons.prems by (auto simp: run)
  then have ys: "?ys = map (\<lambda>p. data ! (base + p)) [start..<start + len]" "length ?ys = len"
    by (auto intro!: nth_equalityI simp: add.assoc)
  have rw: "runs_within bound runs" "offset + len + length (run_bytes runs) \<le> length (put_slice offset ?ys buf)"
    using Cons.prems ys(2) by (simp_all add: run)
  have "put_slice (offset + len) (run_values data base runs) (put_slice offset ?ys buf)
      = put_slice offset (?ys @ run_values data base runs) buf"
    using put_slice_twice[of offset ?ys buf "run_values data base runs"] b Cons.prems(3) ys(2) by (simp add: run)
  also have "?ys @ run_values data base runs = run_values data base (run # runs)"
    unfolding ys(1) by (simp add: run_values_def run)
  finally show ?case
    using Cons.IH[OF rw(1) Cons.prems(2) rw(2)] b by (simp add: copy_out_def run add.assoc)
qed

definition scatter :: "nat \<Rightarrow> nat list \<Rightarrow> nat list \<Rightarrow> nat list \<Rightarrow> nat list" where
  "scatter base ps ws data = fold (\<lambda>(p, w) d. d[base + p := w]) (zip ps ws) data"

lemma scatter_length [simp]: "length (scatter base ps ws data) = length data"
proof -
  have "length (fold (\<lambda>(p, w) d. d[base + p := w]) zs data) = length data" for zs
    by (induction zs arbitrary: data) auto
  then show ?thesis by (simp add: scatter_def)
qed

lemma scatter_Nil [simp]: "scatter base [] ws data = data"
  by (simp add: scatter_def)

lemma scatter_append: "length ps = length us \<Longrightarrow> scatter base (ps @ qs) (us @ ws) data = scatter base qs ws (scatter base ps us data)"
  by (simp add: scatter_def)

lemma scatter_other: "i \<notin> (+) base ` set ps \<Longrightarrow> scatter base ps ws data ! i = data ! i"
proof (induction ps arbitrary: ws data)
  case (Cons p ps)
  then show ?case by (cases ws) (auto simp: scatter_def)
qed simp

lemma scatter_at:
  assumes "distinct ps" "length ps = length ws" "k < length ps" "base + ps ! k < length data"
  shows "scatter base ps ws data ! (base + ps ! k) = ws ! k"
  using assms
proof (induction ps arbitrary: ws data k)
  case (Cons p ps)
  obtain w ws' where ws: "ws = w # ws'" using Cons.prems(2) by (cases ws) auto
  have step: "scatter base (p # ps) ws data = scatter base ps ws' (data[base + p := w])" by (simp add: scatter_def ws)
  show ?case
  proof (cases k)
    case 0
    then show ?thesis using Cons.prems unfolding step by (simp add: scatter_other image_iff ws)
  next
    case (Suc j)
    then show ?thesis using Cons.IH[of ws' j "data[base + p := w]"] Cons.prems unfolding step by (simp add: ws)
  qed
qed simp

lemma scatter_slice:
  "base + start + length ws \<le> length data \<Longrightarrow> put_slice (base + start) ws data = scatter base [start..<start + length ws] ws data"
proof (induction ws arbitrary: start data)
  case Nil
  then show ?case by (simp add: put_slice_def)
next
  case (Cons w ws)
  have u: "[start..<start + length (w # ws)] = start # [Suc start..<Suc start + length ws]" by (simp add: upt_rec)
  have "scatter base [start..<start + length (w # ws)] (w # ws) data
      = scatter base [Suc start..<Suc start + length ws] ws (data[base + start := w])" unfolding u by (simp add: scatter_def)
  also have "\<dots> = put_slice (base + Suc start) ws (data[base + start := w])"
    using Cons.IH[of "Suc start" "data[base + start := w]"] Cons.prems by simp
  also have "\<dots> = put_slice (base + start) (w # ws) data"
    using Cons.prems by (simp add: put_slice_def take_Suc_conv_app_nth drop_update_cancel take_update_swap upd_conv_take_nth_drop ac_simps)
  finally show ?case ..
qed

lemma copy_in_runs:
  assumes "runs_within bound runs" "base + bound \<le> length data" "offset + length (run_bytes runs) \<le> length buf"
  shows "copy_in buf base runs (data, offset)
    = ok (scatter base (run_bytes runs) (take (length (run_bytes runs)) (drop offset buf)) data, offset + length (run_bytes runs))"
  using assms
proof (induction runs arbitrary: data offset)
  case Nil
  then show ?case by (simp add: copy_in_def)
next
  case (Cons run runs)
  obtain start len where run: "run = (start, len)" by (cases run)
  let ?ws = "take len (drop offset buf)"
  have b: "base + start + len \<le> length data" "offset + len \<le> length buf" and l: "length ?ws = len" using Cons.prems by (auto simp: run)
  have s: "put_slice (base + start) ?ws data = scatter base [start..<start + len] ?ws data"
    using scatter_slice[of base start ?ws data] b(1) unfolding l by simp
  have "copy_in buf base runs (scatter base [start..<start + len] ?ws data, offset + len)
      = ok (scatter base (run_bytes runs) (take (length (run_bytes runs)) (drop (offset + len) buf)) (scatter base [start..<start + len] ?ws data),
          offset + len + length (run_bytes runs))"
    using Cons.prems by (intro Cons.IH) (simp_all add: run)
  moreover have "take (length (run_bytes (run # runs))) (drop offset buf) = ?ws @ take (length (run_bytes runs)) (drop (offset + len) buf)"
    by (simp add: run take_add add.commute)
  ultimately show ?case
    using b l by (simp add: copy_in_def run s scatter_append add.assoc)
qed

section \<open>Messages of several fields\<close>

text \<open>
  \<open>f fid\<close> is the field \<open>fid\<close> of a rank before the exchange. The message for a rank holds the values of the
  fields one after the other.
\<close>

definition sent_values :: "(nat \<Rightarrow> dense_field) \<Rightarrow> nat \<Rightarrow> nat \<Rightarrow> nat list" where
  "sent_values f rank fid = run_values (field_bytes (f fid)) (shared_data_buffer (f fid)) (shared_indices (field_meta (f fid)) ! rank)"

definition sendable :: "dense_field \<Rightarrow> nat \<Rightarrow> bool" where
  "sendable fd rank \<longleftrightarrow> (\<exists>bound. runs_within bound (shared_indices (field_meta fd) ! rank) \<and>
     shared_data_buffer fd + bound \<le> length (field_bytes fd))"

definition receivable :: "dense_field \<Rightarrow> nat \<Rightarrow> bool" where
  "receivable fd rank \<longleftrightarrow> (\<exists>bound. runs_within bound (ghost_indices (field_meta fd) ! rank) \<and>
     ghost_data_buffer fd + bound \<le> length (field_bytes fd))"

lemma sent_values_length: "length (sent_values f rank fid) = length (run_bytes (shared_indices (field_meta (f fid)) ! rank))"
  by (simp add: sent_values_def run_values_def)

lemma put_slice_all: "length ws = n \<Longrightarrow> put_slice 0 ws (replicate n x) = ws"
  by (simp add: put_slice_def)

lemma pack_fields_values:
  assumes "\<forall>fid\<in>set ms. map_of fds fid = Some (f fid) \<and> sendable (f fid) rank"
    and "s = length (concat (map (sent_values f rank) ms))"
  shows "pack_fields ms fds rank s = ok (concat (map (sent_values f rank) ms))"
proof -
  have "fold_outcome (\<lambda>fid state. and_then (std_at fds fid) (\<lambda>f.
         copy_out (field_bytes f) (shared_data_buffer f) (shared_indices (field_meta f) ! rank) state)) ms (buf, offset)
      = ok (put_slice offset (concat (map (sent_values f rank) ms)) buf, offset + length (concat (map (sent_values f rank) ms)))"
    if "\<forall>fid\<in>set ms. map_of fds fid = Some (f fid) \<and> sendable (f fid) rank"
      "offset + length (concat (map (sent_values f rank) ms)) \<le> length buf" for ms buf offset
    using that
  proof (induction ms arbitrary: buf offset)
    case Nil
    then show ?case by (simp add: put_slice_def)
  next
    case (Cons fid ms)
    let ?ws = "sent_values f rank fid"
    have at: "std_at fds fid = ok (f fid)" using Cons.prems by (simp add: std_at_def)
    obtain bound where b: "runs_within bound (shared_indices (field_meta (f fid)) ! rank)"
      "shared_data_buffer (f fid) + bound \<le> length (field_bytes (f fid))" using Cons.prems unfolding sendable_def by auto
    have l: "offset + length ?ws \<le> length buf" "offset + length ?ws + length (concat (map (sent_values f rank) ms)) \<le> length (put_slice offset ?ws buf)"
      using Cons.prems by auto
    have "copy_out (field_bytes (f fid)) (shared_data_buffer (f fid)) (shared_indices (field_meta (f fid)) ! rank) (buf, offset)
        = ok (put_slice offset ?ws buf, offset + length ?ws)"
      using copy_out_runs[OF b, of offset buf] l(1) by (simp add: sent_values_length) (simp add: sent_values_def)
    moreover have "put_slice (offset + length ?ws) (concat (map (sent_values f rank) ms)) (put_slice offset ?ws buf)
        = put_slice offset (?ws @ concat (map (sent_values f rank) ms)) buf"
      using put_slice_twice[of offset ?ws buf "concat (map (sent_values f rank) ms)"] l Cons.prems(2) by simp
    ultimately show ?case
      using Cons.IH[OF _ l(2)] Cons.prems(1) at by (simp add: add.assoc)
  qed
  from this[of ms 0 "replicate s 0"] show ?thesis
    using assms put_slice_all[of "concat (map (sent_values f rank) ms)" s 0] by (simp add: pack_fields_def)
qed

lemma unpack_fields_values:
  assumes "distinct ms" and "\<forall>fid\<in>set ms. map_of fds fid = Some (f fid) \<and> receivable (f fid) rank \<and>
      length (w fid) = length (run_bytes (ghost_indices (field_meta (f fid)) ! rank))"
  shows "\<exists>fds'. unpack_fields (concat (map w ms)) ms rank fds = ok fds' \<and> (\<forall>fid. map_of fds' fid =
    (if fid \<in> set ms then Some ((f fid)\<lparr>field_bytes := scatter (ghost_data_buffer (f fid))
        (run_bytes (ghost_indices (field_meta (f fid)) ! rank)) (w fid) (field_bytes (f fid))\<rparr>) else map_of fds fid))"
proof -
  let ?new = "\<lambda>fid. (f fid)\<lparr>field_bytes := scatter (ghost_data_buffer (f fid))
        (run_bytes (ghost_indices (field_meta (f fid)) ! rank)) (w fid) (field_bytes (f fid))\<rparr>"
  have "\<exists>fds'. fold_outcome (\<lambda>fid (fds, offset). and_then (std_at fds fid) (\<lambda>f.
         and_then (copy_in buf (ghost_data_buffer f) (ghost_indices (field_meta f) ! rank) (field_bytes f, offset)) (\<lambda>(data, offset).
         ok (std_put fid (f\<lparr>field_bytes := data\<rparr>) fds, offset)))) ms (fds, offset)
      = ok (fds', offset + length (concat (map w ms))) \<and>
      (\<forall>fid. map_of fds' fid = (if fid \<in> set ms then Some (?new fid) else map_of fds fid))"
    if "distinct ms" "\<forall>fid\<in>set ms. map_of fds fid = Some (f fid) \<and> receivable (f fid) rank \<and>
        length (w fid) = length (run_bytes (ghost_indices (field_meta (f fid)) ! rank))"
      "drop offset buf = concat (map w ms)" "offset \<le> length buf" for ms fds offset buf
    using that
  proof (induction ms arbitrary: fds offset)
    case (Cons fid ms)
    have at: "std_at fds fid = ok (f fid)" using Cons.prems by (simp add: std_at_def)
    obtain bound where b: "runs_within bound (ghost_indices (field_meta (f fid)) ! rank)"
      "ghost_data_buffer (f fid) + bound \<le> length (field_bytes (f fid))" using Cons.prems unfolding receivable_def by auto
    have l: "length (w fid) = length (run_bytes (ghost_indices (field_meta (f fid)) ! rank))" using Cons.prems by simp
    have lb: "length buf = offset + length (w fid) + length (concat (map w ms))"
      using arg_cong[OF Cons.prems(3), of length] Cons.prems(4) by simp
    have "take (length (w fid)) (drop offset buf) = w fid" unfolding Cons.prems(3) by simp
    then have ci: "copy_in buf (ghost_data_buffer (f fid)) (ghost_indices (field_meta (f fid)) ! rank) (field_bytes (f fid), offset)
        = ok (field_bytes (?new fid), offset + length (w fid))"
      using copy_in_runs[OF b, of offset buf] lb l by simp
    let ?fds = "std_put fid (?new fid) fds"
    have d: "drop (offset + length (w fid)) buf = concat (map w ms)"
    proof -
      have "drop (offset + length (w fid)) buf = drop (length (w fid)) (drop offset buf)" by (simp add: add.commute)
      then show ?thesis unfolding Cons.prems(3) by simp
    qed
    have rest: "\<forall>fid\<in>set ms. map_of ?fds fid = Some (f fid) \<and> receivable (f fid) rank \<and>
        length (w fid) = length (run_bytes (ghost_indices (field_meta (f fid)) ! rank))"
      using Cons.prems(1,2) by auto
    have dl: "distinct ms" "offset + length (w fid) \<le> length buf" using Cons.prems(1) lb by auto
    from Cons.IH[OF dl(1) rest d dl(2)] obtain fds' where r: "fold_outcome (\<lambda>fid (fds, offset). and_then (std_at fds fid) (\<lambda>f.
         and_then (copy_in buf (ghost_data_buffer f) (ghost_indices (field_meta f) ! rank) (field_bytes f, offset)) (\<lambda>(data, offset).
         ok (std_put fid (f\<lparr>field_bytes := data\<rparr>) fds, offset)))) ms (?fds, offset + length (w fid))
      = ok (fds', offset + length (w fid) + length (concat (map w ms)))"
      "\<forall>fid. map_of fds' fid = (if fid \<in> set ms then Some (?new fid) else map_of ?fds fid)"
      by (elim exE conjE)
    have "\<forall>x. map_of fds' x = (if x \<in> set (fid # ms) then Some (?new x) else map_of fds x)"
      using r(2) by simp
    moreover have "fold_outcome (\<lambda>fid (fds, offset). and_then (std_at fds fid) (\<lambda>f.
         and_then (copy_in buf (ghost_data_buffer f) (ghost_indices (field_meta f) ! rank) (field_bytes f, offset)) (\<lambda>(data, offset).
         ok (std_put fid (f\<lparr>field_bytes := data\<rparr>) fds, offset)))) (fid # ms) (fds, offset)
      = ok (fds', offset + length (concat (map w (fid # ms))))"
      using at ci r(1) by (simp add: add.assoc)
    ultimately show ?case by blast
  qed simp
  from this[OF assms drop_0 le0] obtain fds' where
    r: "fold_outcome (\<lambda>fid (fds, offset). and_then (std_at fds fid) (\<lambda>f.
         and_then (copy_in (concat (map w ms)) (ghost_data_buffer f) (ghost_indices (field_meta f) ! rank) (field_bytes f, offset)) (\<lambda>(data, offset).
         ok (std_put fid (f\<lparr>field_bytes := data\<rparr>) fds, offset)))) ms (fds, 0) = ok (fds', 0 + length (concat (map w ms)))"
      "\<forall>fid. map_of fds' fid = (if fid \<in> set ms then Some (?new fid) else map_of fds fid)"
    by (elim exE conjE)
  show ?thesis by (intro exI conjI, unfold unpack_fields_def r(1)) (simp, rule r(2))
qed

section \<open>Positions of bytes\<close>

lemma entity_bytes_Cons: "entity_bytes sz (p # ps) = [p * sz..<p * sz + sz] @ entity_bytes sz ps"
  by (simp add: entity_bytes_def)

lemma entity_bytes_nth: "k < length ps \<Longrightarrow> b < sz \<Longrightarrow> entity_bytes sz ps ! (k * sz + b) = ps ! k * sz + b"
proof (induction ps arbitrary: k)
  case (Cons p ps)
  then show ?case
    by (cases k) (simp_all add: entity_bytes_Cons nth_append add.assoc)
qed simp

lemma entity_bytes_set: "set (entity_bytes sz ps) = {p * sz + b |p b. p \<in> set ps \<and> b < sz}"
proof (induction ps)
  case (Cons p ps)
  have "set [p * sz..<p * sz + sz] = {p * sz + b |b. b < sz}"
    by (auto simp: le_iff_add)
  then show ?case using Cons by (auto simp: entity_bytes_Cons)
qed simp

lemma byte_position: "p * sz + b = p' * sz + b' \<Longrightarrow> b < sz \<Longrightarrow> b' < sz \<Longrightarrow> p = p' \<and> b = b'" for sz :: nat
proof -
  assume e: "p * sz + b = p' * sz + b'" and b: "b < sz" "b' < sz"
  have d: "(x * sz + y) div sz = x \<and> (x * sz + y) mod sz = y" if "y < sz" for x y using that by simp
  show ?thesis using d[OF b(1), of p] d[OF b(2), of p'] unfolding e by simp
qed

lemma entity_bytes_disjoint: "set ps \<inter> set qs = {} \<Longrightarrow> set (entity_bytes sz ps) \<inter> set (entity_bytes sz qs) = {}"
  unfolding entity_bytes_set using byte_position by blast

lemma entity_bytes_distinct: "distinct ps \<Longrightarrow> distinct (entity_bytes sz ps)"
proof (induction ps)
  case (Cons p ps)
  then have "set (entity_bytes sz [p]) \<inter> set (entity_bytes sz ps) = {}" by (intro entity_bytes_disjoint) simp
  then show ?case using Cons by (simp add: entity_bytes_Cons entity_bytes_def[of sz "[p]"])
qed simp

text \<open>Filling disjoint sets of positions one after the other.\<close>

lemma fold_scatter:
  assumes "distinct qs" and "\<And>q. q \<in> set qs \<Longrightarrow> distinct (ps q) \<and> length (ps q) = length (w q) \<and> (\<forall>p\<in>set (ps q). base + p < length data)"
    and "\<And>q q'. q \<in> set qs \<Longrightarrow> q' \<in> set qs \<Longrightarrow> q \<noteq> q' \<Longrightarrow> set (ps q) \<inter> set (ps q') = {}"
  shows "length (fold (\<lambda>q. scatter base (ps q) (w q)) qs data) = length data"
    and "\<And>q k. q \<in> set qs \<Longrightarrow> k < length (ps q) \<Longrightarrow> fold (\<lambda>q. scatter base (ps q) (w q)) qs data ! (base + ps q ! k) = w q ! k"
    and "\<And>i. i \<notin> (+) base ` (\<Union>q\<in>set qs. set (ps q)) \<Longrightarrow> fold (\<lambda>q. scatter base (ps q) (w q)) qs data ! i = data ! i"
proof -
  show len: "length (fold (\<lambda>q. scatter base (ps q) (w q)) qs data) = length data" for qs
    by (induction qs arbitrary: data) auto
  show "fold (\<lambda>q. scatter base (ps q) (w q)) qs data ! i = data ! i" if "i \<notin> (+) base ` (\<Union>q\<in>set qs. set (ps q))" for i
    using that by (induction qs arbitrary: data) (auto simp: scatter_other image_Un)
  show "fold (\<lambda>q. scatter base (ps q) (w q)) qs data ! (base + ps q ! k) = w q ! k" if "q \<in> set qs" "k < length (ps q)" for q k
    using assms that
  proof (induction qs rule: rev_induct)
    case (snoc x qs)
    let ?d = "fold (\<lambda>q. scatter base (ps q) (w q)) qs data"
    show ?case
    proof (cases "q = x")
      case True
      have "distinct (ps x)" "length (ps x) = length (w x)" "\<forall>p\<in>set (ps x). base + p < length ?d"
        using snoc.prems(2)[of x] len[of qs] by simp_all
      then show ?thesis using True snoc.prems(5) scatter_at[of "ps x" "w x" k base ?d] by simp
    next
      case False
      then have "ps q ! k \<notin> set (ps x)" using snoc.prems(3)[of q x] snoc.prems(4,5) nth_mem by fastforce
      then have "base + ps q ! k \<notin> (+) base ` set (ps x)" by auto
      moreover have "?d ! (base + ps q ! k) = w q ! k"
      proof (rule snoc.IH)
        show "distinct qs" "q \<in> set qs" using snoc.prems(1,4) False by auto
        show "distinct (ps y) \<and> length (ps y) = length (w y) \<and> (\<forall>p\<in>set (ps y). base + p < length data)" if "y \<in> set qs" for y
          by (rule snoc.prems(2)) (use that in simp)
        show "set (ps y) \<inter> set (ps z) = {}" if "y \<in> set qs" "z \<in> set qs" "y \<noteq> z" for y z
          by (rule snoc.prems(3)) (use that in simp_all)
      qed (rule snoc.prems(5))
      ultimately show ?thesis by (simp add: scatter_other)
    qed
  qed simp
qed

section \<open>The exchange on all ranks\<close>

definition halo :: "nat \<Rightarrow> index_coloring list \<Rightarrow> bool" where
  "halo n cols \<longleftrightarrow> halo_agrees n cols \<and> halo_indexed n cols"

text \<open>The layout of a field: exclusive, shared and ghost entities, each of \<open>sz\<close> bytes.\<close>

definition shared_start :: "nat \<Rightarrow> index_coloring \<Rightarrow> nat" where
  "shared_start sz col = length (exclusive col) * sz"

definition ghost_start :: "nat \<Rightarrow> index_coloring \<Rightarrow> nat" where
  "ghost_start sz col = (length (exclusive col) + length (shared col)) * sz"

definition laid_out :: "nat \<Rightarrow> nat \<Rightarrow> index_coloring \<Rightarrow> dense_field \<Rightarrow> bool" where
  "laid_out n sz col f \<longleftrightarrow> register_field_metadata sz n col = ok (field_meta f) \<and>
     length (field_bytes f) = (length (exclusive col) + length (shared col) + length (ghost col)) * sz"

definition buffers_set :: "nat \<Rightarrow> index_coloring \<Rightarrow> dense_field \<Rightarrow> bool" where
  "buffers_set sz col f \<longleftrightarrow> shared_data_buffer f = shared_start sz col \<and> ghost_data_buffer f = ghost_start sz col"

definition element :: "nat \<Rightarrow> nat list \<Rightarrow> nat \<Rightarrow> nat list" where
  "element sz data i = take sz (drop (i * sz) data)"

definition bytes_at :: "dense_fields list \<Rightarrow> nat \<Rightarrow> nat \<Rightarrow> nat list" where
  "bytes_at ctxs fid r = field_bytes (the (map_of (ctxs ! r) fid))"

text \<open>Every ghost of rank \<open>r\<close> has the value that its owner has.\<close>

definition ghosts_current :: "nat \<Rightarrow> index_coloring list \<Rightarrow> (nat \<Rightarrow> nat list) \<Rightarrow> nat \<Rightarrow> bool" where
  "ghosts_current sz cols data r \<longleftrightarrow> (\<forall>i<length (ghost (cols ! r)).
     let e = ghost (cols ! r) ! i; q = ent_rank e in
       element sz (data r) (length (exclusive (cols ! r)) + length (shared (cols ! r)) + i)
       = element sz (data q) (length (exclusive (cols ! q)) + ent_offset e))"

lemma halo_positions:
  assumes "halo n cols" "r < n" "q < n"
  shows "shared_offsets (shared (cols ! q)) r = map (\<lambda>i. ent_offset (ghost (cols ! r) ! i)) (ghosts_of (ghost (cols ! r)) q)"
  using halo_offsets[of n cols r q] assms ghosts_of_filter[of "ghost (cols ! r)" q]
  unfolding halo_def shared_offsets_def by (metis (no_types, lifting) list.map_comp comp_apply map_eq_conv)

lemma metadata_runs:
  assumes h: "halo n cols" and r: "r < n" and m: "register_field_metadata sz n (cols ! r) = ok m" and q: "q < n"
  shows "run_bytes (ghost_indices m ! q) = entity_bytes sz (ghosts_of (ghost (cols ! r)) q)"
    "runs_within (length (ghost (cols ! r)) * sz) (ghost_indices m ! q)"
    "ghost_field_sizes m ! q = length (ghosts_of (ghost (cols ! r)) q) * sz"
    "run_bytes (shared_indices m ! q) = entity_bytes sz (shared_offsets (shared (cols ! r)) q)"
    "runs_within (length (shared (cols ! r)) * sz) (shared_indices m ! q)"
    "shared_field_sizes m ! q = length (shared_offsets (shared (cols ! r)) q) * sz"
proof -
  note hd = halo_agreesD[OF h[unfolded halo_def, THEN conjunct1]]
  have g: "\<forall>e\<in>set (ghost (cols ! r)). ent_rank e < n" using hd(7)[OF r] by blast
  have off: "map ent_offset (shared (cols ! r)) = [0..<length (shared (cols ! r))]"
    using h r unfolding halo_def halo_indexed_def by blast
  have s: "\<forall>e\<in>set (shared (cols ! r)). ent_shared e \<subseteq> {..<n} \<and> ent_offset e < length (shared (cols ! r))"
  proof
    fix e assume e: "e \<in> set (shared (cols ! r))"
    then have "ent_offset e \<in> set (map ent_offset (shared (cols ! r)))" by simp
    then show "ent_shared e \<subseteq> {..<n} \<and> ent_offset e < length (shared (cols ! r))"
      unfolding off using hd(6)[OF r e] by auto
  qed
  obtain gs where gs: "ghost_runs sz n (ghost (cols ! r)) = ok gs"
    "\<forall>q<n. run_bytes (gs ! q) = entity_bytes sz (ghosts_of (ghost (cols ! r)) q) \<and> runs_within (length (ghost (cols ! r)) * sz) (gs ! q)"
    using ghost_runs_bytes[OF g, of sz] by blast
  obtain ss where ss: "shared_runs sz n (shared (cols ! r)) = ok ss"
    "\<forall>q<n. run_bytes (ss ! q) = entity_bytes sz (shared_offsets (shared (cols ! r)) q) \<and> runs_within (length (shared (cols ! r)) * sz) (ss ! q)"
    using shared_runs_bytes[OF s, of sz] by blast
  have "m = \<lparr>shared_indices = ss, ghost_indices = gs,
         shared_field_sizes = map (\<lambda>rank. sum_list (map snd (ss ! rank))) [0..<n],
         ghost_field_sizes = map (\<lambda>rank. sum_list (map snd (gs ! rank))) [0..<n]\<rparr>"
    using m gs(1) ss(1) by (simp add: register_field_metadata_def)
  then show "run_bytes (ghost_indices m ! q) = entity_bytes sz (ghosts_of (ghost (cols ! r)) q)"
    "runs_within (length (ghost (cols ! r)) * sz) (ghost_indices m ! q)"
    "ghost_field_sizes m ! q = length (ghosts_of (ghost (cols ! r)) q) * sz"
    "run_bytes (shared_indices m ! q) = entity_bytes sz (shared_offsets (shared (cols ! r)) q)"
    "runs_within (length (shared (cols ! r)) * sz) (shared_indices m ! q)"
    "shared_field_sizes m ! q = length (shared_offsets (shared (cols ! r)) q) * sz"
    using gs(2) ss(2) q by (simp_all add: run_bytes_size)
qed

lemma message_sizes_total:
  assumes "\<forall>fid\<in>set ms. map_of fds fid = Some (f fid)" "\<forall>q<n. (\<Sum>fid\<leftarrow>ms. sel (field_meta (f fid)) ! q) < 2 ^ 31"
  shows "message_sizes sel n ms fds = ok (map (\<lambda>q. \<Sum>fid\<leftarrow>ms. sel (field_meta (f fid)) ! q) [0..<n])"
proof -
  have "fold_outcome (\<lambda>fid sizes. and_then (std_at fds fid) (\<lambda>f.
     let sizes = map (\<lambda>rank. sizes ! rank + sel (field_meta f) ! rank) [0..<n]
     in if list_all (\<lambda>s. s < 2 ^ 31) sizes then ok sizes else fail Undefined)) ms acc
    = ok (map (\<lambda>q. acc ! q + (\<Sum>fid\<leftarrow>ms. sel (field_meta (f fid)) ! q)) [0..<n])"
    if "\<forall>fid\<in>set ms. map_of fds fid = Some (f fid)" "length acc = n" "\<forall>q<n. acc ! q + (\<Sum>fid\<leftarrow>ms. sel (field_meta (f fid)) ! q) < 2 ^ 31" for ms acc
    using that
  proof (induction ms arbitrary: acc)
    case Nil
    then show ?case by (auto intro: nth_equalityI)
  next
    case (Cons fid ms)
    let ?acc = "map (\<lambda>rank. acc ! rank + sel (field_meta (f fid)) ! rank) [0..<n]"
    have a: "\<forall>q<n. ?acc ! q + (\<Sum>fid\<leftarrow>ms. sel (field_meta (f fid)) ! q) < 2 ^ 31" using Cons.prems(3) by (simp add: add.assoc)
    then have "list_all (\<lambda>s. s < 2 ^ 31) ?acc" by (fastforce simp: list_all_iff)
    moreover have "std_at fds fid = ok (f fid)" using Cons.prems(1) by (simp add: std_at_def)
    ultimately show ?case using Cons.IH[of ?acc] Cons.prems(1) a by (simp add: Let_def add.assoc)
  qed
  from this[of ms "replicate n 0"] show ?thesis
    using assms by (auto simp: message_sizes_def intro!: map_cong)
qed

text \<open>What rank \<open>r\<close> has after the messages of the ranks below \<open>k\<close>.\<close>

definition received_bytes :: "nat \<Rightarrow> index_coloring list \<Rightarrow> (nat \<Rightarrow> nat list) \<Rightarrow> nat \<Rightarrow> nat \<Rightarrow> nat list" where
  "received_bytes sz cols data r k = fold (\<lambda>q. scatter (ghost_start sz (cols ! r))
       (entity_bytes sz (ghosts_of (ghost (cols ! r)) q))
       (map (\<lambda>p. data q ! (shared_start sz (cols ! q) + p)) (entity_bytes sz (shared_offsets (shared (cols ! q)) r))))
     [0..<k] (data r)"

lemma ghosts_of_set: "i \<in> set (ghosts_of gs q) \<longleftrightarrow> i < length gs \<and> ent_rank (gs ! i) = q"
  by (auto simp: ghosts_of_def)

lemma ghosts_of_distinct [simp]: "distinct (ghosts_of gs q)"
  by (simp add: ghosts_of_def)

lemma received_values:
  assumes h: "halo n cols" and r: "r < n"
    and len: "length (data r) = (length (exclusive (cols ! r)) + length (shared (cols ! r)) + length (ghost (cols ! r))) * sz"
  shows "length (received_bytes sz cols data r n) = length (data r)"
    and "p < ghost_start sz (cols ! r) \<Longrightarrow> received_bytes sz cols data r n ! p = data r ! p"
    and "i < length (ghost (cols ! r)) \<Longrightarrow> b < sz \<Longrightarrow> received_bytes sz cols data r n ! (ghost_start sz (cols ! r) + (i * sz + b))
      = data (ent_rank (ghost (cols ! r) ! i)) ! (shared_start sz (cols ! ent_rank (ghost (cols ! r) ! i)) + (ent_offset (ghost (cols ! r) ! i) * sz + b))"
proof -
  let ?base = "ghost_start sz (cols ! r)"
  let ?ps = "\<lambda>q. entity_bytes sz (ghosts_of (ghost (cols ! r)) q)"
  let ?w = "\<lambda>q. map (\<lambda>p. data q ! (shared_start sz (cols ! q) + p)) (entity_bytes sz (shared_offsets (shared (cols ! q)) r))"
  have pos: "shared_offsets (shared (cols ! q)) r = map (\<lambda>i. ent_offset (ghost (cols ! r) ! i)) (ghosts_of (ghost (cols ! r)) q)" if "q < n" for q
    by (rule halo_positions[OF h r that])
  have ok: "distinct (?ps q) \<and> length (?ps q) = length (?w q) \<and> (\<forall>p\<in>set (?ps q). ?base + p < length (data r))" if "q \<in> set [0..<n]" for q
  proof (intro conjI ballI)
    show "distinct (?ps q)" by (simp add: entity_bytes_distinct)
    show "length (?ps q) = length (?w q)" using pos[of q] that by simp
    fix p assume "p \<in> set (?ps q)"
    then obtain i b where p: "p = i * sz + b" "i < length (ghost (cols ! r))" "b < sz" by (auto simp: entity_bytes_set ghosts_of_set)
    then have "i * sz + b < Suc i * sz" by simp
    also have "\<dots> \<le> length (ghost (cols ! r)) * sz" using p(2) by (intro mult_le_mono1) simp
    finally show "?base + p < length (data r)" unfolding len p(1) by (simp add: ghost_start_def add_mult_distrib)
  qed
  have disj: "set (?ps q) \<inter> set (?ps q') = {}" if "q \<noteq> q'" for q q'
    using that by (intro entity_bytes_disjoint) (auto simp: ghosts_of_set)
  note f = fold_scatter[of "[0..<n]" ?ps ?w ?base "data r", OF distinct_upt ok disj, folded received_bytes_def]
  show "length (received_bytes sz cols data r n) = length (data r)" by (rule f(1))
  show "received_bytes sz cols data r n ! p = data r ! p" if "p < ?base"
    using that by (intro f(3)) auto
  show "received_bytes sz cols data r n ! (?base + (i * sz + b))
      = data (ent_rank (ghost (cols ! r) ! i)) ! (shared_start sz (cols ! ent_rank (ghost (cols ! r) ! i)) + (ent_offset (ghost (cols ! r) ! i) * sz + b))"
    if i: "i < length (ghost (cols ! r))" and b: "b < sz"
  proof -
    let ?q = "ent_rank (ghost (cols ! r) ! i)"
    have q: "?q < n" using halo_agreesD(7)[OF h[unfolded halo_def, THEN conjunct1] r] i by simp
    have "i \<in> set (ghosts_of (ghost (cols ! r)) ?q)" using i by (simp add: ghosts_of_set)
    then obtain k where k: "k < length (ghosts_of (ghost (cols ! r)) ?q)" "ghosts_of (ghost (cols ! r)) ?q ! k = i" by (auto simp: in_set_conv_nth)
    have "k * sz + b < Suc k * sz" using b by simp
    also have "\<dots> \<le> length (ghosts_of (ghost (cols ! r)) ?q) * sz" using k(1) by (intro mult_le_mono1) simp
    finally have kb: "k * sz + b < length (?ps ?q)" by simp
    have "?ps ?q ! (k * sz + b) = i * sz + b" using entity_bytes_nth[OF k(1) b] k(2) by simp
    moreover have "?w ?q ! (k * sz + b) = data ?q ! (shared_start sz (cols ! ?q) + (ent_offset (ghost (cols ! r) ! i) * sz + b))"
      using kb entity_bytes_nth[of k "shared_offsets (shared (cols ! ?q)) r" b sz] k b unfolding pos[OF q] by simp
    ultimately show ?thesis using f(2)[of ?q "k * sz + b"] q kb by simp
  qed
qed

lemma element_nth: "(i + 1) * sz \<le> length data \<Longrightarrow> element sz data i = map (\<lambda>b. data ! (i * sz + b)) [0..<sz]"
  by (intro nth_equalityI) (auto simp: element_def)

lemma received_bytes_Suc: "received_bytes sz cols data r (Suc k) = scatter (ghost_start sz (cols ! r))
       (entity_bytes sz (ghosts_of (ghost (cols ! r)) k))
       (map (\<lambda>p. data k ! (shared_start sz (cols ! k) + p)) (entity_bytes sz (shared_offsets (shared (cols ! k)) r)))
     (received_bytes sz cols data r k)"
  by (simp add: received_bytes_def)

lemma received_bytes_length [simp]: "length (received_bytes sz cols data r k) = length (data r)"
  by (induction k) (simp_all add: received_bytes_Suc, simp add: received_bytes_def)

lemma fold_outcome_Suc: "fold_outcome f [0..<Suc k] s = and_then (fold_outcome f [0..<k] s) (f k)"
proof -
  have "fold_outcome f [k] = f k" by (rule ext) simp
  then show ?thesis by simp
qed

lemma dense_exchange_bytes:
  assumes c: "mpi_works n c" and len: "length ctxs = n" and ms: "distinct ms"
    and F: "\<forall>r<n. \<forall>fid\<in>set ms. map_of (ctxs ! r) fid = Some (F r fid)"
    and ok: "\<forall>fid\<in>set ms. halo n (cols fid) \<and>
      (\<forall>r<n. laid_out n (sz fid) (cols fid ! r) (F r fid) \<and> buffers_set (sz fid) (cols fid ! r) (F r fid))"
    and small: "\<forall>r<n. \<forall>q<n. (\<Sum>fid\<leftarrow>ms. length (ghosts_of (ghost (cols fid ! r)) q) * sz fid) < 2 ^ 31"
  shows "\<exists>ctxs'. launch_dense_exchange c (replicate n ms) ctxs = ok ctxs' \<and> length ctxs' = n \<and>
    (\<forall>r<n. \<forall>fid. map_of (ctxs' ! r) fid = (if fid \<in> set ms
       then Some ((F r fid)\<lparr>field_bytes := received_bytes (sz fid) (cols fid) (\<lambda>q. field_bytes (F q fid)) r n\<rparr>)
       else map_of (ctxs ! r) fid))"
proof -
  have run: "run_bytes (ghost_indices (field_meta (F r fid)) ! q) = entity_bytes (sz fid) (ghosts_of (ghost (cols fid ! r)) q)"
    "ghost_field_sizes (field_meta (F r fid)) ! q = length (ghosts_of (ghost (cols fid ! r)) q) * sz fid"
    "run_bytes (shared_indices (field_meta (F r fid)) ! q) = entity_bytes (sz fid) (shared_offsets (shared (cols fid ! r)) q)"
    "shared_field_sizes (field_meta (F r fid)) ! q = length (shared_offsets (shared (cols fid ! r)) q) * sz fid"
    "receivable (F r fid) q" "sendable (F r fid) q"
    if fid: "fid \<in> set ms" and r: "r < n" and q: "q < n" for r q fid
  proof -
    have h: "halo n (cols fid)" and m: "register_field_metadata (sz fid) n (cols fid ! r) = ok (field_meta (F r fid))"
      and l: "length (field_bytes (F r fid)) = (length (exclusive (cols fid ! r)) + length (shared (cols fid ! r)) + length (ghost (cols fid ! r))) * sz fid"
      and b: "buffers_set (sz fid) (cols fid ! r) (F r fid)"
      using ok fid r by (auto simp: laid_out_def)
    note mr = metadata_runs[OF h r m q]
    show "run_bytes (ghost_indices (field_meta (F r fid)) ! q) = entity_bytes (sz fid) (ghosts_of (ghost (cols fid ! r)) q)"
      "ghost_field_sizes (field_meta (F r fid)) ! q = length (ghosts_of (ghost (cols fid ! r)) q) * sz fid"
      "run_bytes (shared_indices (field_meta (F r fid)) ! q) = entity_bytes (sz fid) (shared_offsets (shared (cols fid ! r)) q)"
      "shared_field_sizes (field_meta (F r fid)) ! q = length (shared_offsets (shared (cols fid ! r)) q) * sz fid"
      by (rule mr)+
    show "receivable (F r fid) q" unfolding receivable_def
      by (rule exI[of _ "length (ghost (cols fid ! r)) * sz fid"]) (use mr(2) l b in \<open>simp add: buffers_set_def ghost_start_def add_mult_distrib\<close>)
    show "sendable (F r fid) q" unfolding sendable_def
      by (rule exI[of _ "length (shared (cols fid ! r)) * sz fid"]) (use mr(5) l b in \<open>simp add: buffers_set_def shared_start_def add_mult_distrib\<close>)
  qed
  have same: "length (shared_offsets (shared (cols fid ! q)) r) = length (ghosts_of (ghost (cols fid ! r)) q)"
    if "fid \<in> set ms" "r < n" "q < n" for fid r q
    using halo_positions[of n "cols fid" r q] ok that by simp
  let ?size = "\<lambda>r q. \<Sum>fid\<leftarrow>ms. length (ghosts_of (ghost (cols fid ! r)) q) * sz fid"
  have gsum: "(\<Sum>fid\<leftarrow>ms. ghost_field_sizes (field_meta (F r fid)) ! q) = ?size r q" if "r < n" "q < n" for r q
    using run(2)[OF _ that] by (intro arg_cong[where f = sum_list] map_cong refl) simp
  have ssum: "(\<Sum>fid\<leftarrow>ms. shared_field_sizes (field_meta (F q fid)) ! r) = ?size r q" if "r < n" "q < n" for r q
    using run(4)[OF _ that(2,1)] same[OF _ that] by (intro arg_cong[where f = sum_list] map_cong refl) simp
  have gs: "traverse (\<lambda>r. message_sizes ghost_field_sizes n (replicate n ms ! r) (ctxs ! r)) [0..<n] = ok (map (\<lambda>r. map (\<lambda>q. ?size r q) [0..<n]) [0..<n])"
  proof (rule traverse_ok)
    fix r assume "r \<in> set [0..<n]"
    then have r: "r < n" by simp
    have "message_sizes ghost_field_sizes n ms (ctxs ! r) = ok (map (\<lambda>q. \<Sum>fid\<leftarrow>ms. ghost_field_sizes (field_meta (F r fid)) ! q) [0..<n])"
      using F r small gsum by (intro message_sizes_total) auto
    then show "message_sizes ghost_field_sizes n (replicate n ms ! r) (ctxs ! r) = ok (map (\<lambda>q. ?size r q) [0..<n])"
      using r gsum[OF r] by (simp cong: map_cong)
  qed
  have ss: "traverse (\<lambda>r. message_sizes shared_field_sizes n (replicate n ms ! r) (ctxs ! r)) [0..<n] = ok (map (\<lambda>q. map (\<lambda>r. ?size r q) [0..<n]) [0..<n])"
  proof (rule traverse_ok)
    fix q assume "q \<in> set [0..<n]"
    then have q: "q < n" by simp
    have "message_sizes shared_field_sizes n ms (ctxs ! q) = ok (map (\<lambda>r. \<Sum>fid\<leftarrow>ms. shared_field_sizes (field_meta (F q fid)) ! r) [0..<n])"
      using F q small ssum by (intro message_sizes_total) auto
    then show "message_sizes shared_field_sizes n (replicate n ms ! q) (ctxs ! q) = ok (map (\<lambda>r. ?size r q) [0..<n])"
      using q ssum[OF _ q] by (simp cong: map_cong)
  qed
  let ?w = "\<lambda>q r. concat (map (sent_values (F q) r) ms)"
  have wlen: "length (?w q r) = ?size r q" if "q < n" "r < n" for q r
    using run(3)[OF _ that] same[OF _ that(2,1)] by (simp add: length_concat comp_def sent_values_length cong: map_cong)
  have sends: "traverse (\<lambda>q. traverse (\<lambda>r. let s = map (\<lambda>q. map (\<lambda>r. ?size r q) [0..<n]) [0..<n] ! q ! r in
      if s = 0 then ok None else and_then (pack_fields (replicate n ms ! q) (ctxs ! q) r s) (\<lambda>buf. ok (Some buf))) [0..<n]) [0..<n]
    = ok (map (\<lambda>q. map (\<lambda>r. if ?size r q = 0 then None else Some (?w q r)) [0..<n]) [0..<n])"
  proof (intro traverse_ok)
    fix q r assume "q \<in> set [0..<n]" "r \<in> set [0..<n]"
    then have qr: "q < n" "r < n" by auto
    have "pack_fields ms (ctxs ! q) r (?size r q) = ok (?w q r)"
      using F run(6) qr wlen[OF qr] by (intro pack_fields_values) auto
    then show "(let s = map (\<lambda>q. map (\<lambda>r. ?size r q) [0..<n]) [0..<n] ! q ! r in
      if s = 0 then ok None else and_then (pack_fields (replicate n ms ! q) (ctxs ! q) r s) (\<lambda>buf. ok (Some buf)))
      = ok (if ?size r q = 0 then None else Some (?w q r))" using qr by (simp add: Let_def)
  qed
  let ?sends = "map (\<lambda>q. map (\<lambda>r. if ?size r q = 0 then None else Some (?w q r)) [0..<n]) [0..<n]"
  have arrived: "p2p c ?sends (map (map (\<lambda>s. if s = 0 then None else Some s)) (map (\<lambda>r. map (\<lambda>q. ?size r q) [0..<n]) [0..<n]))
      = ok (map (\<lambda>r. map (\<lambda>s. case ?sends ! s ! r of None \<Rightarrow> [] | Some words \<Rightarrow> words) [0..<n]) [0..<n])"
    by (rule p2p_delivers[OF c]) (use wlen small in \<open>auto simp: square_def split: if_splits\<close>)
  let ?arr = "map (\<lambda>r. map (\<lambda>s. case ?sends ! s ! r of None \<Rightarrow> [] | Some words \<Rightarrow> words) [0..<n]) [0..<n]"
  let ?R = "\<lambda>r fid k. (F r fid)\<lparr>field_bytes := received_bytes (sz fid) (cols fid) (\<lambda>q. field_bytes (F q fid)) r k\<rparr>"
  have part: "\<exists>fds. fold_outcome (\<lambda>rank fds. if map (\<lambda>r. map (\<lambda>q. ?size r q) [0..<n]) [0..<n] ! r ! rank = 0 then ok fds
        else unpack_fields (?arr ! r ! rank) (replicate n ms ! r) rank fds) [0..<k] (ctxs ! r) = ok fds \<and>
      (\<forall>fid. map_of fds fid = (if fid \<in> set ms then Some (?R r fid k) else map_of (ctxs ! r) fid))"
    if r: "r < n" and "k \<le> n" for r k
    using that(2)
  proof (induction k)
    case 0
    have "?R r fid 0 = F r fid" for fid by (simp add: received_bytes_def)
    then show ?case using F r by simp
  next
    case (Suc k)
    then have k: "k < n" by simp
    from Suc obtain fds where fds: "fold_outcome (\<lambda>rank fds. if map (\<lambda>r. map (\<lambda>q. ?size r q) [0..<n]) [0..<n] ! r ! rank = 0 then ok fds
        else unpack_fields (?arr ! r ! rank) (replicate n ms ! r) rank fds) [0..<k] (ctxs ! r) = ok fds"
      "\<forall>fid. map_of fds fid = (if fid \<in> set ms then Some (?R r fid k) else map_of (ctxs ! r) fid)" by auto
    have step: "?R r fid (Suc k) = (?R r fid k)\<lparr>field_bytes := scatter (ghost_data_buffer (?R r fid k))
        (run_bytes (ghost_indices (field_meta (?R r fid k)) ! k)) (sent_values (F k) r fid) (field_bytes (?R r fid k))\<rparr>"
      if fid: "fid \<in> set ms" for fid
    proof -
      have "buffers_set (sz fid) (cols fid ! r) (F r fid)" "buffers_set (sz fid) (cols fid ! k) (F k fid)" using ok fid r k by auto
      then show ?thesis
        using run(1)[OF fid r k] run(3)[OF fid k r]
        by (simp add: received_bytes_Suc sent_values_def run_values_def buffers_set_def)
    qed
    show ?case
    proof (cases "?size r k = 0")
      case True
      have "?R r fid (Suc k) = ?R r fid k" if fid: "fid \<in> set ms" for fid
      proof -
        have "length (ghosts_of (ghost (cols fid ! r)) k) * sz fid = 0"
          using True fid by (simp add: sum_list_nonneg_eq_0_iff)
        then have "entity_bytes (sz fid) (ghosts_of (ghost (cols fid ! r)) k) = []"
          using entity_bytes_length[of "sz fid"] by (metis length_0_conv)
        then show ?thesis by (simp add: received_bytes_Suc)
      qed
      then show ?thesis using fds True r k by simp
    next
      case False
      then have arr: "?arr ! r ! k = concat (map (sent_values (F k) r) ms)"
        using r k by (simp only: nth_map_upt diff_zero add_0 if_False option.case)
      have "\<forall>fid\<in>set ms. map_of fds fid = Some (?R r fid k) \<and> receivable (?R r fid k) k \<and>
          length (sent_values (F k) r fid) = length (run_bytes (ghost_indices (field_meta (?R r fid k)) ! k))"
      proof
        fix fid assume fid: "fid \<in> set ms"
        have "receivable (?R r fid k) k" using run(5)[OF fid r k] by (simp add: receivable_def)
        then show "map_of fds fid = Some (?R r fid k) \<and> receivable (?R r fid k) k \<and>
          length (sent_values (F k) r fid) = length (run_bytes (ghost_indices (field_meta (?R r fid k)) ! k))"
          using fds(2) fid run(1)[OF fid r k] run(3)[OF fid k r] same[OF fid r k] by (simp add: sent_values_length)
      qed
      from unpack_fields_values[OF ms this] obtain fds' where
        u: "unpack_fields (concat (map (sent_values (F k) r) ms)) ms k fds = ok fds'"
        "\<forall>fid. map_of fds' fid = (if fid \<in> set ms then Some ((?R r fid k)\<lparr>field_bytes := scatter (ghost_data_buffer (?R r fid k))
          (run_bytes (ghost_indices (field_meta (?R r fid k)) ! k)) (sent_values (F k) r fid) (field_bytes (?R r fid k))\<rparr>) else map_of fds fid)"
        by blast
      have "\<forall>fid. map_of fds' fid = (if fid \<in> set ms then Some (?R r fid (Suc k)) else map_of (ctxs ! r) fid)"
      proof
        fix fid show "map_of fds' fid = (if fid \<in> set ms then Some (?R r fid (Suc k)) else map_of (ctxs ! r) fid)"
        proof (cases "fid \<in> set ms")
          case True
          then show ?thesis unfolding step[OF True] using u(2) by simp
        qed (use u(2) fds(2) in simp)
      qed
      moreover have "(if map (\<lambda>r. map (\<lambda>q. ?size r q) [0..<n]) [0..<n] ! r ! k = 0 then ok fds
        else unpack_fields (?arr ! r ! k) (replicate n ms ! r) k fds) = ok fds'"
        unfolding arr using False r k u(1) by (simp only: nth_map_upt diff_zero add_0 if_False nth_replicate)
      then have "fold_outcome (\<lambda>rank fds. if map (\<lambda>r. map (\<lambda>q. ?size r q) [0..<n]) [0..<n] ! r ! rank = 0 then ok fds
        else unpack_fields (?arr ! r ! rank) (replicate n ms ! r) rank fds) [0..<Suc k] (ctxs ! r) = ok fds'"
        unfolding fold_outcome_Suc fds(1) and_then.simps .
      ultimately show ?thesis by blast
    qed
  qed
  from traverse_choice[of n "\<lambda>r. fold_outcome (\<lambda>rank fds. if map (\<lambda>r. map (\<lambda>q. ?size r q) [0..<n]) [0..<n] ! r ! rank = 0 then ok fds
        else unpack_fields (?arr ! r ! rank) (replicate n ms ! r) rank fds) [0..<n] (ctxs ! r)"
      "\<lambda>r fds. \<forall>fid. map_of fds fid = (if fid \<in> set ms then Some (?R r fid n) else map_of (ctxs ! r) fid)", OF part[OF _ le_refl]]
  obtain ctxs' where "traverse (\<lambda>r. fold_outcome (\<lambda>rank fds. if map (\<lambda>r. map (\<lambda>q. ?size r q) [0..<n]) [0..<n] ! r ! rank = 0 then ok fds
        else unpack_fields (?arr ! r ! rank) (replicate n ms ! r) rank fds) [0..<n] (ctxs ! r)) [0..<n] = ok ctxs'" "length ctxs' = n"
    "\<forall>r<n. \<forall>fid. map_of (ctxs' ! r) fid = (if fid \<in> set ms then Some (?R r fid n) else map_of (ctxs ! r) fid)" by blast
  then show ?thesis
    unfolding launch_dense_exchange_def len Let_def[of n] gs ss and_then.simps sends arrived by (intro exI conjI)
qed

lemma halo_ghost:
  assumes "halo n cols" "r < n" "i < length (ghost (cols ! r))"
  shows "ent_rank (ghost (cols ! r) ! i) < n"
    "ent_offset (ghost (cols ! r) ! i) < length (shared (cols ! ent_rank (ghost (cols ! r) ! i)))"
  using assms halo_agreesD(7)[of n cols r] unfolding halo_def halo_indexed_def by (metis nth_mem)+

lemma received_current:
  assumes h: "halo n cols" and r: "r < n"
    and len: "\<forall>q<n. length (data q) = (length (exclusive (cols ! q)) + length (shared (cols ! q)) + length (ghost (cols ! q))) * sz"
  shows "ghosts_current sz cols (\<lambda>q. received_bytes sz cols data q n) r"
  unfolding ghosts_current_def Let_def
proof (intro allI impI)
  fix i assume i: "i < length (ghost (cols ! r))"
  let ?g = "ghost (cols ! r) ! i" and ?n = "\<lambda>q. length (exclusive (cols ! q)) + length (shared (cols ! q)) + length (ghost (cols ! q))"
  let ?q = "ent_rank ?g"
  note g = halo_ghost[OF h r i]
  have e: "element sz (received_bytes sz cols data q n) j = map (\<lambda>b. received_bytes sz cols data q n ! (j * sz + b)) [0..<sz]"
    if "q < n" "j < ?n q" for q j
  proof (rule element_nth)
    have "(j + 1) * sz \<le> ?n q * sz" using that(2) by (intro mult_le_mono1) simp
    then show "(j + 1) * sz \<le> length (received_bytes sz cols data q n)" using len that(1) by simp
  qed
  have l: "element sz (received_bytes sz cols data r n) (length (exclusive (cols ! r)) + length (shared (cols ! r)) + i)
      = map (\<lambda>b. data ?q ! (shared_start sz (cols ! ?q) + (ent_offset ?g * sz + b))) [0..<sz]"
  proof -
    have "received_bytes sz cols data r n ! ((length (exclusive (cols ! r)) + length (shared (cols ! r)) + i) * sz + b)
        = data ?q ! (shared_start sz (cols ! ?q) + (ent_offset ?g * sz + b))" if "b < sz" for b
      using received_values(3)[OF h r _ i that] len r by (simp add: ghost_start_def add_mult_distrib add.assoc)
    then show ?thesis using e[OF r] i by simp
  qed
  have "received_bytes sz cols data ?q n ! ((length (exclusive (cols ! ?q)) + ent_offset ?g) * sz + b)
      = data ?q ! (shared_start sz (cols ! ?q) + (ent_offset ?g * sz + b))" if b: "b < sz" for b
  proof -
    have "ent_offset ?g * sz + b < (ent_offset ?g + 1) * sz" using b by simp
    also have "\<dots> \<le> length (shared (cols ! ?q)) * sz" using g(2) by (intro mult_le_mono1) simp
    finally have "(length (exclusive (cols ! ?q)) + ent_offset ?g) * sz + b < ghost_start sz (cols ! ?q)"
      by (simp add: ghost_start_def add_mult_distrib)
    then show ?thesis using received_values(2)[OF h g(1), of data sz] len g(1) by (simp add: shared_start_def add_mult_distrib add.assoc)
  qed
  then show "element sz (received_bytes sz cols data r n) (length (exclusive (cols ! r)) + length (shared (cols ! r)) + i)
      = element sz (received_bytes sz cols data ?q n) (length (exclusive (cols ! ?q)) + ent_offset ?g)"
    using l e[OF g(1)] g(2) by simp
qed

lemma dense_exchange_current:
  assumes c: "mpi_works n c" and len: "length ctxs = n" and ms: "distinct ms"
    and ok: "\<forall>fid\<in>set ms. halo n (cols fid) \<and> (\<forall>r<n. \<exists>f. map_of (ctxs ! r) fid = Some f \<and>
      laid_out n (sz fid) (cols fid ! r) f \<and> buffers_set (sz fid) (cols fid ! r) f)"
    and small: "\<forall>r<n. \<forall>q<n. (\<Sum>fid\<leftarrow>ms. length (ghosts_of (ghost (cols fid ! r)) q) * sz fid) < 2 ^ 31"
  shows "\<exists>ctxs'. launch_dense_exchange c (replicate n ms) ctxs = ok ctxs' \<and> length ctxs' = n \<and>
    (\<forall>r<n. \<forall>fid. fid \<notin> set ms \<longrightarrow> map_of (ctxs' ! r) fid = map_of (ctxs ! r) fid) \<and>
    (\<forall>fid\<in>set ms. \<forall>r<n. ghosts_current (sz fid) (cols fid) (bytes_at ctxs' fid) r \<and>
       length (bytes_at ctxs' fid r) = length (bytes_at ctxs fid r) \<and>
       (\<forall>p<ghost_start (sz fid) (cols fid ! r). bytes_at ctxs' fid r ! p = bytes_at ctxs fid r ! p))"
proof -
  let ?F = "\<lambda>r fid. the (map_of (ctxs ! r) fid)"
  have F: "\<forall>r<n. \<forall>fid\<in>set ms. map_of (ctxs ! r) fid = Some (?F r fid)" using ok by fastforce
  have ok': "\<forall>fid\<in>set ms. halo n (cols fid) \<and>
      (\<forall>r<n. laid_out n (sz fid) (cols fid ! r) (?F r fid) \<and> buffers_set (sz fid) (cols fid ! r) (?F r fid))"
    using ok by fastforce
  from dense_exchange_bytes[OF c len ms F ok' small] obtain ctxs' where
    l: "launch_dense_exchange c (replicate n ms) ctxs = ok ctxs'" "length ctxs' = n"
    and m: "\<forall>r<n. \<forall>fid. map_of (ctxs' ! r) fid = (if fid \<in> set ms
       then Some ((?F r fid)\<lparr>field_bytes := received_bytes (sz fid) (cols fid) (\<lambda>q. field_bytes (?F q fid)) r n\<rparr>)
       else map_of (ctxs ! r) fid)" by blast
  have bytes: "bytes_at ctxs' fid r = received_bytes (sz fid) (cols fid) (bytes_at ctxs fid) r n" if "fid \<in> set ms" "r < n" for fid r
  proof -
    have "bytes_at ctxs fid = (\<lambda>q. field_bytes (?F q fid))" by (rule ext) (simp add: bytes_at_def)
    then show ?thesis using m that by (simp add: bytes_at_def)
  qed
  have "ghosts_current (sz fid) (cols fid) (bytes_at ctxs' fid) r \<and> length (bytes_at ctxs' fid r) = length (bytes_at ctxs fid r) \<and>
       (\<forall>p<ghost_start (sz fid) (cols fid ! r). bytes_at ctxs' fid r ! p = bytes_at ctxs fid r ! p)"
    if fid: "fid \<in> set ms" and r: "r < n" for fid r
  proof -
    have h: "halo n (cols fid)" using ok fid by blast
    have ln: "\<forall>q<n. length (bytes_at ctxs fid q)
        = (length (exclusive (cols fid ! q)) + length (shared (cols fid ! q)) + length (ghost (cols fid ! q))) * sz fid"
      using ok' fid by (auto simp: bytes_at_def laid_out_def)
    have "ghosts_current (sz fid) (cols fid) (\<lambda>q. received_bytes (sz fid) (cols fid) (bytes_at ctxs fid) q n) r"
      by (rule received_current[OF h r ln])
    then have "ghosts_current (sz fid) (cols fid) (bytes_at ctxs' fid) r"
      using bytes[OF fid] r halo_ghost(1)[OF h r] by (simp add: ghosts_current_def Let_def)
    then show ?thesis using bytes[OF fid r] received_values(2)[OF h r, of "bytes_at ctxs fid" "sz fid"] ln r by simp
  qed
  then show ?thesis using l m by (intro exI[of _ ctxs']) simp
qed

text \<open>C13: The exchange of dense fields leaves every ghost of every exchanged field with the bytes its owner has for the
  entity, changes nothing but ghosts, and does not touch the other fields.\<close>

theorem dense_exchange_updates_ghosts:
  assumes c: "mpi_works n c" and len: "length ctxs = n" and ms: "distinct ms"
    and ok: "\<forall>fid\<in>set ms. halo n (cols fid) \<and> (\<forall>r<n. \<exists>f. map_of (ctxs ! r) fid = Some f \<and>
      laid_out n (sz fid) (cols fid ! r) f \<and> buffers_set (sz fid) (cols fid ! r) f)"
    and small: "\<forall>r<n. \<forall>q<n. (\<Sum>fid\<leftarrow>ms. length (ghosts_of (ghost (cols fid ! r)) q) * sz fid) < 2 ^ 31"
  shows "\<exists>ctxs'. launch_dense_exchange c (replicate n ms) ctxs = ok ctxs' \<and> length ctxs' = n \<and>
    (\<forall>r<n. \<forall>fid. fid \<notin> set ms \<longrightarrow> map_of (ctxs' ! r) fid = map_of (ctxs ! r) fid) \<and>
    (\<forall>fid\<in>set ms. \<forall>r<n. ghosts_current (sz fid) (cols fid) (bytes_at ctxs' fid) r \<and>
       length (bytes_at ctxs' fid r) = length (bytes_at ctxs fid r) \<and>
       (\<forall>p<ghost_start (sz fid) (cols fid ! r). bytes_at ctxs' fid r ! p = bytes_at ctxs fid r ! p))"
  by (rule dense_exchange_current[OF assms])

definition pair_halo :: "index_coloring list" where
  "pair_halo =
     [\<lparr>primary = {}, exclusive = [\<lparr>ent_id = 0, ent_rank = 0, ent_offset = 0, ent_shared = {}\<rparr>],
       shared = [\<lparr>ent_id = 1, ent_rank = 0, ent_offset = 0, ent_shared = {1}\<rparr>],
       ghost = [\<lparr>ent_id = 5, ent_rank = 1, ent_offset = 0, ent_shared = {0}\<rparr>]\<rparr>,
      \<lparr>primary = {}, exclusive = [], shared = [\<lparr>ent_id = 5, ent_rank = 1, ent_offset = 0, ent_shared = {0}\<rparr>],
       ghost = [\<lparr>ent_id = 1, ent_rank = 0, ent_offset = 0, ent_shared = {0}\<rparr>]\<rparr>]"

lemma two: "(\<forall>r<2. P r) \<longleftrightarrow> P 0 \<and> P (1 :: nat)"
  by (auto simp: numeral_2_eq_2 less_Suc_eq)

lemma pair_halo: "halo 2 pair_halo"
  unfolding halo_def halo_agrees_def halo_indexed_def two pair_halo_def by (intro conjI) simp_all

definition pair_field :: "nat \<Rightarrow> nat list \<Rightarrow> nat \<Rightarrow> dense_field" where
  "pair_field me data excl = \<lparr>field_bytes = data, field_meta =
     \<lparr>shared_indices = [[], []][1 - me := [(0, 2)]], ghost_indices = [[], []][1 - me := [(0, 2)]],
      shared_field_sizes = [0, 0][1 - me := 2], ghost_field_sizes = [0, 0][1 - me := 2]\<rparr>,
     shared_data_buffer = excl, ghost_data_buffer = excl + 2, ghost_is_readable = False\<rparr>"

lemma pair_field_laid_out:
  "laid_out 2 2 (pair_halo ! 0) (pair_field 0 [1, 2, 3, 4, 0, 0] 2)" "laid_out 2 2 (pair_halo ! 1) (pair_field 1 [7, 8, 0, 0] 0)"
  by (simp_all add: laid_out_def pair_field_def pair_halo_def register_field_metadata_def ghost_runs_def shared_runs_def
      add_run_def numeral_2_eq_2)

lemma dense_exchange_updates_ghosts_witness:
  "\<exists>ctxs'. launch_dense_exchange (ideal_mpi 2) (replicate 2 [3])
      [[(3, pair_field 0 [1, 2, 3, 4, 0, 0] 2)], [(3, pair_field 1 [7, 8, 0, 0] 0)]] = ok ctxs' \<and>
    ghosts_current 2 pair_halo (bytes_at ctxs' 3) 0 \<and> ghosts_current 2 pair_halo (bytes_at ctxs' 3) 1"
proof -
  let ?ctxs = "[[(3, pair_field 0 [1, 2, 3, 4, 0, 0] 2)], [(3, pair_field 1 [7, 8, 0, 0] 0)]] :: dense_fields list"
  have "buffers_set 2 (pair_halo ! 0) (pair_field 0 [1, 2, 3, 4, 0, 0] 2)" "buffers_set 2 (pair_halo ! 1) (pair_field 1 [7, 8, 0, 0] 0)"
    by (simp_all add: buffers_set_def shared_start_def ghost_start_def pair_halo_def pair_field_def)
  then have ok: "\<forall>fid\<in>set [3]. halo 2 pair_halo \<and> (\<forall>r<2. \<exists>f. map_of (?ctxs ! r) fid = Some f \<and>
      laid_out 2 2 (pair_halo ! r) f \<and> buffers_set 2 (pair_halo ! r) f)"
    unfolding two using pair_halo pair_field_laid_out by simp
  have small: "\<forall>r<2. \<forall>q<2. (\<Sum>fid\<leftarrow>[3 :: nat]. length (ghosts_of (ghost (pair_halo ! r)) q) * 2) < 2 ^ 31"
    unfolding two by (simp add: ghosts_of_def pair_halo_def)
  from dense_exchange_updates_ghosts[OF ideal_mpi_works, of ?ctxs 2 "[3]" "\<lambda>_. pair_halo" "\<lambda>_. 2", OF _ _ ok small]
  show ?thesis unfolding two by auto
qed

end
