(* ===== verification/Task_Flow.thy ===== *)
theory Task_Flow
  imports Ghost_Exchange
begin

text \<open>
  How a task runs on the MPI backend: \<open>execute\_task\<close> of execution/mpi/execution\_policy.h with the handlers
  of dense accessors in task\_prolog.h and task\_epilog.h.  The prolog decides by the permissions of the
  task and the flag \<open>ghost\_is\_readable\<close> which ghosts are exchanged before the task, the epilog records
  whether the task made them stale.
\<close>

section \<open>Handlers\<close>

datatype privilege = Reserved | Ro | Wo | Rw | Na

text \<open>
  A dense accessor: its field and the permissions for the shared and the ghost entities (those of
  the exclusive entities are not looked at).
\<close>

record dense_arg =
  arg_fid :: nat
  shared_permissions :: privilege
  ghost_permissions :: privilege

text \<open>
  The sizes of the types and the colorings of the index spaces of the fields; the counts of
  \<open>coloring\_info\<close> are the lengths of the lists of the coloring.
\<close>

record field_types =
  type_size :: "nat \<Rightarrow> nat"
  field_cols :: "nat \<Rightarrow> index_coloring list"

definition prolog_handle :: "field_types \<Rightarrow> nat \<Rightarrow> dense_arg \<Rightarrow> dense_fields \<times> nat list \<Rightarrow> (dense_fields \<times> nat list) outcome" where
  "prolog_handle ft rank a = (\<lambda>(fds, modified).
     and_then (std_at fds (arg_fid a)) (\<lambda>f.
     if ghost_is_readable f \<or> ghost_permissions a = Na \<or> ghost_permissions a = Wo then ok (fds, modified)
     else let sz = type_size ft (arg_fid a); col = field_cols ft (arg_fid a) ! rank;
              shared_data = length (exclusive col) * sz; ghost_data = shared_data + length (shared col) * sz
          in ok (std_put (arg_fid a) (f\<lparr>ghost_is_readable := True, shared_data_buffer := shared_data,
                 ghost_data_buffer := ghost_data\<rparr>) fds, modified @ [arg_fid a])))"

definition epilog_handle :: "dense_arg \<Rightarrow> dense_fields \<Rightarrow> dense_fields outcome" where
  "epilog_handle a fds = and_then (std_at fds (arg_fid a)) (\<lambda>f.
     if ghost_permissions a = Rw \<or> ghost_permissions a = Wo then ok (std_put (arg_fid a) (f\<lparr>ghost_is_readable := True\<rparr>) fds)
     else if shared_permissions a = Rw \<or> shared_permissions a = Wo
     then ok (std_put (arg_fid a) (f\<lparr>ghost_is_readable := False\<rparr>) fds)
     else ok fds)"

section \<open>Tasks\<close>

text \<open>\<open>body r\<close> is what the user's function does with the fields of rank \<open>r\<close>.\<close>

record task =
  task_args :: "dense_arg list"
  body :: "nat \<Rightarrow> dense_fields \<Rightarrow> dense_fields"

definition task_prolog :: "mpi \<Rightarrow> field_types \<Rightarrow> dense_arg list \<Rightarrow> dense_fields list \<Rightarrow> dense_fields list outcome" where
  "task_prolog c ft args ctxs =
     and_then (traverse (\<lambda>r. fold_outcome (prolog_handle ft r) args (ctxs ! r, [])) [0..<length ctxs]) (\<lambda>walked.
     launch_dense_exchange c (map snd walked) (map fst walked))"

definition task_epilog :: "dense_arg list \<Rightarrow> dense_fields list \<Rightarrow> dense_fields list outcome" where
  "task_epilog args = traverse (fold_outcome epilog_handle args)"

definition execute_task :: "mpi \<Rightarrow> field_types \<Rightarrow> task \<Rightarrow> dense_fields list \<Rightarrow> dense_fields list outcome" where
  "execute_task c ft t ctxs =
     and_then (task_prolog c ft (task_args t) ctxs) (\<lambda>ctxs.
     task_epilog (task_args t) (map (\<lambda>r. body t r (ctxs ! r)) [0..<length ctxs]))"

text \<open>The state the runtime driver sets up: all bytes zero, all ghosts readable.\<close>

definition fresh_field :: "nat \<Rightarrow> nat \<Rightarrow> index_coloring \<Rightarrow> dense_field outcome" where
  "fresh_field n sz col = and_then (register_field_metadata sz n col) (\<lambda>m. ok
     \<lparr>field_bytes = replicate (sz * (length (exclusive col) + length (shared col) + length (ghost col))) 0,
      field_meta = m, shared_data_buffer = 0, ghost_data_buffer = 0, ghost_is_readable = True\<rparr>)"


section \<open>Coherence\<close>

text \<open>
  The registered fields \<open>fids\<close> are laid out by their colorings and their flags agree on all ranks; the
  flags of the fields \<open>trusted\<close> tell the truth: if the flag is set, the ghosts are current.
\<close>

definition well_laid :: "nat \<Rightarrow> field_types \<Rightarrow> nat set \<Rightarrow> dense_fields list \<Rightarrow> bool" where
  "well_laid n ft fids ctxs \<longleftrightarrow> length ctxs = n \<and> (\<forall>fid\<in>fids. halo n (field_cols ft fid) \<and>
     (\<forall>r<n. \<exists>f. map_of (ctxs ! r) fid = Some f \<and> laid_out n (type_size ft fid) (field_cols ft fid ! r) f))"

definition flag_at :: "dense_fields list \<Rightarrow> nat \<Rightarrow> nat \<Rightarrow> bool" where
  "flag_at ctxs fid r = ghost_is_readable (the (map_of (ctxs ! r) fid))"

abbreviation current :: "nat \<Rightarrow> field_types \<Rightarrow> dense_fields list \<Rightarrow> nat \<Rightarrow> bool" where
  "current n ft ctxs fid \<equiv> \<forall>r<n. ghosts_current (type_size ft fid) (field_cols ft fid) (bytes_at ctxs fid) r"

definition coherent :: "nat \<Rightarrow> field_types \<Rightarrow> nat set \<Rightarrow> nat set \<Rightarrow> dense_fields list \<Rightarrow> bool" where
  "coherent n ft fids trusted ctxs \<longleftrightarrow> well_laid n ft fids ctxs \<and> trusted \<subseteq> fids \<and>
     (\<forall>fid\<in>fids. \<forall>r<n. \<forall>q<n. flag_at ctxs fid r = flag_at ctxs fid q) \<and>
     (\<forall>fid\<in>trusted. (\<exists>r<n. flag_at ctxs fid r) \<longrightarrow> current n ft ctxs fid)"

text \<open>
  What the types of the accessors enforce: the task changes bytes of its arguments only, and shared and
  ghost entities only where it may write.  Nothing is promised about the values it writes.
\<close>

definition may_write :: "privilege \<Rightarrow> bool" where
  "may_write p \<longleftrightarrow> p = Rw \<or> p = Wo"

definition obeys_on :: "field_types \<Rightarrow> task \<Rightarrow> nat \<Rightarrow> dense_fields \<Rightarrow> bool" where
  "obeys_on ft t r fds \<longleftrightarrow> (\<forall>fid. fid \<notin> arg_fid ` set (task_args t) \<longrightarrow> map_of (body t r fds) fid = map_of fds fid) \<and>
     (\<forall>a\<in>set (task_args t). \<forall>f. map_of fds (arg_fid a) = Some f \<longrightarrow>
       (\<exists>data. map_of (body t r fds) (arg_fid a) = Some (f\<lparr>field_bytes := data\<rparr>) \<and> length data = length (field_bytes f) \<and>
         (let sz = type_size ft (arg_fid a); col = field_cols ft (arg_fid a) ! r in
           (\<not> may_write (shared_permissions a) \<longrightarrow>
             (\<forall>p. shared_start sz col \<le> p \<and> p < ghost_start sz col \<longrightarrow> data ! p = field_bytes f ! p)) \<and>
           (\<not> may_write (ghost_permissions a) \<longrightarrow>
             (\<forall>p. ghost_start sz col \<le> p \<and> p < length data \<longrightarrow> data ! p = field_bytes f ! p)))))"

definition obeys :: "nat \<Rightarrow> field_types \<Rightarrow> nat set \<Rightarrow> task \<Rightarrow> bool" where
  "obeys n ft fids t \<longleftrightarrow> distinct (map arg_fid (task_args t)) \<and> arg_fid ` set (task_args t) \<subseteq> fids \<and>
     (\<forall>r<n. \<forall>q<n. (\<Sum>fid\<leftarrow>map arg_fid (task_args t). length (ghosts_of (ghost (field_cols ft fid ! r)) q) * type_size ft fid) < 2 ^ 31) \<and>
     (\<forall>r<n. \<forall>fds. obeys_on ft t r fds)"

text \<open>
  A task that may write the ghosts of a field ends with the flag set, whatever it wrote: the field is not trusted
  after it.  A task that may write shared entities and not the ghosts clears the flag: the field is trusted again.
\<close>

definition trusted_after :: "task \<Rightarrow> nat set \<Rightarrow> nat set" where
  "trusted_after t trusted =
     (trusted - arg_fid ` set (filter (\<lambda>a. may_write (ghost_permissions a)) (task_args t))) \<union>
     arg_fid ` set (filter (\<lambda>a. \<not> may_write (ghost_permissions a) \<and> may_write (shared_permissions a)) (task_args t))"

section \<open>The walks over the arguments\<close>

definition needs :: "(nat \<Rightarrow> dense_field) \<Rightarrow> dense_arg \<Rightarrow> bool" where
  "needs F a \<longleftrightarrow> \<not> (ghost_is_readable (F (arg_fid a)) \<or> ghost_permissions a = Na \<or> ghost_permissions a = Wo)"

definition opened :: "field_types \<Rightarrow> nat \<Rightarrow> nat \<Rightarrow> dense_field \<Rightarrow> dense_field" where
  "opened ft r fid f = f\<lparr>ghost_is_readable := True, shared_data_buffer := shared_start (type_size ft fid) (field_cols ft fid ! r),
     ghost_data_buffer := ghost_start (type_size ft fid) (field_cols ft fid ! r)\<rparr>"

lemma prolog_walk:
  assumes "distinct (map arg_fid args)" "\<forall>a\<in>set args. map_of fds (arg_fid a) = Some (F (arg_fid a))"
  shows "\<exists>fds'. fold_outcome (prolog_handle ft r) args (fds, ms) = ok (fds', ms @ map arg_fid (filter (needs F) args)) \<and>
    (\<forall>fid. map_of fds' fid = (if fid \<in> arg_fid ` set (filter (needs F) args) then Some (opened ft r fid (F fid)) else map_of fds fid))"
  using assms
proof (induction args arbitrary: fds ms)
  case (Cons a args)
  have ne: "\<forall>b\<in>set args. arg_fid b \<noteq> arg_fid a" using Cons.prems(1) by simp (metis image_eqI)
  have at: "std_at fds (arg_fid a) = ok (F (arg_fid a))" using Cons.prems by (simp add: std_at_def)
  show ?case
  proof (cases "needs F a")
    case True
    let ?fds = "std_put (arg_fid a) (opened ft r (arg_fid a) (F (arg_fid a))) fds"
    have step: "prolog_handle ft r a (fds, ms) = ok (?fds, ms @ [arg_fid a])"
      using at True by (simp add: prolog_handle_def needs_def opened_def shared_start_def ghost_start_def add_mult_distrib Let_def)
    have "\<forall>b\<in>set args. map_of ?fds (arg_fid b) = Some (F (arg_fid b))" "distinct (map arg_fid args)" using Cons.prems ne by auto
    from Cons.IH[OF this(2,1), of "ms @ [arg_fid a]"] obtain fds' where
      f: "fold_outcome (prolog_handle ft r) args (?fds, ms @ [arg_fid a]) = ok (fds', (ms @ [arg_fid a]) @ map arg_fid (filter (needs F) args))"
      "\<forall>fid. map_of fds' fid = (if fid \<in> arg_fid ` set (filter (needs F) args) then Some (opened ft r fid (F fid)) else map_of ?fds fid)" by blast
    have "\<forall>fid. map_of fds' fid = (if fid \<in> arg_fid ` set (filter (needs F) (a # args)) then Some (opened ft r fid (F fid)) else map_of fds fid)"
      using f(2) True by simp
    moreover have "fold_outcome (prolog_handle ft r) (a # args) (fds, ms) = ok (fds', ms @ map arg_fid (filter (needs F) (a # args)))"
      using f(1) step True by simp
    ultimately show ?thesis by blast
  next
    case False
    then have "prolog_handle ft r a (fds, ms) = ok (fds, ms)" using at by (auto simp: prolog_handle_def needs_def)
    then show ?thesis using Cons.IH[of fds ms] Cons.prems False by simp
  qed
qed simp

definition closed :: "dense_arg \<Rightarrow> dense_field \<Rightarrow> dense_field" where
  "closed a f = f\<lparr>ghost_is_readable := may_write (ghost_permissions a) \<or> (\<not> may_write (shared_permissions a) \<and> ghost_is_readable f)\<rparr>"

lemma epilog_walk:
  assumes "distinct (map arg_fid args)" "\<forall>a\<in>set args. map_of fds (arg_fid a) = Some (F (arg_fid a))"
  shows "\<exists>fds'. fold_outcome epilog_handle args fds = ok fds' \<and> (\<forall>a\<in>set args. map_of fds' (arg_fid a) = Some (closed a (F (arg_fid a)))) \<and>
    (\<forall>fid. fid \<notin> arg_fid ` set args \<longrightarrow> map_of fds' fid = map_of fds fid)"
  using assms
proof (induction args arbitrary: fds)
  case (Cons a args)
  have ne: "\<forall>b\<in>set args. arg_fid b \<noteq> arg_fid a" using Cons.prems(1) by simp (metis image_eqI)
  have at: "map_of fds (arg_fid a) = Some (F (arg_fid a))" using Cons.prems by simp
  obtain fds1 where s: "epilog_handle a fds = ok fds1" "map_of fds1 = (map_of fds)(arg_fid a \<mapsto> closed a (F (arg_fid a)))"
  proof
    let ?fds = "if may_write (ghost_permissions a) \<or> may_write (shared_permissions a)
      then std_put (arg_fid a) (closed a (F (arg_fid a))) fds else fds"
    show "epilog_handle a fds = ok ?fds"
      using at by (auto simp: epilog_handle_def std_at_def closed_def may_write_def)
    have "closed a (F (arg_fid a)) = F (arg_fid a)" if "\<not> may_write (ghost_permissions a)" "\<not> may_write (shared_permissions a)"
      using that by (simp add: closed_def)
    then show "map_of ?fds = (map_of fds)(arg_fid a \<mapsto> closed a (F (arg_fid a)))" using at by (auto simp: fun_upd_idem)
  qed
  have "\<forall>b\<in>set args. map_of fds1 (arg_fid b) = Some (F (arg_fid b))" "distinct (map arg_fid args)" using Cons.prems s(2) ne by auto
  from Cons.IH[OF this(2,1)] obtain fds' where f: "fold_outcome epilog_handle args fds1 = ok fds'"
    "\<forall>b\<in>set args. map_of fds' (arg_fid b) = Some (closed b (F (arg_fid b)))"
    "\<forall>fid. fid \<notin> arg_fid ` set args \<longrightarrow> map_of fds' fid = map_of fds1 fid" by blast
  show ?case using f s Cons.prems(1) by (intro exI[of _ fds']) auto
qed simp

section \<open>The prolog\<close>

lemma well_laidD:
  assumes "well_laid n ft fids ctxs"
  shows "length ctxs = n"
    and "fid \<in> fids \<Longrightarrow> halo n (field_cols ft fid)"
    and "fid \<in> fids \<Longrightarrow> r < n \<Longrightarrow> map_of (ctxs ! r) fid = Some (the (map_of (ctxs ! r) fid))"
    and "fid \<in> fids \<Longrightarrow> r < n \<Longrightarrow> laid_out n (type_size ft fid) (field_cols ft fid ! r) (the (map_of (ctxs ! r) fid))"
  using assms unfolding well_laid_def by (auto, metis option.sel, metis option.sel)

text \<open>The parts of a field that its rank owns.\<close>

definition owned_same :: "field_types \<Rightarrow> nat \<Rightarrow> nat \<Rightarrow> dense_fields list \<Rightarrow> dense_fields list \<Rightarrow> bool" where
  "owned_same ft fid r ctxs ctxs' \<longleftrightarrow> length (bytes_at ctxs' fid r) = length (bytes_at ctxs fid r) \<and>
     (\<forall>p<ghost_start (type_size ft fid) (field_cols ft fid ! r). bytes_at ctxs' fid r ! p = bytes_at ctxs fid r ! p)"

lemma sum_list_filter_le: "(\<Sum>x\<leftarrow>filter P xs. g x) \<le> (\<Sum>x\<leftarrow>xs. g x)" for g :: "'a \<Rightarrow> nat"
  by (induction xs) auto

lemma prolog_fields:
  assumes c: "mpi_works n c" and coh: "coherent n ft fids trusted ctxs" and n: "0 < n"
    and args: "distinct (map arg_fid args)" "arg_fid ` set args \<subseteq> fids"
    and small: "\<forall>r<n. \<forall>q<n. (\<Sum>fid\<leftarrow>map arg_fid args. length (ghosts_of (ghost (field_cols ft fid ! r)) q) * type_size ft fid) < 2 ^ 31"
  defines "F \<equiv> \<lambda>r fid. the (map_of (ctxs ! r) fid)"
  defines "ms \<equiv> map arg_fid (filter (needs (F 0)) args)"
  shows "\<exists>ctxs'. task_prolog c ft args ctxs = ok ctxs' \<and> length ctxs' = n \<and>
    (\<forall>r<n. \<forall>fid. map_of (ctxs' ! r) fid = (if fid \<in> set ms
       then Some ((opened ft r fid (F r fid))\<lparr>field_bytes := received_bytes (type_size ft fid) (field_cols ft fid) (\<lambda>q. field_bytes (F q fid)) r n\<rparr>)
       else map_of (ctxs ! r) fid))"
proof -
  have wl: "well_laid n ft fids ctxs" using coh by (simp add: coherent_def)
  note wd = well_laidD[OF wl]
  have same: "needs (F r) a \<longleftrightarrow> needs (F 0) a" if "r < n" "a \<in> set args" for r a
  proof -
    have "arg_fid a \<in> fids" using args(2) that(2) by blast
    then have "flag_at ctxs (arg_fid a) r = flag_at ctxs (arg_fid a) 0" using coh that(1) n unfolding coherent_def by blast
    then show ?thesis by (simp add: needs_def F_def flag_at_def)
  qed
  have "\<exists>w. fold_outcome (prolog_handle ft r) args (ctxs ! r, []) = ok w \<and> (snd w = ms \<and>
      (\<forall>fid. map_of (fst w) fid = (if fid \<in> set ms then Some (opened ft r fid (F r fid)) else map_of (ctxs ! r) fid)))"
    if r: "r < n" for r
  proof -
    have "\<forall>a\<in>set args. map_of (ctxs ! r) (arg_fid a) = Some (F r (arg_fid a))"
      using wd(3)[OF _ r] args(2) unfolding F_def by blast
    from prolog_walk[OF args(1) this, of ft r "[]"] obtain fds' where
      w: "fold_outcome (prolog_handle ft r) args (ctxs ! r, []) = ok (fds', map arg_fid (filter (needs (F r)) args))"
      "\<forall>fid. map_of fds' fid = (if fid \<in> arg_fid ` set (filter (needs (F r)) args) then Some (opened ft r fid (F r fid)) else map_of (ctxs ! r) fid)"
      unfolding append_Nil by blast
    have "filter (needs (F r)) args = filter (needs (F 0)) args" using same[OF r] by (intro filter_cong) auto
    then have "map arg_fid (filter (needs (F r)) args) = ms" "arg_fid ` set (filter (needs (F r)) args) = set ms" by (simp_all add: ms_def)
    then show ?thesis using w by (intro exI[of _ "(fds', ms)"]) simp
  qed
  from traverse_choice[of n "\<lambda>r. fold_outcome (prolog_handle ft r) args (ctxs ! r, [])" "\<lambda>r w. snd w = ms \<and>
      (\<forall>fid. map_of (fst w) fid = (if fid \<in> set ms then Some (opened ft r fid (F r fid)) else map_of (ctxs ! r) fid))", OF this]
  obtain walked where w: "traverse (\<lambda>r. fold_outcome (prolog_handle ft r) args (ctxs ! r, [])) [0..<n] = ok walked" "length walked = n"
    "\<forall>r<n. snd (walked ! r) = ms \<and> (\<forall>fid. map_of (fst (walked ! r)) fid =
      (if fid \<in> set ms then Some (opened ft r fid (F r fid)) else map_of (ctxs ! r) fid))" by blast
  have mods: "map snd walked = replicate n ms" using w(2,3) by (auto intro!: nth_equalityI)
  have sub: "set ms \<subseteq> fids" using args(2) by (auto simp: ms_def)
  have dms: "distinct ms" unfolding ms_def using args(1) by (rule distinct_map_filter)
  have ok: "\<forall>fid\<in>set ms. halo n (field_cols ft fid) \<and> (\<forall>r<n. laid_out n (type_size ft fid) (field_cols ft fid ! r) (opened ft r fid (F r fid)) \<and>
      buffers_set (type_size ft fid) (field_cols ft fid ! r) (opened ft r fid (F r fid)))"
    using wd(2,4) sub by (auto simp: laid_out_def opened_def buffers_set_def F_def)
  have le: "(\<Sum>fid\<leftarrow>ms. h fid) \<le> (\<Sum>fid\<leftarrow>map arg_fid args. h fid)" for h :: "nat \<Rightarrow> nat"
    unfolding ms_def map_map using sum_list_filter_le[of "h \<circ> arg_fid"] by (simp add: comp_def)
  have sm: "\<forall>r<n. \<forall>q<n. (\<Sum>fid\<leftarrow>ms. length (ghosts_of (ghost (field_cols ft fid ! r)) q) * type_size ft fid) < 2 ^ 31"
    using small le order_le_less_trans by blast
  from dense_exchange_bytes[OF c _ dms _ ok sm, of "map fst walked"] w(2,3) obtain ctxs' where
    "launch_dense_exchange c (replicate n ms) (map fst walked) = ok ctxs'" "length ctxs' = n"
    "\<forall>r<n. \<forall>fid. map_of (ctxs' ! r) fid = (if fid \<in> set ms
       then Some ((opened ft r fid (F r fid))\<lparr>field_bytes := received_bytes (type_size ft fid) (field_cols ft fid) (\<lambda>q. field_bytes (opened ft q fid (F q fid))) r n\<rparr>)
       else map_of (map fst walked ! r) fid)" by auto
  then show ?thesis
    using w mods wd(1) by (intro exI[of _ ctxs']) (auto simp: task_prolog_def opened_def)
qed

text \<open>Ghosts stay current when the shared and ghost parts of all ranks keep their bytes.\<close>

lemma current_cong:
  assumes h: "halo n cols" and len: "\<forall>r<n. length (data r) = (length (exclusive (cols ! r)) + length (shared (cols ! r)) + length (ghost (cols ! r))) * sz"
    and same: "\<forall>r<n. length (data' r) = length (data r) \<and> (\<forall>p. shared_start sz (cols ! r) \<le> p \<and> p < length (data r) \<longrightarrow> data' r ! p = data r ! p)"
    and cur: "\<forall>r<n. ghosts_current sz cols data r" and r: "r < n"
  shows "ghosts_current sz cols data' r"
proof -
  let ?n = "\<lambda>r. length (exclusive (cols ! r)) + length (shared (cols ! r)) + length (ghost (cols ! r))"
  have e: "element sz (data' q) i = element sz (data q) i" if "q < n" "length (exclusive (cols ! q)) \<le> i" "i < ?n q" for q i
  proof -
    have b: "(i + 1) * sz \<le> length (data q)" unfolding len[rule_format, OF that(1)] using that(3) by (intro mult_le_mono1) simp
    have "data' q ! (i * sz + b) = data q ! (i * sz + b)" if "b < sz" for b
    proof -
      have "shared_start sz (cols ! q) \<le> i * sz + b" using \<open>length (exclusive (cols ! q)) \<le> i\<close>
        by (simp add: shared_start_def) (meson mult_le_mono1 trans_le_add1)
      then show ?thesis using same \<open>q < n\<close> b that by simp
    qed
    then show ?thesis using b same that(1) element_nth[of i sz "data q"] element_nth[of i sz "data' q"] by simp
  qed
  show ?thesis
    unfolding ghosts_current_def Let_def
  proof (intro allI impI)
    fix i assume i: "i < length (ghost (cols ! r))"
    let ?g = "ghost (cols ! r) ! i"
    note g = halo_ghost[OF h r i]
    have "element sz (data r) (length (exclusive (cols ! r)) + length (shared (cols ! r)) + i)
        = element sz (data (ent_rank ?g)) (length (exclusive (cols ! ent_rank ?g)) + ent_offset ?g)"
      using cur r i unfolding ghosts_current_def Let_def by blast
    then show "element sz (data' r) (length (exclusive (cols ! r)) + length (shared (cols ! r)) + i)
        = element sz (data' (ent_rank ?g)) (length (exclusive (cols ! ent_rank ?g)) + ent_offset ?g)"
      using e[OF r] e[OF g(1)] i g(2) by simp
  qed
qed

lemma laid_out_length: "laid_out n sz col f \<Longrightarrow> length (field_bytes f) = (length (exclusive col) + length (shared col) + length (ghost col)) * sz"
  by (simp add: laid_out_def)

lemma prolog_coherent:
  assumes c: "mpi_works n c" and coh: "coherent n ft fids trusted ctxs" and n: "0 < n"
    and args: "distinct (map arg_fid args)" "arg_fid ` set args \<subseteq> fids"
    and small: "\<forall>r<n. \<forall>q<n. (\<Sum>fid\<leftarrow>map arg_fid args. length (ghosts_of (ghost (field_cols ft fid ! r)) q) * type_size ft fid) < 2 ^ 31"
  shows "\<exists>ctxs'. task_prolog c ft args ctxs = ok ctxs' \<and> coherent n ft fids trusted ctxs' \<and>
    (\<forall>a\<in>set args. arg_fid a \<in> trusted \<and> ghost_permissions a \<noteq> Na \<and> ghost_permissions a \<noteq> Wo \<longrightarrow> current n ft ctxs' (arg_fid a)) \<and>
    (\<forall>fid\<in>fids. \<forall>r<n. owned_same ft fid r ctxs ctxs')"
proof -
  define F where "F r fid = the (map_of (ctxs ! r) fid)" for r fid
  define ms where "ms = map arg_fid (filter (needs (F 0)) args)"
  have wl: "well_laid n ft fids ctxs" using coh by (simp add: coherent_def)
  note wd = well_laidD[OF wl]
  obtain ctxs' where t: "task_prolog c ft args ctxs = ok ctxs'" "length ctxs' = n"
    and m: "\<forall>r<n. \<forall>fid. map_of (ctxs' ! r) fid = (if fid \<in> set ms
       then Some ((opened ft r fid (F r fid))\<lparr>field_bytes := received_bytes (type_size ft fid) (field_cols ft fid) (\<lambda>q. field_bytes (F q fid)) r n\<rparr>)
       else map_of (ctxs ! r) fid)"
    using prolog_fields[OF c coh n args small] unfolding F_def ms_def by blast
  have sub: "set ms \<subseteq> fids" using args(2) by (auto simp: ms_def)
  have old: "bytes_at ctxs fid = (\<lambda>q. field_bytes (F q fid))" for fid by (rule ext) (simp add: bytes_at_def F_def)
  have len: "\<forall>q<n. length (bytes_at ctxs fid q) = (length (exclusive (field_cols ft fid ! q)) + length (shared (field_cols ft fid ! q))
      + length (ghost (field_cols ft fid ! q))) * type_size ft fid" if "fid \<in> fids" for fid
    using laid_out_length[OF wd(4)[OF that]] by (simp add: bytes_at_def)
  have new: "bytes_at ctxs' fid r = received_bytes (type_size ft fid) (field_cols ft fid) (bytes_at ctxs fid) r n \<and> flag_at ctxs' fid r"
    if "fid \<in> set ms" "r < n" for fid r
    using m that unfolding old by (simp add: bytes_at_def flag_at_def opened_def)
  have kept: "bytes_at ctxs' fid r = bytes_at ctxs fid r \<and> flag_at ctxs' fid r = flag_at ctxs fid r"
    if "fid \<notin> set ms" "r < n" for fid r
    using m that by (simp add: bytes_at_def flag_at_def)
  have cong: "ghosts_current sz cols d r = ghosts_current sz cols d' r" if "halo n cols" "r < n" "\<forall>q<n. d q = d' q" for sz cols d d' r
    unfolding ghosts_current_def Let_def using that halo_ghost(1)[OF that(1,2)] by simp
  have cur_new: "current n ft ctxs' fid" if fid: "fid \<in> set ms" for fid
  proof (intro allI impI)
    fix r assume r: "r < n"
    have f: "fid \<in> fids" using sub fid by blast
    have "ghosts_current (type_size ft fid) (field_cols ft fid)
        (\<lambda>q. received_bytes (type_size ft fid) (field_cols ft fid) (bytes_at ctxs fid) q n) r"
      by (rule received_current[OF wd(2)[OF f] r len[OF f]])
    moreover have "\<forall>q<n. bytes_at ctxs' fid q = received_bytes (type_size ft fid) (field_cols ft fid) (bytes_at ctxs fid) q n"
      using new[OF fid] by blast
    ultimately show "ghosts_current (type_size ft fid) (field_cols ft fid) (bytes_at ctxs' fid) r"
      using cong[where d = "bytes_at ctxs' fid" and d' = "\<lambda>q. received_bytes (type_size ft fid) (field_cols ft fid) (bytes_at ctxs fid) q n"
          and sz = "type_size ft fid", OF wd(2)[OF f] r] by simp
  qed
  have cur_kept: "current n ft ctxs' fid" if "fid \<in> fids" "fid \<notin> set ms" "current n ft ctxs fid" for fid
    using that(3) cong[OF wd(2)[OF that(1)], of _ "bytes_at ctxs' fid" "bytes_at ctxs fid"] kept[OF that(2)] by simp
  have wl': "well_laid n ft fids ctxs'"
    unfolding well_laid_def
  proof (intro conjI ballI allI impI)
    fix fid r assume f: "fid \<in> fids" and r: "r < n"
    show "\<exists>f. map_of (ctxs' ! r) fid = Some f \<and> laid_out n (type_size ft fid) (field_cols ft fid ! r) f"
      using m r wd(3,4)[OF f r] by (cases "fid \<in> set ms") (auto simp: laid_out_def opened_def F_def)
  qed (use t(2) wd(2) in auto)
  have tr: "trusted \<subseteq> fids" "\<And>fid. fid \<in> trusted \<Longrightarrow> \<exists>r<n. flag_at ctxs fid r \<Longrightarrow> current n ft ctxs fid"
    and flags: "\<And>fid. fid \<in> fids \<Longrightarrow> \<forall>r<n. \<forall>q<n. flag_at ctxs fid r = flag_at ctxs fid q"
    using coh unfolding coherent_def by blast+
  have "coherent n ft fids trusted ctxs'"
    unfolding coherent_def
  proof (intro conjI ballI wl' tr(1))
    fix fid assume f: "fid \<in> fids"
    show "\<forall>r<n. \<forall>q<n. flag_at ctxs' fid r = flag_at ctxs' fid q"
    proof (cases "fid \<in> set ms")
      case False
      then show ?thesis using kept[OF False] flags[OF f] by blast
    qed (use new in blast)
  next
    fix fid assume t: "fid \<in> trusted"
    then have f: "fid \<in> fids" using tr(1) by blast
    show "(\<exists>r<n. flag_at ctxs' fid r) \<longrightarrow> current n ft ctxs' fid"
    proof (cases "fid \<in> set ms")
      case True
      then show ?thesis using cur_new by blast
    next
      case False
      have "(\<exists>r<n. flag_at ctxs' fid r) \<longrightarrow> (\<exists>r<n. flag_at ctxs fid r)" using kept[OF False] by blast
      then show ?thesis using cur_kept[OF f False] tr(2)[OF t] by blast
    qed
  qed
  moreover have "current n ft ctxs' (arg_fid a)" if a: "a \<in> set args" "ghost_permissions a \<noteq> Na" "ghost_permissions a \<noteq> Wo" "arg_fid a \<in> trusted" for a
  proof (cases "arg_fid a \<in> set ms")
    case False
    have f: "arg_fid a \<in> fids" using a(1) args(2) by blast
    have "flag_at ctxs (arg_fid a) 0" using False a by (auto simp: ms_def needs_def F_def flag_at_def)
    then have "current n ft ctxs (arg_fid a)" using tr(2)[OF a(4)] n by blast
    then show ?thesis by (rule cur_kept[OF f False])
  qed (rule cur_new)
  moreover have "owned_same ft fid r ctxs ctxs'" if "fid \<in> fids" "r < n" for fid r
    using new[of fid r] kept[of fid r] received_values(2)[OF wd(2)[OF that(1)] that(2), of "bytes_at ctxs fid" "type_size ft fid"] len[OF that(1)] that
    unfolding owned_same_def by (cases "fid \<in> set ms") simp_all
  ultimately show ?thesis using t(1) by blast
qed

section \<open>Tasks keep the fields coherent\<close>

lemma body_epilog_coherent:
  assumes coh: "coherent n ft fids trusted ctxs" and h: "obeys n ft fids t"
  shows "\<exists>ctxs'. task_epilog (task_args t) (map (\<lambda>r. body t r (ctxs ! r)) [0..<n]) = ok ctxs' \<and> coherent n ft fids (trusted_after t trusted) ctxs' \<and>
    (\<forall>a\<in>set (task_args t). \<forall>r<n. may_write (ghost_permissions a) \<longrightarrow> flag_at ctxs' (arg_fid a) r \<and>
       bytes_at ctxs' (arg_fid a) r = bytes_at (map (\<lambda>r. body t r (ctxs ! r)) [0..<n]) (arg_fid a) r)"
proof -
  let ?ctxs = "map (\<lambda>r. body t r (ctxs ! r)) [0..<n]"
  define G where "G r fid = the (map_of (?ctxs ! r) fid)" for r fid
  have wl: "well_laid n ft fids ctxs" using coh by (simp add: coherent_def)
  note wd = well_laidD[OF wl]
  have args: "distinct (map arg_fid (task_args t))" "arg_fid ` set (task_args t) \<subseteq> fids" using h by (simp_all add: obeys_def)
  have hon: "obeys_on ft t r (ctxs ! r)" if "r < n" for r using h that by (simp add: obeys_def)
  have arg: "\<exists>data. map_of (?ctxs ! r) (arg_fid a) = Some ((the (map_of (ctxs ! r) (arg_fid a)))\<lparr>field_bytes := data\<rparr>) \<and>
      length data = length (bytes_at ctxs (arg_fid a) r) \<and>
      (\<not> may_write (shared_permissions a) \<longrightarrow> \<not> may_write (ghost_permissions a) \<longrightarrow>
        (\<forall>p. shared_start (type_size ft (arg_fid a)) (field_cols ft (arg_fid a) ! r) \<le> p \<and> p < length data \<longrightarrow>
          data ! p = bytes_at ctxs (arg_fid a) r ! p))"
    if a: "a \<in> set (task_args t)" and r: "r < n" for a r
  proof -
    have f: "arg_fid a \<in> fids" using a args(2) by blast
    obtain data where d: "map_of (body t r (ctxs ! r)) (arg_fid a) = Some ((the (map_of (ctxs ! r) (arg_fid a)))\<lparr>field_bytes := data\<rparr>)"
      "length data = length (field_bytes (the (map_of (ctxs ! r) (arg_fid a))))"
      "\<not> may_write (shared_permissions a) \<longrightarrow> (\<forall>p. shared_start (type_size ft (arg_fid a)) (field_cols ft (arg_fid a) ! r) \<le> p \<and>
          p < ghost_start (type_size ft (arg_fid a)) (field_cols ft (arg_fid a) ! r) \<longrightarrow> data ! p = field_bytes (the (map_of (ctxs ! r) (arg_fid a))) ! p)"
      "\<not> may_write (ghost_permissions a) \<longrightarrow> (\<forall>p. ghost_start (type_size ft (arg_fid a)) (field_cols ft (arg_fid a) ! r) \<le> p \<and>
          p < length data \<longrightarrow> data ! p = field_bytes (the (map_of (ctxs ! r) (arg_fid a))) ! p)"
      using hon[OF r] a wd(3)[OF f r] unfolding obeys_on_def Let_def by meson
    have "data ! p = bytes_at ctxs (arg_fid a) r ! p"
      if "\<not> may_write (shared_permissions a)" "\<not> may_write (ghost_permissions a)"
        "shared_start (type_size ft (arg_fid a)) (field_cols ft (arg_fid a) ! r) \<le> p" "p < length data" for p
      using that d(3,4) by (cases "p < ghost_start (type_size ft (arg_fid a)) (field_cols ft (arg_fid a) ! r)") (simp_all add: bytes_at_def)
    then show ?thesis using r d(1,2) by (intro exI[of _ data]) (simp add: bytes_at_def)
  qed
  have other: "map_of (?ctxs ! r) fid = map_of (ctxs ! r) fid" if "fid \<notin> arg_fid ` set (task_args t)" "r < n" for fid r
    using hon[OF that(2)] that by (simp add: obeys_on_def)
  have wl2: "well_laid n ft fids ?ctxs"
    unfolding well_laid_def
  proof (intro conjI ballI allI impI)
    fix fid r assume f: "fid \<in> fids" and r: "r < n"
    show "\<exists>f. map_of (?ctxs ! r) fid = Some f \<and> laid_out n (type_size ft fid) (field_cols ft fid ! r) f"
    proof (cases "fid \<in> arg_fid ` set (task_args t)")
      case True
      then obtain a where a: "a \<in> set (task_args t)" "fid = arg_fid a" by blast
      then show ?thesis using arg[OF a(1) r] wd(4)[OF f r] by (auto simp: laid_out_def bytes_at_def)
    next
      case False
      then show ?thesis using other[OF False r] wd(3,4)[OF f r] by auto
    qed
  qed (use wd(2) in auto)
  note wd2 = well_laidD[OF wl2]
  have "\<exists>fds. fold_outcome epilog_handle (task_args t) (?ctxs ! r) = ok fds \<and> ((\<forall>a\<in>set (task_args t). map_of fds (arg_fid a) = Some (closed a (G r (arg_fid a)))) \<and>
    (\<forall>fid. fid \<notin> arg_fid ` set (task_args t) \<longrightarrow> map_of fds fid = map_of (?ctxs ! r) fid))" if r: "r < n" for r
  proof -
    have "\<forall>a\<in>set (task_args t). map_of (?ctxs ! r) (arg_fid a) = Some (G r (arg_fid a))"
      using wd2(3)[OF _ r] args(2) unfolding G_def by blast
    from epilog_walk[OF args(1) this] show ?thesis by blast
  qed
  from traverse_choice[of n "\<lambda>r. fold_outcome epilog_handle (task_args t) (?ctxs ! r)" "\<lambda>r fds.
    (\<forall>a\<in>set (task_args t). map_of fds (arg_fid a) = Some (closed a (G r (arg_fid a)))) \<and>
    (\<forall>fid. fid \<notin> arg_fid ` set (task_args t) \<longrightarrow> map_of fds fid = map_of (?ctxs ! r) fid)", OF this]
  obtain ctxs' where e: "traverse (\<lambda>r. fold_outcome epilog_handle (task_args t) (?ctxs ! r)) [0..<n] = ok ctxs'" "length ctxs' = n"
    "\<forall>r<n. (\<forall>a\<in>set (task_args t). map_of (ctxs' ! r) (arg_fid a) = Some (closed a (G r (arg_fid a)))) \<and>
      (\<forall>fid. fid \<notin> arg_fid ` set (task_args t) \<longrightarrow> map_of (ctxs' ! r) fid = map_of (?ctxs ! r) fid)" by blast
  have te: "task_epilog (task_args t) ?ctxs = ok ctxs'"
  proof -
    have "map ((!) ?ctxs) [0..<n] = ?ctxs" by (intro nth_equalityI) simp_all
    then have "task_epilog (task_args t) ?ctxs = traverse (fold_outcome epilog_handle (task_args t)) (map ((!) ?ctxs) [0..<n])"
      by (simp only: task_epilog_def)
    also note traverse_map
    also note e(1)
    finally show ?thesis .
  qed
  have at: "bytes_at ctxs' (arg_fid a) r = bytes_at ?ctxs (arg_fid a) r"
    "flag_at ctxs' (arg_fid a) r = (may_write (ghost_permissions a) \<or> (\<not> may_write (shared_permissions a) \<and> flag_at ctxs (arg_fid a) r))"
    if "a \<in> set (task_args t)" "r < n" for a r
    using e(3) that arg[OF that] by (auto simp: bytes_at_def flag_at_def closed_def G_def)
  have un: "bytes_at ctxs' fid r = bytes_at ctxs fid r \<and> flag_at ctxs' fid r = flag_at ctxs fid r"
    if "fid \<notin> arg_fid ` set (task_args t)" "r < n" for fid r
    using e(3) that other[OF that] by (simp add: bytes_at_def flag_at_def)
  have wl': "well_laid n ft fids ctxs'"
    unfolding well_laid_def
  proof (intro conjI ballI allI impI)
    fix fid r assume f: "fid \<in> fids" and r: "r < n"
    show "\<exists>f. map_of (ctxs' ! r) fid = Some f \<and> laid_out n (type_size ft fid) (field_cols ft fid ! r) f"
    proof (cases "fid \<in> arg_fid ` set (task_args t)")
      case True
      then obtain a where a: "a \<in> set (task_args t)" "fid = arg_fid a" by blast
      then show ?thesis using e(3) r wd2(4)[OF f r] by (auto simp: laid_out_def closed_def G_def)
    next
      case False
      then show ?thesis using e(3) r wd2(3,4)[OF f r] by auto
    qed
  qed (use e(2) wd(2) in auto)
  have len: "\<forall>q<n. length (bytes_at ctxs fid q) = (length (exclusive (field_cols ft fid ! q)) + length (shared (field_cols ft fid ! q))
      + length (ghost (field_cols ft fid ! q))) * type_size ft fid" if "fid \<in> fids" for fid
    using laid_out_length[OF wd(4)[OF that]] by (simp add: bytes_at_def)
  have tr: "trusted \<subseteq> fids" "\<And>fid. fid \<in> trusted \<Longrightarrow> \<exists>r<n. flag_at ctxs fid r \<Longrightarrow> current n ft ctxs fid"
    and flags: "\<And>fid. fid \<in> fids \<Longrightarrow> \<forall>r<n. \<forall>q<n. flag_at ctxs fid r = flag_at ctxs fid q"
    using coh unfolding coherent_def by blast+
  have "trusted_after t trusted \<subseteq> fids" using tr(1) args(2) by (auto simp: trusted_after_def)
  moreover have "\<forall>r<n. \<forall>q<n. flag_at ctxs' fid r = flag_at ctxs' fid q" if f: "fid \<in> fids" for fid
  proof (cases "fid \<in> arg_fid ` set (task_args t)")
    case True
    then obtain a where a: "a \<in> set (task_args t)" "fid = arg_fid a" by blast
    then show ?thesis using at(2)[OF a(1)] flags[OF f] by blast
  next
    case False
    then show ?thesis using un[OF False] flags[OF f] by blast
  qed
  moreover have "current n ft ctxs' fid" if t: "fid \<in> trusted_after t trusted" and flag: "\<exists>r<n. flag_at ctxs' fid r" for fid
  proof -
    have closed_flag: False if "a \<in> set (task_args t)" "arg_fid a = fid" "\<not> may_write (ghost_permissions a)" "may_write (shared_permissions a)" for a
      using at(2)[OF that(1)] that flag by blast
    have t: "fid \<in> trusted" "\<And>a. a \<in> set (task_args t) \<Longrightarrow> arg_fid a = fid \<Longrightarrow> \<not> may_write (ghost_permissions a)"
    proof -
      have "fid \<notin> arg_fid ` set (filter (\<lambda>a. \<not> may_write (ghost_permissions a) \<and> may_write (shared_permissions a)) (task_args t))"
        using closed_flag by auto
      then have "fid \<in> trusted" "fid \<notin> arg_fid ` set (filter (\<lambda>a. may_write (ghost_permissions a)) (task_args t))"
        using t unfolding trusted_after_def by blast+
      then show "fid \<in> trusted" "\<And>a. a \<in> set (task_args t) \<Longrightarrow> arg_fid a = fid \<Longrightarrow> \<not> may_write (ghost_permissions a)" by auto
    qed
    then have f: "fid \<in> fids" using tr(1) by blast
    have same: "length (bytes_at ctxs' fid r) = length (bytes_at ctxs fid r) \<and>
        (\<forall>p. shared_start (type_size ft fid) (field_cols ft fid ! r) \<le> p \<and> p < length (bytes_at ctxs fid r) \<longrightarrow>
          bytes_at ctxs' fid r ! p = bytes_at ctxs fid r ! p) \<and> flag_at ctxs' fid r = flag_at ctxs fid r" if r: "r < n" for r
    proof (cases "fid \<in> arg_fid ` set (task_args t)")
      case True
      then obtain a where a: "a \<in> set (task_args t)" "fid = arg_fid a" by blast
      have no: "\<not> may_write (ghost_permissions a)" "\<not> may_write (shared_permissions a)"
        using t(2)[OF a(1)] closed_flag[OF a(1)] a(2) by blast+
      from arg[OF a(1) r] no a(2) obtain data where d: "map_of (?ctxs ! r) fid = Some ((the (map_of (ctxs ! r) fid))\<lparr>field_bytes := data\<rparr>)"
        "length data = length (bytes_at ctxs fid r)"
        "\<forall>p. shared_start (type_size ft fid) (field_cols ft fid ! r) \<le> p \<and> p < length data \<longrightarrow> data ! p = bytes_at ctxs fid r ! p"
        by blast
      have "bytes_at ctxs' fid r = data" using at(1)[OF a(1) r] a(2) d(1) by (simp add: bytes_at_def)
      then show ?thesis using d(2,3) at(2)[OF a(1) r] a(2) no by simp
    next
      case False
      then show ?thesis using un[OF False r] by simp
    qed
    then have "\<exists>r<n. flag_at ctxs fid r" using flag by blast
    then have "current n ft ctxs fid" by (rule tr(2)[OF t(1)])
    then show ?thesis using current_cong[OF wd(2)[OF f] len[OF f], of "bytes_at ctxs' fid"] same by blast
  qed
  ultimately have "coherent n ft fids (trusted_after t trusted) ctxs'" using wl' unfolding coherent_def by blast
  then show ?thesis using te at by blast
qed

lemma one_task:
  assumes c: "mpi_works n c" and n: "0 < n" and coh: "coherent n ft fids trusted ctxs" and h: "obeys n ft fids t"
  shows "\<exists>before after. task_prolog c ft (task_args t) ctxs = ok before \<and>
    (\<forall>a\<in>set (task_args t). arg_fid a \<in> trusted \<and> ghost_permissions a \<noteq> Na \<and> ghost_permissions a \<noteq> Wo \<longrightarrow> current n ft before (arg_fid a)) \<and>
    (\<forall>fid\<in>fids. \<forall>r<n. owned_same ft fid r ctxs before) \<and>
    execute_task c ft t ctxs = ok after \<and> coherent n ft fids (trusted_after t trusted) after \<and>
    (\<forall>a\<in>set (task_args t). \<forall>r<n. may_write (ghost_permissions a) \<longrightarrow> flag_at after (arg_fid a) r \<and>
       bytes_at after (arg_fid a) r = bytes_at (map (\<lambda>r. body t r (before ! r)) [0..<n]) (arg_fid a) r)"
proof -
  have args: "distinct (map arg_fid (task_args t))" "arg_fid ` set (task_args t) \<subseteq> fids"
    "\<forall>r<n. \<forall>q<n. (\<Sum>fid\<leftarrow>map arg_fid (task_args t). length (ghosts_of (ghost (field_cols ft fid ! r)) q) * type_size ft fid) < 2 ^ 31"
    using h by (simp_all add: obeys_def)
  from prolog_coherent[OF c coh n args] obtain before where b: "task_prolog c ft (task_args t) ctxs = ok before" "coherent n ft fids trusted before"
    "\<forall>a\<in>set (task_args t). arg_fid a \<in> trusted \<and> ghost_permissions a \<noteq> Na \<and> ghost_permissions a \<noteq> Wo \<longrightarrow> current n ft before (arg_fid a)"
    "\<forall>fid\<in>fids. \<forall>r<n. owned_same ft fid r ctxs before" by blast
  have "length before = n" using b(2) by (simp add: coherent_def well_laid_def)
  moreover from body_epilog_coherent[OF b(2) h] obtain after where
    a: "task_epilog (task_args t) (map (\<lambda>r. body t r (before ! r)) [0..<n]) = ok after" "coherent n ft fids (trusted_after t trusted) after"
    "\<forall>a\<in>set (task_args t). \<forall>r<n. may_write (ghost_permissions a) \<longrightarrow> flag_at after (arg_fid a) r \<and>
       bytes_at after (arg_fid a) r = bytes_at (map (\<lambda>r. body t r (before ! r)) [0..<n]) (arg_fid a) r" by blast
  ultimately have "execute_task c ft t ctxs = ok after" using b(1) by (simp add: execute_task_def)
  then show ?thesis using a(2,3) b by blast
qed

text \<open>
  C5: A task runs to its end on every rank.  When its body starts, the ghosts it may read hold the bytes of their
  owners, for every field whose flag was truthful, and no rank's own entities have changed.  Afterwards the
  flags are truthful again, except those of the fields whose ghosts the task may write: these stay unproven until a
  task writes shared entities without the right to write the ghosts.  Nothing is assumed of the values a task writes.
\<close>

theorem tasks_see_current_ghosts:
  assumes c: "mpi_works n c" and n: "0 < n" and coh: "coherent n ft fids trusted ctxs" and h: "obeys n ft fids t"
  shows "\<exists>before after. task_prolog c ft (task_args t) ctxs = ok before \<and>
    (\<forall>a\<in>set (task_args t). arg_fid a \<in> trusted \<and> ghost_permissions a \<noteq> Na \<and> ghost_permissions a \<noteq> Wo \<longrightarrow> current n ft before (arg_fid a)) \<and>
    (\<forall>fid\<in>fids. \<forall>r<n. owned_same ft fid r ctxs before) \<and>
    execute_task c ft t ctxs = ok after \<and> coherent n ft fids (trusted_after t trusted) after"
  using one_task[OF c n coh h] by blast

text \<open>A prolog leaves a field alone whose flag is set.\<close>

lemma prolog_keeps_readable:
  assumes c: "mpi_works n c" and n: "0 < n" and coh: "coherent n ft fids trusted ctxs" and h: "obeys n ft fids t"
    and f: "\<forall>r<n. flag_at ctxs fid r"
  shows "\<exists>before. task_prolog c ft (task_args t) ctxs = ok before \<and> (\<forall>r<n. map_of (before ! r) fid = map_of (ctxs ! r) fid)"
proof -
  have args: "distinct (map arg_fid (task_args t))" "arg_fid ` set (task_args t) \<subseteq> fids"
    "\<forall>r<n. \<forall>q<n. (\<Sum>fid\<leftarrow>map arg_fid (task_args t). length (ghosts_of (ghost (field_cols ft fid ! r)) q) * type_size ft fid) < 2 ^ 31"
    using h by (simp_all add: obeys_def)
  have "fid \<notin> set (map arg_fid (filter (needs (\<lambda>fid. the (map_of (ctxs ! 0) fid))) (task_args t)))"
    using f n by (auto simp: needs_def flag_at_def)
  with prolog_fields[OF c coh n args] show ?thesis by auto
qed

text \<open>
  C38: If a task that may write the ghosts of a field leaves some of them different from what their owners hold, the
  flags are set all the same, and the next task starts with the stale ghosts: its prolog does not exchange them, whatever
  the task may read.  (The documentation promises that ghost values are updated, if necessary, before a task with read
  access to them is executed.)
\<close>

theorem written_ghosts_not_updated:
  assumes c: "mpi_works n c" and n: "0 < n" and coh: "coherent n ft fids trusted ctxs"
    and h: "obeys n ft fids t" "obeys n ft fids reading"
    and a: "a \<in> set (task_args t)" "may_write (ghost_permissions a)"
    and stale: "\<And>before. task_prolog c ft (task_args t) ctxs = ok before \<Longrightarrow>
      \<not> current n ft (map (\<lambda>r. body t r (before ! r)) [0..<n]) (arg_fid a)"
  shows "\<exists>after before'. execute_task c ft t ctxs = ok after \<and> (\<forall>r<n. flag_at after (arg_fid a) r) \<and>
    task_prolog c ft (task_args reading) after = ok before' \<and> \<not> current n ft before' (arg_fid a)"
proof -
  from one_task[OF c n coh h(1)] obtain before after where t: "task_prolog c ft (task_args t) ctxs = ok before"
    "execute_task c ft t ctxs = ok after" "coherent n ft fids (trusted_after t trusted) after"
    "\<forall>r<n. flag_at after (arg_fid a) r"
    "\<forall>r<n. bytes_at after (arg_fid a) r = bytes_at (map (\<lambda>r. body t r (before ! r)) [0..<n]) (arg_fid a) r" using a by blast
  from prolog_keeps_readable[OF c n t(3) h(2) t(4)] obtain before' where
    p: "task_prolog c ft (task_args reading) after = ok before'" "\<forall>r<n. map_of (before' ! r) (arg_fid a) = map_of (after ! r) (arg_fid a)" by blast
  then have same: "\<forall>r<n. bytes_at before' (arg_fid a) r = bytes_at after (arg_fid a) r" by (simp add: bytes_at_def)
  have "halo n (field_cols ft (arg_fid a))" using coh h(1) a(1) by (auto simp: coherent_def well_laid_def obeys_def)
  then have "current n ft before' (arg_fid a) \<longleftrightarrow> current n ft (map (\<lambda>r. body t r (before ! r)) [0..<n]) (arg_fid a)"
    using t(5) same halo_ghost(1) unfolding ghosts_current_def Let_def by simp
  then show ?thesis using stale[OF t(1)] t(2,4) p(1) by blast
qed

lemma element_zero: "(i + 1) * sz \<le> k \<Longrightarrow> element sz (replicate k 0) i = replicate sz 0"
  by (simp add: element_def min_def)

lemma fresh_coherent:
  assumes len: "length ctxs = n" and f: "\<forall>fid\<in>fids. halo n (field_cols ft fid) \<and> (\<forall>r<n. \<exists>f. map_of (ctxs ! r) fid = Some f \<and>
      fresh_field n (type_size ft fid) (field_cols ft fid ! r) = ok f)"
  shows "coherent n ft fids fids ctxs"
proof -
  have fr: "\<exists>f. map_of (ctxs ! r) fid = Some f \<and> laid_out n (type_size ft fid) (field_cols ft fid ! r) f \<and> ghost_is_readable f \<and>
      field_bytes f = replicate ((length (exclusive (field_cols ft fid ! r)) + length (shared (field_cols ft fid ! r)) +
        length (ghost (field_cols ft fid ! r))) * type_size ft fid) 0"
    if "fid \<in> fids" "r < n" for fid r
    using f that by (fastforce simp: fresh_field_def laid_out_def mult.commute)
  have "current n ft ctxs fid" if fid: "fid \<in> fids" for fid
    unfolding ghosts_current_def Let_def
  proof (intro allI impI)
    fix r i assume r: "r < n" and i: "i < length (ghost (field_cols ft fid ! r))"
    let ?g = "ghost (field_cols ft fid ! r) ! i"
    have h: "halo n (field_cols ft fid)" using f fid by blast
    note g = halo_ghost[OF h r i]
    have z: "element (type_size ft fid) (bytes_at ctxs fid q) j = replicate (type_size ft fid) 0"
      if "q < n" "j < length (exclusive (field_cols ft fid ! q)) + length (shared (field_cols ft fid ! q)) + length (ghost (field_cols ft fid ! q))" for q j
    proof -
      have "(j + 1) * type_size ft fid \<le> (length (exclusive (field_cols ft fid ! q)) + length (shared (field_cols ft fid ! q)) +
          length (ghost (field_cols ft fid ! q))) * type_size ft fid" using that(2) by (intro mult_le_mono1) simp
      then show ?thesis using fr[OF fid that(1)] element_zero by (auto simp: bytes_at_def)
    qed
    show "element (type_size ft fid) (bytes_at ctxs fid r)
        (length (exclusive (field_cols ft fid ! r)) + length (shared (field_cols ft fid ! r)) + i)
      = element (type_size ft fid) (bytes_at ctxs fid (ent_rank ?g)) (length (exclusive (field_cols ft fid ! ent_rank ?g)) + ent_offset ?g)"
      using z[OF r] z[OF g(1)] i g(2) by simp
  qed
  moreover have "flag_at ctxs fid r" if "fid \<in> fids" "r < n" for fid r using fr[OF that] by (auto simp: flag_at_def)
  moreover have "well_laid n ft fids ctxs"
    unfolding well_laid_def using len f fr by blast
  ultimately show ?thesis unfolding coherent_def by blast
qed

text \<open>
  C14: From the fields as they are registered, every sequence of tasks runs without failure and keeps the layout of
  the fields and the equality of the flags on all ranks.  The flags of all fields are truthful but those whose ghosts
  some task may have written with no task after it that cleared the flag (\<open>trusted_after\<close>).
\<close>

theorem task_sequences_stay_coherent:
  assumes c: "mpi_works n c" and n: "0 < n" and len: "length ctxs = n"
    and fresh: "\<forall>fid\<in>fids. halo n (field_cols ft fid) \<and> (\<forall>r<n. \<exists>f. map_of (ctxs ! r) fid = Some f \<and>
      fresh_field n (type_size ft fid) (field_cols ft fid ! r) = ok f)"
    and tasks: "\<forall>t\<in>set ts. obeys n ft fids t"
  shows "\<exists>ctxs'. fold_outcome (execute_task c ft) ts ctxs = ok ctxs' \<and> coherent n ft fids (fold trusted_after ts fids) ctxs'"
proof -
  have "\<exists>ctxs'. fold_outcome (execute_task c ft) ts ctxs = ok ctxs' \<and> coherent n ft fids (fold trusted_after ts trusted) ctxs'"
    if "coherent n ft fids trusted ctxs" "\<forall>t\<in>set ts. obeys n ft fids t" for ts trusted ctxs
    using that
  proof (induction ts arbitrary: ctxs trusted)
    case (Cons t ts)
    have ht: "obeys n ft fids t" using Cons.prems(2) by simp
    from one_task[OF c n Cons.prems(1) ht] obtain after where
      "execute_task c ft t ctxs = ok after" "coherent n ft fids (trusted_after t trusted) after" by blast
    then show ?case using Cons.IH Cons.prems(2) by simp
  qed simp
  then show ?thesis using fresh_coherent[OF len fresh] tasks by blast
qed

section \<open>Two tasks\<close>

text \<open>A task that writes the owned entities of field 3 and one that reads its ghosts.\<close>

definition pair_types :: field_types where
  "pair_types = \<lparr>type_size = (\<lambda>_. 2), field_cols = (\<lambda>_. pair_halo)\<rparr>"

definition fill_owned :: "nat \<Rightarrow> dense_fields \<Rightarrow> dense_fields" where
  "fill_owned r fds = (case map_of fds 3 of None \<Rightarrow> fds
     | Some f \<Rightarrow> std_put 3 (f\<lparr>field_bytes := map (\<lambda>p. if p < ghost_start 2 (pair_halo ! r) then 9 else field_bytes f ! p)
         [0..<length (field_bytes f)]\<rparr>) fds)"

definition writer :: task where
  "writer = \<lparr>task_args = [\<lparr>arg_fid = 3, shared_permissions = Rw, ghost_permissions = Na\<rparr>], body = fill_owned\<rparr>"

definition reader :: task where
  "reader = \<lparr>task_args = [\<lparr>arg_fid = 3, shared_permissions = Ro, ghost_permissions = Ro\<rparr>], body = (\<lambda>r fds. fds)\<rparr>"

definition pair_ctxs :: "dense_fields list" where
  "pair_ctxs = [[(3, (pair_field 0 [0, 0, 0, 0, 0, 0] 0)\<lparr>ghost_data_buffer := 0, ghost_is_readable := True\<rparr>)],
     [(3, (pair_field 1 [0, 0, 0, 0] 0)\<lparr>ghost_data_buffer := 0, ghost_is_readable := True\<rparr>)]]"

lemma pair_small: "\<forall>r<2. \<forall>q<2. (\<Sum>fid\<leftarrow>[3 :: nat]. length (ghosts_of (ghost (field_cols pair_types fid ! r)) q) * type_size pair_types fid) < 2 ^ 31"
  unfolding two by (simp add: ghosts_of_def pair_halo_def pair_types_def)

lemma writer_obeys: "obeys 2 pair_types {3} writer"
  unfolding obeys_def
proof (intro conjI allI impI)
  show "obeys_on pair_types writer r fds" for r fds
    unfolding obeys_on_def by (auto simp: writer_def fill_owned_def may_write_def pair_types_def Let_def split: option.split)
qed (use pair_small in \<open>simp_all add: writer_def may_write_def\<close>)

lemma reader_obeys: "obeys 2 pair_types {3} reader"
  unfolding obeys_def
proof (intro conjI allI impI)
  show "obeys_on pair_types reader r fds" for r fds
    unfolding obeys_on_def
  proof (intro conjI allI impI ballI)
    fix a f assume "map_of fds (arg_fid a) = Some f"
    then show "\<exists>data. map_of (body reader r fds) (arg_fid a) = Some (f\<lparr>field_bytes := data\<rparr>) \<and> length data = length (field_bytes f) \<and>
         (let sz = type_size pair_types (arg_fid a); col = field_cols pair_types (arg_fid a) ! r in
           (\<not> may_write (shared_permissions a) \<longrightarrow>
             (\<forall>p. shared_start sz col \<le> p \<and> p < ghost_start sz col \<longrightarrow> data ! p = field_bytes f ! p)) \<and>
           (\<not> may_write (ghost_permissions a) \<longrightarrow>
             (\<forall>p. ghost_start sz col \<le> p \<and> p < length data \<longrightarrow> data ! p = field_bytes f ! p)))"
      by (intro exI[of _ "field_bytes f"]) (simp add: reader_def Let_def)
  qed (simp add: reader_def)
qed (use pair_small in \<open>simp_all add: reader_def may_write_def\<close>)

lemma pair_fresh: "\<forall>fid\<in>{3}. halo 2 (field_cols pair_types fid) \<and> (\<forall>r<2. \<exists>f. map_of (pair_ctxs ! r) fid = Some f \<and>
    fresh_field 2 (type_size pair_types fid) (field_cols pair_types fid ! r) = ok f)"
  unfolding two using pair_halo
  by (simp add: pair_types_def pair_ctxs_def fresh_field_def pair_field_def pair_halo_def register_field_metadata_def
      ghost_runs_def shared_runs_def add_run_def numeral_2_eq_2)

text \<open>A task that may write everything and, like the ones of the tutorial, writes the entities its rank owns.\<close>

definition careless :: task where
  "careless = \<lparr>task_args = [\<lparr>arg_fid = 3, shared_permissions = Rw, ghost_permissions = Rw\<rparr>], body = fill_owned\<rparr>"

lemma careless_obeys: "obeys 2 pair_types {3} careless"
  unfolding obeys_def
proof (intro conjI allI impI)
  show "obeys_on pair_types careless r fds" for r fds
    unfolding obeys_on_def by (auto simp: careless_def fill_owned_def may_write_def pair_types_def Let_def split: option.split)
qed (use pair_small in \<open>simp_all add: careless_def\<close>)

lemma task_sequences_stay_coherent_witness:
  "\<exists>ctxs. fold_outcome (execute_task (ideal_mpi 2) pair_types) [writer, reader, careless, writer] pair_ctxs = ok ctxs \<and>
     coherent 2 pair_types {3} {3} ctxs"
proof -
  have "fold trusted_after [writer, reader, careless, writer] {3} = {3}"
    by (simp add: trusted_after_def writer_def reader_def careless_def may_write_def)
  moreover have "\<exists>ctxs. fold_outcome (execute_task (ideal_mpi 2) pair_types) [writer, reader, careless, writer] pair_ctxs = ok ctxs \<and>
     coherent 2 pair_types {3} (fold trusted_after [writer, reader, careless, writer] {3}) ctxs"
    by (rule task_sequences_stay_coherent[OF ideal_mpi_works _ _ pair_fresh]) (simp_all add: pair_ctxs_def writer_obeys reader_obeys careless_obeys)
  ultimately show ?thesis by simp
qed

lemma pair_coherent: "coherent 2 pair_types {3} {3} pair_ctxs"
  by (rule fresh_coherent[OF _ pair_fresh]) (simp add: pair_ctxs_def)

lemma tasks_see_current_ghosts_witness:
  "\<exists>before after. task_prolog (ideal_mpi 2) pair_types (task_args reader) pair_ctxs = ok before \<and> current 2 pair_types before 3 \<and>
    execute_task (ideal_mpi 2) pair_types reader pair_ctxs = ok after"
  using tasks_see_current_ghosts[OF ideal_mpi_works _ pair_coherent reader_obeys] by (auto simp: reader_def)

text \<open>The ghosts of the registered fields are 0, the owned entities 9 after the task.\<close>

lemma written_ghosts_not_updated_witness:
  "\<exists>after before. execute_task (ideal_mpi 2) pair_types careless pair_ctxs = ok after \<and> flag_at after 3 0 \<and>
    task_prolog (ideal_mpi 2) pair_types (task_args reader) after = ok before \<and> \<not> current 2 pair_types before 3"
proof -
  have flags: "\<forall>r<2. flag_at pair_ctxs 3 r" unfolding two by (simp add: flag_at_def pair_ctxs_def)
  have stale: "\<not> current 2 pair_types (map (\<lambda>r. body careless r (before ! r)) [0..<2]) 3"
    if b: "task_prolog (ideal_mpi 2) pair_types (task_args careless) pair_ctxs = ok before" for before
  proof -
    have "map_of (before ! 0) 3 = map_of (pair_ctxs ! 0) 3" "map_of (before ! 1) 3 = map_of (pair_ctxs ! 1) 3"
      using prolog_keeps_readable[OF ideal_mpi_works _ pair_coherent careless_obeys flags] b unfolding two by auto
    then have "bytes_at (map (\<lambda>r. body careless r (before ! r)) [0..<2]) 3 0 = [9, 9, 9, 9, 0, 0]"
      "bytes_at (map (\<lambda>r. body careless r (before ! r)) [0..<2]) 3 1 = [9, 9, 0, 0]"
      by (simp_all add: bytes_at_def careless_def fill_owned_def pair_ctxs_def pair_field_def ghost_start_def pair_halo_def upt_rec)
    then show ?thesis
      unfolding two by (simp add: ghosts_current_def Let_def pair_types_def pair_halo_def element_def)
  qed
  have "\<exists>after before'. execute_task (ideal_mpi 2) pair_types careless pair_ctxs = ok after \<and> (\<forall>r<2. flag_at after 3 r) \<and>
    task_prolog (ideal_mpi 2) pair_types (task_args reader) after = ok before' \<and> \<not> current 2 pair_types before' 3"
    using written_ghosts_not_updated[OF ideal_mpi_works _ pair_coherent careless_obeys reader_obeys,
        of "\<lparr>arg_fid = 3, shared_permissions = Rw, ghost_permissions = Rw\<rparr>"] stale
    by (simp add: careless_def may_write_def)
  then show ?thesis unfolding two by blast
qed

end
