(* ===== verification/Entity_Coloring.thy ===== *)
theory Entity_Coloring
  imports Ghost_Coloring
begin

text \<open>
  \<open>color_entities\<close> of coloring/dcrs\_utils.h: the coloring of the entities (vertices, edges) of cells that
  are colored already.  An entity of a shared cell belongs to the lowest rank that has it in a shared
  cell; the ranks that get a ghost cell with the entity are its users.  The ranks find the owner of an
  entity through a directory that is distributed over the ranks by global id.
\<close>

section \<open>The routine\<close>

text \<open>What a rank passes: \<open>cells2entity\<close>, \<open>local2global\<close> and the coloring of its cells.\<close>

record entity_input =
  cells2entity :: crs
  local2global :: "nat list"
  cells :: index_coloring

text \<open>\<open>owner_t\<close>, and the map \<open>entities2rank\<close>.\<close>

record owner =
  own_rank :: nat
  own_local :: nat
  ghost_ranks :: "nat list"

type_synonym directory = "(nat, owner) std_map"

definition sorted_unique :: "nat list \<Rightarrow> nat list" where
  "sorted_unique xs = unique_adj (sort xs)"

definition mark_shared :: "entity_input \<Rightarrow> entity_info \<Rightarrow> bool list \<times> nat list \<Rightarrow> (bool list \<times> nat list) outcome" where
  "mark_shared rin c state =
     and_then (crs_row (cells2entity rin) (ent_offset c)) (\<lambda>row.
     fold_outcome (\<lambda>local_id (exclusive, potential).
       if local_id < length exclusive then ok (exclusive[local_id := False], potential @ [local_id])
       else fail Undefined) row state)"

definition find_shared :: "entity_input \<Rightarrow> (bool list \<times> nat list) outcome" where
  "find_shared rin =
     and_then (fold_outcome (mark_shared rin) (shared (cells rin)) (replicate (length (local2global rin)) True, []))
       (\<lambda>(exclusive, potential). ok (exclusive, sorted_unique potential))"

definition global_id :: "entity_input \<Rightarrow> nat \<Rightarrow> nat outcome" where
  "global_id rin i = (if i < length (local2global rin) then ok (local2global rin ! i) else fail Undefined)"

text \<open>The entities of the shared cells go to the ranks that share the cell.\<close>

definition cell_messages :: "nat \<Rightarrow> entity_input \<Rightarrow> message list outcome" where
  "cell_messages comm_rank rin =
     and_then (traverse (\<lambda>c.
       and_then (crs_row (cells2entity rin) (ent_offset c)) (\<lambda>row.
       traverse (\<lambda>r. if r = comm_rank then ok (r, [])
         else and_then (traverse (global_id rin) row) (\<lambda>ids. ok (r, length ids # ids)))
         (sorted_list_of_set (ent_shared c)))) (shared (cells rin)))
     (\<lambda>ms. ok (concat ms))"

definition read_ghosts :: "nat \<Rightarrow> entity_input \<Rightarrow> mail \<Rightarrow> (nat \<times> nat list) outcome" where
  "read_ghosts n rin mail =
     and_then (fold_outcome (\<lambda>r. read_runs Undefined (\<lambda>ids (counts, potential).
         ok (counts + length ids, potential @ ids)) (received mail r)) [0..<n]
         (length (crs_indices (cells2entity rin)), []))
       (\<lambda>(counts, potential). ok (counts, sorted_unique potential))"

text \<open>The directory: every rank reports the entities of its shared cells.\<close>

definition report_messages :: "nat list \<Rightarrow> entity_input \<Rightarrow> nat list \<Rightarrow> message list outcome" where
  "report_messages ent_dist rin = traverse (\<lambda>local_id.
     and_then (global_id rin local_id) (\<lambda>g. and_then (rank_owner ent_dist g) (\<lambda>rank. ok (rank, [g, local_id]))))"

definition report_own :: "nat \<Rightarrow> nat list \<Rightarrow> entity_input \<Rightarrow> nat list \<Rightarrow> directory outcome" where
  "report_own comm_rank ent_dist rin potential = fold_outcome (\<lambda>local_id entities2rank.
     and_then (global_id rin local_id) (\<lambda>g. and_then (rank_owner ent_dist g) (\<lambda>rank.
     ok (if rank \<noteq> comm_rank then entities2rank
         else std_emplace g \<lparr>own_rank = rank, own_local = local_id, ghost_ranks = []\<rparr> entities2rank)))) potential []"

definition take_report :: "nat \<Rightarrow> nat \<Rightarrow> nat \<Rightarrow> directory \<Rightarrow> directory" where
  "take_report r g local_id entities2rank =
     (let new = \<lparr>own_rank = r, own_local = local_id, ghost_ranks = []\<rparr> in
      case map_of entities2rank g of
        None \<Rightarrow> std_put g new entities2rank
      | Some old \<Rightarrow> if r < own_rank old then std_put g new entities2rank else entities2rank)"

fun read_pairs :: "(nat \<Rightarrow> nat \<Rightarrow> 's \<Rightarrow> 's) \<Rightarrow> nat list \<Rightarrow> 's \<Rightarrow> 's outcome" where
  "read_pairs f [] s = ok s"
| "read_pairs f [x] s = fail Undefined"
| "read_pairs f (x # y # words) s = read_pairs f words (f x y s)"

definition read_reports :: "nat \<Rightarrow> mail \<Rightarrow> directory \<Rightarrow> directory outcome" where
  "read_reports n mail = fold_outcome (\<lambda>r. read_pairs (take_report r) (received mail r)) [0..<n]"

text \<open>The users ask for the owners of the entities of their ghost cells.\<close>

definition request_messages :: "nat list \<Rightarrow> nat list \<Rightarrow> message list outcome" where
  "request_messages ent_dist = traverse (\<lambda>g. and_then (rank_owner ent_dist g) (\<lambda>rank. ok (rank, [g])))"

definition take_request :: "nat \<Rightarrow> nat \<Rightarrow> directory \<Rightarrow> directory outcome" where
  "take_request r g entities2rank =
     (case map_of entities2rank g of
        None \<Rightarrow> fail Out_of_range
      | Some own \<Rightarrow> ok (if own_rank own \<noteq> r
          then std_put g (own\<lparr>ghost_ranks := ghost_ranks own @ [r]\<rparr>) entities2rank else entities2rank))"

definition request_own :: "nat \<Rightarrow> nat list \<Rightarrow> nat list \<Rightarrow> directory \<Rightarrow> directory outcome" where
  "request_own comm_rank ent_dist = fold_outcome (\<lambda>g entities2rank.
     and_then (rank_owner ent_dist g) (\<lambda>rank.
     if rank \<noteq> comm_rank then ok entities2rank else take_request rank g entities2rank))"

definition read_requests :: "nat \<Rightarrow> mail \<Rightarrow> directory \<Rightarrow> directory outcome" where
  "read_requests n mail = fold_outcome (\<lambda>r. fold_outcome (take_request r) (received mail r)) [0..<n]"

text \<open>The directory tells the owner and the users of an entity about it.\<close>

definition answer_messages :: "directory \<Rightarrow> message list" where
  "answer_messages entities2rank = concat (map (\<lambda>(g, own).
     map (\<lambda>rank. (rank, [g, own_rank own, own_local own, length (ghost_ranks own)] @ ghost_ranks own))
       (ghost_ranks own @ [own_rank own])) entities2rank)"

function read_owners :: "nat list \<Rightarrow> directory \<Rightarrow> directory outcome" where
  "read_owners words entities2rank =
     (case words of
        [] \<Rightarrow> ok entities2rank
      | g # rank # local_id # num # ranks \<Rightarrow>
          if length ranks < num then fail Undefined
          else if map_of entities2rank g \<noteq> None then fail Assert_failed
          else read_owners (drop num ranks)
            (std_put g \<lparr>own_rank = rank, own_local = local_id, ghost_ranks = take num ranks\<rparr> entities2rank)
      | _ \<Rightarrow> fail Undefined)"
  by pat_completeness auto
termination
  by (relation "measure (\<lambda>(words, entities2rank). length words)") auto

declare read_owners.simps [simp del]

definition take_answers :: "nat \<Rightarrow> mail \<Rightarrow> directory \<Rightarrow> directory outcome" where
  "take_answers n mail = fold_outcome (\<lambda>r. read_owners (received mail r)) [0..<n]"

text \<open>The result.\<close>

definition add_exclusive :: "nat \<Rightarrow> entity_input \<Rightarrow> bool list \<Rightarrow> entity_info list \<Rightarrow> entity_info list" where
  "add_exclusive comm_rank rin excl ents = fold (\<lambda>local_id ents.
     if excl ! local_id then ents @ [make_entity_info (local2global rin ! local_id) comm_rank local_id {}] else ents)
     [0..<length (local2global rin)] ents"

definition add_entity :: "nat \<Rightarrow> nat list \<Rightarrow> nat \<times> owner \<Rightarrow> index_coloring \<times> coloring_info \<Rightarrow> (index_coloring \<times> coloring_info) outcome" where
  "add_entity comm_rank potential = (\<lambda>(g, own) (entities, info).
     if own_rank own = comm_rank then
       (if ghost_ranks own = [] then fail Assert_failed
        else ok (entities\<lparr>shared := shared entities @
            [make_entity_info g (own_rank own) (own_local own) (set (ghost_ranks own))]\<rparr>,
          info\<lparr>shared_users := shared_users info \<union> set (ghost_ranks own)\<rparr>))
     else if g \<in> set potential then
       ok (entities\<lparr>ghost := ghost entities @ [make_entity_info g (own_rank own) (own_local own) {}]\<rparr>,
         info\<lparr>ghost_owners := insert (own_rank own) (ghost_owners info)\<rparr>)
     else ok (entities, info))"

definition finish_entities :: "nat \<Rightarrow> entity_input \<Rightarrow> bool list \<Rightarrow> nat list \<Rightarrow> directory \<Rightarrow> index_coloring \<times> coloring_info \<Rightarrow>
    (index_coloring \<times> coloring_info) outcome" where
  "finish_entities comm_rank rin excl potential entities2rank = (\<lambda>(entities, info).
     and_then (fold_outcome (add_entity comm_rank potential) entities2rank
       (entities\<lparr>exclusive := remove_unique (add_exclusive comm_rank rin excl (exclusive entities))\<rparr>, info)) (\<lambda>(entities, info).
     let entities = entities\<lparr>shared := remove_unique (shared entities), ghost := remove_unique (ghost entities)\<rparr>
     in ok (entities, info\<lparr>num_exclusive := length (exclusive entities), num_shared := length (shared entities),
          num_ghost := length (ghost entities)\<rparr>)))"

definition color_entities :: "mpi \<Rightarrow> entity_input list \<Rightarrow> (index_coloring \<times> coloring_info) list \<Rightarrow>
    ((index_coloring \<times> coloring_info) \<times> nat) list outcome" where
  "color_entities c rins outs =
     (let n = length rins;
          max_ids = mpi_allreduce_max c (map (\<lambda>rin. fold max (local2global rin) 0) rins)
      in
        and_then (traverse (\<lambda>r. find_shared (rins ! r)) [0..<n]) (\<lambda>marks.
        and_then (traverse (\<lambda>r. cell_messages r (rins ! r)) [0..<n]) (\<lambda>messages.
        and_then (post c messages) (\<lambda>mails.
        and_then (traverse (\<lambda>r. read_ghosts n (rins ! r) (mails ! r)) [0..<n]) (\<lambda>ghosts.
        and_then (traverse (\<lambda>r. subdivide ((max_ids ! r + 1) mod 2 ^ 64) n []) [0..<n]) (\<lambda>dists.
        and_then (traverse (\<lambda>r. report_messages (dists ! r) (rins ! r) (snd (marks ! r))) [0..<n]) (\<lambda>messages.
        and_then (traverse (\<lambda>r. report_own r (dists ! r) (rins ! r) (snd (marks ! r))) [0..<n]) (\<lambda>maps.
        and_then (post c messages) (\<lambda>mails.
        and_then (traverse (\<lambda>r. read_reports n (mails ! r) (maps ! r)) [0..<n]) (\<lambda>maps.
        and_then (traverse (\<lambda>r. request_messages (dists ! r) (snd (ghosts ! r))) [0..<n]) (\<lambda>messages.
        and_then (traverse (\<lambda>r. request_own r (dists ! r) (snd (ghosts ! r)) (maps ! r)) [0..<n]) (\<lambda>maps.
        and_then (post c messages) (\<lambda>mails.
        and_then (traverse (\<lambda>r. read_requests n (mails ! r) (maps ! r)) [0..<n]) (\<lambda>maps.
        and_then (post c (map answer_messages maps)) (\<lambda>mails.
        and_then (traverse (\<lambda>r. take_answers n (mails ! r) (maps ! r)) [0..<n]) (\<lambda>maps.
        traverse (\<lambda>r. and_then (finish_entities r (rins ! r) (fst (marks ! r)) (snd (ghosts ! r)) (maps ! r) (outs ! r))
          (\<lambda>result. ok (result, fst (ghosts ! r)))) [0..<n]))))))))))))))))"


section \<open>Maps\<close>

definition maps_to :: "('k::linorder, 'v) std_map \<Rightarrow> 'k set \<Rightarrow> ('k \<Rightarrow> 'v) \<Rightarrow> bool" where
  "maps_to m K f \<longleftrightarrow> std_wf m \<and> (\<forall>k. map_of m k = (if k \<in> K then Some (f k) else None))"

lemma maps_to_cong: "maps_to m K f \<Longrightarrow> (\<And>k. k \<in> K \<longleftrightarrow> k \<in> K') \<Longrightarrow> (\<And>k. k \<in> K' \<Longrightarrow> f k = f' k) \<Longrightarrow> maps_to m K' f'"
  by (auto simp: maps_to_def)

lemma maps_to_Nil [simp]: "maps_to [] {} f"
  by (simp add: maps_to_def)

lemma maps_to_put: "maps_to m K f \<Longrightarrow> maps_to (std_put k v m) (insert k K) (f(k := v))"
  by (auto simp: maps_to_def)

lemma maps_to_finite: "maps_to m K f \<Longrightarrow> finite K"
proof -
  assume m: "maps_to m K f"
  then have "K = dom (map_of m)" by (auto simp: maps_to_def dom_def)
  then show ?thesis by (simp add: finite_dom_map_of)
qed

lemma sorted_strict_unique: "sorted_wrt (<) xs \<Longrightarrow> set xs = A \<Longrightarrow> xs = sorted_list_of_set A" for xs :: "'a::linorder list"
  by (metis sorted_list_of_set.idem_if_sorted_distinct strict_sorted_iff)

lemma maps_to_list: "maps_to m K f \<Longrightarrow> m = map (\<lambda>k. (k, f k)) (sorted_list_of_set K)"
proof -
  assume m: "maps_to m K f"
  then have d: "distinct (keys m)" by (simp add: maps_to_def std_wf_distinct)
  have e: "snd kv = f (fst kv) \<and> fst kv \<in> K" if "kv \<in> set m" for kv
  proof -
    have "map_of m (fst kv) = Some (snd kv)" using d that by simp
    then show ?thesis using m by (auto simp: maps_to_def split: if_splits)
  qed
  have "set (keys m) = K"
  proof (intro equalityI subsetI)
    fix k assume "k \<in> K"
    then have "map_of m k = Some (f k)" using m by (simp add: maps_to_def)
    then show "k \<in> set (keys m)" using map_of_SomeD by force
  qed (use e in auto)
  then have k: "keys m = sorted_list_of_set K" using m by (intro sorted_strict_unique) (auto simp: maps_to_def std_wf_def)
  have "m = map (\<lambda>k. (k, f k)) (keys m)" using e by (auto intro!: nth_equalityI simp: prod_eq_iff)
  then show ?thesis unfolding k .
qed

lemma filter_sorted_list: "finite A \<Longrightarrow> filter P (sorted_list_of_set A) = sorted_list_of_set {x \<in> A. P x}" for A :: "'a::linorder set"
  by (rule sorted_strict_unique) (auto simp: sorted_wrt_filter)

section \<open>The directory\<close>

text \<open>
  \<open>A g\<close> are the ranks that have reported the entity \<open>g\<close> and \<open>U g\<close> its users; \<open>loc r g\<close> is the local id of
  \<open>g\<close> on rank \<open>r\<close>.
\<close>

definition entry :: "(nat \<Rightarrow> nat \<Rightarrow> nat) \<Rightarrow> (nat \<Rightarrow> nat set) \<Rightarrow> (nat \<Rightarrow> nat list) \<Rightarrow> nat \<Rightarrow> owner" where
  "entry loc A U g = \<lparr>own_rank = Min (A g), own_local = loc (Min (A g)) g, ghost_ranks = U g\<rparr>"

definition listing :: "(nat \<Rightarrow> nat \<Rightarrow> nat) \<Rightarrow> directory \<Rightarrow> (nat \<Rightarrow> nat set) \<Rightarrow> (nat \<Rightarrow> nat list) \<Rightarrow> bool" where
  "listing loc m A U \<longleftrightarrow> (\<forall>g. finite (A g)) \<and> maps_to m {g. A g \<noteq> {}} (entry loc A U)"

lemma listing_cong: "listing loc m A U \<Longrightarrow> (\<And>g. A g = A' g) \<Longrightarrow> (\<And>g. A' g \<noteq> {} \<Longrightarrow> U g = U' g) \<Longrightarrow> listing loc m A' U'"
proof -
  assume l: "listing loc m A U" and a: "\<And>g. A g = A' g" and u: "\<And>g. A' g \<noteq> {} \<Longrightarrow> U g = U' g"
  have "maps_to m {g. A' g \<noteq> {}} (entry loc A' U')"
    by (rule maps_to_cong[of m "{g. A g \<noteq> {}}" "entry loc A U"]) (use l a u in \<open>simp_all add: listing_def entry_def\<close>)
  then show ?thesis using l a by (simp add: listing_def)
qed

lemma take_report_listing:
  assumes "listing loc m A (\<lambda>g. [])"
  shows "listing loc (take_report r g (loc r g) m) (A(g := insert r (A g))) (\<lambda>g. [])"
proof -
  have f: "finite (A g)" for g using assms by (simp add: listing_def)
  let ?new = "\<lparr>own_rank = r, own_local = loc r g, ghost_ranks = []\<rparr>"
  have mo: "map_of m g = (if A g = {} then None else Some (entry loc A (\<lambda>g. []) g))"
    using assms by (simp add: listing_def maps_to_def)
  have put: "listing loc (std_put g ?new m) (A(g := insert r (A g))) (\<lambda>g. [])" if "A g = {} \<or> r < Min (A g)"
  proof -
    have "Min (insert r (A g)) = r" using that f[of g] by (cases "A g = {}") auto
    then have "maps_to (std_put g ?new m) {x. (A(g := insert r (A g))) x \<noteq> {}} (entry loc (A(g := insert r (A g))) (\<lambda>g. []))"
      using assms maps_to_put[of m "{g. A g \<noteq> {}}" "entry loc A (\<lambda>g. [])" g ?new] unfolding listing_def
      by (auto simp: entry_def elim!: maps_to_cong)
    then show ?thesis using f by (simp add: listing_def)
  qed
  show ?thesis
  proof (cases "A g = {} \<or> r < Min (A g)")
    case True
    then show ?thesis using put mo by (auto simp: take_report_def entry_def)
  next
    case False
    then have mi: "Min (insert r (A g)) = Min (A g)" unfolding Min_insert[OF f conjunct1[OF False[unfolded de_Morgan_disj]]] by (simp add: min_def)
    have e: "entry loc (A(g := insert r (A g))) (\<lambda>g. []) k = entry loc A (\<lambda>g. []) k" for k
    proof (cases "k = g")
      case True
      then show ?thesis by (simp only: entry_def fun_upd_same mi)
    qed (simp add: entry_def)
    have "{k. (A(g := insert r (A g))) k \<noteq> {}} = {k. A k \<noteq> {}}" using False by auto
    then have "maps_to m {k. (A(g := insert r (A g))) k \<noteq> {}} (entry loc (A(g := insert r (A g))) (\<lambda>g. []))"
      using assms e by (simp add: listing_def maps_to_def)
    then have "listing loc m (A(g := insert r (A g))) (\<lambda>g. [])" using f by (simp add: listing_def)
    then show ?thesis using False mo by (simp add: take_report_def entry_def)
  qed
qed

lemma take_reports:
  "listing loc m A (\<lambda>g. []) \<Longrightarrow>
    listing loc (fold (\<lambda>(g, l). take_report r g l) (map (\<lambda>g. (g, loc r g)) gs) m) (\<lambda>g. A g \<union> (if g \<in> set gs then {r} else {})) (\<lambda>g. [])"
proof (induction gs arbitrary: m A)
  case (Cons h gs)
  have "listing loc (fold (\<lambda>(g, l). take_report r g l) (map (\<lambda>g. (g, loc r g)) (h # gs)) m)
      (\<lambda>g. (A(h := insert r (A h))) g \<union> (if g \<in> set gs then {r} else {})) (\<lambda>g. [])"
    using Cons.IH[OF take_report_listing[OF Cons.prems, of r h]] by simp
  then show ?case by (rule listing_cong) auto
qed simp

lemma read_pairs_rows: "read_pairs f (concat (map (\<lambda>(x, y). [x, y]) ps)) s = ok (fold (\<lambda>(x, y). f x y) ps s)"
  by (induction ps arbitrary: s) auto

lemma read_reports_listing:
  assumes "listing loc m A (\<lambda>g. [])" "mail = mail_of (map (\<lambda>q. concat (map (\<lambda>g. [g, loc q g]) (L q))) [0..<n])"
  shows "\<exists>m'. read_reports n mail m = ok m' \<and> listing loc m' (\<lambda>g. A g \<union> {q. q < n \<and> g \<in> set (L q)}) (\<lambda>g. [])"
proof -
  have "k \<le> n \<Longrightarrow> \<exists>m'. fold_outcome (\<lambda>r. read_pairs (take_report r) (received mail r)) [0..<k] m = ok m' \<and>
      listing loc m' (\<lambda>g. A g \<union> {q. q < k \<and> g \<in> set (L q)}) (\<lambda>g. [])" for k
  proof (induction k)
    case (Suc k)
    then obtain m' where m': "fold_outcome (\<lambda>r. read_pairs (take_report r) (received mail r)) [0..<k] m = ok m'"
      "listing loc m' (\<lambda>g. A g \<union> {q. q < k \<and> g \<in> set (L q)}) (\<lambda>g. [])" by auto
    have "received mail k = concat (map (\<lambda>(x, y). [x, y]) (map (\<lambda>g. (g, loc k g)) (L k)))"
      using Suc.prems assms(2) by (simp add: comp_def)
    then have "read_pairs (take_report k) (received mail k) m'
        = ok (fold (\<lambda>(g, l). take_report k g l) (map (\<lambda>g. (g, loc k g)) (L k)) m')" by (simp only: read_pairs_rows)
    moreover have "listing loc (fold (\<lambda>(g, l). take_report k g l) (map (\<lambda>g. (g, loc k g)) (L k)) m')
        (\<lambda>g. A g \<union> {q. q < Suc k \<and> g \<in> set (L q)}) (\<lambda>g. [])"
      using take_reports[OF m'(2), of k "L k"] by (rule listing_cong) (auto simp: less_Suc_eq)
    ultimately show ?case using m'(1) by simp
  qed (use assms(1) in simp)
  from this[of n] show ?thesis by (simp add: read_reports_def)
qed

subsection \<open>Users\<close>

lemma take_request_listing:
  assumes "listing loc m A U" "A g \<noteq> {}"
  shows "\<exists>m'. take_request r g m = ok m' \<and> listing loc m' A (U(g := U g @ (if Min (A g) \<noteq> r then [r] else [])))"
proof -
  have mo: "map_of m g = Some (entry loc A U g)" using assms by (simp add: listing_def maps_to_def)
  have "listing loc (std_put g ((entry loc A U g)\<lparr>ghost_ranks := U g @ [r]\<rparr>) m) A (U(g := U g @ [r]))"
  proof -
    have "maps_to (std_put g ((entry loc A U g)\<lparr>ghost_ranks := U g @ [r]\<rparr>) m) {g. A g \<noteq> {}} (entry loc A (U(g := U g @ [r])))"
      by (rule maps_to_cong[OF maps_to_put[of m "{g. A g \<noteq> {}}" "entry loc A U"]])
        (use assms in \<open>auto simp: listing_def entry_def\<close>)
    then show ?thesis using assms by (simp add: listing_def)
  qed
  then show ?thesis using assms(1) mo by (auto simp: take_request_def entry_def)
qed

lemma take_requests:
  assumes "listing loc m A U" "distinct gs" "\<forall>g\<in>set gs. A g \<noteq> {}"
  shows "\<exists>m'. fold_outcome (take_request r) gs m = ok m' \<and>
    listing loc m' A (\<lambda>g. U g @ (if g \<in> set gs \<and> Min (A g) \<noteq> r then [r] else []))"
  using assms
proof (induction gs arbitrary: m U)
  case (Cons h gs)
  then obtain m' where m': "take_request r h m = ok m'" "listing loc m' A (U(h := U h @ (if Min (A h) \<noteq> r then [r] else [])))"
    using take_request_listing[of loc m A U h r] by auto
  from Cons.IH[OF m'(2)] Cons.prems obtain m'' where "fold_outcome (take_request r) gs m' = ok m''"
    "listing loc m'' A (\<lambda>g. (U(h := U h @ (if Min (A h) \<noteq> r then [r] else []))) g @ (if g \<in> set gs \<and> Min (A g) \<noteq> r then [r] else []))"
    by auto
  moreover from this(2) have "listing loc m'' A (\<lambda>g. U g @ (if g \<in> set (h # gs) \<and> Min (A g) \<noteq> r then [r] else []))"
    by (rule listing_cong) (use Cons.prems(2) in auto)
  ultimately show ?case using m'(1) by simp
qed simp

lemma read_requests_listing:
  assumes "listing loc m A U" "mail = mail_of (map L [0..<n])" "\<forall>q<n. distinct (L q) \<and> (\<forall>g\<in>set (L q). A g \<noteq> {})"
  shows "\<exists>m'. read_requests n mail m = ok m' \<and>
    listing loc m' A (\<lambda>g. U g @ filter (\<lambda>q. g \<in> set (L q) \<and> Min (A g) \<noteq> q) [0..<n])"
proof -
  have "k \<le> n \<Longrightarrow> \<exists>m'. fold_outcome (\<lambda>r. fold_outcome (take_request r) (received mail r)) [0..<k] m = ok m' \<and>
      listing loc m' A (\<lambda>g. U g @ filter (\<lambda>q. g \<in> set (L q) \<and> Min (A g) \<noteq> q) [0..<k])" for k
  proof (induction k)
    case (Suc k)
    then obtain m' where m': "fold_outcome (\<lambda>r. fold_outcome (take_request r) (received mail r)) [0..<k] m = ok m'"
      "listing loc m' A (\<lambda>g. U g @ filter (\<lambda>q. g \<in> set (L q) \<and> Min (A g) \<noteq> q) [0..<k])" by auto
    have "received mail k = L k" using Suc.prems assms(2) by simp
    moreover have lk: "distinct (L k)" "\<forall>g\<in>set (L k). A g \<noteq> {}" using assms(3) Suc.prems Suc_le_lessD by blast+
    obtain m'' where m'': "fold_outcome (take_request k) (L k) m' = ok m''"
      "listing loc m'' A (\<lambda>g. (U g @ filter (\<lambda>q. g \<in> set (L q) \<and> Min (A g) \<noteq> q) [0..<k]) @ (if g \<in> set (L k) \<and> Min (A g) \<noteq> k then [k] else []))"
      using take_requests[OF m'(2) lk, of k] by blast
    from m''(2) have "listing loc m'' A (\<lambda>g. U g @ filter (\<lambda>q. g \<in> set (L q) \<and> Min (A g) \<noteq> q) [0..<Suc k])"
      by (rule listing_cong) auto
    ultimately show ?case using m'(1) m''(1) by simp
  qed (use assms(1) in simp)
  from this[of n] show ?thesis by (simp add: read_requests_def)
qed


subsection \<open>Answers\<close>

definition entry_words :: "nat \<times> owner \<Rightarrow> nat list" where
  "entry_words = (\<lambda>(g, own). [g, own_rank own, own_local own, length (ghost_ranks own)] @ ghost_ranks own)"

lemma letter_concat: "letter self (concat mss) r = concat (map (\<lambda>ms. letter self ms r) mss)"
  by (induction mss) (auto simp: letter_def)

lemma letter_answers:
  assumes "\<forall>(g, own)\<in>set m. distinct (ghost_ranks own @ [own_rank own])"
  shows "letter self (answer_messages m) q = concat (map entry_words
    (if q = self then [] else filter (\<lambda>(g, own). q = own_rank own \<or> q \<in> set (ghost_ranks own)) m))"
proof -
  have one: "letter self (map (\<lambda>rank. (rank, entry_words (g, own))) rs) q
      = (if q \<noteq> self \<and> q \<in> set rs then entry_words (g, own) else [])" if "distinct rs" for rs g own
    using distinct_filter_eq[OF that, of q] by (simp add: letter_def filter_map comp_def)
  have "letter self (answer_messages m) q = concat (map (\<lambda>(g, own).
      if q \<noteq> self \<and> q \<in> set (ghost_ranks own @ [own_rank own]) then entry_words (g, own) else []) m)"
    unfolding answer_messages_def letter_concat map_map
  proof (rule arg_cong[where f = concat], rule map_cong[OF refl])
    fix x assume x: "x \<in> set m"
    obtain g own where gx: "x = (g, own)" by (cases x)
    then have "distinct (ghost_ranks own @ [own_rank own])" using assms x by auto
    from one[OF this, of g own]
    show "((\<lambda>ms. letter self ms q) \<circ> (\<lambda>(g, own). map (\<lambda>rank. (rank, [g, own_rank own, own_local own, length (ghost_ranks own)] @ ghost_ranks own))
        (ghost_ranks own @ [own_rank own]))) x
      = (case x of (g, own) \<Rightarrow> if q \<noteq> self \<and> q \<in> set (ghost_ranks own @ [own_rank own]) then entry_words (g, own) else [])"
      by (simp add: gx entry_words_def)
  qed
  also have "\<dots> = concat (map entry_words (if q = self then [] else filter (\<lambda>(g, own). q = own_rank own \<or> q \<in> set (ghost_ranks own)) m))"
    by (induction m) auto
  finally show ?thesis .
qed

lemma read_owners_rows:
  "maps_to m K f \<Longrightarrow> distinct gs \<Longrightarrow> set gs \<inter> K = {} \<Longrightarrow>
    \<exists>m'. read_owners (concat (map (\<lambda>g. entry_words (g, f g)) gs)) m = ok m' \<and> maps_to m' (K \<union> set gs) f"
proof (induction gs arbitrary: m K)
  case Nil
  then show ?case by (simp add: read_owners.simps)
next
  case (Cons h gs)
  have new: "map_of m h = None" using Cons.prems by (simp add: maps_to_def)
  have "maps_to (std_put h (f h) m) (insert h K) f"
    using maps_to_put[OF Cons.prems(1), of h "f h"] by simp
  then obtain m' where m': "read_owners (concat (map (\<lambda>g. entry_words (g, f g)) gs)) (std_put h (f h) m) = ok m'"
    "maps_to m' (insert h K \<union> set gs) f" using Cons.IH[of "std_put h (f h) m" "insert h K"] Cons.prems by auto
  obtain a b c where fh: "f h = \<lparr>own_rank = a, own_local = b, ghost_ranks = c\<rparr>" by (cases "f h")
  have "read_owners (concat (map (\<lambda>g. entry_words (g, f g)) (h # gs))) m
      = read_owners (concat (map (\<lambda>g. entry_words (g, f g)) gs)) (std_put h (f h) m)"
    using new by (subst read_owners.simps) (simp add: entry_words_def fh)
  then show ?case using m' by auto
qed

lemma take_answers_maps:
  assumes "maps_to m K f" "mail = mail_of (map (\<lambda>s. concat (map (\<lambda>g. entry_words (g, f g)) (L s))) [0..<n])"
    and "\<forall>s<n. distinct (L s) \<and> set (L s) \<inter> K = {}" "\<forall>s<n. \<forall>t<n. s \<noteq> t \<longrightarrow> set (L s) \<inter> set (L t) = {}"
  shows "\<exists>m'. take_answers n mail m = ok m' \<and> maps_to m' (K \<union> (\<Union>s<n. set (L s))) f"
proof -
  have "k \<le> n \<Longrightarrow> \<exists>m'. fold_outcome (\<lambda>r. read_owners (received mail r)) [0..<k] m = ok m' \<and>
      maps_to m' (K \<union> (\<Union>s<k. set (L s))) f" for k
  proof (induction k)
    case (Suc k)
    then obtain m' where m': "fold_outcome (\<lambda>r. read_owners (received mail r)) [0..<k] m = ok m'"
      "maps_to m' (K \<union> (\<Union>s<k. set (L s))) f" by auto
    have rk: "received mail k = concat (map (\<lambda>g. entry_words (g, f g)) (L k))" using Suc.prems assms(2) by simp
    have "set (L k) \<inter> set (L s) = {}" if "s < k" for s using assms(4) Suc.prems that by simp
    moreover have "distinct (L k)" "set (L k) \<inter> K = {}" using assms(3) Suc.prems Suc_le_lessD by blast+
    ultimately have "set (L k) \<inter> (K \<union> (\<Union>s<k. set (L s))) = {}" "distinct (L k)" by auto
    then obtain m'' where "read_owners (received mail k) m' = ok m''" "maps_to m'' (K \<union> (\<Union>s<k. set (L s)) \<union> set (L k)) f"
      using read_owners_rows[OF m'(2), of "L k"] unfolding rk by blast
    moreover have "K \<union> (\<Union>s<k. set (L s)) \<union> set (L k) = K \<union> (\<Union>s<Suc k. set (L s))" by (auto simp: lessThan_Suc)
    ultimately show ?case using m'(1) by simp
  qed (use assms(1) in simp)
  from this[of n] show ?thesis by (simp add: take_answers_def)
qed


section \<open>The local steps\<close>

text \<open>\<open>rows\<close> are the cells of a rank as lists of local entity ids; the largest \<open>size_t\<close> is no id.\<close>

definition rank_input :: "nat \<Rightarrow> nat \<Rightarrow> entity_input \<Rightarrow> nat list list \<Rightarrow> bool" where
  "rank_input n r rin rows \<longleftrightarrow> cells2entity rin = crs_of rows \<and> distinct (local2global rin) \<and>
     (\<forall>g\<in>set (local2global rin). g < 2 ^ 64 - 1) \<and>
     (\<forall>row\<in>set rows. \<forall>i\<in>set row. i < length (local2global rin)) \<and>
     (\<forall>c\<in>set (shared (cells rin)). ent_offset c < length rows \<and> ent_shared c \<noteq> {} \<and> ent_shared c \<subseteq> {..<n} - {r})"

definition shared_locals :: "entity_input \<Rightarrow> nat list list \<Rightarrow> nat set" where
  "shared_locals rin rows = (\<Union>c\<in>set (shared (cells rin)). set (rows ! ent_offset c))"

definition shared_ids :: "entity_input \<Rightarrow> nat list list \<Rightarrow> nat set" where
  "shared_ids rin rows = (!) (local2global rin) ` shared_locals rin rows"

definition id_rows :: "nat \<Rightarrow> entity_input \<Rightarrow> nat list list \<Rightarrow> nat list list" where
  "id_rows r rin rows = map (\<lambda>c. map ((!) (local2global rin)) (rows ! ent_offset c))
     (filter (\<lambda>c. r \<in> ent_shared c) (shared (cells rin)))"

lemma rank_input_row:
  assumes "rank_input n r rin rows" "c \<in> set (shared (cells rin))"
  shows "crs_row (cells2entity rin) (ent_offset c) = ok (rows ! ent_offset c)"
    "i \<in> set (rows ! ent_offset c) \<Longrightarrow> i < length (local2global rin)"
proof -
  have o: "ent_offset c < length rows" "cells2entity rin = crs_of rows" using assms by (auto simp: rank_input_def)
  then show "crs_row (cells2entity rin) (ent_offset c) = ok (rows ! ent_offset c)" by (simp add: crs_row_rows)
  have "\<forall>i\<in>set (rows ! ent_offset c). i < length (local2global rin)"
    using assms(1) nth_mem[OF o(1)] unfolding rank_input_def by blast
  then show "i \<in> set (rows ! ent_offset c) \<Longrightarrow> i < length (local2global rin)" by blast
qed

lemma shared_locals_bound: "rank_input n r rin rows \<Longrightarrow> i \<in> shared_locals rin rows \<Longrightarrow> i < length (local2global rin)"
  using rank_input_row(2) by (auto simp: shared_locals_def)

lemma mark_row:
  assumes "\<forall>i\<in>set row. i < len"
  shows "fold_outcome (\<lambda>local_id (exclusive, potential).
      if local_id < length exclusive then ok (exclusive[local_id := False], potential @ [local_id]) else fail Undefined)
      row (map (\<lambda>i. i \<notin> set pot) [0..<len], pot)
    = ok (map (\<lambda>i. i \<notin> set (pot @ row)) [0..<len], pot @ row)"
  using assms
proof (induction row arbitrary: pot)
  case (Cons j row)
  have "(map (\<lambda>i. i \<notin> set pot) [0..<len])[j := False] = map (\<lambda>i. i \<notin> set (pot @ [j])) [0..<len]"
    using Cons.prems by (auto intro!: nth_equalityI simp: nth_list_update split: if_splits)
  then show ?case using Cons.IH[of "pot @ [j]"] Cons.prems by simp
qed simp

lemma find_shared_marks:
  assumes "rank_input n r rin rows"
  shows "find_shared rin = ok (map (\<lambda>i. i \<notin> shared_locals rin rows) [0..<length (local2global rin)],
    sorted_list_of_set (shared_locals rin rows))"
proof -
  let ?len = "length (local2global rin)"
  have "fold_outcome (mark_shared rin) cs (map (\<lambda>i. i \<notin> set pot) [0..<?len], pot)
      = ok (map (\<lambda>i. i \<notin> set (pot @ concat (map (\<lambda>c. rows ! ent_offset c) cs))) [0..<?len],
          pot @ concat (map (\<lambda>c. rows ! ent_offset c) cs))"
    if "set cs \<subseteq> set (shared (cells rin))" for cs pot
    using that
  proof (induction cs arbitrary: pot)
    case (Cons c cs)
    have "\<forall>i\<in>set (rows ! ent_offset c). i < ?len" using rank_input_row(2)[OF assms] Cons.prems by auto
    then have "mark_shared rin c (map (\<lambda>i. i \<notin> set pot) [0..<?len], pot)
        = ok (map (\<lambda>i. i \<notin> set (pot @ rows ! ent_offset c)) [0..<?len], pot @ rows ! ent_offset c)"
      using rank_input_row(1)[OF assms] Cons.prems by (simp add: mark_shared_def mark_row)
    then show ?case using Cons.IH[of "pot @ rows ! ent_offset c"] Cons.prems by simp
  qed simp
  from this[of "shared (cells rin)" "[]"]
  have "fold_outcome (mark_shared rin) (shared (cells rin)) (replicate ?len True, [])
      = ok (map (\<lambda>i. i \<notin> set (concat (map (\<lambda>c. rows ! ent_offset c) (shared (cells rin))))) [0..<?len],
          concat (map (\<lambda>c. rows ! ent_offset c) (shared (cells rin))))"
    by (simp add: map_replicate_const)
  moreover have "set (concat (map (\<lambda>c. rows ! ent_offset c) (shared (cells rin)))) = shared_locals rin rows"
    by (auto simp: shared_locals_def)
  ultimately show ?thesis by (simp only: find_shared_def and_then.simps prod.case sorted_unique_def unique_adj_sort)
qed

lemma global_ids: "\<forall>i\<in>set row. i < length (local2global rin) \<Longrightarrow>
    traverse (global_id rin) row = ok (map ((!) (local2global rin)) row)"
  by (intro traverse_ok) (simp add: global_id_def)

lemma cell_messages_rows:
  assumes "rank_input n self rin rows"
  shows "\<exists>ms. cell_messages self rin = ok ms \<and> (\<forall>m\<in>set ms. fst m < n) \<and>
    (\<forall>r. letter self ms r = concat (map run (id_rows r rin rows)))"
proof -
  let ?es = "shared (cells rin)" and ?w = "\<lambda>c. run (map ((!) (local2global rin)) (rows ! ent_offset c))"
  let ?ms = "concat (map (\<lambda>c. map (\<lambda>r. (r, if r = self then [] else ?w c)) (sorted_list_of_set (ent_shared c))) ?es)"
  have users: "finite (ent_shared c) \<and> ent_shared c \<subseteq> {..<n} - {self}" if "c \<in> set ?es" for c
  proof -
    have "ent_shared c \<subseteq> {..<n} - {self}" using assms that by (simp add: rank_input_def)
    then show ?thesis using finite_subset by blast
  qed
  have one: "and_then (crs_row (cells2entity rin) (ent_offset c)) (\<lambda>row. traverse (\<lambda>r. if r = self then ok (r, [])
      else and_then (traverse (global_id rin) row) (\<lambda>ids. ok (r, length ids # ids))) (sorted_list_of_set (ent_shared c)))
    = ok (map (\<lambda>r. (r, if r = self then [] else ?w c)) (sorted_list_of_set (ent_shared c)))" if c: "c \<in> set ?es" for c
  proof -
    have "traverse (global_id rin) (rows ! ent_offset c) = ok (map ((!) (local2global rin)) (rows ! ent_offset c))"
      using rank_input_row(2)[OF assms c] by (intro global_ids) blast
    then show ?thesis
      using rank_input_row(1)[OF assms c] by simp (rule traverse_ok, simp add: run_def)
  qed
  have "cell_messages self rin = ok ?ms" unfolding cell_messages_def using traverse_ok[of ?es, OF one] by simp
  moreover have "\<forall>m\<in>set ?ms. fst m < n" using users by fastforce
  moreover have "letter self ?ms r = concat (map run (id_rows r rin rows))" for r
  proof -
    have "r = self \<Longrightarrow> id_rows r rin rows = []" using users by (auto simp: id_rows_def filter_empty_conv)
    then show ?thesis using letter_users[of ?es self ?w r] users by (simp add: id_rows_def comp_def)
  qed
  ultimately show ?thesis by blast
qed

lemma read_ghosts_rows:
  assumes "mail = mail_of (map (\<lambda>s. concat (map run (L s))) [0..<n])"
  shows "read_ghosts n rin mail = ok (length (crs_indices (cells2entity rin)) + length (concat (concat (map L [0..<n]))),
    sorted_list_of_set (\<Union>s<n. \<Union> (set ` set (L s))))"
proof -
  let ?f = "\<lambda>ids (counts, potential). ok (counts + length ids, potential @ ids)"
  have seg: "fold_outcome ?f ms (k, pot) = ok (k + length (concat ms), pot @ concat ms)" for ms :: "nat list list" and k pot
    by (induction ms arbitrary: k pot) auto
  have "j \<le> n \<Longrightarrow> fold_outcome (\<lambda>r. read_runs Undefined ?f (received mail r)) [0..<j] (k, [])
      = ok (k + length (concat (concat (map L [0..<j]))), concat (concat (map L [0..<j])))" for j and k :: nat
  proof (induction j)
    case (Suc j)
    have "received mail j = concat (map run (L j))" using Suc.prems assms by simp
    then show ?case using Suc by (simp add: read_runs_rows seg)
  qed simp
  moreover have "set (concat (concat (map L [0..<n]))) = (\<Union>s<n. \<Union> (set ` set (L s)))" by auto
  ultimately show ?thesis by (simp add: read_ghosts_def sorted_unique_def unique_adj_sort)
qed


section \<open>All ranks\<close>

definition entity_world :: "nat \<Rightarrow> entity_input list \<Rightarrow> nat list list list \<Rightarrow> bool" where
  "entity_world n rins rows \<longleftrightarrow> length rins = n \<and> length rows = n \<and> (\<forall>r<n. rank_input n r (rins ! r) (rows ! r))"

text \<open>The entities in shared cells, the entities in ghost cells, the owner and the users of an entity.\<close>

abbreviation in_shared :: "entity_input list \<Rightarrow> nat list list list \<Rightarrow> nat \<Rightarrow> nat set" where
  "in_shared rins rows r \<equiv> shared_ids (rins ! r) (rows ! r)"

definition in_ghost :: "entity_input list \<Rightarrow> nat list list list \<Rightarrow> nat \<Rightarrow> nat set" where
  "in_ghost rins rows r = (\<Union>s<length rins. \<Union> (set ` set (id_rows r (rins ! s) (rows ! s))))"

definition holders :: "entity_input list \<Rightarrow> nat list list list \<Rightarrow> nat \<Rightarrow> nat set" where
  "holders rins rows g = {r. r < length rins \<and> g \<in> in_shared rins rows r}"

definition entity_owner :: "entity_input list \<Rightarrow> nat list list list \<Rightarrow> nat \<Rightarrow> nat" where
  "entity_owner rins rows g = Min (holders rins rows g)"

definition entity_users :: "entity_input list \<Rightarrow> nat list list list \<Rightarrow> nat \<Rightarrow> nat set" where
  "entity_users rins rows g = {q. q < length rins \<and> g \<in> in_ghost rins rows q \<and> entity_owner rins rows g \<noteq> q}"

definition local_of :: "entity_input list \<Rightarrow> nat \<Rightarrow> nat \<Rightarrow> nat" where
  "local_of rins r g = length (takeWhile (\<lambda>x. x \<noteq> g) (local2global (rins ! r)))"

lemma first_position_nth: "distinct xs \<Longrightarrow> i < length xs \<Longrightarrow> length (takeWhile (\<lambda>x. x \<noteq> xs ! i) xs) = i"
proof (induction xs arbitrary: i)
  case (Cons y xs)
  then show ?case by (cases i) auto
qed simp

lemma local_of_nth: "entity_world n rins rows \<Longrightarrow> r < n \<Longrightarrow> i < length (local2global (rins ! r)) \<Longrightarrow>
    local_of rins r (local2global (rins ! r) ! i) = i"
  unfolding local_of_def by (rule first_position_nth) (auto simp: entity_world_def rank_input_def)

lemma holders_finite [simp]: "finite (holders rins rows g)"
  by (simp add: holders_def)

lemma owner_holds: "holders rins rows g \<noteq> {} \<Longrightarrow> entity_owner rins rows g < length rins \<and> g \<in> in_shared rins rows (entity_owner rins rows g)"
  using Min_in[of "holders rins rows g"] by (auto simp: entity_owner_def holders_def)

lemma ghost_held:
  assumes "entity_world n rins rows" "g \<in> in_ghost rins rows q"
  shows "holders rins rows g \<noteq> {}"
proof -
  obtain s row where s: "s < length rins" "row \<in> set (id_rows q (rins ! s) (rows ! s))" "g \<in> set row"
    using assms(2) by (auto simp: in_ghost_def)
  then have "g \<in> in_shared rins rows s" by (auto simp: id_rows_def shared_ids_def shared_locals_def intro!: imageI)
  then show ?thesis using s(1) by (auto simp: holders_def)
qed

lemma shared_used:
  assumes "entity_world n rins rows" "r < n" "g \<in> in_shared rins rows r"
  shows "\<exists>q<n. q \<noteq> r \<and> g \<in> in_ghost rins rows q"
proof -
  have ri: "rank_input n r (rins ! r) (rows ! r)" and n: "length rins = n" using assms by (auto simp: entity_world_def)
  obtain c where c: "c \<in> set (shared (cells (rins ! r)))" "g \<in> (!) (local2global (rins ! r)) ` set (rows ! r ! ent_offset c)"
    using assms(3) by (auto simp: shared_ids_def shared_locals_def)
  then obtain q where q: "q \<in> ent_shared c" "q < n" "q \<noteq> r" using ri unfolding rank_input_def by blast
  have "map ((!) (local2global (rins ! r))) (rows ! r ! ent_offset c) \<in> set (id_rows q (rins ! r) (rows ! r))"
    using c(1) q(1) by (auto simp: id_rows_def)
  then have "g \<in> in_ghost rins rows q" using c(2) assms(2) n by (force simp: in_ghost_def)
  then show ?thesis using q by blast
qed

text \<open>Every id of a rank has a directory rank.\<close>

lemma entity_directory:
  assumes n: "0 < n" "n < 2 ^ 64 - 1" and r: "r < length rins" and g: "g \<in> set (local2global (rins ! r))"
  shows "\<exists>s<n. rank_owner (blocks (fold max (map (\<lambda>rin. fold max (local2global rin) 0) rins) 0 + 1) n) g = ok s"
proof -
  have "g \<le> fold max (local2global (rins ! r)) 0" by (rule fold_max_ge(2)[OF g])
  also have "\<dots> \<le> fold max (map (\<lambda>rin. fold max (local2global rin) 0) rins) 0" using r by (intro fold_max_ge(2)) simp
  finally show ?thesis by (intro blocks_owner[OF n]) simp
qed

lemma shared_ids_l2g: "entity_world n rins rows \<Longrightarrow> r < n \<Longrightarrow> in_shared rins rows r \<subseteq> set (local2global (rins ! r))"
  using shared_locals_bound[of n r "rins ! r" "rows ! r"] by (auto simp: shared_ids_def entity_world_def)

subsection \<open>Reporting\<close>

text \<open>\<open>f\<close> is the directory rank of an id.\<close>

definition directed :: "nat \<Rightarrow> entity_input list \<Rightarrow> nat list list list \<Rightarrow> nat list \<Rightarrow> (nat \<Rightarrow> nat) \<Rightarrow> bool" where
  "directed n rins rows dist f \<longleftrightarrow> (\<forall>r<n. \<forall>g\<in>in_shared rins rows r. rank_owner dist g = ok (f g) \<and> f g < n)"

lemma emplace_is_report:
  assumes "listing loc m A (\<lambda>g. [])" "A g \<subseteq> {r}"
  shows "std_emplace g \<lparr>own_rank = r, own_local = l, ghost_ranks = []\<rparr> m = take_report r g l m"
proof (cases "A g = {}")
  case True
  then have "map_of m g = None" using assms(1) by (simp add: listing_def maps_to_def)
  then show ?thesis by (simp add: std_emplace_def take_report_def)
next
  case False
  then have "A g = {r}" using assms(2) by blast
  then have "map_of m g = Some (entry loc A (\<lambda>g. []) g)" "own_rank (entry loc A (\<lambda>g. []) g) = r"
    using assms(1) by (simp_all add: listing_def maps_to_def entry_def)
  then show ?thesis by (simp add: std_emplace_def take_report_def)
qed

lemma report_own_listing:
  assumes "\<forall>i\<in>set is. i < length (local2global rin) \<and> loc self (local2global rin ! i) = i \<and>
      rank_owner dist (local2global rin ! i) = ok (f (local2global rin ! i))"
  shows "\<exists>m. report_own self dist rin is = ok m \<and>
    listing loc m (\<lambda>g. if f g = self \<and> g \<in> (!) (local2global rin) ` set is then {self} else {}) (\<lambda>g. [])"
proof -
  have "\<exists>m'. fold_outcome (\<lambda>local_id entities2rank. and_then (global_id rin local_id) (\<lambda>g. and_then (rank_owner dist g) (\<lambda>rank.
      ok (if rank \<noteq> self then entities2rank
          else std_emplace g \<lparr>own_rank = rank, own_local = local_id, ghost_ranks = []\<rparr> entities2rank)))) is m = ok m' \<and>
      listing loc m' (\<lambda>g. A g \<union> (if f g = self \<and> g \<in> (!) (local2global rin) ` set is then {self} else {})) (\<lambda>g. [])"
    if "listing loc m A (\<lambda>g. [])" "\<forall>g. A g \<subseteq> {self}" for m A
    using that assms
  proof (induction "is" arbitrary: m A)
    case (Cons i "is")
    let ?g = "local2global rin ! i"
    have i: "i < length (local2global rin)" "loc self ?g = i" "rank_owner dist ?g = ok (f ?g)" using Cons.prems(3) by auto
    show ?case
    proof (cases "f ?g = self")
      case True
      have "std_emplace ?g \<lparr>own_rank = self, own_local = i, ghost_ranks = []\<rparr> m = take_report self ?g (loc self ?g) m"
        using emplace_is_report[OF Cons.prems(1), of ?g self i] Cons.prems(2) i(2) by simp
      moreover have "\<forall>g. (A(?g := insert self (A ?g))) g \<subseteq> {self}" using Cons.prems(2) by auto
      ultimately obtain m' where m': "fold_outcome (\<lambda>local_id entities2rank. and_then (global_id rin local_id) (\<lambda>g. and_then (rank_owner dist g) (\<lambda>rank.
          ok (if rank \<noteq> self then entities2rank
              else std_emplace g \<lparr>own_rank = rank, own_local = local_id, ghost_ranks = []\<rparr> entities2rank)))) is
          (std_emplace ?g \<lparr>own_rank = self, own_local = i, ghost_ranks = []\<rparr> m) = ok m'"
        "listing loc m' (\<lambda>g. (A(?g := insert self (A ?g))) g \<union> (if f g = self \<and> g \<in> (!) (local2global rin) ` set is then {self} else {})) (\<lambda>g. [])"
        using Cons.IH[OF take_report_listing[OF Cons.prems(1), of self ?g]] Cons.prems(3) by auto
      from m'(2) have "listing loc m' (\<lambda>g. A g \<union> (if f g = self \<and> g \<in> (!) (local2global rin) ` set (i # is) then {self} else {})) (\<lambda>g. [])"
        by (rule listing_cong) (use True in auto)
      then show ?thesis using m'(1) i True by (simp add: global_id_def)
    next
      case False
      obtain m' where m': "fold_outcome (\<lambda>local_id entities2rank. and_then (global_id rin local_id) (\<lambda>g. and_then (rank_owner dist g) (\<lambda>rank.
          ok (if rank \<noteq> self then entities2rank
              else std_emplace g \<lparr>own_rank = rank, own_local = local_id, ghost_ranks = []\<rparr> entities2rank)))) is m = ok m'"
        "listing loc m' (\<lambda>g. A g \<union> (if f g = self \<and> g \<in> (!) (local2global rin) ` set is then {self} else {})) (\<lambda>g. [])"
        using Cons.IH[OF Cons.prems(1,2)] Cons.prems(3) by auto
      from m'(2) have "listing loc m' (\<lambda>g. A g \<union> (if f g = self \<and> g \<in> (!) (local2global rin) ` set (i # is) then {self} else {})) (\<lambda>g. [])"
        by (rule listing_cong) (use False in auto)
      then show ?thesis using m'(1) i False by (simp add: global_id_def)
    qed
  qed simp
  from this[of "[]" "\<lambda>g. {}"] show ?thesis by (simp add: report_own_def listing_def)
qed

lemma report_messages_letter:
  assumes "\<forall>i\<in>set is. i < length (local2global rin) \<and> loc self (local2global rin ! i) = i \<and>
      rank_owner dist (local2global rin ! i) = ok (f (local2global rin ! i)) \<and> f (local2global rin ! i) < n"
  shows "\<exists>ms. report_messages dist rin is = ok ms \<and> (\<forall>m\<in>set ms. fst m < n) \<and>
    (\<forall>q. letter self ms q = concat (map (\<lambda>g. [g, loc self g]) (if q = self then [] else filter (\<lambda>g. f g = q) (map ((!) (local2global rin)) is))))"
proof (intro exI conjI allI)
  let ?ms = "map (\<lambda>i. (f (local2global rin ! i), [local2global rin ! i, i])) is"
  show "report_messages dist rin is = ok ?ms"
    unfolding report_messages_def using assms by (intro traverse_ok) (simp add: global_id_def)
  show "\<forall>m\<in>set ?ms. fst m < n" using assms by auto
  have "concat (map snd (filter (\<lambda>m. fst m = q) ?ms)) = concat (map (\<lambda>g. [g, loc self g]) (filter (\<lambda>g. f g = q) (map ((!) (local2global rin)) is)))" for q
    using assms by (induction "is") auto
  then show "letter self ?ms q = concat (map (\<lambda>g. [g, loc self g]) (if q = self then [] else filter (\<lambda>g. f g = q) (map ((!) (local2global rin)) is)))" for q
    by (simp add: letter_def)
qed


lemma round_reports:
  assumes c: "mpi_works n c" and w: "entity_world n rins rows" and d: "directed n rins rows dist f"
  defines "pots \<equiv> \<lambda>r. sorted_list_of_set (shared_locals (rins ! r) (rows ! r))"
  shows "\<exists>messages maps mails maps'. traverse (\<lambda>r. report_messages dist (rins ! r) (pots r)) [0..<n] = ok messages \<and>
    traverse (\<lambda>r. report_own r dist (rins ! r) (pots r)) [0..<n] = ok maps \<and> post c messages = ok mails \<and>
    traverse (\<lambda>r. read_reports n (mails ! r) (maps ! r)) [0..<n] = ok maps' \<and> length maps' = n \<and>
    (\<forall>r<n. listing (local_of rins) (maps' ! r) (\<lambda>g. if f g = r then holders rins rows g else {}) (\<lambda>g. []))"
proof -
  have len: "length rins = n" "length rows = n" and ri: "\<And>r. r < n \<Longrightarrow> rank_input n r (rins ! r) (rows ! r)"
    using w by (auto simp: entity_world_def)
  have fin: "finite (shared_locals (rins ! r) (rows ! r))" for r by (simp add: shared_locals_def)
  have ids: "(!) (local2global (rins ! r)) ` set (pots r) = in_shared rins rows r" for r
    using fin by (simp add: pots_def shared_ids_def)
  have marked: "\<forall>i\<in>set (pots r). i < length (local2global (rins ! r)) \<and> local_of rins r (local2global (rins ! r) ! i) = i \<and>
      rank_owner dist (local2global (rins ! r) ! i) = ok (f (local2global (rins ! r) ! i)) \<and> f (local2global (rins ! r) ! i) < n"
    if r: "r < n" for r
  proof
    fix i assume i: "i \<in> set (pots r)"
    then have "i < length (local2global (rins ! r))" using shared_locals_bound[OF ri[OF r]] fin by (simp add: pots_def)
    moreover have "local2global (rins ! r) ! i \<in> in_shared rins rows r" using i ids by blast
    ultimately show "i < length (local2global (rins ! r)) \<and> local_of rins r (local2global (rins ! r) ! i) = i \<and>
      rank_owner dist (local2global (rins ! r) ! i) = ok (f (local2global (rins ! r) ! i)) \<and> f (local2global (rins ! r) ! i) < n"
      using d r local_of_nth[OF w r] by (simp add: directed_def)
  qed
  have "\<exists>ms. report_messages dist (rins ! r) (pots r) = ok ms \<and> ((\<forall>m\<in>set ms. fst m < n) \<and>
    (\<forall>q. letter r ms q = concat (map (\<lambda>g. [g, local_of rins r g]) (if q = r then [] else filter (\<lambda>g. f g = q) (map ((!) (local2global (rins ! r))) (pots r))))))"
    if "r < n" for r using report_messages_letter[where loc = "local_of rins" and self = r and f = f, OF marked[OF that]] by blast
  from traverse_choice[of n "\<lambda>r. report_messages dist (rins ! r) (pots r)" "\<lambda>r ms. (\<forall>m\<in>set ms. fst m < n) \<and>
    (\<forall>q. letter r ms q = concat (map (\<lambda>g. [g, local_of rins r g]) (if q = r then [] else filter (\<lambda>g. f g = q) (map ((!) (local2global (rins ! r))) (pots r)))))", OF this]
  obtain messages where msgs: "traverse (\<lambda>r. report_messages dist (rins ! r) (pots r)) [0..<n] = ok messages" "length messages = n"
    "\<forall>r<n. (\<forall>m\<in>set (messages ! r). fst m < n) \<and> (\<forall>q. letter r (messages ! r) q = concat (map (\<lambda>g. [g, local_of rins r g])
      (if q = r then [] else filter (\<lambda>g. f g = q) (map ((!) (local2global (rins ! r))) (pots r)))))" by blast
  define L where "L q s = (if q = s then [] else filter (\<lambda>g. f g = q) (map ((!) (local2global (rins ! s))) (pots s)))" for q s
  let ?mails = "map (\<lambda>q. mail_of (map (\<lambda>s. concat (map (\<lambda>g. [g, local_of rins s g]) (L q s))) [0..<n])) [0..<n]"
  have mails: "post c messages = ok ?mails"
    by (rule post_letters[OF c msgs(2)]) (use msgs(3) in \<open>simp_all add: L_def\<close>)
  let ?A = "\<lambda>r g. if f g = r \<and> g \<in> in_shared rins rows r then {r} else {}"
  have "\<exists>m. report_own r dist (rins ! r) (pots r) = ok m \<and> listing (local_of rins) m (?A r) (\<lambda>g. [])" if r: "r < n" for r
  proof -
    have "\<forall>i\<in>set (pots r). i < length (local2global (rins ! r)) \<and> local_of rins r (local2global (rins ! r) ! i) = i \<and>
      rank_owner dist (local2global (rins ! r) ! i) = ok (f (local2global (rins ! r) ! i))" using marked[OF r] by blast
    from report_own_listing[where loc = "local_of rins" and self = r and f = f, OF this] show ?thesis unfolding ids .
  qed
  from traverse_choice[of n "\<lambda>r. report_own r dist (rins ! r) (pots r)" "\<lambda>r m. listing (local_of rins) m (?A r) (\<lambda>g. [])", OF this]
  obtain maps where maps: "traverse (\<lambda>r. report_own r dist (rins ! r) (pots r)) [0..<n] = ok maps"
    "\<forall>r<n. listing (local_of rins) (maps ! r) (?A r) (\<lambda>g. [])" by blast
  have "\<exists>m. read_reports n (?mails ! r) (maps ! r) = ok m \<and>
      listing (local_of rins) m (\<lambda>g. if f g = r then holders rins rows g else {}) (\<lambda>g. [])" if r: "r < n" for r
  proof -
    obtain m where m: "read_reports n (?mails ! r) (maps ! r) = ok m"
      "listing (local_of rins) m (\<lambda>g. ?A r g \<union> {q. q < n \<and> g \<in> set (L r q)}) (\<lambda>g. [])"
      using read_reports_listing[of "local_of rins" "maps ! r" "?A r" "?mails ! r" "L r" n] maps(2) r by auto
    have "g \<in> set (L r q) \<longleftrightarrow> q \<noteq> r \<and> f g = r \<and> g \<in> in_shared rins rows q" for g q
      using ids[of q] by (auto simp: L_def)
    then have "?A r g \<union> {q. q < n \<and> g \<in> set (L r q)} = (if f g = r then holders rins rows g else {})" for g
      using r len by (auto simp: holders_def)
    then show ?thesis using m by simp
  qed
  from traverse_choice[of n "\<lambda>r. read_reports n (?mails ! r) (maps ! r)"
      "\<lambda>r m. listing (local_of rins) m (\<lambda>g. if f g = r then holders rins rows g else {}) (\<lambda>g. [])", OF this]
  obtain maps' where maps': "traverse (\<lambda>r. read_reports n (?mails ! r) (maps ! r)) [0..<n] = ok maps'" "length maps' = n"
    "\<forall>r<n. listing (local_of rins) (maps' ! r) (\<lambda>g. if f g = r then holders rins rows g else {}) (\<lambda>g. [])" by blast
  show ?thesis using msgs(1) maps(1) mails maps' by (intro exI conjI)
qed

subsection \<open>Requesting\<close>

text \<open>The users of an entity in the order in which its directory rank \<open>r\<close> hears of them.\<close>

definition user_list :: "entity_input list \<Rightarrow> nat list list list \<Rightarrow> nat \<Rightarrow> nat \<Rightarrow> nat list" where
  "user_list rins rows r g =
     (if g \<in> in_ghost rins rows r \<and> entity_owner rins rows g \<noteq> r then [r] else []) @
     filter (\<lambda>q. q \<noteq> r \<and> g \<in> in_ghost rins rows q \<and> entity_owner rins rows g \<noteq> q) [0..<length rins]"

lemma user_list_set: "r < length rins \<Longrightarrow> set (user_list rins rows r g) = entity_users rins rows g"
  by (auto simp: user_list_def entity_users_def)

lemma user_list_distinct: "distinct (user_list rins rows r g @ [entity_owner rins rows g])"
  by (auto simp: user_list_def)

lemma round_requests:
  assumes c: "mpi_works n c" and w: "entity_world n rins rows" and d: "directed n rins rows dist f"
    and maps: "length maps = n" "\<forall>r<n. listing (local_of rins) (maps ! r) (\<lambda>g. if f g = r then holders rins rows g else {}) (\<lambda>g. [])"
  defines "gs \<equiv> \<lambda>r. sorted_list_of_set (in_ghost rins rows r)"
  shows "\<exists>messages maps1 mails maps'. traverse (\<lambda>r. request_messages dist (gs r)) [0..<n] = ok messages \<and>
    traverse (\<lambda>r. request_own r dist (gs r) (maps ! r)) [0..<n] = ok maps1 \<and> post c messages = ok mails \<and>
    traverse (\<lambda>r. read_requests n (mails ! r) (maps1 ! r)) [0..<n] = ok maps' \<and> length maps' = n \<and>
    (\<forall>r<n. listing (local_of rins) (maps' ! r) (\<lambda>g. if f g = r then holders rins rows g else {}) (user_list rins rows r))"
proof -
  have len: "length rins = n" using w by (simp add: entity_world_def)
  have fin: "finite (in_ghost rins rows r)" for r by (auto simp: in_ghost_def)
  have setgs: "set (gs r) = in_ghost rins rows r" "distinct (gs r)" for r using fin by (simp_all add: gs_def)
  have own: "rank_owner dist g = ok (f g) \<and> f g < n \<and> holders rins rows g \<noteq> {}" if "g \<in> in_ghost rins rows q" for g q
    using ghost_held[OF w that] d len unfolding directed_def holders_def by blast
  let ?msgs = "map (\<lambda>r. map (\<lambda>g. (f g, [g])) (gs r)) [0..<n]"
  have "request_messages dist (gs r) = ok (map (\<lambda>g. (f g, [g])) (gs r))" for r
    unfolding request_messages_def using own setgs by (intro traverse_ok) auto
  then have msgs: "traverse (\<lambda>r. request_messages dist (gs r)) [0..<n] = ok ?msgs" by (intro traverse_ok) simp
  define L where "L r q = (if r = q then [] else filter (\<lambda>g. f g = r) (gs q))" for r q
  let ?mails = "map (\<lambda>r. mail_of (map (L r) [0..<n])) [0..<n]"
  have lt: "letter s (map (\<lambda>g. (f g, [g])) ys) r = (if r = s then [] else filter (\<lambda>g. f g = r) ys)" for s r ys
    by (induction ys) (auto simp: letter_def)
  have dest: "\<forall>m\<in>set (?msgs ! s). fst m < n" if s: "s < n" for s
  proof
    fix m assume "m \<in> set (?msgs ! s)"
    then obtain g where "m = (f g, [g])" "g \<in> in_ghost rins rows s" using s setgs by auto
    then show "fst m < n" using own by simp
  qed
  have mails: "post c ?msgs = ok ?mails"
    by (rule post_letters[OF c _ dest]) (simp_all add: lt L_def)
  let ?A = "\<lambda>r g. if f g = r then holders rins rows g else {}"
  let ?U = "\<lambda>r g. if g \<in> set (filter (\<lambda>g. f g = r) (gs r)) \<and> Min (?A r g) \<noteq> r then [r] else []"
  have "\<exists>m. request_own r dist (gs r) (maps ! r) = ok m \<and> listing (local_of rins) m (?A r) (?U r)" if r: "r < n" for r
  proof -
    have "fold_outcome (\<lambda>g e. and_then (rank_owner dist g) (\<lambda>rank. if rank \<noteq> r then ok e else take_request rank g e)) ys m
        = fold_outcome (take_request r) (filter (\<lambda>g. f g = r) ys) m" if "set ys \<subseteq> in_ghost rins rows r" for ys m
      using that
    proof (induction ys arbitrary: m)
      case (Cons y ys)
      then have y: "rank_owner dist y = ok (f y)" "set ys \<subseteq> in_ghost rins rows r" using own by auto
      have "fold_outcome (\<lambda>g e. and_then (rank_owner dist g) (\<lambda>rank. if rank \<noteq> r then ok e else take_request rank g e)) ys
        = fold_outcome (take_request r) (filter (\<lambda>g. f g = r) ys)" by (rule ext) (rule Cons.IH[OF y(2)])
      then show ?case using y(1) by simp
    qed simp
    then have "request_own r dist (gs r) (maps ! r) = fold_outcome (take_request r) (filter (\<lambda>g. f g = r) (gs r)) (maps ! r)"
      using setgs by (simp add: request_own_def)
    moreover have dg: "distinct (filter (\<lambda>g. f g = r) (gs r))" "\<forall>g\<in>set (filter (\<lambda>g. f g = r) (gs r)). ?A r g \<noteq> {}"
      using setgs own by auto
    have "listing (local_of rins) (maps ! r) (?A r) (\<lambda>g. [])" using maps(2) r by blast
    from take_requests[OF this dg, of r] calculation show ?thesis by simp
  qed
  from traverse_choice[of n "\<lambda>r. request_own r dist (gs r) (maps ! r)" "\<lambda>r m. listing (local_of rins) m (?A r) (?U r)", OF this]
  obtain maps1 where maps1: "traverse (\<lambda>r. request_own r dist (gs r) (maps ! r)) [0..<n] = ok maps1"
    "\<forall>r<n. listing (local_of rins) (maps1 ! r) (?A r) (?U r)" by blast
  have "\<exists>m. read_requests n (?mails ! r) (maps1 ! r) = ok m \<and> listing (local_of rins) m (?A r) (user_list rins rows r)"
    if r: "r < n" for r
  proof -
    have L: "\<forall>q<n. distinct (L r q) \<and> (\<forall>g\<in>set (L r q). ?A r g \<noteq> {})"
      using own setgs by (auto simp: L_def)
    obtain m where m: "read_requests n (?mails ! r) (maps1 ! r) = ok m"
      "listing (local_of rins) m (?A r) (\<lambda>g. ?U r g @ filter (\<lambda>q. g \<in> set (L r q) \<and> Min (?A r g) \<noteq> q) [0..<n])"
      using read_requests_listing[of "local_of rins" "maps1 ! r" "?A r" "?U r" "?mails ! r" "L r" n] maps1(2) L r by auto
    from m(2) have "listing (local_of rins) m (?A r) (user_list rins rows r)"
    proof (rule listing_cong)
      fix g assume "?A r g \<noteq> {}"
      then have g: "f g = r" by (simp split: if_splits)
      have "filter (\<lambda>q. g \<in> set (L r q) \<and> Min (?A r g) \<noteq> q) [0..<n]
          = filter (\<lambda>q. q \<noteq> r \<and> g \<in> in_ghost rins rows q \<and> entity_owner rins rows g \<noteq> q) [0..<n]"
        using g setgs by (intro filter_cong) (auto simp: L_def entity_owner_def)
      then show "?U r g @ filter (\<lambda>q. g \<in> set (L r q) \<and> Min (?A r g) \<noteq> q) [0..<n] = user_list rins rows r g"
        using g setgs len by (simp add: user_list_def entity_owner_def)
    qed simp
    then show ?thesis using m(1) by blast
  qed
  from traverse_choice[of n "\<lambda>r. read_requests n (?mails ! r) (maps1 ! r)" "\<lambda>r m. listing (local_of rins) m (?A r) (user_list rins rows r)", OF this]
  obtain maps' where "traverse (\<lambda>r. read_requests n (?mails ! r) (maps1 ! r)) [0..<n] = ok maps'" "length maps' = n"
    "\<forall>r<n. listing (local_of rins) (maps' ! r) (?A r) (user_list rins rows r)" by blast
  then show ?thesis using msgs maps1(1) mails by (intro exI conjI)
qed


subsection \<open>Answering\<close>

definition owner_entry :: "entity_input list \<Rightarrow> nat list list list \<Rightarrow> (nat \<Rightarrow> nat) \<Rightarrow> nat \<Rightarrow> owner" where
  "owner_entry rins rows f g = \<lparr>own_rank = entity_owner rins rows g,
     own_local = local_of rins (entity_owner rins rows g) g, ghost_ranks = user_list rins rows (f g) g\<rparr>"

text \<open>The entities a rank knows in the end: those of its directory, its own and its ghosts.\<close>

definition known :: "nat \<Rightarrow> entity_input list \<Rightarrow> nat list list list \<Rightarrow> (nat \<Rightarrow> nat) \<Rightarrow> nat \<Rightarrow> nat set" where
  "known n rins rows f r = {g. holders rins rows g \<noteq> {} \<and> (f g = r \<or> entity_owner rins rows g = r \<or> r \<in> entity_users rins rows g)}"

lemma round_answers:
  assumes c: "mpi_works n c" and w: "entity_world n rins rows" and d: "directed n rins rows dist f"
    and maps: "length maps = n"
      "\<forall>r<n. listing (local_of rins) (maps ! r) (\<lambda>g. if f g = r then holders rins rows g else {}) (user_list rins rows r)"
  shows "\<exists>mails maps'. post c (map answer_messages maps) = ok mails \<and>
    traverse (\<lambda>r. take_answers n (mails ! r) (maps ! r)) [0..<n] = ok maps' \<and> length maps' = n \<and>
    (\<forall>r<n. maps_to (maps' ! r) (known n rins rows f r) (owner_entry rins rows f))"
proof -
  let ?E = "owner_entry rins rows f" and ?K = "\<lambda>r. {g. f g = r \<and> holders rins rows g \<noteq> {}}"
  have len: "length rins = n" using w by (simp add: entity_world_def)
  have at: "maps_to (maps ! r) (?K r) ?E" if "r < n" for r
  proof -
    have l: "maps_to (maps ! r) {g. (if f g = r then holders rins rows g else {}) \<noteq> {}}
        (entry (local_of rins) (\<lambda>g. if f g = r then holders rins rows g else {}) (user_list rins rows r))"
      using maps(2) that by (simp add: listing_def)
    show ?thesis
      by (rule maps_to_cong[OF l]) (auto simp: entry_def owner_entry_def entity_owner_def split: if_splits)
  qed
  have finK: "finite (?K r)" if "r < n" for r by (rule maps_to_finite[OF at[OF that]])
  have fn: "f g < n" if "holders rins rows g \<noteq> {}" for g using that d len by (auto simp: directed_def holders_def)
  define L where "L q s = (if q = s then [] else filter (\<lambda>g. q = entity_owner rins rows g \<or> q \<in> entity_users rins rows g)
    (sorted_list_of_set (?K s)))" for q s
  let ?mails = "map (\<lambda>q. mail_of (map (\<lambda>s. concat (map (\<lambda>g. entry_words (g, ?E g)) (L q s))) [0..<n])) [0..<n]"
  have list: "maps ! s = map (\<lambda>g. (g, ?E g)) (sorted_list_of_set (?K s))" if "s < n" for s by (rule maps_to_list[OF at[OF that]])
  have lett: "letter s (answer_messages (maps ! s)) q = concat (map (\<lambda>g. entry_words (g, ?E g)) (L q s))" if s: "s < n" for q s
  proof -
    have "\<forall>(g, own)\<in>set (maps ! s). distinct (ghost_ranks own @ [own_rank own])"
      using user_list_distinct unfolding list[OF s] by (auto simp: owner_entry_def)
    from letter_answers[OF this, of s q]
    have "letter s (answer_messages (maps ! s)) q = concat (map entry_words (if q = s then []
        else filter (\<lambda>(g, own). q = own_rank own \<or> q \<in> set (ghost_ranks own)) (maps ! s)))" .
    also have "filter (\<lambda>(g, own). q = own_rank own \<or> q \<in> set (ghost_ranks own)) (maps ! s)
        = map (\<lambda>g. (g, ?E g)) (filter (\<lambda>g. q = entity_owner rins rows g \<or> q \<in> entity_users rins rows g) (sorted_list_of_set (?K s)))"
    proof -
      have "filter (\<lambda>x. q = entity_owner rins rows x \<or> q \<in> set (user_list rins rows (f x) x)) (sorted_list_of_set (?K s))
          = filter (\<lambda>g. q = entity_owner rins rows g \<or> q \<in> entity_users rins rows g) (sorted_list_of_set (?K s))"
        using user_list_set[of s rins rows] s len finK[OF s] by (intro filter_cong) auto
      then show ?thesis unfolding list[OF s] by (simp add: filter_map owner_entry_def comp_def)
    qed
    finally show ?thesis by (simp add: L_def comp_def)
  qed
  have dest: "\<forall>m\<in>set (answer_messages (maps ! s)). fst m < n" if s: "s < n" for s
  proof
    fix m assume "m \<in> set (answer_messages (maps ! s))"
    then obtain x where x: "x \<in> set (maps ! s)" "fst m \<in> set (ghost_ranks (snd x)) \<union> {own_rank (snd x)}"
      by (auto simp: answer_messages_def split: prod.splits)
    have "set (maps ! s) = (\<lambda>g. (g, ?E g)) ` ?K s"
      using finK[OF s] unfolding list[OF s] by simp
    with x(1) obtain g where g: "x = (g, ?E g)" "f g = s" "holders rins rows g \<noteq> {}" by blast
    have "fst m \<in> insert (entity_owner rins rows g) (entity_users rins rows g)"
      using x(2) user_list_set[of s rins rows g] s len unfolding g(1) by (simp add: owner_entry_def g(2))
    then show "fst m < n" using owner_holds[of rins rows g] g(3) len by (auto simp: holders_def entity_users_def)
  qed
  have mails: "post c (map answer_messages maps) = ok ?mails"
    by (rule post_letters[OF c]) (use lett dest maps(1) in simp_all)
  have "\<exists>m. take_answers n (?mails ! r) (maps ! r) = ok m \<and> maps_to m (known n rins rows f r) ?E" if r: "r < n" for r
  proof -
    have setL: "set (L r s) = (if r = s then {} else {g \<in> ?K s. r = entity_owner rins rows g \<or> r \<in> entity_users rins rows g})" if "s < n" for s
      using finK[OF that] by (auto simp: L_def)
    have "\<forall>s<n. distinct (L r s) \<and> set (L r s) \<inter> ?K r = {}"
    proof (intro allI impI conjI)
      fix s assume s: "s < n"
      show "distinct (L r s)" using finK[OF s] by (simp add: L_def)
      show "set (L r s) \<inter> ?K r = {}" unfolding setL[OF s] by auto
    qed
    moreover have "\<forall>s<n. \<forall>t<n. s \<noteq> t \<longrightarrow> set (L r s) \<inter> set (L r t) = {}" using setL by auto
    ultimately obtain m where m: "take_answers n (?mails ! r) (maps ! r) = ok m" "maps_to m (?K r \<union> (\<Union>s<n. set (L r s))) ?E"
      using take_answers_maps[OF at[OF r], of "?mails ! r" "L r" n] r by auto
    have "?K r \<union> (\<Union>s<n. set (L r s)) = known n rins rows f r"
    proof (rule set_eqI)
      fix g
      show "g \<in> ?K r \<union> (\<Union>s<n. set (L r s)) \<longleftrightarrow> g \<in> known n rins rows f r"
        using setL fn[of g] by (cases "holders rins rows g = {}") (auto simp: known_def split: if_splits)
    qed
    then show ?thesis using m by auto
  qed
  from traverse_choice[of n "\<lambda>r. take_answers n (?mails ! r) (maps ! r)" "\<lambda>r m. maps_to m (known n rins rows f r) ?E", OF this]
  obtain maps' where "traverse (\<lambda>r. take_answers n (?mails ! r) (maps ! r)) [0..<n] = ok maps'" "length maps' = n"
    "\<forall>r<n. maps_to (maps' ! r) (known n rins rows f r) ?E" by blast
  then show ?thesis using mails by blast
qed

section \<open>The coloring\<close>

abbreviation own_ids :: "entity_input list \<Rightarrow> nat list list list \<Rightarrow> nat \<Rightarrow> nat set" where
  "own_ids rins rows r \<equiv> {g \<in> in_shared rins rows r. entity_owner rins rows g = r}"

abbreviation ghost_of :: "entity_input list \<Rightarrow> nat list list list \<Rightarrow> nat \<Rightarrow> nat set" where
  "ghost_of rins rows r \<equiv> {g \<in> in_ghost rins rows r. entity_owner rins rows g \<noteq> r}"

definition entity_coloring :: "entity_input list \<Rightarrow> nat list list list \<Rightarrow> nat \<Rightarrow> index_coloring" where
  "entity_coloring rins rows r = \<lparr>primary = {},
     exclusive = map (\<lambda>g. make_entity_info g r (local_of rins r g) {})
       (sorted_list_of_set (set (local2global (rins ! r)) - in_shared rins rows r)),
     shared = map (\<lambda>g. make_entity_info g r (local_of rins r g) (entity_users rins rows g)) (sorted_list_of_set (own_ids rins rows r)),
     ghost = map (\<lambda>g. make_entity_info g (entity_owner rins rows g) (local_of rins (entity_owner rins rows g) g) {})
       (sorted_list_of_set (ghost_of rins rows r))\<rparr>"

definition entity_summary :: "entity_input list \<Rightarrow> nat list list list \<Rightarrow> nat \<Rightarrow> coloring_info" where
  "entity_summary rins rows r =
     \<lparr>num_exclusive = card (set (local2global (rins ! r)) - in_shared rins rows r), num_shared = card (own_ids rins rows r),
      num_ghost = card (ghost_of rins rows r), shared_users = \<Union> (entity_users rins rows ` own_ids rins rows r),
      ghost_owners = entity_owner rins rows ` ghost_of rins rows r\<rparr>"

lemma make_info_id [simp]: "ent_id (make_entity_info g r l U) = g"
  by (simp add: make_entity_info_def)

lemma remove_unique_map: "finite A \<Longrightarrow> (\<And>g. ent_id (h g) = g) \<Longrightarrow> remove_unique (map h (sorted_list_of_set A)) = map h (sorted_list_of_set A)"
  by (rule remove_unique_sorted) (simp add: comp_def)

lemma add_exclusive_list:
  "add_exclusive r rin excl ents = ents @ map (\<lambda>i. make_entity_info (local2global rin ! i) r i {})
     (filter (\<lambda>i. excl ! i) [0..<length (local2global rin)])"
proof -
  have "fold (\<lambda>i ents. if excl ! i then ents @ [make_entity_info (local2global rin ! i) r i {}] else ents) xs ents
      = ents @ map (\<lambda>i. make_entity_info (local2global rin ! i) r i {}) (filter (\<lambda>i. excl ! i) xs)" for xs
    by (induction xs arbitrary: ents) auto
  then show ?thesis by (simp add: add_exclusive_def)
qed

lemma remove_unique_ids:
  assumes "distinct (map ent_id xs)" "set xs = h ` A" "finite A" "\<And>g. ent_id (h g) = g"
  shows "remove_unique xs = map h (sorted_list_of_set A)"
proof -
  let ?ys = "sort_key ent_id xs"
  have "sorted (map ent_id ?ys)" "distinct (map ent_id ?ys)"
    using assms(1) by (simp_all add: distinct_map)
  then have "sorted_wrt (<) (map ent_id ?ys)" by (simp add: strict_sorted_iff)
  moreover have "set (map ent_id ?ys) = A" using assms(2,4) by (simp add: image_image)
  ultimately have ids: "map ent_id ?ys = sorted_list_of_set A" by (rule sorted_strict_unique)
  have "?ys = map (\<lambda>y. h (ent_id y)) ?ys"
    using assms(2,4) by (intro map_idI[symmetric]) auto
  also have "\<dots> = map h (sorted_list_of_set A)" unfolding ids[symmetric] by simp
  finally have ys: "?ys = map h (sorted_list_of_set A)" .
  have "distinct ?ys" using \<open>distinct (map ent_id ?ys)\<close> by (simp add: distinct_map)
  then show ?thesis unfolding remove_unique_def ys[symmetric] by (simp add: remdups_adj_distinct)
qed


text \<open>The entities of the map, in the order of their ids, go to the shared and to the ghost list.\<close>

lemma add_entities:
  assumes "\<forall>g\<in>set gs. own_rank (E g) = r \<longrightarrow> ghost_ranks (E g) \<noteq> []"
  shows "fold_outcome (add_entity r potential) (map (\<lambda>g. (g, E g)) gs) (entities, info) =
    (let own = filter (\<lambda>g. own_rank (E g) = r) gs; gh = filter (\<lambda>g. own_rank (E g) \<noteq> r \<and> g \<in> set potential) gs in
     ok (entities\<lparr>shared := shared entities @ map (\<lambda>g. make_entity_info g r (own_local (E g)) (set (ghost_ranks (E g)))) own,
         ghost := ghost entities @ map (\<lambda>g. make_entity_info g (own_rank (E g)) (own_local (E g)) {}) gh\<rparr>,
       info\<lparr>shared_users := shared_users info \<union> (\<Union>g\<in>set own. set (ghost_ranks (E g))),
         ghost_owners := ghost_owners info \<union> (\<lambda>g. own_rank (E g)) ` set gh\<rparr>))"
  using assms
proof (induction gs arbitrary: entities info)
  case (Cons g gs)
  have IH: "\<forall>g\<in>set gs. own_rank (E g) = r \<longrightarrow> ghost_ranks (E g) \<noteq> []" using Cons.prems by simp
  show ?case
  proof (cases "own_rank (E g) = r")
    case True
    then have "ghost_ranks (E g) \<noteq> []" using Cons.prems by simp
    then have "add_entity r potential (g, E g) (entities, info)
        = ok (entities\<lparr>shared := shared entities @ [make_entity_info g r (own_local (E g)) (set (ghost_ranks (E g)))]\<rparr>,
            info\<lparr>shared_users := shared_users info \<union> set (ghost_ranks (E g))\<rparr>)"
      using True by (simp add: add_entity_def)
    then show ?thesis using True by (simp add: Cons.IH[OF IH] Let_def Un_assoc)
  next
    case False
    then show ?thesis
    proof (cases "g \<in> set potential")
      case True
      with False have "add_entity r potential (g, E g) (entities, info)
          = ok (entities\<lparr>ghost := ghost entities @ [make_entity_info g (own_rank (E g)) (own_local (E g)) {}]\<rparr>,
              info\<lparr>ghost_owners := insert (own_rank (E g)) (ghost_owners info)\<rparr>)"
        by (simp add: add_entity_def)
      then show ?thesis using True False by (simp add: Cons.IH[OF IH] Let_def)
    next
      case no: False
      with False have "add_entity r potential (g, E g) (entities, info) = ok (entities, info)"
        by (simp add: add_entity_def)
      then show ?thesis using no False by (simp add: Cons.IH[OF IH] Let_def)
    qed
  qed
qed (simp add: Let_def)

lemma finish_rank:
  assumes w: "entity_world n rins rows" and r: "r < n"
    and m: "maps_to m (known n rins rows f r) (owner_entry rins rows f)"
    and fn: "\<forall>g. holders rins rows g \<noteq> {} \<longrightarrow> f g < n"
  shows "finish_entities r (rins ! r) (map (\<lambda>i. i \<notin> shared_locals (rins ! r) (rows ! r)) [0..<length (local2global (rins ! r))])
      (sorted_list_of_set (in_ghost rins rows r)) m (no_entities, info\<lparr>shared_users := {}, ghost_owners := {}\<rparr>)
    = ok (entity_coloring rins rows r, entity_summary rins rows r)"
proof -
  let ?E = "owner_entry rins rows f" and ?l2g = "local2global (rins ! r)" and ?S = "shared_locals (rins ! r) (rows ! r)"
  have len: "length rins = n" and dl: "distinct ?l2g" using w r by (auto simp: entity_world_def rank_input_def)
  have fin: "finite (known n rins rows f r)" by (rule maps_to_finite[OF m])
  have fing: "finite (in_ghost rins rows r)" by (auto simp: in_ghost_def)
  let ?gs = "sorted_list_of_set (known n rins rows f r)"
  have users: "set (ghost_ranks (?E g)) = entity_users rins rows g" if "holders rins rows g \<noteq> {}" for g
    using user_list_set[of "f g" rins rows g] fn that len by (simp add: owner_entry_def)
  have own: "{g \<in> known n rins rows f r. own_rank (?E g) = r} = own_ids rins rows r"
    using owner_holds r len by (auto simp: known_def owner_entry_def holders_def)
  have gh: "{g \<in> known n rins rows f r. own_rank (?E g) \<noteq> r \<and> g \<in> in_ghost rins rows r} = ghost_of rins rows r"
    using ghost_held[OF w] r len by (auto simp: known_def owner_entry_def entity_users_def)
  have used: "entity_users rins rows g \<noteq> {}" if "g \<in> own_ids rins rows r" for g
    using shared_used[OF w r, of g] that len by (auto simp: entity_users_def)
  have nonempty: "\<forall>g\<in>set ?gs. own_rank (?E g) = r \<longrightarrow> ghost_ranks (?E g) \<noteq> []"
  proof (intro ballI impI)
    fix g assume g: "g \<in> set ?gs" "own_rank (?E g) = r"
    then have "g \<in> own_ids rins rows r" "holders rins rows g \<noteq> {}" using own fin by (auto simp: known_def)
    then have "set (ghost_ranks (?E g)) \<noteq> {}" using used users by simp
    then show "ghost_ranks (?E g) \<noteq> []" by simp
  qed
  have sorted_own: "filter (\<lambda>g. own_rank (?E g) = r) ?gs = sorted_list_of_set (own_ids rins rows r)"
    unfolding filter_sorted_list[OF fin] own ..
  have sorted_gh: "filter (\<lambda>g. own_rank (?E g) \<noteq> r \<and> g \<in> in_ghost rins rows r) ?gs = sorted_list_of_set (ghost_of rins rows r)"
    unfolding filter_sorted_list[OF fin] gh ..
  have fo: "finite (own_ids rins rows r)" "finite (ghost_of rins rows r)" using fing by (simp_all add: shared_ids_def shared_locals_def)
  have ml: "m = map (\<lambda>g. (g, ?E g)) ?gs" by (rule maps_to_list[OF m])
  have excl: "remove_unique (add_exclusive r (rins ! r) (map (\<lambda>i. i \<notin> ?S) [0..<length ?l2g]) [])
      = map (\<lambda>g. make_entity_info g r (local_of rins r g) {}) (sorted_list_of_set (set ?l2g - in_shared rins rows r))"
  proof (rule remove_unique_ids)
    let ?is = "filter (\<lambda>i. i \<notin> ?S) [0..<length ?l2g]"
    have list: "add_exclusive r (rins ! r) (map (\<lambda>i. i \<notin> ?S) [0..<length ?l2g]) []
        = map (\<lambda>i. make_entity_info (?l2g ! i) r i {}) ?is"
      unfolding add_exclusive_list by (auto intro!: arg_cong[where f = "map _"] filter_cong)
    have inj: "inj_on ((!) ?l2g) (set ?is)" using dl by (auto simp: inj_on_def nth_eq_iff_index_eq)
    show "distinct (map ent_id (add_exclusive r (rins ! r) (map (\<lambda>i. i \<notin> ?S) [0..<length ?l2g]) []))"
      using inj unfolding list by (simp add: comp_def distinct_map)
    have sh: "?l2g ! i \<in> in_shared rins rows r \<longleftrightarrow> i \<in> ?S" if "i < length ?l2g" for i
    proof
      assume "?l2g ! i \<in> in_shared rins rows r"
      then obtain j where "j \<in> ?S" "?l2g ! j = ?l2g ! i" by (auto simp: shared_ids_def)
      moreover from this(1) have "j < length ?l2g" using shared_locals_bound w r by (auto simp: entity_world_def)
      ultimately show "i \<in> ?S" using dl that by (simp add: nth_eq_iff_index_eq)
    qed (auto simp: shared_ids_def)
    show "set (add_exclusive r (rins ! r) (map (\<lambda>i. i \<notin> ?S) [0..<length ?l2g]) [])
        = (\<lambda>g. make_entity_info g r (local_of rins r g) {}) ` (set ?l2g - in_shared rins rows r)"
    proof -
      have "set ?l2g - in_shared rins rows r = (!) ?l2g ` set ?is"
        using sh by (auto simp: in_set_conv_nth)
      then have "(\<lambda>g. make_entity_info g r (local_of rins r g) {}) ` (set ?l2g - in_shared rins rows r)
          = (\<lambda>i. make_entity_info (?l2g ! i) r (local_of rins r (?l2g ! i)) {}) ` set ?is" by (simp add: image_image)
      also have "\<dots> = (\<lambda>i. make_entity_info (?l2g ! i) r i {}) ` set ?is"
        using local_of_nth[OF w r] by (intro image_cong) auto
      finally show ?thesis unfolding list by simp
    qed
  qed simp_all
  have held: "holders rins rows g \<noteq> {}" if "g \<in> own_ids rins rows r" for g using that r len by (auto simp: holders_def)
  then have us: "(\<Union>g\<in>own_ids rins rows r. set (ghost_ranks (?E g))) = \<Union> (entity_users rins rows ` own_ids rins rows r)"
    using users by auto
  have ish: "map (\<lambda>g. make_entity_info g r (own_local (?E g)) (set (ghost_ranks (?E g)))) (sorted_list_of_set (own_ids rins rows r))
      = map (\<lambda>g. make_entity_info g r (local_of rins r g) (entity_users rins rows g)) (sorted_list_of_set (own_ids rins rows r))"
  proof (rule map_cong[OF refl])
    fix g assume "g \<in> set (sorted_list_of_set (own_ids rins rows r))"
    then have "g \<in> own_ids rins rows r" using fo by simp
    moreover from this have "holders rins rows g \<noteq> {}" using held by simp
    ultimately show "make_entity_info g r (own_local (?E g)) (set (ghost_ranks (?E g)))
        = make_entity_info g r (local_of rins r g) (entity_users rins rows g)"
      using users by (simp add: owner_entry_def)
  qed
  have igh: "map (\<lambda>g. make_entity_info g (own_rank (?E g)) (own_local (?E g)) {}) (sorted_list_of_set (ghost_of rins rows r))
      = map (\<lambda>g. make_entity_info g (entity_owner rins rows g) (local_of rins (entity_owner rins rows g) g) {}) (sorted_list_of_set (ghost_of rins rows r))"
    by (simp add: owner_entry_def)
  have ow: "(\<lambda>g. own_rank (?E g)) ` ghost_of rins rows r = entity_owner rins rows ` ghost_of rins rows r"
    by (simp add: owner_entry_def)
  have pot: "set (sorted_list_of_set (in_ghost rins rows r)) = in_ghost rins rows r" using fing by simp
  show ?thesis
    unfolding finish_entities_def ml prod.case no_entities_def index_coloring.simps excl
    using fo remove_unique_map[of "own_ids rins rows r" "\<lambda>g. make_entity_info g r (local_of rins r g) (entity_users rins rows g)"]
      remove_unique_map[of "ghost_of rins rows r" "\<lambda>g. make_entity_info g (entity_owner rins rows g) (local_of rins (entity_owner rins rows g) g) {}"]
    by (cases info) (simp add: add_entities[OF nonempty] pot sorted_own sorted_gh us ish igh ow Let_def entity_coloring_def entity_summary_def)
qed

definition ghost_count :: "entity_input list \<Rightarrow> nat list list list \<Rightarrow> nat \<Rightarrow> nat" where
  "ghost_count rins rows r = length (crs_indices (cells2entity (rins ! r))) +
     length (concat (concat (map (\<lambda>s. id_rows r (rins ! s) (rows ! s)) [0..<length rins])))"

lemma color_entities_ranks:
  assumes c: "mpi_works n c" and n: "0 < n" "n < 2 ^ 64 - 1" and w: "entity_world n rins rows"
    and outs: "\<forall>r<n. outs ! r = (no_entities, infos r\<lparr>shared_users := {}, ghost_owners := {}\<rparr>)"
  shows "color_entities c rins outs
    = ok (map (\<lambda>r. ((entity_coloring rins rows r, entity_summary rins rows r), ghost_count rins rows r)) [0..<n])"
proof -
  let ?max = "fold max (map (\<lambda>rin. fold max (local2global rin) 0) rins) 0"
  let ?dist = "blocks (?max + 1) n"
  define f where "f g = (case rank_owner ?dist g of Inr r \<Rightarrow> r | Inl e \<Rightarrow> 0)" for g
  have len: "length rins = n" and ri: "\<And>r. r < n \<Longrightarrow> rank_input n r (rins ! r) (rows ! r)"
    using w by (auto simp: entity_world_def)
  have d: "directed n rins rows ?dist f"
    unfolding directed_def
  proof (intro allI impI ballI)
    fix r g assume "r < n" "g \<in> in_shared rins rows r"
    then obtain s where "s < n" "rank_owner ?dist g = ok s"
      using shared_ids_l2g[OF w] entity_directory[OF n] len by blast
    then show "rank_owner ?dist g = ok (f g) \<and> f g < n" by (simp add: f_def)
  qed
  have fn: "\<forall>g. holders rins rows g \<noteq> {} \<longrightarrow> f g < n" using d len by (auto simp: directed_def holders_def)
  have maxes: "mpi_allreduce_max c (map (\<lambda>rin. fold max (local2global rin) 0) rins) = replicate n ?max"
    using c len by (simp add: mpi_works_def)
  have tot: "(?max + 1) mod 2 ^ 64 = ?max + 1"
    using ri len unfolding rank_input_def by (intro largest_id_succ) (metis in_set_conv_nth)
  have dists: "traverse (\<lambda>r. subdivide ((replicate n ?max ! r + 1) mod 2 ^ 64) n []) [0..<n] = ok (map (\<lambda>r. ?dist) [0..<n])"
    using subdivide_blocks[OF n(1), of "?max + 1"] tot by (intro traverse_ok) simp
  note dists = dists[unfolded map_replicate_const length_upt diff_zero]
  let ?excl = "\<lambda>r. map (\<lambda>i. i \<notin> shared_locals (rins ! r) (rows ! r)) [0..<length (local2global (rins ! r))]"
  let ?pots = "\<lambda>r. sorted_list_of_set (shared_locals (rins ! r) (rows ! r))"
  let ?gs = "\<lambda>r. sorted_list_of_set (in_ghost rins rows r)"
  let ?marks = "map (\<lambda>r. (?excl r, ?pots r)) [0..<n]"
  let ?ghosts = "map (\<lambda>r. (ghost_count rins rows r, ?gs r)) [0..<n]"
  have marks: "traverse (\<lambda>r. find_shared (rins ! r)) [0..<n] = ok ?marks"
    using find_shared_marks[OF ri] by (intro traverse_ok) simp
  have "\<exists>ms. cell_messages r (rins ! r) = ok ms \<and> ((\<forall>m\<in>set ms. fst m < n) \<and>
      (\<forall>q. letter r ms q = concat (map run (id_rows q (rins ! r) (rows ! r)))))" if "r < n" for r
    using cell_messages_rows[OF ri[OF that]] by blast
  from traverse_choice[of n "\<lambda>r. cell_messages r (rins ! r)" "\<lambda>r ms. (\<forall>m\<in>set ms. fst m < n) \<and>
      (\<forall>q. letter r ms q = concat (map run (id_rows q (rins ! r) (rows ! r))))", OF this]
  obtain ms0 where ms0: "traverse (\<lambda>r. cell_messages r (rins ! r)) [0..<n] = ok ms0" "length ms0 = n"
    "\<forall>r<n. (\<forall>m\<in>set (ms0 ! r). fst m < n) \<and> (\<forall>q. letter r (ms0 ! r) q = concat (map run (id_rows q (rins ! r) (rows ! r))))"
    by blast
  let ?mails = "map (\<lambda>q. mail_of (map (\<lambda>s. concat (map run (id_rows q (rins ! s) (rows ! s)))) [0..<n])) [0..<n]"
  have mails: "post c ms0 = ok ?mails"
    by (rule post_letters[OF c ms0(2)]) (use ms0(3) in simp_all)
  have ghosts: "traverse (\<lambda>r. read_ghosts n (rins ! r) (?mails ! r)) [0..<n] = ok ?ghosts"
    by (intro traverse_ok) (simp add: read_ghosts_rows ghost_count_def in_ghost_def len)
  from round_reports[OF c w d] obtain ms1 maps1 mails1 maps2 where
    r1: "traverse (\<lambda>r. report_messages ?dist (rins ! r) (?pots r)) [0..<n] = ok ms1"
      "traverse (\<lambda>r. report_own r ?dist (rins ! r) (?pots r)) [0..<n] = ok maps1" "post c ms1 = ok mails1"
      "traverse (\<lambda>r. read_reports n (mails1 ! r) (maps1 ! r)) [0..<n] = ok maps2" and
    l2: "length maps2 = n" "\<forall>r<n. listing (local_of rins) (maps2 ! r) (\<lambda>g. if f g = r then holders rins rows g else {}) (\<lambda>g. [])"
    by (elim exE conjE)
  from round_requests[OF c w d l2] obtain ms2 maps3 mails2 maps4 where
    r2: "traverse (\<lambda>r. request_messages ?dist (?gs r)) [0..<n] = ok ms2"
      "traverse (\<lambda>r. request_own r ?dist (?gs r) (maps2 ! r)) [0..<n] = ok maps3" "post c ms2 = ok mails2"
      "traverse (\<lambda>r. read_requests n (mails2 ! r) (maps3 ! r)) [0..<n] = ok maps4" and
    l4: "length maps4 = n" "\<forall>r<n. listing (local_of rins) (maps4 ! r) (\<lambda>g. if f g = r then holders rins rows g else {}) (user_list rins rows r)"
    by (elim exE conjE)
  from round_answers[OF c w d l4] obtain mails3 maps5 where
    r3: "post c (map answer_messages maps4) = ok mails3"
      "traverse (\<lambda>r. take_answers n (mails3 ! r) (maps4 ! r)) [0..<n] = ok maps5" and
    l5: "length maps5 = n" "\<forall>r<n. maps_to (maps5 ! r) (known n rins rows f r) (owner_entry rins rows f)"
    by (elim exE conjE)
  have seen: "traverse (\<lambda>r. report_messages (replicate n ?dist ! r) (rins ! r) (snd (?marks ! r))) [0..<n] = ok ms1"
    "traverse (\<lambda>r. report_own r (replicate n ?dist ! r) (rins ! r) (snd (?marks ! r))) [0..<n] = ok maps1"
    "traverse (\<lambda>r. request_messages (replicate n ?dist ! r) (snd (?ghosts ! r))) [0..<n] = ok ms2"
    "traverse (\<lambda>r. request_own r (replicate n ?dist ! r) (snd (?ghosts ! r)) (maps2 ! r)) [0..<n] = ok maps3"
    unfolding r1(1,2)[symmetric] r2(1,2)[symmetric] by (rule traverse_cong; simp)+
  have "traverse (\<lambda>r. and_then (finish_entities r (rins ! r) (fst (?marks ! r)) (snd (?ghosts ! r)) (maps5 ! r) (outs ! r))
      (\<lambda>result. ok (result, fst (?ghosts ! r)))) [0..<n]
    = ok (map (\<lambda>r. ((entity_coloring rins rows r, entity_summary rins rows r), ghost_count rins rows r)) [0..<n])"
  proof (rule traverse_ok)
    fix r assume "r \<in> set [0..<n]"
    then have r: "r < n" by simp
    have m: "maps_to (maps5 ! r) (known n rins rows f r) (owner_entry rins rows f)" using l5 r by simp
    show "and_then (finish_entities r (rins ! r) (fst (?marks ! r)) (snd (?ghosts ! r)) (maps5 ! r) (outs ! r))
        (\<lambda>result. ok (result, fst (?ghosts ! r)))
      = ok ((entity_coloring rins rows r, entity_summary rins rows r), ghost_count rins rows r)"
      using finish_rank[OF w r m fn, of "infos r"] outs r by simp
  qed
  then show ?thesis
    unfolding color_entities_def Let_def len maxes marks ms0(1) mails ghosts dists and_then.simps seen r1(3,4) r2(3,4) r3 .
qed

text \<open>The lists of the coloring, with ranks and local ids that fit into 32 bits.\<close>

definition fits :: "nat \<Rightarrow> entity_input list \<Rightarrow> bool" where
  "fits n rins \<longleftrightarrow> n \<le> 2 ^ 32 \<and> (\<forall>rin\<in>set rins. length (local2global rin) \<le> 2 ^ 32)"

lemma local_of_fits:
  assumes "entity_world n rins rows" "fits n rins" "r < n" "g \<in> set (local2global (rins ! r))"
  shows "local2global (rins ! r) ! local_of rins r g = g" "u32_wrap (local_of rins r g) = local_of rins r g"
proof -
  obtain i where i: "i < length (local2global (rins ! r))" "g = local2global (rins ! r) ! i" using assms(4) by (auto simp: in_set_conv_nth)
  have l: "local_of rins r g = i" using local_of_nth[OF assms(1,3) i(1)] i(2) by simp
  have "length rins = n" using assms(1) by (simp add: entity_world_def)
  then have "length (local2global (rins ! r)) \<le> 2 ^ 32" using assms(2,3) by (simp add: fits_def)
  then show "local2global (rins ! r) ! local_of rins r g = g" "u32_wrap (local_of rins r g) = local_of rins r g"
    using i l by (simp_all add: u32_wrap_def)
qed

lemma rank_fits: "fits n rins \<Longrightarrow> r < n \<Longrightarrow> u32_wrap r = r"
  by (simp add: fits_def u32_wrap_def)

lemma users_fit: "fits n rins \<Longrightarrow> length rins = n \<Longrightarrow> u32_wrap ` entity_users rins rows g = entity_users rins rows g"
  using rank_fits[of n rins] by (force simp: entity_users_def)

lemma entity_lists:
  assumes w: "entity_world n rins rows" and fits: "fits n rins" and r: "r < n"
  shows "set (exclusive (entity_coloring rins rows r)) =
      (\<lambda>g. \<lparr>ent_id = g, ent_rank = r, ent_offset = local_of rins r g, ent_shared = {}\<rparr>) `
        (set (local2global (rins ! r)) - in_shared rins rows r)"
    and "set (shared (entity_coloring rins rows r)) =
      (\<lambda>g. \<lparr>ent_id = g, ent_rank = r, ent_offset = local_of rins r g, ent_shared = entity_users rins rows g\<rparr>) ` own_ids rins rows r"
    and "set (ghost (entity_coloring rins rows r)) =
      (\<lambda>g. \<lparr>ent_id = g, ent_rank = entity_owner rins rows g,
        ent_offset = local_of rins (entity_owner rins rows g) g, ent_shared = {}\<rparr>) ` ghost_of rins rows r"
proof -
  have len: "length rins = n" using w by (simp add: entity_world_def)
  have sub: "\<And>q. q < n \<Longrightarrow> in_shared rins rows q \<subseteq> set (local2global (rins ! q))" by (rule shared_ids_l2g[OF w])
  have fin: "finite (set (local2global (rins ! r)) - in_shared rins rows r)" "finite (own_ids rins rows r)" "finite (ghost_of rins rows r)"
    by (auto simp: shared_ids_def shared_locals_def in_ghost_def)
  show "set (exclusive (entity_coloring rins rows r)) =
      (\<lambda>g. \<lparr>ent_id = g, ent_rank = r, ent_offset = local_of rins r g, ent_shared = {}\<rparr>) `
        (set (local2global (rins ! r)) - in_shared rins rows r)"
    using fin local_of_fits(2)[OF w fits r] rank_fits[OF fits r]
    by (auto simp: entity_coloring_def make_entity_info_def intro!: image_cong)
  show "set (shared (entity_coloring rins rows r)) =
      (\<lambda>g. \<lparr>ent_id = g, ent_rank = r, ent_offset = local_of rins r g, ent_shared = entity_users rins rows g\<rparr>) ` own_ids rins rows r"
    using fin sub[OF r] local_of_fits(2)[OF w fits r] rank_fits[OF fits r] users_fit[OF fits len, of rows]
    by (auto simp: entity_coloring_def make_entity_info_def intro!: image_cong)
  have "u32_wrap (entity_owner rins rows g) = entity_owner rins rows g \<and>
      u32_wrap (local_of rins (entity_owner rins rows g) g) = local_of rins (entity_owner rins rows g) g"
    if "g \<in> in_ghost rins rows r" for g
  proof -
    have "entity_owner rins rows g < n" "g \<in> in_shared rins rows (entity_owner rins rows g)"
      using owner_holds ghost_held[OF w that] len by blast+
    then show ?thesis using rank_fits[OF fits] local_of_fits(2)[OF w fits] sub by blast
  qed
  then show "set (ghost (entity_coloring rins rows r)) =
      (\<lambda>g. \<lparr>ent_id = g, ent_rank = entity_owner rins rows g,
        ent_offset = local_of rins (entity_owner rins rows g) g, ent_shared = {}\<rparr>) ` ghost_of rins rows r"
    using fin by (auto simp: entity_coloring_def make_entity_info_def intro!: image_cong)
qed

text \<open>Every entity has one rank that has it as exclusive or shared.\<close>

lemma one_owner:
  assumes w: "entity_world n rins rows"
    and both: "\<forall>r<n. \<forall>q<n. r \<noteq> q \<longrightarrow> set (local2global (rins ! r)) \<inter> set (local2global (rins ! q)) \<subseteq> in_shared rins rows r"
    and r: "r < n" and g: "g \<in> set (local2global (rins ! r))"
  shows "\<exists>!q. q < n \<and> g \<in> (set (local2global (rins ! q)) - in_shared rins rows q) \<union> own_ids rins rows q"
proof -
  have len: "length rins = n" using w by (simp add: entity_world_def)
  have sub: "\<And>q. q < n \<Longrightarrow> in_shared rins rows q \<subseteq> set (local2global (rins ! q))" by (rule shared_ids_l2g[OF w])
  show ?thesis
  proof (cases "g \<in> in_shared rins rows r")
    case True
    then have "holders rins rows g \<noteq> {}" using r len by (auto simp: holders_def)
    then have o: "entity_owner rins rows g < n" "g \<in> in_shared rins rows (entity_owner rins rows g)" using owner_holds len by blast+
    show ?thesis
    proof (rule ex1I[of _ "entity_owner rins rows g"])
      fix q assume "q < n \<and> g \<in> (set (local2global (rins ! q)) - in_shared rins rows q) \<union> own_ids rins rows q"
      moreover have "g \<in> in_shared rins rows q" if "q < n" "g \<in> set (local2global (rins ! q))"
        using True both r sub[OF r] g that by (cases "q = r") blast+
      ultimately show "q = entity_owner rins rows g" by blast
    qed (use o in simp)
  next
    case False
    show ?thesis
    proof (rule ex1I[of _ r])
      fix q assume "q < n \<and> g \<in> (set (local2global (rins ! q)) - in_shared rins rows q) \<union> own_ids rins rows q"
      then show "q = r" using False both r g sub by blast
    qed (use False r g in simp)
  qed
qed



end
