(* ===== verification/Colored_Fields.thy ===== *)
theory Colored_Fields
  imports Entity_Coloring Ghost_Exchange
begin

text \<open>
  The way from a coloring to current ghosts: the lists \<open>get_owner_info\<close> and \<open>color_entities\<close> make on the ranks
  agree, so \<open>remap_shared_entities\<close> turns them into lists a field can be laid out by, and the exchange of such a field
  brings the values of the owners, entity by entity.
\<close>

section \<open>The colorings agree\<close>

lemma entity_colorings_agree:
  assumes w: "entity_world n rins rows" and fits: "fits n rins"
    and int: "\<forall>rin\<in>set rins. length (local2global rin) < 2 ^ 31"
  shows "halo_agrees n (map (entity_coloring rins rows) [0..<n])"
proof -
  let ?c = "entity_coloring rins rows"
  have len: "length rins = n" using w by (simp add: entity_world_def)
  have go: "entity_owner rins rows g < n \<and> g \<in> in_shared rins rows (entity_owner rins rows g)"
    if "g \<in> in_ghost rins rows r" for g r
    using owner_holds ghost_held[OF w that] len by blast
  have fin: "finite (own_ids rins rows r)" "finite (ghost_of rins rows r)" for r
    by (auto simp: shared_ids_def shared_locals_def in_ghost_def)
  have ids: "map ent_id (shared (?c r)) = sorted_list_of_set (own_ids rins rows r)"
    "map ent_id (ghost (?c r)) = sorted_list_of_set (ghost_of rins rows r)" for r
    by (simp_all add: entity_coloring_def comp_def make_entity_info_def)
  have few: "length (shared (?c r)) < 2 ^ 31" if r: "r < n" for r
  proof -
    have "card (own_ids rins rows r) \<le> card (set (local2global (rins ! r)))"
      using shared_ids_l2g[OF w r] by (intro card_mono) auto
    also have "\<dots> \<le> length (local2global (rins ! r))" by (rule card_length)
    also have "\<dots> < 2 ^ 31" using int r len by simp
    finally show ?thesis by (simp add: entity_coloring_def)
  qed
  have users: "\<forall>e\<in>set (shared (?c r)). ent_shared e \<subseteq> {..<n} - {r}" if r: "r < n" for r
    using len unfolding entity_lists(2)[OF w fits r] by (auto simp: entity_users_def)
  have owners: "\<forall>e\<in>set (ghost (?c r)). ent_rank e < n" if r: "r < n" for r
    using go unfolding entity_lists(3)[OF w fits r] by auto
  have same: "(\<exists>e\<in>set (ghost (?c r)). ent_id e = g \<and> ent_rank e = q) \<longleftrightarrow>
      (\<exists>e\<in>set (shared (?c q)). ent_id e = g \<and> r \<in> ent_shared e)" if r: "r < n" and q: "q < n" for r q g
    using go[of _ r] r len unfolding entity_lists[OF w fits r] entity_lists[OF w fits q] by (auto simp: entity_users_def)
  have "n \<le> 2 ^ 32" using fits by (simp add: fits_def)
  then show ?thesis
    using few users owners same by (simp add: halo_agrees_def ids strict_sorted_list_of_set)
qed

lemma owner_colorings_agree:
  assumes g: "rank_graph rows" "symmetric_graph rows" and int: "\<forall>cells\<in>set rows. length cells < 2 ^ 31"
  shows "halo_agrees (length rows) (map (\<lambda>r. owner_coloring (dist_of rows) r (rows ! r)) [0..<length rows])"
proof -
  let ?c = "\<lambda>r. owner_coloring (dist_of rows) r (rows ! r)" and ?n = "length rows"
  have n: "?n < 2 ^ 32" "length (concat rows) < 2 ^ 32" using g(1) by (simp_all add: rank_graph_def)
  have ranks: "rank_of (dist_of rows) x < ?n" if "r < ?n" "l < length (rows ! r)" "x \<in> set (rows ! r ! l)" for r l x
    using rank_of_dist[OF rank_graph_bound[OF g(1) that]] n(1) by simp
  have users: "ent_shared e \<subseteq> {..<?n} - {r}" if r: "r < ?n" and e: "e \<in> set (shared (?c r))" for r e
  proof
    fix q assume "q \<in> ent_shared e"
    then have "\<exists>e'\<in>set (shared (?c r)). ent_id e' = ent_id e \<and> q \<in> ent_shared e'" using e by blast
    then obtain l x where "q \<noteq> r" "l < length (rows ! r)" "x \<in> set (rows ! r ! l)" "rank_of (dist_of rows) x = q"
      unfolding shared_of_rank[OF g(1) r] by blast
    then show "q \<in> {..<?n} - {r}" using ranks[OF r] by blast
  qed
  have owners: "ent_rank e < ?n" if r: "r < ?n" and e: "e \<in> set (ghost (?c r))" for r e
  proof -
    have "\<exists>e'\<in>set (ghost (?c r)). ent_id e' = ent_id e \<and> ent_rank e' = ent_rank e" using e by blast
    then obtain l where "rank_of (dist_of rows) (ent_id e) = ent_rank e" "l < length (rows ! r)" "ent_id e \<in> set (rows ! r ! l)"
      unfolding ghost_of_rank[OF g(1) r] by blast
    then show ?thesis using ranks[OF r] by metis
  qed
  have few: "length (shared (?c r)) < 2 ^ 31" if r: "r < ?n" for r
  proof -
    have "length (shared (?c r)) \<le> length (rows ! r)"
      using length_filter_le[of "\<lambda>l. users (dist_of rows) r (rows ! r ! l) \<noteq> {}" "[0..<length (rows ! r)]"]
      by (simp add: owner_coloring_def own_entities_def)
    then show ?thesis using int r nth_mem[OF r] by (meson le_less_trans)
  qed
  have sorted: "sorted_wrt (<) (map ent_id (shared (?c r)))" "sorted_wrt (<) (map ent_id (ghost (?c r)))" for r
    by (simp_all add: owner_coloring_def own_entities_sorted comp_def strict_sorted_list_of_set)
  show ?thesis
    using users owners few sorted ghost_iff_shared[OF g] n(1) by (simp add: halo_agrees_def)
qed

section \<open>Fields over agreeing colorings\<close>

text \<open>Every ghost has the value its owner has for the entity of the same id.\<close>

definition ghost_values_agree :: "nat \<Rightarrow> index_coloring list \<Rightarrow> (nat \<Rightarrow> nat list) \<Rightarrow> nat \<Rightarrow> bool" where
  "ghost_values_agree sz cols data r \<longleftrightarrow> (\<forall>i<length (ghost (cols ! r)).
     let e = ghost (cols ! r) ! i; q = ent_rank e in
     \<exists>j<length (shared (cols ! q)). ent_id (shared (cols ! q) ! j) = ent_id e \<and>
       element sz (data r) (length (exclusive (cols ! r)) + length (shared (cols ! r)) + i)
       = element sz (data q) (length (exclusive (cols ! q)) + j))"

lemma current_values_agree:
  assumes "halo n cols" "r < n" "ghosts_current sz cols data r"
  shows "ghost_values_agree sz cols data r"
proof -
  have x: "halo_indexed n cols" using assms(1) by (simp add: halo_def)
  have "ent_offset e < length (shared (cols ! ent_rank e)) \<and> ent_id (shared (cols ! ent_rank e) ! ent_offset e) = ent_id e"
    if "e \<in> set (ghost (cols ! r))" for e
    using x assms(2) that unfolding halo_indexed_def by blast
  then show ?thesis
    using assms(3) unfolding ghost_values_agree_def ghosts_current_def Let_def by (metis nth_mem)
qed

text \<open>The fields \<open>fids\<close> of \<open>sz fid\<close> bytes per entity, laid out by the coloring on every rank.\<close>

definition fields_over :: "nat \<Rightarrow> index_coloring list \<Rightarrow> (nat \<Rightarrow> nat) \<Rightarrow> nat list \<Rightarrow> dense_fields list \<Rightarrow> bool" where
  "fields_over n cols sz fids ctxs \<longleftrightarrow> length ctxs = n \<and> distinct fids \<and>
     (\<forall>fid\<in>set fids. \<forall>r<n. \<exists>f. map_of (ctxs ! r) fid = Some f \<and> laid_out n (sz fid) (cols ! r) f \<and>
        buffers_set (sz fid) (cols ! r) f) \<and>
     (\<forall>r<n. \<forall>q<n. (\<Sum>fid\<leftarrow>fids. length (ghosts_of (ghost (cols ! r)) q) * sz fid) < 2 ^ 31)"

lemma agreeing_fields_exchange:
  assumes c: "mpi_works n c" and h: "halo_agrees n cols"
  shows "\<exists>cols'. remap_shared_entities c cols = ok cols' \<and>
    (\<forall>r<n. map ent_id (exclusive (cols' ! r)) = map ent_id (exclusive (cols ! r)) \<and>
       map ent_id (shared (cols' ! r)) = map ent_id (shared (cols ! r)) \<and> map ent_id (ghost (cols' ! r)) = map ent_id (ghost (cols ! r))) \<and>
    (\<forall>sz fids ctxs. fields_over n cols' sz fids ctxs \<longrightarrow>
       (\<exists>ctxs'. launch_dense_exchange c (replicate n fids) ctxs = ok ctxs' \<and>
          (\<forall>fid\<in>set fids. \<forall>r<n. ghost_values_agree (sz fid) cols' (bytes_at ctxs' fid) r \<and>
             (\<forall>p<ghost_start (sz fid) (cols' ! r). bytes_at ctxs' fid r ! p = bytes_at ctxs fid r ! p))))"
proof (rule exI[of _ "map (remapped cols) [0..<n]"], intro conjI allI impI)
  let ?c = "map (remapped cols) [0..<n]"
  show "remap_shared_entities c cols = ok ?c" by (rule remap_remapped[OF c h])
  have halo: "halo n ?c" using remapped_agrees[OF h] by (simp add: halo_def)
  show "map ent_id (exclusive (?c ! r)) = map ent_id (exclusive (cols ! r))"
    "map ent_id (shared (?c ! r)) = map ent_id (shared (cols ! r))"
    "map ent_id (ghost (?c ! r)) = map ent_id (ghost (cols ! r))" if "r < n" for r
    using that by (simp_all add: remapped_def indexed_shared_fields comp_def make_entity_info_def indexed_ghost_ids)
  fix sz fids ctxs assume f: "fields_over n ?c sz fids ctxs"
  then have f': "length ctxs = n" "distinct fids"
    "\<forall>fid\<in>set fids. halo n ?c \<and> (\<forall>r<n. \<exists>f. map_of (ctxs ! r) fid = Some f \<and> laid_out n (sz fid) (?c ! r) f \<and>
        buffers_set (sz fid) (?c ! r) f)"
    "\<forall>r<n. \<forall>q<n. (\<Sum>fid\<leftarrow>fids. length (ghosts_of (ghost (?c ! r)) q) * sz fid) < 2 ^ 31"
    using halo unfolding fields_over_def by blast+
  obtain ctxs' where x: "launch_dense_exchange c (replicate n fids) ctxs = ok ctxs'"
    "\<forall>fid\<in>set fids. \<forall>r<n. ghosts_current (sz fid) ?c (bytes_at ctxs' fid) r \<and>
       (\<forall>p<ghost_start (sz fid) (?c ! r). bytes_at ctxs' fid r ! p = bytes_at ctxs fid r ! p)"
    using dense_exchange_current[OF c f'(1,2), of "\<lambda>_. ?c" sz] f'(3,4) by blast
  then show "\<exists>ctxs'. launch_dense_exchange c (replicate n fids) ctxs = ok ctxs' \<and>
          (\<forall>fid\<in>set fids. \<forall>r<n. ghost_values_agree (sz fid) ?c (bytes_at ctxs' fid) r \<and>
             (\<forall>p<ghost_start (sz fid) (?c ! r). bytes_at ctxs' fid r ! p = bytes_at ctxs fid r ! p))"
    using current_values_agree[OF halo] by blast
qed


text \<open>
  C17: From the coloring of cells to current ghosts: the colorings \<open>get_owner_info\<close> gives the ranks for a symmetric
  adjacency graph can be remapped (no rank has 2 to the 31 cells, which MPI could not count), and every exchange of fields laid out by the result leaves each ghost cell with the
  bytes of the cell of the same id on its owner and no other byte changed.
\<close>

theorem colored_cells_exchange:
  assumes c: "mpi_works (length rows) c" and g: "rank_graph rows" "symmetric_graph rows"
    and int: "\<forall>cells\<in>set rows. length cells < 2 ^ 31"
    and cols: "length cols = length rows" "\<forall>r<length rows. \<exists>info. get_owner_info r (dcrs_of (rows ! r) (dist_of rows))
        (no_entities, i\<lparr>shared_users := {}, ghost_owners := {}\<rparr>) = ok (cols ! r, info)"
  shows "\<exists>cols'. remap_shared_entities c cols = ok cols' \<and>
    (\<forall>r<length rows. map ent_id (ghost (cols' ! r)) = map ent_id (ghost (cols ! r))) \<and>
    (\<forall>sz fids ctxs. fields_over (length rows) cols' sz fids ctxs \<longrightarrow>
       (\<exists>ctxs'. launch_dense_exchange c (replicate (length rows) fids) ctxs = ok ctxs' \<and>
          (\<forall>fid\<in>set fids. \<forall>r<length rows. ghost_values_agree (sz fid) cols' (bytes_at ctxs' fid) r \<and>
             (\<forall>p<ghost_start (sz fid) (cols' ! r). bytes_at ctxs' fid r ! p = bytes_at ctxs fid r ! p))))"
proof -
  have n: "length rows < 2 ^ 64 - 1" "length (concat rows) < 2 ^ 64" using g(1) by (simp_all add: rank_graph_def)
  have "cols ! r = owner_coloring (dist_of rows) r (rows ! r)" if "r < length rows" for r
    using get_owner_info_closed[OF that n, of i] g(1) cols(2) that by (auto simp: no_entities_def rank_graph_def)
  then have "cols = map (\<lambda>r. owner_coloring (dist_of rows) r (rows ! r)) [0..<length rows]"
    using cols(1) by (intro nth_equalityI) simp_all
  then have "halo_agrees (length rows) cols" using owner_colorings_agree[OF g int] by simp
  from agreeing_fields_exchange[OF c this] show ?thesis by (elim exE conjE) (intro exI conjI, assumption, blast, assumption)
qed

definition four_cells :: "nat list list list" where
  "four_cells = [[[1], [0, 2]], [[1, 3], [2]]]"

definition four_cells_coloring :: "index_coloring list" where
  "four_cells_coloring =
     [\<lparr>primary = {}, exclusive = [\<lparr>ent_id = 0, ent_rank = 0, ent_offset = 0, ent_shared = {}\<rparr>],
       shared = [\<lparr>ent_id = 1, ent_rank = 0, ent_offset = 1, ent_shared = {1}\<rparr>],
       ghost = [\<lparr>ent_id = 2, ent_rank = 1, ent_offset = 0, ent_shared = {0}\<rparr>]\<rparr>,
      \<lparr>primary = {}, exclusive = [\<lparr>ent_id = 3, ent_rank = 1, ent_offset = 1, ent_shared = {}\<rparr>],
       shared = [\<lparr>ent_id = 2, ent_rank = 1, ent_offset = 0, ent_shared = {0}\<rparr>],
       ghost = [\<lparr>ent_id = 1, ent_rank = 0, ent_offset = 1, ent_shared = {1}\<rparr>]\<rparr>]"

lemma four_cells_dist: "dist_of four_cells = [0, 2, 4]"
  by (simp add: four_cells_def displacements_def)

lemma four_cells_owner: "d < 4 \<Longrightarrow> rank_of [0, 2, 4] d = (if d < 2 then 0 else 1)"
proof -
  assume "d < 4"
  then have "d < length (concat four_cells)" "length four_cells < 2 ^ 64 - 1" by (simp_all add: four_cells_def)
  from rank_of_dist[OF this] have "rank_of [0, 2, 4] d < 2" "[0, 2, 4] ! rank_of [0, 2, 4] d \<le> d" "d < [0, 2, 4] ! (rank_of [0, 2, 4] d + 1)"
    unfolding four_cells_dist by (simp_all add: four_cells_def)
  then show ?thesis using less_2_cases[of "rank_of [0, 2, 4] d"] by auto
qed

lemma four_cells_foreign:
  "foreign [0, 2, 4] 0 [1] = {}" "foreign [0, 2, 4] 0 [0, 2] = {2}" "foreign [0, 2, 4] 1 [1, 3] = {1}" "foreign [0, 2, 4] 1 [2] = {}"
  by (auto simp: foreign_def four_cells_owner)

lemma four_cells_colored: "map (\<lambda>r. owner_coloring (dist_of four_cells) r (four_cells ! r)) [0..<2] = four_cells_coloring"
proof -
  have two: "{..<2} = {0, 1 :: nat}" by auto
  have f: "foreign_upto [0, 2, 4] 0 [[1], [0, 2]] 2 = {2}" "foreign_upto [0, 2, 4] (Suc 0) [[1, 3], [2]] 2 = {1}"
    using four_cells_foreign by (simp_all add: foreign_upto_def two)
  have u: "users [0, 2, 4] 0 [Suc 0] = {}" "users [0, 2, 4] 0 [0, 2] = {1}" "users [0, 2, 4] (Suc 0) [Suc 0, 3] = {0}"
    "users [0, 2, 4] (Suc 0) [2] = {}"
    using four_cells_foreign by (simp_all add: users_def four_cells_owner)
  have l: "[0..<2] = [0, 1 :: nat]" by (simp add: upt_rec)
  show ?thesis unfolding four_cells_dist
    using f by (simp add: four_cells_def four_cells_coloring_def owner_coloring_def own_entities_def own_entity_def u
        ghost_entity_def make_entity_info_def u32_wrap_def four_cells_owner l flip: numeral_2_eq_2)
qed

lemma four_cells_remapped:
  "map (remapped four_cells_coloring) [0..<2] =
     [(four_cells_coloring ! 0)\<lparr>shared := [\<lparr>ent_id = 1, ent_rank = 0, ent_offset = 0, ent_shared = {1}\<rparr>],
        ghost := [\<lparr>ent_id = 2, ent_rank = 1, ent_offset = 0, ent_shared = {0}\<rparr>]\<rparr>,
      (four_cells_coloring ! 1)\<lparr>ghost := [\<lparr>ent_id = 1, ent_rank = 0, ent_offset = 0, ent_shared = {0}\<rparr>]\<rparr>]"
  by (simp add: remapped_def four_cells_coloring_def indexed_shared_def indexed_ghost_def used_at_def make_entity_info_def
      u32_wrap_def numeral_2_eq_2)

abbreviation four_cells_halo :: "index_coloring list" where
  "four_cells_halo \<equiv> map (remapped four_cells_coloring) [0..<2]"

definition cell_field :: "nat \<Rightarrow> nat list \<Rightarrow> dense_field" where
  "cell_field me data = \<lparr>field_bytes = data, field_meta =
     \<lparr>shared_indices = [[], []][1 - me := [(0, 2)]], ghost_indices = [[], []][1 - me := [(0, 2)]],
      shared_field_sizes = [0, 0][1 - me := 2], ghost_field_sizes = [0, 0][1 - me := 2]\<rparr>,
     shared_data_buffer = 2, ghost_data_buffer = 4, ghost_is_readable = False\<rparr>"

lemma cell_fields_over:
  "fields_over 2 four_cells_halo (\<lambda>_. 2) [3] [[(3, cell_field 0 [1, 2, 3, 4, 0, 0])], [(3, cell_field 1 [7, 8, 9, 10, 0, 0])]]"
proof -
  have l: "laid_out 2 2 (four_cells_halo ! 0) (cell_field 0 [1, 2, 3, 4, 0, 0])" "laid_out 2 2 (four_cells_halo ! 1) (cell_field 1 [7, 8, 9, 10, 0, 0])"
    unfolding four_cells_remapped by (simp_all add: laid_out_def cell_field_def four_cells_coloring_def
        register_field_metadata_def ghost_runs_def shared_runs_def add_run_def numeral_2_eq_2)
  have b: "buffers_set 2 (four_cells_halo ! 0) (cell_field 0 [1, 2, 3, 4, 0, 0])" "buffers_set 2 (four_cells_halo ! 1) (cell_field 1 [7, 8, 9, 10, 0, 0])"
    unfolding four_cells_remapped
    by (simp_all add: buffers_set_def cell_field_def four_cells_coloring_def shared_start_def ghost_start_def)
  have s: "\<forall>r<2. \<forall>q<2. (\<Sum>fid\<leftarrow>[3 :: nat]. length (ghosts_of (ghost (four_cells_halo ! r)) q) * 2) < 2 ^ 31"
    unfolding two four_cells_remapped by (simp add: ghosts_of_def four_cells_coloring_def)
  show ?thesis unfolding fields_over_def two using l b s[unfolded two] by simp
qed

lemma colored_cells_exchange_witness:
  "\<exists>ctxs'. launch_dense_exchange (ideal_mpi 2) [[3], [3]]
      [[(3, cell_field 0 [1, 2, 3, 4, 0, 0])], [(3, cell_field 1 [7, 8, 9, 10, 0, 0])]] = ok ctxs' \<and>
    ghost_values_agree 2 four_cells_halo (bytes_at ctxs' 3) 0 \<and> ghost_values_agree 2 four_cells_halo (bytes_at ctxs' 3) 1"
proof -
  let ?i = "\<lparr>num_exclusive = 0, num_shared = 0, num_ghost = 0, shared_users = {}, ghost_owners = {}\<rparr> :: coloring_info"
  have len: "length four_cells = 2" by (simp add: four_cells_def)
  have g: "rank_graph four_cells" "symmetric_graph four_cells"
    by (simp add: rank_graph_def four_cells_def, simp add: symmetric_graph_def four_cells_def less_Suc_eq numeral_eq_Suc)
  have int: "\<forall>cells\<in>set four_cells. length cells < 2 ^ 31" by (simp add: four_cells_def)
  have n: "length four_cells < 2 ^ 64 - 1" "length (concat four_cells) < 2 ^ 64" by (simp_all add: four_cells_def)
  have at: "four_cells_coloring ! r = owner_coloring (dist_of four_cells) r (four_cells ! r)" if "r < 2" for r
    unfolding four_cells_colored[symmetric] using that by simp
  have closed: "\<exists>info. get_owner_info r (dcrs_of (four_cells ! r) (dist_of four_cells))
      (no_entities, ?i\<lparr>shared_users := {}, ghost_owners := {}\<rparr>) = ok (four_cells_coloring ! r, info)"
    if r: "r < length four_cells" for r
    using get_owner_info_closed[OF r n, of ?i] g(1) at[of r] r unfolding len by (simp add: no_entities_def rank_graph_def)
  then have c: "length four_cells_coloring = length four_cells"
    "\<forall>r<length four_cells. \<exists>info. get_owner_info r (dcrs_of (four_cells ! r) (dist_of four_cells))
      (no_entities, ?i\<lparr>shared_users := {}, ghost_owners := {}\<rparr>) = ok (four_cells_coloring ! r, info)"
    by (simp add: four_cells_coloring_def four_cells_def, blast)
  have a: "halo_agrees 2 four_cells_coloring" using owner_colorings_agree[OF g int] four_cells_colored len by simp
  obtain cols' where
    r: "remap_shared_entities (ideal_mpi 2) four_cells_coloring = ok cols'"
    and x: "\<forall>sz fids ctxs. fields_over 2 cols' sz fids ctxs \<longrightarrow>
       (\<exists>ctxs'. launch_dense_exchange (ideal_mpi 2) (replicate 2 fids) ctxs = ok ctxs' \<and>
          (\<forall>fid\<in>set fids. \<forall>r<2. ghost_values_agree (sz fid) cols' (bytes_at ctxs' fid) r \<and>
             (\<forall>p<ghost_start (sz fid) (cols' ! r). bytes_at ctxs' fid r ! p = bytes_at ctxs fid r ! p)))"
    using colored_cells_exchange[OF _ g int c, of "ideal_mpi 2", unfolded len, OF ideal_mpi_works] by (elim exE conjE) (rule that)
  have "cols' = four_cells_halo" using remap_remapped[OF ideal_mpi_works a] r by simp
  from x[unfolded this, rule_format, OF cell_fields_over] show ?thesis by (auto simp: numeral_2_eq_2)
qed

text \<open>
  C7: The same for the entities of the cells: the colorings \<open>color_entities\<close> makes can be remapped (no rank knows 2 to
  the 31 entities, which MPI could not count), and every exchange
  of fields laid out by the result leaves each ghost with the bytes of the entity of the same id on its owner.
\<close>

theorem colored_entities_exchange:
  assumes c: "mpi_works n c" and n: "0 < n" and w: "entity_world n rins rows" and fits: "fits n rins"
    and int: "\<forall>rin\<in>set rins. length (local2global rin) < 2 ^ 31"
    and outs: "\<forall>r<n. outs ! r = (no_entities, infos r\<lparr>shared_users := {}, ghost_owners := {}\<rparr>)"
  shows "\<exists>res cols'. color_entities c rins outs = ok res \<and> remap_shared_entities c (map (fst \<circ> fst) res) = ok cols' \<and>
    (\<forall>r<n. map ent_id (ghost (cols' ! r)) = map ent_id (ghost (fst (fst (res ! r))))) \<and>
    (\<forall>sz fids ctxs. fields_over n cols' sz fids ctxs \<longrightarrow>
       (\<exists>ctxs'. launch_dense_exchange c (replicate n fids) ctxs = ok ctxs' \<and>
          (\<forall>fid\<in>set fids. \<forall>r<n. ghost_values_agree (sz fid) cols' (bytes_at ctxs' fid) r \<and>
             (\<forall>p<ghost_start (sz fid) (cols' ! r). bytes_at ctxs' fid r ! p = bytes_at ctxs fid r ! p))))"
proof -
  let ?res = "map (\<lambda>r. ((entity_coloring rins rows r, entity_summary rins rows r), ghost_count rins rows r)) [0..<n]"
  have n64: "n < 2 ^ 64 - 1" using fits by (simp add: fits_def)
  have r: "color_entities c rins outs = ok ?res" by (rule color_entities_ranks[OF c n n64 w outs])
  have cols: "map (fst \<circ> fst) ?res = map (entity_coloring rins rows) [0..<n]" by simp
  have get: "fst (fst (?res ! q)) = map (entity_coloring rins rows) [0..<n] ! q" if "q < n" for q using that by simp
  show ?thesis
    using agreeing_fields_exchange[OF c entity_colorings_agree[OF w fits int]] r
    by (elim exE conjE) (rule exI[of _ ?res], rule exI, intro conjI, assumption, simp only: cols, simp add: get, assumption)
qed


lemma colored_entities_exchange_witness:
  "\<exists>res cols'. color_entities (ideal_mpi 2)
      [\<lparr>cells2entity = crs_of [[0, 1], [1, 2]], local2global = [0, 1, 2], cells =
         \<lparr>primary = {}, exclusive = [make_entity_info 0 0 0 {}], shared = [make_entity_info 1 0 1 {1}], ghost = []\<rparr>\<rparr>,
       \<lparr>cells2entity = crs_of [[1, 0]], local2global = [3, 2], cells =
         \<lparr>primary = {}, exclusive = [], shared = [make_entity_info 2 1 0 {0}], ghost = []\<rparr>\<rparr>]
      (replicate 2 (no_entities, \<lparr>num_exclusive = 0, num_shared = 0, num_ghost = 0, shared_users = {}, ghost_owners = {}\<rparr>))
    = ok res \<and> remap_shared_entities (ideal_mpi 2) (map (fst \<circ> fst) res) = ok cols' \<and>
    map ent_id (ghost (cols' ! 1)) = map ent_id (ghost (fst (fst (res ! 1))))"
proof -
  let ?a = "\<lparr>cells2entity = crs_of [[0, 1], [1, 2]], local2global = [0, 1, 2], cells =
         \<lparr>primary = {}, exclusive = [make_entity_info 0 0 0 {}], shared = [make_entity_info 1 0 1 {1}], ghost = []\<rparr>\<rparr>"
  let ?b = "\<lparr>cells2entity = crs_of [[1, 0]], local2global = [3, 2], cells =
         \<lparr>primary = {}, exclusive = [], shared = [make_entity_info 2 1 0 {0}], ghost = []\<rparr>\<rparr>"
  let ?rows = "[[[0, 1], [1, 2]], [[1, 0]]] :: nat list list list"
  let ?i = "\<lparr>num_exclusive = 0, num_shared = 0, num_ghost = 0, shared_users = {}, ghost_owners = {}\<rparr> :: coloring_info"
  have w: "entity_world 2 [?a, ?b] ?rows"
    by (simp add: entity_world_def rank_input_def less_2_cases_iff make_entity_info_def u32_wrap_def)
  have f: "fits 2 [?a, ?b]" by (simp add: fits_def)
  have int: "\<forall>rin\<in>set [?a, ?b]. length (local2global rin) < 2 ^ 31" by simp
  have o: "\<forall>r<2. replicate 2 (no_entities, ?i) ! r = (no_entities, ?i\<lparr>shared_users := {}, ghost_owners := {}\<rparr>)" by simp
  from colored_entities_exchange[OF ideal_mpi_works zero_less_numeral w f int o] show ?thesis
    by (elim exE conjE) (intro exI conjI, assumption, assumption, simp)
qed

end
