(* ===== verification/Match_Ids.thy ===== *)
theory Match_Ids
  imports Distributed_Graph "HOL-Library.List_Lexorder"
begin

text \<open>
  \<open>match_ids\<close> of coloring/dcrs\_utils.h: the ranks agree on global ids for the entities of a dimension
  (edges, faces) that are given by their vertices. The rank that owns the lowest vertex of an entity
  numbers it; the numberings of the ranks are put one after the other.  \<open>mesh_crs\<close> is
  \<open>entities_crs(dimension, 0)\<close> and \<open>mesh_l2g\<close> is \<open>local_to_global(0)\<close>; the map from vertex lists
  to ids is a \<open>std::map\<close> in lexicographic order.
\<close>

section \<open>The routine\<close>

type_synonym numbering = "(nat list, nat) std_map"

definition entity_vertices :: "rank_mesh \<Rightarrow> nat \<Rightarrow> nat list outcome" where
  "entity_vertices md i = and_then (crs_row (mesh_crs md) i)
     (traverse (\<lambda>v. if v < length (mesh_l2g md) then ok (mesh_l2g md ! v) else fail Out_of_range))"

definition entity_rows :: "rank_mesh \<Rightarrow> nat list list outcome" where
  "entity_rows md = traverse (entity_vertices md) [0..<crs_size (mesh_crs md)]"

definition add_to_map :: "nat list \<Rightarrow> nat \<Rightarrow> numbering \<Rightarrow> numbering" where
  "add_to_map vs i m = std_emplace (sort vs) i m"

definition row_owner :: "nat list \<Rightarrow> nat list \<Rightarrow> nat outcome" where
  "row_owner vert_dist vs = (if vs = [] then fail Undefined else rank_owner vert_dist (min_list vs))"

text \<open>Messages to the owners, and the rows this rank owns entered into its map.\<close>

definition row_messages :: "nat list \<Rightarrow> nat list list \<Rightarrow> message list outcome" where
  "row_messages vert_dist =
     traverse (\<lambda>vs. and_then (row_owner vert_dist vs) (\<lambda>r. ok (r, length vs # vs)))"

definition own_rows :: "nat \<Rightarrow> nat list \<Rightarrow> nat list list \<Rightarrow> numbering outcome" where
  "own_rows self vert_dist rows = fold_outcome (\<lambda>vs entities.
     and_then (row_owner vert_dist vs) (\<lambda>r.
     if r \<noteq> self then ok entities else ok (add_to_map vs (length entities) entities))) rows []"

text \<open>The received rows: the map, and for every rank the entities it sent, as iterators (keys).\<close>

definition take_entity :: "nat list \<Rightarrow> numbering \<times> nat list list \<Rightarrow> (numbering \<times> nat list list) outcome" where
  "take_entity vs = (\<lambda>(entities, rank_data).
     ok (add_to_map vs (length entities) entities, rank_data @ [sort vs]))"

definition tidy_rank_data :: "numbering \<Rightarrow> nat list list \<Rightarrow> nat list list" where
  "tidy_rank_data entities rank_data = remdups_adj (sort_key (\<lambda>k. the (map_of entities k)) rank_data)"

definition read_entities :: "nat \<Rightarrow> mail \<Rightarrow> numbering \<Rightarrow> (numbering \<times> nat list list list) outcome" where
  "read_entities n mail entities = fold_outcome (\<lambda>r (entities, rank_edges).
     and_then (read_runs Undefined take_entity (received mail r) (entities, [])) (\<lambda>(entities, rank_data).
     ok (entities, rank_edges @ [tidy_rank_data entities rank_data]))) [0..<n] (entities, [])"

definition shift_ids :: "nat \<Rightarrow> numbering \<Rightarrow> numbering" where
  "shift_ids offset = map (\<lambda>(k, i). (k, i + offset))"

text \<open>The answers are appended to the buffer rank by rank.\<close>

definition append_sends :: "nat \<Rightarrow> (nat \<Rightarrow> nat list list) \<Rightarrow> nat \<Rightarrow> mail" where
  "append_sends n messages self =
     (let (counts, buf) = fold (\<lambda>r (counts, buf).
        if r = self then (counts, buf)
        else fold (\<lambda>words (counts, buf). (counts[r := counts ! r + length words], buf @ words)) (messages r) (counts, buf))
        [0..<n] (replicate n 0, [])
      in (counts, displacements counts, buf))"

definition answer :: "numbering \<Rightarrow> nat list \<Rightarrow> nat list" where
  "answer entities k = the (map_of entities k) # length k # k"

definition read_answers :: "nat \<Rightarrow> mail \<Rightarrow> numbering \<Rightarrow> numbering outcome" where
  "read_answers n mail = fold_outcome (\<lambda>r.
     read_tagged Undefined (\<lambda>global_id vs entities. ok (add_to_map vs global_id entities)) (received mail r)) [0..<n]"

definition assign_ids :: "numbering \<Rightarrow> nat list list \<Rightarrow> nat list \<times> (nat, nat) std_map \<Rightarrow> (nat list \<times> (nat, nat) std_map) outcome" where
  "assign_ids entities = fold_outcome (\<lambda>vs (local2global, global2local).
     case map_of entities (sort vs) of
       None \<Rightarrow> fail Assert_failed
     | Some global_id \<Rightarrow> ok (local2global @ [global_id], std_emplace global_id (length local2global) global2local))"

definition match_ids :: "mpi \<Rightarrow> rank_mesh list \<Rightarrow> (nat list \<times> (nat, nat) std_map) list \<Rightarrow>
    (nat list \<times> (nat, nat) std_map) list outcome" where
  "match_ids c mds ids =
     (let n = length mds;
          max_ids = mpi_allreduce_max c (map (\<lambda>md. fold max (mesh_l2g md) 0) mds)
      in
        and_then (traverse (\<lambda>r. subdivide ((max_ids ! r + 1) mod 2 ^ 64) n []) [0..<n]) (\<lambda>vert_dists.
        and_then (traverse (\<lambda>r. entity_rows (mds ! r)) [0..<n]) (\<lambda>rows.
        and_then (traverse (\<lambda>r. row_messages (vert_dists ! r) (rows ! r)) [0..<n]) (\<lambda>messages.
        and_then (traverse (\<lambda>r. own_rows r (vert_dists ! r) (rows ! r)) [0..<n]) (\<lambda>maps.
        and_then (post c messages) (\<lambda>mails.
        and_then (traverse (\<lambda>r. read_entities n (mails ! r) (maps ! r)) [0..<n]) (\<lambda>states.
        let edge_dists = map displacements (mpi_allgather c (map (\<lambda>(entities, _). length entities) states));
            maps = map (\<lambda>r. shift_ids (edge_dists ! r ! r) (fst (states ! r))) [0..<n];
            sends = map (\<lambda>r. append_sends n (\<lambda>s. map (answer (maps ! r)) (snd (states ! r) ! s)) r) [0..<n]
        in
        and_then (exchange c sends) (\<lambda>mails.
        and_then (traverse (\<lambda>r. read_answers n (mails ! r) (maps ! r)) [0..<n]) (\<lambda>maps.
        traverse (\<lambda>r. assign_ids (maps ! r) (rows ! r) (ids ! r)) [0..<n])))))))))"

section \<open>Numberings\<close>

text \<open>
  \<open>rows\<close> are the entities of a rank as lists of global vertex ids. An entity is the ascending list
  of its vertices, whatever order a rank has them in; the largest \<open>size_t\<close> is no id.
\<close>

definition entities_are :: "rank_mesh \<Rightarrow> nat list list \<Rightarrow> bool" where
  "entities_are md rows \<longleftrightarrow> (\<exists>local. mesh_crs md = crs_of local \<and>
     (\<forall>row\<in>set local. \<forall>v\<in>set row. v < length (mesh_l2g md)) \<and> rows = map (map ((!) (mesh_l2g md))) local) \<and>
     (\<forall>v\<in>set (mesh_l2g md). v < 2 ^ 64 - 1)"

lemma entities_are_ids: "entities_are md rows \<Longrightarrow> v \<in> set (mesh_l2g md) \<Longrightarrow> v < 2 ^ 64 - 1"
  by (simp add: entities_are_def)

lemma entity_rows_are: "entities_are md rows \<Longrightarrow> entity_rows md = ok rows"
proof -
  assume "entities_are md rows"
  then obtain local where l: "mesh_crs md = crs_of local"
    "\<forall>row\<in>set local. \<forall>v\<in>set row. v < length (mesh_l2g md)" "rows = map (map ((!) (mesh_l2g md))) local"
    by (auto simp: entities_are_def)
  have "entity_vertices md i = ok (rows ! i)" if i: "i < length local" for i
  proof -
    have "\<forall>v\<in>set (local ! i). v < length (mesh_l2g md)" using l(2) i by (metis nth_mem)
    then have "traverse (\<lambda>v. if v < length (mesh_l2g md) then ok (mesh_l2g md ! v) else fail Out_of_range) (local ! i)
        = ok (map ((!) (mesh_l2g md)) (local ! i))"
      by (intro traverse_ok) simp
    then show ?thesis using i l by (simp add: entity_vertices_def crs_row_rows)
  qed
  then have "traverse (entity_vertices md) [0..<length local] = ok (map ((!) rows) [0..<length local])"
    by (intro traverse_ok) simp
  also have "map ((!) rows) [0..<length local] = rows" using l(3) by (intro nth_equalityI) simp_all
  finally show ?thesis using l(1) by (simp add: entity_rows_def)
qed

text \<open>The map of a rank while it numbers the entities it owns: the ids in use are an initial segment.\<close>

definition dense :: "numbering \<Rightarrow> nat list set \<Rightarrow> bool" where
  "dense m A \<longleftrightarrow> std_wf m \<and> dom (map_of m) = A \<and> bij_betw (\<lambda>k. the (map_of m k)) A {..<length m}"

lemma dense_Nil [simp]: "dense [] {}"
  by (simp add: dense_def bij_betw_def)

lemma length_std_put_new: "k \<notin> fst ` set m \<Longrightarrow> length (std_put k v m) = Suc (length m)"
  by (induction k v m rule: std_put.induct) auto

lemma dense_add: "dense m A \<Longrightarrow> dense (add_to_map vs (length m) m) (insert (sort vs) A)"
proof -
  assume d: "dense m A"
  show ?thesis
  proof (cases "sort vs \<in> A")
    case True
    then obtain i where "map_of m (sort vs) = Some i" using d by (auto simp: dense_def)
    then show ?thesis using d True by (simp add: add_to_map_def std_emplace_def insert_absorb)
  next
    case False
    then have new: "map_of m (sort vs) = None" using d by (auto simp: dense_def)
    then have m: "add_to_map vs (length m) m = std_put (sort vs) (length m) m"
      by (simp add: add_to_map_def std_emplace_def)
    have l: "length (std_put (sort vs) (length m) m) = Suc (length m)"
      using new by (intro length_std_put_new) (simp add: map_of_eq_None_iff)
    have "bij_betw (\<lambda>k. the (map_of m k)) A {..<length m}" using d by (simp add: dense_def)
    then have "bij_betw (\<lambda>k. the (((map_of m)(sort vs \<mapsto> length m)) k)) A {..<length m}"
      using False by (subst bij_betw_cong[where g = "\<lambda>k. the (map_of m k)"]) auto
    then have "bij_betw (\<lambda>k. the (((map_of m)(sort vs \<mapsto> length m)) k)) (A \<union> {sort vs}) ({..<length m} \<union> {length m})"
      using False by (intro bij_betw_combine) (auto simp: bij_betw_def)
    then show ?thesis using d unfolding m by (simp add: dense_def l lessThan_Suc)
  qed
qed

lemma own_rows_dense:
  assumes "\<forall>vs\<in>set rows. row_owner dist vs = ok (f vs)"
  shows "dense m A \<Longrightarrow> \<exists>m'. fold_outcome (\<lambda>vs entities. and_then (row_owner dist vs) (\<lambda>r.
      if r \<noteq> self then ok entities else ok (add_to_map vs (length entities) entities))) rows m = ok m' \<and>
    dense m' (A \<union> sort ` {vs \<in> set rows. f vs = self})"
  using assms
proof (induction rows arbitrary: m A)
  case (Cons vs rows)
  show ?case
  proof (cases "f vs = self")
    case True
    have "insert (sort vs) A \<union> sort ` {w \<in> set rows. f w = self} = A \<union> sort ` {w \<in> set (vs # rows). f w = self}"
      using True by auto
    then show ?thesis using Cons.IH[OF dense_add[OF Cons.prems(1)], of vs] Cons.prems(2) True by simp
  next
    case False
    then have "{w \<in> set (vs # rows). f w = self} = {w \<in> set rows. f w = self}" by auto
    then show ?thesis using Cons.IH[OF Cons.prems(1)] Cons.prems(2) False by simp
  qed
qed simp


lemma take_entities_dense:
  "dense m A \<Longrightarrow> \<exists>m'. fold_outcome take_entity rows (m, ks) = ok (m', ks @ map sort rows) \<and>
    dense m' (A \<union> sort ` set rows)"
proof (induction rows arbitrary: m A ks)
  case (Cons vs rows)
  have "insert (sort vs) A \<union> sort ` set rows = A \<union> sort ` set (vs # rows)" by auto
  then show ?case using Cons.IH[OF dense_add[OF Cons.prems], of vs "ks @ [sort vs]"] by (simp add: take_entity_def)
qed simp

lemma set_tidy_rank_data [simp]: "set (tidy_rank_data m ks) = set ks"
  by (simp add: tidy_rank_data_def)

lemma read_entities_dense:
  assumes "dense m A" "mail = mail_of (map (\<lambda>r. concat (map run (L r))) [0..<n])"
  shows "\<exists>m' es. read_entities n mail m = ok (m', es) \<and> length es = n \<and>
    (\<forall>r<n. set (es ! r) = sort ` set (L r)) \<and> dense m' (A \<union> sort ` (\<Union>r<n. set (L r)))"
proof -
  have "k \<le> n \<Longrightarrow> \<exists>m' es. fold_outcome (\<lambda>r (entities, rank_edges).
        and_then (read_runs Undefined take_entity (received mail r) (entities, [])) (\<lambda>(entities, rank_data).
        ok (entities, rank_edges @ [tidy_rank_data entities rank_data]))) [0..<k] (m, []) = ok (m', es) \<and> length es = k \<and>
      (\<forall>r<k. set (es ! r) = sort ` set (L r)) \<and> dense m' (A \<union> sort ` (\<Union>r<k. set (L r)))" for k
  proof (induction k)
    case 0
    then show ?case using assms(1) by simp
  next
    case (Suc k)
    then obtain m' es where IH: "fold_outcome (\<lambda>r (entities, rank_edges).
        and_then (read_runs Undefined take_entity (received mail r) (entities, [])) (\<lambda>(entities, rank_data).
        ok (entities, rank_edges @ [tidy_rank_data entities rank_data]))) [0..<k] (m, []) = ok (m', es)" "length es = k"
      "\<forall>r<k. set (es ! r) = sort ` set (L r)" "dense m' (A \<union> sort ` (\<Union>r<k. set (L r)))" by auto
    have "received mail k = concat (map run (L k))" using Suc.prems assms(2) by simp
    then have rr: "read_runs Undefined take_entity (received mail k) = fold_outcome take_entity (L k)"
      by (auto simp: read_runs_rows)
    obtain m'' where m'': "fold_outcome take_entity (L k) (m', []) = ok (m'', map sort (L k))"
      "dense m'' (A \<union> sort ` (\<Union>r<k. set (L r)) \<union> sort ` set (L k))"
      using take_entities_dense[OF IH(4), of "L k" "[]"] by auto
    have "A \<union> sort ` (\<Union>r<k. set (L r)) \<union> sort ` set (L k) = A \<union> sort ` (\<Union>r<Suc k. set (L r))"
      by (auto simp: lessThan_Suc)
    moreover have "\<forall>r<Suc k. set ((es @ [tidy_rank_data m'' (map sort (L k))]) ! r) = sort ` set (L r)"
      using IH(2,3) by (auto simp: nth_append less_Suc_eq)
    ultimately show ?case using IH(1,2) m'' rr by simp
  qed
  from this[of n] show ?thesis by (simp add: read_entities_def)
qed

section \<open>The answers\<close>

lemma append_words:
  assumes "r < length counts"
  shows "fold (\<lambda>words (counts, buf). (counts[r := counts ! r + length words], buf @ words)) ws (counts, buf)
    = (counts[r := counts ! r + length (concat ws)], buf @ concat ws)"
  using assms
proof (induction ws arbitrary: counts buf)
  case (Cons w ws)
  then show ?case using Cons.IH[of "counts[r := counts ! r + length w]"] by (simp add: ac_simps)
qed simp

lemma append_sends_mail:
  "append_sends n messages self = mail_of (map (\<lambda>r. if r = self then [] else concat (messages r)) [0..<n])"
proof -
  let ?row = "\<lambda>r. if r = self then [] else concat (messages r)"
  have "k \<le> n \<Longrightarrow> fold (\<lambda>r (counts, buf). if r = self then (counts, buf)
        else fold (\<lambda>words (counts, buf). (counts[r := counts ! r + length words], buf @ words)) (messages r) (counts, buf))
      [0..<k] (replicate n 0, [])
    = (map (\<lambda>r. length (?row r)) [0..<k] @ replicate (n - k) 0, concat (map ?row [0..<k]))" for k
  proof (induction k)
    case (Suc k)
    then have k: "k < n" by simp
    let ?c = "map (\<lambda>r. length (?row r)) [0..<k] @ replicate (n - k) 0"
    have "?c ! k = 0" "?c[k := x] = map (\<lambda>r. length (?row r)) [0..<k] @ x # replicate (n - Suc k) 0" for x
      using k by (simp_all add: nth_append list_update_append Suc_diff_Suc[symmetric])
    moreover have "replicate (n - k) 0 = (0::nat) # replicate (n - Suc k) 0"
      using k by (simp add: Suc_diff_Suc[symmetric])
    ultimately show ?case using Suc by (cases "k = self") (simp_all add: append_words)
  qed simp
  from this[of n] show ?thesis
    by (simp add: append_sends_def mail_of_def Let_def comp_def flip: displacements_rows)
qed

text \<open>A map that is a part of a global numbering.\<close>

definition part_of :: "(nat list \<Rightarrow> nat) \<Rightarrow> numbering \<Rightarrow> nat list set \<Rightarrow> bool" where
  "part_of number m A \<longleftrightarrow> map_of m = (\<lambda>k. if k \<in> A then Some (number k) else None)"

lemma part_of_add:
  "part_of number m A \<Longrightarrow> sorted k \<Longrightarrow> part_of number (add_to_map k (number k) m) (insert k A)"
  by (auto simp: part_of_def add_to_map_def map_of_std_emplace sorted_sort_id fun_eq_iff split: if_splits)

lemma part_of_adds:
  assumes "\<forall>k\<in>set ks. sorted k"
  shows "part_of number m A \<Longrightarrow> \<exists>m'. fold_outcome (\<lambda>(global_id, vs) entities. ok (add_to_map vs global_id entities))
      (map (\<lambda>k. (number k, k)) ks) m = ok m' \<and> part_of number m' (A \<union> set ks)"
  using assms
proof (induction ks arbitrary: m A)
  case (Cons k ks)
  then show ?case using Cons.IH[OF part_of_add[OF Cons.prems(1), of k]] by simp
qed simp

lemma read_answers_part:
  assumes "part_of number m A" "mail = mail_of (map (\<lambda>s. concat (map tagged (map (\<lambda>k. (number k, k)) (L s)))) [0..<n])"
    and "\<forall>s<n. \<forall>k\<in>set (L s). sorted k"
  shows "\<exists>m'. read_answers n mail m = ok m' \<and> part_of number m' (A \<union> (\<Union>s<n. set (L s)))"
proof -
  have "k \<le> n \<Longrightarrow> \<exists>m'. fold_outcome (\<lambda>r. read_tagged Undefined (\<lambda>global_id vs entities.
      ok (add_to_map vs global_id entities)) (received mail r)) [0..<k] m = ok m' \<and>
      part_of number m' (A \<union> (\<Union>s<k. set (L s)))" for k
  proof (induction k)
    case 0
    then show ?case using assms(1) by simp
  next
    case (Suc k)
    then obtain m' where IH: "fold_outcome (\<lambda>r. read_tagged Undefined (\<lambda>global_id vs entities.
      ok (add_to_map vs global_id entities)) (received mail r)) [0..<k] m = ok m'"
      "part_of number m' (A \<union> (\<Union>s<k. set (L s)))" by auto
    have "received mail k = concat (map tagged (map (\<lambda>k. (number k, k)) (L k)))" using Suc.prems assms(2) by simp
    then have "read_tagged Undefined (\<lambda>global_id vs entities. ok (add_to_map vs global_id entities)) (received mail k)
        = fold_outcome (\<lambda>(global_id, vs) entities. ok (add_to_map vs global_id entities)) (map (\<lambda>k. (number k, k)) (L k))"
      by (simp only: read_tagged_rows ext)
    moreover have "\<forall>j\<in>set (L k). sorted j" using assms(3) Suc.prems Suc_le_lessD by blast
    moreover have "A \<union> (\<Union>s<k. set (L s)) \<union> set (L k) = A \<union> (\<Union>s<Suc k. set (L s))" by (auto simp: lessThan_Suc)
    ultimately show ?case using IH part_of_adds[of "L k" number m' "A \<union> (\<Union>s<k. set (L s))"] by auto
  qed
  from this[of n] show ?thesis by (simp add: read_answers_def)
qed

text \<open>The ids of a rank's entities, in the order of its entities, and their registration.\<close>

definition register_ids :: "nat list \<Rightarrow> nat list \<times> (nat, nat) std_map \<Rightarrow> nat list \<times> (nat, nat) std_map" where
  "register_ids = fold (\<lambda>g (local2global, global2local).
     (local2global @ [g], std_emplace g (length local2global) global2local))"

lemma assign_ids_part:
  assumes "part_of number m A" "\<forall>vs\<in>set rows. sort vs \<in> A"
  shows "assign_ids m rows ids = ok (register_ids (map (\<lambda>vs. number (sort vs)) rows) ids)"
  using assms
proof (induction rows arbitrary: ids)
  case (Cons vs rows)
  then show ?case
    by (cases ids) (auto simp: assign_ids_def register_ids_def part_of_def)
qed (simp add: assign_ids_def register_ids_def)

lemma register_ids_local: "fst (register_ids gs ids) = fst ids @ gs"
proof (induction gs arbitrary: ids)
  case (Cons g gs)
  then show ?case by (cases ids) (simp add: register_ids_def)
qed (simp add: register_ids_def)


section \<open>The global numbering\<close>

text \<open>Numberings put one after the other.\<close>

lemma stacked_bij:
  assumes "\<forall>r<n. bij_betw (g r) (A r) {..<c r}" "\<forall>r<n. \<forall>k\<in>A r. f k = r"
  shows "bij_betw (\<lambda>k. displacements (map c [0..<n]) ! f k + g (f k) k) (\<Union>r<n. A r) {..<sum_list (map c [0..<n])}"
proof -
  define off where "off r = sum_list (map c [0..<r])" for r
  have "m \<le> n \<Longrightarrow> bij_betw (\<lambda>k. off (f k) + g (f k) k) (\<Union>r<m. A r) {..<off m}" for m
  proof (induction m)
    case (Suc m)
    have m: "off (Suc m) = off m + c m" "m < n" using Suc.prems by (simp_all add: off_def)
    have "bij_betw ((\<lambda>i. off m + i) \<circ> g m) (A m) {off m..<off (Suc m)}"
      using assms(1) m by (intro bij_betw_trans[of "g m" _ "{..<c m}"])
        (auto simp: bij_betw_def inj_on_def lessThan_atLeast0 image_add_atLeastLessThan)
    moreover have "bij_betw (\<lambda>k. off (f k) + g (f k) k) (A m) {off m..<off (Suc m)} =
        bij_betw ((\<lambda>i. off m + i) \<circ> g m) (A m) {off m..<off (Suc m)}"
      using assms(2) m(2) by (intro bij_betw_cong) auto
    ultimately have "bij_betw (\<lambda>k. off (f k) + g (f k) k) ((\<Union>r<m. A r) \<union> A m) ({..<off m} \<union> {off m..<off (Suc m)})"
      using Suc by (intro bij_betw_combine) auto
    moreover have "(\<Union>r<m. A r) \<union> A m = (\<Union>r<Suc m. A r)" by (auto simp: lessThan_Suc)
    moreover have "{..<off m} \<union> {off m..<off (Suc m)} = {..<off (Suc m)}" using m(1) by auto
    ultimately show ?case by simp
  qed (simp add: off_def bij_betw_def)
  from this[of n] have "bij_betw (\<lambda>k. off (f k) + g (f k) k) (\<Union>r<n. A r) {..<sum_list (map c [0..<n])}"
    by (simp add: off_def)
  moreover have "displacements (map c [0..<n]) ! f k = off (f k)" if "k \<in> (\<Union>r<n. A r)" for k
    using that assms(2) by (auto simp: displacements_nth off_def take_map)
  ultimately show ?thesis by (subst bij_betw_cong[where g = "\<lambda>k. off (f k) + g (f k) k"]) simp_all
qed

definition sent_to :: "(nat list \<Rightarrow> nat) \<Rightarrow> nat list list list \<Rightarrow> nat \<Rightarrow> nat \<Rightarrow> nat list list" where
  "sent_to f ents r s = (if r = s then [] else filter (\<lambda>vs. f vs = r) (ents ! s))"

definition owned :: "(nat list \<Rightarrow> nat) \<Rightarrow> nat list list list \<Rightarrow> nat \<Rightarrow> nat list set" where
  "owned f ents r = sort ` {vs. \<exists>s<length ents. vs \<in> set (ents ! s) \<and> f vs = r}"

lemma letter_runs:
  "letter self (map (\<lambda>vs. (f vs, run vs)) rows) r
   = concat (map run (if r = self then [] else filter (\<lambda>vs. f vs = r) rows))"
  by (induction rows) (auto simp: letter_def)

lemma owned_split: "r < length ents \<Longrightarrow>
  sort ` {vs \<in> set (ents ! r). f vs = r} \<union> sort ` (\<Union>s<length ents. set (sent_to f ents r s)) = owned f ents r"
  unfolding owned_def image_Un[symmetric] by (rule arg_cong[where f = "image sort"]) (auto simp: sent_to_def split: if_splits)

lemma gather_entities:
  assumes c: "mpi_works n c" and len: "length ents = n"
    and owner: "\<forall>s<n. \<forall>vs\<in>set (ents ! s). row_owner vd vs = ok (f vs) \<and> f vs < n"
  shows "\<exists>messages maps mails states. traverse (\<lambda>r. row_messages vd (ents ! r)) [0..<n] = ok messages \<and>
    traverse (\<lambda>r. own_rows r vd (ents ! r)) [0..<n] = ok maps \<and> post c messages = ok mails \<and>
    traverse (\<lambda>r. read_entities n (mails ! r) (maps ! r)) [0..<n] = ok states \<and> length states = n \<and>
    (\<forall>r<n. dense (fst (states ! r)) (owned f ents r)) \<and>
    (\<forall>r<n. \<forall>s<n. set (snd (states ! r) ! s) = sort ` set (sent_to f ents r s))"
proof -
  let ?msgs = "map (\<lambda>r. map (\<lambda>vs. (f vs, run vs)) (ents ! r)) [0..<n]"
  let ?mails = "map (\<lambda>r. mail_of (map (\<lambda>s. concat (map run (sent_to f ents r s))) [0..<n])) [0..<n]"
  have "row_messages vd (ents ! r) = ok (map (\<lambda>vs. (f vs, run vs)) (ents ! r))" if "r < n" for r
    unfolding row_messages_def using owner that by (intro traverse_ok) (simp add: run_def)
  then have msgs: "traverse (\<lambda>r. row_messages vd (ents ! r)) [0..<n] = ok ?msgs" by (intro traverse_ok) simp
  have "\<exists>m. own_rows r vd (ents ! r) = ok m \<and> dense m (sort ` {vs \<in> set (ents ! r). f vs = r})" if "r < n" for r
    using own_rows_dense[where f = f and m = "[]" and A = "{}" and self = r and rows = "ents ! r" and dist = vd] owner that
    by (simp add: own_rows_def)
  from traverse_choice[of n "\<lambda>r. own_rows r vd (ents ! r)" "\<lambda>r m. dense m (sort ` {vs \<in> set (ents ! r). f vs = r})", OF this]
  obtain maps where maps: "traverse (\<lambda>r. own_rows r vd (ents ! r)) [0..<n] = ok maps"
    "\<forall>r<n. dense (maps ! r) (sort ` {vs \<in> set (ents ! r). f vs = r})" by blast
  have mails: "post c ?msgs = ok ?mails"
    by (rule post_letters[OF c]) (use owner in \<open>auto simp: letter_runs sent_to_def\<close>)
  have "\<exists>st. read_entities n (?mails ! r) (maps ! r) = ok st \<and> dense (fst st) (owned f ents r) \<and>
      (\<forall>s<n. set (snd st ! s) = sort ` set (sent_to f ents r s))" if r: "r < n" for r
    using read_entities_dense[of "maps ! r" "sort ` {vs \<in> set (ents ! r). f vs = r}" "?mails ! r" "sent_to f ents r" n]
      maps(2) owned_split[of r ents f] r len by auto
  from traverse_choice[of n "\<lambda>r. read_entities n (?mails ! r) (maps ! r)" "\<lambda>r st. dense (fst st) (owned f ents r) \<and>
      (\<forall>s<n. set (snd st ! s) = sort ` set (sent_to f ents r s))", OF this]
  obtain states where states: "traverse (\<lambda>r. read_entities n (?mails ! r) (maps ! r)) [0..<n] = ok states"
    "length states = n" "\<forall>r<n. dense (fst (states ! r)) (owned f ents r) \<and>
      (\<forall>s<n. set (snd (states ! r) ! s) = sort ` set (sent_to f ents r s))" by blast
  have "\<forall>r<n. dense (fst (states ! r)) (owned f ents r)"
    "\<forall>r<n. \<forall>s<n. set (snd (states ! r) ! s) = sort ` set (sent_to f ents r s)" using states(3) by simp_all
  then show ?thesis using msgs maps(1) mails states(1,2) by (intro exI conjI)
qed


lemma min_list_sort: "vs \<noteq> [] \<Longrightarrow> min_list (sort vs) = min_list vs" for vs :: "nat list"
  by (metis min_list_Min set_empty set_sort)

lemma return_answers:
  assumes c: "mpi_works n c" and len: "length ents = n"
    and rows: "\<forall>s<n. \<forall>vs\<in>set (ents ! s). f vs < n"
    and maps: "length maps = n" "\<forall>r<n. part_of number (maps ! r) (owned f ents r)"
    and es: "\<forall>r<n. \<forall>s<n. set (es r ! s) = sort ` set (sent_to f ents r s)"
  shows "\<exists>mails final. exchange c (map (\<lambda>r. append_sends n (\<lambda>s. map (answer (maps ! r)) (es r ! s)) r) [0..<n]) = ok mails \<and>
    traverse (\<lambda>r. read_answers n (mails ! r) (maps ! r)) [0..<n] = ok final \<and> length final = n \<and>
    (\<forall>r<n. \<exists>A. part_of number (final ! r) A \<and> (\<forall>vs\<in>set (ents ! r). sort vs \<in> A))"
proof -
  define L where "L r s = (if r = s then [] else es s ! r)" for r s
  let ?M = "map (\<lambda>s. map (\<lambda>r. concat (map tagged (map (\<lambda>k. (number k, k)) (L r s)))) [0..<n]) [0..<n]"
  let ?mails = "map (\<lambda>r. mail_of (map (\<lambda>s. concat (map tagged (map (\<lambda>k. (number k, k)) (L r s)))) [0..<n])) [0..<n]"
  have own: "sort vs \<in> owned f ents s" if "vs \<in> set (sent_to f ents s r)" "r < n" for vs r s
    using that len by (auto simp: owned_def sent_to_def split: if_splits)
  have ans: "answer (maps ! s) k = tagged (number k, k)" if "s < n" "r < n" "k \<in> set (es s ! r)" for s r k
  proof -
    have "k \<in> owned f ents s" using that es own by auto
    then show ?thesis using maps(2) that(1) by (simp add: answer_def tagged_def part_of_def)
  qed
  have "append_sends n (\<lambda>s. map (answer (maps ! r)) (es r ! s)) r = mail_of (?M ! r)" if r: "r < n" for r
  proof -
    have "(if s = r then [] else concat (map (answer (maps ! r)) (es r ! s)))
        = concat (map tagged (map (\<lambda>k. (number k, k)) (L s r)))" if "s < n" for s
      using ans[OF r that] by (auto simp: L_def comp_def intro: arg_cong[where f = concat])
    then have "map (\<lambda>s. if s = r then [] else concat (map (answer (maps ! r)) (es r ! s))) [0..<n] = ?M ! r"
      using r by (auto intro!: map_cong)
    then show ?thesis unfolding append_sends_mail by (rule arg_cong)
  qed
  then have e1: "map (\<lambda>r. append_sends n (\<lambda>s. map (answer (maps ! r)) (es r ! s)) r) [0..<n] = map mail_of ?M"
    by (intro nth_equalityI) simp_all
  have sq: "square n ?M" by (auto simp: square_def)
  have e2: "map (\<lambda>r. mail_of (column ?M r)) [0..<n] = ?mails"
    by (intro map_cong refl arg_cong[where f = mail_of]) (simp add: column_def)
  have mails: "exchange c (map (\<lambda>r. append_sends n (\<lambda>s. map (answer (maps ! r)) (es r ! s)) r) [0..<n]) = ok ?mails"
    unfolding e1 e2[symmetric] by (rule exchange_matrix[OF c sq])
  have "\<exists>m. read_answers n (?mails ! r) (maps ! r) = ok m \<and> (\<exists>A. part_of number m A \<and> (\<forall>vs\<in>set (ents ! r). sort vs \<in> A))"
    if r: "r < n" for r
  proof -
    have "\<forall>s<n. \<forall>k\<in>set (L r s). sorted k" using es r by (auto simp: L_def)
    from read_answers_part[of number "maps ! r" "owned f ents r" "?mails ! r" "L r" n, OF _ _ this]
    obtain m where m: "read_answers n (?mails ! r) (maps ! r) = ok m" "part_of number m (owned f ents r \<union> (\<Union>s<n. set (L r s)))"
      using maps(2) r by auto
    moreover have "sort vs \<in> owned f ents r \<union> (\<Union>s<n. set (L r s))" if vs: "vs \<in> set (ents ! r)" for vs
    proof (cases "f vs = r")
      case True
      then have "sort vs \<in> owned f ents r" using vs r len by (auto simp: owned_def)
      then show ?thesis ..
    next
      case False
      then have "vs \<in> set (sent_to f ents (f vs) r)" using vs by (simp add: sent_to_def)
      then have "sort vs \<in> set (L r (f vs))" using es rows r vs False by (simp add: L_def)
      then show ?thesis using rows r vs by blast
    qed
    ultimately show ?thesis by blast
  qed
  from traverse_choice[of n "\<lambda>r. read_answers n (?mails ! r) (maps ! r)"
      "\<lambda>r m. \<exists>A. part_of number m A \<and> (\<forall>vs\<in>set (ents ! r). sort vs \<in> A)", OF this]
  obtain final where "traverse (\<lambda>r. read_answers n (?mails ! r) (maps ! r)) [0..<n] = ok final" "length final = n"
    "\<forall>r<n. \<exists>A. part_of number (final ! r) A \<and> (\<forall>vs\<in>set (ents ! r). sort vs \<in> A)" by blast
  then show ?thesis using mails by blast
qed

lemma map_of_shift [simp]: "map_of (shift_ids d m) k = map_option (\<lambda>i. i + d) (map_of m k)"
  by (induction m) (auto simp: shift_ids_def)

text \<open>The global numbering: the owners' numberings, shifted by the number of entities of the ranks before.\<close>

lemma shifted_parts:
  assumes "length ms = n" "\<forall>r<n. dense (ms ! r) (owned f ents r)" "length ents = n"
    and inv: "\<forall>s<n. \<forall>vs\<in>set (ents ! s). f (sort vs) = f vs \<and> f vs < n"
  shows "\<exists>number. bij_betw number (sort ` (\<Union>s<n. set (ents ! s))) {..<sum_list (map length ms)} \<and>
    (\<forall>r<n. part_of number (shift_ids (displacements (map length ms) ! r) (ms ! r)) (owned f ents r))"
proof (intro exI conjI allI impI)
  let ?d = "displacements (map length ms)"
  let ?number = "\<lambda>k. ?d ! f k + the (map_of (ms ! f k) k)"
  have own: "f k = r" if "k \<in> owned f ents r" for k r using that inv assms(3) by (auto simp: owned_def)
  have c: "map (\<lambda>r. length (ms ! r)) [0..<n] = map length ms" using assms(1) by (auto intro: nth_equalityI)
  have "bij_betw ?number (\<Union>r<n. owned f ents r) {..<sum_list (map length ms)}"
    using stacked_bij[of n "\<lambda>r k. the (map_of (ms ! r) k)" "owned f ents" "\<lambda>r. length (ms ! r)" f] assms(2) own
    unfolding c by (simp add: dense_def)
  moreover have "(\<Union>r<n. owned f ents r) = sort ` (\<Union>s<n. set (ents ! s))"
    using inv assms(3) by (auto simp: owned_def)
  ultimately show "bij_betw ?number (sort ` (\<Union>s<n. set (ents ! s))) {..<sum_list (map length ms)}" by simp
  fix r assume r: "r < n"
  have d: "dom (map_of (ms ! r)) = owned f ents r" using assms(2) r by (simp add: dense_def)
  show "part_of ?number (shift_ids (?d ! r) (ms ! r)) (owned f ents r)"
    unfolding part_of_def
  proof (rule ext)
    fix k
    show "map_of (shift_ids (?d ! r) (ms ! r)) k = (if k \<in> owned f ents r then Some (?number k) else None)"
    proof (cases "k \<in> owned f ents r")
      case True
      then obtain i where "map_of (ms ! r) k = Some i" using d by blast
      then show ?thesis using True own by simp
    next
      case False
      then have "map_of (ms ! r) k = None" unfolding d[symmetric] by auto
      then show ?thesis using False by simp
    qed
  qed
qed

section \<open>Correctness\<close>

text \<open>
  C10: \<open>match_ids\<close> makes the ranks agree: there is one numbering of the entities of the whole mesh by
  the integers from 0, a bijection, and every rank appends to its \<open>local_to_global\<close> the numbers of its
  entities in their local order and registers them in \<open>global_to_local\<close>.
\<close>

theorem match_ids_agree:
  assumes c: "mpi_works n c" and n: "0 < n" "n < 2 ^ 64 - 1" and len: "length mds = n" "length ents = n" "length ids = n"
    and mds: "\<forall>r<n. entities_are (mds ! r) (ents ! r)" and ne: "\<forall>r<n. [] \<notin> set (ents ! r)"
  shows "\<exists>number. bij_betw number (sort ` (\<Union>r<n. set (ents ! r))) {..<card (sort ` (\<Union>r<n. set (ents ! r)))} \<and>
    match_ids c mds ids = ok (map (\<lambda>r. register_ids (map (\<lambda>vs. number (sort vs)) (ents ! r)) (ids ! r)) [0..<n])"
proof -
  let ?tot = "fold max (map (\<lambda>md. fold max (mesh_l2g md) 0) mds) 0 + 1"
  let ?vd = "blocks ?tot n"
  define f where "f vs = (case rank_owner ?vd (min_list vs) of Inr r \<Rightarrow> r | Inl e \<Rightarrow> 0)" for vs
  have maxes: "mpi_allreduce_max c (map (\<lambda>md. fold max (mesh_l2g md) 0) mds) = replicate n (?tot - 1)"
    using c len by (simp add: mpi_works_def)
  have tot: "?tot mod 2 ^ 64 = ?tot"
    using entities_are_ids mds len(1) by (intro largest_id_succ) (metis in_set_conv_nth)
  have vds: "traverse (\<lambda>r. subdivide ((replicate n (?tot - 1) ! r + 1) mod 2 ^ 64) n []) [0..<n] = ok (map (\<lambda>r. ?vd) [0..<n])"
    using subdivide_blocks[OF n(1), of ?tot] tot by (intro traverse_ok) simp
  note vds = vds[unfolded map_replicate_const length_upt diff_zero]
  have rows: "traverse (\<lambda>r. entity_rows (mds ! r)) [0..<n] = ok (map ((!) ents) [0..<n])"
    using mds entity_rows_are by (intro traverse_ok) simp
  have ents: "map ((!) ents) [0..<n] = ents" using len(2) by (auto intro: nth_equalityI)
  have owner: "row_owner ?vd vs = ok (f vs) \<and> f vs < n \<and> f (sort vs) = f vs" if "r < n" "vs \<in> set (ents ! r)" for r vs
  proof -
    have nn: "vs \<noteq> []" using ne that by auto
    then have "min_list vs \<in> set vs" by (simp add: min_list_Min)
    then have "min_list vs \<in> set (mesh_l2g (mds ! r))" using mds that unfolding entities_are_def by fastforce
    then have "min_list vs \<le> fold max (mesh_l2g (mds ! r)) 0" by (rule fold_max_ge(2))
    also have "\<dots> \<le> fold max (map (\<lambda>md. fold max (mesh_l2g md) 0) mds) 0"
      using that(1) len(1) by (intro fold_max_ge(2)) simp
    finally obtain s where "s < n" "rank_owner ?vd (min_list vs) = ok s" using blocks_owner[OF n, of "min_list vs" ?tot] by auto
    then show ?thesis using nn by (simp add: row_owner_def f_def min_list_sort)
  qed
  have "\<forall>s<n. \<forall>vs\<in>set (ents ! s). row_owner ?vd vs = ok (f vs) \<and> f vs < n" using owner by blast
  from gather_entities[OF c len(2) this] obtain messages maps mails states where
    g: "traverse (\<lambda>r. row_messages ?vd (ents ! r)) [0..<n] = ok messages"
      "traverse (\<lambda>r. own_rows r ?vd (ents ! r)) [0..<n] = ok maps" "post c messages = ok mails"
      "traverse (\<lambda>r. read_entities n (mails ! r) (maps ! r)) [0..<n] = ok states" "length states = n"
    and st: "\<forall>r<n. dense (fst (states ! r)) (owned f ents r)"
      "\<forall>r<n. \<forall>s<n. set (snd (states ! r) ! s) = sort ` set (sent_to f ents r s)"
    by (elim exE conjE)
  let ?ms = "map fst states"
  have inv: "\<forall>s<n. \<forall>vs\<in>set (ents ! s). f (sort vs) = f vs \<and> f vs < n" using owner by blast
  have "\<forall>r<n. dense (?ms ! r) (owned f ents r)" using st(1) g(5) by simp
  from shifted_parts[OF _ this len(2) inv] g(5) obtain number where
    bij: "bij_betw number (sort ` (\<Union>s<n. set (ents ! s))) {..<sum_list (map length ?ms)}"
    and parts: "\<forall>r<n. part_of number (shift_ids (displacements (map length ?ms) ! r) (?ms ! r)) (owned f ents r)" by auto
  have card: "sum_list (map length ?ms) = card (sort ` (\<Union>s<n. set (ents ! s)))"
    using bij_betw_same_card[OF bij] by simp
  let ?maps = "map (\<lambda>r. shift_ids (replicate n (displacements (map length ?ms)) ! r ! r) (fst (states ! r))) [0..<n]"
  have lens: "map (\<lambda>(entities, _). length entities) states = map length ?ms" by auto
  have dists: "map displacements (mpi_allgather c (map length ?ms)) = replicate n (displacements (map length ?ms))"
    using c g(5) by (simp add: mpi_works_def)
  have "\<forall>r<n. part_of number (?maps ! r) (owned f ents r)" using parts g(5) by simp
  from return_answers[OF c len(2) _ _ this, of "\<lambda>r. snd (states ! r)"] inv st(2) obtain mails' final where
    a: "exchange c (map (\<lambda>r. append_sends n (\<lambda>s. map (answer (?maps ! r)) (snd (states ! r) ! s)) r) [0..<n]) = ok mails'"
      "traverse (\<lambda>r. read_answers n (mails' ! r) (?maps ! r)) [0..<n] = ok final"
      "\<forall>r<n. \<exists>A. part_of number (final ! r) A \<and> (\<forall>vs\<in>set (ents ! r). sort vs \<in> A)" by auto
  have "assign_ids (final ! r) (ents ! r) (ids ! r) = ok (register_ids (map (\<lambda>vs. number (sort vs)) (ents ! r)) (ids ! r))"
    if "r < n" for r using a(3) that assign_ids_part by blast
  then have fin: "traverse (\<lambda>r. assign_ids (final ! r) (ents ! r) (ids ! r)) [0..<n]
    = ok (map (\<lambda>r. register_ids (map (\<lambda>vs. number (sort vs)) (ents ! r)) (ids ! r)) [0..<n])"
    by (intro traverse_ok) simp
  have rep: "traverse (\<lambda>r. row_messages (replicate n ?vd ! r) (ents ! r)) [0..<n] = ok messages"
    "traverse (\<lambda>r. own_rows r (replicate n ?vd ! r) (ents ! r)) [0..<n] = ok maps"
    unfolding g(1,2)[symmetric] by (rule traverse_cong; simp)+
  have "match_ids c mds ids = ok (map (\<lambda>r. register_ids (map (\<lambda>vs. number (sort vs)) (ents ! r)) (ids ! r)) [0..<n])"
    unfolding match_ids_def Let_def len maxes vds and_then.simps rows ents rep g(3,4) lens dists a(1,2) fin ..
  moreover note bij[unfolded card]
  ultimately show ?thesis by (intro exI[of _ number] conjI)
qed


lemma match_ids_agree_witness:
  "\<exists>number. bij_betw number {[3, 5], [1, 3], [3, 6 :: nat]} {..<3 :: nat} \<and>
    match_ids (ideal_mpi 2)
      [\<lparr>mesh_num = 1, mesh_crs = crs_of [[0, 1], [1, 2]], mesh_l2g = [5, 3, 1]\<rparr>,
       \<lparr>mesh_num = 1, mesh_crs = crs_of [[1, 0], [0, 2]], mesh_l2g = [3, 1, 6]\<rparr>] [([], []), ([], [])]
    = ok [register_ids [number [3, 5], number [1, 3]] ([], []), register_ids [number [1, 3], number [3, 6]] ([], [])]"
proof -
  let ?a = "\<lparr>mesh_num = 1, mesh_crs = crs_of [[0, 1], [1, 2]], mesh_l2g = [5, 3, 1]\<rparr>"
  let ?b = "\<lparr>mesh_num = 1, mesh_crs = crs_of [[1, 0], [0, 2]], mesh_l2g = [3, 1, 6]\<rparr>"
  let ?ents = "[[[5, 3], [3, 1]], [[1, 3], [3, 6]]] :: nat list list list"
  have "entities_are ?a [[5, 3], [3, 1]]" unfolding entities_are_def by (intro conjI exI[of _ "[[0, 1], [1, 2]]"]) simp_all
  moreover have "entities_are ?b [[1, 3], [3, 6]]"
    unfolding entities_are_def by (intro conjI exI[of _ "[[1, 0], [0, 2]]"]) simp_all
  ultimately have e: "\<forall>r<2. entities_are ([?a, ?b] ! r) (?ents ! r)" by (simp add: less_2_cases_iff)
  have ne: "\<forall>r<2. [] \<notin> set (?ents ! r)" by (simp add: less_2_cases_iff)
  have r2: "[0..<2] = [0, Suc 0]" "{..<2::nat} = {0, Suc 0}" by (auto simp: numeral_2_eq_2)
  have k: "sort ` (\<Union>r<2. set (?ents ! r)) = {[3, 5], [1, 3], [3, 6]}" by (simp add: r2 insert_commute)
  then have card: "card (sort ` (\<Union>r<2. set (?ents ! r))) = 3" by simp
  show ?thesis
    using match_ids_agree[OF ideal_mpi_works _ _ _ _ _ e ne, of "[([], []), ([], [])]"]
    unfolding k card by (simp add: r2 numeral_3_eq_3)
qed

end
