(* ===== verification/Box_Coloring.thy ===== *)
theory Box_Coloring
  imports Flecsi_Prelude
begin

text \<open>
  coloring/box\_types.h and \<open>simple_box_colorer_t\<close> of coloring/simple\_box\_colorer.h: a block of
  \<open>grid_size\<close> cells is cut into \<open>ncolors\<close> boxes along each dimension, one box per rank, and every rank
  computes which of its cells it shares with which rank, which cells of other ranks it needs as ghosts,
  and the halo outside the domain.

  The dimension is the length of the lists.  The \<open>size_t\<close> values are integers here; the theorem
  \<open>box_values_in_range\<close> of Box\_Layout shows that they stay between 0 and 2 to the 64 for the inputs considered.
\<close>

section \<open>Boxes\<close>

record box =
  lowerbnd :: "int list"
  upperbnd :: "int list"

record box_color =
  color_box :: box
  colors :: "int list"

record box_info =
  info_box :: box
  nhalo :: int
  nhalo_domain :: int
  thru_dim :: nat
  onbnd :: "bool list"

record box_coloring_info =
  primary :: box_info
  exclusive :: box_color
  shared :: "box_color list"
  ghost :: "box_color list"
  domain_halo :: "box list"

section \<open>The colorer\<close>

text \<open>The position of a rank in the grid of colors.\<close>

definition get_index :: "nat \<Rightarrow> int list \<Rightarrow> nat \<Rightarrow> int \<times> int list \<Rightarrow> int \<times> int list" where
  "get_index D cobnds i = (\<lambda>(rem, index).
     let factor = fold (\<lambda>j factor. factor * cobnds ! j) [0..<D - i - 1] 1;
         val = rem div factor
     in (rem - val * factor, index[D - i - 1 := val]))"

definition get_indices :: "nat \<Rightarrow> int list \<Rightarrow> int \<Rightarrow> int list" where
  "get_indices D cobnds rank = snd (fold (get_index D cobnds) [0..<D] (rank, replicate D 0))"

definition create_primary_box :: "box \<Rightarrow> int list \<Rightarrow> int list \<Rightarrow> box" where
  "create_primary_box domain ncolors index =
     (let ne = (\<lambda>i. (upperbnd domain ! i - lowerbnd domain ! i + 1) div ncolors ! i)
      in \<lparr>lowerbnd = map (\<lambda>i. lowerbnd domain ! i + ne i * index ! i) [0..<length ncolors],
          upperbnd = map (\<lambda>i. if index ! i \<noteq> ncolors ! i - 1 then lowerbnd domain ! i + ne i * (index ! i + 1) - 1
            else upperbnd domain ! i) [0..<length ncolors]\<rparr>)"

text \<open>The inner box of the shared layers, and the outer boxes of the ghost and of the domain layers.\<close>

definition exclusive_bounds :: "int \<Rightarrow> bool list \<Rightarrow> box \<Rightarrow> box" where
  "exclusive_bounds hl bnd pbox = (let D = length (lowerbnd pbox) in
     \<lparr>lowerbnd = map (\<lambda>i. if \<not> bnd ! (2 * i) then lowerbnd pbox ! i + hl else lowerbnd pbox ! i) [0..<D],
      upperbnd = map (\<lambda>i. if \<not> bnd ! (2 * i + 1) then upperbnd pbox ! i - hl else upperbnd pbox ! i) [0..<D]\<rparr>)"

definition ghost_bounds :: "int \<Rightarrow> bool list \<Rightarrow> box \<Rightarrow> box" where
  "ghost_bounds hl bnd pbox = (let D = length (lowerbnd pbox) in
     \<lparr>lowerbnd = map (\<lambda>i. if \<not> bnd ! (2 * i) then lowerbnd pbox ! i - hl else lowerbnd pbox ! i) [0..<D],
      upperbnd = map (\<lambda>i. if \<not> bnd ! (2 * i + 1) then upperbnd pbox ! i + hl else upperbnd pbox ! i) [0..<D]\<rparr>)"

definition domain_bounds :: "int \<Rightarrow> bool list \<Rightarrow> box \<Rightarrow> box" where
  "domain_bounds hl bnd pbox = (let D = length (lowerbnd pbox) in
     \<lparr>lowerbnd = map (\<lambda>i. if bnd ! (2 * i) then lowerbnd pbox ! i - hl else lowerbnd pbox ! i) [0..<D],
      upperbnd = map (\<lambda>i. if bnd ! (2 * i + 1) then upperbnd pbox ! i + hl else upperbnd pbox ! i) [0..<D]\<rparr>)"

text \<open>The array \<open>IM\<close>: four cuts in each dimension, hence three layers, of which \<open>il\<close> and \<open>iu\<close> adjust the ends.\<close>

definition cuts :: "box \<Rightarrow> box \<Rightarrow> int list list" where
  "cuts outer inner = map (\<lambda>i. [lowerbnd outer ! i, lowerbnd inner ! i, upperbnd inner ! i, upperbnd outer ! i])
     [0..<length (lowerbnd outer)]"

definition il :: "int list" where "il = [0, 0, 1]"

definition iu :: "int list" where "iu = [1, 0, 0]"

definition layer :: "int list list \<Rightarrow> nat list \<Rightarrow> box" where
  "layer im ind =
     \<lparr>lowerbnd = map (\<lambda>d. im ! d ! (ind ! d) + il ! (ind ! d)) [0..<length ind],
      upperbnd = map (\<lambda>d. im ! d ! (ind ! d + 1) - iu ! (ind ! d)) [0..<length ind]\<rparr>"

definition cut_differs :: "int list list \<Rightarrow> nat \<Rightarrow> nat \<Rightarrow> bool" where
  "cut_differs im d i \<longleftrightarrow> im ! d ! i \<noteq> im ! d ! (i + 1)"

text \<open>The loop nests over the layers: the first index runs fastest.\<close>

definition layers_2 :: "nat list list" where
  "layers_2 = concat (map (\<lambda>j. map (\<lambda>i. [i, j]) [0..<3]) [0..<3])"

definition layers_3 :: "nat list list" where
  "layers_3 = concat (map (\<lambda>k. concat (map (\<lambda>j. map (\<lambda>i. [i, j, k]) [0..<3]) [0..<3])) [0..<3])"

subsection \<open>Shared boxes\<close>

definition color_of_2 :: "int list \<Rightarrow> int list \<Rightarrow> int" where
  "color_of_2 ncolors index = index ! 0 + ncolors ! 0 * index ! 1"

definition color_of_3 :: "int list \<Rightarrow> int list \<Rightarrow> int" where
  "color_of_3 ncolors index = index ! 0 + ncolors ! 0 * index ! 1 + ncolors ! 0 * ncolors ! 1 * index ! 2"

definition shared_flag_2 :: "int list list \<Rightarrow> nat \<Rightarrow> nat \<Rightarrow> bool" where
  "shared_flag_2 im i j =
     (if i = 1 \<and> j = 1 then False
      else if cut_differs im 0 i \<and> cut_differs im 1 j then True
      else if i = 1 \<and> \<not> cut_differs im 0 i \<and> cut_differs im 1 j then True
      else if j = 1 \<and> cut_differs im 0 i \<and> \<not> cut_differs im 1 j then True
      else False)"

definition shared_flag_3 :: "int list list \<Rightarrow> nat \<Rightarrow> nat \<Rightarrow> nat \<Rightarrow> bool" where
  "shared_flag_3 im i j k =
     (let x = cut_differs im 0 i; y = cut_differs im 1 j; z = cut_differs im 2 k in
      if i = 1 \<and> j = 1 \<and> k = 1 then False
      else if x \<and> y \<and> z then True
      else if i = 1 \<and> \<not> x \<and> y \<and> z then True
      else if j = 1 \<and> \<not> y \<and> x \<and> z then True
      else if k = 1 \<and> \<not> z \<and> x \<and> y then True
      else if i = 1 \<and> \<not> x \<and> j = 1 \<and> \<not> y \<and> z then True
      else if j = 1 \<and> \<not> y \<and> k = 1 \<and> \<not> z \<and> x then True
      else if k = 1 \<and> \<not> z \<and> i = 1 \<and> \<not> x \<and> y then True
      else False)"

definition face_colors :: "(int list \<Rightarrow> int) \<Rightarrow> int list \<Rightarrow> nat list \<Rightarrow> int list" where
  "face_colors color index ind = concat (map (\<lambda>d.
     if ind ! d = 0 then [color (index[d := index ! d - 1])]
     else if ind ! d = 2 then [color (index[d := index ! d + 1])]
     else []) [0..<length ind])"

definition corner_colors_2 :: "int list \<Rightarrow> int list \<Rightarrow> nat \<Rightarrow> nat \<Rightarrow> int list" where
  "corner_colors_2 ncolors index i j =
     (let color = (\<lambda>a b. [color_of_2 ncolors [index ! 0 + a, index ! 1 + b]]) in
      if i = 0 \<and> j = 0 then color (- 1) (- 1)
      else if i = 2 \<and> j = 0 then color 1 (- 1)
      else if i = 0 \<and> j = 2 then color (- 1) 1
      else if i = 2 \<and> j = 2 then color 1 1
      else [])"

text \<open>The array \<open>im\<close>: the pairs of dimensions of an edge.\<close>

definition edge_dims :: "(nat \<times> nat) list" where
  "edge_dims = [(0, 1), (1, 2), (2, 0)]"

definition edge_colors :: "int list \<Rightarrow> int list \<Rightarrow> nat list \<Rightarrow> int list" where
  "edge_colors ncolors index ind = concat (map (\<lambda>(p, q).
     let color = (\<lambda>a b. [color_of_3 ncolors (index[p := index ! p + a, q := index ! q + b])]) in
     (if ind ! p = 0 \<and> ind ! q = 0 then color (- 1) (- 1) else []) @
     (if ind ! p = 2 \<and> ind ! q = 0 then color 1 (- 1) else []) @
     (if ind ! p = 0 \<and> ind ! q = 2 then color (- 1) 1 else []) @
     (if ind ! p = 2 \<and> ind ! q = 2 then color 1 1 else [])) edge_dims)"

definition corner_colors_3 :: "int list \<Rightarrow> int list \<Rightarrow> nat \<Rightarrow> nat \<Rightarrow> nat \<Rightarrow> int list" where
  "corner_colors_3 ncolors index i j k =
     (let color = (\<lambda>a b c. [color_of_3 ncolors [index ! 0 + a, index ! 1 + b, index ! 2 + c]]) in
      if i = 0 \<and> j = 0 \<and> k = 0 then color (- 1) (- 1) (- 1)
      else if i = 2 \<and> j = 0 \<and> k = 0 then color 1 (- 1) (- 1)
      else if i = 0 \<and> j = 2 \<and> k = 0 then color (- 1) 1 (- 1)
      else if i = 2 \<and> j = 2 \<and> k = 0 then color 1 1 (- 1)
      else if i = 0 \<and> j = 0 \<and> k = 2 then color (- 1) (- 1) 1
      else if i = 2 \<and> j = 0 \<and> k = 2 then color 1 (- 1) 1
      else if i = 0 \<and> j = 2 \<and> k = 2 then color (- 1) 1 1
      else if i = 2 \<and> j = 2 \<and> k = 2 then color 1 1 1
      else [])"

definition shared_boxes_2 :: "int list list \<Rightarrow> nat \<Rightarrow> int list \<Rightarrow> int list \<Rightarrow> box_color list" where
  "shared_boxes_2 im TD ncolors index = map (\<lambda>ind.
     \<lparr>color_box = layer im ind,
      colors = face_colors (color_of_2 ncolors) index ind @
        (if TD = 0 then corner_colors_2 ncolors index (ind ! 0) (ind ! 1) else [])\<rparr>)
     (filter (\<lambda>ind. shared_flag_2 im (ind ! 0) (ind ! 1)) layers_2)"

definition shared_boxes_3 :: "int list list \<Rightarrow> nat \<Rightarrow> int list \<Rightarrow> int list \<Rightarrow> box_color list" where
  "shared_boxes_3 im TD ncolors index = map (\<lambda>ind.
     \<lparr>color_box = layer im ind,
      colors = face_colors (color_of_3 ncolors) index ind @
        (if TD \<le> 1 then edge_colors ncolors index ind else []) @
        (if TD = 0 then corner_colors_3 ncolors index (ind ! 0) (ind ! 1) (ind ! 2) else [])\<rparr>)
     (filter (\<lambda>ind. shared_flag_3 im (ind ! 0) (ind ! 1) (ind ! 2)) layers_3)"

definition create_exclusive_and_shared_boxes :: "box_info \<Rightarrow> int list \<Rightarrow> int list \<Rightarrow> int \<Rightarrow> box_color \<times> box_color list" where
  "create_exclusive_and_shared_boxes info ncolors index rank =
     (let ebox = exclusive_bounds (nhalo info) (onbnd info) (info_box info);
          im = cuts (info_box info) ebox
      in (\<lparr>color_box = ebox, colors = [rank]\<rparr>,
          (if length ncolors = 2 then shared_boxes_2 else shared_boxes_3) im (thru_dim info) ncolors index))"

subsection \<open>Ghost boxes\<close>

definition rankmap_2 :: "(nat \<times> int list) list" where
  "rankmap_2 = [(0, [-1, -1]), (1, [0, -1]), (0, [1, -1]), (1, [-1, 0]), (2, [0, 0]), (1, [1, 0]),
     (0, [-1, 1]), (1, [0, 1]), (0, [1, 1])]"

definition rankmap_3 :: "(nat \<times> int list) list" where
  "rankmap_3 = [(0, [-1, -1, -1]), (1, [0, -1, -1]), (0, [1, -1, -1]),
     (1, [-1, 0, -1]), (2, [0, 0, -1]), (1, [1, 0, -1]), (0, [-1, 1, -1]),
     (1, [0, 1, -1]), (0, [1, 1, -1]), (1, [-1, -1, 0]), (2, [0, -1, 0]),
     (1, [1, -1, 0]), (2, [-1, 0, 0]), (3, [0, 0, 0]), (2, [1, 0, 0]), (1, [-1, 1, 0]),
     (2, [0, 1, 0]), (1, [1, 1, 0]), (0, [-1, -1, 1]), (1, [0, -1, 1]),
     (0, [1, -1, 1]), (1, [-1, 0, 1]), (2, [0, 0, 1]), (1, [1, 0, 1]), (0, [-1, 1, 1]),
     (1, [0, 1, 1]), (0, [1, 1, 1])]"

definition ghost_boxes_2 :: "int list list \<Rightarrow> nat \<Rightarrow> int list \<Rightarrow> int list \<Rightarrow> box_color list" where
  "ghost_boxes_2 im TD ncolors index = concat (map (\<lambda>ind.
     if ind ! 0 = 1 \<and> ind ! 1 = 1 then []
     else if cut_differs im 0 (ind ! 0) \<and> cut_differs im 1 (ind ! 1) then
       (let (codim, shift) = rankmap_2 ! (ind ! 0 + 3 * ind ! 1) in
        if TD \<le> codim then
          [\<lparr>color_box = layer im ind,
            colors = [color_of_2 ncolors [index ! 0 + shift ! 0, index ! 1 + shift ! 1]]\<rparr>]
        else [])
     else []) layers_2)"

definition ghost_boxes_3 :: "int list list \<Rightarrow> nat \<Rightarrow> int list \<Rightarrow> int list \<Rightarrow> box_color list" where
  "ghost_boxes_3 im TD ncolors index = concat (map (\<lambda>ind.
     if ind ! 0 = 1 \<and> ind ! 1 = 1 \<and> ind ! 2 = 1 then []
     else if cut_differs im 0 (ind ! 0) \<and> cut_differs im 1 (ind ! 1) \<and> cut_differs im 2 (ind ! 2) then
       (let (codim, shift) = rankmap_3 ! (ind ! 0 + 3 * ind ! 1 + 9 * ind ! 2) in
        if TD \<le> codim then
          [\<lparr>color_box = layer im ind,
            colors = [color_of_3 ncolors [index ! 0 + shift ! 0, index ! 1 + shift ! 1, index ! 2 + shift ! 2]]\<rparr>]
        else [])
     else []) layers_3)"

definition create_ghost_boxes :: "box_info \<Rightarrow> int list \<Rightarrow> int list \<Rightarrow> box_color list" where
  "create_ghost_boxes info ncolors index =
     (let im = cuts (ghost_bounds (nhalo info) (onbnd info) (info_box info)) (info_box info)
      in (if length ncolors = 2 then ghost_boxes_2 else ghost_boxes_3) im (thru_dim info) ncolors index)"

subsection \<open>Domain halo\<close>

definition domain_layers_2 :: "int list list \<Rightarrow> box list" where
  "domain_layers_2 im = map (layer im) (filter (\<lambda>ind. \<not> (ind ! 0 = 1 \<and> ind ! 1 = 1) \<and>
     cut_differs im 0 (ind ! 0) \<and> cut_differs im 1 (ind ! 1)) layers_2)"

definition domain_layers_3 :: "int list list \<Rightarrow> box list" where
  "domain_layers_3 im = map (layer im) (filter (\<lambda>ind. \<not> (ind ! 0 = 1 \<and> ind ! 1 = 1 \<and> ind ! 2 = 1) \<and>
     cut_differs im 0 (ind ! 0) \<and> cut_differs im 1 (ind ! 1) \<and> cut_differs im 2 (ind ! 2)) layers_3)"

definition create_domain_halo_boxes :: "box_info \<Rightarrow> box list" where
  "create_domain_halo_boxes info =
     (let im = cuts (domain_bounds (nhalo_domain info) (onbnd info) (info_box info)) (info_box info)
      in if length im = 2 then domain_layers_2 im else if length im = 3 then domain_layers_3 im else [])"

subsection \<open>color\<close>

text \<open>The number of colors is multiplied up in an \<open>int\<close> of 32 bits.\<close>

definition count_colors :: "int list \<Rightarrow> int" where
  "count_colors ncolors = fold (\<lambda>n count. sint (word_of_int (count * n) :: 32 word)) ncolors 1"

definition box_domain :: "int list \<Rightarrow> int \<Rightarrow> box" where
  "box_domain grid_size nhd =
     \<lparr>lowerbnd = map (\<lambda>i. nhd) [0..<length grid_size],
      upperbnd = map (\<lambda>i. grid_size ! i + nhd - 1) [0..<length grid_size]\<rparr>"

definition boundary_sides :: "box \<Rightarrow> box \<Rightarrow> bool list" where
  "boundary_sides domain pbox = concat (map (\<lambda>i.
     [lowerbnd pbox ! i = lowerbnd domain ! i, upperbnd pbox ! i = upperbnd domain ! i])
     [0..<length (lowerbnd pbox)])"

definition box_color_rank :: "int \<Rightarrow> int \<Rightarrow> int list \<Rightarrow> int \<Rightarrow> int \<Rightarrow> nat \<Rightarrow> int list \<Rightarrow> box_coloring_info outcome" where
  "box_color_rank sz rank grid_size nh nhd td ncolors =
     require (count_colors ncolors = sz) (
     require (td < length ncolors) (
     let index = get_indices (length ncolors) ncolors rank;
         domain = box_domain grid_size nhd;
         pbox = create_primary_box domain ncolors index;
         info = \<lparr>info_box = pbox, nhalo = nh, nhalo_domain = nhd, thru_dim = td, onbnd = boundary_sides domain pbox\<rparr>;
         (ex, sh) = create_exclusive_and_shared_boxes info ncolors index rank
     in ok \<lparr>primary = info, exclusive = ex, shared = sh, ghost = create_ghost_boxes info ncolors index,
            domain_halo = create_domain_halo_boxes info\<rparr>))"

end
