(* ===== verification/Box_Directions.thy ===== *)
theory Box_Directions
  imports Box_Coloring
begin

text \<open>
  The code of the box colorer for two and for three dimensions is written out case by case;
  \<open>box_layout\<close> says what both have in common, in terms of directions, and both are shown to be
  instances of it.
\<close>

section \<open>Directions\<close>

text \<open>
  A direction gives for each dimension the layer 0, 1 or 2: before, inside or behind the inner box.  The
  ranks a box in that direction concerns are reached by steps of -1, 0 or 1 that agree with it.
\<close>

definition grid :: "nat \<Rightarrow> nat list set" where
  "grid D = {ind. length ind = D \<and> (\<forall>d<D. ind ! d < 3)}"

definition centre :: "nat list \<Rightarrow> bool" where
  "centre ind \<longleftrightarrow> (\<forall>d<length ind. ind ! d = 1)"

definition step_of :: "nat list \<Rightarrow> int list" where
  "step_of ind = map (\<lambda>i. int i - 1) ind"

definition toward :: "int list \<Rightarrow> nat list \<Rightarrow> bool" where
  "toward e ind \<longleftrightarrow> length e = length ind \<and> (\<forall>d<length ind. e ! d = 0 \<or> e ! d = int (ind ! d) - 1)"

definition weight :: "int list \<Rightarrow> nat" where
  "weight e = length (filter (\<lambda>x. x \<noteq> 0) e)"

definition shift :: "int list \<Rightarrow> int list \<Rightarrow> int list" where
  "shift index e = map2 (+) index e"

definition shared_dir :: "int list list \<Rightarrow> nat list \<Rightarrow> bool" where
  "shared_dir im ind \<longleftrightarrow> \<not> centre ind \<and> (\<forall>d<length ind. ind ! d \<noteq> 1 \<longrightarrow> cut_differs im d (ind ! d))"

definition full_dir :: "int list list \<Rightarrow> nat list \<Rightarrow> bool" where
  "full_dir im ind \<longleftrightarrow> \<not> centre ind \<and> (\<forall>d<length ind. cut_differs im d (ind ! d))"

definition position :: "int list \<Rightarrow> int list \<Rightarrow> bool" where
  "position ncolors index \<longleftrightarrow> length index = length ncolors \<and>
     (\<forall>d<length ncolors. 0 \<le> index ! d \<and> index ! d < ncolors ! d)"

locale box_layout =
  fixes D :: nat and color :: "int list \<Rightarrow> int list \<Rightarrow> int" and dirs :: "nat list list"
    and shared_boxes ghost_boxes :: "int list list \<Rightarrow> nat \<Rightarrow> int list \<Rightarrow> int list \<Rightarrow> box_color list"
    and halo_boxes :: "int list list \<Rightarrow> box list"
  assumes dirs: "set dirs = grid D" "distinct dirs"
    and color_inj: "length ncolors = D \<Longrightarrow> position ncolors a \<Longrightarrow> position ncolors b \<Longrightarrow>
      color ncolors a = color ncolors b \<Longrightarrow> a = b"
    and indices: "length ncolors = D \<Longrightarrow> \<forall>n\<in>set ncolors. 0 < n \<Longrightarrow> 0 \<le> r \<Longrightarrow> r < prod_list ncolors \<Longrightarrow>
      position ncolors (get_indices D ncolors r) \<and> color ncolors (get_indices D ncolors r) = r"
    and color_range: "length ncolors = D \<Longrightarrow> position ncolors a \<Longrightarrow> 0 \<le> color ncolors a \<and> color ncolors a < prod_list ncolors"
    and shared_boxes: "TD < D \<Longrightarrow> length index = D \<Longrightarrow> \<exists>cs. shared_boxes im TD ncolors index =
        map (\<lambda>ind. \<lparr>color_box = layer im ind, colors = cs ind\<rparr>) (filter (shared_dir im) dirs) \<and>
      (\<forall>ind\<in>grid D. set (cs ind) = {color ncolors (shift index e) | e. toward e ind \<and> 0 < weight e \<and> weight e + TD \<le> D})"
    and ghost_boxes: "TD < D \<Longrightarrow> length index = D \<Longrightarrow> ghost_boxes im TD ncolors index =
        map (\<lambda>ind. \<lparr>color_box = layer im ind, colors = [color ncolors (shift index (step_of ind))]\<rparr>)
          (filter (\<lambda>ind. full_dir im ind \<and> weight (step_of ind) + TD \<le> D) dirs)"
    and halo_boxes: "halo_boxes im = map (layer im) (filter (full_dir im) dirs)"

subsection \<open>Two and three dimensions\<close>

lemma three: "{i. i < 3} = {0, 1, 2 :: nat}" "[0..<3] = [0, 1, 2]"
  by (auto simp: numeral_3_eq_3)

lemma layers_2: "layers_2 = [[0, 0], [1, 0], [2, 0], [0, 1], [1, 1], [2, 1], [0, 2], [1, 2], [2, 2]]"
  by (simp add: layers_2_def three)

lemma layers_3: "layers_3 = [
    [0, 0, 0], [1, 0, 0], [2, 0, 0], [0, 1, 0], [1, 1, 0], [2, 1, 0], [0, 2, 0], [1, 2, 0], [2, 2, 0],
    [0, 0, 1], [1, 0, 1], [2, 0, 1], [0, 1, 1], [1, 1, 1], [2, 1, 1], [0, 2, 1], [1, 2, 1], [2, 2, 1],
    [0, 0, 2], [1, 0, 2], [2, 0, 2], [0, 1, 2], [1, 1, 2], [2, 1, 2], [0, 2, 2], [1, 2, 2], [2, 2, 2]]"
  by (simp add: layers_3_def three)

lemma less_3: "i < 3 \<longleftrightarrow> i = 0 \<or> i = 1 \<or> i = (2::nat)"
  by auto

lemma all_less_2: "(\<forall>d<2. P d) \<longleftrightarrow> P 0 \<and> P (1::nat)"
  by (auto simp: less_2_cases_iff)

lemma all_less_3: "(\<forall>d<3. P d) \<longleftrightarrow> P 0 \<and> P 1 \<and> P (2::nat)"
  by (auto simp: less_3)

lemma length_2: "length xs = 2 \<longleftrightarrow> (\<exists>x y. xs = [x, y])"
  by (auto simp: length_Suc_conv numeral_2_eq_2)

lemma length_3: "length xs = 3 \<longleftrightarrow> (\<exists>x y z. xs = [x, y, z])"
  by (auto simp: length_Suc_conv numeral_3_eq_3)

lemma dirs_2: "set layers_2 = grid 2"
proof -
  have "ind \<in> set layers_2 \<longleftrightarrow> (\<exists>x<3. \<exists>y<3. ind = [x, y])" for ind
    unfolding layers_2_def by (auto simp: image_iff)
  then show ?thesis by (auto simp: grid_def all_less_2 length_2)
qed

lemma dirs_3: "set layers_3 = grid 3"
proof -
  have "ind \<in> set layers_3 \<longleftrightarrow> (\<exists>x<3. \<exists>y<3. \<exists>z<3. ind = [x, y, z])" for ind
    unfolding layers_3_def by (auto simp: image_iff)
  then show ?thesis by (auto simp: grid_def all_less_3 length_3)
qed

text \<open>The steps toward a direction, as a list.\<close>

definition steps :: "nat list \<Rightarrow> int list list" where
  "steps ind = product_lists (map (\<lambda>i. if i = 1 then [0] else [0, int i - 1]) ind)"

lemma steps_toward: "e \<in> set (steps ind) \<longleftrightarrow> toward e ind"
proof -
  have "e \<in> set (steps ind) \<longleftrightarrow> list_all2 (\<lambda>x i. x = 0 \<or> x = int i - 1) e ind"
    unfolding steps_def product_lists_set list_all2_map2 by (simp, intro iffI; erule list_all2_mono) (auto split: if_splits)
  then show ?thesis by (auto simp: toward_def list_all2_conv_all_nth)
qed

lemma toward_colors:
  "{color ncolors (shift index e) | e. toward e ind \<and> 0 < weight e \<and> weight e + TD \<le> D}
   = set (map (\<lambda>e. color ncolors (shift index e)) (filter (\<lambda>e. 0 < weight e \<and> weight e + TD \<le> D) (steps ind)))"
  by (auto simp: steps_toward)

lemmas evaluate_steps = steps_def weight_def shift_def face_colors_def

lemma mixed_radix:
  "0 \<le> x \<Longrightarrow> x < n \<Longrightarrow> 0 \<le> x' \<Longrightarrow> x' < n \<Longrightarrow> x + n * y = x' + n * y' \<Longrightarrow> x = x' \<and> y = y'" for x n y :: int
proof -
  assume r: "0 \<le> x" "x < n" "0 \<le> x'" "x' < n" and eq: "x + n * y = x' + n * y'"
  have "x = x'" using arg_cong[OF eq, of "\<lambda>k. k mod n"] r by simp
  then show ?thesis using eq r by simp
qed

lemma digit_range: "0 \<le> r \<Longrightarrow> 0 < n \<Longrightarrow> r < n * m \<Longrightarrow> 0 \<le> r div n \<and> r div n < m" for r n m :: int
proof -
  assume r: "0 \<le> r" "0 < n" "r < n * m"
  have "n * (r div n) \<le> r" using r(2) mult_div_mod_eq[of n r] pos_mod_sign[of n r] by linarith
  then have "n * (r div n) < n * m" using r(3) by linarith
  then show ?thesis using r by (simp add: pos_imp_zdiv_nonneg_iff)
qed

lemma number_range: "0 \<le> x \<Longrightarrow> x < n \<Longrightarrow> 0 \<le> y \<Longrightarrow> y < m \<Longrightarrow> 0 \<le> x + n * y \<and> x + n * y < n * m" for x n y m :: int
proof -
  assume "0 \<le> x" "x < n" "0 \<le> y" "y < m"
  moreover from this have "n * y + n \<le> n * m" using mult_left_mono[of "y + 1" m n] by (simp add: algebra_simps)
  ultimately show ?thesis by simp
qed

lemma position_2: "position [n, m] a \<longleftrightarrow> (\<exists>x y. a = [x, y] \<and> 0 \<le> x \<and> x < n \<and> 0 \<le> y \<and> y < m)"
  by (auto simp: position_def length_Suc_conv All_less_Suc)

lemma position_3: "position [n, m, l] a \<longleftrightarrow>
    (\<exists>x y z. a = [x, y, z] \<and> 0 \<le> x \<and> x < n \<and> 0 \<le> y \<and> y < m \<and> 0 \<le> z \<and> z < l)"
  by (auto simp: position_def length_Suc_conv All_less_Suc)

lemma color_inj_2: "length ncolors = 2 \<Longrightarrow> position ncolors a \<Longrightarrow> position ncolors b \<Longrightarrow>
    color_of_2 ncolors a = color_of_2 ncolors b \<Longrightarrow> a = b"
proof -
  assume "length ncolors = 2" "position ncolors a" "position ncolors b" and eq: "color_of_2 ncolors a = color_of_2 ncolors b"
  then obtain n m x y x' y' where v: "ncolors = [n, m]" "a = [x, y]" "b = [x', y']"
    and r: "0 \<le> x" "x < n" "0 \<le> x'" "x' < n"
    by (auto simp: length_2 position_2)
  show ?thesis using mixed_radix[OF r, of y y'] eq by (simp add: v color_of_2_def)
qed

lemma color_inj_3: "length ncolors = 3 \<Longrightarrow> position ncolors a \<Longrightarrow> position ncolors b \<Longrightarrow>
    color_of_3 ncolors a = color_of_3 ncolors b \<Longrightarrow> a = b"
proof -
  assume "length ncolors = 3" "position ncolors a" "position ncolors b" and eq: "color_of_3 ncolors a = color_of_3 ncolors b"
  then obtain n m l x y z x' y' z' where v: "ncolors = [n, m, l]" "a = [x, y, z]" "b = [x', y', z']"
    and r: "0 \<le> x" "x < n" "0 \<le> y" "y < m" "0 \<le> x'" "x' < n" "0 \<le> y'" "y' < m"
    by (auto simp: length_3 position_3)
  have "x + n * (y + m * z) = x' + n * (y' + m * z')" using eq v by (simp add: color_of_3_def algebra_simps)
  from mixed_radix[OF r(1,2,5,6) this] have "x = x'" "y + m * z = y' + m * z'" by simp_all
  then show ?thesis using mixed_radix[OF r(3,4,7,8), of z z'] by (simp add: v)
qed

lemma indices_2: "length ncolors = 2 \<Longrightarrow> \<forall>n\<in>set ncolors. 0 < n \<Longrightarrow> 0 \<le> r \<Longrightarrow> r < prod_list ncolors \<Longrightarrow>
    position ncolors (get_indices 2 ncolors r) \<and> color_of_2 ncolors (get_indices 2 ncolors r) = r"
proof -
  assume "length ncolors = 2" and p: "\<forall>n\<in>set ncolors. 0 < n" "0 \<le> r" "r < prod_list ncolors"
  then obtain n m where v: "ncolors = [n, m]" by (auto simp: length_2)
  have "get_indices 2 ncolors r = [r mod n, r div n]"
    by (simp add: get_indices_def get_index_def v numeral_2_eq_2 minus_div_mult_eq_mod)
  then show ?thesis using p v digit_range[of r n m] by (simp add: position_2 color_of_2_def)
qed

lemma indices_3: "length ncolors = 3 \<Longrightarrow> \<forall>n\<in>set ncolors. 0 < n \<Longrightarrow> 0 \<le> r \<Longrightarrow> r < prod_list ncolors \<Longrightarrow>
    position ncolors (get_indices 3 ncolors r) \<and> color_of_3 ncolors (get_indices 3 ncolors r) = r"
proof -
  assume "length ncolors = 3" and p: "\<forall>n\<in>set ncolors. 0 < n" "0 \<le> r" "r < prod_list ncolors"
  then obtain n m l where v: "ncolors = [n, m, l]" by (auto simp: length_3)
  let ?q = "r mod (n * m)"
  have g: "get_indices 3 ncolors r = [?q mod n, ?q div n, r div (n * m)]"
    by (simp add: get_indices_def get_index_def v numeral_3_eq_3 minus_div_mult_eq_mod Let_def)
  have nm: "0 < n" "0 < n * m" using p v by simp_all
  then have "0 \<le> ?q" "?q < n * m" by simp_all
  then have "0 \<le> ?q div n \<and> ?q div n < m" using nm by (intro digit_range)
  moreover have "0 \<le> r div (n * m) \<and> r div (n * m) < l" using nm p v by (intro digit_range) (simp_all add: ac_simps)
  moreover have "?q mod n + n * (?q div n) + n * m * (r div (n * m)) = r" by (simp only: mod_mult_div_eq)
  ultimately show ?thesis using nm(1) unfolding g by (simp add: v position_3 color_of_3_def)
qed

lemma color_range_2: "length ncolors = 2 \<Longrightarrow> position ncolors a \<Longrightarrow>
    0 \<le> color_of_2 ncolors a \<and> color_of_2 ncolors a < prod_list ncolors"
  using number_range by (auto simp: length_2 position_2 color_of_2_def)

lemma color_range_3: "length ncolors = 3 \<Longrightarrow> position ncolors a \<Longrightarrow>
    0 \<le> color_of_3 ncolors a \<and> color_of_3 ncolors a < prod_list ncolors"
proof -
  assume "length ncolors = 3" "position ncolors a"
  then obtain n m l x y z where v: "ncolors = [n, m, l]" "a = [x, y, z]" "0 \<le> x" "x < n" "0 \<le> y" "y < m" "0 \<le> z" "z < l"
    by (auto simp: length_3 position_3)
  have "0 \<le> y + m * z \<and> y + m * z < m * l" using v by (intro number_range)
  from number_range[of x n "y + m * z" "m * l"] this v show ?thesis by (simp add: color_of_3_def algebra_simps)
qed

lemma concat_choice: "concat (map (\<lambda>x. if P x then [f x] else []) xs) = map f (filter P xs)"
  by (induction xs) auto

subsection \<open>The code for two dimensions\<close>

lemma shared_flag_2_dir: "ind \<in> grid 2 \<Longrightarrow> shared_flag_2 im (ind ! 0) (ind ! 1) = shared_dir im ind"
  by (auto simp: grid_def shared_flag_2_def shared_dir_def centre_def all_less_2)

lemma shared_colors_2:
  assumes "TD < 2" "length index = 2" "ind \<in> grid 2"
  shows "set (face_colors (color_of_2 ncolors) index ind @
      (if TD = 0 then corner_colors_2 ncolors index (ind ! 0) (ind ! 1) else []))
    = {color_of_2 ncolors (shift index e) | e. toward e ind \<and> 0 < weight e \<and> weight e + TD \<le> 2}"
proof -
  obtain x y where index: "index = [x, y]" using assms(2) by (auto simp: length_2)
  from assms(1) have "TD = 0 \<or> TD = 1" by auto
  moreover from assms(3) have "ind \<in> set layers_2" by (simp add: dirs_2)
  ultimately show ?thesis
    unfolding toward_colors layers_2 index list.set insert_iff empty_iff
    by (elim disjE FalseE) (simp_all add: evaluate_steps corner_colors_2_def color_of_2_def insert_commute)
qed

lemma shared_boxes_2_dirs:
  assumes "TD < 2" "length index = 2"
  shows "\<exists>cs. shared_boxes_2 im TD ncolors index =
      map (\<lambda>ind. \<lparr>color_box = layer im ind, colors = cs ind\<rparr>) (filter (shared_dir im) layers_2) \<and>
    (\<forall>ind\<in>grid 2. set (cs ind) = {color_of_2 ncolors (shift index e) | e. toward e ind \<and> 0 < weight e \<and> weight e + TD \<le> 2})"
proof (intro exI conjI ballI)
  show "shared_boxes_2 im TD ncolors index =
      map (\<lambda>ind. \<lparr>color_box = layer im ind, colors = face_colors (color_of_2 ncolors) index ind @
        (if TD = 0 then corner_colors_2 ncolors index (ind ! 0) (ind ! 1) else [])\<rparr>) (filter (shared_dir im) layers_2)"
    unfolding shared_boxes_2_def by (intro arg_cong2[where f = map] filter_cong refl) (simp only: shared_flag_2_dir dirs_2)
qed (rule shared_colors_2[OF assms])

lemma full_dir_2: "ind \<in> grid 2 \<Longrightarrow>
    full_dir im ind \<longleftrightarrow> \<not> (ind ! 0 = 1 \<and> ind ! 1 = 1) \<and> cut_differs im 0 (ind ! 0) \<and> cut_differs im 1 (ind ! 1)"
  by (auto simp: grid_def full_dir_def centre_def all_less_2)

lemma rankmap_2: "ind \<in> grid 2 \<Longrightarrow> rankmap_2 ! (ind ! 0 + 3 * ind ! 1) = (2 - weight (step_of ind), step_of ind)"
  unfolding dirs_2[symmetric] layers_2 by (auto simp: rankmap_2_def weight_def step_of_def)

lemma ghost_boxes_2_dirs:
  assumes "TD < 2" "length index = 2"
  shows "ghost_boxes_2 im TD ncolors index =
    map (\<lambda>ind. \<lparr>color_box = layer im ind, colors = [color_of_2 ncolors (shift index (step_of ind))]\<rparr>)
      (filter (\<lambda>ind. full_dir im ind \<and> weight (step_of ind) + TD \<le> 2) layers_2)"
proof -
  obtain x y where index: "index = [x, y]" using assms(2) by (auto simp: length_2)
  have "(if ind ! 0 = 1 \<and> ind ! 1 = 1 then []
     else if cut_differs im 0 (ind ! 0) \<and> cut_differs im 1 (ind ! 1) then
       (let (codim, shift) = rankmap_2 ! (ind ! 0 + 3 * ind ! 1) in
        if TD \<le> codim then [\<lparr>color_box = layer im ind,
            colors = [color_of_2 ncolors [index ! 0 + shift ! 0, index ! 1 + shift ! 1]]\<rparr>] else [])
     else [])
    = (if full_dir im ind \<and> weight (step_of ind) + TD \<le> 2
       then [\<lparr>color_box = layer im ind, colors = [color_of_2 ncolors (shift index (step_of ind))]\<rparr>] else [])"
    if "ind \<in> set layers_2" for ind
  proof -
    have g: "ind \<in> grid 2" using that by (simp add: dirs_2)
    then obtain i j where "ind = [i, j]" by (auto simp: grid_def length_2)
    then have "shift index (step_of ind) = [index ! 0 + step_of ind ! 0, index ! 1 + step_of ind ! 1]" "weight (step_of ind) \<le> 2"
      by (simp_all add: index shift_def step_of_def weight_def)
    then show ?thesis using g assms(1) by (simp add: full_dir_2 rankmap_2 del: One_nat_def) linarith
  qed
  then show ?thesis
    unfolding ghost_boxes_2_def concat_choice[symmetric] by (rule arg_cong[OF map_cong[OF refl]])
qed

lemma halo_boxes_2_dirs: "domain_layers_2 im = map (layer im) (filter (full_dir im) layers_2)"
  unfolding domain_layers_2_def by (intro arg_cong2[where f = map] filter_cong refl) (simp only: full_dir_2 dirs_2)

subsection \<open>The code for three dimensions\<close>

lemma shared_flag_3_dir: "ind \<in> grid 3 \<Longrightarrow> shared_flag_3 im (ind ! 0) (ind ! 1) (ind ! 2) = shared_dir im ind"
proof -
  assume "ind \<in> grid 3"
  then have "shared_dir im ind \<longleftrightarrow> \<not> (ind ! 0 = 1 \<and> ind ! 1 = 1 \<and> ind ! 2 = 1) \<and> (ind ! 0 \<noteq> 1 \<longrightarrow> cut_differs im 0 (ind ! 0)) \<and>
      (ind ! 1 \<noteq> 1 \<longrightarrow> cut_differs im 1 (ind ! 1)) \<and> (ind ! 2 \<noteq> 1 \<longrightarrow> cut_differs im 2 (ind ! 2))"
    unfolding grid_def shared_dir_def centre_def by (simp add: all_less_3)
  then show ?thesis
    unfolding shared_flag_3_def Let_def by (cases "ind ! 0 = 1"; cases "ind ! 1 = 1"; cases "ind ! 2 = 1"; simp) blast+
qed

lemma shared_colors_3:
  assumes "TD < 3" "length index = 3" "ind \<in> grid 3"
  shows "set (face_colors (color_of_3 ncolors) index ind @
      (if TD \<le> 1 then edge_colors ncolors index ind else []) @
      (if TD = 0 then corner_colors_3 ncolors index (ind ! 0) (ind ! 1) (ind ! 2) else []))
    = {color_of_3 ncolors (shift index e) | e. toward e ind \<and> 0 < weight e \<and> weight e + TD \<le> 3}"
proof -
  obtain x y z where index: "index = [x, y, z]" using assms(2) by (auto simp: length_3)
  from assms(1) have "TD = 0 \<or> TD = 1 \<or> TD = 2" by auto
  moreover from assms(3) have "ind \<in> set layers_3" by (simp add: dirs_3)
  ultimately show ?thesis
    unfolding toward_colors layers_3 index list.set insert_iff empty_iff
    by (elim disjE FalseE) (simp_all add: evaluate_steps edge_colors_def edge_dims_def corner_colors_3_def color_of_3_def insert_commute)
qed

lemma shared_boxes_3_dirs:
  assumes "TD < 3" "length index = 3"
  shows "\<exists>cs. shared_boxes_3 im TD ncolors index =
      map (\<lambda>ind. \<lparr>color_box = layer im ind, colors = cs ind\<rparr>) (filter (shared_dir im) layers_3) \<and>
    (\<forall>ind\<in>grid 3. set (cs ind) = {color_of_3 ncolors (shift index e) | e. toward e ind \<and> 0 < weight e \<and> weight e + TD \<le> 3})"
proof (intro exI conjI ballI)
  show "shared_boxes_3 im TD ncolors index =
      map (\<lambda>ind. \<lparr>color_box = layer im ind, colors = face_colors (color_of_3 ncolors) index ind @
        (if TD \<le> 1 then edge_colors ncolors index ind else []) @
        (if TD = 0 then corner_colors_3 ncolors index (ind ! 0) (ind ! 1) (ind ! 2) else [])\<rparr>) (filter (shared_dir im) layers_3)"
    unfolding shared_boxes_3_def by (intro arg_cong2[where f = map] filter_cong refl) (simp only: shared_flag_3_dir dirs_3)
qed (rule shared_colors_3[OF assms])

lemma full_dir_3: "ind \<in> grid 3 \<Longrightarrow> full_dir im ind \<longleftrightarrow> \<not> (ind ! 0 = 1 \<and> ind ! 1 = 1 \<and> ind ! 2 = 1) \<and>
    cut_differs im 0 (ind ! 0) \<and> cut_differs im 1 (ind ! 1) \<and> cut_differs im 2 (ind ! 2)"
  by (auto simp: grid_def full_dir_def centre_def all_less_3)

lemma rankmap_3: "ind \<in> grid 3 \<Longrightarrow>
    rankmap_3 ! (ind ! 0 + 3 * ind ! 1 + 9 * ind ! 2) = (3 - weight (step_of ind), step_of ind)"
  unfolding dirs_3[symmetric] layers_3 list.set insert_iff empty_iff
  by (elim disjE FalseE) (simp_all add: rankmap_3_def weight_def step_of_def)

lemma ghost_boxes_3_dirs:
  assumes "TD < 3" "length index = 3"
  shows "ghost_boxes_3 im TD ncolors index =
    map (\<lambda>ind. \<lparr>color_box = layer im ind, colors = [color_of_3 ncolors (shift index (step_of ind))]\<rparr>)
      (filter (\<lambda>ind. full_dir im ind \<and> weight (step_of ind) + TD \<le> 3) layers_3)"
proof -
  obtain x y z where index: "index = [x, y, z]" using assms(2) by (auto simp: length_3)
  have "(if ind ! 0 = 1 \<and> ind ! 1 = 1 \<and> ind ! 2 = 1 then []
     else if cut_differs im 0 (ind ! 0) \<and> cut_differs im 1 (ind ! 1) \<and> cut_differs im 2 (ind ! 2) then
       (let (codim, shift) = rankmap_3 ! (ind ! 0 + 3 * ind ! 1 + 9 * ind ! 2) in
        if TD \<le> codim then [\<lparr>color_box = layer im ind,
            colors = [color_of_3 ncolors [index ! 0 + shift ! 0, index ! 1 + shift ! 1, index ! 2 + shift ! 2]]\<rparr>] else [])
     else [])
    = (if full_dir im ind \<and> weight (step_of ind) + TD \<le> 3
       then [\<lparr>color_box = layer im ind, colors = [color_of_3 ncolors (shift index (step_of ind))]\<rparr>] else [])"
    if "ind \<in> set layers_3" for ind
  proof -
    have g: "ind \<in> grid 3" using that by (simp add: dirs_3)
    then obtain i j k where "ind = [i, j, k]" by (auto simp: grid_def length_3)
    then have "shift index (step_of ind) = [index ! 0 + step_of ind ! 0, index ! 1 + step_of ind ! 1, index ! 2 + step_of ind ! 2]"
      "weight (step_of ind) \<le> 3"
      by (simp_all add: index shift_def step_of_def weight_def)
    then show ?thesis using g assms(1) by (simp add: full_dir_3 rankmap_3 del: One_nat_def) linarith
  qed
  then show ?thesis
    unfolding ghost_boxes_3_def concat_choice[symmetric] by (rule arg_cong[OF map_cong[OF refl]])
qed

lemma halo_boxes_3_dirs: "domain_layers_3 im = map (layer im) (filter (full_dir im) layers_3)"
  unfolding domain_layers_3_def by (intro arg_cong2[where f = map] filter_cong refl) (simp only: full_dir_3 dirs_3)

text \<open>Both instances of the code have the common layout.\<close>

interpretation plane: box_layout 2 color_of_2 layers_2 shared_boxes_2 ghost_boxes_2 domain_layers_2
  by (unfold_locales; (rule dirs_2 color_inj_2 indices_2 color_range_2 shared_boxes_2_dirs ghost_boxes_2_dirs halo_boxes_2_dirs;
      assumption)?) (simp add: layers_2)

interpretation space: box_layout 3 color_of_3 layers_3 shared_boxes_3 ghost_boxes_3 domain_layers_3
  by (unfold_locales; (rule dirs_3 color_inj_3 indices_3 color_range_3 shared_boxes_3_dirs ghost_boxes_3_dirs halo_boxes_3_dirs;
      assumption)?) (simp add: layers_3)

end
