(* ===== verification/Box_Layout.thy ===== *)
theory Box_Layout
  imports Box_Directions
begin

text \<open>
  Correctness of the box colorer: the cuts of one dimension, the boxes of a rank in any number of
  dimensions (inside the interface \<open>box_layout\<close>), and the theorems about the code from its two instances.
\<close>

section \<open>One dimension\<close>

text \<open>The interval of the primary boxes at position \<open>a\<close> of \<open>c\<close> in a dimension of \<open>n\<close> cells.\<close>

definition slab_lo :: "int \<Rightarrow> int \<Rightarrow> int \<Rightarrow> int \<Rightarrow> int" where
  "slab_lo nhd n c a = nhd + (n div c) * a"

definition slab_hi :: "int \<Rightarrow> int \<Rightarrow> int \<Rightarrow> int \<Rightarrow> int" where
  "slab_hi nhd n c a = (if a \<noteq> c - 1 then nhd + (n div c) * (a + 1) - 1 else n + nhd - 1)"

definition wide :: "int \<Rightarrow> int \<Rightarrow> int \<Rightarrow> bool" where
  "wide hl n c \<longleftrightarrow> 0 \<le> hl \<and> 0 < c \<and> 2 \<le> n div c \<and> 2 * hl \<le> n div c"

lemma wide_length: "wide hl n c \<Longrightarrow> (n div c) * c \<le> n"
proof -
  assume "wide hl n c"
  then have "0 \<le> n mod c" by (simp add: wide_def)
  moreover have "(n div c) * c + n mod c = n" by (rule div_mult_mod_eq)
  ultimately show ?thesis by linarith
qed

lemma slab_length: "wide hl n c \<Longrightarrow> 0 \<le> a \<Longrightarrow> a < c \<Longrightarrow> slab_lo nhd n c a + n div c - 1 \<le> slab_hi nhd n c a"
  using wide_length[of hl n c] by (auto simp: slab_lo_def slab_hi_def algebra_simps)

lemma slab_next: "a \<noteq> c - 1 \<Longrightarrow> slab_lo nhd n c (a + 1) = slab_hi nhd n c a + 1"
  by (simp add: slab_lo_def slab_hi_def)

lemma slab_lo_boundary: "wide hl n c \<Longrightarrow> slab_lo nhd n c a = nhd \<longleftrightarrow> a = 0"
  by (auto simp: slab_lo_def wide_def)

lemma slab_hi_below: "wide hl n c \<Longrightarrow> 0 \<le> a \<Longrightarrow> a < c - 1 \<Longrightarrow> slab_hi nhd n c a + n div c \<le> n + nhd - 1"
proof -
  assume w: "wide hl n c" and a: "0 \<le> a" "a < c - 1"
  have "(n div c) * (a + 2) \<le> (n div c) * c" using w a by (intro mult_left_mono) (auto simp: wide_def)
  then show ?thesis using wide_length[OF w] a by (simp add: slab_hi_def algebra_simps)
qed

lemma slab_hi_boundary: "wide hl n c \<Longrightarrow> 0 \<le> a \<Longrightarrow> a < c \<Longrightarrow> slab_hi nhd n c a = n + nhd - 1 \<longleftrightarrow> a = c - 1"
  using slab_hi_below[of hl n c a nhd] by (cases "a = c - 1") (auto simp: slab_hi_def wide_def)

lemma slab_mono: "wide hl n c \<Longrightarrow> 0 \<le> a \<Longrightarrow> a < b \<Longrightarrow> b < c \<Longrightarrow> slab_hi nhd n c a < slab_lo nhd n c b"
proof -
  assume w: "wide hl n c" and ab: "0 \<le> a" "a < b" "b < c"
  have "(n div c) * (a + 1) \<le> (n div c) * b" using w ab by (intro mult_left_mono) (auto simp: wide_def)
  then show ?thesis using ab by (simp add: slab_hi_def slab_lo_def)
qed

lemma slab_cover:
  assumes w: "wide hl n c" and x: "nhd \<le> x" "x \<le> n + nhd - 1"
  shows "\<exists>!a. 0 \<le> a \<and> a < c \<and> slab_lo nhd n c a \<le> x \<and> x \<le> slab_hi nhd n c a"
proof (rule ex_ex1I)
  let ?q = "(x - nhd) div (n div c)" and ?a = "min ((x - nhd) div (n div c)) (c - 1)"
  have ne: "0 < n div c" "0 < c" using w by (simp_all add: wide_def)
  have m: "0 \<le> (x - nhd) mod (n div c)" "(x - nhd) mod (n div c) < n div c" using ne by simp_all
  have "(n div c) * ?q + (x - nhd) mod (n div c) = x - nhd" by (rule mult_div_mod_eq)
  moreover have "(n div c) * (?q + 1) = (n div c) * ?q + n div c" by (simp only: distrib_left mult_1_right)
  ultimately have q: "(n div c) * ?q \<le> x - nhd" "x - nhd < (n div c) * (?q + 1)" using m by linarith+
  have q0: "0 \<le> ?q" using ne x by (simp add: pos_imp_zdiv_nonneg_iff)
  have "(n div c) * ?a \<le> (n div c) * ?q" using ne by (intro mult_left_mono) auto
  then have "slab_lo nhd n c ?a \<le> x" using q by (simp add: slab_lo_def)
  moreover have "x \<le> slab_hi nhd n c ?a"
    using q x by (cases "?q < c - 1") (auto simp: slab_hi_def min_def)
  ultimately show "\<exists>a. 0 \<le> a \<and> a < c \<and> slab_lo nhd n c a \<le> x \<and> x \<le> slab_hi nhd n c a"
    using q0 ne by (intro exI[of _ ?a]) auto
next
  fix a b
  assume "0 \<le> a \<and> a < c \<and> slab_lo nhd n c a \<le> x \<and> x \<le> slab_hi nhd n c a"
    "0 \<le> b \<and> b < c \<and> slab_lo nhd n c b \<le> x \<and> x \<le> slab_hi nhd n c b"
  then show "a = b"
    using slab_mono[OF w, of a b nhd] slab_mono[OF w, of b a nhd] by (cases a b rule: linorder_cases) auto
qed

text \<open>
  Where a cell lies relative to the slab at \<open>a\<close>: inside, or within the halo width on the side \<open>e\<close>; and
  the part of the slab at \<open>b\<close> that lies within the halo width of its side \<open>e\<close>.
\<close>

definition beside :: "int \<Rightarrow> int \<Rightarrow> int \<Rightarrow> int \<Rightarrow> int \<Rightarrow> int \<Rightarrow> int \<Rightarrow> bool" where
  "beside hl nhd n c a e x \<longleftrightarrow>
     e = 0 \<and> slab_lo nhd n c a \<le> x \<and> x \<le> slab_hi nhd n c a \<or>
     e = 1 \<and> a < c - 1 \<and> slab_hi nhd n c a < x \<and> x \<le> slab_hi nhd n c a + hl \<or>
     e = -1 \<and> 0 < a \<and> slab_lo nhd n c a - hl \<le> x \<and> x < slab_lo nhd n c a"

definition along :: "int \<Rightarrow> int \<Rightarrow> int \<Rightarrow> int \<Rightarrow> int \<Rightarrow> int \<Rightarrow> int \<Rightarrow> bool" where
  "along hl nhd n c b e x \<longleftrightarrow>
     e = 0 \<and> slab_lo nhd n c b \<le> x \<and> x \<le> slab_hi nhd n c b \<or>
     e = 1 \<and> b < c - 1 \<and> slab_hi nhd n c b - hl < x \<and> x \<le> slab_hi nhd n c b \<or>
     e = -1 \<and> 0 < b \<and> slab_lo nhd n c b \<le> x \<and> x < slab_lo nhd n c b + hl"

lemma beside_along:
  "0 \<le> a \<Longrightarrow> a < c \<Longrightarrow> 0 \<le> b \<Longrightarrow> b < c \<Longrightarrow> beside hl nhd n c a (b - a) x \<longleftrightarrow> along hl nhd n c b (a - b) x"
proof -
  assume r: "0 \<le> a" "a < c" "0 \<le> b" "b < c"
  show ?thesis
  proof (cases "b = a")
    case False
    note ne = this
    show ?thesis
    proof (cases "b = a + 1")
      case True
      then have "slab_lo nhd n c b = slab_hi nhd n c a + 1" using slab_next r by simp
      then show ?thesis using r True by (auto simp: beside_def along_def)
    next
      case False
      show ?thesis
      proof (cases "a = b + 1")
        case True
        then have "slab_lo nhd n c a = slab_hi nhd n c b + 1" using slab_next r by simp
        then show ?thesis using r True by (auto simp: beside_def along_def)
      next
        case False
        then show ?thesis using ne \<open>b \<noteq> a + 1\<close> by (simp add: beside_def along_def)
      qed
    qed
  qed (simp add: beside_def along_def)
qed

lemma beside_step: "0 \<le> a \<Longrightarrow> a < c \<Longrightarrow> beside hl nhd n c a e x \<Longrightarrow> 0 \<le> a + e \<and> a + e < c"
  by (auto simp: beside_def)

lemma along_step: "0 \<le> b \<Longrightarrow> b < c \<Longrightarrow> along hl nhd n c b e x \<Longrightarrow> 0 \<le> b + e \<and> b + e < c"
  by (auto simp: along_def)

section \<open>The boxes of a rank\<close>

definition in_box :: "int list \<Rightarrow> box \<Rightarrow> bool" where
  "in_box p b \<longleftrightarrow> length p = length (lowerbnd b) \<and> (\<forall>d<length p. lowerbnd b ! d \<le> p ! d \<and> p ! d \<le> upperbnd b ! d)"

definition slice :: "int list \<Rightarrow> nat \<Rightarrow> int \<Rightarrow> bool" where
  "slice cs i x \<longleftrightarrow> cs ! i + il ! i \<le> x \<and> x \<le> cs ! (i + 1) - iu ! i"

lemma in_layer: "in_box p (layer im ind) \<longleftrightarrow> length p = length ind \<and> (\<forall>d<length ind. slice (im ! d) (ind ! d) (p ! d))"
  by (auto simp: in_box_def layer_def slice_def)

lemma slice_cases:
  "slice [a, b, c, e] 0 x \<longleftrightarrow> a \<le> x \<and> x < b" "slice [a, b, c, e] (Suc 0) x \<longleftrightarrow> b \<le> x \<and> x \<le> c"
  "slice [a, b, c, e] 2 x \<longleftrightarrow> c < x \<and> x \<le> e" "slice [a, b, c, e] (Suc (Suc 0)) x \<longleftrightarrow> c < x \<and> x \<le> e"
  by (auto simp: slice_def il_def iu_def numeral_2_eq_2)

text \<open>The primary box and its boundary sides for a rank at position \<open>index\<close>.\<close>

abbreviation pbox_of :: "int list \<Rightarrow> int \<Rightarrow> int list \<Rightarrow> int list \<Rightarrow> box" where
  "pbox_of G nhd C index \<equiv> create_primary_box (box_domain G nhd) C index"

abbreviation sides_of :: "int list \<Rightarrow> int \<Rightarrow> int list \<Rightarrow> int list \<Rightarrow> bool list" where
  "sides_of G nhd C index \<equiv> boundary_sides (box_domain G nhd) (pbox_of G nhd C index)"

lemma pbox_length [simp]: "length (lowerbnd (pbox_of G nhd C index)) = length C"
  by (simp add: create_primary_box_def Let_def)

lemma pbox_nth:
  assumes "d < length C" "length G = length C"
  shows "lowerbnd (pbox_of G nhd C index) ! d = slab_lo nhd (G ! d) (C ! d) (index ! d)"
    "upperbnd (pbox_of G nhd C index) ! d = slab_hi nhd (G ! d) (C ! d) (index ! d)"
  using assms by (simp_all add: create_primary_box_def Let_def box_domain_def slab_lo_def slab_hi_def)

lemma nth_pairs: "d < n \<Longrightarrow> concat (map (\<lambda>i. [f i, g i]) [0..<n]) ! (2 * d) = f d \<and>
    concat (map (\<lambda>i. [f i, g i]) [0..<n]) ! Suc (2 * d) = g d"
proof (induction n)
  case (Suc n)
  have "length (concat (map (\<lambda>i. [f i, g i]) [0..<n])) = 2 * n" by (induction n) auto
  then show ?case using Suc by (cases "d = n") (auto simp: nth_append)
qed simp

definition grid_ok :: "int list \<Rightarrow> int list \<Rightarrow> int \<Rightarrow> bool" where
  "grid_ok G C hl \<longleftrightarrow> length G = length C \<and> (\<forall>d<length C. wide hl (G ! d) (C ! d))"

lemma sides_nth:
  assumes "d < length C" "grid_ok G C hl" "position C index"
  shows "sides_of G nhd C index ! (2 * d) \<longleftrightarrow> index ! d = 0"
    "sides_of G nhd C index ! Suc (2 * d) \<longleftrightarrow> index ! d = C ! d - 1"
proof -
  have w: "length G = length C" "wide hl (G ! d) (C ! d)" "0 \<le> index ! d" "index ! d < C ! d"
    using assms by (auto simp: grid_ok_def position_def)
  have b: "lowerbnd (box_domain G nhd) ! d = nhd" "upperbnd (box_domain G nhd) ! d = G ! d + nhd - 1"
    using w(1) assms(1) by (simp_all add: box_domain_def)
  show "sides_of G nhd C index ! (2 * d) \<longleftrightarrow> index ! d = 0"
    "sides_of G nhd C index ! Suc (2 * d) \<longleftrightarrow> index ! d = C ! d - 1"
    using nth_pairs[of d "length C" "\<lambda>i. lowerbnd (pbox_of G nhd C index) ! i = lowerbnd (box_domain G nhd) ! i"
        "\<lambda>i. upperbnd (pbox_of G nhd C index) ! i = upperbnd (box_domain G nhd) ! i"] assms(1) w
    by (simp_all add: boundary_sides_def b pbox_nth slab_lo_boundary[OF w(2)] slab_hi_boundary[OF w(2-4)])
qed

abbreviation exclusive_cuts :: "int list \<Rightarrow> int list \<Rightarrow> int \<Rightarrow> int \<Rightarrow> int list \<Rightarrow> int list list" where
  "exclusive_cuts G C hl nhd index \<equiv>
     cuts (pbox_of G nhd C index) (exclusive_bounds hl (sides_of G nhd C index) (pbox_of G nhd C index))"

abbreviation ghost_cuts :: "int list \<Rightarrow> int list \<Rightarrow> int \<Rightarrow> int \<Rightarrow> int list \<Rightarrow> int list list" where
  "ghost_cuts G C hl nhd index \<equiv>
     cuts (ghost_bounds hl (sides_of G nhd C index) (pbox_of G nhd C index)) (pbox_of G nhd C index)"

abbreviation halo_cuts :: "int list \<Rightarrow> int list \<Rightarrow> int \<Rightarrow> int list \<Rightarrow> int list list" where
  "halo_cuts G C nhd index \<equiv>
     cuts (domain_bounds nhd (sides_of G nhd C index) (pbox_of G nhd C index)) (pbox_of G nhd C index)"

lemma exclusive_cuts_nth:
  assumes "d < length C" "grid_ok G C hl" "position C index"
  shows "exclusive_cuts G C hl nhd index ! d = (let lo = slab_lo nhd (G ! d) (C ! d) (index ! d); hi = slab_hi nhd (G ! d) (C ! d) (index ! d)
    in [lo, if index ! d = 0 then lo else lo + hl, if index ! d = C ! d - 1 then hi else hi - hl, hi])"
  using assms sides_nth[OF assms] by (simp add: cuts_def exclusive_bounds_def Let_def pbox_nth grid_ok_def)

lemma ghost_cuts_nth:
  assumes "d < length C" "grid_ok G C hl" "position C index"
  shows "ghost_cuts G C hl nhd index ! d = (let lo = slab_lo nhd (G ! d) (C ! d) (index ! d); hi = slab_hi nhd (G ! d) (C ! d) (index ! d)
    in [if index ! d = 0 then lo else lo - hl, lo, hi, if index ! d = C ! d - 1 then hi else hi + hl])"
  using assms sides_nth[OF assms] by (simp add: cuts_def ghost_bounds_def Let_def pbox_nth grid_ok_def)

lemma halo_cuts_nth:
  assumes "d < length C" "grid_ok G C hl" "position C index"
  shows "halo_cuts G C nhd index ! d = (let lo = slab_lo nhd (G ! d) (C ! d) (index ! d); hi = slab_hi nhd (G ! d) (C ! d) (index ! d)
    in [if index ! d = 0 then lo - nhd else lo, lo, hi, if index ! d = C ! d - 1 then hi + nhd else hi])"
  using assms sides_nth[OF assms] by (simp add: cuts_def domain_bounds_def Let_def pbox_nth grid_ok_def)

text \<open>Each slice of the cuts in a dimension, for a rank at \<open>a\<close>.\<close>

lemma exclusive_slices:
  assumes "d < length C" "grid_ok G C hl" "position C index"
  shows "(\<exists>i<3. slice (exclusive_cuts G C hl nhd index ! d) i x \<and> (e = 0 \<or> e = int i - 1))
      \<longleftrightarrow> along hl nhd (G ! d) (C ! d) (index ! d) e x"
    and "i < 3 \<Longrightarrow> i \<noteq> 1 \<Longrightarrow> slice (exclusive_cuts G C hl nhd index ! d) i x \<Longrightarrow> cut_differs (exclusive_cuts G C hl nhd index) d i"
    and "slab_lo nhd (G ! d) (C ! d) (index ! d) \<le> x \<and> x \<le> slab_hi nhd (G ! d) (C ! d) (index ! d)
      \<longleftrightarrow> (\<exists>i<3. slice (exclusive_cuts G C hl nhd index ! d) i x)"
    and "i < 3 \<Longrightarrow> j < 3 \<Longrightarrow> slice (exclusive_cuts G C hl nhd index ! d) i x \<Longrightarrow>
      slice (exclusive_cuts G C hl nhd index ! d) j x \<Longrightarrow> i = j"
proof -
  have w: "wide hl (G ! d) (C ! d)" "0 \<le> index ! d" "index ! d < C ! d"
    using assms by (auto simp: grid_ok_def position_def)
  note l = slab_length[OF w, of nhd]
  have hl: "0 \<le> hl" "2 * hl \<le> G ! d div C ! d" "2 \<le> G ! d div C ! d" using w(1) by (simp_all add: wide_def)
  have ex: "(\<exists>i<3. P i) \<longleftrightarrow> P 0 \<or> P (Suc 0) \<or> P 2" for P :: "nat \<Rightarrow> bool" using less_3 by auto
  show "(\<exists>i<3. slice (exclusive_cuts G C hl nhd index ! d) i x \<and> (e = 0 \<or> e = int i - 1))
      \<longleftrightarrow> along hl nhd (G ! d) (C ! d) (index ! d) e x"
    unfolding ex exclusive_cuts_nth[OF assms] Let_def slice_cases along_def using l hl w by auto
  show "i < 3 \<Longrightarrow> i \<noteq> 1 \<Longrightarrow> slice (exclusive_cuts G C hl nhd index ! d) i x \<Longrightarrow> cut_differs (exclusive_cuts G C hl nhd index) d i"
    unfolding less_3 cut_differs_def exclusive_cuts_nth[OF assms] Let_def by (auto simp: slice_cases numeral_2_eq_2)
  show "slab_lo nhd (G ! d) (C ! d) (index ! d) \<le> x \<and> x \<le> slab_hi nhd (G ! d) (C ! d) (index ! d)
      \<longleftrightarrow> (\<exists>i<3. slice (exclusive_cuts G C hl nhd index ! d) i x)"
    unfolding ex exclusive_cuts_nth[OF assms] Let_def slice_cases using l hl by auto
  show "i < 3 \<Longrightarrow> j < 3 \<Longrightarrow> slice (exclusive_cuts G C hl nhd index ! d) i x \<Longrightarrow>
      slice (exclusive_cuts G C hl nhd index ! d) j x \<Longrightarrow> i = j"
    unfolding less_3 exclusive_cuts_nth[OF assms] Let_def using l hl by (elim disjE) (auto simp: slice_cases split: if_splits)
qed

lemma ghost_slices:
  assumes "d < length C" "grid_ok G C hl" "position C index"
  shows "i < 3 \<Longrightarrow> slice (ghost_cuts G C hl nhd index ! d) i x \<longleftrightarrow> beside hl nhd (G ! d) (C ! d) (index ! d) (int i - 1) x"
    and "i < 3 \<Longrightarrow> slice (ghost_cuts G C hl nhd index ! d) i x \<Longrightarrow> cut_differs (ghost_cuts G C hl nhd index) d i"
proof -
  have w: "wide hl (G ! d) (C ! d)" "0 \<le> index ! d" "index ! d < C ! d"
    using assms by (auto simp: grid_ok_def position_def)
  note l = slab_length[OF w, of nhd]
  have hl: "0 \<le> hl" "2 \<le> G ! d div C ! d" using w(1) by (simp_all add: wide_def)
  show "i < 3 \<Longrightarrow> slice (ghost_cuts G C hl nhd index ! d) i x \<longleftrightarrow> beside hl nhd (G ! d) (C ! d) (index ! d) (int i - 1) x"
    unfolding less_3 ghost_cuts_nth[OF assms] Let_def beside_def using l hl w by (elim disjE) (auto simp: slice_cases)
  show "i < 3 \<Longrightarrow> slice (ghost_cuts G C hl nhd index ! d) i x \<Longrightarrow> cut_differs (ghost_cuts G C hl nhd index) d i"
    unfolding less_3 cut_differs_def ghost_cuts_nth[OF assms] Let_def using l hl by (auto simp: slice_cases numeral_2_eq_2)
qed

lemma halo_slices:
  assumes "d < length C" "grid_ok G C hl" "position C index" "0 \<le> nhd"
  shows "halo_cuts G C nhd index ! d ! 0 \<le> x \<and> x \<le> halo_cuts G C nhd index ! d ! 3
      \<longleftrightarrow> (\<exists>i<3. slice (halo_cuts G C nhd index ! d) i x)"
    and "i < 3 \<Longrightarrow> slice (halo_cuts G C nhd index ! d) i x \<Longrightarrow> cut_differs (halo_cuts G C nhd index) d i"
    and "i < 3 \<Longrightarrow> j < 3 \<Longrightarrow> slice (halo_cuts G C nhd index ! d) i x \<Longrightarrow>
      slice (halo_cuts G C nhd index ! d) j x \<Longrightarrow> i = j"
proof -
  have w: "wide hl (G ! d) (C ! d)" "0 \<le> index ! d" "index ! d < C ! d"
    using assms by (auto simp: grid_ok_def position_def)
  note l = slab_length[OF w, of nhd]
  have ne: "2 \<le> G ! d div C ! d" using w(1) by (simp add: wide_def)
  have ex: "(\<exists>i<3. P i) \<longleftrightarrow> P 0 \<or> P (Suc 0) \<or> P 2" for P :: "nat \<Rightarrow> bool" using less_3 by auto
  show "halo_cuts G C nhd index ! d ! 0 \<le> x \<and> x \<le> halo_cuts G C nhd index ! d ! 3
      \<longleftrightarrow> (\<exists>i<3. slice (halo_cuts G C nhd index ! d) i x)"
    unfolding ex halo_cuts_nth[OF assms(1-3)] Let_def slice_cases using l ne assms(4) by (auto simp: numeral_3_eq_3)
  show "i < 3 \<Longrightarrow> slice (halo_cuts G C nhd index ! d) i x \<Longrightarrow> cut_differs (halo_cuts G C nhd index) d i"
    unfolding less_3 cut_differs_def halo_cuts_nth[OF assms(1-3)] Let_def using l ne by (auto simp: slice_cases numeral_2_eq_2)
  show "i < 3 \<Longrightarrow> j < 3 \<Longrightarrow> slice (halo_cuts G C nhd index ! d) i x \<Longrightarrow>
      slice (halo_cuts G C nhd index ! d) j x \<Longrightarrow> i = j"
    unfolding less_3 halo_cuts_nth[OF assms(1-3)] Let_def using l ne by (elim disjE) (auto simp: slice_cases split: if_splits)
qed

text \<open>The cell of the domain nearest to a cell.\<close>

definition clamp :: "int list \<Rightarrow> int \<Rightarrow> int list \<Rightarrow> int list" where
  "clamp G nhd p = map (\<lambda>d. max nhd (min (G ! d + nhd - 1) (p ! d))) [0..<length p]"

definition extended_domain :: "int list \<Rightarrow> int \<Rightarrow> box" where
  "extended_domain G nhd = \<lparr>lowerbnd = map (\<lambda>d. 0) G, upperbnd = map (\<lambda>n. n + 2 * nhd - 1) G\<rparr>"

lemma halo_clamp:
  assumes "grid_ok G C hl" "position C b" "0 \<le> nhd"
  shows "in_box p (domain_bounds nhd (sides_of G nhd C b) (pbox_of G nhd C b)) \<and> \<not> in_box p (pbox_of G nhd C b)
    \<longleftrightarrow> in_box p (extended_domain G nhd) \<and> \<not> in_box p (box_domain G nhd) \<and> in_box (clamp G nhd p) (pbox_of G nhd C b)"
proof -
  let ?out = "domain_bounds nhd (sides_of G nhd C b) (pbox_of G nhd C b)"
  have G: "length G = length C" using assms(1) by (simp add: grid_ok_def)
  have out: "length (lowerbnd ?out) = length C" by (simp add: domain_bounds_def Let_def)
  have d: "(lowerbnd ?out ! d \<le> x \<and> x \<le> upperbnd ?out ! d \<longleftrightarrow> 0 \<le> x \<and> x \<le> G ! d + 2 * nhd - 1 \<and>
        lowerbnd (pbox_of G nhd C b) ! d \<le> max nhd (min (G ! d + nhd - 1) x) \<and>
        max nhd (min (G ! d + nhd - 1) x) \<le> upperbnd (pbox_of G nhd C b) ! d) \<and>
      (lowerbnd (pbox_of G nhd C b) ! d \<le> x \<and> x \<le> upperbnd (pbox_of G nhd C b) ! d \<longrightarrow> nhd \<le> x \<and> x \<le> G ! d + nhd - 1)"
    if d: "d < length C" for d x
  proof -
    have w: "wide hl (G ! d) (C ! d)" "0 \<le> b ! d" "b ! d < C ! d"
      using assms d by (auto simp: grid_ok_def position_def)
    define lo where "lo = slab_lo nhd (G ! d) (C ! d) (b ! d)"
    define hi where "hi = slab_hi nhd (G ! d) (C ! d) (b ! d)"
    define ne where "ne = G ! d div C ! d"
    have ne: "2 \<le> ne" using w(1) by (simp add: wide_def ne_def)
    have l: "lo + ne - 1 \<le> hi" using slab_length[OF w, of nhd] by (simp add: lo_def hi_def ne_def)
    have "ne * 1 \<le> ne * b ! d" if "b ! d \<noteq> 0" using that w(2) ne by (intro mult_left_mono) auto
    then have lo: "if b ! d = 0 then lo = nhd else nhd + ne \<le> lo" by (simp add: lo_def slab_lo_def ne_def)
    have hi: "if b ! d = C ! d - 1 then hi = G ! d + nhd - 1 else hi + ne \<le> G ! d + nhd - 1"
      using slab_hi_below[OF w(1,2), of nhd] w(3) by (auto simp: hi_def ne_def slab_hi_def)
    have "lowerbnd ?out ! d = (if b ! d = 0 then lo - nhd else lo)" "upperbnd ?out ! d = (if b ! d = C ! d - 1 then hi + nhd else hi)"
      using sides_nth[OF d assms(1,2), of nhd] d G by (simp_all add: domain_bounds_def Let_def pbox_nth lo_def hi_def)
    moreover have "lowerbnd (pbox_of G nhd C b) ! d = lo" "upperbnd (pbox_of G nhd C b) ! d = hi"
      using d G by (simp_all add: pbox_nth lo_def hi_def)
    ultimately show ?thesis using lo hi l ne assms(3) by (auto split: if_splits)
  qed
  have cl: "in_box (clamp G nhd p) (pbox_of G nhd C b) \<longleftrightarrow> length p = length C \<and> (\<forall>d<length C.
      lowerbnd (pbox_of G nhd C b) ! d \<le> max nhd (min (G ! d + nhd - 1) (p ! d)) \<and>
      max nhd (min (G ! d + nhd - 1) (p ! d)) \<le> upperbnd (pbox_of G nhd C b) ! d)"
    by (auto simp: in_box_def clamp_def)
  have ext: "in_box p (extended_domain G nhd) \<longleftrightarrow> length p = length C \<and> (\<forall>d<length C. 0 \<le> p ! d \<and> p ! d \<le> G ! d + 2 * nhd - 1)"
    using G by (auto simp: in_box_def extended_domain_def)
  have io: "in_box p ?out \<longleftrightarrow> length p = length C \<and> (\<forall>d<length C. lowerbnd ?out ! d \<le> p ! d \<and> p ! d \<le> upperbnd ?out ! d)"
    by (auto simp: in_box_def out)
  have o: "in_box p ?out \<longleftrightarrow> in_box p (extended_domain G nhd) \<and> in_box (clamp G nhd p) (pbox_of G nhd C b)"
    unfolding io ext cl using d by blast
  have i: "in_box p (pbox_of G nhd C b) \<longleftrightarrow> in_box p (box_domain G nhd) \<and> in_box (clamp G nhd p) (pbox_of G nhd C b)"
  proof
    assume p: "in_box p (pbox_of G nhd C b)"
    then have "length p = length C" "\<forall>d<length C. nhd \<le> p ! d \<and> p ! d \<le> G ! d + nhd - 1"
      unfolding in_box_def pbox_length using d by auto
    then have "in_box p (box_domain G nhd)" using G by (simp add: in_box_def box_domain_def)
    moreover from this have "clamp G nhd p = p" using G by (intro nth_equalityI) (auto simp: in_box_def box_domain_def clamp_def)
    ultimately show "in_box p (box_domain G nhd) \<and> in_box (clamp G nhd p) (pbox_of G nhd C b)" using p by simp
  next
    assume p: "in_box p (box_domain G nhd) \<and> in_box (clamp G nhd p) (pbox_of G nhd C b)"
    then have "clamp G nhd p = p" using G by (intro nth_equalityI) (auto simp: in_box_def box_domain_def clamp_def)
    then show "in_box p (pbox_of G nhd C b)" using p by simp
  qed
  show ?thesis using o i by blast
qed

lemma weight_0: "weight e = 0 \<longleftrightarrow> (\<forall>d<length e. e ! d = 0)"
  by (auto simp: weight_def filter_empty_conv all_set_conv_all_nth)

lemma weight_uminus: "weight (map uminus e) = weight e"
  by (simp add: weight_def filter_map comp_def)

lemma centre_step: "centre ind \<longleftrightarrow> weight (step_of ind) = 0"
  by (auto simp: weight_0 centre_def step_of_def)

lemma shift_nth: "length index = length e \<Longrightarrow> d < length e \<Longrightarrow> shift index e ! d = index ! d + e ! d"
  by (simp add: shift_def)

lemma length_shift [simp]: "length index = length e \<Longrightarrow> length (shift index e) = length e"
  by (simp add: shift_def)

text \<open>The steps that a cell satisfies in every dimension.\<close>

definition reaches :: "nat \<Rightarrow> (nat \<Rightarrow> int \<Rightarrow> int \<Rightarrow> bool) \<Rightarrow> int list \<Rightarrow> int list \<Rightarrow> bool" where
  "reaches TD near e p \<longleftrightarrow> length p = length e \<and> 0 < weight e \<and> weight e + TD \<le> length e \<and>
     (\<forall>d<length e. near d (e ! d) (p ! d))"

abbreviation ghost_near :: "int list \<Rightarrow> int list \<Rightarrow> int \<Rightarrow> int \<Rightarrow> int list \<Rightarrow> nat \<Rightarrow> int \<Rightarrow> int \<Rightarrow> bool" where
  "ghost_near G C hl nhd index \<equiv> (\<lambda>d. beside hl nhd (G ! d) (C ! d) (index ! d))"

abbreviation shared_near :: "int list \<Rightarrow> int list \<Rightarrow> int \<Rightarrow> int \<Rightarrow> int list \<Rightarrow> nat \<Rightarrow> int \<Rightarrow> int \<Rightarrow> bool" where
  "shared_near G C hl nhd index \<equiv> (\<lambda>d. along hl nhd (G ! d) (C ! d) (index ! d))"

lemma shift_position:
  assumes "length e = length C" "position C a" "\<forall>d<length C. 0 \<le> a ! d + e ! d \<and> a ! d + e ! d < C ! d"
  shows "position C (shift a e)"
  using assms by (simp add: position_def shift_nth)

lemma reaches_position:
  assumes "position C a" "length e = length C"
  shows "reaches TD (ghost_near G C hl nhd a) e p \<Longrightarrow> position C (shift a e)"
    "reaches TD (shared_near G C hl nhd a) e p \<Longrightarrow> position C (shift a e)"
proof -
  have "0 \<le> a ! d + e ! d \<and> a ! d + e ! d < C ! d"
    if "d < length C" "beside hl nhd (G ! d) (C ! d) (a ! d) (e ! d) (p ! d) \<or> along hl nhd (G ! d) (C ! d) (a ! d) (e ! d) (p ! d)" for d
    using that assms(1) beside_step along_step unfolding position_def by blast
  then show "reaches TD (ghost_near G C hl nhd a) e p \<Longrightarrow> position C (shift a e)"
    "reaches TD (shared_near G C hl nhd a) e p \<Longrightarrow> position C (shift a e)"
    using assms by (auto simp: reaches_def intro!: shift_position)
qed

lemma reaches_back:
  assumes "position C a" "position C b" "length e = length C" "shift a e = b"
    and "reaches TD (ghost_near G C hl nhd a) e p"
  shows "reaches TD (shared_near G C hl nhd b) (map uminus e) p \<and> shift b (map uminus e) = a"
proof -
  have e: "e ! d = b ! d - a ! d" if "d < length C" for d
    using that assms(1-4) shift_nth[of a e d] by (auto simp: position_def)
  then have "along hl nhd (G ! d) (C ! d) (b ! d) (- (e ! d)) (p ! d)" if "d < length C" for d
    using that assms beside_along[of "a ! d" "C ! d" "b ! d" hl nhd "G ! d" "p ! d"] by (auto simp: position_def reaches_def)
  moreover have "shift b (map uminus e) = a"
    using assms(1-3) e by (intro nth_equalityI) (auto simp: position_def shift_nth)
  ultimately show ?thesis using assms(3,5) by (simp add: reaches_def weight_uminus)
qed

lemma reaches_forth:
  assumes "position C a" "position C b" "length e = length C" "shift b e = a"
    and "reaches TD (shared_near G C hl nhd b) e p"
  shows "reaches TD (ghost_near G C hl nhd a) (map uminus e) p \<and> shift a (map uminus e) = b"
proof -
  have e: "e ! d = a ! d - b ! d" if "d < length C" for d
    using that assms(1-4) shift_nth[of b e d] by (auto simp: position_def)
  then have "beside hl nhd (G ! d) (C ! d) (a ! d) (- (e ! d)) (p ! d)" if "d < length C" for d
    using that assms beside_along[of "a ! d" "C ! d" "b ! d" hl nhd "G ! d" "p ! d"] by (auto simp: position_def reaches_def)
  moreover have "shift a (map uminus e) = b"
    using assms(1-3) e by (intro nth_equalityI) (auto simp: position_def shift_nth)
  ultimately show ?thesis using assms(3,5) by (simp add: reaches_def weight_uminus)
qed

context box_layout
begin

lemma ghost_reaches:
  assumes "length C = D" "TD < D" "grid_ok G C hl" "position C a"
  shows "(\<exists>g\<in>set (ghost_boxes (ghost_cuts G C hl nhd a) TD C a). in_box p (color_box g) \<and> r \<in> set (colors g))
    \<longleftrightarrow> (\<exists>e. length e = D \<and> reaches TD (ghost_near G C hl nhd a) e p \<and> r = color C (shift a e))"
proof
  assume "\<exists>g\<in>set (ghost_boxes (ghost_cuts G C hl nhd a) TD C a). in_box p (color_box g) \<and> r \<in> set (colors g)"
  moreover have la: "length a = D" using assms by (simp add: position_def)
  ultimately obtain ind where ind: "ind \<in> grid D" "full_dir (ghost_cuts G C hl nhd a) ind"
    "weight (step_of ind) + TD \<le> D" "in_box p (layer (ghost_cuts G C hl nhd a) ind)" "r = color C (shift a (step_of ind))"
    by (auto simp: ghost_boxes[OF assms(2) la] dirs(1))
  have l: "length ind = D" "\<forall>d<D. ind ! d < 3" using ind(1) by (auto simp: grid_def)
  have "\<forall>d<D. beside hl nhd (G ! d) (C ! d) (a ! d) (step_of ind ! d) (p ! d)"
    using ind(4) l ghost_slices(1)[OF _ assms(3,4)] assms(1) by (auto simp: in_layer step_of_def)
  moreover have "0 < weight (step_of ind)" using ind(2) by (simp add: full_dir_def centre_step)
  moreover have "length p = D" using ind(4) l by (simp add: in_layer)
  ultimately show "\<exists>e. length e = D \<and> reaches TD (ghost_near G C hl nhd a) e p \<and> r = color C (shift a e)"
    using ind(3,5) l by (intro exI[of _ "step_of ind"]) (simp add: reaches_def step_of_def)
next
  assume "\<exists>e. length e = D \<and> reaches TD (ghost_near G C hl nhd a) e p \<and> r = color C (shift a e)"
  then obtain e where e: "length e = D" "length p = D" "0 < weight e" "weight e + TD \<le> D" "r = color C (shift a e)"
    "\<forall>d<D. beside hl nhd (G ! d) (C ! d) (a ! d) (e ! d) (p ! d)" by (auto simp: reaches_def)
  have la: "length a = D" using assms by (simp add: position_def)
  have ev: "e ! d = 0 \<or> e ! d = 1 \<or> e ! d = -1" if "d < D" for d using e(6) that by (auto simp: beside_def)
  define ind where "ind = map (\<lambda>x. nat (x + 1)) e"
  have ind: "ind \<in> grid D" using ev e(1) by (fastforce simp: ind_def grid_def)
  have inv: "int (ind ! d) - 1 = e ! d" if "d < D" for d using ev[OF that] e(1) that by (auto simp: ind_def)
  then have step: "step_of ind = e" using e(1) by (intro nth_equalityI) (auto simp: step_of_def ind_def)
  have sl: "slice (ghost_cuts G C hl nhd a ! d) (ind ! d) (p ! d)" if "d < D" for d
    using ghost_slices(1)[OF _ assms(3,4)] e(6) inv that ind assms(1) by (auto simp: grid_def)
  then have "\<forall>d<D. cut_differs (ghost_cuts G C hl nhd a) d (ind ! d)"
    using ghost_slices(2)[OF _ assms(3,4), unfolded assms(1)] ind unfolding grid_def by blast
  then have "full_dir (ghost_cuts G C hl nhd a) ind"
    using ind step e(3) by (simp add: full_dir_def centre_step grid_def)
  moreover have "in_box p (layer (ghost_cuts G C hl nhd a) ind)"
    using sl ind e(2) by (simp add: in_layer grid_def)
  ultimately show "\<exists>g\<in>set (ghost_boxes (ghost_cuts G C hl nhd a) TD C a). in_box p (color_box g) \<and> r \<in> set (colors g)"
    using ind e(4,5) step by (auto simp: ghost_boxes[OF assms(2) la] dirs(1))
qed

lemma shared_reaches:
  assumes "length C = D" "TD < D" "grid_ok G C hl" "position C b"
  shows "(\<exists>s\<in>set (shared_boxes (exclusive_cuts G C hl nhd b) TD C b). in_box p (color_box s) \<and> r \<in> set (colors s))
    \<longleftrightarrow> (\<exists>e. length e = D \<and> reaches TD (shared_near G C hl nhd b) e p \<and> r = color C (shift b e))"
proof -
  let ?im = "exclusive_cuts G C hl nhd b"
  have lb: "length b = D" using assms by (simp add: position_def)
  from shared_boxes[OF assms(2) lb, of ?im C] obtain cs where cs: "shared_boxes ?im TD C b =
      map (\<lambda>ind. \<lparr>color_box = layer ?im ind, colors = cs ind\<rparr>) (filter (shared_dir ?im) dirs)"
    "\<forall>ind\<in>grid D. set (cs ind) = {color C (shift b e) | e. toward e ind \<and> 0 < weight e \<and> weight e + TD \<le> D}" by blast
  note slices = exclusive_slices[OF _ assms(3,4), unfolded assms(1)]
  show ?thesis
  proof
    assume "\<exists>s\<in>set (shared_boxes ?im TD C b). in_box p (color_box s) \<and> r \<in> set (colors s)"
    then obtain ind e where ind: "ind \<in> grid D" "in_box p (layer ?im ind)"
      and e: "toward e ind" "0 < weight e" "weight e + TD \<le> D" "r = color C (shift b e)"
      by (auto simp: cs dirs(1))
    have l: "length ind = D" "\<forall>d<D. ind ! d < 3" using ind(1) by (auto simp: grid_def)
    have "along hl nhd (G ! d) (C ! d) (b ! d) (e ! d) (p ! d)" if d: "d < D" for d
    proof -
      have "slice (?im ! d) (ind ! d) (p ! d)" "ind ! d < 3" "e ! d = 0 \<or> e ! d = int (ind ! d) - 1"
        using ind(2) e(1) l d by (auto simp: in_layer toward_def)
      then show ?thesis using slices(1)[OF d] by blast
    qed
    moreover have "length e = D" "length p = D" using e(1) ind(2) l by (simp_all add: toward_def in_layer)
    ultimately show "\<exists>e. length e = D \<and> reaches TD (shared_near G C hl nhd b) e p \<and> r = color C (shift b e)"
      using e by (intro exI[of _ e]) (simp add: reaches_def)
  next
    assume "\<exists>e. length e = D \<and> reaches TD (shared_near G C hl nhd b) e p \<and> r = color C (shift b e)"
    then obtain e where e: "length e = D" "length p = D" "0 < weight e" "weight e + TD \<le> D" "r = color C (shift b e)"
      "\<forall>d<D. along hl nhd (G ! d) (C ! d) (b ! d) (e ! d) (p ! d)" by (auto simp: reaches_def)
    then have "\<forall>d<D. \<exists>i. i < 3 \<and> slice (?im ! d) i (p ! d) \<and> (e ! d = 0 \<or> e ! d = int i - 1)"
      using slices(1) by blast
    then obtain f where f: "\<forall>d<D. f d < 3 \<and> slice (?im ! d) (f d) (p ! d) \<and> (e ! d = 0 \<or> e ! d = int (f d) - 1)" by metis
    let ?ind = "map f [0..<D]"
    have ind: "?ind \<in> grid D" using f by (simp add: grid_def)
    have "in_box p (layer ?im ?ind)" "toward e ?ind" using f e(1,2) by (simp_all add: in_layer toward_def)
    moreover have "shared_dir ?im ?ind"
    proof -
      obtain d where d: "d < D" "e ! d \<noteq> 0" using e(1,3) weight_0[of e] by auto
      then have "f d \<noteq> 1" using f by auto
      then show ?thesis using d slices(2) f by (auto simp: shared_dir_def centre_def)
    qed
    ultimately show "\<exists>s\<in>set (shared_boxes ?im TD C b). in_box p (color_box s) \<and> r \<in> set (colors s)"
      using ind e by (auto simp: cs dirs(1) intro!: bexI[of _ ?ind])
  qed
qed

text \<open>What a rank has as a ghost of another is what the other shares with it.\<close>

lemma ghost_shared:
  assumes "length C = D" "TD < D" "grid_ok G C hl" "position C a" "position C b"
  shows "(\<exists>g\<in>set (ghost_boxes (ghost_cuts G C hl nhd a) TD C a). in_box p (color_box g) \<and> color C b \<in> set (colors g))
    \<longleftrightarrow> (\<exists>s\<in>set (shared_boxes (exclusive_cuts G C hl nhd b) TD C b). in_box p (color_box s) \<and> color C a \<in> set (colors s))"
  unfolding ghost_reaches[OF assms(1-4)] shared_reaches[OF assms(1-3,5)]
proof
  assume "\<exists>e. length e = D \<and> reaches TD (ghost_near G C hl nhd a) e p \<and> color C b = color C (shift a e)"
  then obtain e where e: "length e = length C" "reaches TD (ghost_near G C hl nhd a) e p" "color C b = color C (shift a e)"
    using assms(1) by auto
  have "position C (shift a e)" by (rule reaches_position(1)[OF assms(4) e(1,2)])
  then have "shift a e = b" using color_inj[OF assms(1) _ assms(5)] e(3) by simp
  from reaches_back[OF assms(4,5) e(1) this e(2)]
  show "\<exists>e. length e = D \<and> reaches TD (shared_near G C hl nhd b) e p \<and> color C a = color C (shift b e)"
    using e(1) assms(1) by (intro exI[of _ "map uminus e"]) simp
next
  assume "\<exists>e. length e = D \<and> reaches TD (shared_near G C hl nhd b) e p \<and> color C a = color C (shift b e)"
  then obtain e where e: "length e = length C" "reaches TD (shared_near G C hl nhd b) e p" "color C a = color C (shift b e)"
    using assms(1) by auto
  have "position C (shift b e)" by (rule reaches_position(2)[OF assms(5) e(1,2)])
  then have "shift b e = a" using color_inj[OF assms(1) _ assms(4)] e(3) by simp
  from reaches_forth[OF assms(4,5) e(1) this e(2)]
  show "\<exists>e. length e = D \<and> reaches TD (ghost_near G C hl nhd a) e p \<and> color C b = color C (shift a e)"
    using e(1) assms(1) by (intro exI[of _ "map uminus e"]) simp
qed

text \<open>A cell lies in at most one layer.\<close>

lemma layer_unique:
  assumes "\<forall>d<D. \<forall>i<3. \<forall>j<3. slice (im ! d) i (p ! d) \<longrightarrow> slice (im ! d) j (p ! d) \<longrightarrow> i = j"
    and "ind \<in> grid D" "ind' \<in> grid D" "in_box p (layer im ind)" "in_box p (layer im ind')"
  shows "ind = ind'"
  using assms by (intro nth_equalityI) (auto simp: grid_def in_layer)

lemma layer_count:
  assumes "\<forall>d<D. \<forall>i<3. \<forall>j<3. slice (im ! d) i (p ! d) \<longrightarrow> slice (im ! d) j (p ! d) \<longrightarrow> i = j"
  shows "length (filter (in_box p) (map (layer im) (filter Q dirs)))
    = (if \<exists>ind\<in>grid D. Q ind \<and> in_box p (layer im ind) then 1 else 0)"
proof -
  let ?in = "\<lambda>ind. Q ind \<and> in_box p (layer im ind)"
  have "length (filter (in_box p) (map (layer im) (filter Q dirs))) = length (filter ?in dirs)"
    by (simp add: filter_map comp_def conj_commute)
  also have "\<dots> = card {ind \<in> grid D. ?in ind}"
    unfolding distinct_card[OF distinct_filter[OF dirs(2)], of ?in, symmetric] set_filter dirs(1) ..
  also have "\<dots> = (if \<exists>ind\<in>grid D. ?in ind then 1 else 0)"
  proof (cases "\<exists>ind\<in>grid D. ?in ind")
    case True
    then obtain ind where ind: "ind \<in> grid D" "?in ind" by blast
    have "{x \<in> grid D. ?in x} = {ind}"
    proof (intro set_eqI iffI)
      fix x assume "x \<in> {x \<in> grid D. ?in x}"
      then show "x \<in> {ind}" using layer_unique[OF assms, of x ind] ind by simp
    qed (use ind in simp)
    then show ?thesis using True by simp
  next
    case False
    then have e: "{ind \<in> grid D. ?in ind} = {}" by blast
    show ?thesis unfolding e if_not_P[OF False] by simp
  qed
  finally show ?thesis .
qed

lemma in_some_layer:
  assumes "length p = D" "\<forall>d<D. \<exists>i<3. slice (im ! d) i (p ! d)"
  shows "\<exists>ind\<in>grid D. in_box p (layer im ind)"
proof -
  obtain f where "\<forall>d<D. f d < 3 \<and> slice (im ! d) (f d) (p ! d)" using assms(2) by metis
  then show ?thesis using assms(1) by (intro bexI[of _ "map f [0..<D]"]) (auto simp: in_layer grid_def)
qed

text \<open>The exclusive box and the shared boxes tile the primary box.\<close>

lemma boxes_tile:
  assumes "length C = D" "TD < D" "grid_ok G C hl" "position C b"
  shows "length (filter (in_box p) (exclusive_bounds hl (sides_of G nhd C b) (pbox_of G nhd C b)
      # map color_box (shared_boxes (exclusive_cuts G C hl nhd b) TD C b)))
    = (if in_box p (pbox_of G nhd C b) then 1 else 0)"
proof -
  let ?im = "exclusive_cuts G C hl nhd b" and ?ex = "exclusive_bounds hl (sides_of G nhd C b) (pbox_of G nhd C b)"
  have lb: "length b = D" using assms by (simp add: position_def)
  from shared_boxes[OF assms(2) lb, of ?im C] have cs: "map color_box (shared_boxes ?im TD C b) = map (layer ?im) (filter (shared_dir ?im) dirs)"
    by auto
  note slices = exclusive_slices[OF _ assms(3,4), unfolded assms(1)]
  have G: "length G = D" using assms(1,3) by (simp add: grid_ok_def)
  have one: "\<forall>d<D. \<forall>i<3. \<forall>j<3. slice (?im ! d) i (p ! d) \<longrightarrow> slice (?im ! d) j (p ! d) \<longrightarrow> i = j" using slices(4) by blast
  have primary: "in_box p (pbox_of G nhd C b) \<longleftrightarrow> length p = D \<and> (\<forall>d<D. \<exists>i<3. slice (?im ! d) i (p ! d))"
  proof -
    have "(\<exists>i<3. slice (?im ! d) i (p ! d)) \<longleftrightarrow> lowerbnd (pbox_of G nhd C b) ! d \<le> p ! d \<and> p ! d \<le> upperbnd (pbox_of G nhd C b) ! d"
      if "d < D" for d using slices(3)[OF that, of nhd "p ! d"] that assms(1) G by (simp add: pbox_nth)
    then show ?thesis using assms(1) by (auto simp: in_box_def)
  qed
  have inside: "in_box p (pbox_of G nhd C b)" if "ind \<in> grid D" "in_box p (layer ?im ind)" for ind
    using that unfolding primary by (auto simp: in_layer grid_def)
  let ?mid = "replicate D 1"
  have mid: "?mid \<in> grid D" "centre ?mid" by (simp_all add: grid_def centre_def)
  have ex: "in_box p ?ex \<longleftrightarrow> in_box p (layer ?im ?mid)"
  proof -
    have "slice (?im ! d) 1 x \<longleftrightarrow> lowerbnd ?ex ! d \<le> x \<and> x \<le> upperbnd ?ex ! d" if "d < D" for d x
      using that assms(1) by (simp add: cuts_def slice_cases)
    moreover have "length (lowerbnd ?ex) = D" using assms(1) by (simp add: exclusive_bounds_def Let_def)
    ultimately have "in_box p ?ex \<longleftrightarrow> length p = D \<and> (\<forall>d<D. slice (?im ! d) 1 (p ! d))" by (auto simp: in_box_def)
    then show ?thesis by (simp add: in_layer)
  qed
  have dir: "shared_dir ?im ind \<longleftrightarrow> \<not> centre ind" if "ind \<in> grid D" "in_box p (layer ?im ind)" for ind
  proof -
    have "ind ! d \<noteq> 1 \<longrightarrow> cut_differs ?im d (ind ! d)" if "d < D" for d
      using slices(2)[OF that] that \<open>ind \<in> grid D\<close> \<open>in_box p (layer ?im ind)\<close> by (auto simp: grid_def in_layer)
    then show ?thesis using that by (auto simp: shared_dir_def grid_def)
  qed
  have "centre ind \<Longrightarrow> ind = ?mid" if "ind \<in> grid D" for ind
    using that by (intro nth_equalityI) (auto simp: grid_def centre_def)
  note at_mid = this
  have sum: "length (filter (in_box p) (x # ys)) = (if in_box p x then 1 else 0) + length (filter (in_box p) ys)" for x ys
    by simp
  show ?thesis
  proof (cases "in_box p (pbox_of G nhd C b)")
    case False
    then have "\<not> in_box p ?ex" "\<not> (\<exists>ind\<in>grid D. shared_dir ?im ind \<and> in_box p (layer ?im ind))"
      using inside ex mid(1) by blast+
    then show ?thesis using False unfolding sum cs layer_count[OF one] by simp
  next
    case True
    then obtain ind where ind: "ind \<in> grid D" "in_box p (layer ?im ind)" using in_some_layer unfolding primary by blast
    have "in_box p ?ex \<longleftrightarrow> centre ind"
      unfolding ex using layer_unique[OF one ind(1) mid(1) ind(2)] ind mid(2) at_mid[OF ind(1)] by metis
    moreover have "(\<exists>ind\<in>grid D. shared_dir ?im ind \<and> in_box p (layer ?im ind)) \<longleftrightarrow> \<not> centre ind"
      using dir ind layer_unique[OF one ind(1) _ ind(2)] by metis
    ultimately show ?thesis using True unfolding sum cs layer_count[OF one] by simp
  qed
qed

text \<open>The domain halo boxes tile what the outer box adds to the primary box.\<close>

lemma halo_tiles:
  assumes "length C = D" "grid_ok G C hl" "position C b" "0 \<le> nhd"
  shows "length (filter (in_box p) (halo_boxes (halo_cuts G C nhd b)))
    = (if in_box p (domain_bounds nhd (sides_of G nhd C b) (pbox_of G nhd C b)) \<and> \<not> in_box p (pbox_of G nhd C b) then 1 else 0)"
proof -
  let ?im = "halo_cuts G C nhd b" and ?out = "domain_bounds nhd (sides_of G nhd C b) (pbox_of G nhd C b)"
  note slices = halo_slices[OF _ assms(2,3,4), unfolded assms(1)]
  have G: "length G = D" using assms(1,2) by (simp add: grid_ok_def)
  have one: "\<forall>d<D. \<forall>i<3. \<forall>j<3. slice (?im ! d) i (p ! d) \<longrightarrow> slice (?im ! d) j (p ! d) \<longrightarrow> i = j" using slices(3) by blast
  have lo: "length (lowerbnd ?out) = D" using assms(1) by (simp add: domain_bounds_def Let_def)
  have "lowerbnd ?out ! d = ?im ! d ! 0 \<and> upperbnd ?out ! d = ?im ! d ! 3" if "d < D" for d
    using that lo by (simp add: cuts_def)
  then have out: "in_box p ?out \<longleftrightarrow> length p = D \<and> (\<forall>d<D. \<exists>i<3. slice (?im ! d) i (p ! d))"
  proof -
    assume ends: "\<And>d. d < D \<Longrightarrow> lowerbnd ?out ! d = ?im ! d ! 0 \<and> upperbnd ?out ! d = ?im ! d ! 3"
    have "(\<exists>i<3. slice (?im ! d) i (p ! d)) \<longleftrightarrow> lowerbnd ?out ! d \<le> p ! d \<and> p ! d \<le> upperbnd ?out ! d" if "d < D" for d
      using slices(1)[OF that, of "p ! d"] ends[OF that] by simp
    then show ?thesis using lo by (auto simp: in_box_def)
  qed
  let ?mid = "replicate D 1"
  have mid: "?mid \<in> grid D" "centre ?mid" by (simp_all add: grid_def centre_def)
  have inner: "in_box p (pbox_of G nhd C b) \<longleftrightarrow> in_box p (layer ?im ?mid)"
  proof -
    have "slice (?im ! d) 1 x \<longleftrightarrow> lowerbnd (pbox_of G nhd C b) ! d \<le> x \<and> x \<le> upperbnd (pbox_of G nhd C b) ! d" if "d < D" for d x
      using that lo by (simp add: cuts_def slice_cases)
    then have "in_box p (pbox_of G nhd C b) \<longleftrightarrow> length p = D \<and> (\<forall>d<D. slice (?im ! d) 1 (p ! d))"
      using assms(1) by (auto simp: in_box_def)
    then show ?thesis by (simp add: in_layer)
  qed
  have dir: "full_dir ?im ind \<longleftrightarrow> \<not> centre ind" if "ind \<in> grid D" "in_box p (layer ?im ind)" for ind
  proof -
    have "cut_differs ?im d (ind ! d)" if "d < D" for d
      using slices(2)[OF that] that \<open>ind \<in> grid D\<close> \<open>in_box p (layer ?im ind)\<close> by (auto simp: grid_def in_layer)
    then show ?thesis using that by (auto simp: full_dir_def grid_def)
  qed
  have at_mid: "centre ind \<Longrightarrow> ind = ?mid" if "ind \<in> grid D" for ind
    using that by (intro nth_equalityI) (auto simp: grid_def centre_def)
  have "(\<exists>ind\<in>grid D. full_dir ?im ind \<and> in_box p (layer ?im ind)) \<longleftrightarrow> in_box p ?out \<and> \<not> in_box p (pbox_of G nhd C b)"
  proof
    assume "\<exists>ind\<in>grid D. full_dir ?im ind \<and> in_box p (layer ?im ind)"
    then obtain ind where ind: "ind \<in> grid D" "in_box p (layer ?im ind)" "\<not> centre ind" using dir by blast
    then have "in_box p ?out" unfolding out by (auto simp: in_layer grid_def)
    moreover have "\<not> in_box p (layer ?im ?mid)" using layer_unique[OF one ind(1) mid(1) ind(2)] ind(3) mid(2) by blast
    ultimately show "in_box p ?out \<and> \<not> in_box p (pbox_of G nhd C b)" using inner by blast
  next
    assume o: "in_box p ?out \<and> \<not> in_box p (pbox_of G nhd C b)"
    then obtain ind where ind: "ind \<in> grid D" "in_box p (layer ?im ind)" using in_some_layer unfolding out by blast
    then have "\<not> centre ind" using at_mid inner o by blast
    then show "\<exists>ind\<in>grid D. full_dir ?im ind \<and> in_box p (layer ?im ind)" using ind dir by blast
  qed
  then show ?thesis unfolding halo_boxes layer_count[OF one] by (rule if_cong) simp_all
qed

text \<open>The primary boxes of the ranks tile the domain.\<close>

lemma primaries_tile:
  assumes "length C = D" "grid_ok G C hl" "in_box p (box_domain G nhd)"
  shows "\<exists>!r. 0 \<le> r \<and> r < prod_list C \<and> in_box p (pbox_of G nhd C (get_indices D C r))"
proof -
  have G: "length G = D" and pos: "\<forall>n\<in>set C. 0 < n" and w: "\<forall>d<D. wide hl (G ! d) (C ! d)"
    using assms(1,2) by (auto simp: grid_ok_def wide_def all_set_conv_all_nth)
  have p: "length p = D" "\<forall>d<D. nhd \<le> p ! d \<and> p ! d \<le> G ! d + nhd - 1"
    using assms(3) G by (auto simp: in_box_def box_domain_def)
  have at: "in_box p (pbox_of G nhd C a) \<longleftrightarrow>
      (\<forall>d<D. slab_lo nhd (G ! d) (C ! d) (a ! d) \<le> p ! d \<and> p ! d \<le> slab_hi nhd (G ! d) (C ! d) (a ! d))" for a
    using assms(1) G p(1) by (auto simp: in_box_def pbox_nth)
  have "\<forall>d<D. \<exists>x. 0 \<le> x \<and> x < C ! d \<and> slab_lo nhd (G ! d) (C ! d) x \<le> p ! d \<and> p ! d \<le> slab_hi nhd (G ! d) (C ! d) x"
    using slab_cover w p(2) by blast
  then obtain f where f: "\<forall>d<D. 0 \<le> f d \<and> f d < C ! d \<and> slab_lo nhd (G ! d) (C ! d) (f d) \<le> p ! d \<and>
      p ! d \<le> slab_hi nhd (G ! d) (C ! d) (f d)" by metis
  let ?a = "map f [0..<D]"
  have a: "position C ?a" "in_box p (pbox_of G nhd C ?a)" using f assms(1) by (simp_all add: position_def at)
  have uniq: "b = ?a" if "position C b" "in_box p (pbox_of G nhd C b)" for b
  proof (rule nth_equalityI)
    show "length b = length ?a" using that(1) assms(1) by (simp add: position_def)
    fix d assume "d < length b"
    then have d: "d < D" using that(1) assms(1) by (simp add: position_def)
    then have "0 \<le> b ! d \<and> b ! d < C ! d \<and> slab_lo nhd (G ! d) (C ! d) (b ! d) \<le> p ! d \<and>
        p ! d \<le> slab_hi nhd (G ! d) (C ! d) (b ! d)" using that at assms(1) by (simp add: position_def)
    moreover have "wide hl (G ! d) (C ! d)" "nhd \<le> p ! d" "p ! d \<le> G ! d + nhd - 1" using w p(2) d by auto
    ultimately have "b ! d = f d" using slab_cover[of hl "G ! d" "C ! d" nhd "p ! d"] f d by metis
    then show "b ! d = ?a ! d" using d by simp
  qed
  show ?thesis
  proof (rule ex_ex1I)
    have r: "0 \<le> color C ?a \<and> color C ?a < prod_list C" by (rule color_range[OF assms(1) a(1)])
    then have g: "position C (get_indices D C (color C ?a)) \<and> color C (get_indices D C (color C ?a)) = color C ?a"
      using indices[OF assms(1) pos] by blast
    then have "get_indices D C (color C ?a) = ?a" using color_inj[OF assms(1) _ a(1)] by blast
    then show "\<exists>r. 0 \<le> r \<and> r < prod_list C \<and> in_box p (pbox_of G nhd C (get_indices D C r))"
      using r a(2) by (intro exI[of _ "color C ?a"]) simp
  next
    fix r s
    assume r: "0 \<le> r \<and> r < prod_list C \<and> in_box p (pbox_of G nhd C (get_indices D C r))"
      and s: "0 \<le> s \<and> s < prod_list C \<and> in_box p (pbox_of G nhd C (get_indices D C s))"
    have "get_indices D C r = ?a" "get_indices D C s = ?a"
      using indices[OF assms(1) pos] r s uniq by blast+
    then show "r = s" using indices[OF assms(1) pos] r s by metis
  qed
qed

end


section \<open>Ranges\<close>

definition box_within :: "int \<Rightarrow> box \<Rightarrow> bool" where
  "box_within m b \<longleftrightarrow> (\<forall>x\<in>set (lowerbnd b) \<union> set (upperbnd b). 0 \<le> x \<and> x < m)"

text \<open>The cuts of a dimension are ordered at the sides.\<close>

definition cuts_within :: "int \<Rightarrow> int list \<Rightarrow> bool" where
  "cuts_within m cs \<longleftrightarrow> (\<exists>a b c e. cs = [a, b, c, e] \<and> 0 \<le> a \<and> a \<le> b \<and> b < m \<and> 0 \<le> c \<and> c \<le> e \<and> e < m)"

lemma layer_within:
  assumes "\<forall>d<length ind. ind ! d < 3 \<and> cuts_within m (im ! d) \<and> (ind ! d \<noteq> 1 \<longrightarrow> cut_differs im d (ind ! d))"
  shows "box_within m (layer im ind)"
proof -
  have "0 \<le> im ! d ! (ind ! d) + il ! (ind ! d) \<and> im ! d ! (ind ! d) + il ! (ind ! d) < m \<and>
      0 \<le> im ! d ! (ind ! d + 1) - iu ! (ind ! d) \<and> im ! d ! (ind ! d + 1) - iu ! (ind ! d) < m" if d: "d < length ind" for d
  proof -
    obtain a b c e where im: "im ! d = [a, b, c, e]" and r: "0 \<le> a" "a \<le> b" "b < m" "0 \<le> c" "c \<le> e" "e < m"
      using assms d by (auto simp: cuts_within_def)
    have "ind ! d = 0 \<or> ind ! d = 1 \<or> ind ! d = 2" "ind ! d \<noteq> 1 \<longrightarrow> cut_differs im d (ind ! d)" using assms d less_3 by auto
    then show ?thesis using r by (auto simp: im il_def iu_def cut_differs_def numeral_2_eq_2)
  qed
  then show ?thesis by (auto simp: box_within_def layer_def)
qed

lemma cuts_in_range:
  assumes "d < length C" "grid_ok G C hl" "position C index" "0 \<le> nhd" "G ! d + 2 * nhd < m"
  shows "cuts_within m (exclusive_cuts G C hl nhd index ! d)" "cuts_within m (ghost_cuts G C hl nhd index ! d)"
    "cuts_within m (halo_cuts G C nhd index ! d)"
proof -
  have w: "wide hl (G ! d) (C ! d)" "0 \<le> index ! d" "index ! d < C ! d"
    using assms by (auto simp: grid_ok_def position_def)
  define lo where "lo = slab_lo nhd (G ! d) (C ! d) (index ! d)"
  define hi where "hi = slab_hi nhd (G ! d) (C ! d) (index ! d)"
  define ne where "ne = G ! d div C ! d"
  have hl: "0 \<le> hl" "2 * hl \<le> ne" "2 \<le> ne" using w(1) by (simp_all add: wide_def ne_def)
  have l: "lo + ne - 1 \<le> hi" using slab_length[OF w, of nhd] by (simp add: lo_def hi_def ne_def)
  have "ne * 1 \<le> ne * index ! d" if "index ! d \<noteq> 0" using that w(2) hl by (intro mult_left_mono) auto
  then have lo: "if index ! d = 0 then lo = nhd else nhd + ne \<le> lo" by (simp add: lo_def slab_lo_def ne_def)
  have hi: "if index ! d = C ! d - 1 then hi = G ! d + nhd - 1 else hi + ne \<le> G ! d + nhd - 1"
    using slab_hi_below[OF w(1,2), of nhd] w(3) by (auto simp: hi_def ne_def slab_hi_def)
  show "cuts_within m (exclusive_cuts G C hl nhd index ! d)" "cuts_within m (ghost_cuts G C hl nhd index ! d)"
    "cuts_within m (halo_cuts G C nhd index ! d)"
    unfolding exclusive_cuts_nth[OF assms(1-3)] ghost_cuts_nth[OF assms(1-3)] halo_cuts_nth[OF assms(1-3)] Let_def
      lo_def[symmetric] hi_def[symmetric]
    using lo hi l hl assms(4,5) by (simp_all add: cuts_within_def split: if_splits)
qed

lemma cuts_boxes_within:
  assumes "length (upperbnd outer) = length (lowerbnd outer)" "length (lowerbnd inner) = length (lowerbnd outer)"
    "length (upperbnd inner) = length (lowerbnd outer)"
    and "\<forall>d<length (lowerbnd outer). cuts_within m (cuts outer inner ! d)"
  shows "box_within m outer" "box_within m inner"
proof -
  have "0 \<le> lowerbnd outer ! d \<and> lowerbnd outer ! d < m \<and> 0 \<le> upperbnd outer ! d \<and> upperbnd outer ! d < m \<and>
      0 \<le> lowerbnd inner ! d \<and> lowerbnd inner ! d < m \<and> 0 \<le> upperbnd inner ! d \<and> upperbnd inner ! d < m"
    if "d < length (lowerbnd outer)" for d
    using assms(4) that by (auto simp: cuts_within_def cuts_def)
  then show "box_within m outer" "box_within m inner" using assms(1-3) by (auto simp: box_within_def in_set_conv_nth)
qed

text \<open>The primary box, and the boxes inside and around it from which the layers are cut.\<close>

lemma rank_bounds_within:
  assumes "grid_ok G C hl" "position C b" "0 \<le> nhd" "\<forall>d<length C. G ! d + 2 * nhd < m"
  shows "box_within m (pbox_of G nhd C b)"
    "box_within m (exclusive_bounds hl (sides_of G nhd C b) (pbox_of G nhd C b))"
    "box_within m (ghost_bounds hl (sides_of G nhd C b) (pbox_of G nhd C b))"
    "box_within m (domain_bounds nhd (sides_of G nhd C b) (pbox_of G nhd C b))"
proof -
  have l: "length (upperbnd (pbox_of G nhd C b)) = length C" by (simp add: create_primary_box_def Let_def)
  have e: "length (lowerbnd (exclusive_bounds h s (pbox_of G nhd C b))) = length C"
    "length (upperbnd (exclusive_bounds h s (pbox_of G nhd C b))) = length C"
    "length (lowerbnd (ghost_bounds h s (pbox_of G nhd C b))) = length C"
    "length (upperbnd (ghost_bounds h s (pbox_of G nhd C b))) = length C"
    "length (lowerbnd (domain_bounds h s (pbox_of G nhd C b))) = length C"
    "length (upperbnd (domain_bounds h s (pbox_of G nhd C b))) = length C" for h s
    by (simp_all add: exclusive_bounds_def ghost_bounds_def domain_bounds_def Let_def)
  note r = cuts_in_range[OF _ assms(1-3)]
  show "box_within m (pbox_of G nhd C b)"
    "box_within m (exclusive_bounds hl (sides_of G nhd C b) (pbox_of G nhd C b))"
    using cuts_boxes_within[of "pbox_of G nhd C b" "exclusive_bounds hl (sides_of G nhd C b) (pbox_of G nhd C b)" m]
      r(1) assms(4) l e by simp_all
  show "box_within m (ghost_bounds hl (sides_of G nhd C b) (pbox_of G nhd C b))"
    by (rule cuts_boxes_within(1)[of _ "pbox_of G nhd C b"]) (use r(2) assms(4) l e in auto)
  show "box_within m (domain_bounds nhd (sides_of G nhd C b) (pbox_of G nhd C b))"
    by (rule cuts_boxes_within(1)[of _ "pbox_of G nhd C b"]) (use r(3) assms(4) l e in auto)
qed

text \<open>A cell at most \<open>hl\<close> cells away from a box in every dimension.\<close>

definition near_box :: "int \<Rightarrow> int list \<Rightarrow> box \<Rightarrow> bool" where
  "near_box hl p b \<longleftrightarrow> (\<forall>d<length p. lowerbnd b ! d - hl \<le> p ! d \<and> p ! d \<le> upperbnd b ! d + hl)"

lemma beside_place:
  assumes "wide hl n c" "0 \<le> a" "a < c" "beside hl nhd n c a e x"
  shows "nhd \<le> x \<and> x \<le> n + nhd - 1 \<and> slab_lo nhd n c a - hl \<le> x \<and> x \<le> slab_hi nhd n c a + hl \<and>
    (e \<noteq> 0 \<longrightarrow> \<not> (slab_lo nhd n c a \<le> x \<and> x \<le> slab_hi nhd n c a))"
proof -
  have hl: "0 \<le> hl" "2 * hl \<le> n div c" "2 \<le> n div c" using assms(1) by (simp_all add: wide_def)
  have "n div c * 1 \<le> n div c * a" if "0 < a" using that hl by (intro mult_left_mono) auto
  then have "0 < a \<longrightarrow> nhd + n div c \<le> slab_lo nhd n c a" by (simp add: slab_lo_def)
  moreover have "nhd \<le> slab_lo nhd n c a" using assms(2) hl by (simp add: slab_lo_def)
  moreover have "if a = c - 1 then slab_hi nhd n c a = n + nhd - 1 else slab_hi nhd n c a + n div c \<le> n + nhd - 1"
    using slab_hi_below[OF assms(1,2), of nhd] assms(3) by (auto simp: slab_hi_def)
  ultimately show ?thesis using assms(4) hl slab_length[OF assms(1-3), of nhd] by (auto simp: beside_def split: if_splits)
qed

lemma side_step:
  assumes "grid_ok G C hl" "position C b" "length ind = length C" "\<forall>d<length C. ind ! d < 3" "toward e ind"
    and "\<forall>d<length C. ind ! d \<noteq> 1 \<longrightarrow> cut_differs (exclusive_cuts G C hl nhd b) d (ind ! d) \<or> cut_differs (ghost_cuts G C hl nhd b) d (ind ! d)"
  shows "position C (shift b e)"
proof (rule shift_position)
  show "length e = length C" using assms(3,5) by (simp add: toward_def)
  show "position C b" by (rule assms(2))
  have "0 \<le> b ! d + e ! d \<and> b ! d + e ! d < C ! d" if d: "d < length C" for d
  proof -
    have b: "0 \<le> b ! d" "b ! d < C ! d" using assms(2) d by (auto simp: position_def)
    have "ind ! d = 0 \<longrightarrow> b ! d \<noteq> 0" "ind ! d = 2 \<longrightarrow> b ! d \<noteq> C ! d - 1"
      using assms(6) d
      by (auto simp: cut_differs_def exclusive_cuts_nth[OF d assms(1,2)] ghost_cuts_nth[OF d assms(1,2)] Let_def numeral_2_eq_2)
    moreover have "ind ! d = 0 \<or> ind ! d = 1 \<or> ind ! d = 2" using assms(4) d less_3 by auto
    moreover have "e ! d = 0 \<or> e ! d = int (ind ! d) - 1" using assms(3,5) d by (simp add: toward_def)
    ultimately show ?thesis using b by (elim disjE) auto
  qed
  then show "\<forall>d<length C. 0 \<le> b ! d + e ! d \<and> b ! d + e ! d < C ! d" by blast
qed

lemma shift_moves: "length b = length e \<Longrightarrow> 0 < weight e \<Longrightarrow> shift b e \<noteq> b"
proof
  assume e: "length b = length e" "0 < weight e" "shift b e = b"
  then obtain d where "d < length e" "e ! d \<noteq> 0" using weight_0[of e] by auto
  then show False using shift_nth[OF e(1), of d] e(3) by simp
qed

context box_layout
begin

lemma shared_values:
  assumes "length C = D" "TD < D" "grid_ok G C hl" "position C b" "0 \<le> nhd" "\<forall>d<D. G ! d + 2 * nhd < m"
    and "s \<in> set (shared_boxes (exclusive_cuts G C hl nhd b) TD C b)"
  shows "box_within m (color_box s) \<and> (\<forall>c\<in>set (colors s). 0 \<le> c \<and> c < prod_list C \<and> c \<noteq> color C b)"
proof -
  let ?im = "exclusive_cuts G C hl nhd b"
  have lb: "length b = D" using assms by (simp add: position_def)
  from shared_boxes[OF assms(2) lb, of ?im C] assms(7) obtain ind where ind: "ind \<in> grid D" "shared_dir ?im ind" "color_box s = layer ?im ind"
    "set (colors s) = {color C (shift b e) | e. toward e ind \<and> 0 < weight e \<and> weight e + TD \<le> D}" by (auto simp: dirs(1))
  have l: "length ind = length C" "\<forall>d<length C. ind ! d < 3"
    "\<forall>d<length C. ind ! d \<noteq> 1 \<longrightarrow> cut_differs ?im d (ind ! d)" using ind(1,2) assms(1) by (auto simp: grid_def shared_dir_def)
  have "box_within m (layer ?im ind)"
    using l cuts_in_range(1)[OF _ assms(3-5)] assms(1,6) by (intro layer_within) auto
  moreover have "0 \<le> c \<and> c < prod_list C \<and> c \<noteq> color C b" if c: "c \<in> set (colors s)" for c
  proof -
    obtain e where e: "toward e ind" "0 < weight e" "c = color C (shift b e)" using c ind(4) by auto
    have p: "position C (shift b e)" using side_step[OF assms(3,4) l(1,2) e(1)] l(3) by blast
    have "shift b e \<noteq> b" using shift_moves[OF _ e(2)] e(1) l(1) lb assms(1) by (simp add: toward_def)
    then have "color C (shift b e) \<noteq> color C b" using color_inj[OF assms(1) p assms(4)] by blast
    then show ?thesis using color_range[OF assms(1) p] e(3) by simp
  qed
  ultimately show ?thesis by (simp add: ind(3))
qed

lemma ghost_values:
  assumes "length C = D" "TD < D" "grid_ok G C hl" "position C b" "0 \<le> nhd" "\<forall>d<D. G ! d + 2 * nhd < m"
    and "s \<in> set (ghost_boxes (ghost_cuts G C hl nhd b) TD C b)"
  shows "box_within m (color_box s) \<and> (\<forall>c\<in>set (colors s). 0 \<le> c \<and> c < prod_list C \<and> c \<noteq> color C b)"
proof -
  let ?im = "ghost_cuts G C hl nhd b"
  have lb: "length b = D" using assms by (simp add: position_def)
  obtain ind where ind: "ind \<in> grid D" "full_dir ?im ind" "color_box s = layer ?im ind"
    "colors s = [color C (shift b (step_of ind))]" using assms(7) by (auto simp: ghost_boxes[OF assms(2) lb] dirs(1))
  have l: "length ind = length C" "\<forall>d<length C. ind ! d < 3"
    "\<forall>d<length C. cut_differs ?im d (ind ! d)" using ind(1,2) assms(1) by (auto simp: grid_def full_dir_def)
  have "box_within m (layer ?im ind)"
    using l cuts_in_range(2)[OF _ assms(3-5)] assms(1,6) by (intro layer_within) auto
  moreover have e: "toward (step_of ind) ind" "0 < weight (step_of ind)"
    using ind(2) by (auto simp: toward_def step_of_def full_dir_def centre_step)
  have p: "position C (shift b (step_of ind))" using side_step[OF assms(3,4) l(1,2) e(1)] l(3) by blast
  have "shift b (step_of ind) \<noteq> b" using shift_moves[OF _ e(2)] e(1) l(1) lb assms(1) by (simp add: toward_def)
  then have "color C (shift b (step_of ind)) \<noteq> color C b" using color_inj[OF assms(1) p assms(4)] by blast
  ultimately show ?thesis using color_range[OF assms(1) p] by (simp add: ind(3,4))
qed

lemma ghost_place:
  assumes "length C = D" "TD < D" "grid_ok G C hl" "position C b"
    and "s \<in> set (ghost_boxes (ghost_cuts G C hl nhd b) TD C b)" "in_box p (color_box s)"
  shows "in_box p (box_domain G nhd) \<and> \<not> in_box p (pbox_of G nhd C b) \<and> near_box hl p (pbox_of G nhd C b)"
proof -
  have lb: "length b = D" using assms by (simp add: position_def)
  obtain ind where ind: "ind \<in> grid D" "\<not> centre ind" "in_box p (layer (ghost_cuts G C hl nhd b) ind)"
    using assms(5,6) by (auto simp: ghost_boxes[OF assms(2) lb] dirs(1) full_dir_def)
  have l: "length p = length C" "length ind = length C" "length G = length C" "\<forall>d<length C. ind ! d < 3"
    using ind(1,3) assms(1,3) by (auto simp: grid_def in_layer grid_ok_def)
  have "beside hl nhd (G ! d) (C ! d) (b ! d) (int (ind ! d) - 1) (p ! d)" if d: "d < length C" for d
    using ind(3) l d ghost_slices(1)[OF d assms(3,4)] by (auto simp: in_layer)
  then have at: "nhd \<le> p ! d \<and> p ! d \<le> G ! d + nhd - 1 \<and> slab_lo nhd (G ! d) (C ! d) (b ! d) - hl \<le> p ! d \<and>
      p ! d \<le> slab_hi nhd (G ! d) (C ! d) (b ! d) + hl \<and> (int (ind ! d) - 1 \<noteq> 0 \<longrightarrow>
      \<not> (slab_lo nhd (G ! d) (C ! d) (b ! d) \<le> p ! d \<and> p ! d \<le> slab_hi nhd (G ! d) (C ! d) (b ! d)))" if d: "d < length C" for d
    using d assms(3,4) by (intro beside_place) (auto simp: grid_ok_def position_def)
  obtain d where "d < length C" "ind ! d \<noteq> 1" using ind(2) l(2) by (auto simp: centre_def)
  then have "\<not> in_box p (pbox_of G nhd C b)" using at[of d] l by (auto simp: in_box_def pbox_nth)
  moreover have "near_box hl p (pbox_of G nhd C b)" using at l by (simp add: near_box_def pbox_nth)
  moreover have "in_box p (box_domain G nhd)" using at l by (simp add: in_box_def box_domain_def)
  ultimately show ?thesis by blast
qed

lemma halo_values:
  assumes "length C = D" "grid_ok G C hl" "position C b" "0 \<le> nhd" "\<forall>d<D. G ! d + 2 * nhd < m"
    and "h \<in> set (halo_boxes (halo_cuts G C nhd b))"
  shows "box_within m h"
proof -
  obtain ind where ind: "ind \<in> grid D" "full_dir (halo_cuts G C nhd b) ind" "h = layer (halo_cuts G C nhd b) ind"
    using assms(6) by (auto simp: halo_boxes dirs(1))
  then show ?thesis
    using cuts_in_range(3)[OF _ assms(2-4)] assms(1,5) by (auto simp: grid_def full_dir_def intro!: layer_within)
qed

end

section \<open>The colorer\<close>

text \<open>
  The inputs: every primary box is at least two cells and two halos wide in every dimension.
\<close>

definition box_input :: "int \<Rightarrow> int list \<Rightarrow> int \<Rightarrow> int \<Rightarrow> nat \<Rightarrow> int list \<Rightarrow> bool" where
  "box_input sz G hl nhd TD C \<longleftrightarrow> length C \<in> {2, 3} \<and> grid_ok G C hl \<and> 0 \<le> nhd \<and> TD < length C \<and>
     prod_list C = sz \<and> sz < 2 ^ 31"

lemma prod_list_pos: "\<forall>n\<in>set ns. 0 < n \<Longrightarrow> 0 < prod_list ns" for ns :: "int list"
  by (induction ns) auto

lemma sint_small: "0 \<le> x \<Longrightarrow> x < 2 ^ 31 \<Longrightarrow> sint (word_of_int x :: 32 word) = x"
  by (simp add: sint_sbintrunc' signed_take_bit_int_eq_self)

lemma count_colors_prod:
  assumes "\<forall>n\<in>set C. 0 < n" "prod_list C < 2 ^ 31"
  shows "count_colors C = prod_list C"
proof -
  have "fold (\<lambda>n count. sint (word_of_int (count * n) :: 32 word)) C k = k * prod_list C"
    if "0 < k" "k * prod_list C < 2 ^ 31" for k
    using that assms(1)
  proof (induction C arbitrary: k)
    case (Cons n C)
    have pos: "0 < n" "0 < prod_list C" using Cons.prems(3) prod_list_pos by auto
    have "k * n \<le> k * n * prod_list C" using pos Cons.prems(1) by simp
    moreover have "k * n * prod_list C < 2 ^ 31" using Cons.prems(2) by (simp add: mult.assoc)
    ultimately have "k * n < 2 ^ 31" by linarith
    moreover have "0 < k * n" using Cons.prems(1) pos by simp
    ultimately have "sint (word_of_int (k * n) :: 32 word) = k * n"
      by (intro sint_small) simp_all
    moreover have "fold (\<lambda>n count. sint (word_of_int (count * n) :: 32 word)) C (k * n) = k * n * prod_list C"
      using Cons.prems pos by (intro Cons.IH) (simp_all add: ac_simps)
    ultimately show ?case unfolding fold_simps by (simp only: prod_list.Cons mult.assoc)
  qed simp
  from this[of 1] show ?thesis using assms(2) by (simp add: count_colors_def)
qed

definition rank_boxes :: "int list \<Rightarrow> int \<Rightarrow> int \<Rightarrow> nat \<Rightarrow> int list \<Rightarrow> int \<Rightarrow> box_coloring_info" where
  "rank_boxes G hl nhd TD C r =
     (let D = length C; a = get_indices D C r in
      \<lparr>primary = \<lparr>info_box = pbox_of G nhd C a, nhalo = hl, nhalo_domain = nhd, thru_dim = TD, onbnd = sides_of G nhd C a\<rparr>,
       exclusive = \<lparr>color_box = exclusive_bounds hl (sides_of G nhd C a) (pbox_of G nhd C a), colors = [r]\<rparr>,
       shared = (if D = 2 then shared_boxes_2 else shared_boxes_3) (exclusive_cuts G C hl nhd a) TD C a,
       ghost = (if D = 2 then ghost_boxes_2 else ghost_boxes_3) (ghost_cuts G C hl nhd a) TD C a,
       domain_halo = (if D = 2 then domain_layers_2 else domain_layers_3) (halo_cuts G C nhd a)\<rparr>)"

lemma box_color_rank_boxes:
  assumes "box_input sz G hl nhd TD C"
  shows "box_color_rank sz r G hl nhd TD C = ok (rank_boxes G hl nhd TD C r)"
proof -
  have pos: "\<forall>n\<in>set C. 0 < n" using assms by (auto simp: box_input_def grid_ok_def wide_def all_set_conv_all_nth)
  have "count_colors C = sz" using assms count_colors_prod[OF pos] by (simp add: box_input_def)
  moreover have "length (halo_cuts G C nhd a) = length C" for a by (simp add: cuts_def domain_bounds_def Let_def)
  ultimately show ?thesis
    using assms by (auto simp: box_color_rank_def rank_boxes_def box_input_def Let_def
        create_exclusive_and_shared_boxes_def create_ghost_boxes_def create_domain_halo_boxes_def)
qed

lemma rank_position:
  assumes "box_input sz G hl nhd TD C" "0 \<le> r" "r < sz"
  shows "position C (get_indices (length C) C r)"
proof -
  have pos: "\<forall>n\<in>set C. 0 < n" using assms(1) by (auto simp: box_input_def grid_ok_def wide_def all_set_conv_all_nth)
  then show ?thesis using assms plane.indices[OF _ pos] space.indices[OF _ pos] by (auto simp: box_input_def)
qed

text \<open>
  C35: If every primary box is at least two cells and two halos wide in every dimension, the boxes of the
  ranks tile the grid: each cell of the domain is in the primary box of exactly one
  rank, and within a rank each cell of the primary box, and no other cell, is in exactly one of the
  exclusive and the shared boxes.
\<close>

theorem box_color_tiles:
  assumes "box_input sz G hl nhd TD C"
  shows "\<exists>R. (\<forall>r. 0 \<le> r \<and> r < sz \<longrightarrow> box_color_rank sz r G hl nhd TD C = ok (R r)) \<and>
    (\<forall>p. in_box p (box_domain G nhd) \<longrightarrow> (\<exists>!r. 0 \<le> r \<and> r < sz \<and> in_box p (info_box (primary (R r))))) \<and>
    (\<forall>r p. 0 \<le> r \<and> r < sz \<longrightarrow>
      length (filter (in_box p) (color_box (exclusive (R r)) # map color_box (shared (R r))))
      = (if in_box p (info_box (primary (R r))) then 1 else 0))"
proof (intro exI[of _ "rank_boxes G hl nhd TD C"] conjI allI impI)
  have D: "length C = 2 \<or> length C = 3" "grid_ok G C hl" "TD < length C" "prod_list C = sz"
    using assms by (auto simp: box_input_def)
  fix p assume "in_box p (box_domain G nhd)"
  then show "\<exists>!r. 0 \<le> r \<and> r < sz \<and> in_box p (info_box (primary (rank_boxes G hl nhd TD C r)))"
    using D plane.primaries_tile[of C G hl p nhd] space.primaries_tile[of C G hl p nhd]
    by (auto simp: rank_boxes_def Let_def)
next
  have D: "length C = 2 \<or> length C = 3" "grid_ok G C hl" "TD < length C"
    using assms by (auto simp: box_input_def)
  fix r p assume "0 \<le> r \<and> r < sz"
  then have "position C (get_indices (length C) C r)" using rank_position[OF assms] by blast
  then show "length (filter (in_box p) (color_box (exclusive (rank_boxes G hl nhd TD C r))
        # map color_box (shared (rank_boxes G hl nhd TD C r))))
      = (if in_box p (info_box (primary (rank_boxes G hl nhd TD C r))) then 1 else 0)"
    using D plane.boxes_tile[of C TD G hl "get_indices 2 C r" p nhd] space.boxes_tile[of C TD G hl "get_indices 3 C r" p nhd]
    by (elim disjE) (simp_all add: rank_boxes_def Let_def)
qed (rule box_color_rank_boxes[OF assms])

text \<open>
  C16: If every primary box is at least two cells and two halos wide in every dimension, ghosts and shared
  cells agree between ranks: a cell is in a ghost box of rank \<open>r\<close> that names rank \<open>s\<close> exactly if it is in a
  shared box of rank \<open>s\<close> that names rank \<open>r\<close>.  (In narrower grids they need not agree:
  \<open>box_narrow_grid_defect\<close> below.)
\<close>

theorem box_ghosts_are_shared:
  assumes "box_input sz G hl nhd TD C" "0 \<le> r" "r < sz" "0 \<le> s" "s < sz"
  shows "\<exists>R S. box_color_rank sz r G hl nhd TD C = ok R \<and> box_color_rank sz s G hl nhd TD C = ok S \<and>
    (\<forall>p. (\<exists>g\<in>set (ghost R). in_box p (color_box g) \<and> s \<in> set (colors g)) \<longleftrightarrow>
         (\<exists>b\<in>set (shared S). in_box p (color_box b) \<and> r \<in> set (colors b)))"
proof (intro exI conjI allI)
  show "box_color_rank sz r G hl nhd TD C = ok (rank_boxes G hl nhd TD C r)"
    "box_color_rank sz s G hl nhd TD C = ok (rank_boxes G hl nhd TD C s)" by (rule box_color_rank_boxes[OF assms(1)])+
  fix p
  have D: "length C = 2 \<or> length C = 3" "grid_ok G C hl" "TD < length C" "prod_list C = sz"
    and pos: "\<forall>n\<in>set C. 0 < n"
    using assms by (auto simp: box_input_def grid_ok_def wide_def all_set_conv_all_nth)
  have at: "position C (get_indices (length C) C r)" "position C (get_indices (length C) C s)"
    using rank_position[OF assms(1)] assms(2-) by blast+
  from D(1) show "(\<exists>g\<in>set (ghost (rank_boxes G hl nhd TD C r)). in_box p (color_box g) \<and> s \<in> set (colors g)) \<longleftrightarrow>
      (\<exists>b\<in>set (shared (rank_boxes G hl nhd TD C s)). in_box p (color_box b) \<and> r \<in> set (colors b))"
  proof
    assume l: "length C = 2"
    then have "color_of_2 C (get_indices 2 C r) = r" "color_of_2 C (get_indices 2 C s) = s"
      using plane.indices[OF l pos] assms(2-) D(4) by auto
    then show ?thesis using plane.ghost_shared[OF l _ D(2), of TD "get_indices 2 C r" "get_indices 2 C s" nhd p] D(3) at l
      by (simp add: rank_boxes_def Let_def)
  next
    assume l: "length C = 3"
    then have "color_of_3 C (get_indices 3 C r) = r" "color_of_3 C (get_indices 3 C s) = s"
      using space.indices[OF l pos] assms(2-) D(4) by auto
    then show ?thesis using space.ghost_shared[OF l _ D(2), of TD "get_indices 3 C r" "get_indices 3 C s" nhd p] D(3) at l
      by (simp add: rank_boxes_def Let_def)
  qed
qed


text \<open>
  C37: If every primary box is at least two cells and two halos wide in every dimension, every cell of the
  halo outside the domain belongs to the rank that has the nearest cell of the domain: the domain halo
  boxes of a rank cover these cells, each once, and nothing else.  (In narrower grids cells are missed:
  \<open>box_narrow_grid_defect\<close> below.)
\<close>

theorem box_domain_halo_nearest:
  assumes "box_input sz G hl nhd TD C" "0 \<le> r" "r < sz"
  shows "\<exists>R. box_color_rank sz r G hl nhd TD C = ok R \<and>
    (\<forall>p. length (filter (in_box p) (domain_halo R)) =
      (if in_box p (extended_domain G nhd) \<and> \<not> in_box p (box_domain G nhd) \<and> in_box (clamp G nhd p) (info_box (primary R))
       then 1 else 0))"
proof (intro exI conjI allI)
  show "box_color_rank sz r G hl nhd TD C = ok (rank_boxes G hl nhd TD C r)" by (rule box_color_rank_boxes[OF assms(1)])
  fix p
  have D: "length C = 2 \<or> length C = 3" "grid_ok G C hl" "0 \<le> nhd" using assms by (auto simp: box_input_def)
  have at: "position C (get_indices (length C) C r)" by (rule rank_position[OF assms])
  show "length (filter (in_box p) (domain_halo (rank_boxes G hl nhd TD C r))) =
      (if in_box p (extended_domain G nhd) \<and> \<not> in_box p (box_domain G nhd) \<and>
          in_box (clamp G nhd p) (info_box (primary (rank_boxes G hl nhd TD C r))) then 1 else 0)"
    using D(1) plane.halo_tiles[OF _ D(2) _ D(3), of "get_indices 2 C r" p] space.halo_tiles[OF _ D(2) _ D(3), of "get_indices 3 C r" p]
      at halo_clamp[OF D(2) at D(3), of p]
    by (elim disjE) (simp_all add: rank_boxes_def Let_def)
qed

text \<open>
  C36: If every primary box is at least two cells and two halos wide in every dimension, and the grid with
  its domain halo fits \<open>size_t\<close>, then the values are those of the machine: no bound of the primary box, of
  the exclusive box, of the outer boxes from which ghosts and domain halo are cut, or of a shared, ghost
  or domain halo box is negative or exceeds 64 bits, so that no subtraction or addition of a \<open>size_t\<close> wraps
  around.  The shared and the ghost boxes name only other ranks of the grid of colors, and every cell of a
  ghost box lies in the domain, outside the primary box, and within the halo width of it.
\<close>

theorem box_values_in_range:
  assumes "box_input sz G hl nhd TD C" "0 \<le> r" "r < sz" "\<forall>n\<in>set G. n + 2 * nhd < 2 ^ 64"
  shows "\<exists>R. box_color_rank sz r G hl nhd TD C = ok R \<and>
    (let P = primary R; b = info_box P in
      box_within (2 ^ 64) b \<and> box_within (2 ^ 64) (color_box (exclusive R)) \<and>
      box_within (2 ^ 64) (ghost_bounds (nhalo P) (onbnd P) b) \<and>
      box_within (2 ^ 64) (domain_bounds (nhalo_domain P) (onbnd P) b)) \<and>
    (\<forall>b\<in>set (shared R) \<union> set (ghost R). box_within (2 ^ 64) (color_box b) \<and> (\<forall>c\<in>set (colors b). 0 \<le> c \<and> c < sz \<and> c \<noteq> r)) \<and>
    (\<forall>b\<in>set (domain_halo R). box_within (2 ^ 64) b) \<and>
    (\<forall>g\<in>set (ghost R). \<forall>p. in_box p (color_box g) \<longrightarrow>
      in_box p (box_domain G nhd) \<and> \<not> in_box p (info_box (primary R)) \<and> near_box hl p (info_box (primary R)))"
proof (intro exI conjI)
  show "box_color_rank sz r G hl nhd TD C = ok (rank_boxes G hl nhd TD C r)" by (rule box_color_rank_boxes[OF assms(1)])
  have D: "length C = 2 \<or> length C = 3" "grid_ok G C hl" "TD < length C" "prod_list C = sz" "0 \<le> nhd" "length G = length C"
    and pos: "\<forall>n\<in>set C. 0 < n"
    using assms by (auto simp: box_input_def grid_ok_def wide_def all_set_conv_all_nth)
  have at: "position C (get_indices (length C) C r)" by (rule rank_position[OF assms(1-3)])
  have m: "\<forall>d<length C. G ! d + 2 * nhd < 2 ^ 64" using assms(4) D(6) by simp
  show "let P = primary (rank_boxes G hl nhd TD C r); b = info_box P in
      box_within (2 ^ 64) b \<and> box_within (2 ^ 64) (color_box (exclusive (rank_boxes G hl nhd TD C r))) \<and>
      box_within (2 ^ 64) (ghost_bounds (nhalo P) (onbnd P) b) \<and>
      box_within (2 ^ 64) (domain_bounds (nhalo_domain P) (onbnd P) b)"
    using rank_bounds_within[OF D(2) at D(5) m] by (simp add: rank_boxes_def Let_def)
  from D(1) show "\<forall>b\<in>set (shared (rank_boxes G hl nhd TD C r)) \<union> set (ghost (rank_boxes G hl nhd TD C r)).
      box_within (2 ^ 64) (color_box b) \<and> (\<forall>c\<in>set (colors b). 0 \<le> c \<and> c < sz \<and> c \<noteq> r)"
  proof
    assume l: "length C = 2"
    have "color_of_2 C (get_indices 2 C r) = r" using plane.indices[OF l pos] assms(2,3) D(4) by auto
    then show ?thesis
      using plane.shared_values[OF l _ D(2) _ D(5), of TD "get_indices 2 C r" "2 ^ 64"]
        plane.ghost_values[OF l _ D(2) _ D(5), of TD "get_indices 2 C r" "2 ^ 64"] D(3,4) at m l
      by (auto simp: rank_boxes_def Let_def)
  next
    assume l: "length C = 3"
    have "color_of_3 C (get_indices 3 C r) = r" using space.indices[OF l pos] assms(2,3) D(4) by auto
    then show ?thesis
      using space.shared_values[OF l _ D(2) _ D(5), of TD "get_indices 3 C r" "2 ^ 64"]
        space.ghost_values[OF l _ D(2) _ D(5), of TD "get_indices 3 C r" "2 ^ 64"] D(3,4) at m l
      by (auto simp: rank_boxes_def Let_def)
  qed
  show "\<forall>b\<in>set (domain_halo (rank_boxes G hl nhd TD C r)). box_within (2 ^ 64) b"
    using D(1) plane.halo_values[OF _ D(2) _ D(5), of "get_indices 2 C r" "2 ^ 64"]
      space.halo_values[OF _ D(2) _ D(5), of "get_indices 3 C r" "2 ^ 64"] at m
    by (elim disjE) (simp_all add: rank_boxes_def Let_def)
  show "\<forall>g\<in>set (ghost (rank_boxes G hl nhd TD C r)). \<forall>p. in_box p (color_box g) \<longrightarrow> in_box p (box_domain G nhd) \<and>
      \<not> in_box p (info_box (primary (rank_boxes G hl nhd TD C r))) \<and> near_box hl p (info_box (primary (rank_boxes G hl nhd TD C r)))"
    using D(1) plane.ghost_place[OF _ _ D(2), of TD "get_indices 2 C r"] space.ghost_place[OF _ _ D(2), of TD "get_indices 3 C r"] D(3) at
    by (elim disjE) (simp_all add: rank_boxes_def Let_def)
qed

text \<open>
  In a grid that is one cell wide the ghosts are missing: the rank below still shares its cells with
  the rank above, which has no ghost box at all, because the test for an empty layer also drops the
  middle layer of a single cell; the domain halo loses its faces in the same way.
\<close>

theorem box_narrow_grid_defect:
  "\<exists>R S. box_color_rank 2 0 [1, 4] 1 1 0 [1, 2] = ok R \<and> box_color_rank 2 1 [1, 4] 1 1 0 [1, 2] = ok S \<and>
    shared R = [\<lparr>color_box = \<lparr>lowerbnd = [1, 2], upperbnd = [1, 2]\<rparr>, colors = [1]\<rparr>] \<and> ghost S = [] \<and>
    filter (in_box [1, 0]) (domain_halo R) = []"
proof (intro exI conjI)
  show "box_color_rank 2 0 [1, 4] 1 1 0 [1, 2] = ok
      \<lparr>primary = \<lparr>info_box = \<lparr>lowerbnd = [1, 1], upperbnd = [1, 2]\<rparr>, nhalo = 1, nhalo_domain = 1, thru_dim = 0,
          onbnd = [True, True, True, False]\<rparr>,
       exclusive = \<lparr>color_box = \<lparr>lowerbnd = [1, 1], upperbnd = [1, 1]\<rparr>, colors = [0]\<rparr>,
       shared = [\<lparr>color_box = \<lparr>lowerbnd = [1, 2], upperbnd = [1, 2]\<rparr>, colors = [1]\<rparr>], ghost = [],
       domain_halo = [\<lparr>lowerbnd = [0, 0], upperbnd = [0, 0]\<rparr>, \<lparr>lowerbnd = [2, 0], upperbnd = [2, 0]\<rparr>,
          \<lparr>lowerbnd = [0, 1], upperbnd = [0, 2]\<rparr>, \<lparr>lowerbnd = [2, 1], upperbnd = [2, 2]\<rparr>]\<rparr>"
    by code_simp
  show "box_color_rank 2 1 [1, 4] 1 1 0 [1, 2] = ok
      \<lparr>primary = \<lparr>info_box = \<lparr>lowerbnd = [1, 3], upperbnd = [1, 4]\<rparr>, nhalo = 1, nhalo_domain = 1, thru_dim = 0,
          onbnd = [True, True, False, True]\<rparr>,
       exclusive = \<lparr>color_box = \<lparr>lowerbnd = [1, 4], upperbnd = [1, 4]\<rparr>, colors = [1]\<rparr>,
       shared = [\<lparr>color_box = \<lparr>lowerbnd = [1, 3], upperbnd = [1, 3]\<rparr>, colors = [0]\<rparr>], ghost = [],
       domain_halo = [\<lparr>lowerbnd = [0, 3], upperbnd = [0, 4]\<rparr>, \<lparr>lowerbnd = [2, 3], upperbnd = [2, 4]\<rparr>,
          \<lparr>lowerbnd = [0, 5], upperbnd = [0, 5]\<rparr>, \<lparr>lowerbnd = [2, 5], upperbnd = [2, 5]\<rparr>]\<rparr>"
    by code_simp
qed (simp_all add: in_box_def All_less_Suc)

section \<open>Examples\<close>

lemma plane_input: "box_input 4 [8, 6] 1 1 0 [2, 2]"
  by (simp add: box_input_def grid_ok_def wide_def All_less_Suc)

lemma space_input: "box_input 8 [4, 5, 6] 1 1 1 [2, 2, 2]"
  by (simp add: box_input_def grid_ok_def wide_def All_less_Suc)

lemma box_color_tiles_witness:
  "\<exists>R. (\<forall>r. 0 \<le> r \<and> r < 8 \<longrightarrow> box_color_rank 8 r [4, 5, 6] 1 1 1 [2, 2, 2] = ok (R r)) \<and>
    (\<exists>!r. 0 \<le> r \<and> r < 8 \<and> in_box [2, 5, 3] (info_box (primary (R r))))"
proof -
  have "in_box [2, 5, 3] (box_domain [4, 5, 6] 1)" by (simp add: in_box_def box_domain_def All_less_Suc)
  then show ?thesis using box_color_tiles[OF space_input] by blast
qed

lemma box_ghosts_are_shared_witness:
  "\<exists>R S. box_color_rank 4 0 [8, 6] 1 1 0 [2, 2] = ok R \<and> box_color_rank 4 3 [8, 6] 1 1 0 [2, 2] = ok S \<and>
    (\<forall>p. (\<exists>g\<in>set (ghost R). in_box p (color_box g) \<and> 3 \<in> set (colors g)) \<longleftrightarrow>
         (\<exists>b\<in>set (shared S). in_box p (color_box b) \<and> 0 \<in> set (colors b)))"
  by (rule box_ghosts_are_shared[OF plane_input]) simp_all

lemma box_domain_halo_nearest_witness:
  "\<exists>R. box_color_rank 4 0 [8, 6] 1 1 0 [2, 2] = ok R \<and> length (filter (in_box [0, 0]) (domain_halo R)) =
    (if in_box [1, 1] (info_box (primary R)) then 1 else 0)"
proof -
  have e: "in_box [0, 0] (extended_domain [8, 6] 1)" "\<not> in_box [0, 0] (box_domain [8, 6] 1)" "clamp [8, 6] 1 [0, 0] = [1, 1]"
    by (simp_all add: in_box_def extended_domain_def box_domain_def clamp_def All_less_Suc)
  have "\<exists>R. box_color_rank 4 0 [8, 6] 1 1 0 [2, 2] = ok R \<and> (\<forall>p. length (filter (in_box p) (domain_halo R)) =
      (if in_box p (extended_domain [8, 6] 1) \<and> \<not> in_box p (box_domain [8, 6] 1) \<and>
        in_box (clamp [8, 6] 1 p) (info_box (primary R)) then 1 else 0))"
    by (rule box_domain_halo_nearest[OF plane_input]) simp_all
  then obtain R where R: "box_color_rank 4 0 [8, 6] 1 1 0 [2, 2] = ok R" "length (filter (in_box [0, 0]) (domain_halo R)) =
      (if in_box [0, 0] (extended_domain [8, 6] 1) \<and> \<not> in_box [0, 0] (box_domain [8, 6] 1) \<and>
        in_box (clamp [8, 6] 1 [0, 0]) (info_box (primary R)) then 1 else 0)" by blast
  show ?thesis using R e by (intro exI[of _ R]) simp
qed

lemma box_values_in_range_witness:
  "\<exists>R. box_color_rank 8 7 [4, 5, 6] 1 1 1 [2, 2, 2] = ok R \<and> box_within (2 ^ 64) (color_box (exclusive R)) \<and>
    (\<forall>b\<in>set (ghost R). \<forall>p. in_box p (color_box b) \<longrightarrow> \<not> in_box p (info_box (primary R)))"
proof -
  have "\<forall>n\<in>set [4, 5, 6]. n + 2 * 1 < (2 :: int) ^ 64" by simp
  from box_values_in_range[OF space_input _ _ this, of 7] show ?thesis by (force simp: Let_def)
qed

end
