(* ===== verification/Spec2Isabelle.thy ===== *)
theory Spec2Isabelle
  imports Hash_Keys Task_Dag Array_Views Sparse_Data Mesh_Connectivity Coloring Thread_Pool Tree_Search Ghost_Coloring Communicator Task_Flow Colored_Fields Match_Ids Box_Layout
begin

text \<open>
  A verification development of FleCSI, a C++ framework for multi-physics codes.  All source paths are
  relative to src/flecsi/.

  \<^bold>\<open>The program.\<close>  A FleCSI application describes its meshes (index spaces and the connectivities
  between them), registers fields on the index spaces and launches tasks on the fields.  The framework

    \<^item> colors the mesh: coloring/ gives every rank of the machine its part of every index space, split into
      exclusive entities (used by nobody else), shared entities (owned here, used elsewhere) and ghosts
      (copies of entities owned elsewhere);
    \<^item> keeps the mesh of a rank: topology/ stores connectivities and derives the missing ones, and has a
      second, tree-shaped topology for particles;
    \<^item> keeps the fields: data/ has dense, ragged and sparse storage classes and the accessors tasks see;
    \<^item> runs tasks: execution/ decides by the permissions of a task which ghosts have to be fetched before it
      and which become stale by it, and fetches them through the runtime (MPI, HPX or Legion);
    \<^item> rests on utils/ (packed identifiers, registry hashes, a dependency graph, sequence containers,
      permutations) and concurrency/ (a semaphore and a thread pool for walks over the tree).

  The development models the sequential and the distributed algorithms of these parts, statement by statement
  where their order matters, for the MPI runtime.

  \<^bold>\<open>Conventions\<close> (Flecsi\_Prelude).  A result that can fail is an \<open>outcome\<close>: \<open>Inr v\<close> (written \<open>ok v\<close>) or
  \<open>Inl\<close> of a \<open>failure\<close>, which names the exception, the failed assertion or the undefined access of the
  source; \<open>and_then\<close> sequences, \<open>fold_outcome\<close> and \<open>traverse\<close> are loops.  Objects are records, threaded
  through the operations; a \<open>std::map\<close> is the ascending association list of Std\_Map.  A program run by all
  ranks is a function on the list of the states of the ranks, in which every local step is applied to each
  rank and every collective is applied once to the list.

  \<^bold>\<open>Words and identifiers.\<close>
    \<^item> Packed\_Words: \<open>offset_u\<close> (utils/offset.h) and \<open>id_\<close> (utils/id.h) with their bit fields.  The interface
      \<open>packed_pair\<close> states what two fields of one word promise; \<open>offset_u\<close> is an interpretation.  The order
      of \<open>id_\<close> is shown to be lexicographic.
    \<^item> Hash\_Keys: the registry keys of utils/hash.h and utils/debruijn.h, on 64-bit words, with the lemmas
      that say which fields a key gives back and the key that does not.
    \<^item> Branch\_Id: \<open>branch_id_u\<close> of topology/tree\_topology.h as machine words.  \<open>branch_path\<close> is the list of
      digits a word denotes; every operation is the list operation.

  \<^bold>\<open>Containers and permutations.\<close>
    \<^item> Raw\_Memory: a block of cells with the shifting algorithms of the standard library, in their direction.
    \<^item> Array\_Views: \<open>vector_ref\<close> (utils/array\_ref.h) and \<open>fixed_vector\<close> (utils/fixed\_vector.h).
    \<^item> Row\_Vector: \<open>row_vector_u\<close> (data/common/row\_vector.h) with 32-bit counters; abstraction
      \<open>row_list\<close>, invariant \<open>row_wf\<close>; the operations refine those of lists.
    \<^item> Sparse\_Data: data/sparse\_data\_handle.h with the ragged and sparse accessors and mutators.  The
      interface \<open>growing_store\<close> states the contract of a map kept in a growing row; the sparse row is its
      interpretation, and sequences of mutations are shown to build the same map.
    \<^item> Reorder: utils/reorder.h.  The loops may run forever on a bad order array: they are partial functions,
      and on every permutation they are shown to return.  Also utils/set\_intersection.h.
    \<^item> Std\_Map: \<open>std::map\<close>, through the interface \<open>keyed_store\<close>.

  \<^bold>\<open>Tasks and threads.\<close>
    \<^item> Task\_Dag: utils/dag.h.  \<open>dag_sort\<close> is shown to be a topological sort exactly on acyclic graphs; its
      loop is bounded by the number of nodes plus one, which is enough because every round removes a node.
    \<^item> Virtual\_Semaphore and Thread\_Pool: concurrency/ as step relations, one step for each statement
      that can be interleaved with another thread, spurious wake-ups included.  Invariants by rule induction over the
      reachable states give safety; from them follow the absence of stuck states while the pool is open,
      and a reachable stuck state of \<open>join()\<close>, the lost notification of \<open>interrupt()\<close>.

  \<^bold>\<open>The tree\<close> (topology/tree\_topology.h).
    \<^item> Tree\_Geometry: \<open>tree_geometry_u\<close> in one, two and three dimensions.
    \<^item> Tree\_Topology: the branches and entities and every operation that changes them; a branch is named by
      its id, the map from ids to branches is also the store of the objects.
    \<^item> Tree\_Insertion: the invariant \<open>tree_wf\<close> and insertion with its refinement.
      Fuel: \<open>insert_fuel\<close> is \<open>max_branch_depth\<close> plus two; an insertion descends at most that many levels.  Running
      out of fuel is the failure \<open>Out_of_fuel\<close>; the theorem states success or the failure \<open>Undefined\<close>, which is the
      undefined shift of a branch id by more than its width, reached when more entities than a leaf holds
      share the smallest cell.
    \<^item> Tree\_Search: the sequential walks and the walk that hands subtrees to the thread pool.
      Fuel: \<open>walk_fuel\<close> is \<open>max_branch_depth\<close> plus one, the largest depth of a subtree.
\<close>

text \<open>
  \<^bold>\<open>The mesh\<close> (topology/).
    \<^item> Connectivity: \<open>offset_storage_\<close> and \<open>connectivity_t\<close>; \<open>conn_of\<close> represents a list of rows, and the
      operations act on the rows.
    \<^item> Mesh\_Topology: \<open>init_entity\<close>, \<open>transpose\<close>, \<open>intersect\<close> and \<open>build_connectivity\<close> of mesh\_topology.h, the
      latter with and without an intermediate map that prescribes the numbers of the entities.
    \<^item> Mesh\_Connectivity: the driver \<open>compute_connectivity\<close> of mesh\_topology.h and the list of calls mesh\_utils.h
      makes of it.  What an application's mesh type provides (the vertices of the entities of a cell, the
      creation of an entity, the maps of local to global ids) is the parameter \<open>mesh_context\<close>.  Fuel is the
      depth of nested calls: four suffice for consistent meshes with the vertices of all registered entities, and
      running out of it is \<open>Out_of_fuel\<close>, so that a call which never returns fails so at every depth; one is shown,
      for meshes with registered entities whose vertices are missing.

  \<^bold>\<open>Coloring\<close> (coloring/).
    \<^item> Crs and Coloring: \<open>crs_t\<close> and the routines of dcrs\_utils.h that see the whole mesh.
    \<^item> Exchange: the buffer pattern shared by the distributed routines of dcrs\_utils.h.  MPI is not under src/:
      it is the parameter \<open>mpi\<close>, a record of the collectives, and \<open>mpi_works\<close> states their documented
      behaviour (\<open>MPI_Alltoall\<close> transposes, \<open>MPI_Alltoallv\<close> delivers the segments, a matched send and
      receive deliver the message).  The witnesses run on a concrete network.
    \<^item> Distributed\_Graph (\<open>make_dcrs_distributed\<close>), Ghost\_Coloring (\<open>get_owner_info\<close>,
      \<open>ghost_connectivity\<close>), Match\_Ids (\<open>match_ids\<close>) and Entity\_Coloring (\<open>color_entities\<close>) are the distributed
      routines, each on the list of the ranks.  Their theorems speak of the whole machine: the union of what
      the ranks hold is the sequential result, and the lists of different ranks agree.
    \<^item> Communicator: \<open>mpi_communicator_t\<close> (mpi\_communicator.h), with which the ranks find the owners, users
      and offsets of entities; the theorems say what each rank learns from the arguments of all of them.
    \<^item> Box\_Coloring, Box\_Directions and Box\_Layout: simple\_box\_colorer.h.  The source has
      separate code for two and three dimensions; both are modelled as written and shown to be
      interpretations of the interface \<open>box_layout\<close>, in which the geometry is proved once, for grids in which
      every box of a rank is at least two cells and two halos wide; in narrower grids ghosts are shown to be lost.

  \<^bold>\<open>From coloring to tasks\<close> (execution/, MPI runtime).
    \<^item> Point\_To\_Point: exchanges of single messages under one tag.
    \<^item> Index\_Remap: \<open>remap_shared_entities\<close> (remap\_shared.h) takes colorings that agree
      (\<open>halo_agrees\<close>) to colorings whose offsets are positions in the owners' lists (\<open>halo_indexed\<close>);
      also the index maps of mpi/runtime\_driver.cc.
    \<^item> Ghost\_Exchange: \<open>register_field_metadata\<close> (mpi/context\_policy.h) and \<open>launch_dense_exchange\<close>
      (mpi/task\_prolog.h); needs \<open>halo_agrees\<close> and \<open>halo_indexed\<close>, and leaves every ghost with the bytes of its owner.
    \<^item> Task\_Flow: prolog, body and epilog of \<open>execute_task\<close>.  The invariant \<open>coherent\<close> says of the trusted fields
      that a set flag \<open>ghost_is_readable\<close> is truthful; a task that obeys its permissions sees current ghosts of
      them.  A task with the right to write ghosts sets the flag whatever it wrote: its field is trusted no more,
      and ghosts it left stale are shown to stay so.
    \<^item> Colored\_Fields composes them: the colorings \<open>get_owner_info\<close> and \<open>color_entities\<close> give the ranks meet
      what \<open>remap_shared_entities\<close> needs, and its result what the dense exchange needs.

  \<^bold>\<open>Bounds.\<close>  Integers are words where the code relies on their width: packed identifiers, hashes, branch
  identifiers and row counters.  Elsewhere sizes are naturals, with the reduction modulo \<open>2 ^ 32\<close> written out
  where the source stores ranks, offsets or counters in 32 bits and modulo \<open>2 ^ 64\<close> where it adds one to the largest
  id of the mesh.  A size the source passes to MPI as \<open>int\<close> fails from \<open>2 ^ 31\<close> on, and hypotheses keep the
  sizes below (\<open>exchange\<close> follows the source, which cuts longer messages).  Box bounds are integers, and a theorem
  shows all of them to stay in range for grids of wide boxes.  Coordinates are rationals: rounding of floating-point numbers is not modelled.  Bytes of
  fields are opaque values.

  \<^bold>\<open>Not modelled.\<close>
    \<^item> The Legion and HPX runtimes: calls of third-party services.  Third-party graph colorers (ParMETIS, METIS),
      HDF5 and Exodus input and output, and the analyser flecstan, whose core is clang.
    \<^item> The registries of execution/context.h: insertions into and lookups in maps behind a singleton; and the
      registration and handle types of data/, which are computed by templates from the types of an
      application.
    \<^item> In mesh\_topology.h \<open>compute_bindings\<close> and \<open>build_bindings\<close>, where the code calls \<open>abort()\<close> with the message that it is broken;
      index subspaces and serialisation; in tree\_topology.h serialisation and the walks over the thread
      pool other than the radius query; in dcrs\_utils.h \<open>migrate\<close>, which moves raw bytes of an
      application's mesh definition.
    \<^item> Exchange of ragged fields, the one-sided variant of the dense exchange, and global and client handles in
      the prolog.
    \<^item> Failure of MPI (the default handler ends the program), overflow of \<open>int\<close> loop counters, allocation failure.
\<close>

end
